(* ===== verification/Prelude.thy ===== *)
theory Prelude
  imports Main
begin

section \<open>Shared vocabulary of the development\<close>

text \<open>
  This theory holds what the component theories share: the state-and-error shape of a C
  function that may stop the process (\<open>err_dump\<close>, \<open>err_quit\<close>, \<open>err_sys\<close>), the
  collections of simplification facts, and generic lemmas on lists (the bytes of files and
  buffers) that no component should prove twice.
\<close>

named_theorems run_simps \<open>equations that execute the state-passing combinators\<close>
named_theorems byte_simps \<open>lengths and slices of encoded fields\<close>

text \<open>The size of a line buffer (\<open>apue.h\<close>).\<close>

definition MAXLINE :: nat where "MAXLINE = 4096"

subsection \<open>Computations over a state that may stop with an error\<close>

text \<open>
  A C function that reads and writes a state is a function from the state to a result and
  the state it leaves. The result is \<open>Inl e\<close> when the function stopped the process with
  the error \<open>e\<close>; the state is returned in that case too, because files keep the bytes
  that were written before the process died.
\<close>

type_synonym ('s, 'e, 'a) prog = "'s \<Rightarrow> ('e + 'a) \<times> 's"

definition ret :: "'a \<Rightarrow> ('s, 'e, 'a) prog" where
  "ret x = (\<lambda>s. (Inr x, s))"

definition fail :: "'e \<Rightarrow> ('s, 'e, 'a) prog" where
  "fail e = (\<lambda>s. (Inl e, s))"

definition bnd :: "('s, 'e, 'a) prog \<Rightarrow> ('a \<Rightarrow> ('s, 'e, 'b) prog) \<Rightarrow> ('s, 'e, 'b) prog" where
  "bnd m f = (\<lambda>s. case m s of (Inl e, s') \<Rightarrow> (Inl e, s') | (Inr x, s') \<Rightarrow> f x s')"

definition gets :: "('s \<Rightarrow> 'a) \<Rightarrow> ('s, 'e, 'a) prog" where
  "gets f = (\<lambda>s. (Inr (f s), s))"

definition modify :: "('s \<Rightarrow> 's) \<Rightarrow> ('s, 'e, unit) prog" where
  "modify f = (\<lambda>s. (Inr (), f s))"

definition check :: "bool \<Rightarrow> 'e \<Rightarrow> ('s, 'e, unit) prog" where
  "check b e = (if b then ret () else fail e)"

lemma ret_run [run_simps]: "ret x s = (Inr x, s)"
  by (simp add: ret_def)

lemma fail_run [run_simps]: "fail e s = (Inl e, s)"
  by (simp add: fail_def)

lemma gets_run [run_simps]: "gets f s = (Inr (f s), s)"
  by (simp add: gets_def)

lemma modify_run [run_simps]: "modify f s = (Inr (), f s)"
  by (simp add: modify_def)

lemma check_run [run_simps]: "check b e s = (if b then Inr () else Inl e, s)"
  by (simp add: check_def ret_run fail_run)

lemma bnd_run_Inr [run_simps]: "m s = (Inr x, s') \<Longrightarrow> bnd m f s = f x s'"
  by (simp add: bnd_def)

lemma bnd_run_Inl [run_simps]: "m s = (Inl e, s') \<Longrightarrow> bnd m f s = (Inl e, s')"
  by (simp add: bnd_def)

lemma bnd_Inr_cases:
  assumes "bnd m f s = (Inr y, t)"
  obtains x s' where "m s = (Inr x, s')" and "f x s' = (Inr y, t)"
  using assms by (auto simp: bnd_def split: prod.splits sum.splits)

lemma bnd_assoc: "bnd (bnd m f) g = bnd m (\<lambda>x. bnd (f x) g)"
  by (auto simp: bnd_def fun_eq_iff split: prod.splits sum.splits)

text \<open>\<open>runs m s x t\<close>: started in \<open>s\<close>, \<open>m\<close> returns \<open>x\<close> and leaves \<open>t\<close>.\<close>

definition runs :: "('s, 'e, 'a) prog \<Rightarrow> 's \<Rightarrow> 'a \<Rightarrow> 's \<Rightarrow> bool" where
  "runs m s x t \<longleftrightarrow> m s = (Inr x, t)"

lemma runsI: "m s = (Inr x, t) \<Longrightarrow> runs m s x t"
  by (simp add: runs_def)

lemma runsD: "runs m s x t \<Longrightarrow> m s = (Inr x, t)"
  by (simp add: runs_def)

lemma runs_bnd: "runs m s x s' \<Longrightarrow> runs (f x) s' y t \<Longrightarrow> runs (bnd m f) s y t"
  by (simp add: runs_def bnd_run_Inr)

lemma bnd_step: "runs m s x s' \<Longrightarrow> bnd m f s = f x s'"
  by (simp add: runs_def bnd_run_Inr)

lemma runs_step: "runs m s x s' \<Longrightarrow> runs (bnd m f) s y t = runs (f x) s' y t"
  by (simp add: runs_def bnd_run_Inr)

lemma runs_ret [simp]: "runs (ret x) s y t \<longleftrightarrow> y = x \<and> t = s"
  by (auto simp: runs_def ret_run)

lemma runs_assoc [simp]: "runs (bnd (bnd m f) g) s y t = runs (bnd m (\<lambda>x. bnd (f x) g)) s y t"
  by (simp add: bnd_assoc)

lemma runs_gets [simp]: "runs (gets g) s y t \<longleftrightarrow> y = g s \<and> t = s"
  by (auto simp: runs_def gets_run)

lemma runs_modify [simp]: "runs (modify g) s y t \<longleftrightarrow> t = g s"
  by (auto simp: runs_def modify_run)

lemma runs_check [simp]: "runs (check b e) s y t \<longleftrightarrow> b \<and> t = s"
  by (auto simp: runs_def check_run)

lemma runs_gets_step [simp]: "runs (bnd (gets g) f) s y t = runs (f (g s)) s y t"
  by (simp add: runs_def bnd_run_Inr gets_run)

lemma runs_modify_step [simp]: "runs (bnd (modify g) f) s y t = runs (f ()) (g s) y t"
  by (simp add: runs_def bnd_run_Inr modify_run)

lemma runs_ret_step [simp]: "runs (bnd (ret x) f) s y t = runs (f x) s y t"
  by (simp add: runs_def bnd_run_Inr ret_run)

lemma runs_check_step [simp]: "b \<Longrightarrow> runs (bnd (check b e) f) s y t = runs (f ()) s y t"
  by (simp add: runs_def bnd_run_Inr check_run)

lemma runs_bnd_iff: "runs (bnd m f) s y t \<longleftrightarrow> (\<exists>x u. runs m s x u \<and> runs (f x) u y t)"
  by (auto simp: runs_def bnd_def split: prod.splits sum.splits)

subsection \<open>A run keeps a relation between its states\<close>

text \<open>
  \<open>keeps R m\<close>: whatever \<open>m\<close> returns, the state it leaves is related to the state it
  started from. Frame properties of a handler (it never touches this field) are proved
  through its calls with these rules.
\<close>

definition keeps :: "('s \<Rightarrow> 's \<Rightarrow> bool) \<Rightarrow> ('s, 'e, 'a) prog \<Rightarrow> bool" where
  "keeps R m \<longleftrightarrow> (\<forall>s. R s (snd (m s)))"

lemma keeps_bnd:
  assumes "transp R" and "keeps R m" and "\<And>x. keeps R (f x)"
  shows "keeps R (bnd m f)"
  unfolding keeps_def
proof
  fix s
  show "R s (snd (bnd m f s))"
  proof (cases "m s")
    case (Pair r s')
    with assms(2) have "R s s'" by (metis keeps_def snd_conv)
    with Pair assms(1,3) show ?thesis
      by (cases r) (auto simp: bnd_def keeps_def elim!: transpE)
  qed
qed

lemma keeps_ret: "reflp R \<Longrightarrow> keeps R (ret x)"
  by (simp add: keeps_def ret_run reflpD)

lemma keeps_fail: "reflp R \<Longrightarrow> keeps R (fail e)"
  by (simp add: keeps_def fail_run reflpD)

lemma keeps_gets: "reflp R \<Longrightarrow> keeps R (gets f)"
  by (simp add: keeps_def gets_run reflpD)

lemma keeps_check: "reflp R \<Longrightarrow> keeps R (check b e)"
  by (simp add: keeps_def check_run reflpD)

lemma keeps_modify: "(\<And>s. R s (f s)) \<Longrightarrow> keeps R (modify f)"
  by (simp add: keeps_def modify_run)

lemma keepsD: "keeps R m \<Longrightarrow> m s = (r, t) \<Longrightarrow> R s t"
  by (metis keeps_def snd_conv)

subsection \<open>Overwriting a segment of a list\<close>

text \<open>
  \<open>splice f pos bs\<close> is the list \<open>f\<close> with \<open>bs\<close> written over it at \<open>pos\<close>: what
  \<open>write\<close> does to the bytes of a file that reaches at least to \<open>pos\<close>.
\<close>

definition splice :: "'a list \<Rightarrow> nat \<Rightarrow> 'a list \<Rightarrow> 'a list" where
  "splice f pos bs = take pos f @ bs @ drop (pos + length bs) f"

definition segment :: "nat \<Rightarrow> nat \<Rightarrow> 'a list \<Rightarrow> 'a list" where
  "segment pos n f = take n (drop pos f)"

lemma length_splice [byte_simps]:
  "pos + length bs \<le> length f \<Longrightarrow> length (splice f pos bs) = length f"
  by (simp add: splice_def)

lemma length_segment [byte_simps]: "pos + n \<le> length f \<Longrightarrow> length (segment pos n f) = n"
  by (simp add: segment_def)

lemma splice_at_end: "splice f (length f) bs = f @ bs"
  by (simp add: splice_def)

lemma splice_append:
  assumes "length xs = pos" and "length ys = length bs"
  shows "splice (xs @ ys @ zs) pos bs = xs @ bs @ zs"
  using assms by (simp add: splice_def)

lemma segment_append:
  assumes "length xs = pos" and "length ys = n"
  shows "segment pos n (xs @ ys @ zs) = ys"
  using assms by (simp add: segment_def)

lemma segment_splice_same [byte_simps]:
  "pos \<le> length f \<Longrightarrow> segment pos (length bs) (splice f pos bs) = bs"
  by (simp add: segment_def splice_def)

lemma segment_splice_before:
  assumes "p + n \<le> pos" and "pos \<le> length f"
  shows "segment p n (splice f pos bs) = segment p n f"
proof -
  have "segment p n (take pos f @ g) = segment p n f" for g
    using assms by (simp add: segment_def drop_take)
  then show ?thesis by (simp add: splice_def)
qed

lemma segment_splice_after:
  assumes "pos + length bs \<le> p" and "pos + length bs \<le> length f"
  shows "segment p n (splice f pos bs) = segment p n f"
  using assms by (simp add: segment_def splice_def algebra_simps)

lemma segment_append_left: "p + n \<le> length f \<Longrightarrow> segment p n (f @ g) = segment p n f"
  by (simp add: segment_def)

lemma segment_append_right: "segment (length f) (length g) (f @ g) = g"
  by (simp add: segment_def)

subsection \<open>Lists of distinct elements\<close>

lemma distinct_split_unique:
  assumes "distinct (xs @ x # ys)"
  shows "x \<notin> set xs" and "x \<notin> set ys"
  using assms by auto

lemma distinct_map_remove:
  assumes "distinct (map f (ys @ x # zs))"
  shows "distinct (map f (ys @ zs))" and "\<And>y. y \<in> set ys \<Longrightarrow> f y \<noteq> f x" and "\<And>y. y \<in> set zs \<Longrightarrow> f y \<noteq> f x"
  using assms by (simp_all add: image_iff) metis+

lemma last_Cons_append: "last (q # ys @ [x]) = x"
  by simp

lemma nth_update_if: "xs[i := x] ! k = (if k = i \<and> i < length xs then x else xs ! k)"
  by (cases "i < length xs") (auto simp: nth_list_update list_update_beyond)

subsection \<open>The lowest free number of a table\<close>

definition lowest :: "nat list \<Rightarrow> nat" where
  "lowest xs = hd (filter (\<lambda>i. i \<notin> set xs) [0..<length xs + 1])"

lemma lowest_list_nonempty: "filter (\<lambda>i. i \<notin> set xs) [0 ..< length xs + 1] \<noteq> []"
proof -
  have "\<exists>i \<in> set [0 ..< length xs + 1]. i \<notin> set xs"
  proof (rule ccontr)
    assume "\<not> ?thesis"
    then have "card (set [0 ..< length xs + 1]) \<le> card (set xs)" by (intro card_mono) auto
    then show False using card_length [of xs] by simp
  qed
  then show ?thesis by (auto simp: filter_empty_conv)
qed

lemma lowest_free: "lowest xs \<notin> set xs"
  using hd_in_set [OF lowest_list_nonempty [of xs]] unfolding lowest_def set_filter by blast

lemma sorted_hd_le: "sorted xs \<Longrightarrow> x \<in> set xs \<Longrightarrow> hd xs \<le> x"
  by (cases xs) auto

lemma lowest_below: "i < lowest xs \<Longrightarrow> i \<in> set xs"
proof (rule ccontr)
  let ?f = "filter (\<lambda>i. i \<notin> set xs) [0 ..< length xs + 1]"
  assume i: "i < lowest xs" "i \<notin> set xs"
  have "?f \<noteq> []" using lowest_list_nonempty .
  then have "lowest xs \<in> {i \<in> set [0 ..< length xs + 1]. i \<notin> set xs}" unfolding lowest_def set_filter [symmetric] by (rule hd_in_set)
  then have "i \<in> set ?f" using i by (simp only: set_filter set_upt mem_Collect_eq atLeastLessThan_iff) auto
  moreover have "sorted ?f" by (intro sorted_wrt_filter sorted_upt)
  ultimately have "hd ?f \<le> i" by (intro sorted_hd_le)
  then show False using i(1) by (simp add: lowest_def)
qed

lemma lowest_eq_iff: "lowest xs = k \<longleftrightarrow> k \<notin> set xs \<and> (\<forall>i < k. i \<in> set xs)"
  using lowest_free [of xs] lowest_below [of _ xs] by (metis linorder_neqE_nat)

lemma lowest_012:
  "lowest xs = 0 \<longleftrightarrow> 0 \<notin> set xs"
  "lowest (0 # xs) = 1 \<longleftrightarrow> 1 \<notin> set xs"
  "lowest (1 # 0 # xs) = 2 \<longleftrightarrow> 2 \<notin> set xs"
  by (auto simp: lowest_eq_iff less_Suc_eq numeral_2_eq_2)

end
