(* ===== verification/CString.thy ===== *)
theory CString
  imports Prelude
begin

section \<open>C strings and decimal numbers\<close>

text \<open>
  The C library functions the programs use on null-terminated strings and on decimal
  numbers. A buffer is a list of bytes (\<open>char\<close>), and the C string it holds is the part
  before the first null byte. \<open>atol\<close> and \<open>atoi\<close> skip white space, read an optional
  sign and then digits, and saturate as the 64-bit C library does; \<open>%d\<close> and \<open>%*d\<close> are
  \<open>dec\<close> and \<open>pad\<close>. The lemmas give the round trip between printing and parsing that the
  fixed-width ASCII fields of the database and the request strings of the servers rest on.
\<close>

abbreviation NUL :: char where "NUL \<equiv> CHR 0x00"
abbreviation NEWLINE :: char where "NEWLINE \<equiv> CHR 0x0A"
abbreviation SPACE :: char where "SPACE \<equiv> CHR '' ''"

definition cstr :: "string \<Rightarrow> string" where
  "cstr b = takeWhile (\<lambda>c. c \<noteq> NUL) b"

definition nonul :: "string \<Rightarrow> bool" where
  "nonul s \<longleftrightarrow> NUL \<notin> set s"

definition isspace :: "char \<Rightarrow> bool" where
  "isspace c \<longleftrightarrow> c = SPACE \<or> (9 \<le> (of_char c :: nat) \<and> (of_char c :: nat) \<le> 13)"

definition isdigit :: "char \<Rightarrow> bool" where
  "isdigit c \<longleftrightarrow> 48 \<le> (of_char c :: nat) \<and> (of_char c :: nat) \<le> 57"

definition digit_char :: "nat \<Rightarrow> char" where
  "digit_char d = char_of (48 + d)"

fun dec :: "nat \<Rightarrow> string" where
  "dec n = (if n < 10 then [digit_char n] else dec (n div 10) @ [digit_char (n mod 10)])"

declare dec.simps [simp del]

definition dec_int :: "int \<Rightarrow> string" where
  "dec_int i = (if i < 0 then CHR ''-'' # dec (nat (- i)) else dec (nat i))"

definition pad :: "nat \<Rightarrow> string \<Rightarrow> string" where
  "pad w s = replicate (w - length s) SPACE @ s"

fun digits_val :: "nat \<Rightarrow> string \<Rightarrow> nat" where
  "digits_val acc [] = acc"
| "digits_val acc (c # cs) =
     (if isdigit c then digits_val (10 * acc + ((of_char c :: nat) - 48)) cs else acc)"

definition strtol10 :: "string \<Rightarrow> int" where
  "strtol10 b =
     (case dropWhile isspace (cstr b) of
        [] \<Rightarrow> 0
      | c # cs \<Rightarrow>
          if c = CHR ''-'' then - int (digits_val 0 cs)
          else if c = CHR ''+'' then int (digits_val 0 cs)
          else int (digits_val 0 (c # cs)))"

definition atol :: "string \<Rightarrow> int" where
  "atol b = max (- (2 ^ 63)) (min (2 ^ 63 - 1) (strtol10 b))"

definition atoi :: "string \<Rightarrow> int" where
  "atoi b = (atol b + 2 ^ 31) mod 2 ^ 32 - 2 ^ 31"

definition strchr :: "string \<Rightarrow> char \<Rightarrow> nat option" where
  "strchr b c = (let t = cstr b in
     if c \<in> set t then Some (length (takeWhile (\<lambda>x. x \<noteq> c) t)) else None)"

definition strncmp_eq :: "string \<Rightarrow> string \<Rightarrow> nat \<Rightarrow> bool" where
  "strncmp_eq a b n \<longleftrightarrow> take n (cstr a) = take n (cstr b)"

subsection \<open>Null-terminated buffers\<close>

lemma cstr_append_NUL [simp]: "nonul s \<Longrightarrow> cstr (s @ NUL # r) = s"
  by (induction s) (auto simp: cstr_def nonul_def)

lemma cstr_nonul [simp]: "nonul s \<Longrightarrow> cstr s = s"
  by (induction s) (auto simp: cstr_def nonul_def)

lemma nonul_cstr [simp]: "nonul (cstr b)"
  by (auto simp: cstr_def nonul_def dest: set_takeWhileD)

lemma cstr_simps [simp]:
  "cstr [] = []" "cstr (c # s) = (if c = NUL then [] else c # cstr s)"
  by (simp_all add: cstr_def)

lemma nonul_simps [simp]:
  "nonul []" "nonul (c # s) \<longleftrightarrow> c \<noteq> NUL \<and> nonul s" "nonul (s @ t) \<longleftrightarrow> nonul s \<and> nonul t"
  "nonul (replicate n c) \<longleftrightarrow> n = 0 \<or> c \<noteq> NUL"
  by (auto simp: nonul_def)

lemma cstr_append: "nonul s \<Longrightarrow> cstr (s @ r) = s @ cstr r"
  by (induction s) (auto simp: cstr_def)

lemma length_cstr: "length (cstr b) \<le> length b"
  by (simp add: cstr_def length_takeWhile_le)

lemma strchr_first:
  assumes "nonul a" and "c \<notin> set a" and "c \<noteq> NUL"
  shows "strchr (a @ c # r) c = Some (length a)"
proof -
  have "takeWhile (\<lambda>x. x \<noteq> c) (a @ c # cstr r) = a"
    using assms(2) by (induction a) auto
  moreover have "cstr (a @ c # r) = a @ c # cstr r"
    using assms(1,3) by (simp add: cstr_append)
  ultimately show ?thesis by (simp add: strchr_def)
qed

lemma strchr_none: "c \<notin> set (cstr b) \<Longrightarrow> strchr b c = None"
  by (simp add: strchr_def)

subsection \<open>Printing a number and reading it back\<close>

lemma of_char_digit: "d < 10 \<Longrightarrow> (of_char (digit_char d) :: nat) = 48 + d"
  by (simp add: digit_char_def)

lemma isdigit_digit [simp]: "d < 10 \<Longrightarrow> isdigit (digit_char d)"
  by (simp add: isdigit_def of_char_digit)

lemma isdigit_not_space: "isdigit c \<Longrightarrow> \<not> isspace c"
  by (auto simp: isdigit_def isspace_def)

lemma isdigit_chars:
  assumes "isdigit c"
  shows "c \<noteq> NUL" "c \<noteq> SPACE" "c \<noteq> NEWLINE" "c \<noteq> CHR '':''" "c \<noteq> CHR ''-''" "c \<noteq> CHR ''+''"
  using assms by (auto simp: isdigit_def)

lemma dec_digits: "c \<in> set (dec n) \<Longrightarrow> isdigit c"
proof (induction n rule: dec.induct)
  case (1 n)
  show ?case
  proof (cases "n < 10")
    case True
    then show ?thesis using "1.prems" by (simp add: dec.simps [of n])
  next
    case False
    then have "c \<in> set (dec (n div 10)) \<or> c = digit_char (n mod 10)"
      using "1.prems" by (auto simp: dec.simps [of n])
    then show ?thesis using "1.IH" False by auto
  qed
qed

lemma dec_nonempty [simp]: "dec n \<noteq> []"
  by (simp add: dec.simps [of n])

lemma nonul_dec [simp]: "nonul (dec n)"
  using dec_digits isdigit_chars(1) by (auto simp: nonul_def)

lemma dec_no_char:
  "CHR '':'' \<notin> set (dec n)" "NEWLINE \<notin> set (dec n)" "SPACE \<notin> set (dec n)"
  using dec_digits isdigit_chars by blast+

lemma digits_val_append:
  assumes "\<And>c. c \<in> set ds \<Longrightarrow> isdigit c"
  shows "digits_val acc (ds @ r) = digits_val (digits_val acc ds) r"
  using assms by (induction ds arbitrary: acc) auto

lemma digits_val_dec: "digits_val 0 (dec n) = n"
proof (induction n rule: dec.induct)
  case (1 n)
  show ?case
  proof (cases "n < 10")
    case True
    then show ?thesis by (simp add: dec.simps [of n] of_char_digit)
  next
    case False
    have "digits_val 0 (dec n) = digits_val (digits_val 0 (dec (n div 10))) [digit_char (n mod 10)]"
      using False by (simp add: dec.simps [of n] digits_val_append dec_digits)
    also have "\<dots> = 10 * (n div 10) + n mod 10"
      using "1.IH" False by (simp add: of_char_digit)
    finally show ?thesis by simp
  qed
qed

lemma digits_val_stop: "(r = [] \<or> \<not> isdigit (hd r)) \<Longrightarrow> digits_val acc r = acc"
  by (cases r) auto

lemma digits_val_dec_rest:
  "(r = [] \<or> \<not> isdigit (hd r)) \<Longrightarrow> digits_val 0 (dec n @ r) = n"
  by (simp add: digits_val_append dec_digits digits_val_dec digits_val_stop)

lemma hd_dec_digit: "isdigit (hd (dec n))"
  by (rule dec_digits [of _ n]) simp

lemma dropWhile_spaces_dec:
  "dropWhile isspace (replicate k SPACE @ dec n @ r) = dec n @ r"
proof -
  have "dropWhile isspace (dec n @ r) = dec n @ r"
    using isdigit_not_space [OF hd_dec_digit [of n]] by (cases "dec n") auto
  then show ?thesis by (induction k) (auto simp: isspace_def)
qed

lemma strtol10_dec:
  assumes "r = [] \<or> \<not> isdigit (hd r)"
  shows "strtol10 (replicate k SPACE @ dec n @ r) = int n"
proof -
  have c: "cstr (replicate k SPACE @ dec n @ r) = replicate k SPACE @ dec n @ cstr r"
    by (simp add: cstr_append)
  obtain d ds where d: "dec n = d # ds" by (cases "dec n") auto
  have "isdigit d" using hd_dec_digit [of n] d by simp
  then have sg: "d \<noteq> CHR ''-''" "d \<noteq> CHR ''+''" by (auto dest: isdigit_chars)
  have "cstr r = [] \<or> \<not> isdigit (hd (cstr r))"
    using assms by (cases r) (auto simp: cstr_def)
  then have "digits_val 0 (dec n @ cstr r) = n" by (rule digits_val_dec_rest)
  then show ?thesis
    unfolding strtol10_def c dropWhile_spaces_dec using sg d by simp
qed

theorem atol_pad_dec:
  assumes "n < 2 ^ 63" and "r = [] \<or> \<not> isdigit (hd r)"
  shows "atol (pad w (dec n) @ r) = int n"
proof -
  have "int n \<le> 2 ^ 63 - 1" using assms(1) by auto
  then show ?thesis
    unfolding atol_def pad_def append_assoc strtol10_dec [OF assms(2)] by simp
qed

lemma atol_pad: "n < 2 ^ 63 \<Longrightarrow> atol (pad w (dec n)) = int n"
  using atol_pad_dec [of n "[]" w] by simp

lemma atol_dec: "n < 2 ^ 63 \<Longrightarrow> (r = [] \<or> \<not> isdigit (hd r)) \<Longrightarrow> atol (dec n @ r) = int n"
  using atol_pad_dec [of n r 0] by (simp add: pad_def)

lemma atoi_pad: "n < 2 ^ 31 \<Longrightarrow> atoi (pad w (dec n)) = int n"
  by (simp add: atoi_def atol_pad)

lemma length_dec_bound: "n < 10 ^ k \<Longrightarrow> 0 < k \<Longrightarrow> length (dec n) \<le> k"
proof (induction k arbitrary: n)
  case 0
  then show ?case by simp
next
  case (Suc k)
  show ?case
  proof (cases "n < 10")
    case True
    then show ?thesis by (simp add: dec.simps [of n])
  next
    case False
    with Suc.prems(1) have "0 < k" by (cases k) auto
    have "n div 10 < 10 ^ k" using Suc.prems(1) by (simp add: less_mult_imp_div_less)
    then have "length (dec (n div 10)) \<le> k" using Suc.IH \<open>0 < k\<close> by blast
    with False show ?thesis by (simp add: dec.simps [of n])
  qed
qed

lemma length_dec_pos: "1 \<le> length (dec n)"
  by (cases "dec n") auto

lemma length_pad [byte_simps]: "length s \<le> w \<Longrightarrow> length (pad w s) = w"
  by (simp add: pad_def)

lemma nonul_pad [simp]: "nonul (pad w s) \<longleftrightarrow> nonul s"
  by (auto simp: pad_def)

lemma dec_inject: "dec m = dec n \<Longrightarrow> m = n"
  by (metis digits_val_dec)

end
