(* ===== verification/DbOps.thy ===== *)
theory DbOps
  imports CString "HOL-Library.Word"
begin

section \<open>The database library: operations (apue.3e/db/db.c)\<close>

text \<open>
  A database is an index file and a data file. A \<open>db\<close> record is the library's private
  \<open>DB\<close> structure together with the part of the kernel that the two open descriptors
  reach: the bytes of both files, the two file offsets, the access mode, this process's
  record locks, and \<open>faults\<close>, the outcomes of the coming system calls and allocations
  (\<open>True\<close>: the call fails; an exhausted list means no more failures). Every function of
  \<open>db.c\<close> is a computation over this state; \<open>err_dump\<close>, \<open>err_quit\<close> and \<open>err_sys\<close>
  end it with an error and leave the files as they are at that moment.
\<close>

datatype dbfile = Idx | Dat
datatype whence = SEEK_SET | SEEK_CUR | SEEK_END
datatype locktype = F_RDLCK | F_WRLCK
datatype errno = ENOENT | EINVAL
datatype oflag = O_RDONLY | O_WRONLY | O_RDWR | O_CREAT | O_TRUNC | O_EXCL

datatype dberr =
    ErrDump string    \<comment> \<open>\<open>err_dump\<close>: message and core dump\<close>
  | ErrQuit string    \<comment> \<open>\<open>err_quit\<close>\<close>
  | ErrSys string     \<comment> \<open>\<open>err_sys\<close>\<close>
  | HeapOverflow      \<comment> \<open>a write past the end of a malloc'ed buffer\<close>
  | Loops             \<comment> \<open>the loop on a cyclic chain, which never ends\<close>

subsection \<open>Constants of apue\_db.h and db.c\<close>

definition DB_INSERT :: int where "DB_INSERT = 1"
definition DB_REPLACE :: int where "DB_REPLACE = 2"
definition DB_STORE :: int where "DB_STORE = 3"
definition IDXLEN_MIN :: nat where "IDXLEN_MIN = 6"
definition IDXLEN_MAX :: nat where "IDXLEN_MAX = 1024"
definition DATLEN_MIN :: nat where "DATLEN_MIN = 2"
definition DATLEN_MAX :: nat where "DATLEN_MAX = 1024"
definition IDXLEN_SZ :: nat where "IDXLEN_SZ = 4"
definition SEP :: char where "SEP = CHR '':''"
definition PTR_SZ :: nat where "PTR_SZ = 7"
definition PTR_MAX :: int where "PTR_MAX = 9999999"
definition NHASH_DEF :: nat where "NHASH_DEF = 137"
definition FREE_OFF :: int where "FREE_OFF = 0"
definition HASH_OFF :: int where "HASH_OFF = int PTR_SZ"

lemmas db_consts = DB_INSERT_def DB_REPLACE_def DB_STORE_def IDXLEN_MIN_def IDXLEN_MAX_def
  DATLEN_MIN_def DATLEN_MAX_def IDXLEN_SZ_def SEP_def PTR_SZ_def PTR_MAX_def NHASH_DEF_def
  FREE_OFF_def HASH_OFF_def

subsection \<open>The state\<close>

record db =
  idxfile :: string
  datfile :: string
  idxpos :: nat
  datpos :: nat
  locks :: "dbfile \<Rightarrow> nat \<Rightarrow> locktype option"
  canread :: bool
  canwrite :: bool
  faults :: "bool list"
  db_errno :: "errno option"
  db_name :: string
  idxbuf :: string
  datbuf :: string
  idxoff :: int
  idxlen :: nat
  datoff :: int
  datlen :: nat
  ptrval :: int
  ptroff :: int
  chainoff :: int
  hashoff :: int
  nhash :: nat
  cnt_delok :: "64 word"
  cnt_delerr :: "64 word"
  cnt_fetchok :: "64 word"
  cnt_fetcherr :: "64 word"
  cnt_nextrec :: "64 word"
  cnt_stor1 :: "64 word"
  cnt_stor2 :: "64 word"
  cnt_stor3 :: "64 word"
  cnt_stor4 :: "64 word"
  cnt_storerr :: "64 word"

type_synonym 'a dbm = "(db, dberr, 'a) prog"

subsection \<open>System calls\<close>

fun fcontent :: "dbfile \<Rightarrow> db \<Rightarrow> string" where
  "fcontent Idx s = idxfile s"
| "fcontent Dat s = datfile s"

fun set_fcontent :: "dbfile \<Rightarrow> string \<Rightarrow> db \<Rightarrow> db" where
  "set_fcontent Idx c s = s\<lparr>idxfile := c\<rparr>"
| "set_fcontent Dat c s = s\<lparr>datfile := c\<rparr>"

fun fpos :: "dbfile \<Rightarrow> db \<Rightarrow> nat" where
  "fpos Idx s = idxpos s"
| "fpos Dat s = datpos s"

fun set_fpos :: "dbfile \<Rightarrow> nat \<Rightarrow> db \<Rightarrow> db" where
  "set_fpos Idx p s = s\<lparr>idxpos := p\<rparr>"
| "set_fpos Dat p s = s\<lparr>datpos := p\<rparr>"

definition syscall :: "bool dbm" where
  "syscall = (\<lambda>s. case faults s of [] \<Rightarrow> (Inr True, s) | f # fs \<Rightarrow> (Inr (\<not> f), s\<lparr>faults := fs\<rparr>))"

definition k_lseek :: "dbfile \<Rightarrow> int \<Rightarrow> whence \<Rightarrow> int dbm" where
  "k_lseek f off whence =
     bnd syscall (\<lambda>ok.
     bnd (gets (\<lambda>s. off + (case whence of SEEK_SET \<Rightarrow> 0 | SEEK_CUR \<Rightarrow> int (fpos f s)
                            | SEEK_END \<Rightarrow> int (length (fcontent f s))))) (\<lambda>p.
     if ok \<and> 0 \<le> p then bnd (modify (set_fpos f (nat p))) (\<lambda>_. ret p) else ret (-1)))"

definition k_read :: "dbfile \<Rightarrow> nat \<Rightarrow> string option dbm" where
  "k_read f n =
     bnd syscall (\<lambda>ok.
     bnd (gets (\<lambda>s. (canread s, segment (fpos f s) n (fcontent f s)))) (\<lambda>(r, bs).
     if ok \<and> r then bnd (modify (\<lambda>s. set_fpos f (fpos f s + length bs) s)) (\<lambda>_. ret (Some bs))
     else ret None))"

definition write_at :: "string \<Rightarrow> nat \<Rightarrow> string \<Rightarrow> string" where
  "write_at c p bs = splice (c @ replicate (p - length c) NUL) p bs"

definition k_write :: "dbfile \<Rightarrow> string \<Rightarrow> int dbm" where
  "k_write f bs =
     bnd syscall (\<lambda>ok.
     bnd (gets canwrite) (\<lambda>w.
     if ok \<and> w then
       bnd (modify (\<lambda>s. set_fpos f (fpos f s + length bs)
              (set_fcontent f (write_at (fcontent f s) (fpos f s) bs) s))) (\<lambda>_.
       ret (int (length bs)))
     else ret (-1)))"

text \<open>
  \<open>fcntl\<close> record locks of this process, byte by byte; \<open>len = 0\<close> reaches to the end of
  the file, however far it grows. \<open>F_SETLKW\<close> waits for other processes, so the call
  returns with the lock or fails.
\<close>

definition in_range :: "nat \<Rightarrow> nat \<Rightarrow> nat \<Rightarrow> bool" where
  "in_range off len b \<longleftrightarrow> off \<le> b \<and> (len = 0 \<or> b < off + len)"

definition lock_upd :: "dbfile \<Rightarrow> nat \<Rightarrow> nat \<Rightarrow> locktype option \<Rightarrow>
    (dbfile \<Rightarrow> nat \<Rightarrow> locktype option) \<Rightarrow> dbfile \<Rightarrow> nat \<Rightarrow> locktype option" where
  "lock_upd f off len t l = (\<lambda>g b. if g = f \<and> in_range off len b then t else l g b)"

definition set_lock :: "dbfile \<Rightarrow> nat \<Rightarrow> nat \<Rightarrow> locktype option \<Rightarrow> db \<Rightarrow> db" where
  "set_lock f off len t s = s\<lparr>locks := lock_upd f off len t (locks s)\<rparr>"

definition k_setlk :: "dbfile \<Rightarrow> int \<Rightarrow> nat \<Rightarrow> locktype option \<Rightarrow> int dbm" where
  "k_setlk f off len t =
     bnd syscall (\<lambda>ok.
     bnd (gets (\<lambda>s. case t of None \<Rightarrow> True | Some F_RDLCK \<Rightarrow> canread s | Some F_WRLCK \<Rightarrow> canwrite s)) (\<lambda>a.
     if ok \<and> a \<and> 0 \<le> off then bnd (modify (set_lock f (nat off) len t)) (\<lambda>_. ret 0) else ret (-1)))"

definition readw_lock :: "dbfile \<Rightarrow> int \<Rightarrow> nat \<Rightarrow> int dbm" where
  "readw_lock f off len = k_setlk f off len (Some F_RDLCK)"

definition writew_lock :: "dbfile \<Rightarrow> int \<Rightarrow> nat \<Rightarrow> int dbm" where
  "writew_lock f off len = k_setlk f off len (Some F_WRLCK)"

definition un_lock :: "dbfile \<Rightarrow> int \<Rightarrow> nat \<Rightarrow> int dbm" where
  "un_lock f off len = k_setlk f off len None"

text \<open>\<open>if (call < 0) err_dump(msg)\<close>\<close>

definition or_dump :: "int dbm \<Rightarrow> string \<Rightarrow> int dbm" where
  "or_dump m msg = bnd m (\<lambda>r. if r < 0 then fail (ErrDump msg) else ret r)"

subsection \<open>Opening, allocating and closing\<close>

definition db_zero :: db where
  "db_zero = \<lparr>idxfile = [], datfile = [], idxpos = 0, datpos = 0, locks = (\<lambda>_ _. None),
     canread = False, canwrite = False, faults = [], db_errno = None, db_name = [],
     idxbuf = [], datbuf = [], idxoff = 0, idxlen = 0, datoff = 0, datlen = 0, ptrval = 0,
     ptroff = 0, chainoff = 0, hashoff = 0, nhash = 0, cnt_delok = 0, cnt_delerr = 0,
     cnt_fetchok = 0, cnt_fetcherr = 0, cnt_nextrec = 0, cnt_stor1 = 0, cnt_stor2 = 0,
     cnt_stor3 = 0, cnt_stor4 = 0, cnt_storerr = 0\<rparr>"

definition db_alloc :: "unit dbm" where
  "db_alloc =
     bnd syscall (\<lambda>ok. bnd (check ok (ErrDump ''_db_alloc: calloc error for DB'')) (\<lambda>_.
     bnd syscall (\<lambda>ok. bnd (check ok (ErrDump ''_db_alloc: malloc error for name'')) (\<lambda>_.
     bnd syscall (\<lambda>ok. bnd (check ok (ErrDump ''_db_alloc: malloc error for index buffer'')) (\<lambda>_.
     bnd syscall (\<lambda>ok. check ok (ErrDump ''_db_alloc: malloc error for data buffer''))))))))"

type_synonym filesys = "string \<rightharpoonup> string"

definition k_open :: "string \<Rightarrow> oflag set \<Rightarrow> bool \<Rightarrow> filesys \<Rightarrow> string option \<times> filesys" where
  "k_open path fl ok fs =
     (if \<not> ok then (None, fs)
      else case fs path of
        None \<Rightarrow> if O_CREAT \<in> fl then (Some [], fs(path \<mapsto> [])) else (None, fs)
      | Some c \<Rightarrow> if {O_CREAT, O_EXCL} \<subseteq> fl then (None, fs)
                  else if O_TRUNC \<in> fl then (Some [], fs(path \<mapsto> [])) else (Some c, fs))"

definition db_rewind :: "unit dbm" where
  "db_rewind =
     bnd (gets (\<lambda>s. int ((nhash s + 1) * PTR_SZ))) (\<lambda>offset.
     bnd (or_dump (k_lseek Idx (offset + 1) SEEK_SET) ''db_rewind: lseek error'') (\<lambda>p.
     modify (\<lambda>s. s\<lparr>idxoff := p\<rparr>)))"

definition init_hash :: string where
  "init_hash = concat (replicate (NHASH_DEF + 1) (pad PTR_SZ (dec 0))) @ [NEWLINE]"

definition db_init :: "unit dbm" where
  "db_init =
     bnd (or_dump (writew_lock Idx 0 0) ''db_open: writew_lock error'') (\<lambda>_.
     bnd syscall (\<lambda>ok. bnd (check ok (ErrSys ''db_open: fstat error'')) (\<lambda>_.
     bnd (gets (\<lambda>s. length (idxfile s))) (\<lambda>st_size.
     bnd (if st_size = 0
          then bnd (k_write Idx init_hash) (\<lambda>n.
               check (n = int (length init_hash)) (ErrDump ''db_open: index file init write error''))
          else ret ()) (\<lambda>_.
     bnd (or_dump (un_lock Idx 0 0) ''db_open: un_lock error'') (\<lambda>_. ret ()))))))"

text \<open>
  The result is \<open>Inr None\<close> for a NULL handle, \<open>Inr (Some db)\<close> for an open database. The
  name buffer ends up holding the name of the data file, as in the source.
\<close>

definition db_open :: "string \<Rightarrow> oflag set \<Rightarrow> bool list \<Rightarrow> filesys \<Rightarrow> (dberr + db option) \<times> filesys" where
  "db_open pathname fl flts fs =
     (case db_alloc (db_zero\<lparr>faults := flts\<rparr>) of
        (Inl e, _) \<Rightarrow> (Inl e, fs)
      | (Inr _, db) \<Rightarrow>
          let db = db\<lparr>nhash := NHASH_DEF, hashoff := HASH_OFF\<rparr>;
              idxname = pathname @ ''.idx''; datname = pathname @ ''.dat'';
              (ok1, db) = (case syscall db of (r, db) \<Rightarrow> (r = Inr True, db));
              (idx, fs) = k_open idxname fl ok1 fs;
              (ok2, db) = (case syscall db of (r, db) \<Rightarrow> (r = Inr True, db));
              (dat, fs) = k_open datname fl ok2 fs
          in (case (idx, dat) of
                (Some ic, Some dc) \<Rightarrow>
                  (case bnd (if {O_CREAT, O_TRUNC} \<subseteq> fl then db_init else ret ()) (\<lambda>_. db_rewind)
                          (db\<lparr>db_name := datname, idxfile := ic, datfile := dc,
                              canread := O_WRONLY \<notin> fl,
                              canwrite := (O_RDWR \<in> fl \<or> O_WRONLY \<in> fl)\<rparr>) of
                     (Inl e, _) \<Rightarrow> (Inl e, fs)
                   | (Inr _, db) \<Rightarrow> (Inr (Some db), fs))
              | _ \<Rightarrow> (Inr None, fs)))"

text \<open>
  While a handle is open it has the contents of both files, which no other process changes; closing gives up
  the handle, so that the file system has these contents again, and \<open>close\<close> releases this process's locks on them.
\<close>

definition db_close :: "string \<Rightarrow> db \<Rightarrow> filesys \<Rightarrow> filesys" where
  "db_close pathname db fs =
     fs(pathname @ ''.idx'' \<mapsto> idxfile db, pathname @ ''.dat'' \<mapsto> datfile db)"

subsection \<open>Hashing, pointers and records\<close>

text \<open>\<open>char\<close> is signed, and \<open>hval\<close> is an unsigned 64-bit integer.\<close>

definition signed_char :: "char \<Rightarrow> int" where
  "signed_char c = (let n = (of_char c :: nat) in if n < 128 then int n else int n - 256)"

fun hash_loop :: "string \<Rightarrow> nat \<Rightarrow> 64 word \<Rightarrow> 64 word" where
  "hash_loop [] i hval = hval"
| "hash_loop (c # key) i hval = hash_loop key (i + 1) (hval + of_int (signed_char c * int i))"

definition db_hash :: "nat \<Rightarrow> string \<Rightarrow> nat" where
  "db_hash nh key = unat (hash_loop key 1 0) mod nh"

definition db_readptr :: "int \<Rightarrow> int dbm" where
  "db_readptr offset =
     bnd (or_dump (k_lseek Idx offset SEEK_SET) ''_db_readptr: lseek error to ptr field'') (\<lambda>_.
     bnd (k_read Idx PTR_SZ) (\<lambda>r.
     case r of
       Some asciiptr \<Rightarrow>
         if length asciiptr = PTR_SZ then ret (atol asciiptr)
         else fail (ErrDump ''_db_readptr: read error of ptr field'')
     | None \<Rightarrow> fail (ErrDump ''_db_readptr: read error of ptr field'')))"

definition size_t :: "int \<Rightarrow> nat" where
  "size_t i = nat (i mod 2 ^ 64)"

text \<open>The separators and the fields of an index record that has been read into the buffer.\<close>

definition split_record :: "string \<Rightarrow> dberr + (string \<times> int \<times> nat)" where
  "split_record buf =
     (case strchr buf SEP of
        None \<Rightarrow> Inl (ErrDump ''_db_readidx: missing first separator'')
      | Some i \<Rightarrow>
          let buf = buf[i := NUL]; ptr1 = drop (i + 1) buf
          in (case strchr ptr1 SEP of
                None \<Rightarrow> Inl (ErrDump ''_db_readidx: missing second separator'')
              | Some j \<Rightarrow>
                  let ptr1 = ptr1[j := NUL]; ptr2 = drop (j + 1) ptr1; buf = take (i + 1) buf @ ptr1
                  in if strchr ptr2 SEP \<noteq> None then Inl (ErrDump ''_db_readidx: too many separators'')
                     else if atol ptr1 < 0 then Inl (ErrDump ''_db_readidx: starting offset < 0'')
                     else if size_t (atol ptr2) = 0 \<or> DATLEN_MAX < size_t (atol ptr2)
                     then Inl (ErrDump ''_db_readidx: invalid length'')
                     else Inr (buf, atol ptr1, size_t (atol ptr2))))"

definition db_readidx :: "int \<Rightarrow> int dbm" where
  "db_readidx offset =
     bnd (or_dump (k_lseek Idx offset (if offset = 0 then SEEK_CUR else SEEK_SET)) ''_db_readidx: lseek error'') (\<lambda>p.
     bnd (modify (\<lambda>s. s\<lparr>idxoff := p\<rparr>)) (\<lambda>_.
     bnd (k_read Idx (PTR_SZ + IDXLEN_SZ)) (\<lambda>r.
     case r of
       None \<Rightarrow> fail (ErrDump ''_db_readidx: readv error of index record'')
     | Some hdr \<Rightarrow>
         if length hdr \<noteq> PTR_SZ + IDXLEN_SZ then
           (if hdr = [] \<and> offset = 0 then ret (-1)
            else fail (ErrDump ''_db_readidx: readv error of index record''))
         else
           let asciiptr = take PTR_SZ hdr; asciilen = drop PTR_SZ hdr in
           bnd (modify (\<lambda>s. s\<lparr>ptrval := atol asciiptr, idxlen := size_t (atoi asciilen)\<rparr>)) (\<lambda>_.
           bnd (gets idxlen) (\<lambda>len.
           bnd (check (IDXLEN_MIN \<le> len \<and> len \<le> IDXLEN_MAX) (ErrDump ''_db_readidx: invalid length'')) (\<lambda>_.
           bnd (k_read Idx len) (\<lambda>r.
           case r of
             None \<Rightarrow> fail (ErrDump ''_db_readidx: read error of index record'')
           | Some buf \<Rightarrow>
               bnd (check (length buf = len) (ErrDump ''_db_readidx: read error of index record'')) (\<lambda>_.
               bnd (check (buf ! (len - 1) = NEWLINE) (ErrDump ''_db_readidx: missing newline'')) (\<lambda>_.
               case split_record (buf[len - 1 := NUL]) of
                 Inl e \<Rightarrow> fail e
               | Inr (buf, off, dl) \<Rightarrow>
                   bnd (modify (\<lambda>s. s\<lparr>idxbuf := buf, datoff := off, datlen := dl\<rparr>)) (\<lambda>_.
                   gets ptrval))))))))))"

definition db_readdat :: "string dbm" where
  "db_readdat =
     bnd (gets datoff) (\<lambda>off.
     bnd (or_dump (k_lseek Dat off SEEK_SET) ''_db_readdat: lseek error'') (\<lambda>_.
     bnd (gets datlen) (\<lambda>len.
     bnd (k_read Dat len) (\<lambda>r.
     case r of
       None \<Rightarrow> fail (ErrDump ''_db_readdat: read error'')
     | Some buf \<Rightarrow>
         bnd (check (length buf = len) (ErrDump ''_db_readdat: read error'')) (\<lambda>_.
         bnd (check (buf ! (len - 1) = NEWLINE) (ErrDump ''_db_readdat: missing newline'')) (\<lambda>_.
         bnd (modify (\<lambda>s. s\<lparr>datbuf := buf[len - 1 := NUL]\<rparr>)) (\<lambda>_.
         ret (cstr (buf[len - 1 := NUL]))))))))) "

text \<open>
  \<open>_db_writedat\<close> and \<open>_db_writeidx\<close> append (\<open>SEEK_END\<close>) under a lock or overwrite in
  place. The index record is formatted into \<open>idxbuf\<close>, which has \<open>IDXLEN_MAX + 2\<close> bytes,
  before its length is checked.
\<close>

definition db_writedat :: "string \<Rightarrow> int \<Rightarrow> whence \<Rightarrow> unit dbm" where
  "db_writedat data offset whence =
     bnd (if whence = SEEK_END
          then bnd (or_dump (writew_lock Dat 0 0) ''_db_writedat: writew_lock error'') (\<lambda>_. ret ())
          else ret ()) (\<lambda>_.
     bnd (or_dump (k_lseek Dat offset whence) ''_db_writedat: lseek error'') (\<lambda>p.
     bnd (modify (\<lambda>s. s\<lparr>datoff := p, datlen := length data + 1\<rparr>)) (\<lambda>_.
     bnd (k_write Dat (data @ [NEWLINE])) (\<lambda>n.
     bnd (check (n = int (length data + 1)) (ErrDump ''_db_writedat: writev error of data record'')) (\<lambda>_.
     if whence = SEEK_END
     then bnd (or_dump (un_lock Dat 0 0) ''_db_writedat: un_lock error'') (\<lambda>_. ret ())
     else ret ())))))"

definition record_body :: "string \<Rightarrow> int \<Rightarrow> nat \<Rightarrow> string" where
  "record_body key off len = key @ [SEP] @ dec_int off @ [SEP] @ dec len @ [NEWLINE]"

definition db_writeidx :: "string \<Rightarrow> int \<Rightarrow> whence \<Rightarrow> int \<Rightarrow> unit dbm" where
  "db_writeidx key offset whence ptr =
     bnd (modify (\<lambda>s. s\<lparr>ptrval := ptr\<rparr>)) (\<lambda>_.
     bnd (check (\<not> (ptr < 0 \<or> ptr > PTR_MAX)) (ErrQuit ''_db_writeidx: invalid ptr'')) (\<lambda>_.
     bnd (gets (\<lambda>s. record_body key (datoff s) (datlen s))) (\<lambda>body.
     bnd (check (length body + 1 \<le> IDXLEN_MAX + 2) HeapOverflow) (\<lambda>_.
     bnd (modify (\<lambda>s. s\<lparr>idxbuf := body @ [NUL]\<rparr>)) (\<lambda>_.
     bnd (check (\<not> (length body < IDXLEN_MIN \<or> length body > IDXLEN_MAX)) (ErrDump ''_db_writeidx: invalid length'')) (\<lambda>_.
     bnd (gets (\<lambda>s. int ((nhash s + 1) * PTR_SZ + 1))) (\<lambda>lockoff.
     bnd (if whence = SEEK_END
          then bnd (or_dump (writew_lock Idx lockoff 0) ''_db_writeidx: writew_lock error'') (\<lambda>_. ret ())
          else ret ()) (\<lambda>_.
     bnd (or_dump (k_lseek Idx offset whence) ''_db_writeidx: lseek error'') (\<lambda>p.
     bnd (modify (\<lambda>s. s\<lparr>idxoff := p\<rparr>)) (\<lambda>_.
     bnd (k_write Idx (pad PTR_SZ (dec_int ptr) @ pad IDXLEN_SZ (dec (length body)) @ body)) (\<lambda>n.
     bnd (check (n = int (PTR_SZ + IDXLEN_SZ + length body)) (ErrDump ''_db_writeidx: writev error of index record'')) (\<lambda>_.
     if whence = SEEK_END
     then bnd (or_dump (un_lock Idx lockoff 0) ''_db_writeidx: un_lock error'') (\<lambda>_. ret ())
     else ret ()))))))))))))"

definition db_writeptr :: "int \<Rightarrow> int \<Rightarrow> unit dbm" where
  "db_writeptr offset ptr =
     bnd (check (\<not> (ptr < 0 \<or> ptr > PTR_MAX)) (ErrQuit ''_db_writeptr: invalid ptr'')) (\<lambda>_.
     bnd (or_dump (k_lseek Idx offset SEEK_SET) ''_db_writeptr: lseek error to ptr field'') (\<lambda>_.
     bnd (k_write Idx (pad PTR_SZ (dec_int ptr))) (\<lambda>n.
     check (n = int PTR_SZ) (ErrDump ''_db_writeptr: write error of ptr field''))))"

subsection \<open>Searching a chain\<close>

text \<open>
  The \<open>while\<close> loop of \<open>_db_find_and_lock\<close>, with fuel. Each round reads a record at a
  different offset of the index file unless the chain is cyclic, so a chain of more rounds
  than the file has bytes never ends: \<open>Loops\<close>.
\<close>

fun find_loop :: "nat \<Rightarrow> string \<Rightarrow> int \<Rightarrow> int dbm" where
  "find_loop 0 key offset = fail Loops"
| "find_loop (Suc n) key offset =
     (if offset = 0 then ret 0
      else bnd (db_readidx offset) (\<lambda>nextoffset.
           bnd (gets idxbuf) (\<lambda>b.
           if cstr b = key then ret offset
           else bnd (modify (\<lambda>s. s\<lparr>ptroff := offset\<rparr>)) (\<lambda>_. find_loop n key nextoffset))))"

definition db_find_and_lock :: "string \<Rightarrow> bool \<Rightarrow> int dbm" where
  "db_find_and_lock key writelock =
     bnd (modify (\<lambda>s. s\<lparr>chainoff := int (db_hash (nhash s) key * PTR_SZ) + hashoff s\<rparr>)) (\<lambda>_.
     bnd (modify (\<lambda>s. s\<lparr>ptroff := chainoff s\<rparr>)) (\<lambda>_.
     bnd (gets chainoff) (\<lambda>co.
     bnd (if writelock
          then or_dump (writew_lock Idx co 1) ''_db_find_and_lock: writew_lock error''
          else or_dump (readw_lock Idx co 1) ''_db_find_and_lock: readw_lock error'') (\<lambda>_.
     bnd (gets ptroff) (\<lambda>po.
     bnd (db_readptr po) (\<lambda>offset.
     bnd (gets (\<lambda>s. length (idxfile s) + 2)) (\<lambda>fuel.
     bnd (find_loop fuel key offset) (\<lambda>offset.
     ret (if offset = 0 then -1 else 0)))))))))"

subsection \<open>Fetching and deleting\<close>

definition unlock_chain :: "string \<Rightarrow> unit dbm" where
  "unlock_chain msg =
     bnd (gets chainoff) (\<lambda>co. bnd (or_dump (un_lock Idx co 1) msg) (\<lambda>_. ret ()))"

definition db_fetch :: "string \<Rightarrow> string option dbm" where
  "db_fetch key =
     bnd (db_find_and_lock key False) (\<lambda>rc.
     bnd (if rc < 0
          then bnd (modify (\<lambda>s. s\<lparr>cnt_fetcherr := cnt_fetcherr s + 1\<rparr>)) (\<lambda>_. ret None)
          else bnd db_readdat (\<lambda>d.
               bnd (modify (\<lambda>s. s\<lparr>cnt_fetchok := cnt_fetchok s + 1\<rparr>)) (\<lambda>_. ret (Some d)))) (\<lambda>ptr.
     bnd (unlock_chain ''db_fetch: un_lock error'') (\<lambda>_.
     ret ptr)))"

definition blank_bufs :: "db \<Rightarrow> db" where
  "blank_bufs s =
     s\<lparr>datbuf := replicate (datlen s - 1) SPACE @ [NUL],
       idxbuf := replicate (length (cstr (idxbuf s))) SPACE @ drop (length (cstr (idxbuf s))) (idxbuf s)\<rparr>"

text \<open>
  \<open>_db_dodelete\<close> passes the blanks in \<open>idxbuf\<close> as the key to \<open>_db_writeidx\<close>, whose \<open>sprintf\<close> copies them from the buffer
  onto themselves. C leaves this undefined; the model has the result of a copy from the first byte on, which leaves the blanks in place.
\<close>

definition db_dodelete :: "unit dbm" where
  "db_dodelete =
     bnd (modify blank_bufs) (\<lambda>_.
     bnd (or_dump (writew_lock Idx FREE_OFF 1) ''_db_dodelete: writew_lock error'') (\<lambda>_.
     bnd (gets (\<lambda>s. (cstr (datbuf s), datoff s))) (\<lambda>(blanks, off).
     bnd (db_writedat blanks off SEEK_SET) (\<lambda>_.
     bnd (db_readptr FREE_OFF) (\<lambda>freeptr.
     bnd (gets ptrval) (\<lambda>saveptr.
     bnd (gets (\<lambda>s. (cstr (idxbuf s), idxoff s))) (\<lambda>(key, off).
     bnd (db_writeidx key off SEEK_SET freeptr) (\<lambda>_.
     bnd (gets idxoff) (\<lambda>off.
     bnd (db_writeptr FREE_OFF off) (\<lambda>_.
     bnd (gets ptroff) (\<lambda>po.
     bnd (db_writeptr po saveptr) (\<lambda>_.
     bnd (or_dump (un_lock Idx FREE_OFF 1) ''_db_dodelete: un_lock error'') (\<lambda>_.
     ret ())))))))))))))"

definition db_delete :: "string \<Rightarrow> int dbm" where
  "db_delete key =
     bnd (db_find_and_lock key True) (\<lambda>rc.
     bnd (if rc = 0
          then bnd db_dodelete (\<lambda>_.
               bnd (modify (\<lambda>s. s\<lparr>cnt_delok := cnt_delok s + 1\<rparr>)) (\<lambda>_. ret 0))
          else bnd (modify (\<lambda>s. s\<lparr>cnt_delerr := cnt_delerr s + 1\<rparr>)) (\<lambda>_. ret (-1))) (\<lambda>rc.
     bnd (unlock_chain ''db_delete: un_lock error'') (\<lambda>_.
     ret rc)))"

subsection \<open>Storing\<close>

fun free_loop :: "nat \<Rightarrow> nat \<Rightarrow> nat \<Rightarrow> int \<Rightarrow> int \<Rightarrow> (int \<times> int) dbm" where
  "free_loop 0 klen dlen saveoffset offset = fail Loops"
| "free_loop (Suc n) klen dlen saveoffset offset =
     (if offset = 0 then ret (saveoffset, 0)
      else bnd (db_readidx offset) (\<lambda>nextoffset.
           bnd (gets (\<lambda>s. length (cstr (idxbuf s)) = klen \<and> datlen s = dlen)) (\<lambda>hit.
           if hit then ret (saveoffset, offset)
           else free_loop n klen dlen offset nextoffset)))"

definition db_findfree :: "nat \<Rightarrow> nat \<Rightarrow> int dbm" where
  "db_findfree klen dlen =
     bnd (or_dump (writew_lock Idx FREE_OFF 1) ''_db_findfree: writew_lock error'') (\<lambda>_.
     bnd (db_readptr FREE_OFF) (\<lambda>offset.
     bnd (gets (\<lambda>s. length (idxfile s) + 2)) (\<lambda>fuel.
     bnd (free_loop fuel klen dlen FREE_OFF offset) (\<lambda>(saveoffset, offset).
     bnd (if offset = 0 then ret (-1)
          else bnd (gets ptrval) (\<lambda>pv. bnd (db_writeptr saveoffset pv) (\<lambda>_. ret 0))) (\<lambda>rc.
     bnd (or_dump (un_lock Idx FREE_OFF 1) ''_db_findfree: un_lock error'') (\<lambda>_.
     ret rc))))))"

definition store_append :: "string \<Rightarrow> string \<Rightarrow> int \<Rightarrow> unit dbm" where
  "store_append key data ptr =
     bnd (db_writedat data 0 SEEK_END) (\<lambda>_.
     bnd (db_writeidx key 0 SEEK_END ptr) (\<lambda>_.
     bnd (gets (\<lambda>s. (chainoff s, idxoff s))) (\<lambda>(co, io).
     db_writeptr co io)))"

definition store_reuse :: "string \<Rightarrow> string \<Rightarrow> int \<Rightarrow> unit dbm" where
  "store_reuse key data ptr =
     bnd (gets datoff) (\<lambda>off.
     bnd (db_writedat data off SEEK_SET) (\<lambda>_.
     bnd (gets idxoff) (\<lambda>ioff.
     bnd (db_writeidx key ioff SEEK_SET ptr) (\<lambda>_.
     bnd (gets (\<lambda>s. (chainoff s, idxoff s))) (\<lambda>(co, io).
     db_writeptr co io)))))"

definition db_store :: "string \<Rightarrow> string \<Rightarrow> int \<Rightarrow> int dbm" where
  "db_store key data flag =
     (if flag \<noteq> DB_INSERT \<and> flag \<noteq> DB_REPLACE \<and> flag \<noteq> DB_STORE
      then bnd (modify (\<lambda>s. s\<lparr>db_errno := Some EINVAL\<rparr>)) (\<lambda>_. ret (-1))
      else
        let keylen = length key; dlen = length data + 1 in
        bnd (check (DATLEN_MIN \<le> dlen \<and> dlen \<le> DATLEN_MAX) (ErrDump ''db_store: invalid data length'')) (\<lambda>_.
        bnd (db_find_and_lock key True) (\<lambda>found.
        bnd (if found < 0 then
               (if flag = DB_REPLACE then
                  bnd (modify (\<lambda>s. s\<lparr>cnt_storerr := cnt_storerr s + 1, db_errno := Some ENOENT\<rparr>)) (\<lambda>_. ret (-1))
                else
                  bnd (gets chainoff) (\<lambda>co.
                  bnd (db_readptr co) (\<lambda>ptr.
                  bnd (db_findfree keylen dlen) (\<lambda>ff.
                  if ff < 0 then
                    bnd (store_append key data ptr) (\<lambda>_.
                    bnd (modify (\<lambda>s. s\<lparr>cnt_stor1 := cnt_stor1 s + 1\<rparr>)) (\<lambda>_. ret 0))
                  else
                    bnd (store_reuse key data ptr) (\<lambda>_.
                    bnd (modify (\<lambda>s. s\<lparr>cnt_stor2 := cnt_stor2 s + 1\<rparr>)) (\<lambda>_. ret 0))))))
             else if flag = DB_INSERT then
               bnd (modify (\<lambda>s. s\<lparr>cnt_storerr := cnt_storerr s + 1\<rparr>)) (\<lambda>_. ret 1)
             else
               bnd (gets (\<lambda>s. (datlen s, datoff s))) (\<lambda>(oldlen, off).
               if dlen \<noteq> oldlen then
                 bnd db_dodelete (\<lambda>_.
                 bnd (gets chainoff) (\<lambda>co.
                 bnd (db_readptr co) (\<lambda>ptr.
                 bnd (store_append key data ptr) (\<lambda>_.
                 bnd (modify (\<lambda>s. s\<lparr>cnt_stor3 := cnt_stor3 s + 1\<rparr>)) (\<lambda>_. ret 0)))))
               else
                 bnd (db_writedat data off SEEK_SET) (\<lambda>_.
                 bnd (modify (\<lambda>s. s\<lparr>cnt_stor4 := cnt_stor4 s + 1\<rparr>)) (\<lambda>_. ret 0)))) (\<lambda>rc.
        bnd (unlock_chain ''db_store: un_lock error'') (\<lambda>_.
        ret rc)))))"

subsection \<open>Sequential reading\<close>

text \<open>
  The loop skips records whose key is all blanks (deleted ones). Every round consumes
  bytes of the index file, so fuel of its length is enough.
\<close>

fun next_loop :: "nat \<Rightarrow> bool dbm" where
  "next_loop 0 = fail Loops"
| "next_loop (Suc n) =
     bnd (db_readidx 0) (\<lambda>r.
     if r < 0 then ret False
     else bnd (gets (\<lambda>s. list_all (\<lambda>c. c = SPACE) (cstr (idxbuf s)))) (\<lambda>blank.
          if blank then next_loop n else ret True))"

definition db_nextrec :: "(string \<times> string) option dbm" where
  "db_nextrec =
     bnd (or_dump (readw_lock Idx FREE_OFF 1) ''db_nextrec: readw_lock error'') (\<lambda>_.
     bnd (gets (\<lambda>s. length (idxfile s) + 2)) (\<lambda>fuel.
     bnd (next_loop fuel) (\<lambda>found.
     bnd (if found
          then bnd (gets (\<lambda>s. cstr (idxbuf s))) (\<lambda>key.
               bnd db_readdat (\<lambda>d.
               bnd (modify (\<lambda>s. s\<lparr>cnt_nextrec := cnt_nextrec s + 1\<rparr>)) (\<lambda>_. ret (Some (key, d)))))
          else ret None) (\<lambda>r.
     bnd (or_dump (un_lock Idx FREE_OFF 1) ''db_nextrec: un_lock error'') (\<lambda>_.
     ret r)))))"

end
