(* ===== verification/DbIndex.thy ===== *)
theory DbIndex
  imports DbOps
begin

section \<open>The database library: the format of the index file\<close>

text \<open>
  The index file holds the free-list pointer, the hash table, a newline and then the index
  records one after the other. \<open>aidx\<close> is that content as data and \<open>enc_idx\<close> prints it.
  The lemmas say that the byte-level functions of \<open>db.c\<close> read and write this data: a
  pointer field (\<open>_db_readptr\<close>, \<open>_db_writeptr\<close>), an index record (\<open>_db_readidx\<close>,
  \<open>_db_writeidx\<close>) and a data record (\<open>_db_readdat\<close>, \<open>_db_writedat\<close>), when no system
  call fails.
\<close>

record ent =
  e_next :: nat
  e_key :: string
  e_off :: nat
  e_len :: nat

record aidx =
  a_free :: nat
  a_tab :: "nat list"
  a_ents :: "ent list"

definition ent_body :: "ent \<Rightarrow> string" where
  "ent_body e = record_body (e_key e) (int (e_off e)) (e_len e)"

definition ent_size :: "ent \<Rightarrow> nat" where
  "ent_size e = PTR_SZ + IDXLEN_SZ + length (ent_body e)"

definition enc_ptr :: "nat \<Rightarrow> string" where
  "enc_ptr n = pad PTR_SZ (dec n)"

definition enc_ent :: "ent \<Rightarrow> string" where
  "enc_ent e = enc_ptr (e_next e) @ pad IDXLEN_SZ (dec (length (ent_body e))) @ ent_body e"

definition enc_idx :: "aidx \<Rightarrow> string" where
  "enc_idx a = enc_ptr (a_free a) @ concat (map enc_ptr (a_tab a)) @ [NEWLINE] @
     concat (map enc_ent (a_ents a))"

definition IDX_BASE :: nat where
  "IDX_BASE = (NHASH_DEF + 1) * PTR_SZ + 1"

fun place :: "nat \<Rightarrow> ent list \<Rightarrow> (nat \<times> ent) list" where
  "place b [] = []"
| "place b (e # es) = (b, e) # place (b + ent_size e) es"

definition heap :: "aidx \<Rightarrow> nat \<rightharpoonup> ent" where
  "heap a = map_of (place IDX_BASE (a_ents a))"

definition PTR_LIM :: nat where "PTR_LIM = 9999999"

definition wf_ent :: "ent \<Rightarrow> bool" where
  "wf_ent e \<longleftrightarrow> e_next e \<le> PTR_LIM \<and> SEP \<notin> set (e_key e) \<and> nonul (e_key e) \<and>
     IDXLEN_MIN \<le> length (ent_body e) \<and> length (ent_body e) \<le> IDXLEN_MAX \<and>
     0 < e_len e \<and> e_len e \<le> DATLEN_MAX \<and> e_off e < 2 ^ 63"

definition wf_idx :: "aidx \<Rightarrow> bool" where
  "wf_idx a \<longleftrightarrow> a_free a \<le> PTR_LIM \<and> length (a_tab a) = NHASH_DEF \<and>
     (\<forall>p\<in>set (a_tab a). p \<le> PTR_LIM) \<and> (\<forall>e\<in>set (a_ents a). wf_ent e)"

subsection \<open>Fixed-width fields\<close>

lemma length_enc_ptr [byte_simps]: "n \<le> PTR_LIM \<Longrightarrow> length (enc_ptr n) = PTR_SZ"
  unfolding enc_ptr_def
  by (rule length_pad, rule length_dec_bound) (simp_all add: PTR_LIM_def PTR_SZ_def)

lemma atol_enc_ptr [byte_simps]: "n \<le> PTR_LIM \<Longrightarrow> atol (enc_ptr n) = int n"
  unfolding enc_ptr_def by (rule atol_pad) (simp add: PTR_LIM_def)

lemma length_enc_ptrs [byte_simps]:
  "\<forall>p\<in>set ps. p \<le> PTR_LIM \<Longrightarrow> length (concat (map enc_ptr ps)) = PTR_SZ * length ps"
  by (induction ps) (auto simp: length_enc_ptr)

lemma length_len_field [byte_simps]:
  "n \<le> IDXLEN_MAX \<Longrightarrow> length (pad IDXLEN_SZ (dec n)) = IDXLEN_SZ"
  by (rule length_pad, rule length_dec_bound) (simp_all add: IDXLEN_MAX_def IDXLEN_SZ_def)

lemma length_enc_ent [byte_simps]: "wf_ent e \<Longrightarrow> length (enc_ent e) = ent_size e"
  by (simp add: enc_ent_def ent_size_def wf_ent_def length_enc_ptr length_len_field)

lemma dec_int_nat [simp]: "dec_int (int n) = dec n"
  by (simp add: dec_int_def)

lemma ent_body_def2: "ent_body e = e_key e @ SEP # dec (e_off e) @ SEP # dec (e_len e) @ [NEWLINE]"
  by (simp add: ent_body_def record_body_def)

lemma length_enc_ents [byte_simps]:
  "\<forall>e\<in>set es. wf_ent e \<Longrightarrow> length (concat (map enc_ent es)) = sum_list (map ent_size es)"
  by (induction es) (auto simp: length_enc_ent)

lemma ent_size_pos: "0 < ent_size e"
  by (simp add: ent_size_def PTR_SZ_def)

subsection \<open>Where the records are\<close>

lemma place_append: "place b (xs @ ys) = place b xs @ place (b + sum_list (map ent_size xs)) ys"
  by (induction xs arbitrary: b) (auto simp: algebra_simps)

lemma place_ge: "(x, e) \<in> set (place b es) \<Longrightarrow> b \<le> x"
  by (induction es arbitrary: b) fastforce+

lemma place_lt: "(x, e) \<in> set (place b es) \<Longrightarrow> x < b + sum_list (map ent_size es)"
proof (induction es arbitrary: b)
  case (Cons e' es)
  then show ?case using ent_size_pos [of e'] by fastforce
qed simp

lemma distinct_place: "distinct (map fst (place b es))"
proof (induction es arbitrary: b)
  case (Cons e es)
  have "b \<notin> set (map fst (place (b + ent_size e) es))"
    using ent_size_pos [of e] by (fastforce dest: place_ge)
  then show ?case using Cons.IH by simp
qed simp

lemma heap_place: "heap a x = Some e \<longleftrightarrow> (x, e) \<in> set (place IDX_BASE (a_ents a))"
  by (simp add: heap_def map_of_eq_Some_iff [OF distinct_place])

lemma place_split:
  assumes "(x, e) \<in> set (place b es)"
  obtains pre post where "es = pre @ e # post" and "x = b + sum_list (map ent_size pre)"
  using assms
proof (induction es arbitrary: b thesis)
  case (Cons e' es)
  show ?case
  proof (cases "(x, e) = (b, e')")
    case True
    then show ?thesis using Cons.prems(1) [of "[]" es] by simp
  next
    case False
    with Cons.prems(2) have "(x, e) \<in> set (place (b + ent_size e') es)" by auto
    then obtain pre post where "es = pre @ e # post"
      and "x = b + ent_size e' + sum_list (map ent_size pre)"
      using Cons.IH [of "b + ent_size e'"] by blast
    then show ?thesis using Cons.prems(1) [of "e' # pre" post] by simp
  qed
qed simp

lemma heap_split:
  assumes "heap a x = Some e"
  obtains pre post where "a_ents a = pre @ e # post"
    and "x = IDX_BASE + sum_list (map ent_size pre)"
  using assms place_split heap_place by metis

lemma heap_wf: "wf_idx a \<Longrightarrow> heap a x = Some e \<Longrightarrow> wf_ent e"
  by (erule heap_split) (auto simp: wf_idx_def)

lemma heap_ge: "heap a x = Some e \<Longrightarrow> IDX_BASE \<le> x"
  by (auto simp: heap_place dest: place_ge)

lemma heap_nonzero: "heap a x = Some e \<Longrightarrow> x \<noteq> 0"
  using heap_ge by (fastforce simp: IDX_BASE_def)

fun upd_at :: "nat \<Rightarrow> nat \<Rightarrow> ent \<Rightarrow> ent list \<Rightarrow> ent list" where
  "upd_at b x e' [] = []"
| "upd_at b x e' (e # es) = (if b = x then e' # es else e # upd_at (b + ent_size e) x e' es)"

lemma upd_at_split:
  "upd_at b (b + sum_list (map ent_size pre)) e' (pre @ e # post) = pre @ e' # post"
proof (induction pre arbitrary: b)
  case (Cons p pre)
  then show ?case using ent_size_pos [of p] Cons.IH [of "b + ent_size p"] by (simp add: algebra_simps)
qed simp

definition a_upd :: "aidx \<Rightarrow> nat \<Rightarrow> ent \<Rightarrow> aidx" where
  "a_upd a x e = a\<lparr>a_ents := upd_at IDX_BASE x e (a_ents a)\<rparr>"

lemma heap_a_upd:
  assumes "heap a x = Some e" and "ent_size e' = ent_size e"
  shows "heap (a_upd a x e') = (heap a)(x \<mapsto> e')"
proof -
  from assms(1) obtain pre post where es: "a_ents a = pre @ e # post"
    and x: "x = IDX_BASE + sum_list (map ent_size pre)" by (rule heap_split)
  have u: "a_ents (a_upd a x e') = pre @ e' # post"
    by (simp add: a_upd_def es x upd_at_split)
  have "x \<notin> fst ` set (place IDX_BASE pre)"
    using place_lt [of x _ IDX_BASE pre] x by fastforce
  moreover have "x \<notin> fst ` set (place (x + ent_size e) post)"
    using place_ge [of x _ "x + ent_size e" post] ent_size_pos [of e] by fastforce
  ultimately have "map_of (place IDX_BASE pre) x = None"
    by (simp add: map_of_eq_None_iff)
  then show ?thesis
    unfolding heap_def u es place_append using assms(2) x
    by (auto simp: fun_eq_iff map_add_def split: option.splits)
qed

lemma wf_a_upd: "wf_idx a \<Longrightarrow> wf_ent e' \<Longrightarrow> heap a x = Some e \<Longrightarrow> wf_idx (a_upd a x e')"
  by (erule heap_split) (auto simp: wf_idx_def a_upd_def upd_at_split)

lemma a_upd_simps [simp]:
  "a_free (a_upd a x e) = a_free a" "a_tab (a_upd a x e) = a_tab a"
  by (simp_all add: a_upd_def)

lemma length_enc_idx:
  "wf_idx a \<Longrightarrow> length (enc_idx a) = IDX_BASE + sum_list (map ent_size (a_ents a))"
  by (simp add: enc_idx_def wf_idx_def byte_simps IDX_BASE_def NHASH_DEF_def PTR_SZ_def)

text \<open>The bytes around a record, and the file with the record overwritten.\<close>

lemma enc_idx_ent:
  assumes "wf_idx a" and "heap a x = Some e"
  obtains X Y where "enc_idx a = X @ enc_ent e @ Y" and "length X = x"
    and "\<And>e'. enc_idx (a_upd a x e') = X @ enc_ent e' @ Y"
proof -
  from assms(2) obtain pre post where es: "a_ents a = pre @ e # post"
    and x: "x = IDX_BASE + sum_list (map ent_size pre)" by (rule heap_split)
  let ?X = "enc_ptr (a_free a) @ concat (map enc_ptr (a_tab a)) @ [NEWLINE] @ concat (map enc_ent pre)"
  let ?Y = "concat (map enc_ent post)"
  have "enc_idx a = ?X @ enc_ent e @ ?Y" by (simp add: enc_idx_def es)
  moreover have "length ?X = x"
    using assms(1) x by (simp add: wf_idx_def es byte_simps IDX_BASE_def NHASH_DEF_def PTR_SZ_def)
  moreover have "enc_idx (a_upd a x e') = ?X @ enc_ent e' @ ?Y" for e'
    unfolding enc_idx_def by (simp add: a_upd_def es x upd_at_split)
  ultimately show thesis by (rule that)
qed

end
