(* ===== verification/DbBytes.thy ===== *)
theory DbBytes
  imports DbIndex
begin

section \<open>The database library: bytes read and written by each function\<close>

text \<open>
  For a state whose system calls do not fail (\<open>quiet\<close>), the equations here say what each
  byte-level function of \<open>db.c\<close> returns and leaves: reading a pointer field or a record of
  an encoded index gives the field or record, and writing one gives the encoding of the
  updated index. The component proofs after this one never look at bytes again.
\<close>

definition quiet :: "db \<Rightarrow> bool" where
  "quiet s \<longleftrightarrow> faults s = [] \<and> canread s \<and> canwrite s"

subsection \<open>Pointer fields\<close>

text \<open>The three kinds of chain pointer: the free-list head, a hash table entry, a record's.\<close>

datatype loc = LFree | LTab nat | LEnt nat

fun loc_off :: "loc \<Rightarrow> nat" where
  "loc_off LFree = 0"
| "loc_off (LTab i) = (i + 1) * PTR_SZ"
| "loc_off (LEnt x) = x"

fun loc_ok :: "aidx \<Rightarrow> loc \<Rightarrow> bool" where
  "loc_ok a LFree = True"
| "loc_ok a (LTab i) = (i < NHASH_DEF)"
| "loc_ok a (LEnt x) = (heap a x \<noteq> None)"

fun aget :: "aidx \<Rightarrow> loc \<Rightarrow> nat" where
  "aget a LFree = a_free a"
| "aget a (LTab i) = a_tab a ! i"
| "aget a (LEnt x) = e_next (the (heap a x))"

fun aset :: "aidx \<Rightarrow> loc \<Rightarrow> nat \<Rightarrow> aidx" where
  "aset a LFree v = a\<lparr>a_free := v\<rparr>"
| "aset a (LTab i) v = a\<lparr>a_tab := (a_tab a)[i := v]\<rparr>"
| "aset a (LEnt x) v = a_upd a x ((the (heap a x))\<lparr>e_next := v\<rparr>)"

lemma ent_body_next [simp]: "ent_body (e\<lparr>e_next := v\<rparr>) = ent_body e"
  by (simp add: ent_body_def)

lemma ent_size_next [simp]: "ent_size (e\<lparr>e_next := v\<rparr>) = ent_size e"
  by (simp add: ent_size_def)

lemma aget_le: "wf_idx a \<Longrightarrow> loc_ok a l \<Longrightarrow> aget a l \<le> PTR_LIM"
proof (cases l)
  case (LEnt x)
  assume wf: "wf_idx a" and "loc_ok a l"
  then obtain e where "heap a x = Some e" using LEnt by auto
  then show ?thesis using heap_wf [OF wf] LEnt by (simp add: wf_ent_def)
qed (auto simp: wf_idx_def)

lemma wf_aset: "wf_idx a \<Longrightarrow> loc_ok a l \<Longrightarrow> v \<le> PTR_LIM \<Longrightarrow> wf_idx (aset a l v)"
proof (cases l)
  case (LEnt x)
  assume wf: "wf_idx a" and ok: "loc_ok a l" and v: "v \<le> PTR_LIM"
  from ok LEnt obtain e where e: "heap a x = Some e" by auto
  have "wf_ent (e\<lparr>e_next := v\<rparr>)" using heap_wf [OF wf e] v by (simp add: wf_ent_def)
  then show ?thesis using LEnt e wf by (simp add: wf_a_upd)
qed (auto simp: wf_idx_def dest: set_update_subset_insert [THEN subsetD])

lemma heap_aset:
  "loc_ok a l \<Longrightarrow> heap (aset a l v) =
     (case l of LEnt x \<Rightarrow> (heap a)(x \<mapsto> (the (heap a x))\<lparr>e_next := v\<rparr>) | _ \<Rightarrow> heap a)"
  by (cases l) (auto simp: heap_a_upd heap_def [of "_\<lparr>a_free := _\<rparr>"] heap_def [of "_\<lparr>a_tab := _\<rparr>"]
      heap_def [of a])

text \<open>The field in the file, and the file with the field overwritten.\<close>

lemma enc_idx_loc:
  assumes wf: "wf_idx a" and ok: "loc_ok a l"
  obtains X Y where "enc_idx a = X @ enc_ptr (aget a l) @ Y" and "length X = loc_off l"
    and "\<And>v. enc_idx (aset a l v) = X @ enc_ptr v @ Y"
proof (cases l)
  case LFree
  then show thesis
    using that [of "[]" "concat (map enc_ptr (a_tab a)) @ [NEWLINE] @ concat (map enc_ent (a_ents a))"]
    by (simp add: enc_idx_def)
next
  case (LTab i)
  then have i: "i < length (a_tab a)" using wf ok by (simp add: wf_idx_def)
  let ?X = "enc_ptr (a_free a) @ concat (map enc_ptr (take i (a_tab a)))"
  let ?Y = "concat (map enc_ptr (drop (Suc i) (a_tab a))) @ [NEWLINE] @ concat (map enc_ent (a_ents a))"
  have split: "concat (map enc_ptr ((a_tab a)[i := v])) =
      concat (map enc_ptr (take i (a_tab a))) @ enc_ptr v @ concat (map enc_ptr (drop (Suc i) (a_tab a)))" for v
    using i by (simp add: upd_conv_take_nth_drop)
  have "enc_idx a = ?X @ enc_ptr (aget a l) @ ?Y"
    using split [of "a_tab a ! i"] LTab by (simp add: enc_idx_def)
  moreover have "\<forall>p\<in>set (take i (a_tab a)). p \<le> PTR_LIM"
    using wf by (auto simp: wf_idx_def dest: in_set_takeD)
  then have "length ?X = loc_off l"
    using wf i LTab by (simp add: wf_idx_def length_enc_ptr length_enc_ptrs min_def algebra_simps)
  moreover have "enc_idx (aset a l v) = ?X @ enc_ptr v @ ?Y" for v
    using split [of v] LTab by (simp add: enc_idx_def)
  ultimately show thesis by (rule that)
next
  case (LEnt x)
  then obtain e where e: "heap a x = Some e" using ok by auto
  from wf e obtain X Y where X: "enc_idx a = X @ enc_ent e @ Y" "length X = x"
    and u: "\<And>e'. enc_idx (a_upd a x e') = X @ enc_ent e' @ Y" by (rule enc_idx_ent) blast
  let ?Y = "pad IDXLEN_SZ (dec (length (ent_body e))) @ ent_body e @ Y"
  show thesis
    using that [of X ?Y] X u LEnt e by (simp add: enc_ent_def)
qed

subsection \<open>System calls that do not fail\<close>

lemma syscall_quiet: "faults s = [] \<Longrightarrow> syscall s = (Inr True, s)"
  by (simp add: syscall_def)

lemma lseek_set: "faults s = [] \<Longrightarrow> k_lseek f (int n) SEEK_SET s = (Inr (int n), set_fpos f n s)"
  by (simp add: k_lseek_def run_simps syscall_quiet)

lemma lseek_cur: "faults s = [] \<Longrightarrow> k_lseek f 0 SEEK_CUR s = (Inr (int (fpos f s)), s)"
  by (cases f) (simp_all add: k_lseek_def run_simps syscall_quiet)

lemma lseek_end:
  "faults s = [] \<Longrightarrow> k_lseek f 0 SEEK_END s =
     (Inr (int (length (fcontent f s))), set_fpos f (length (fcontent f s)) s)"
  by (simp add: k_lseek_def run_simps syscall_quiet)

lemma read_quiet:
  "faults s = [] \<Longrightarrow> canread s \<Longrightarrow> k_read f n s =
     (let bs = segment (fpos f s) n (fcontent f s)
      in (Inr (Some bs), set_fpos f (fpos f s + length bs) s))"
  by (simp add: k_read_def run_simps syscall_quiet Let_def)

lemma write_quiet:
  "faults s = [] \<Longrightarrow> canwrite s \<Longrightarrow> k_write f bs s =
     (Inr (int (length bs)),
      set_fpos f (fpos f s + length bs) (set_fcontent f (write_at (fcontent f s) (fpos f s) bs) s))"
  by (simp add: k_write_def run_simps syscall_quiet)

lemma write_at_within: "p \<le> length c \<Longrightarrow> write_at c p bs = splice c p bs"
  by (simp add: write_at_def)

lemma setlk_quiet:
  "quiet s \<Longrightarrow> k_setlk f (int n) len t s = (Inr 0, set_lock f n len t s)"
  by (simp add: quiet_def k_setlk_def run_simps syscall_quiet split: option.split locktype.split)

lemma or_dump_quiet: "m s = (Inr r, t) \<Longrightarrow> 0 \<le> r \<Longrightarrow> or_dump m msg s = (Inr r, t)"
  by (simp add: or_dump_def bnd_run_Inr ret_run)

lemma lock_upd_again [simp]: "lock_upd f off len t (lock_upd f off len t' l) = lock_upd f off len t l"
  by (auto simp: lock_upd_def fun_eq_iff)

subsection \<open>Reading and writing pointers\<close>

lemma readptr_loc:
  assumes "quiet s" and "wf_idx a" and "idxfile s = enc_idx a" and "loc_ok a l"
  shows "db_readptr (int (loc_off l)) s = (Inr (int (aget a l)), s\<lparr>idxpos := loc_off l + PTR_SZ\<rparr>)"
proof -
  from assms(2,4) obtain X Y where X: "enc_idx a = X @ enc_ptr (aget a l) @ Y" "length X = loc_off l"
    by (rule enc_idx_loc) blast
  have le: "aget a l \<le> PTR_LIM" using assms(2,4) by (rule aget_le)
  have "segment (loc_off l) PTR_SZ (idxfile s) = enc_ptr (aget a l)"
    unfolding assms(3) X by (rule segment_append) (simp_all add: X le length_enc_ptr)
  then show ?thesis
    using assms(1) le
    by (simp add: db_readptr_def quiet_def or_dump_def lseek_set read_quiet run_simps Let_def
        length_enc_ptr atol_enc_ptr)
qed

lemma writeptr_loc:
  assumes "quiet s" and "wf_idx a" and "idxfile s = enc_idx a" and "loc_ok a l" and "v \<le> PTR_LIM"
  shows "db_writeptr (int (loc_off l)) (int v) s =
    (Inr (), s\<lparr>idxfile := enc_idx (aset a l v), idxpos := loc_off l + PTR_SZ\<rparr>)"
proof -
  from assms(2,4) obtain X Y where X: "enc_idx a = X @ enc_ptr (aget a l) @ Y" "length X = loc_off l"
    and u: "\<And>v. enc_idx (aset a l v) = X @ enc_ptr v @ Y" by (rule enc_idx_loc) blast
  have le: "aget a l \<le> PTR_LIM" using assms(2,4) by (rule aget_le)
  have "write_at (idxfile s) (loc_off l) (enc_ptr v) = enc_idx (aset a l v)"
    unfolding assms(3) u
    by (simp add: write_at_within X(1) X(2) [symmetric], rule splice_append)
       (simp_all add: X le assms(5) length_enc_ptr)
  moreover have "pad PTR_SZ (dec_int (int v)) = enc_ptr v" by (simp add: enc_ptr_def)
  moreover have "int v \<le> PTR_MAX" using assms(5) by (simp add: PTR_LIM_def PTR_MAX_def)
  ultimately show ?thesis
    using assms(1,5)
    by (simp add: db_writeptr_def quiet_def or_dump_def lseek_set write_quiet run_simps Let_def
        length_enc_ptr)
qed

subsection \<open>Reading and writing index records\<close>

definition rec_buf :: "ent \<Rightarrow> string" where
  "rec_buf e = e_key e @ NUL # dec (e_off e) @ NUL # dec (e_len e) @ [NUL]"

lemma cstr_rec_buf [simp]: "wf_ent e \<Longrightarrow> cstr (rec_buf e) = e_key e"
  by (simp add: rec_buf_def wf_ent_def cstr_append)

lemma size_t_nat [simp]: "n < 2 ^ 64 \<Longrightarrow> size_t (int n) = n"
  by (simp add: size_t_def nat_mod_distrib)

lemma split_record_ent:
  assumes "wf_ent e"
  shows "split_record (e_key e @ SEP # dec (e_off e) @ SEP # dec (e_len e) @ [NUL]) =
    Inr (rec_buf e, int (e_off e), e_len e)"
proof -
  let ?k = "e_key e" and ?o = "dec (e_off e)" and ?l = "dec (e_len e)"
  have sep: "SEP \<noteq> NUL" "SEP \<notin> set ?o" "SEP \<notin> set ?l"
    using dec_no_char(1) by (auto simp: SEP_def)
  have 1: "strchr (?k @ SEP # ?o @ SEP # ?l @ [NUL]) SEP = Some (length ?k)"
    using assms sep by (intro strchr_first) (auto simp: wf_ent_def)
  have 2: "strchr (?o @ SEP # ?l @ [NUL]) SEP = Some (length ?o)"
    using sep by (intro strchr_first) auto
  have 3: "strchr (?l @ [NUL]) SEP = None"
    using sep by (intro strchr_none) simp
  have 4: "atol (?o @ NUL # ?l @ [NUL]) = int (e_off e)"
    using assms by (intro atol_dec) (auto simp: wf_ent_def isdigit_def)
  have 5: "atol (?l @ [NUL]) = int (e_len e)"
    using assms by (intro atol_dec) (auto simp: wf_ent_def isdigit_def DATLEN_MAX_def)
  have 6: "size_t (int (e_len e)) = e_len e"
    using assms by (simp add: wf_ent_def DATLEN_MAX_def)
  show ?thesis
    using assms 6 unfolding split_record_def 1 option.case Let_def
    by (simp add: list_update_append 2 3 4 5 rec_buf_def wf_ent_def DATLEN_MAX_def)
qed

lemma ent_body_newline:
  "ent_body e ! (length (ent_body e) - 1) = NEWLINE"
  "(ent_body e)[length (ent_body e) - 1 := NUL] = e_key e @ SEP # dec (e_off e) @ SEP # dec (e_len e) @ [NUL]"
  by (simp_all add: ent_body_def2 nth_append list_update_append)

definition idx_loaded :: "nat \<Rightarrow> ent \<Rightarrow> db \<Rightarrow> db" where
  "idx_loaded x e s = s\<lparr>idxpos := x + ent_size e, idxoff := int x, ptrval := int (e_next e),
     idxlen := length (ent_body e), idxbuf := rec_buf e, datoff := int (e_off e), datlen := e_len e\<rparr>"

lemma readidx_ent:
  assumes q: "quiet s" and wf: "wf_idx a" and f: "idxfile s = enc_idx a" and e: "heap a x = Some e"
    and o: "off = int x \<or> off = 0 \<and> idxpos s = x"
  shows "db_readidx off s = (Inr (int (e_next e)), idx_loaded x e s)"
proof -
  from wf e obtain X Y where X: "enc_idx a = X @ enc_ent e @ Y" "length X = x"
    by (rule enc_idx_ent) blast
  have we: "wf_ent e" using wf e by (rule heap_wf)
  let ?n = "length (ent_body e)" and ?h = "enc_ptr (e_next e) @ pad IDXLEN_SZ (dec (length (ent_body e)))"
  have lens: "length (enc_ptr (e_next e)) = PTR_SZ" "length (pad IDXLEN_SZ (dec ?n)) = IDXLEN_SZ"
    using we by (auto simp: wf_ent_def byte_simps)
  have pos: "k_lseek Idx off (if off = 0 then SEEK_CUR else SEEK_SET) s = (Inr (int x), s\<lparr>idxpos := x\<rparr>)"
    using o q heap_nonzero [OF e] by (cases "off = 0") (auto simp: lseek_set lseek_cur quiet_def)
  have r1: "segment x (PTR_SZ + IDXLEN_SZ) (idxfile s) = ?h"
    unfolding f X by (simp add: segment_def enc_ent_def X lens)
  have r2: "segment (x + (PTR_SZ + IDXLEN_SZ)) ?n (idxfile s) = ent_body e"
  proof -
    have "idxfile s = (X @ ?h) @ ent_body e @ Y" by (simp add: f X(1) enc_ent_def)
    moreover have "length (X @ ?h) = x + (PTR_SZ + IDXLEN_SZ)" by (simp add: X(2) lens)
    ultimately show ?thesis by (metis segment_append)
  qed
  have at: "atol (enc_ptr (e_next e)) = int (e_next e)" "size_t (atoi (pad IDXLEN_SZ (dec ?n))) = ?n"
    using we by (auto simp: wf_ent_def byte_simps atoi_pad IDXLEN_MAX_def)
  have rng: "IDXLEN_MIN \<le> ?n" "?n \<le> IDXLEN_MAX" using we by (auto simp: wf_ent_def)
  show ?thesis
    using q unfolding db_readidx_def
    by (simp add: quiet_def or_dump_def pos run_simps read_quiet r1 r2 lens at rng Let_def
        ent_body_newline [unfolded One_nat_def] split_record_ent [OF we] idx_loaded_def ent_size_def add.assoc)
qed

lemma readidx_eof:
  assumes "quiet s" and "idxpos s = length (idxfile s)"
  shows "db_readidx 0 s = (Inr (-1), s\<lparr>idxoff := int (idxpos s)\<rparr>)"
  using assms
  by (simp add: db_readidx_def quiet_def or_dump_def lseek_cur run_simps read_quiet segment_def
      Let_def PTR_SZ_def)

lemma enc_ent_writeidx:
  "e' = \<lparr>e_next = v, e_key = k, e_off = off, e_len = len\<rparr> \<Longrightarrow>
   pad PTR_SZ (dec v) @ pad IDXLEN_SZ (dec (length (ent_body e'))) @ ent_body e' = enc_ent e'"
  by (simp add: enc_ent_def enc_ptr_def)

lemma writeidx_over:
  assumes q: "quiet s" and wf: "wf_idx a" and f: "idxfile s = enc_idx a" and e: "heap a x = Some e"
    and e': "e' = \<lparr>e_next = v, e_key = k, e_off = off, e_len = len\<rparr>"
    and d: "datoff s = int off" "datlen s = len"
    and sz: "ent_size e' = ent_size e" and we: "wf_ent e'"
  shows "db_writeidx k (int x) SEEK_SET (int v) s = (Inr (), s\<lparr>ptrval := int v,
     idxbuf := ent_body e' @ [NUL], idxpos := x + ent_size e', idxoff := int x,
     idxfile := enc_idx (a_upd a x e')\<rparr>)"
proof -
  from wf e obtain X Y where X: "enc_idx a = X @ enc_ent e @ Y" "length X = x"
    and u: "\<And>e'. enc_idx (a_upd a x e') = X @ enc_ent e' @ Y" by (rule enc_idx_ent) blast
  have body: "record_body k (int off) len = ent_body e'" by (simp add: ent_body_def e')
  have v: "v \<le> PTR_LIM" "int v \<le> PTR_MAX" using we by (auto simp: wf_ent_def e' PTR_LIM_def PTR_MAX_def)
  have w: "write_at (idxfile s) x (enc_ent e') = enc_idx (a_upd a x e')"
  proof -
    have "length (enc_ent e) = length (enc_ent e')"
      using sz length_enc_ent [OF we] length_enc_ent [OF heap_wf [OF wf e]] by simp
    moreover have "x \<le> length (idxfile s)" by (simp add: f X(1) X(2) [symmetric])
    ultimately show ?thesis by (simp add: write_at_within f X(1) u splice_append [OF X(2)])
  qed
  have rng: "IDXLEN_MIN \<le> length (ent_body e')" "length (ent_body e') \<le> IDXLEN_MAX"
    using we by (auto simp: wf_ent_def)
  show ?thesis
    using q d v rng length_enc_ent [OF we]
    by (simp add: db_writeidx_def quiet_def or_dump_def lseek_set write_quiet run_simps Let_def
        body enc_ent_writeidx [OF e'] w ent_size_def)
qed

lemma writeidx_append:
  assumes q: "quiet s" and f: "idxfile s = enc_idx a" and nh: "nhash s = NHASH_DEF"
    and e': "e' = \<lparr>e_next = v, e_key = k, e_off = off, e_len = len\<rparr>"
    and d: "datoff s = int off" "datlen s = len" and we: "wf_ent e'"
  shows "db_writeidx k 0 SEEK_END (int v) s = (Inr (), set_lock Idx IDX_BASE 0 None
     (s\<lparr>ptrval := int v, idxbuf := ent_body e' @ [NUL],
       idxpos := length (enc_idx a) + ent_size e', idxoff := int (length (enc_idx a)),
       idxfile := enc_idx (a\<lparr>a_ents := a_ents a @ [e']\<rparr>)\<rparr>))"
proof -
  have body: "record_body k (int off) len = ent_body e'" by (simp add: ent_body_def e')
  have v: "v \<le> PTR_LIM" "int v \<le> PTR_MAX" using we by (auto simp: wf_ent_def e' PTR_LIM_def PTR_MAX_def)
  have w: "write_at (enc_idx a) (length (enc_idx a)) (enc_ent e') = enc_idx (a\<lparr>a_ents := a_ents a @ [e']\<rparr>)"
  proof -
    have "enc_idx (a\<lparr>a_ents := a_ents a @ [e']\<rparr>) = enc_idx a @ enc_ent e'" by (simp add: enc_idx_def)
    then show ?thesis by (simp add: write_at_within splice_at_end)
  qed
  have rng: "IDXLEN_MIN \<le> length (ent_body e')" "length (ent_body e') \<le> IDXLEN_MAX"
    using we by (auto simp: wf_ent_def)
  have lk: "1 + (int PTR_SZ + int NHASH_DEF * int PTR_SZ) = int IDX_BASE" by (simp add: IDX_BASE_def)
  show ?thesis
    using q d v rng length_enc_ent [OF we] f
    by (simp add: db_writeidx_def writew_lock_def un_lock_def or_dump_def lseek_end write_quiet
        run_simps Let_def body enc_ent_writeidx [OF e'] w nh lk setlk_quiet quiet_def set_lock_def
        ent_size_def)
qed

subsection \<open>Reading and writing data records\<close>

lemma writedat_over:
  assumes "quiet s" and "off \<le> length (datfile s)"
  shows "db_writedat data (int off) SEEK_SET s = (Inr (), s\<lparr>datoff := int off,
     datlen := length data + 1, datpos := off + length data + 1,
     datfile := splice (datfile s) off (data @ [NEWLINE])\<rparr>)"
  using assms
  by (simp add: db_writedat_def quiet_def or_dump_def lseek_set write_quiet run_simps write_at_within)

lemma writedat_append:
  assumes "quiet s"
  shows "db_writedat data 0 SEEK_END s = (Inr (), set_lock Dat 0 0 None (s\<lparr>
     datoff := int (length (datfile s)), datlen := length data + 1,
     datpos := length (datfile s) + length data + 1, datfile := datfile s @ data @ [NEWLINE]\<rparr>))"
  using assms setlk_quiet [of _ Dat 0]
  by (simp add: db_writedat_def quiet_def or_dump_def lseek_end write_quiet run_simps write_at_within
      writew_lock_def un_lock_def splice_at_end set_lock_def)

lemma readdat_at:
  assumes "quiet s" and "datoff s = int off" and "datlen s = length d + 1"
    and "segment off (length d + 1) (datfile s) = d @ [NEWLINE]" and "nonul d"
  shows "db_readdat s = (Inr d, s\<lparr>datpos := off + length d + 1, datbuf := d @ [NUL]\<rparr>)"
  using assms
  by (simp add: db_readdat_def quiet_def or_dump_def lseek_set read_quiet run_simps Let_def
      list_update_append nth_append)

lemma setlk_or_dump:
  "quiet s \<Longrightarrow> or_dump (readw_lock f (int n) len) msg s = (Inr 0, set_lock f n len (Some F_RDLCK) s)"
  "quiet s \<Longrightarrow> or_dump (writew_lock f (int n) len) msg s = (Inr 0, set_lock f n len (Some F_WRLCK) s)"
  "quiet s \<Longrightarrow> or_dump (un_lock f (int n) len) msg s = (Inr 0, set_lock f n len None s)"
  by (simp_all add: readw_lock_def writew_lock_def un_lock_def or_dump_quiet setlk_quiet)

end
