(* ===== verification/DbLayout.thy ===== *)
theory DbLayout
  imports DbBytes
begin

section \<open>The database library: chains, free list and data regions\<close>

text \<open>
  The index seen as a heap of records: \<open>lay\<close> is the invariant that ties the hash chains,
  the free list and the data regions together, and \<open>alookup\<close> is the map of keys to data
  that a layout stands for. The lemmas are the pure effect of the four pointer
  manipulations of \<open>db.c\<close>: moving a record to the free list, taking one off it, putting a
  record at the head of a chain, and overwriting data in place.
\<close>

subsection \<open>Chains of records\<close>

definition nxt :: "(nat \<rightharpoonup> ent) \<Rightarrow> nat \<rightharpoonup> nat" where
  "nxt h x = map_option e_next (h x)"

fun chain :: "(nat \<rightharpoonup> nat) \<Rightarrow> nat \<Rightarrow> nat list \<Rightarrow> bool" where
  "chain n p [] \<longleftrightarrow> p = 0"
| "chain n p (x # xs) \<longleftrightarrow> p = x \<and> x \<noteq> 0 \<and> (case n x of None \<Rightarrow> False | Some q \<Rightarrow> chain n q xs)"

lemma chain_Cons [simp]:
  "chain n p (x # xs) \<longleftrightarrow> p = x \<and> x \<noteq> 0 \<and> (\<exists>q. n x = Some q \<and> chain n q xs)"
  by (auto split: option.splits)

declare chain.simps(2) [simp del]

lemma chain_unique: "chain n p xs \<Longrightarrow> chain n p ys \<Longrightarrow> xs = ys"
proof (induction xs arbitrary: p ys)
  case (Cons x xs)
  then show ?case by (cases ys) (auto split: option.splits)
qed (case_tac ys, auto)

lemma chain_suffix: "chain n p (xs @ y # ys) \<Longrightarrow> chain n y (y # ys)"
proof (induction xs arbitrary: p)
  case (Cons x xs)
  then obtain q where "chain n q (xs @ y # ys)" by (auto split: option.splits)
  then show ?case by (rule Cons.IH)
qed auto

lemma chain_distinct: "chain n p xs \<Longrightarrow> distinct xs"
proof (rule ccontr)
  assume c: "chain n p xs" and "\<not> distinct xs"
  then obtain as bs cs x where xs: "xs = as @ [x] @ bs @ [x] @ cs"
    using not_distinct_decomp by blast
  have "chain n x (x # bs @ x # cs)" using c xs chain_suffix [of n p as x] by simp
  moreover have "chain n x (x # cs)" using c xs chain_suffix [of n p "as @ x # bs" x cs] by simp
  ultimately have "x # bs @ x # cs = x # cs" by (rule chain_unique)
  then show False by simp
qed

lemma chain_cong: "(\<And>x. x \<in> set xs \<Longrightarrow> n x = n' x) \<Longrightarrow> chain n p xs = chain n' p xs"
  by (induction xs arbitrary: p) (auto split: option.splits)

lemma chain_upd_other [simp]: "x \<notin> set xs \<Longrightarrow> chain (n(x := v)) p xs = chain n p xs"
  by (rule chain_cong) auto

lemma chain_if_other [simp]:
  "x \<notin> set xs \<Longrightarrow> chain (\<lambda>a. if a = x then v else n a) p xs = chain n p xs"
  by (rule chain_cong) auto

lemma chain_dom: "chain n p xs \<Longrightarrow> x \<in> set xs \<Longrightarrow> n x \<noteq> None"
  by (induction xs arbitrary: p) (auto split: option.splits)

lemma chain_remove_first: "chain n p (x # zs) \<Longrightarrow> n x = Some q \<Longrightarrow> chain n q zs"
  by simp

lemma chain_remove_inner:
  assumes "chain n p (ys @ y # x # zs)" and "n x = Some q"
  shows "chain (n(y \<mapsto> q)) p (ys @ y # zs)"
  using assms
proof (induction ys arbitrary: p)
  case Nil
  then have "y \<notin> set zs" using chain_distinct [OF Nil.prems(1)] by auto
  then show ?case using Nil by auto
next
  case (Cons z ys)
  then have "z \<noteq> y" using chain_distinct [OF Cons.prems(1)] by auto
  then show ?case using Cons by (auto split: option.splits)
qed

subsection \<open>The layout invariant\<close>

definition blank :: "string \<Rightarrow> bool" where
  "blank k \<longleftrightarrow> list_all (\<lambda>c. c = SPACE) k"

definition ent_data :: "string \<Rightarrow> ent \<Rightarrow> string" where
  "ent_data dat e = segment (e_off e) (e_len e - 1) dat"

definition data_ok :: "string \<Rightarrow> ent \<Rightarrow> bool" where
  "data_ok dat e \<longleftrightarrow> 0 < e_len e \<and> e_off e + e_len e \<le> length dat \<and>
     segment (e_off e) (e_len e) dat = ent_data dat e @ [NEWLINE] \<and> nonul (ent_data dat e)"

definition apart :: "ent \<Rightarrow> ent \<Rightarrow> bool" where
  "apart e f \<longleftrightarrow> e_off e + e_len e \<le> e_off f \<or> e_off f + e_len f \<le> e_off e"

definition key_at :: "(nat \<rightharpoonup> ent) \<Rightarrow> nat \<Rightarrow> string" where
  "key_at h x = e_key (the (h x))"

abbreviation hash_of :: "string \<Rightarrow> nat" where
  "hash_of k \<equiv> db_hash NHASH_DEF k"

definition lay :: "(nat \<rightharpoonup> ent) \<Rightarrow> nat \<Rightarrow> nat list \<Rightarrow> string \<Rightarrow> nat list \<Rightarrow> (nat \<Rightarrow> nat list) \<Rightarrow> bool" where
  "lay h fp tb dat fl cs \<longleftrightarrow>
     length tb = NHASH_DEF \<and> chain (nxt h) fp fl \<and>
     (\<forall>i<NHASH_DEF. chain (nxt h) (tb ! i) (cs i) \<and> set fl \<inter> set (cs i) = {} \<and>
        distinct (map (key_at h) (cs i)) \<and> (\<forall>x\<in>set (cs i). hash_of (key_at h x) = i)) \<and>
     (\<forall>x e. h x = Some e \<longrightarrow> data_ok dat e) \<and>
     (\<forall>x y e f. h x = Some e \<longrightarrow> h y = Some f \<longrightarrow> x \<noteq> y \<longrightarrow> apart e f) \<and>
     (\<forall>x e. h x = Some e \<longrightarrow> (\<forall>i<NHASH_DEF. x \<notin> set (cs i)) \<longrightarrow> blank (e_key e))"

definition alookup :: "(nat \<rightharpoonup> ent) \<Rightarrow> string \<Rightarrow> (nat \<Rightarrow> nat list) \<Rightarrow> string \<rightharpoonup> string" where
  "alookup h dat cs k =
     map_option (\<lambda>x. ent_data dat (the (h x))) (find (\<lambda>x. key_at h x = k) (cs (hash_of k)))"

lemma hash_of_less: "hash_of k < NHASH_DEF"
  by (simp add: db_hash_def NHASH_DEF_def)

lemma lay_chain: "lay h fp tb dat fl cs \<Longrightarrow> i < NHASH_DEF \<Longrightarrow> chain (nxt h) (tb ! i) (cs i)"
  and lay_free: "lay h fp tb dat fl cs \<Longrightarrow> chain (nxt h) fp fl"
  and lay_data: "lay h fp tb dat fl cs \<Longrightarrow> h x = Some e \<Longrightarrow> data_ok dat e"
  and lay_keys: "lay h fp tb dat fl cs \<Longrightarrow> i < NHASH_DEF \<Longrightarrow> distinct (map (key_at h) (cs i))"
  and lay_hash: "lay h fp tb dat fl cs \<Longrightarrow> i < NHASH_DEF \<Longrightarrow> x \<in> set (cs i) \<Longrightarrow> hash_of (key_at h x) = i"
  and lay_disj: "lay h fp tb dat fl cs \<Longrightarrow> i < NHASH_DEF \<Longrightarrow> set fl \<inter> set (cs i) = {}"
  and lay_apart: "lay h fp tb dat fl cs \<Longrightarrow> h x = Some e \<Longrightarrow> h y = Some f \<Longrightarrow> x \<noteq> y \<Longrightarrow> apart e f"
  and lay_len: "lay h fp tb dat fl cs \<Longrightarrow> length tb = NHASH_DEF"
  unfolding lay_def by blast+

lemma lay_blank: "lay h fp tb dat fl cs \<Longrightarrow> h x = Some e \<Longrightarrow> (\<And>i. i < NHASH_DEF \<Longrightarrow> x \<notin> set (cs i)) \<Longrightarrow> blank (e_key e)"
  unfolding lay_def by blast

lemma chain_heap: "chain (nxt h) p xs \<Longrightarrow> x \<in> set xs \<Longrightarrow> \<exists>e. h x = Some e"
  using chain_dom by (fastforce simp: nxt_def)

lemma lay_bucket_unique:
  "lay h fp tb dat fl cs \<Longrightarrow> i < NHASH_DEF \<Longrightarrow> j < NHASH_DEF \<Longrightarrow> x \<in> set (cs i) \<Longrightarrow> x \<in> set (cs j) \<Longrightarrow> i = j"
  using lay_hash by blast

lemma find_split_None: "find P xs = None \<longleftrightarrow> (\<forall>x\<in>set xs. \<not> P x)"
  by (induction xs) auto

lemma find_first_split: "\<forall>y\<in>set ys. \<not> P y \<Longrightarrow> P x \<Longrightarrow> find P (ys @ x # zs) = Some x"
  by (induction ys) auto

lemma find_split_Some: "find P xs = Some x \<Longrightarrow> \<exists>ys zs. xs = ys @ x # zs \<and> P x \<and> (\<forall>y\<in>set ys. \<not> P y)"
proof (induction xs)
  case (Cons a xs)
  show ?case
  proof (cases "P a")
    case True
    then have "a # xs = [] @ x # xs \<and> P x" using Cons.prems by simp
    then show ?thesis by (metis empty_iff empty_set)
  next
    case False
    then obtain ys zs where "xs = ys @ x # zs" "P x" "\<forall>y\<in>set ys. \<not> P y" using Cons by auto
    then have "a # xs = (a # ys) @ x # zs \<and> P x \<and> (\<forall>y\<in>set (a # ys). \<not> P y)" using False by simp
    then show ?thesis by blast
  qed
qed simp

lemma find_cong_set: "(\<And>x. x \<in> set xs \<Longrightarrow> P x = Q x) \<Longrightarrow> find P xs = find Q xs"
  by (induction xs) auto

lemma alookup_at:
  assumes "cs (hash_of k) = ys @ x # zs" and "key_at h x = k" and "\<forall>y\<in>set ys. key_at h y \<noteq> k"
    and "h x = Some e"
  shows "alookup h dat cs k = Some (ent_data dat e)"
  using assms by (simp add: alookup_def find_first_split)

lemma alookup_cong:
  assumes "\<And>y. y \<in> set (cs (hash_of q)) \<Longrightarrow>
    key_at h' y = key_at h y \<and> ent_data dat' (the (h' y)) = ent_data dat (the (h y))"
  shows "alookup h' dat' cs q = alookup h dat cs q"
proof -
  have "find (\<lambda>y. key_at h' y = q) (cs (hash_of q)) = find (\<lambda>y. key_at h y = q) (cs (hash_of q))"
    using assms by (intro find_cong_set) simp
  moreover have "y \<in> set (cs (hash_of q))" if "find (\<lambda>y. key_at h y = q) (cs (hash_of q)) = Some y" for y
    using find_split_Some [OF that] by auto
  ultimately show ?thesis
    using assms by (cases "find (\<lambda>y. key_at h y = q) (cs (hash_of q))") (auto simp: alookup_def)
qed

lemma alookup_none: "\<forall>y\<in>set (cs (hash_of k)). key_at h y \<noteq> k \<Longrightarrow> alookup h dat cs k = None"
  by (simp add: alookup_def find_split_None)

subsection \<open>Data regions\<close>

lemma segment_split:
  "0 < n \<Longrightarrow> p + n \<le> length dat \<Longrightarrow> segment p n dat = segment p (n - 1) dat @ [dat ! (p + n - 1)]"
  by (cases n) (simp_all add: segment_def take_Suc_conv_app_nth)

lemma data_ok_cong:
  assumes "length dat \<le> length dat'" and "segment (e_off e) (e_len e) dat' = segment (e_off e) (e_len e) dat"
    and "data_ok dat e"
  shows "data_ok dat' e" and "ent_data dat' e = ent_data dat e"
proof -
  have r: "0 < e_len e" "e_off e + e_len e \<le> length dat" using assms(3) by (auto simp: data_ok_def)
  then show eq: "ent_data dat' e = ent_data dat e"
    using assms(1,2) segment_split [of "e_len e" "e_off e" dat'] segment_split [of "e_len e" "e_off e" dat]
    unfolding ent_data_def by simp
  show "data_ok dat' e" using assms eq by (simp add: data_ok_def)
qed

lemma splice_other:
  assumes "data_ok dat e" and "data_ok dat f" and "apart f e" and "length d + 1 = e_len e"
  shows "data_ok (splice dat (e_off e) (d @ [NEWLINE])) f"
    and "ent_data (splice dat (e_off e) (d @ [NEWLINE])) f = ent_data dat f"
proof -
  have len: "e_off e + length (d @ [NEWLINE]) \<le> length dat" using assms(1,4) by (simp add: data_ok_def)
  have "segment (e_off f) (e_len f) (splice dat (e_off e) (d @ [NEWLINE])) = segment (e_off f) (e_len f) dat"
    using assms(3)[unfolded apart_def]
  proof
    assume "e_off f + e_len f \<le> e_off e"
    then show ?thesis using len by (intro segment_splice_before) auto
  next
    assume "e_off e + e_len e \<le> e_off f"
    then show ?thesis using len assms(4) by (intro segment_splice_after) auto
  qed
  note s = data_ok_cong [OF eq_refl [OF length_splice [OF len, symmetric]] this assms(2)]
  show "data_ok (splice dat (e_off e) (d @ [NEWLINE])) f" by (rule s)
  show "ent_data (splice dat (e_off e) (d @ [NEWLINE])) f = ent_data dat f" by (rule s)
qed

lemma splice_same:
  assumes "data_ok dat e" and "length d + 1 = e_len e" and "nonul d"
    and "e_off e' = e_off e" and "e_len e' = e_len e"
  shows "data_ok (splice dat (e_off e) (d @ [NEWLINE])) e'"
    and "ent_data (splice dat (e_off e) (d @ [NEWLINE])) e' = d"
proof -
  let ?dat = "splice dat (e_off e) (d @ [NEWLINE])"
  have len: "e_off e + length (d @ [NEWLINE]) \<le> length dat" using assms(1,2) by (simp add: data_ok_def)
  have seg: "segment (e_off e) (e_len e) ?dat = d @ [NEWLINE]"
    using segment_splice_same [of "e_off e" dat "d @ [NEWLINE]"] len assms(2) by simp
  have l: "length ?dat = length dat" using len by (rule length_splice)
  show d: "ent_data ?dat e' = d"
    using seg segment_split [of "e_len e" "e_off e" ?dat] l len assms(2,4,5) by (simp add: ent_data_def)
  show "data_ok ?dat e'" using d seg l len assms by (simp add: data_ok_def)
qed

lemma append_other:
  assumes "data_ok dat f"
  shows "data_ok (dat @ g) f" and "ent_data (dat @ g) f = ent_data dat f"
  using data_ok_cong [of dat "dat @ g" f] assms by (auto simp: data_ok_def segment_append_left)

lemma append_same:
  assumes "nonul d" and "e_off e = length dat" and "e_len e = length d + 1"
  shows "data_ok (dat @ d @ [NEWLINE]) e" and "ent_data (dat @ d @ [NEWLINE]) e = d"
  using assms by (auto simp: data_ok_def ent_data_def segment_def)

subsection \<open>Moving records between the chains\<close>

lemma nxt_upd [simp]: "nxt (h(x \<mapsto> e)) = (nxt h)(x \<mapsto> e_next e)"
  by (auto simp: nxt_def)

lemma key_at_upd: "key_at (h(x \<mapsto> e)) y = (if y = x then e_key e else key_at h y)"
  by (simp add: key_at_def)

text \<open>
  The chain pointer that precedes position \<open>x\<close> of a chain is the head pointer or the field
  of the last record before \<open>x\<close>; \<open>relink\<close> redirects it.
\<close>

definition relink :: "(nat \<rightharpoonup> ent) \<Rightarrow> nat \<Rightarrow> nat list \<Rightarrow> nat \<Rightarrow> (nat \<rightharpoonup> ent) \<times> nat" where
  "relink h p ys q = (if ys = [] then (h, q)
     else (h(last ys \<mapsto> (the (h (last ys)))\<lparr>e_next := q\<rparr>), p))"

lemma chain_relink:
  assumes "chain (nxt h) p (ys @ x # zs)" and "nxt h x = Some q"
  shows "chain (nxt (fst (relink h p ys q))) (snd (relink h p ys q)) (ys @ zs)"
proof (cases ys rule: rev_cases)
  case Nil
  then show ?thesis using assms by (simp add: relink_def)
next
  case (snoc us y)
  then show ?thesis using chain_remove_inner [of "nxt h" p us y x zs q] assms by (simp add: relink_def)
qed

lemma relink_heap:
  assumes "chain (nxt h) p (ys @ zs)" and "h' = fst (relink h p ys q)"
  shows "dom h' = dom h"
    and "h z = Some e \<Longrightarrow> \<exists>m. h' z = Some (e\<lparr>e_next := m\<rparr>)"
    and "h' z = Some e' \<Longrightarrow> \<exists>m e. h z = Some e \<and> e' = e\<lparr>e_next := m\<rparr>"
    and "z \<notin> set ys \<Longrightarrow> nxt h' z = nxt h z"
proof -
  have d: "\<exists>e. h (last ys) = Some e" if "ys \<noteq> []"
    using chain_heap [OF assms(1), of "last ys"] that by simp
  show "dom h' = dom h" using d assms(2) by (auto simp: relink_def)
  show "\<exists>m. h' z = Some (e\<lparr>e_next := m\<rparr>)" if "h z = Some e"
  proof (cases "ys \<noteq> [] \<and> z = last ys")
    case True
    then show ?thesis using that assms(2) by (auto simp: relink_def)
  next
    case False
    then have "h' z = Some (e\<lparr>e_next := e_next e\<rparr>)" using that assms(2) by (auto simp: relink_def)
    then show ?thesis ..
  qed
  show "\<exists>m e. h z = Some e \<and> e' = e\<lparr>e_next := m\<rparr>" if "h' z = Some e'"
  proof (cases "ys \<noteq> [] \<and> z = last ys")
    case True
    then show ?thesis using that d assms(2) by (auto simp: relink_def)
  next
    case False
    then have "h z = Some e' \<and> e' = e'\<lparr>e_next := e_next e'\<rparr>"
      using that assms(2) by (auto simp: relink_def split: if_splits)
    then show ?thesis by blast
  qed
  show "nxt h' z = nxt h z" if "z \<notin> set ys"
    using that assms(2) by (auto simp: relink_def split: if_splits)
qed

lemma data_next [simp]: "data_ok dat (e\<lparr>e_next := m\<rparr>) = data_ok dat e" "ent_data dat (e\<lparr>e_next := m\<rparr>) = ent_data dat e"
  by (simp_all add: data_ok_def ent_data_def)

lemma apart_next [simp]: "apart (e\<lparr>e_next := m\<rparr>) f = apart e f" "apart f (e\<lparr>e_next := m\<rparr>) = apart f e"
  by (simp_all add: apart_def)

lemma layI:
  assumes "length tb = NHASH_DEF" and "chain (nxt h) fp fl"
    and "\<And>i. i < NHASH_DEF \<Longrightarrow> chain (nxt h) (tb ! i) (cs i)"
    and "\<And>i. i < NHASH_DEF \<Longrightarrow> set fl \<inter> set (cs i) = {}"
    and "\<And>i. i < NHASH_DEF \<Longrightarrow> distinct (map (key_at h) (cs i))"
    and "\<And>i x. i < NHASH_DEF \<Longrightarrow> x \<in> set (cs i) \<Longrightarrow> hash_of (key_at h x) = i"
    and "\<And>x e. h x = Some e \<Longrightarrow> data_ok dat e"
    and "\<And>x y e f. h x = Some e \<Longrightarrow> h y = Some f \<Longrightarrow> x \<noteq> y \<Longrightarrow> apart e f"
    and "\<And>x e. h x = Some e \<Longrightarrow> \<forall>i<NHASH_DEF. x \<notin> set (cs i) \<Longrightarrow> blank (e_key e)"
  shows "lay h fp tb dat fl cs"
  unfolding lay_def using assms by blast

lemma apart_sym: "apart e f \<longleftrightarrow> apart f e"
  by (auto simp: apart_def)

text \<open>A record \<open>x\<close> that is in no chain becomes the head of the chain of its key.\<close>

lemma lay_push:
  assumes L: "lay h fp tb dat fl cs" and i: "i = hash_of k"
    and x: "x \<notin> set fl" "\<And>j. j < NHASH_DEF \<Longrightarrow> x \<notin> set (cs j)" "x \<noteq> 0"
    and new: "\<forall>y\<in>set (cs i). key_at h y \<noteq> k"
    and e': "e_key e' = k" "e_next e' = tb ! i" "data_ok dat' e'"
    and others: "\<And>y e. h y = Some e \<Longrightarrow> y \<noteq> x \<Longrightarrow>
       data_ok dat' e \<and> ent_data dat' e = ent_data dat e \<and> apart e e'"
  shows "lay (h(x \<mapsto> e')) fp (tb[i := x]) dat' fl (cs(i := x # cs i))"
    and "alookup (h(x \<mapsto> e')) dat' (cs(i := x # cs i)) = (alookup h dat cs)(k \<mapsto> ent_data dat' e')"
proof -
  have il: "i < NHASH_DEF" using i hash_of_less by simp
  have key: "key_at (h(x \<mapsto> e')) y = key_at h y" if "y \<in> set (cs j)" "j < NHASH_DEF" for y j
    using that x(2) by (auto simp: key_at_upd)
  show "lay (h(x \<mapsto> e')) fp (tb[i := x]) dat' fl (cs(i := x # cs i))"
  proof (rule layI)
    show "length (tb[i := x]) = NHASH_DEF" using lay_len [OF L] by simp
    show "chain (nxt (h(x \<mapsto> e'))) fp fl" using lay_free [OF L] x(1) by simp
  next
    fix j assume j: "j < NHASH_DEF"
    show "chain (nxt (h(x \<mapsto> e'))) (tb[i := x] ! j) ((cs(i := x # cs i)) j)"
      using lay_chain [OF L j] x(2) [OF j] x(3) e'(2) lay_len [OF L] j by (cases "j = i") auto
    show "set fl \<inter> set ((cs(i := x # cs i)) j) = {}" using lay_disj [OF L j] x(1) by auto
    have m: "map (key_at (h(x \<mapsto> e'))) (cs j) = map (key_at h) (cs j)" using key j by simp
    show "distinct (map (key_at (h(x \<mapsto> e'))) ((cs(i := x # cs i)) j))"
    proof -
      have "key_at (h(x \<mapsto> e')) x = k" by (simp add: key_at_upd e'(1))
      then show ?thesis using lay_keys [OF L j] m new key [OF _ j] by (auto simp del: map_eq_conv)
    qed
    show "hash_of (key_at (h(x \<mapsto> e')) y) = j" if "y \<in> set ((cs(i := x # cs i)) j)" for y
      using that lay_hash [OF L j] x(2) [OF j] e'(1) i by (auto simp: key_at_upd split: if_splits)
  next
    show "data_ok dat' e" if "(h(x \<mapsto> e')) y = Some e" for y e
      using that others e'(3) by (auto split: if_splits)
    show "apart e f" if "(h(x \<mapsto> e')) y = Some e" "(h(x \<mapsto> e')) z = Some f" "y \<noteq> z" for y z e f
    proof -
      have "apart e' g" if "h u = Some g" "u \<noteq> x" for u g
        using others [OF that] apart_sym by blast
      then show ?thesis using that others lay_apart [OF L] by (auto split: if_splits)
    qed
    show "blank (e_key e)" if "(h(x \<mapsto> e')) y = Some e" "\<forall>j<NHASH_DEF. y \<notin> set ((cs(i := x # cs i)) j)" for y e
    proof -
      have "y \<noteq> x" using that(2) il by auto
      moreover have "y \<notin> set (cs j)" if "j < NHASH_DEF" for j
        using \<open>\<forall>j<NHASH_DEF. _\<close> [rule_format, OF that] by (auto split: if_splits)
      ultimately show ?thesis using that(1) lay_blank [OF L] by simp
    qed
  qed
  show "alookup (h(x \<mapsto> e')) dat' (cs(i := x # cs i)) = (alookup h dat cs)(k \<mapsto> ent_data dat' e')"
  proof (rule ext)
    fix q
    have hq: "hash_of q < NHASH_DEF" by (rule hash_of_less)
    have old: "alookup (h(x \<mapsto> e')) dat' cs q = alookup h dat cs q"
    proof (rule alookup_cong)
      fix y assume y: "y \<in> set (cs (hash_of q))"
      then obtain f where f: "h y = Some f" using chain_heap [OF lay_chain [OF L hq]] by blast
      have "y \<noteq> x" using x(2) [OF hq] y by auto
      then show "key_at (h(x \<mapsto> e')) y = key_at h y \<and>
          ent_data dat' (the ((h(x \<mapsto> e')) y)) = ent_data dat (the (h y))"
        using others [OF f] f by (simp add: key_at_upd)
    qed
    show "alookup (h(x \<mapsto> e')) dat' (cs(i := x # cs i)) q = ((alookup h dat cs)(k \<mapsto> ent_data dat' e')) q"
      using old i e'(1)
      by (cases "q = k"; cases "hash_of q = i") (auto simp: alookup_def key_at_upd)
  qed
qed

text \<open>A record of the free list is taken off it; it is then in no chain.\<close>

lemma lay_unlink_free:
  assumes L: "lay h fp tb dat fl cs" and fl: "fl = ys @ x # zs" and x: "h x = Some e"
    and h': "relink h fp ys (e_next e) = (h', fp')"
  shows "lay h' fp' tb dat (ys @ zs) cs" and "alookup h' dat cs = alookup h dat cs"
proof -
  have c: "chain (nxt h) fp (ys @ x # zs)" using lay_free [OF L] fl by simp
  have nx: "nxt h x = Some (e_next e)" by (simp add: nxt_def x)
  note hh = relink_heap [OF c, of h' "e_next e", unfolded h', OF fst_conv [symmetric]]
  have key: "key_at h' y = key_at h y" if "h y \<noteq> None" for y
    using that hh(2) by (fastforce simp: key_at_def)
  have keyc: "key_at h' y = key_at h y" if "j < NHASH_DEF" "y \<in> set (cs j)" for y j
    using that key chain_heap [OF lay_chain [OF L that(1)] that(2)] by simp
  show "lay h' fp' tb dat (ys @ zs) cs"
  proof (rule layI)
    show "length tb = NHASH_DEF" by (rule lay_len [OF L])
    show "chain (nxt h') fp' (ys @ zs)" using chain_relink [OF c nx] h' by simp
  next
    fix j assume j: "j < NHASH_DEF"
    have "y \<notin> set ys" if "y \<in> set (cs j)" for y using that lay_disj [OF L j] fl by auto
    then show "chain (nxt h') (tb ! j) (cs j)"
      using lay_chain [OF L j] hh(4) by (metis chain_cong)
    show "set (ys @ zs) \<inter> set (cs j) = {}" using lay_disj [OF L j] fl by auto
    show "distinct (map (key_at h') (cs j))" using lay_keys [OF L j] keyc j by (simp cong: map_cong)
    show "hash_of (key_at h' y) = j" if "y \<in> set (cs j)" for y
      using that lay_hash [OF L j that] keyc j by simp
  next
    show "data_ok dat f" if "h' y = Some f" for y f
      using hh(3) [OF that] lay_data [OF L] by auto
    show "apart f g" if "h' y = Some f" "h' z = Some g" "y \<noteq> z" for y z f g
      using hh(3) [OF that(1)] hh(3) [OF that(2)] lay_apart [OF L _ _ that(3)] by auto
    show "blank (e_key f)" if "h' y = Some f" "\<forall>j<NHASH_DEF. y \<notin> set (cs j)" for y f
      using hh(3) [OF that(1)] lay_blank [OF L] that(2) by auto
  qed
  show "alookup h' dat cs = alookup h dat cs"
  proof (rule ext)
    fix q
    show "alookup h' dat cs q = alookup h dat cs q"
    proof (rule alookup_cong)
      fix y assume y: "y \<in> set (cs (hash_of q))"
      then obtain f where f: "h y = Some f" using chain_heap [OF lay_chain [OF L hash_of_less]] by blast
      show "key_at h' y = key_at h y \<and> ent_data dat (the (h' y)) = ent_data dat (the (h y))"
        using keyc [OF hash_of_less y] hh(2) [OF f] f by auto
    qed
  qed
qed

text \<open>A record of a chain is blanked and becomes the head of the free list.\<close>

lemma lay_free_record:
  assumes L: "lay h fp tb dat fl cs" and i: "i < NHASH_DEF" and csi: "cs i = ys @ x # zs"
    and x: "h x = Some e" and r: "relink h (tb ! i) ys (e_next e) = (h1, p')"
    and e': "e_next e' = fp" "blank (e_key e')" "data_ok dat' e'"
    and others: "\<And>y f. h y = Some f \<Longrightarrow> y \<noteq> x \<Longrightarrow>
       data_ok dat' f \<and> ent_data dat' f = ent_data dat f \<and> apart f e'"
  shows "lay (h1(x \<mapsto> e')) x (tb[i := p']) dat' (x # fl) (cs(i := ys @ zs))" (is "lay ?h _ _ _ _ ?cs")
    and "alookup (h1(x \<mapsto> e')) dat' (cs(i := ys @ zs)) = (alookup h dat cs)(key_at h x := None)"
proof -
  have c: "chain (nxt h) (tb ! i) (ys @ x # zs)" using lay_chain [OF L i] csi by simp
  have nx: "nxt h x = Some (e_next e)" by (simp add: nxt_def x)
  note hh = relink_heap [OF c, of h1 "e_next e", unfolded r, OF fst_conv [symmetric]]
  have dx: "x \<notin> set ys" "x \<notin> set zs" using chain_distinct [OF c] by auto
  have xcs: "x \<notin> set (?cs j)" if "j < NHASH_DEF" for j
    using dx lay_bucket_unique [OF L i that, of x] csi by (cases "j = i") auto
  have sub: "set (?cs j) \<subseteq> set (cs j)" for j using csi by auto
  have fx: "x \<notin> set fl" using lay_disj [OF L i] csi by auto
  have fys: "y \<notin> set ys" if "y \<in> set fl" for y using lay_disj [OF L i] csi that by auto
  have key: "key_at ?h y = key_at h y" if "y \<noteq> x" "h y \<noteq> None" for y
    using that hh(2) by (fastforce simp: key_at_def)
  have keyc: "key_at ?h y = key_at h y" if j: "j < NHASH_DEF" and y: "y \<in> set (?cs j)" for y j
  proof (rule key)
    show "y \<noteq> x" using xcs [OF j] y by auto
    show "h y \<noteq> None" using chain_heap [OF lay_chain [OF L j], of y] sub [of j] y by auto
  qed
  have was: "\<exists>f m. h y = Some f \<and> g = f\<lparr>e_next := m\<rparr>" if "?h y = Some g" "y \<noteq> x" for y g
    using hh(3) [of y g] that by auto
  show "lay ?h x (tb[i := p']) dat' (x # fl) ?cs"
  proof (rule layI)
    show "length (tb[i := p']) = NHASH_DEF" using lay_len [OF L] by simp
    have "chain (nxt h1) fp fl" using lay_free [OF L] fys hh(4) by (metis chain_cong)
    moreover have "x \<noteq> 0" using c by (auto dest: chain_suffix)
    ultimately show "chain (nxt ?h) x (x # fl)" using e'(1) fx by simp
  next
    fix j assume j: "j < NHASH_DEF"
    have ex: "chain (nxt h1) ((tb[i := p']) ! j) (?cs j)"
    proof (cases "j = i")
      case True
      then show ?thesis using chain_relink [OF c nx] r lay_len [OF L] i by simp
    next
      case False
      have "y \<notin> set ys" if "y \<in> set (cs j)" for y
        using that False lay_bucket_unique [OF L i j, of y] csi by auto
      then show ?thesis using False lay_chain [OF L j] hh(4) by (metis chain_cong fun_upd_other nth_list_update_neq)
    qed
    then show "chain (nxt ?h) ((tb[i := p']) ! j) (?cs j)" using xcs [OF j] by (simp del: fun_upd_apply)
    show "set (x # fl) \<inter> set (?cs j) = {}" using lay_disj [OF L j] xcs [OF j] sub [of j] by auto
    have "distinct (map (key_at h) (?cs j))"
      using lay_keys [OF L j] distinct_map_remove(1) [of "key_at h" ys x zs] csi by (cases "j = i") simp_all
    moreover have "map (key_at ?h) (?cs j) = map (key_at h) (?cs j)" using keyc [OF j] by simp
    ultimately show "distinct (map (key_at ?h) (?cs j))" by metis
    show "hash_of (key_at ?h y) = j" if "y \<in> set (?cs j)" for y
      using that lay_hash [OF L j] sub [of j] keyc [OF j that] by auto
  next
    show "data_ok dat' g" if "?h y = Some g" for y g
      using was [OF that] that e'(3) others by (cases "y = x") auto
    show "apart f g" if "?h y = Some f" "?h z = Some g" "y \<noteq> z" for y z f g
    proof (cases "y = x \<or> z = x")
      case True
      then show ?thesis using that was others apart_sym by (metis apart_next(1) fun_upd_same option.inject)
    next
      case False
      then show ?thesis using was [OF that(1)] was [OF that(2)] lay_apart [OF L _ _ that(3)] by auto
    qed
    show "blank (e_key g)" if g: "?h y = Some g" and n: "\<forall>j<NHASH_DEF. y \<notin> set (?cs j)" for y g
    proof (cases "y = x")
      case True
      then show ?thesis using g e'(2) by simp
    next
      case False
      have "y \<notin> set (cs j)" if "j < NHASH_DEF" for j
        using n [rule_format, OF that] False csi by (auto split: if_splits)
      then show ?thesis using was [OF g False] lay_blank [OF L] by auto
    qed
  qed
  show "alookup ?h dat' ?cs = (alookup h dat cs)(key_at h x := None)"
  proof (rule ext)
    fix q
    have eq: "alookup ?h dat' ?cs q = alookup h dat ?cs q"
    proof (rule alookup_cong)
      fix y assume y: "y \<in> set (?cs (hash_of q))"
      then obtain f where f: "h y = Some f"
        using chain_heap [OF lay_chain [OF L hash_of_less [of q]], of y] sub [of "hash_of q"] by blast
      have "y \<noteq> x" using xcs [OF hash_of_less [of q]] y by auto
      then show "key_at ?h y = key_at h y \<and> ent_data dat' (the (?h y)) = ent_data dat (the (h y))"
        using keyc [OF hash_of_less y] hh(2) [OF f] others [OF f] f by auto
    qed
    have hx: "hash_of (key_at h x) = i" using lay_hash [OF L i] csi by simp
    have other: "key_at h y \<noteq> key_at h x" if "y \<in> set ys \<union> set zs" for y
      using lay_keys [OF L i] csi that distinct_map_remove(2,3) [of "key_at h" ys x zs] by auto
    show "alookup ?h dat' ?cs q = ((alookup h dat cs)(key_at h x := None)) q"
    proof (cases "q = key_at h x")
      case True
      then show ?thesis unfolding eq using other hx by (simp add: alookup_none)
    next
      case False
      have "find (\<lambda>y. key_at h y = q) (ys @ x # zs) = find (\<lambda>y. key_at h y = q) (ys @ zs)"
        using False by (induction ys) auto
      then show ?thesis unfolding eq using False csi by (auto simp: alookup_def)
    qed
  qed
qed

text \<open>The data of a record is overwritten in place.\<close>

lemma lay_overwrite:
  assumes L: "lay h fp tb dat fl cs" and i: "i < NHASH_DEF" and x: "x \<in> set (cs i)" "h x = Some e"
    and d: "data_ok dat' e"
    and others: "\<And>y f. h y = Some f \<Longrightarrow> y \<noteq> x \<Longrightarrow> data_ok dat' f \<and> ent_data dat' f = ent_data dat f"
  shows "lay h fp tb dat' fl cs"
    and "alookup h dat' cs = (alookup h dat cs)(key_at h x \<mapsto> ent_data dat' e)"
proof -
  have "data_ok dat' f" if "h y = Some f" for y f using that d others x(2) by (cases "y = x") auto
  then show "lay h fp tb dat' fl cs" using L unfolding lay_def by blast
  have hx: "hash_of (key_at h x) = i" using lay_hash [OF L i x(1)] .
  show "alookup h dat' cs = (alookup h dat cs)(key_at h x \<mapsto> ent_data dat' e)"
  proof (rule ext)
    fix q
    show "alookup h dat' cs q = ((alookup h dat cs)(key_at h x \<mapsto> ent_data dat' e)) q"
    proof (cases "q = key_at h x")
      case True
      obtain ys zs where csi: "cs i = ys @ x # zs" using x(1) by (meson split_list)
      have "\<forall>y\<in>set ys. key_at h y \<noteq> key_at h x"
        using lay_keys [OF L i] csi distinct_map_remove(2) [of "key_at h" ys x zs] by simp
      moreover have "cs (hash_of (key_at h x)) = ys @ x # zs" unfolding hx by (rule csi)
      ultimately have "alookup h dat' cs (key_at h x) = Some (ent_data dat' e)"
        using alookup_at [where h = h and x = x and k = "key_at h x", OF _ refl _ x(2)] by blast
      then show ?thesis using True by simp
    next
      case False
      have "ent_data dat' (the (h y)) = ent_data dat (the (h y))"
        if "find (\<lambda>y. key_at h y = q) (cs (hash_of q)) = Some y" for y
      proof -
        from find_split_Some [OF that] have y: "y \<in> set (cs (hash_of q))" "key_at h y = q" by auto
        then obtain f where "h y = Some f" using chain_heap [OF lay_chain [OF L hash_of_less]] by blast
        moreover have "y \<noteq> x" using y(2) False by auto
        ultimately show ?thesis using others by auto
      qed
      then have "alookup h dat' cs q = alookup h dat cs q"
        by (cases "find (\<lambda>y. key_at h y = q) (cs (hash_of q))") (simp_all add: alookup_def)
      then show ?thesis using False by simp
    qed
  qed
qed

end
