(* ===== verification/DbCorrect.thy ===== *)
theory DbCorrect
  imports DbLayout
begin

section \<open>The database library: correctness of the operations\<close>

text \<open>
  \<open>db_rep s a fl cs\<close>: the state's index file encodes \<open>a\<close> and its files have the layout
  with free list \<open>fl\<close> and chains \<open>cs\<close>; \<open>represents s m\<close>: the database holds the map
  \<open>m\<close>. Each operation of \<open>db.c\<close> is shown to compute its abstract counterpart on \<open>m\<close>.
\<close>

declare loc_off.simps [simp del]
declare find_loop.simps [simp del]

definition db_rep :: "db \<Rightarrow> aidx \<Rightarrow> nat list \<Rightarrow> (nat \<Rightarrow> nat list) \<Rightarrow> bool" where
  "db_rep s a fl cs \<longleftrightarrow> quiet s \<and> nhash s = NHASH_DEF \<and> hashoff s = HASH_OFF \<and>
     idxfile s = enc_idx a \<and> wf_idx a \<and> lay (heap a) (a_free a) (a_tab a) (datfile s) fl cs"

definition no_locks :: "dbfile \<Rightarrow> nat \<Rightarrow> locktype option" where
  "no_locks = (\<lambda>_ _. None)"

definition represents :: "db \<Rightarrow> (string \<rightharpoonup> string) \<Rightarrow> bool" where
  "represents s m \<longleftrightarrow> locks s = no_locks \<and> (\<exists>a fl cs. db_rep s a fl cs \<and> m = alookup (heap a) (datfile s) cs)"

definition frame :: "db \<Rightarrow> db \<Rightarrow> bool" where
  "frame s t \<longleftrightarrow> idxfile t = idxfile s \<and> datfile t = datfile s \<and> canread t = canread s \<and>
     canwrite t = canwrite s \<and> faults t = faults s \<and> hashoff t = hashoff s \<and> nhash t = nhash s"

definition loaded :: "db \<Rightarrow> nat \<Rightarrow> ent \<Rightarrow> bool" where
  "loaded t x e \<longleftrightarrow> idxoff t = int x \<and> ptrval t = int (e_next e) \<and> datoff t = int (e_off e) \<and>
     datlen t = e_len e \<and> cstr (idxbuf t) = e_key e"

lemma frame_refl [simp]: "frame s s"
  by (simp add: frame_def)

lemma frame_trans: "frame s t \<Longrightarrow> frame t u \<Longrightarrow> frame s u"
  by (simp add: frame_def)

lemma frame_quiet: "frame s t \<Longrightarrow> quiet s \<Longrightarrow> quiet t"
  by (simp add: frame_def quiet_def)

lemma frame_rep: "frame s t \<Longrightarrow> db_rep s a fl cs \<Longrightarrow> db_rep t a fl cs"
  by (simp add: frame_def db_rep_def quiet_def)

lemma quiet_simps [simp]:
  "quiet (s\<lparr>idxfile := x1\<rparr>) = quiet s" "quiet (s\<lparr>datfile := x1\<rparr>) = quiet s"
  "quiet (s\<lparr>idxpos := x2\<rparr>) = quiet s" "quiet (s\<lparr>datpos := x2\<rparr>) = quiet s"
  "quiet (s\<lparr>locks := x3\<rparr>) = quiet s" "quiet (s\<lparr>db_errno := x4\<rparr>) = quiet s"
  "quiet (s\<lparr>idxbuf := x1\<rparr>) = quiet s" "quiet (s\<lparr>datbuf := x1\<rparr>) = quiet s"
  "quiet (s\<lparr>idxoff := x5\<rparr>) = quiet s" "quiet (s\<lparr>idxlen := x2\<rparr>) = quiet s"
  "quiet (s\<lparr>datoff := x5\<rparr>) = quiet s" "quiet (s\<lparr>datlen := x2\<rparr>) = quiet s"
  "quiet (s\<lparr>ptrval := x5\<rparr>) = quiet s" "quiet (s\<lparr>ptroff := x5\<rparr>) = quiet s"
  "quiet (s\<lparr>chainoff := x5\<rparr>) = quiet s"
  "quiet (s\<lparr>cnt_delok := w\<rparr>) = quiet s"
  "quiet (s\<lparr>cnt_delerr := w\<rparr>) = quiet s"
  "quiet (s\<lparr>cnt_fetchok := w\<rparr>) = quiet s"
  "quiet (s\<lparr>cnt_fetcherr := w\<rparr>) = quiet s"
  "quiet (s\<lparr>cnt_nextrec := w\<rparr>) = quiet s"
  "quiet (s\<lparr>cnt_stor1 := w\<rparr>) = quiet s"
  "quiet (s\<lparr>cnt_stor2 := w\<rparr>) = quiet s"
  "quiet (s\<lparr>cnt_stor3 := w\<rparr>) = quiet s"
  "quiet (s\<lparr>cnt_stor4 := w\<rparr>) = quiet s"
  "quiet (s\<lparr>cnt_storerr := w\<rparr>) = quiet s"
  by (simp_all add: quiet_def)

text \<open>Locks commute with the other fields.\<close>

lemma set_lock_simps [simp]:
  "idxfile (set_lock f off len lt s) = idxfile s"
  "datfile (set_lock f off len lt s) = datfile s"
  "idxpos (set_lock f off len lt s) = idxpos s"
  "datpos (set_lock f off len lt s) = datpos s"
  "canread (set_lock f off len lt s) = canread s"
  "canwrite (set_lock f off len lt s) = canwrite s"
  "faults (set_lock f off len lt s) = faults s"
  "db_errno (set_lock f off len lt s) = db_errno s"
  "idxbuf (set_lock f off len lt s) = idxbuf s"
  "datbuf (set_lock f off len lt s) = datbuf s"
  "idxoff (set_lock f off len lt s) = idxoff s"
  "idxlen (set_lock f off len lt s) = idxlen s"
  "datoff (set_lock f off len lt s) = datoff s"
  "datlen (set_lock f off len lt s) = datlen s"
  "ptrval (set_lock f off len lt s) = ptrval s"
  "ptroff (set_lock f off len lt s) = ptroff s"
  "chainoff (set_lock f off len lt s) = chainoff s"
  "hashoff (set_lock f off len lt s) = hashoff s"
  "nhash (set_lock f off len lt s) = nhash s"
  "quiet (set_lock f off len lt s) = quiet s"
  "locks (set_lock f off len lt s) = lock_upd f off len lt (locks s)"
  "(set_lock f off len lt s)\<lparr>idxfile := v_idxfile\<rparr> = set_lock f off len lt (s\<lparr>idxfile := v_idxfile\<rparr>)"
  "(set_lock f off len lt s)\<lparr>datfile := v_datfile\<rparr> = set_lock f off len lt (s\<lparr>datfile := v_datfile\<rparr>)"
  "(set_lock f off len lt s)\<lparr>idxpos := v_idxpos\<rparr> = set_lock f off len lt (s\<lparr>idxpos := v_idxpos\<rparr>)"
  "(set_lock f off len lt s)\<lparr>datpos := v_datpos\<rparr> = set_lock f off len lt (s\<lparr>datpos := v_datpos\<rparr>)"
  "(set_lock f off len lt s)\<lparr>db_errno := v_db_errno\<rparr> = set_lock f off len lt (s\<lparr>db_errno := v_db_errno\<rparr>)"
  "(set_lock f off len lt s)\<lparr>idxbuf := v_idxbuf\<rparr> = set_lock f off len lt (s\<lparr>idxbuf := v_idxbuf\<rparr>)"
  "(set_lock f off len lt s)\<lparr>datbuf := v_datbuf\<rparr> = set_lock f off len lt (s\<lparr>datbuf := v_datbuf\<rparr>)"
  "(set_lock f off len lt s)\<lparr>idxoff := v_idxoff\<rparr> = set_lock f off len lt (s\<lparr>idxoff := v_idxoff\<rparr>)"
  "(set_lock f off len lt s)\<lparr>idxlen := v_idxlen\<rparr> = set_lock f off len lt (s\<lparr>idxlen := v_idxlen\<rparr>)"
  "(set_lock f off len lt s)\<lparr>datoff := v_datoff\<rparr> = set_lock f off len lt (s\<lparr>datoff := v_datoff\<rparr>)"
  "(set_lock f off len lt s)\<lparr>datlen := v_datlen\<rparr> = set_lock f off len lt (s\<lparr>datlen := v_datlen\<rparr>)"
  "(set_lock f off len lt s)\<lparr>ptrval := v_ptrval\<rparr> = set_lock f off len lt (s\<lparr>ptrval := v_ptrval\<rparr>)"
  "(set_lock f off len lt s)\<lparr>ptroff := v_ptroff\<rparr> = set_lock f off len lt (s\<lparr>ptroff := v_ptroff\<rparr>)"
  "(set_lock f off len lt s)\<lparr>chainoff := v_chainoff\<rparr> = set_lock f off len lt (s\<lparr>chainoff := v_chainoff\<rparr>)"
  by (simp_all add: set_lock_def quiet_def)

lemma unlock_all [simp]:
  "lock_upd f off len None no_locks = no_locks"
  "lock_upd f off len None (lock_upd g off' len' None L) = lock_upd g off' len' None (lock_upd f off len None L)"
  by (auto simp: lock_upd_def no_locks_def fun_eq_iff)

lemma nxt_eq_Some: "nxt h x = Some q \<longleftrightarrow> (\<exists>e. h x = Some e \<and> e_next e = q)"
  by (simp add: nxt_def)

subsection \<open>Chains fit into the index file\<close>

lemma length_place [simp]: "length (place b es) = length es"
  by (induction es arbitrary: b) auto

lemma card_heap: "finite (dom (heap a)) \<and> card (dom (heap a)) \<le> length (a_ents a)"
proof -
  have "dom (heap a) = set (map fst (place IDX_BASE (a_ents a)))"
    by (simp add: heap_def dom_map_of_conv_image_fst)
  then show ?thesis by (metis List.finite_set card_length length_map length_place)
qed

lemma sum_ent_size: "length es \<le> sum_list (map ent_size es)"
proof (induction es)
  case (Cons e es)
  then show ?case using ent_size_pos [of e] by simp
qed simp

lemma chain_fuel:
  assumes "wf_idx a" and "chain (nxt (heap a)) p xs"
  shows "length xs < length (enc_idx a) + 2"
proof -
  have "set xs \<subseteq> dom (heap a)" using chain_heap [OF assms(2)] by blast
  then have "card (set xs) \<le> length (a_ents a)" using card_heap [of a] by (meson card_mono le_trans)
  then have "length xs \<le> length (a_ents a)"
    using chain_distinct [OF assms(2)] by (simp add: distinct_card)
  also have "\<dots> \<le> length (enc_idx a)" using length_enc_idx [OF assms(1)] sum_ent_size by (metis le_add2 le_trans)
  finally show ?thesis by simp
qed

subsection \<open>The search loops\<close>

definition prev_loc :: "loc \<Rightarrow> nat list \<Rightarrow> loc" where
  "prev_loc l ys = (if ys = [] then l else LEnt (last ys))"

lemma prev_loc_Cons: "prev_loc l (y # ys) = prev_loc (LEnt y) ys"
  by (simp add: prev_loc_def)

lemma loaded_idx_loaded: "wf_ent e \<Longrightarrow> loaded (idx_loaded x e s) x e"
  by (simp add: loaded_def idx_loaded_def)

lemma frame_idx_loaded: "frame s (idx_loaded x e s)" "locks (idx_loaded x e s) = locks s"
  "chainoff (idx_loaded x e s) = chainoff s" "ptroff (idx_loaded x e s) = ptroff s"
  by (simp_all add: frame_def idx_loaded_def)

lemma find_loop_none:
  assumes "quiet s" "wf_idx a" "idxfile s = enc_idx a" "chain (nxt (heap a)) p xs" "length xs < n"
    and "\<forall>y\<in>set xs. key_at (heap a) y \<noteq> k"
  shows "\<exists>t. find_loop n k (int p) s = (Inr 0, t) \<and> frame s t \<and> locks t = locks s \<and> chainoff t = chainoff s"
  using assms
proof (induction xs arbitrary: p n s)
  case Nil
  then show ?case by (cases n) (auto simp: find_loop.simps ret_run)
next
  case (Cons x xs)
  then obtain m e where n: "n = Suc m" and p: "p = x" "x \<noteq> 0" and e: "heap a x = Some e"
    and c: "chain (nxt (heap a)) (e_next e) xs"
    by (cases n) (auto simp: nxt_eq_Some)
  let ?s1 = "idx_loaded x e s" let ?s2 = "?s1\<lparr>ptroff := int x\<rparr>"
  have we: "wf_ent e" using Cons.prems(2) e by (rule heap_wf)
  have r: "db_readidx (int x) s = (Inr (int (e_next e)), ?s1)"
    using Cons.prems(1-3) e by (rule readidx_ent) simp
  have k: "cstr (idxbuf ?s1) \<noteq> k"
    using Cons.prems(6) e loaded_idx_loaded [OF we, of x s] by (auto simp: loaded_def key_at_def)
  have step: "find_loop n k (int p) s = find_loop m k (int (e_next e)) ?s2"
    using p k by (simp add: n find_loop.simps r run_simps)
  have "frame s ?s2" "locks ?s2 = locks s" "chainoff ?s2 = chainoff s"
    using frame_idx_loaded [where s = s and x = x and e = e] by (auto simp: frame_def)
  then show ?case
    unfolding step using Cons.IH [where s = ?s2 and p = "e_next e" and n = m] Cons.prems c n
    by (auto simp: frame_def quiet_def)
qed

lemma find_loop_some:
  assumes "quiet s" "wf_idx a" "idxfile s = enc_idx a" "chain (nxt (heap a)) p (ys @ x # zs)" "length ys + 1 < n"
    and "\<forall>y\<in>set ys. key_at (heap a) y \<noteq> e_key e" and "heap a x = Some e" and "ptroff s = int (loc_off l)"
  shows "\<exists>t. find_loop n (e_key e) (int p) s = (Inr (int x), t) \<and> frame s t \<and> locks t = locks s \<and>
     chainoff t = chainoff s \<and> loaded t x e \<and> ptroff t = int (loc_off (prev_loc l ys))"
  using assms
proof (induction ys arbitrary: p n s l)
  case Nil
  then obtain m where n: "n = Suc m" by (cases n) auto
  have we: "wf_ent e" using Nil.prems(2,7) by (rule heap_wf)
  have r: "db_readidx (int x) s = (Inr (int (e_next e)), idx_loaded x e s)"
    using Nil.prems(1-3,7) by (rule readidx_ent) simp
  have "find_loop n (e_key e) (int p) s = (Inr (int x), idx_loaded x e s)"
    using Nil.prems(4) loaded_idx_loaded [OF we, of x s]
    by (simp add: n find_loop.simps r run_simps loaded_def)
  then show ?case
    using loaded_idx_loaded [OF we, of x s] frame_idx_loaded [where s = s and x = x and e = e] Nil.prems(8)
    by (auto simp: prev_loc_def)
next
  case (Cons y ys)
  then obtain m f where n: "n = Suc m" and p: "p = y" "y \<noteq> 0" and f: "heap a y = Some f"
    and c: "chain (nxt (heap a)) (e_next f) (ys @ x # zs)"
    by (cases n) (auto simp: nxt_eq_Some)
  let ?s1 = "idx_loaded y f s" let ?s2 = "?s1\<lparr>ptroff := int y\<rparr>"
  have wf: "wf_ent f" using Cons.prems(2) f by (rule heap_wf)
  have r: "db_readidx (int y) s = (Inr (int (e_next f)), ?s1)"
    using Cons.prems(1-3) f by (rule readidx_ent) simp
  have k: "cstr (idxbuf ?s1) \<noteq> e_key e"
    using Cons.prems(6) f loaded_idx_loaded [OF wf, of y s] by (auto simp: loaded_def key_at_def)
  have step: "find_loop n (e_key e) (int p) s = find_loop m (e_key e) (int (e_next f)) ?s2"
    using p k by (simp add: n find_loop.simps r run_simps)
  have "frame s ?s2" "locks ?s2 = locks s" "chainoff ?s2 = chainoff s" "ptroff ?s2 = int (loc_off (LEnt y))"
    using frame_idx_loaded [where s = s and x = y and e = f] by (auto simp: frame_def loc_off.simps)
  then show ?case
    unfolding step prev_loc_Cons using Cons.IH [where s = ?s2 and p = "e_next f" and n = m and l = "LEnt y"] Cons.prems c n
    by (auto simp: frame_def quiet_def)
qed

subsection \<open>Finding a record and locking its chain\<close>

lemma chainoff_tab: "int (i * PTR_SZ) + HASH_OFF = int (loc_off (LTab i))"
  by (simp add: HASH_OFF_def loc_off.simps)

lemma find_and_lock_prefix:
  assumes R: "db_rep s a fl cs" and h: "i = hash_of k"
    and r: "runs (find_loop (length (enc_idx a) + 2) k (int (a_tab a ! i)))
      (set_lock Idx (loc_off (LTab i)) 1 (Some (if wl then F_WRLCK else F_RDLCK))
        (s\<lparr>chainoff := int (loc_off (LTab i)), ptroff := int (loc_off (LTab i)),
           idxpos := loc_off (LTab i) + PTR_SZ\<rparr>)) offset t"
  shows "runs (db_find_and_lock k wl) s (if offset = 0 then -1 else 0) t"
proof -
  have q: "quiet s" and st: "nhash s = NHASH_DEF" "hashoff s = HASH_OFF" "idxfile s = enc_idx a" "wf_idx a"
    using R by (auto simp: db_rep_def)
  have ok: "loc_ok a (LTab i)" using hash_of_less h by simp
  let ?s0 = "s\<lparr>chainoff := int (loc_off (LTab i)), ptroff := int (loc_off (LTab i))\<rparr>"
  let ?l = "\<lambda>lt. set_lock Idx (loc_off (LTab i)) 1 (Some lt) ?s0"
  have "quiet (?l lt)" "idxfile (?l lt) = enc_idx a" for lt using q st by auto
  note rp = readptr_loc [OF this(1) st(4) this(2) ok, folded runs_def, THEN runs_step]
  have lk: "runs (or_dump (writew_lock Idx (int (loc_off (LTab i))) 1) m) ?s0 0 (?l F_WRLCK)"
    "runs (or_dump (readw_lock Idx (int (loc_off (LTab i))) 1) m) ?s0 0 (?l F_RDLCK)" for m
    using q by (simp_all add: setlk_or_dump runs_def)
  have co: "int (db_hash (nhash s) k * PTR_SZ) + hashoff s = int (loc_off (LTab i))"
    using st chainoff_tab [of i] h by simp
  note simps = co st(3) rp lk [THEN runs_step]
  show ?thesis
    using r unfolding db_find_and_lock_def
    by (cases wl) (simp_all del: of_nat_mult One_nat_def add_2_eq_Suc' split del: if_split
        add: simps runs_step [where m = "find_loop _ _ _"])
qed

lemma find_and_lock_none:
  assumes R: "db_rep s a fl cs" and h: "i = hash_of k" and none: "\<forall>y\<in>set (cs i). key_at (heap a) y \<noteq> k"
  shows "\<exists>t. db_find_and_lock k wl s = (Inr (-1), t) \<and> frame s t \<and> chainoff t = int (loc_off (LTab i)) \<and>
     locks t = lock_upd Idx (loc_off (LTab i)) 1 (Some (if wl then F_WRLCK else F_RDLCK)) (locks s)"
proof -
  have L: "lay (heap a) (a_free a) (a_tab a) (datfile s) fl cs" and wf: "wf_idx a"
    using R by (auto simp: db_rep_def)
  have c: "chain (nxt (heap a)) (a_tab a ! i) (cs i)" using lay_chain [OF L] hash_of_less h by simp
  let ?s1 = "set_lock Idx (loc_off (LTab i)) 1 (Some (if wl then F_WRLCK else F_RDLCK))
      (s\<lparr>chainoff := int (loc_off (LTab i)), ptroff := int (loc_off (LTab i)), idxpos := loc_off (LTab i) + PTR_SZ\<rparr>)"
  have "quiet ?s1" "idxfile ?s1 = enc_idx a" using R by (auto simp: db_rep_def set_lock_def)
  from find_loop_none [OF this(1) wf this(2) c chain_fuel [OF wf c] none]
  obtain t where t: "find_loop (length (enc_idx a) + 2) k (int (a_tab a ! i)) ?s1 = (Inr 0, t)"
    "frame ?s1 t" "locks t = locks ?s1" "chainoff t = chainoff ?s1" by blast
  have "db_find_and_lock k wl s = (Inr (-1), t)"
    using find_and_lock_prefix [OF R h t(1) [folded runs_def]] by (simp add: runs_def)
  moreover have "frame s t" using t(2) by (simp add: frame_def set_lock_def)
  ultimately show ?thesis using t(3,4) by (simp add: set_lock_def)
qed

lemma find_and_lock_some:
  assumes R: "db_rep s a fl cs" and h: "i = hash_of (e_key e)" and csi: "cs i = ys @ x # zs" and x: "heap a x = Some e"
  shows "\<exists>t. db_find_and_lock (e_key e) wl s = (Inr 0, t) \<and> frame s t \<and> chainoff t = int (loc_off (LTab i)) \<and>
     locks t = lock_upd Idx (loc_off (LTab i)) 1 (Some (if wl then F_WRLCK else F_RDLCK)) (locks s) \<and>
     loaded t x e \<and> ptroff t = int (loc_off (prev_loc (LTab i) ys))"
proof -
  have L: "lay (heap a) (a_free a) (a_tab a) (datfile s) fl cs" and wf: "wf_idx a"
    using R by (auto simp: db_rep_def)
  have il: "i < NHASH_DEF" using h hash_of_less by simp
  have c: "chain (nxt (heap a)) (a_tab a ! i) (ys @ x # zs)" using lay_chain [OF L il] csi by simp
  have "distinct (map (key_at (heap a)) (ys @ x # zs))" using lay_keys [OF L il] csi by simp
  note d = distinct_map_remove(2) [OF this]
  have n: "\<forall>y\<in>set ys. key_at (heap a) y \<noteq> e_key e" using d x by (auto simp: key_at_def)
  have fu: "length ys + 1 < length (enc_idx a) + 2" using chain_fuel [OF wf c] by simp
  let ?s1 = "set_lock Idx (loc_off (LTab i)) 1 (Some (if wl then F_WRLCK else F_RDLCK))
      (s\<lparr>chainoff := int (loc_off (LTab i)), ptroff := int (loc_off (LTab i)), idxpos := loc_off (LTab i) + PTR_SZ\<rparr>)"
  have "quiet ?s1" "idxfile ?s1 = enc_idx a" "ptroff ?s1 = int (loc_off (LTab i))"
    using R by (auto simp: db_rep_def set_lock_def)
  from find_loop_some [OF this(1) wf this(2) c fu n x this(3)]
  obtain t where t: "find_loop (length (enc_idx a) + 2) (e_key e) (int (a_tab a ! i)) ?s1 = (Inr (int x), t)"
    "frame ?s1 t" "locks t = locks ?s1" "chainoff t = chainoff ?s1" "loaded t x e"
    "ptroff t = int (loc_off (prev_loc (LTab i) ys))" by blast
  have "db_find_and_lock (e_key e) wl s = (Inr 0, t)"
    using find_and_lock_prefix [OF R h t(1) [folded runs_def]] heap_nonzero [OF x] by (simp add: runs_def)
  moreover have "frame s t" using t(2) by (simp add: frame_def set_lock_def)
  ultimately show ?thesis using t(3-6) by (simp add: set_lock_def)
qed

subsection \<open>Chain pointers of the abstract index\<close>

lemma chain_prev: "chain (nxt (heap a)) (aget a l) (ys @ x # zs) \<Longrightarrow> aget a (prev_loc l ys) = x"
proof (induction ys arbitrary: l)
  case (Cons y ys)
  then obtain f where f: "heap a y = Some f" "chain (nxt (heap a)) (e_next f) (ys @ x # zs)"
    by (auto simp: nxt_eq_Some)
  then show ?case unfolding prev_loc_Cons using Cons.IH [of "LEnt y"] by simp
qed (simp add: prev_loc_def)

lemma prev_ok: "loc_ok a l \<Longrightarrow> chain (nxt (heap a)) p (ys @ zs) \<Longrightarrow> loc_ok a (prev_loc l ys)"
  using chain_heap [of "heap a" p "ys @ zs" "last ys"] by (auto simp: prev_loc_def)

lemma chain_le_lim:
  "wf_idx a \<Longrightarrow> loc_ok a l \<Longrightarrow> chain (nxt (heap a)) (aget a l) (ys @ x # zs) \<Longrightarrow> x \<le> PTR_LIM"
  using chain_prev prev_ok aget_le by metis

lemma aset_prev:
  assumes "loc_ok a l" and "set ys \<subseteq> dom (heap a)" and nl: "l = LFree \<or> l = LTab i"
  shows "heap (aset a (prev_loc l ys) v) = fst (relink (heap a) (aget a l) ys v)"
    and "l = LFree \<Longrightarrow> a_free (aset a (prev_loc l ys) v) = snd (relink (heap a) (aget a l) ys v) \<and>
           a_tab (aset a (prev_loc l ys) v) = a_tab a"
    and "l = LTab i \<Longrightarrow> a_tab (aset a (prev_loc l ys) v) = (a_tab a)[i := snd (relink (heap a) (aget a l) ys v)] \<and>
           a_free (aset a (prev_loc l ys) v) = a_free a"
proof -
  have d: "ys \<noteq> [] \<Longrightarrow> \<exists>e. heap a (last ys) = Some e"
    using assms(2) last_in_set by blast
  show "l = LFree \<Longrightarrow> a_free (aset a (prev_loc l ys) v) = snd (relink (heap a) (aget a l) ys v) \<and>
           a_tab (aset a (prev_loc l ys) v) = a_tab a"
    by (auto simp: prev_loc_def relink_def)
  show "l = LTab i \<Longrightarrow> a_tab (aset a (prev_loc l ys) v) = (a_tab a)[i := snd (relink (heap a) (aget a l) ys v)] \<and>
           a_free (aset a (prev_loc l ys) v) = a_free a"
    by (auto simp: prev_loc_def relink_def)
  show "heap (aset a (prev_loc l ys) v) = fst (relink (heap a) (aget a l) ys v)"
    using d assms(1) nl heap_aset [OF assms(1), of v] heap_aset [of a "LEnt (last ys)" v]
    by (cases "ys = []") (auto simp: prev_loc_def relink_def)
qed

lemma relink_upd:
  "x \<notin> set ys \<Longrightarrow> relink (h(x \<mapsto> e)) p ys q = ((fst (relink h p ys q))(x \<mapsto> e), snd (relink h p ys q))"
  by (auto simp: relink_def fun_eq_iff)


subsection \<open>Deleting the loaded record\<close>

lemma cstr_drop: "cstr (drop (length (cstr b)) b) = []"
  by (induction b) (auto simp: cstr_def)

lemma cstr_blanked:
  "cstr (replicate (length (cstr b)) SPACE @ drop (length (cstr b)) b) = replicate (length (cstr b)) SPACE"
proof -
  have "nonul (replicate (length (cstr b)) SPACE)" by (simp add: nonul_def)
  then show ?thesis by (simp add: cstr_append cstr_drop)
qed

definition blank_ent :: "nat \<Rightarrow> ent \<Rightarrow> ent" where
  "blank_ent p e = \<lparr>e_next = p, e_key = replicate (length (e_key e)) SPACE, e_off = e_off e, e_len = e_len e\<rparr>"

lemma blank_ent_facts:
  assumes "wf_ent e" and "p \<le> PTR_LIM"
  shows "wf_ent (blank_ent p e)" and "ent_size (blank_ent p e) = ent_size e" and "blank (e_key (blank_ent p e))"
  using assms
  by (auto simp: wf_ent_def blank_ent_def ent_size_def ent_body_def2 blank_def SEP_def nonul_def list_all_iff)

lemma writedat_blank:
  assumes "wf_ent e" and "data_ok dat e"
  shows "e_off e \<le> length dat" and "length (replicate (e_len e - 1) SPACE) + 1 = e_len e"
    and "nonul (replicate (e_len e - 1) SPACE)"
  using assms by (auto simp: data_ok_def nonul_def)


lemma FREE_OFF_loc: "FREE_OFF = int (loc_off LFree)"
  by (simp add: FREE_OFF_def loc_off.simps)

text \<open>The index after the record was blanked, put at the head of the free list and taken off its chain.\<close>

definition freed :: "aidx \<Rightarrow> nat \<Rightarrow> ent \<Rightarrow> loc \<Rightarrow> aidx" where
  "freed a x e l = aset (aset (a_upd a x (blank_ent (a_free a) e)) LFree x) l (e_next e)"

lemma dodelete_run:
  assumes q: "quiet s" and wf: "wf_idx a" and f: "idxfile s = enc_idx a" and x: "heap a x = Some e" "x \<le> PTR_LIM"
    and dat: "data_ok (datfile s) e" and ld: "loaded s x e" and po: "ptroff s = int (loc_off l)" and ok: "loc_ok a l"
  shows "\<exists>t. runs db_dodelete s () t \<and> quiet t \<and> idxfile t = enc_idx (freed a x e l) \<and>
     datfile t = splice (datfile s) (e_off e) (replicate (e_len e - 1) SPACE @ [NEWLINE]) \<and>
     chainoff t = chainoff s \<and> nhash t = nhash s \<and> hashoff t = hashoff s \<and> db_errno t = db_errno s \<and>
     locks t = lock_upd Idx (loc_off LFree) 1 None (locks s)"
proof -
  define e' where "e' = blank_ent (a_free a) e"
  define d where "d = replicate (e_len e - 1) SPACE"
  have we: "wf_ent e" and ptrs: "a_free a \<le> PTR_LIM" "e_next e \<le> PTR_LIM"
    using heap_wf [OF wf x(1)] wf by (auto simp: wf_idx_def wf_ent_def)
  note e' = blank_ent_facts [OF we ptrs(1), folded e'_def]
  note dl = writedat_blank [OF we dat, folded d_def]
  define s1 where "s1 = set_lock Idx (loc_off LFree) 1 (Some F_WRLCK) (blank_bufs s)"
  have 1: "runs (or_dump (writew_lock Idx FREE_OFF 1) m) (blank_bufs s) 0 s1" for m
    using q by (simp add: runs_def s1_def FREE_OFF_loc setlk_or_dump blank_bufs_def)
  have f1: "quiet s1" "cstr (datbuf s1) = d" "datoff s1 = int (e_off e)" "datfile s1 = datfile s" "idxfile s1 = enc_idx a"
    using q f ld dl(3) by (simp_all add: s1_def blank_bufs_def loaded_def d_def)
  define s2 where "s2 = s1\<lparr>datoff := int (e_off e), datlen := length d + 1, datpos := e_off e + length d + 1,
     datfile := splice (datfile s1) (e_off e) (d @ [NEWLINE])\<rparr>"
  have 2: "runs (db_writedat d (int (e_off e)) SEEK_SET) s1 () s2"
    using writedat_over [OF f1(1), of "e_off e" d] dl(1) f1(4) by (simp add: runs_def s2_def)
  define s3 where "s3 = s2\<lparr>idxpos := loc_off LFree + PTR_SZ\<rparr>"
  have 3: "runs (db_readptr FREE_OFF) s2 (int (a_free a)) s3"
    using readptr_loc [of s2 a LFree] f1 wf by (simp add: runs_def s2_def s3_def FREE_OFF_loc)
  have f3: "ptrval s3 = int (e_next e)" "cstr (idxbuf s3) = e_key e'" "idxoff s3 = int x" "quiet s3" "idxfile s3 = enc_idx a"
     "datoff s3 = int (e_off e)" "datlen s3 = e_len e"
    using ld q f dl(2) cstr_blanked [of "idxbuf s"]
    by (simp_all add: s3_def s2_def s1_def blank_bufs_def loaded_def e'_def blank_ent_def)
  define s4 where "s4 = s3\<lparr>ptrval := int (a_free a), idxbuf := ent_body e' @ [NUL], idxpos := x + ent_size e', idxoff := int x,
     idxfile := enc_idx (a_upd a x e')\<rparr>"
  have 4: "runs (db_writeidx (e_key e') (int x) SEEK_SET (int (a_free a))) s3 () s4"
    using writeidx_over [OF f3(4) wf f3(5) x(1), of e' "a_free a" "e_key e'" "e_off e" "e_len e"] e' f3
    by (simp add: runs_def s4_def e'_def blank_ent_def)
  let ?a1 = "a_upd a x e'"
  have wf1: "wf_idx ?a1" and h1: "heap ?a1 = (heap a)(x \<mapsto> e')"
    using wf_a_upd [OF wf e'(1) x(1)] heap_a_upd [OF x(1) e'(2)] by auto
  let ?a2 = "aset ?a1 LFree x"
  define s5 where "s5 = s4\<lparr>idxfile := enc_idx ?a2, idxpos := loc_off LFree + PTR_SZ\<rparr>"
  have 5: "runs (db_writeptr FREE_OFF (int x)) s4 () s5"
    using writeptr_loc [of s4 ?a1 LFree x] f3 wf1 x(2) by (simp add: runs_def s5_def s4_def FREE_OFF_loc)
  have wf2: "wf_idx ?a2" and h2: "heap ?a2 = (heap a)(x \<mapsto> e')"
    using wf_aset [OF wf1, of LFree x] x(2) heap_aset [of ?a1 LFree x] h1 by auto
  have ok2: "loc_ok ?a2 l" using ok by (cases l) (simp_all add: h2 del: aset.simps)
  define s6 where "s6 = s5\<lparr>idxfile := enc_idx (freed a x e l), idxpos := loc_off l + PTR_SZ\<rparr>"
  have 6: "runs (db_writeptr (int (loc_off l)) (int (e_next e))) s5 () s6"
    using writeptr_loc [of s5 ?a2 l "e_next e"] f3 wf2 ok2 ptrs
    by (simp add: runs_def s6_def s5_def s4_def freed_def e'_def)
  have f6: "quiet s6" "ptroff s5 = int (loc_off l)" "idxoff s4 = int x"
    using f3 po by (simp_all add: s6_def s5_def s4_def s3_def s2_def s1_def blank_bufs_def)
  have 7: "runs (or_dump (un_lock Idx FREE_OFF 1) m) s6 0 (set_lock Idx (loc_off LFree) 1 None s6)" for m
    using f6(1) by (simp add: runs_def FREE_OFF_loc setlk_or_dump)
  have "runs db_dodelete s () (set_lock Idx (loc_off LFree) 1 None s6)"
    unfolding db_dodelete_def
    by (simp del: One_nat_def add: 1 [THEN runs_step] f1 2 [THEN runs_step] 3 [THEN runs_step] f3 4 [THEN runs_step]
        5 [THEN runs_step] f6 6 [THEN runs_step] 7 [THEN runs_step])
  moreover have "quiet s6" "idxfile s6 = enc_idx (freed a x e l)" "datfile s6 = splice (datfile s) (e_off e) (d @ [NEWLINE])"
    "chainoff s6 = chainoff s" "nhash s6 = nhash s" "hashoff s6 = hashoff s" "db_errno s6 = db_errno s"
    "locks s6 = lock_upd Idx (loc_off LFree) 1 (Some F_WRLCK) (locks s)"
    using f6(1) f1(4) by (simp_all add: s6_def s5_def s4_def s3_def s2_def s1_def blank_bufs_def)
  ultimately show ?thesis by (intro exI [of _ "set_lock Idx (loc_off LFree) 1 None s6"]) (simp add: d_def)
qed


lemma freed_abs:
  assumes wf: "wf_idx a" and L: "lay (heap a) (a_free a) (a_tab a) dat fl cs"
    and i: "i < NHASH_DEF" and csi: "cs i = ys @ x # zs" and x: "heap a x = Some e"
    and a': "a' = freed a x e (prev_loc (LTab i) ys)"
    and dat': "dat' = splice dat (e_off e) (replicate (e_len e - 1) SPACE @ [NEWLINE])"
  shows "wf_idx a'" and "lay (heap a') (a_free a') (a_tab a') dat' (x # fl) (cs(i := ys @ zs))"
    and "alookup (heap a') dat' (cs(i := ys @ zs)) = (alookup (heap a) dat cs)(e_key e := None)"
    and "dom (heap a') = dom (heap a)"
proof -
  let ?e = "blank_ent (a_free a) e" and ?l = "prev_loc (LTab i) ys"
  let ?a2 = "aset (a_upd a x ?e) LFree x"
  have we: "wf_ent e" and ptrs: "a_free a \<le> PTR_LIM" "e_next e \<le> PTR_LIM"
    using heap_wf [OF wf x] wf by (auto simp: wf_idx_def wf_ent_def)
  have c: "chain (nxt (heap a)) (a_tab a ! i) (ys @ x # zs)" using lay_chain [OF L i] csi by simp
  have il: "i < length (a_tab a)" using lay_len [OF L] i by simp
  note be = blank_ent_facts [OF we ptrs(1)]
  have x_lim: "x \<le> PTR_LIM" using chain_le_lim [OF wf, of "LTab i"] c i by simp
  have h2: "heap ?a2 = (heap a)(x \<mapsto> ?e)" "wf_idx ?a2" "a_tab ?a2 = a_tab a" "a_free ?a2 = x"
    using heap_a_upd [OF x be(2)] wf_a_upd [OF wf be(1) x] wf_aset [of "a_upd a x ?e" LFree x] x_lim
      heap_aset [of "a_upd a x ?e" LFree x] by auto
  have xy: "x \<notin> set ys" using chain_distinct [OF c] by simp
  have cy: "set ys \<subseteq> dom (heap ?a2)" using chain_heap [OF c] h2(1) by auto
  have "loc_ok ?a2 (LTab i)" using i by simp
  note ap = aset_prev [OF this cy, of i "e_next e"]
  obtain h1 p' where r: "relink (heap a) (a_tab a ! i) ys (e_next e) = (h1, p')" by fastforce
  have h': "heap a' = h1(x \<mapsto> ?e)" "a_tab a' = (a_tab a)[i := p']" "a_free a' = x"
    using h2 r relink_upd [OF xy, of "heap a" ?e "a_tab a ! i" "e_next e"] ap
    by (simp_all del: aset.simps add: a' freed_def)
  have "loc_ok ?a2 ?l" using prev_ok [of a "LTab i" _ ys "x # zs", OF _ c] i h2(1) by (auto simp: prev_loc_def)
  then show "wf_idx a'" unfolding a' freed_def using wf_aset [OF h2(2)] ptrs by blast
  have o: "data_ok dat' f \<and> ent_data dat' f = ent_data dat f \<and> apart f ?e" if "heap a y = Some f" "y \<noteq> x" for y f
    using splice_other [OF lay_data [OF L x] lay_data [OF L that(1)] lay_apart [OF L that(1) x that(2)],
        of "replicate (e_len e - 1) SPACE"] writedat_blank [OF we lay_data [OF L x]] lay_apart [OF L that(1) x that(2)]
    by (simp add: dat' apart_def blank_ent_def)
  have d: "data_ok dat' ?e"
    using splice_same [OF lay_data [OF L x], of "replicate (e_len e - 1) SPACE" ?e] writedat_blank [OF we lay_data [OF L x]]
    by (simp add: dat' blank_ent_def)
  show "lay (heap a') (a_free a') (a_tab a') dat' (x # fl) (cs(i := ys @ zs))"
    unfolding h' by (rule lay_free_record [OF L i csi x r _ be(3) d o]) (simp_all add: blank_ent_def)
  show "alookup (heap a') dat' (cs(i := ys @ zs)) = (alookup (heap a) dat cs)(e_key e := None)"
    unfolding h' using lay_free_record(2) [OF L i csi x r _ be(3) d o] x by (simp add: blank_ent_def key_at_def)
  show "dom (heap a') = dom (heap a)"
    unfolding h' using relink_heap(1) [OF c refl, of "e_next e"] r x by auto
qed


lemma length_aset:
  assumes "wf_idx a" and "loc_ok a l" and "v \<le> PTR_LIM"
  shows "length (enc_idx (aset a l v)) = length (enc_idx a)"
proof -
  from assms(1,2) obtain X Y where "enc_idx a = X @ enc_ptr (aget a l) @ Y"
    and "\<And>v. enc_idx (aset a l v) = X @ enc_ptr v @ Y" by (rule enc_idx_loc) blast
  then show ?thesis using assms(3) aget_le [OF assms(1,2)] by (simp add: length_enc_ptr)
qed

lemma length_a_upd:
  assumes "wf_idx a" and "heap a x = Some e" and "wf_ent e'" and "ent_size e' = ent_size e"
  shows "length (enc_idx (a_upd a x e')) = length (enc_idx a)"
proof -
  from assms(1,2) obtain X Y where "enc_idx a = X @ enc_ent e @ Y"
    and "\<And>e'. enc_idx (a_upd a x e') = X @ enc_ent e' @ Y" by (rule enc_idx_ent) blast
  then show ?thesis using assms(3,4) heap_wf [OF assms(1,2)] by (simp add: length_enc_ent)
qed

lemma length_freed:
  assumes wf: "wf_idx a" and x: "heap a x = Some e" "x \<le> PTR_LIM" and ok: "loc_ok a l"
  shows "length (enc_idx (freed a x e l)) = length (enc_idx a)"
proof -
  let ?e = "blank_ent (a_free a) e" and ?a1 = "a_upd a x (blank_ent (a_free a) e)"
  have we: "wf_ent e" and ptrs: "a_free a \<le> PTR_LIM" "e_next e \<le> PTR_LIM"
    using heap_wf [OF wf x(1)] wf by (auto simp: wf_idx_def wf_ent_def)
  note be = blank_ent_facts [OF we ptrs(1)]
  have 1: "wf_idx ?a1" using wf be(1) x(1) by (rule wf_a_upd)
  have 2: "wf_idx (aset ?a1 LFree x)" using wf_aset [OF 1 _ x(2), of LFree] by simp
  have h: "heap (aset ?a1 LFree x) = (heap a)(x \<mapsto> ?e)"
    using heap_aset [of ?a1 LFree x] heap_a_upd [OF x(1) be(2)] by simp
  have 3: "loc_ok (aset ?a1 LFree x) l" using ok by (cases l) (simp_all add: h del: aset.simps)
  show ?thesis
    unfolding freed_def length_aset [OF 2 3 ptrs(2)]
    using length_aset [OF 1 _ x(2), of LFree] length_a_upd [OF wf x(1) be(1,2)] by simp
qed

subsection \<open>Steps that keep the representation\<close>

lemma db_rep_simps [simp]:
  "db_rep (s\<lparr>idxpos := v_idxpos\<rparr>) a fl cs = db_rep s a fl cs"
  "db_rep (s\<lparr>datpos := v_datpos\<rparr>) a fl cs = db_rep s a fl cs"
  "db_rep (s\<lparr>db_errno := v_db_errno\<rparr>) a fl cs = db_rep s a fl cs"
  "db_rep (s\<lparr>idxbuf := v_idxbuf\<rparr>) a fl cs = db_rep s a fl cs"
  "db_rep (s\<lparr>datbuf := v_datbuf\<rparr>) a fl cs = db_rep s a fl cs"
  "db_rep (s\<lparr>idxoff := v_idxoff\<rparr>) a fl cs = db_rep s a fl cs"
  "db_rep (s\<lparr>idxlen := v_idxlen\<rparr>) a fl cs = db_rep s a fl cs"
  "db_rep (s\<lparr>datoff := v_datoff\<rparr>) a fl cs = db_rep s a fl cs"
  "db_rep (s\<lparr>datlen := v_datlen\<rparr>) a fl cs = db_rep s a fl cs"
  "db_rep (s\<lparr>ptrval := v_ptrval\<rparr>) a fl cs = db_rep s a fl cs"
  "db_rep (s\<lparr>ptroff := v_ptroff\<rparr>) a fl cs = db_rep s a fl cs"
  "db_rep (s\<lparr>chainoff := v_chainoff\<rparr>) a fl cs = db_rep s a fl cs"
  "db_rep (s\<lparr>cnt_delok := v_cnt_delok\<rparr>) a fl cs = db_rep s a fl cs"
  "db_rep (s\<lparr>cnt_delerr := v_cnt_delerr\<rparr>) a fl cs = db_rep s a fl cs"
  "db_rep (s\<lparr>cnt_fetchok := v_cnt_fetchok\<rparr>) a fl cs = db_rep s a fl cs"
  "db_rep (s\<lparr>cnt_fetcherr := v_cnt_fetcherr\<rparr>) a fl cs = db_rep s a fl cs"
  "db_rep (s\<lparr>cnt_nextrec := v_cnt_nextrec\<rparr>) a fl cs = db_rep s a fl cs"
  "db_rep (s\<lparr>cnt_stor1 := v_cnt_stor1\<rparr>) a fl cs = db_rep s a fl cs"
  "db_rep (s\<lparr>cnt_stor2 := v_cnt_stor2\<rparr>) a fl cs = db_rep s a fl cs"
  "db_rep (s\<lparr>cnt_stor3 := v_cnt_stor3\<rparr>) a fl cs = db_rep s a fl cs"
  "db_rep (s\<lparr>cnt_stor4 := v_cnt_stor4\<rparr>) a fl cs = db_rep s a fl cs"
  "db_rep (s\<lparr>cnt_storerr := v_cnt_storerr\<rparr>) a fl cs = db_rep s a fl cs"
  "db_rep (set_lock f off len lt s) a fl cs = db_rep s a fl cs"
  by (simp_all add: db_rep_def quiet_def)

lemma dodelete_rep:
  assumes R: "db_rep s a fl cs" and i: "i < NHASH_DEF" and csi: "cs i = ys @ x # zs" and x: "heap a x = Some e"
    and ld: "loaded s x e" and po: "ptroff s = int (loc_off (prev_loc (LTab i) ys))"
  shows "\<exists>t a'. runs db_dodelete s () t \<and> db_rep t a' (x # fl) (cs(i := ys @ zs)) \<and>
    alookup (heap a') (datfile t) (cs(i := ys @ zs)) = (alookup (heap a) (datfile s) cs)(e_key e := None) \<and>
    chainoff t = chainoff s \<and> db_errno t = db_errno s \<and> locks t = lock_upd Idx (loc_off LFree) 1 None (locks s) \<and>
    length (idxfile t) = length (idxfile s) \<and> length (datfile t) = length (datfile s)"
proof -
  have L: "lay (heap a) (a_free a) (a_tab a) (datfile s) fl cs" and wf: "wf_idx a"
    and q: "quiet s" and f: "idxfile s = enc_idx a"
    using R by (auto simp: db_rep_def)
  have c: "chain (nxt (heap a)) (a_tab a ! i) (ys @ x # zs)" using lay_chain [OF L i] csi by simp
  have xl: "x \<le> PTR_LIM" using chain_le_lim [OF wf, of "LTab i"] c i by simp
  have ok: "loc_ok a (prev_loc (LTab i) ys)" using prev_ok [of a "LTab i", OF _ c] i by simp
  note dat = lay_data [OF L x]
  from dodelete_run [OF q wf f x xl dat ld po ok] obtain t where
    t: "runs db_dodelete s () t" "quiet t" "idxfile t = enc_idx (freed a x e (prev_loc (LTab i) ys))"
    "datfile t = splice (datfile s) (e_off e) (replicate (e_len e - 1) SPACE @ [NEWLINE])"
    "chainoff t = chainoff s" "nhash t = nhash s" "hashoff t = hashoff s" "db_errno t = db_errno s"
    "locks t = lock_upd Idx (loc_off LFree) 1 None (locks s)" by blast
  note fa = freed_abs [OF wf L i csi x refl t(4)]
  have "length (datfile t) = length (datfile s)"
    unfolding t(4) by (rule length_splice) (use dat in \<open>simp add: data_ok_def\<close>)
  moreover have "db_rep t (freed a x e (prev_loc (LTab i) ys)) (x # fl) (cs(i := ys @ zs))"
    using t R fa by (simp add: db_rep_def)
  ultimately show ?thesis
    using t(1,5,8,9) fa(3) length_freed [OF wf x xl ok] f t(3)
    by (intro exI [of _ t] exI [of _ "freed a x e (prev_loc (LTab i) ys)"] conjI) (simp_all add: t(4))
qed

lemma unlock_chain_step:
  assumes "quiet s" and "0 \<le> chainoff s"
  shows "runs (bnd (unlock_chain m) f) s y t = runs (f ()) (set_lock Idx (nat (chainoff s)) 1 None s) y t"
proof -
  have "runs (or_dump (un_lock Idx (chainoff s) 1) msg) s 0 (set_lock Idx (nat (chainoff s)) 1 None s)" for msg
    using setlk_or_dump(3) [OF assms(1), of Idx "nat (chainoff s)"] assms(2) by (simp add: runs_def)
  from this [THEN runs_step] show ?thesis
    unfolding unlock_chain_def by (simp del: One_nat_def add: bnd_def [of "ret ()"] ret_run)
qed

subsection \<open>Fetch and delete\<close>

lemma alookup_cases:
  assumes L: "lay h fp tb dat fl cs"
  obtains (none) "\<forall>y\<in>set (cs (hash_of k)). key_at h y \<noteq> k" "alookup h dat cs k = None"
  | (some) ys x zs e where "cs (hash_of k) = ys @ x # zs" "h x = Some e" "e_key e = k"
      "alookup h dat cs k = Some (ent_data dat e)"
proof (cases "find (\<lambda>x. key_at h x = k) (cs (hash_of k))")
  case None
  then show thesis using none by (simp add: find_split_None alookup_none)
next
  case (Some x)
  from find_split_Some [OF this] obtain ys zs where c: "cs (hash_of k) = ys @ x # zs" "key_at h x = k" by blast
  moreover obtain e where "h x = Some e" using chain_heap [OF lay_chain [OF L hash_of_less [of k]], of x] c by auto
  ultimately show thesis using some Some by (simp add: alookup_def key_at_def)
qed

lemma readdat_run:
  assumes "db_rep s a fl cs" and "heap a x = Some e" and "loaded s x e"
  shows "runs db_readdat s (ent_data (datfile s) e)
    (s\<lparr>datpos := e_off e + length (ent_data (datfile s) e) + 1, datbuf := ent_data (datfile s) e @ [NUL]\<rparr>)"
proof -
  have d: "data_ok (datfile s) e" using assms(1,2) lay_data by (auto simp: db_rep_def)
  then have "segment (e_off e) (e_len e) (datfile s) = ent_data (datfile s) e @ [NEWLINE]"
    and l: "e_off e + e_len e \<le> length (datfile s)" "0 < e_len e" "nonul (ent_data (datfile s) e)"
    by (auto simp: data_ok_def)
  moreover have "length (ent_data (datfile s) e) + 1 = e_len e"
    using l by (simp add: ent_data_def length_segment)
  ultimately show ?thesis
    using assms unfolding runs_def by (intro readdat_at) (auto simp: db_rep_def loaded_def)
qed

lemma representsI: "db_rep s a fl cs \<Longrightarrow> locks s = no_locks \<Longrightarrow> m = alookup (heap a) (datfile s) cs \<Longrightarrow> represents s m"
  by (auto simp: represents_def)

lemma representsE:
  assumes "represents s m"
  obtains a fl cs where "db_rep s a fl cs" and "locks s = no_locks" and "m = alookup (heap a) (datfile s) cs"
    and "lay (heap a) (a_free a) (a_tab a) (datfile s) fl cs" and "quiet s"
  using assms by (auto simp: represents_def db_rep_def)

lemma fetch_rep:
  assumes "represents s m"
  shows "\<exists>t. runs (db_fetch k) s (m k) t \<and> represents t m \<and> idxfile t = idxfile s \<and> datfile t = datfile s"
proof -
  from assms obtain a fl cs where R: "db_rep s a fl cs" and lk: "locks s = no_locks"
    and m: "m = alookup (heap a) (datfile s) cs" and L: "lay (heap a) (a_free a) (a_tab a) (datfile s) fl cs"
    by (rule representsE)
  let ?n = "loc_off (LTab (hash_of k))"
  from L show ?thesis
  proof (cases rule: alookup_cases [where k = k])
    case none
    from find_and_lock_none [OF R refl none(1), of False] obtain t where
      t: "runs (db_find_and_lock k False) s (-1) t" "frame s t" "chainoff t = int ?n"
      "locks t = lock_upd Idx ?n 1 (Some F_RDLCK) (locks s)" by (auto simp: runs_def)
    let ?t1 = "t\<lparr>cnt_fetcherr := cnt_fetcherr t + 1\<rparr>" let ?t2 = "set_lock Idx ?n 1 None ?t1"
    have Rt: "db_rep ?t2 a fl cs" using frame_rep [OF t(2) R] by simp
    have q: "quiet t" using Rt by (simp add: db_rep_def)
    have "runs (db_fetch k) s None ?t2"
      unfolding db_fetch_def by (simp del: One_nat_def add: t(1) [THEN runs_step] unlock_chain_step q t(3))
    moreover have "represents ?t2 m" using Rt t m lk by (intro representsI) (auto simp: frame_def)
    ultimately show ?thesis using none(2) m t(2) by (auto simp: frame_def)
  next
    case (some ys x zs e)
    from find_and_lock_some [OF R _ some(1,2), of False] some(3) obtain t where
      t: "runs (db_find_and_lock k False) s 0 t" "frame s t" "chainoff t = int ?n"
      "locks t = lock_upd Idx ?n 1 (Some F_RDLCK) (locks s)" "loaded t x e" by (auto simp: runs_def)
    have Rt: "db_rep t a fl cs" using t(2) R by (rule frame_rep)
    have dt: "datfile t = datfile s" using t(2) by (simp add: frame_def)
    note rd = readdat_run [OF Rt some(2) t(5)]
    let ?t0 = "t\<lparr>datpos := e_off e + length (ent_data (datfile t) e) + 1, datbuf := ent_data (datfile t) e @ [NUL]\<rparr>"
    let ?t1 = "?t0\<lparr>cnt_fetchok := cnt_fetchok ?t0 + 1\<rparr>" let ?t2 = "set_lock Idx ?n 1 None ?t1"
    have R2: "db_rep ?t2 a fl cs" using Rt by simp
    have q: "quiet t" using Rt by (simp add: db_rep_def)
    have "runs (db_fetch k) s (Some (ent_data (datfile t) e)) ?t2"
      unfolding db_fetch_def
      by (simp del: One_nat_def add: t(1) [THEN runs_step] rd [THEN runs_step] unlock_chain_step q t(3))
    moreover have "represents ?t2 m" using R2 t m lk dt by (intro representsI) (auto simp: frame_def)
    ultimately show ?thesis using some(4) m t(2) dt by (auto simp: frame_def)
  qed
qed


lemma rep_quiet: "db_rep s a fl cs \<Longrightarrow> quiet s"
  by (simp add: db_rep_def)

lemma delete_rep:
  assumes "represents s m"
  shows "\<exists>t. runs (db_delete k) s (if m k = None then -1 else 0) t \<and> represents t (m(k := None)) \<and>
    length (idxfile t) = length (idxfile s) \<and> length (datfile t) = length (datfile s)"
proof -
  from assms obtain a fl cs where R: "db_rep s a fl cs" and lk: "locks s = no_locks"
    and m: "m = alookup (heap a) (datfile s) cs" and L: "lay (heap a) (a_free a) (a_tab a) (datfile s) fl cs"
    by (rule representsE)
  let ?n = "loc_off (LTab (hash_of k))"
  from L show ?thesis
  proof (cases rule: alookup_cases [where k = k])
    case none
    from find_and_lock_none [OF R refl none(1), of True] obtain t where
      t: "runs (db_find_and_lock k True) s (-1) t" "frame s t" "chainoff t = int ?n"
      "locks t = lock_upd Idx ?n 1 (Some F_WRLCK) (locks s)" by (auto simp: runs_def)
    let ?t2 = "set_lock Idx ?n 1 None (t\<lparr>cnt_delerr := cnt_delerr t + 1\<rparr>)"
    have R2: "db_rep ?t2 a fl cs" using frame_rep [OF t(2) R] by simp
    then have "quiet t" using rep_quiet by fastforce
    then have "runs (db_delete k) s (-1) ?t2"
      unfolding db_delete_def by (simp del: One_nat_def add: t(1) [THEN runs_step] unlock_chain_step t(3))
    moreover have "represents ?t2 (m(k := None))"
      using R2 t m lk none(2) fun_upd_triv [of m k] by (intro representsI) (simp_all add: frame_def)
    ultimately show ?thesis using none(2) m t(2) by (auto simp: frame_def)
  next
    case (some ys x zs e)
    from find_and_lock_some [OF R _ some(1,2), of True] some(3) obtain t where
      t: "runs (db_find_and_lock k True) s 0 t" "frame s t" "chainoff t = int ?n"
      "locks t = lock_upd Idx ?n 1 (Some F_WRLCK) (locks s)" "loaded t x e"
      "ptroff t = int (loc_off (prev_loc (LTab (hash_of k)) ys))" by (auto simp: runs_def)
    from dodelete_rep [OF frame_rep [OF t(2) R] hash_of_less some(1,2) t(5,6)] obtain u a' where
      u: "runs db_dodelete t () u" "db_rep u a' (x # fl) (cs(hash_of k := ys @ zs))"
      "alookup (heap a') (datfile u) (cs(hash_of k := ys @ zs)) = (alookup (heap a) (datfile t) cs)(e_key e := None)"
      "chainoff u = chainoff t" "locks u = lock_upd Idx (loc_off LFree) 1 None (locks t)"
      "length (idxfile u) = length (idxfile t)" "length (datfile u) = length (datfile t)" by blast
    have fr: "datfile t = datfile s" "idxfile t = idxfile s" using t(2) by (simp_all add: frame_def)
    let ?t2 = "set_lock Idx ?n 1 None (u\<lparr>cnt_delok := cnt_delok u + 1\<rparr>)"
    have "runs (db_delete k) s 0 ?t2"
      unfolding db_delete_def
      by (simp del: One_nat_def add: t(1) [THEN runs_step] u(1) [THEN runs_step] unlock_chain_step t(3) u(4) rep_quiet [OF u(2)])
    moreover have "represents ?t2 (m(k := None))"
    proof (rule representsI)
      show "db_rep ?t2 a' (x # fl) (cs(hash_of k := ys @ zs))" using u(2) by simp
      show "locks ?t2 = no_locks" using u(5) t(4) lk by simp
      show "m(k := None) = alookup (heap a') (datfile ?t2) (cs(hash_of k := ys @ zs))"
        using u(3) some(3) m fr by simp
    qed
    ultimately show ?thesis using some(4) m u(6,7) fr by auto
  qed
qed

end
