(* ===== verification/DbStore.thy ===== *)
theory DbStore
  imports DbCorrect
begin

section \<open>The database library: storing\<close>

text \<open>
  The effect of \<open>db_store\<close> on the represented map: the free-list search of
  \<open>_db_findfree\<close>, the two ways of adding a record (appending, and reusing a deleted record
  of the same key and data length), overwriting in place, and the four paths of
  \<open>db_store\<close> itself.
\<close>

declare free_loop.simps [simp del]

subsection \<open>Searching the free list\<close>

definition hit :: "nat \<Rightarrow> nat \<Rightarrow> ent \<Rightarrow> bool" where
  "hit klen dlen e \<longleftrightarrow> length (e_key e) = klen \<and> e_len e = dlen"

lemma free_loop_none:
  assumes "quiet s" "wf_idx a" "idxfile s = enc_idx a" "chain (nxt (heap a)) p xs" "length xs < n"
    and "\<forall>y\<in>set xs. \<not> hit klen dlen (the (heap a y))"
  shows "\<exists>t so. runs (free_loop n klen dlen sv (int p)) s (so, 0) t \<and> frame s t \<and> locks t = locks s \<and>
    chainoff t = chainoff s \<and> db_errno t = db_errno s"
  using assms
proof (induction xs arbitrary: p n s sv)
  case Nil
  then show ?case by (cases n) (auto simp: free_loop.simps)
next
  case (Cons x xs)
  then obtain m e where n: "n = Suc m" and p: "p = x" "x \<noteq> 0" and e: "heap a x = Some e"
    and c: "chain (nxt (heap a)) (e_next e) xs"
    by (cases n) (auto simp: nxt_eq_Some)
  let ?s1 = "idx_loaded x e s"
  have we: "wf_ent e" using Cons.prems(2) e by (rule heap_wf)
  have r: "runs (db_readidx (int x)) s (int (e_next e)) ?s1"
    unfolding runs_def using Cons.prems(1-3) e by (rule readidx_ent) simp
  have k: "\<not> (length (cstr (idxbuf ?s1)) = klen \<and> datlen ?s1 = dlen)"
    using Cons.prems(6) e loaded_idx_loaded [OF we, of x s] by (auto simp: loaded_def hit_def)
  have fr: "frame s ?s1" "locks ?s1 = locks s" "chainoff ?s1 = chainoff s" "db_errno ?s1 = db_errno s"
    by (simp_all add: frame_def idx_loaded_def)
  obtain t so where t: "runs (free_loop m klen dlen (int x) (int (e_next e))) ?s1 (so, 0) t" "frame ?s1 t"
    "locks t = locks ?s1" "chainoff t = chainoff ?s1" "db_errno t = db_errno ?s1"
    using Cons.IH [where s = ?s1 and p = "e_next e" and n = m and sv = "int x"] Cons.prems c n fr(1)
    by (auto simp: frame_def quiet_def)
  have "runs (free_loop n klen dlen sv (int p)) s (so, 0) t"
    using p k t(1) by (simp add: n free_loop.simps runs_step [OF r])
  then show ?case using t(3-) fr frame_trans [OF fr(1) t(2)] by (intro exI [of _ t] exI [of _ so]) simp
qed

lemma free_loop_hit:
  assumes "quiet s" "wf_idx a" "idxfile s = enc_idx a" "chain (nxt (heap a)) p (ys @ x # zs)" "length ys + 1 < n"
    and "\<forall>y\<in>set ys. \<not> hit klen dlen (the (heap a y))" and "heap a x = Some e" and "hit klen dlen e"
  shows "\<exists>t. runs (free_loop n klen dlen (int (loc_off l)) (int p)) s (int (loc_off (prev_loc l ys)), int x) t \<and>
    frame s t \<and> locks t = locks s \<and> chainoff t = chainoff s \<and> db_errno t = db_errno s \<and> loaded t x e"
  using assms
proof (induction ys arbitrary: p n s l)
  case Nil
  then obtain m where n: "n = Suc m" by (cases n) auto
  have we: "wf_ent e" using Nil.prems(2,7) by (rule heap_wf)
  have r: "runs (db_readidx (int x)) s (int (e_next e)) (idx_loaded x e s)"
    unfolding runs_def using Nil.prems(1-3,7) by (rule readidx_ent) simp
  have "runs (free_loop n klen dlen (int (loc_off l)) (int p)) s (int (loc_off l), int x) (idx_loaded x e s)"
    using Nil.prems(4,8) loaded_idx_loaded [OF we, of x s]
    by (simp add: n free_loop.simps runs_step [OF r] loaded_def hit_def)
  then show ?case
    using loaded_idx_loaded [OF we, of x s]
    by (intro exI [of _ "idx_loaded x e s"]) (simp add: prev_loc_def frame_def idx_loaded_def)
next
  case (Cons y ys)
  then obtain m f where n: "n = Suc m" and p: "p = y" "y \<noteq> 0" and f: "heap a y = Some f"
    and c: "chain (nxt (heap a)) (e_next f) (ys @ x # zs)"
    by (cases n) (auto simp: nxt_eq_Some)
  let ?s1 = "idx_loaded y f s"
  have wf: "wf_ent f" using Cons.prems(2) f by (rule heap_wf)
  have r: "runs (db_readidx (int y)) s (int (e_next f)) ?s1"
    unfolding runs_def using Cons.prems(1-3) f by (rule readidx_ent) simp
  have k: "\<not> (length (cstr (idxbuf ?s1)) = klen \<and> datlen ?s1 = dlen)"
    using Cons.prems(6) f loaded_idx_loaded [OF wf, of y s] by (auto simp: loaded_def hit_def)
  have fr: "frame s ?s1" "locks ?s1 = locks s" "chainoff ?s1 = chainoff s" "db_errno ?s1 = db_errno s"
    by (simp_all add: frame_def idx_loaded_def)
  obtain t where t: "runs (free_loop m klen dlen (int (loc_off (LEnt y))) (int (e_next f))) ?s1
      (int (loc_off (prev_loc (LEnt y) ys)), int x) t" "frame ?s1 t"
    "locks t = locks ?s1" "chainoff t = chainoff ?s1" "db_errno t = db_errno ?s1" "loaded t x e"
    using Cons.IH [where s = ?s1 and p = "e_next f" and n = m and l = "LEnt y"] Cons.prems c n fr(1)
    by (auto simp: frame_def quiet_def)
  have "runs (free_loop n klen dlen (int (loc_off l)) (int p)) s (int (loc_off (prev_loc (LEnt y) ys)), int x) t"
    using p k t(1) by (auto simp: n free_loop.simps runs_step [OF r] loc_off.simps)
  then show ?case
    unfolding prev_loc_Cons using t(3-) fr frame_trans [OF fr(1) t(2)] by (intro exI [of _ t]) simp
qed


lemma unlink_free_rep:
  assumes R: "db_rep s a fl cs" and fl: "fl = ys @ x # zs" and x: "heap a x = Some e"
    and a': "a' = aset a (prev_loc LFree ys) (e_next e)"
  shows "db_rep (s\<lparr>idxfile := enc_idx a'\<rparr>) a' (ys @ zs) cs" and "alookup (heap a') (datfile s) cs = alookup (heap a) (datfile s) cs"
    and "heap a' x = Some e" and "a_tab a' = a_tab a" and "loc_ok a (prev_loc LFree ys)"
    and "length (enc_idx a') = length (enc_idx a)" and "e_next e \<le> PTR_LIM"
    and "\<And>j y. j < NHASH_DEF \<Longrightarrow> y \<in> set (cs j) \<Longrightarrow> key_at (heap a') y = key_at (heap a) y"
proof -
  have L: "lay (heap a) (a_free a) (a_tab a) (datfile s) fl cs" and wf: "wf_idx a"
    using R by (auto simp: db_rep_def)
  have c: "chain (nxt (heap a)) (a_free a) (ys @ x # zs)" using lay_free [OF L] fl by simp
  show ok: "loc_ok a (prev_loc LFree ys)" using prev_ok [of a LFree, OF _ c] by simp
  show en: "e_next e \<le> PTR_LIM" using heap_wf [OF wf x] by (simp add: wf_ent_def)
  have sub: "set ys \<subseteq> dom (heap a)" using chain_heap [OF c] by auto
  have "loc_ok a LFree" by simp
  note ap = aset_prev [OF this sub, of _ "e_next e", simplified, folded a']
  obtain h' fp' where r: "relink (heap a) (a_free a) ys (e_next e) = (h', fp')" by fastforce
  have h: "heap a' = h'" "a_free a' = fp'" "a_tab a' = a_tab a" using ap r by auto
  show "a_tab a' = a_tab a" by (rule h)
  show len: "length (enc_idx a') = length (enc_idx a)" unfolding a' using wf ok en by (rule length_aset)
  have "wf_idx a'" unfolding a' using wf ok en by (rule wf_aset)
  then show "db_rep (s\<lparr>idxfile := enc_idx a'\<rparr>) a' (ys @ zs) cs"
    using R lay_unlink_free(1) [OF L fl x r] h by (simp add: db_rep_def quiet_def)
  show "alookup (heap a') (datfile s) cs = alookup (heap a) (datfile s) cs"
    using lay_unlink_free(2) [OF L fl x r] h by simp
  have "x \<notin> set ys" using chain_distinct [OF c] by simp
  then show "heap a' x = Some e" using r x unfolding h by (auto simp: relink_def split: if_splits)
  show "key_at (heap a') y = key_at (heap a) y" if j: "j < NHASH_DEF" and y: "y \<in> set (cs j)" for j y
  proof -
    obtain f where f: "heap a y = Some f" using chain_heap [OF lay_chain [OF L j] y] by blast
    obtain m where "heap a' y = Some (f\<lparr>e_next := m\<rparr>)"
      using relink_heap(2) [OF c refl f, of "e_next e"] h r by auto
    then show ?thesis using f by (simp add: key_at_def)
  qed
qed

lemma writeptr_rep:
  assumes "db_rep s a fl cs" and "loc_ok a l" and "v \<le> PTR_LIM"
  shows "runs (db_writeptr (int (loc_off l)) (int v)) s () (s\<lparr>idxfile := enc_idx (aset a l v), idxpos := loc_off l + PTR_SZ\<rparr>)"
  unfolding runs_def using assms by (intro writeptr_loc) (auto simp: db_rep_def)

lemma readptr_rep:
  assumes "db_rep s a fl cs" and "loc_ok a l"
  shows "runs (db_readptr (int (loc_off l))) s (int (aget a l)) (s\<lparr>idxpos := loc_off l + PTR_SZ\<rparr>)"
  unfolding runs_def using assms by (intro readptr_loc) (auto simp: db_rep_def)

definition reusable :: "db \<Rightarrow> db \<Rightarrow> aidx \<Rightarrow> aidx \<Rightarrow> (nat \<Rightarrow> nat list) \<Rightarrow> nat list \<Rightarrow> nat \<Rightarrow> ent \<Rightarrow> bool" where
  "reusable s t a a' cs fl' x e \<longleftrightarrow> db_rep t a' fl' cs \<and> loaded t x e \<and> heap a' x = Some e \<and> x \<le> PTR_LIM \<and>
     x \<notin> set fl' \<and> (\<forall>j<NHASH_DEF. x \<notin> set (cs j)) \<and> a_tab a' = a_tab a \<and> datfile t = datfile s \<and>
     length (idxfile t) = length (idxfile s) \<and> alookup (heap a') (datfile s) cs = alookup (heap a) (datfile s) cs \<and>
     (\<forall>j<NHASH_DEF. \<forall>y\<in>set (cs j). key_at (heap a') y = key_at (heap a) y)"

lemma findfree_rep:
  assumes R: "db_rep s a fl cs"
  obtains (none) t where "runs (db_findfree klen dlen) s (-1) t" "frame s t" "chainoff t = chainoff s"
      "db_errno t = db_errno s" "locks t = lock_upd Idx (loc_off LFree) 1 None (locks s)"
  | (some) t a' fl' x e where "runs (db_findfree klen dlen) s 0 t" "reusable s t a a' cs fl' x e" "hit klen dlen e"
      "chainoff t = chainoff s" "db_errno t = db_errno s" "locks t = lock_upd Idx (loc_off LFree) 1 None (locks s)"
proof -
  have L: "lay (heap a) (a_free a) (a_tab a) (datfile s) fl cs" and wf: "wf_idx a"
    using R by (auto simp: db_rep_def)
  have c: "chain (nxt (heap a)) (a_free a) fl" using lay_free [OF L] .
  define s1 where "s1 = set_lock Idx (loc_off LFree) 1 (Some F_WRLCK) s"
  have 1: "runs (or_dump (writew_lock Idx FREE_OFF 1) m) s 0 s1" for m
    using rep_quiet [OF R] by (simp add: runs_def s1_def FREE_OFF_loc setlk_or_dump)
  have R1: "db_rep s1 a fl cs" using R by (simp add: s1_def)
  note 2 = readptr_rep [OF R1, of LFree, simplified]
  define s2 where "s2 = s1\<lparr>idxpos := loc_off LFree + PTR_SZ\<rparr>"
  have f2: "quiet s2" "idxfile s2 = enc_idx a" using R1 by (auto simp: s2_def db_rep_def)
  have fr2: "frame s s2" "chainoff s2 = chainoff s" "db_errno s2 = db_errno s"
    "locks s2 = lock_upd Idx (loc_off LFree) 1 (Some F_WRLCK) (locks s)" by (simp_all add: frame_def s2_def s1_def)
  have un: "runs (or_dump (un_lock Idx FREE_OFF 1) m) u 0 (set_lock Idx (loc_off LFree) 1 None u)" if "quiet u" for m u
    using that by (simp add: runs_def FREE_OFF_loc setlk_or_dump)
  let ?fuel = "length (enc_idx a) + 2"
  note fu = chain_fuel [OF wf c]
  show thesis
  proof (cases "find (\<lambda>y. hit klen dlen (the (heap a y))) fl")
    case None
    then have nh: "\<forall>y\<in>set fl. \<not> hit klen dlen (the (heap a y))" by (simp add: find_split_None)
    from free_loop_none [OF f2(1) wf f2(2) c fu nh, where sv = FREE_OFF] obtain t so where
      t: "runs (free_loop ?fuel klen dlen FREE_OFF (int (a_free a))) s2 (so, 0) t" "frame s2 t"
      "locks t = locks s2" "chainoff t = chainoff s2" "db_errno t = db_errno s2" by blast
    have "runs (db_findfree klen dlen) s (-1) (set_lock Idx (loc_off LFree) 1 None t)"
      unfolding db_findfree_def
      using f2(2) frame_quiet [OF t(2) f2(1)]
      by (simp del: One_nat_def add_2_eq_Suc' add: 1 [THEN runs_step] 2 [folded FREE_OFF_loc, THEN runs_step] s2_def [symmetric]
          t(1) [THEN runs_step] un [THEN runs_step])
    then show thesis using none t fr2 by (simp add: frame_def)
  next
    case (Some x)
    from find_split_Some [OF this] obtain ys zs where fl: "fl = ys @ x # zs"
      and hx: "hit klen dlen (the (heap a x))" "\<forall>y\<in>set ys. \<not> hit klen dlen (the (heap a y))" by blast
    obtain e where e: "heap a x = Some e" using chain_heap [OF c] fl by auto
    have fu': "length ys + 1 < ?fuel" using fu fl by simp
    from free_loop_hit [OF f2(1) wf f2(2) c [unfolded fl] fu' hx(2) e, where l = LFree] hx(1) e obtain t where
      t: "runs (free_loop ?fuel klen dlen FREE_OFF (int (a_free a))) s2 (int (loc_off (prev_loc LFree ys)), int x) t"
      "frame s2 t" "locks t = locks s2" "chainoff t = chainoff s2" "db_errno t = db_errno s2" "loaded t x e"
      by (auto simp: FREE_OFF_loc)
    define a' where "a' = aset a (prev_loc LFree ys) (e_next e)"
    have Rt: "db_rep t a fl cs" using t(2) fr2(1) R frame_rep by blast
    note uf = unlink_free_rep [OF Rt fl e a'_def]
    note w = writeptr_rep [OF Rt uf(5,7), folded a'_def]
    define t2 where "t2 = t\<lparr>idxfile := enc_idx a', idxpos := loc_off (prev_loc LFree ys) + PTR_SZ\<rparr>"
    have R2: "db_rep t2 a' (ys @ zs) cs" using uf(1) by (simp add: t2_def)
    have "x \<noteq> 0" using heap_nonzero [OF e] .
    have "runs (db_findfree klen dlen) s 0 (set_lock Idx (loc_off LFree) 1 None t2)"
      unfolding db_findfree_def
      using f2(2) rep_quiet [OF R2] t(6) \<open>x \<noteq> 0\<close>
      by (simp del: One_nat_def add_2_eq_Suc' add: 1 [THEN runs_step] 2 [folded FREE_OFF_loc, THEN runs_step] s2_def [symmetric]
          t(1) [THEN runs_step] un [THEN runs_step] w [THEN runs_step] loaded_def t2_def [symmetric])
    moreover have "reusable s (set_lock Idx (loc_off LFree) 1 None t2) a a' cs (ys @ zs) x e"
    proof -
      have xc: "x \<notin> set (cs j)" if "j < NHASH_DEF" for j using lay_disj [OF L that] fl by auto
      have "x \<notin> set (ys @ zs)" using chain_distinct [OF c] fl by auto
      moreover have "x \<le> PTR_LIM" using chain_le_lim [OF wf, of LFree ys x zs] c fl by simp
      moreover have "loaded t2 x e" using t(6) by (simp add: t2_def loaded_def)
      moreover have "datfile t2 = datfile s" "length (idxfile t2) = length (idxfile s)"
        using t(2) fr2(1) uf(6) Rt R by (simp_all add: t2_def frame_def db_rep_def)
      moreover have "alookup (heap a') (datfile s) cs = alookup (heap a) (datfile s) cs"
        using uf(2) t(2) fr2(1) by (simp add: frame_def)
      ultimately show ?thesis using R2 uf(3,4,8) xc by (simp add: reusable_def loaded_def)
    qed
    moreover have "hit klen dlen e" using hx(1) e by simp
    ultimately show thesis by (rule some) (use t fr2 in \<open>simp_all add: t2_def\<close>)
  qed
qed


subsection \<open>Adding a record to the head of its chain\<close>

definition pushable :: "string \<Rightarrow> string \<Rightarrow> bool" where
  "pushable key data \<longleftrightarrow> nonul key \<and> SEP \<notin> set key \<and> key \<noteq> [] \<and> nonul data \<and>
     DATLEN_MIN \<le> length data + 1 \<and> length data + 1 \<le> DATLEN_MAX"

lemma dec_length_ge: "Suc 0 \<le> length (dec n)"
  using length_dec_pos by simp

lemma wf_new_ent:
  assumes "pushable key data" and "p \<le> PTR_LIM" and "off < 2 ^ 63"
    and "length (record_body key (int off) (length data + 1)) \<le> IDXLEN_MAX"
  shows "wf_ent \<lparr>e_next = p, e_key = key, e_off = off, e_len = length data + 1\<rparr>"
  using assms dec_length_ge [of off] dec_length_ge [of "Suc (length data)"]
  by (cases key) (simp_all add: wf_ent_def pushable_def ent_body_def record_body_def IDXLEN_MIN_def)

text \<open>The last step of both paths: the new record's offset goes into the hash table.\<close>

lemma finish_push:
  assumes q: "quiet s" "nhash s = NHASH_DEF" "hashoff s = HASH_OFF" and f: "idxfile s = enc_idx a1" and wf: "wf_idx a1"
    and h1: "heap a1 = (heap a)(x \<mapsto> e')" "a_tab a1 = a_tab a" "a_free a1 = a_free a" and i: "i = hash_of k"
    and L: "lay (heap a) (a_free a) (a_tab a) dat fl cs"
    and x: "x \<notin> set fl" "\<And>j. j < NHASH_DEF \<Longrightarrow> x \<notin> set (cs j)" "x \<noteq> 0" "x \<le> PTR_LIM"
    and new: "\<forall>y\<in>set (cs i). key_at (heap a) y \<noteq> k"
    and e': "e_key e' = k" "e_next e' = a_tab a ! i" "data_ok (datfile s) e'"
    and others: "\<forall>y e. heap a y = Some e \<and> y \<noteq> x \<longrightarrow>
       data_ok (datfile s) e \<and> ent_data (datfile s) e = ent_data dat e \<and> apart e e'"
  shows "\<exists>t a'. runs (db_writeptr (int (loc_off (LTab i))) (int x)) s () t \<and> db_rep t a' fl (cs(i := x # cs i)) \<and>
     alookup (heap a') (datfile t) (cs(i := x # cs i)) = (alookup (heap a) dat cs)(k \<mapsto> ent_data (datfile s) e') \<and>
     locks t = locks s \<and> chainoff t = chainoff s \<and> db_errno t = db_errno s \<and> datfile t = datfile s \<and>
     length (idxfile t) = length (idxfile s)"
proof -
  have ok: "loc_ok a1 (LTab i)" using i hash_of_less by simp
  let ?a' = "aset a1 (LTab i) x" and ?t = "s\<lparr>idxfile := enc_idx (aset a1 (LTab i) x), idxpos := loc_off (LTab i) + PTR_SZ\<rparr>"
  have "runs (db_writeptr (int (loc_off (LTab i))) (int x)) s () ?t"
    unfolding runs_def using q(1) wf f ok x(4) by (rule writeptr_loc)
  moreover have h: "heap ?a' = (heap a)(x \<mapsto> e')" "a_tab ?a' = (a_tab a)[i := x]" "a_free ?a' = a_free a"
    using heap_aset [OF ok, of x] h1 by auto
  note p = lay_push [OF L i x(1-3) new e' others [rule_format]]
  have "db_rep ?t ?a' fl (cs(i := x # cs i))"
    using q wf_aset [OF wf ok x(4)] p(1) h by (simp add: db_rep_def del: aset.simps)
  moreover have "alookup (heap ?a') (datfile ?t) (cs(i := x # cs i)) = (alookup (heap a) dat cs)(k \<mapsto> ent_data (datfile s) e')"
    using p(2) h by (simp del: aset.simps)
  moreover have "length (enc_idx ?a') = length (idxfile s)" using length_aset [OF wf ok x(4)] f by simp
  ultimately show ?thesis by (intro exI [of _ ?t] exI [of _ ?a']) simp
qed

text \<open>Storing one record makes the files grow by at most one record.\<close>

definition grown :: "db \<Rightarrow> db \<Rightarrow> bool" where
  "grown s t \<longleftrightarrow> length (idxfile t) \<le> length (idxfile s) + (PTR_SZ + IDXLEN_SZ + IDXLEN_MAX) \<and>
     length (datfile t) \<le> length (datfile s) + DATLEN_MAX"

lemma grown_same: "length (idxfile t) = length (idxfile s) \<Longrightarrow> length (datfile t) = length (datfile s) \<Longrightarrow> grown s t"
  by (simp add: grown_def)

lemma grown_simps [simp]:
  "grown s (set_lock f off len lt t) = grown s t"
  "grown s (t\<lparr>cnt_stor1 := w\<rparr>) = grown s t" "grown s (t\<lparr>cnt_stor2 := w\<rparr>) = grown s t"
  "grown s (t\<lparr>cnt_stor3 := w\<rparr>) = grown s t" "grown s (t\<lparr>cnt_stor4 := w\<rparr>) = grown s t"
  by (simp_all add: grown_def)

lemma reuse_rep:
  assumes R: "db_rep s a fl cs" and ld: "loaded s x e" and x: "heap a x = Some e" "x \<le> PTR_LIM" "x \<notin> set fl"
    "\<And>j. j < NHASH_DEF \<Longrightarrow> x \<notin> set (cs j)" and i: "i = hash_of key"
    and new: "\<forall>y\<in>set (cs i). key_at (heap a) y \<noteq> key" and pu: "pushable key data"
    and ht: "hit (length key) (length data + 1) e" and co: "chainoff s = int (loc_off (LTab i))"
  shows "\<exists>t a'. runs (store_reuse key data (int (a_tab a ! i))) s () t \<and> db_rep t a' fl (cs(i := x # cs i)) \<and>
     alookup (heap a') (datfile t) (cs(i := x # cs i)) = (alookup (heap a) (datfile s) cs)(key \<mapsto> data) \<and>
     locks t = locks s \<and> chainoff t = chainoff s \<and> db_errno t = db_errno s \<and> grown s t"
proof -
  have L: "lay (heap a) (a_free a) (a_tab a) (datfile s) fl cs" and wf: "wf_idx a" and q: "quiet s" and f: "idxfile s = enc_idx a"
    using R by (auto simp: db_rep_def)
  have we: "wf_ent e" and ti: "a_tab a ! i \<le> PTR_LIM" using heap_wf [OF wf x(1)] aget_le [OF wf, of "LTab i"] i hash_of_less by auto
  have dk: "data_ok (datfile s) e" using lay_data [OF L x(1)] .
  define e' where "e' = \<lparr>e_next = a_tab a ! i, e_key = key, e_off = e_off e, e_len = length data + 1\<rparr>"
  have sz: "ent_size e' = ent_size e" using ht by (simp add: e'_def ent_size_def ent_body_def2 hit_def)
  then have "length (ent_body e') \<le> IDXLEN_MAX" using we by (simp add: ent_size_def wf_ent_def)
  then have we': "wf_ent e'"
    unfolding e'_def using wf_new_ent [OF pu ti, of "e_off e"] we by (simp add: wf_ent_def ent_body_def)
  have dl: "length data + 1 = e_len e" "nonul data" using ht pu by (auto simp: hit_def pushable_def)
  define s1 where "s1 = s\<lparr>datoff := int (e_off e), datlen := length data + 1, datpos := e_off e + length data + 1,
     datfile := splice (datfile s) (e_off e) (data @ [NEWLINE])\<rparr>"
  have 1: "runs (db_writedat data (int (e_off e)) SEEK_SET) s () s1"
    unfolding runs_def s1_def using q dk by (intro writedat_over) (auto simp: data_ok_def)
  have f1: "quiet s1" "idxfile s1 = enc_idx a" "datoff s1 = int (e_off e)" "datlen s1 = length data + 1" "idxoff s1 = int x"
    using q f ld by (simp_all add: s1_def loaded_def)
  define a1 where "a1 = a_upd a x e'"
  define s2 where "s2 = s1\<lparr>ptrval := int (a_tab a ! i), idxbuf := ent_body e' @ [NUL], idxpos := x + ent_size e', idxoff := int x,
     idxfile := enc_idx a1\<rparr>"
  have 2: "runs (db_writeidx key (int x) SEEK_SET (int (a_tab a ! i))) s1 () s2"
    unfolding runs_def s2_def a1_def by (rule writeidx_over [OF f1(1) wf f1(2) x(1) e'_def f1(3,4) sz we'])
  have a1: "wf_idx a1" "heap a1 = (heap a)(x \<mapsto> e')" "a_tab a1 = a_tab a" "a_free a1 = a_free a"
    using wf_a_upd [OF wf we' x(1)] heap_a_upd [OF x(1) sz] by (simp_all add: a1_def)
  have d2: "datfile s2 = splice (datfile s) (e_off e) (data @ [NEWLINE])" by (simp add: s2_def s1_def)
  note sm = splice_same [OF dk dl, of e', folded d2]
  have o: "data_ok (datfile s2) f \<and> ent_data (datfile s2) f = ent_data (datfile s) f \<and> apart f e'" if "heap a y = Some f" "y \<noteq> x" for y f
    unfolding d2
    using splice_other [OF dk lay_data [OF L that(1)] lay_apart [OF L that(1) x(1) that(2)] dl(1)] lay_apart [OF L that(1) x(1) that(2)] dl(1)
    by (simp add: apart_def e'_def)
  have s2: "quiet s2" "nhash s2 = NHASH_DEF" "hashoff s2 = HASH_OFF" "idxfile s2 = enc_idx a1"
    using R q by (simp_all add: s2_def s1_def db_rep_def)
  have dd: "data_ok (datfile s2) e'" "ent_data (datfile s2) e' = data" using sm dl by (simp_all add: e'_def)
  have fe: "e_key e' = key" "e_next e' = a_tab a ! i" by (simp_all add: e'_def)
  have oo: "\<forall>y f. heap a y = Some f \<and> y \<noteq> x \<longrightarrow>
      data_ok (datfile s2) f \<and> ent_data (datfile s2) f = ent_data (datfile s) f \<and> apart f e'" using o by blast
  from finish_push [OF s2 a1 i L x(3,4) heap_nonzero [OF x(1)] x(2) new fe dd(1) oo] obtain t a' where
    t: "runs (db_writeptr (int (loc_off (LTab i))) (int x)) s2 () t" "db_rep t a' fl (cs(i := x # cs i))"
    "alookup (heap a') (datfile t) (cs(i := x # cs i)) = (alookup (heap a) (datfile s) cs)(key \<mapsto> data)"
    "locks t = locks s2" "chainoff t = chainoff s2" "db_errno t = db_errno s2" "datfile t = datfile s2"
    "length (idxfile t) = length (idxfile s2)"
    unfolding dd(2) by blast
  have "length (datfile s2) = length (datfile s)"
    unfolding d2 by (rule length_splice) (use dk dl in \<open>simp add: data_ok_def\<close>)
  moreover have "length (idxfile s2) = length (idxfile s)" using length_a_upd [OF wf x(1) we' sz] f by (simp add: s2_def a1_def)
  ultimately have g: "grown s t" using t(7,8) by (intro grown_same) simp_all
  have "datoff s = int (e_off e)" "chainoff s2 = int (loc_off (LTab i))" "idxoff s2 = int x"
    using ld co by (simp_all add: loaded_def s2_def s1_def)
  then have "runs (store_reuse key data (int (a_tab a ! i))) s () t"
    unfolding store_reuse_def by (simp add: 1 [THEN runs_step] f1 2 [THEN runs_step] t(1))
  then show ?thesis using t(2-6) g by (intro exI [of _ t] exI [of _ a']) (simp add: s2_def s1_def)
qed


lemma heap_append:
  "heap (a\<lparr>a_ents := a_ents a @ [e]\<rparr>) = (heap a)(IDX_BASE + sum_list (map ent_size (a_ents a)) \<mapsto> e)"
proof -
  have "(IDX_BASE + sum_list (map ent_size (a_ents a))) \<notin> fst ` set (place IDX_BASE (a_ents a))"
    using place_lt by fastforce
  then have "map_of (place IDX_BASE (a_ents a)) (IDX_BASE + sum_list (map ent_size (a_ents a))) = None"
    by (simp only: map_of_eq_None_iff not_False_eq_True)
  then show ?thesis
    by (simp add: heap_def place_append fun_eq_iff map_add_def split: option.splits)
qed

lemma heap_fresh:
  assumes "wf_idx a" and "length (enc_idx a) = x"
  shows "heap a x = None" and "heap (a\<lparr>a_ents := a_ents a @ [e]\<rparr>) = (heap a)(x \<mapsto> e)" and "x \<noteq> 0"
proof -
  have x: "x = IDX_BASE + sum_list (map ent_size (a_ents a))" using assms length_enc_idx by simp
  have "x \<notin> fst ` set (place IDX_BASE (a_ents a))" using place_lt x by fastforce
  then show "heap a x = None" by (simp add: heap_def map_of_eq_None_iff)
  show "heap (a\<lparr>a_ents := a_ents a @ [e]\<rparr>) = (heap a)(x \<mapsto> e)" using heap_append x by simp
  show "x \<noteq> 0" using x by (simp add: IDX_BASE_def)
qed

lemma append_rep:
  assumes R: "db_rep s a fl cs" and i: "i = hash_of key"
    and new: "\<forall>y\<in>set (cs i). key_at (heap a) y \<noteq> key" and pu: "pushable key data"
    and xl: "length (idxfile s) \<le> PTR_LIM" and ol: "length (datfile s) < 2 ^ 63"
    and bl: "length (record_body key (int (length (datfile s))) (length data + 1)) \<le> IDXLEN_MAX"
    and co: "chainoff s = int (loc_off (LTab i))"
  shows "\<exists>t a'. runs (store_append key data (int (a_tab a ! i))) s () t \<and>
     db_rep t a' fl (cs(i := length (idxfile s) # cs i)) \<and>
     alookup (heap a') (datfile t) (cs(i := length (idxfile s) # cs i)) = (alookup (heap a) (datfile s) cs)(key \<mapsto> data) \<and>
     locks t = lock_upd Idx IDX_BASE 0 None (lock_upd Dat 0 0 None (locks s)) \<and> chainoff t = chainoff s \<and>
     db_errno t = db_errno s \<and> grown s t"
proof -
  have L: "lay (heap a) (a_free a) (a_tab a) (datfile s) fl cs" and wf: "wf_idx a" and q: "quiet s" and f: "idxfile s = enc_idx a"
    and nh: "nhash s = NHASH_DEF"
    using R by (auto simp: db_rep_def)
  let ?x = "length (idxfile s)" let ?off = "length (datfile s)"
  have ti: "a_tab a ! i \<le> PTR_LIM" using aget_le [OF wf, of "LTab i"] i hash_of_less by auto
  define e' where "e' = \<lparr>e_next = a_tab a ! i, e_key = key, e_off = ?off, e_len = length data + 1\<rparr>"
  have we': "wf_ent e'" unfolding e'_def using pu ti ol bl by (rule wf_new_ent)
  have nd: "nonul data" using pu by (simp add: pushable_def)
  define s1 where "s1 = set_lock Dat 0 0 None (s\<lparr>datoff := int ?off, datlen := length data + 1,
     datpos := ?off + length data + 1, datfile := datfile s @ data @ [NEWLINE]\<rparr>)"
  have 1: "runs (db_writedat data 0 SEEK_END) s () s1"
    unfolding runs_def s1_def using q by (rule writedat_append)
  have f1: "quiet s1" "idxfile s1 = enc_idx a" "nhash s1 = NHASH_DEF" "datoff s1 = int ?off" "datlen s1 = length data + 1"
    using q f nh by (simp_all add: s1_def)
  define a1 where "a1 = a\<lparr>a_ents := a_ents a @ [e']\<rparr>"
  define s2 where "s2 = set_lock Idx IDX_BASE 0 None
     (s1\<lparr>ptrval := int (a_tab a ! i), idxbuf := ent_body e' @ [NUL],
       idxpos := length (enc_idx a) + ent_size e', idxoff := int (length (enc_idx a)), idxfile := enc_idx a1\<rparr>)"
  have 2: "runs (db_writeidx key 0 SEEK_END (int (a_tab a ! i))) s1 () s2"
    unfolding runs_def s2_def a1_def by (rule writeidx_append [OF f1(1-3) e'_def f1(4,5) we'])
  note hf = heap_fresh [OF wf arg_cong [OF f [symmetric], of length]]
  have a1: "wf_idx a1" "heap a1 = (heap a)(?x \<mapsto> e')" "a_tab a1 = a_tab a" "a_free a1 = a_free a"
    using wf we' hf(2) [of e'] by (auto simp: a1_def wf_idx_def)
  have d2: "datfile s2 = datfile s @ data @ [NEWLINE]" by (simp add: s2_def s1_def)
  note sm = append_same [OF nd, of e' "datfile s", folded d2]
  have o: "data_ok (datfile s2) g \<and> ent_data (datfile s2) g = ent_data (datfile s) g \<and> apart g e'" if "heap a y = Some g" for y g
    unfolding d2 using append_other [OF lay_data [OF L that]] lay_data [OF L that] by (simp add: apart_def e'_def data_ok_def)
  have oo: "\<forall>y g. heap a y = Some g \<and> y \<noteq> ?x \<longrightarrow>
      data_ok (datfile s2) g \<and> ent_data (datfile s2) g = ent_data (datfile s) g \<and> apart g e'" using o by blast
  have s2: "quiet s2" "nhash s2 = NHASH_DEF" "hashoff s2 = HASH_OFF" "idxfile s2 = enc_idx a1"
    using R q by (simp_all add: s2_def s1_def db_rep_def)
  have dd: "data_ok (datfile s2) e'" "ent_data (datfile s2) e' = data" using sm by (simp_all add: e'_def)
  have fe: "e_key e' = key" "e_next e' = a_tab a ! i" by (simp_all add: e'_def)
  have xf: "?x \<notin> set fl" using chain_heap [OF lay_free [OF L]] hf(1) by fastforce
  have xc: "?x \<notin> set (cs j)" if "j < NHASH_DEF" for j using chain_heap [OF lay_chain [OF L that]] hf(1) by fastforce
  from finish_push [OF s2 a1 i L xf xc hf(3) xl new fe dd(1) oo] obtain t a' where
    t: "runs (db_writeptr (int (loc_off (LTab i))) (int ?x)) s2 () t" "db_rep t a' fl (cs(i := ?x # cs i))"
    "alookup (heap a') (datfile t) (cs(i := ?x # cs i)) = (alookup (heap a) (datfile s) cs)(key \<mapsto> data)"
    "locks t = locks s2" "chainoff t = chainoff s2" "db_errno t = db_errno s2" "datfile t = datfile s2"
    "length (idxfile t) = length (idxfile s2)"
    unfolding dd(2) by blast
  have "enc_idx a1 = enc_idx a @ enc_ent e'" by (simp add: a1_def enc_idx_def)
  then have "length (idxfile s2) = length (idxfile s) + ent_size e'"
    using f length_enc_ent [OF we'] by (simp add: s2_def)
  moreover have "ent_size e' \<le> PTR_SZ + IDXLEN_SZ + IDXLEN_MAX" using we' by (simp add: ent_size_def wf_ent_def)
  moreover have "length data + 1 \<le> DATLEN_MAX" using pu by (simp add: pushable_def)
  ultimately have g: "grown s t" using t(7,8) d2 by (simp add: grown_def)
  have "chainoff s2 = int (loc_off (LTab i))" "idxoff s2 = int ?x"
    using co f by (simp_all add: s2_def s1_def)
  then have "runs (store_append key data (int (a_tab a ! i))) s () t"
    unfolding store_append_def by (simp add: 1 [THEN runs_step] 2 [THEN runs_step] t(1))
  then show ?thesis using t(2-6) g by (intro exI [of _ t] exI [of _ a']) (simp add: s2_def s1_def)
qed

lemma overwrite_rep:
  assumes R: "db_rep s a fl cs" and i: "i < NHASH_DEF" and x: "x \<in> set (cs i)" "heap a x = Some e"
    and dl: "length data + 1 = e_len e" "nonul data"
  shows "\<exists>t. runs (db_writedat data (int (e_off e)) SEEK_SET) s () t \<and> db_rep t a fl cs \<and>
     alookup (heap a) (datfile t) cs = (alookup (heap a) (datfile s) cs)(e_key e \<mapsto> data) \<and>
     locks t = locks s \<and> chainoff t = chainoff s \<and> db_errno t = db_errno s \<and> grown s t"
proof -
  have L: "lay (heap a) (a_free a) (a_tab a) (datfile s) fl cs" and q: "quiet s"
    using R by (auto simp: db_rep_def)
  have dk: "data_ok (datfile s) e" using lay_data [OF L x(2)] .
  let ?d = "splice (datfile s) (e_off e) (data @ [NEWLINE])"
  let ?t = "s\<lparr>datoff := int (e_off e), datlen := length data + 1, datpos := e_off e + length data + 1, datfile := ?d\<rparr>"
  have 1: "runs (db_writedat data (int (e_off e)) SEEK_SET) s () ?t"
    unfolding runs_def using q dk by (intro writedat_over) (auto simp: data_ok_def)
  note sm = splice_same [OF dk dl refl refl]
  have o: "data_ok ?d f \<and> ent_data ?d f = ent_data (datfile s) f" if "heap a y = Some f" "y \<noteq> x" for y f
    using splice_other [OF dk lay_data [OF L that(1)] lay_apart [OF L that(1) x(2) that(2)] dl(1)] by blast
  note lo = lay_overwrite [OF L i x sm(1) o]
  have "db_rep ?t a fl cs" using R lo(1) by (simp add: db_rep_def)
  moreover have "alookup (heap a) ?d cs = (alookup (heap a) (datfile s) cs)(e_key e \<mapsto> data)"
    using lo(2) x(2) sm(2) by (simp add: key_at_def)
  moreover have "length ?d = length (datfile s)" by (rule length_splice) (use dk dl in \<open>simp add: data_ok_def\<close>)
  ultimately show ?thesis using 1 by (intro exI [of _ ?t]) (simp add: grown_def)
qed


subsection \<open>Storing a record\<close>

text \<open>
  What an insertion needs: the key and data can be written as a record, and the two files
  are short enough for another record at their end.
\<close>

definition storable :: "db \<Rightarrow> string \<Rightarrow> string \<Rightarrow> bool" where
  "storable s key data \<longleftrightarrow> pushable key data \<and> length (idxfile s) \<le> PTR_LIM \<and> length (datfile s) < 2 ^ 63 \<and>
     length (record_body key (int (length (datfile s))) (length data + 1)) \<le> IDXLEN_MAX"

lemma store_new:
  assumes "represents s m" and "m k = None" and "storable s k d" and "flag = DB_INSERT \<or> flag = DB_STORE"
  shows "\<exists>t. runs (db_store k d flag) s 0 t \<and> represents t (m(k \<mapsto> d)) \<and> grown s t"
proof -
  from assms(1) obtain a fl cs where R: "db_rep s a fl cs" and lk: "locks s = no_locks"
    and m: "m = alookup (heap a) (datfile s) cs" and L: "lay (heap a) (a_free a) (a_tab a) (datfile s) fl cs"
    by (rule representsE)
  define i where "i = hash_of k"
  have new: "\<forall>y\<in>set (cs i). key_at (heap a) y \<noteq> k"
    using L by (cases rule: alookup_cases [where k = k]) (use assms(2) m in \<open>auto simp: i_def\<close>)
  have pu: "pushable k d" using assms(3) by (simp add: storable_def)
  then have lens: "DATLEN_MIN \<le> length d + 1 \<and> length d + 1 \<le> DATLEN_MAX" by (simp add: pushable_def)
  have fl: "\<not> (flag \<noteq> DB_INSERT \<and> flag \<noteq> DB_REPLACE \<and> flag \<noteq> DB_STORE)" "flag \<noteq> DB_REPLACE"
    using assms(4) by (auto simp: db_consts)
  let ?n = "loc_off (LTab i)"
  from find_and_lock_none [OF R i_def new, of True] obtain t where
    t: "runs (db_find_and_lock k True) s (-1) t" "frame s t" "chainoff t = int ?n"
    "locks t = lock_upd Idx ?n 1 (Some F_WRLCK) (locks s)" by (auto simp: runs_def)
  have Rt: "db_rep t a fl cs" using frame_rep [OF t(2) R] .
  have ok: "loc_ok a (LTab i)" using i_def hash_of_less by simp
  have fr: "datfile t = datfile s" "idxfile t = idxfile s" using t(2) by (simp_all add: frame_def)
  define t1 where "t1 = t\<lparr>idxpos := ?n + PTR_SZ\<rparr>"
  have 1: "runs (db_readptr (int ?n)) t (int (a_tab a ! i)) t1"
    using readptr_rep [OF Rt ok] by (simp add: t1_def)
  have R1: "db_rep t1 a fl cs" "chainoff t1 = int ?n" using Rt t(3) by (simp_all add: t1_def)
  from R1(1) show ?thesis
  proof (cases rule: findfree_rep [where klen = "length k" and dlen = "length d + 1"])
    case (none u)
    have Ru: "db_rep u a fl cs" "chainoff u = int ?n" "idxfile u = idxfile s" "datfile u = datfile s"
      using frame_rep [OF none(2) R1(1)] none(2,3) R1(2) fr by (simp_all add: frame_def t1_def)
    have st: "length (idxfile u) \<le> PTR_LIM" "length (datfile u) < 2 ^ 63"
      "length (record_body k (int (length (datfile u))) (length d + 1)) \<le> IDXLEN_MAX"
      using assms(3) Ru(3,4) by (simp_all add: storable_def)
    from append_rep [OF Ru(1) i_def new pu st Ru(2)] obtain v a' cs' where
      v: "runs (store_append k d (int (a_tab a ! i))) u () v" "db_rep v a' fl cs'"
      "alookup (heap a') (datfile v) cs' = (alookup (heap a) (datfile u) cs)(k \<mapsto> d)"
      "locks v = lock_upd Idx IDX_BASE 0 None (lock_upd Dat 0 0 None (locks u))" "chainoff v = chainoff u" "grown u v" by blast
    have g: "grown s v" using v(6) Ru by (simp add: grown_def)
    let ?w = "set_lock Idx ?n 1 None (v\<lparr>cnt_stor1 := cnt_stor1 v + 1\<rparr>)"
    have "runs (db_store k d flag) s 0 ?w"
      unfolding db_store_def Let_def
      using fl lens
      by (simp del: One_nat_def add: t(1) [THEN runs_step] t(3) 1 [THEN runs_step] none(1) [THEN runs_step]
          v(1) [THEN runs_step] unlock_chain_step rep_quiet [OF v(2)] v(5) Ru(2))
    moreover have "represents ?w (m(k \<mapsto> d))"
    proof (rule representsI)
      show "db_rep ?w a' fl cs'" using v(2) by simp
      show "locks ?w = no_locks" using v(4) none(5) t(4) lk by (simp add: t1_def)
      show "m(k \<mapsto> d) = alookup (heap a') (datfile ?w) cs'" using v(3) Ru(4) m by simp
    qed
    ultimately show ?thesis using g by (intro exI [of _ ?w]) simp
  next
    case (some u a' fl' x e)
    have re: "db_rep u a' fl' cs" "loaded u x e" "heap a' x = Some e" "x \<le> PTR_LIM" "x \<notin> set fl'"
      "\<And>j. j < NHASH_DEF \<Longrightarrow> x \<notin> set (cs j)" "a_tab a' = a_tab a" "datfile u = datfile s"
      "alookup (heap a') (datfile s) cs = m"
      using some(2) fr m by (auto simp: reusable_def t1_def)
    have "i < NHASH_DEF" using hash_of_less by (simp add: i_def)
    then have new': "\<forall>y\<in>set (cs i). key_at (heap a') y \<noteq> k" using some(2) new by (simp add: reusable_def)
    have ht: "hit (length k) (length d + 1) e" and cu: "chainoff u = int ?n" using some(3,4) R1(2) by simp_all
    from reuse_rep [OF re(1-6) i_def new' pu ht cu] obtain v a'' where
      v: "runs (store_reuse k d (int (a_tab a ! i))) u () v" "db_rep v a'' fl' (cs(i := x # cs i))"
      "alookup (heap a'') (datfile v) (cs(i := x # cs i)) = m(k \<mapsto> d)" "locks v = locks u" "chainoff v = chainoff u" "grown u v"
      unfolding re(7,8,9) by blast
    have g: "grown s v" using v(6) some(2) fr by (simp add: reusable_def grown_def t1_def)
    let ?w = "set_lock Idx ?n 1 None (v\<lparr>cnt_stor2 := cnt_stor2 v + 1\<rparr>)"
    have "runs (db_store k d flag) s 0 ?w"
      unfolding db_store_def Let_def
      using fl lens
      by (simp del: One_nat_def add: t(1) [THEN runs_step] t(3) 1 [THEN runs_step] some(1) [THEN runs_step]
          v(1) [THEN runs_step] unlock_chain_step rep_quiet [OF v(2)] v(5) cu)
    moreover have "represents ?w (m(k \<mapsto> d))"
    proof (rule representsI)
      show "db_rep ?w a'' fl' (cs(i := x # cs i))" using v(2) by simp
      show "locks ?w = no_locks" using v(4) some(6) t(4) lk by (simp add: t1_def)
      show "m(k \<mapsto> d) = alookup (heap a'') (datfile ?w) (cs(i := x # cs i))" using v(3) by simp
    qed
    ultimately show ?thesis using g by (intro exI [of _ ?w]) simp
  qed
qed


lemma store_missing:
  assumes "represents s m" and "m k = None" and "DATLEN_MIN \<le> length d + 1 \<and> length d + 1 \<le> DATLEN_MAX"
  shows "\<exists>t. runs (db_store k d DB_REPLACE) s (-1) t \<and> represents t m \<and> db_errno t = Some ENOENT \<and> grown s t"
proof -
  from assms(1) obtain a fl cs where R: "db_rep s a fl cs" and lk: "locks s = no_locks"
    and m: "m = alookup (heap a) (datfile s) cs" and L: "lay (heap a) (a_free a) (a_tab a) (datfile s) fl cs"
    by (rule representsE)
  define i where "i = hash_of k"
  have new: "\<forall>y\<in>set (cs i). key_at (heap a) y \<noteq> k"
    using L by (cases rule: alookup_cases [where k = k]) (use assms(2) m in \<open>auto simp: i_def\<close>)
  let ?n = "loc_off (LTab i)"
  from find_and_lock_none [OF R i_def new, of True] obtain t where
    t: "runs (db_find_and_lock k True) s (-1) t" "frame s t" "chainoff t = int ?n"
    "locks t = lock_upd Idx ?n 1 (Some F_WRLCK) (locks s)" by (auto simp: runs_def)
  have Rt: "db_rep t a fl cs" using frame_rep [OF t(2) R] .
  let ?w = "set_lock Idx ?n 1 None (t\<lparr>cnt_storerr := cnt_storerr t + 1, db_errno := Some ENOENT\<rparr>)"
  have "runs (db_store k d DB_REPLACE) s (-1) ?w"
    unfolding db_store_def Let_def
    using assms(3) by (simp del: One_nat_def add: t(1) [THEN runs_step] unlock_chain_step rep_quiet [OF Rt] t(3))
  moreover have "represents ?w m" using Rt t(2,4) lk m by (intro representsI) (simp_all add: frame_def)
  moreover have "grown s ?w" using t(2) by (simp add: frame_def grown_def)
  ultimately show ?thesis by (intro exI [of _ ?w]) simp
qed

lemma store_exists:
  assumes "represents s m" and "m k = Some d0" and "DATLEN_MIN \<le> length d + 1 \<and> length d + 1 \<le> DATLEN_MAX"
  shows "\<exists>t. runs (db_store k d DB_INSERT) s 1 t \<and> represents t m \<and> grown s t"
proof -
  from assms(1) obtain a fl cs where R: "db_rep s a fl cs" and lk: "locks s = no_locks"
    and m: "m = alookup (heap a) (datfile s) cs" and L: "lay (heap a) (a_free a) (a_tab a) (datfile s) fl cs"
    by (rule representsE)
  obtain ys x zs e where c: "cs (hash_of k) = ys @ x # zs" "heap a x = Some e" "e_key e = k"
    using L by (cases rule: alookup_cases [where k = k]) (use assms(2) m in \<open>auto\<close>)
  let ?n = "loc_off (LTab (hash_of k))"
  from find_and_lock_some [OF R _ c(1,2), of True] c(3) obtain t where
    t: "runs (db_find_and_lock k True) s 0 t" "frame s t" "chainoff t = int ?n"
    "locks t = lock_upd Idx ?n 1 (Some F_WRLCK) (locks s)" by (auto simp: runs_def)
  have Rt: "db_rep t a fl cs" using frame_rep [OF t(2) R] .
  let ?w = "set_lock Idx ?n 1 None (t\<lparr>cnt_storerr := cnt_storerr t + 1\<rparr>)"
  have "\<not> (DB_INSERT \<noteq> DB_INSERT \<and> DB_INSERT \<noteq> DB_REPLACE \<and> DB_INSERT \<noteq> DB_STORE)" by simp
  then have "runs (db_store k d DB_INSERT) s 1 ?w"
    unfolding db_store_def Let_def
    using assms(3) by (simp del: One_nat_def add: t(1) [THEN runs_step] unlock_chain_step rep_quiet [OF Rt] t(3))
  moreover have "represents ?w m" using Rt t(2,4) lk m by (intro representsI) (simp_all add: frame_def)
  moreover have "grown s ?w" using t(2) by (simp add: frame_def grown_def)
  ultimately show ?thesis by blast
qed

lemma store_replace:
  assumes "represents s m" and mk: "m k = Some d0" and "storable s k d" and "flag = DB_REPLACE \<or> flag = DB_STORE"
  shows "\<exists>t. runs (db_store k d flag) s 0 t \<and> represents t (m(k \<mapsto> d)) \<and> grown s t"
proof -
  from assms(1) obtain a fl cs where R: "db_rep s a fl cs" and lk: "locks s = no_locks"
    and m: "m = alookup (heap a) (datfile s) cs" and L: "lay (heap a) (a_free a) (a_tab a) (datfile s) fl cs"
    by (rule representsE)
  obtain ys x zs e where c: "cs (hash_of k) = ys @ x # zs" "heap a x = Some e" "e_key e = k"
    using L by (cases rule: alookup_cases [where k = k]) (use mk m in \<open>auto\<close>)
  define i where "i = hash_of k"
  have il: "i < NHASH_DEF" using hash_of_less by (simp add: i_def)
  have pu: "pushable k d" using assms(3) by (simp add: storable_def)
  then have lens: "DATLEN_MIN \<le> length d + 1 \<and> length d + 1 \<le> DATLEN_MAX" "nonul d" by (simp_all add: pushable_def)
  have fl: "\<not> (flag \<noteq> DB_INSERT \<and> flag \<noteq> DB_REPLACE \<and> flag \<noteq> DB_STORE)" "flag \<noteq> DB_INSERT"
    using assms(4) by (auto simp: db_consts)
  let ?n = "loc_off (LTab i)"
  from find_and_lock_some [OF R _ c(1,2), of True] c(3) obtain t where
    t: "runs (db_find_and_lock k True) s 0 t" "frame s t" "chainoff t = int ?n"
    "locks t = lock_upd Idx ?n 1 (Some F_WRLCK) (locks s)" "loaded t x e" "ptroff t = int (loc_off (prev_loc (LTab i) ys))"
    by (auto simp: runs_def i_def)
  have Rt: "db_rep t a fl cs" using frame_rep [OF t(2) R] .
  have fr: "datfile t = datfile s" "idxfile t = idxfile s" using t(2) by (simp_all add: frame_def)
  have le: "datlen t = e_len e" "datoff t = int (e_off e)" using t(5) by (simp_all add: loaded_def)
  show ?thesis
  proof (cases "length d + 1 = e_len e")
    case True
    have "x \<in> set (cs i)" using c(1) by (simp add: i_def)
    from overwrite_rep [OF Rt il this c(2) True lens(2)] obtain u where
      u: "runs (db_writedat d (int (e_off e)) SEEK_SET) t () u" "db_rep u a fl cs"
      "alookup (heap a) (datfile u) cs = (alookup (heap a) (datfile t) cs)(e_key e \<mapsto> d)"
      "locks u = locks t" "chainoff u = chainoff t" "grown t u" by blast
    have g: "grown s u" using u(6) fr by (simp add: grown_def)
    let ?w = "set_lock Idx ?n 1 None (u\<lparr>cnt_stor4 := cnt_stor4 u + 1\<rparr>)"
    have "runs (db_store k d flag) s 0 ?w"
      unfolding db_store_def Let_def
      using fl lens(1)
      by (simp del: One_nat_def add: t(1) [THEN runs_step] le True u(1) [THEN runs_step] unlock_chain_step
          rep_quiet [OF u(2)] u(5) t(3))
    moreover have "represents ?w (m(k \<mapsto> d))"
    proof (rule representsI)
      show "db_rep ?w a fl cs" using u(2) by simp
      show "locks ?w = no_locks" using u(4) t(4) lk by simp
      show "m(k \<mapsto> d) = alookup (heap a) (datfile ?w) cs" using u(3) fr m c(3) by simp
    qed
    ultimately show ?thesis using g by (intro exI [of _ ?w]) simp
  next
    case False
    have c': "cs i = ys @ x # zs" using c(1) by (simp add: i_def)
    from dodelete_rep [OF Rt il c' c(2) t(5,6)] obtain u a' where
      u: "runs db_dodelete t () u" "db_rep u a' (x # fl) (cs(i := ys @ zs))"
      "alookup (heap a') (datfile u) (cs(i := ys @ zs)) = (alookup (heap a) (datfile t) cs)(e_key e := None)"
      "chainoff u = chainoff t" "locks u = lock_upd Idx (loc_off LFree) 1 None (locks t)"
      "length (idxfile u) = length (idxfile t)" "length (datfile u) = length (datfile t)" by blast
    have Lu: "lay (heap a') (a_free a') (a_tab a') (datfile u) (x # fl) (cs(i := ys @ zs))"
      using u(2) by (simp add: db_rep_def)
    have "alookup (heap a') (datfile u) (cs(i := ys @ zs)) k = None" using u(3) c(3) by simp
    with Lu have new: "\<forall>y\<in>set ((cs(i := ys @ zs)) i). key_at (heap a') y \<noteq> k"
      by (cases rule: alookup_cases [where k = k]) (auto simp: i_def)
    have ok: "loc_ok a' (LTab i)" using il by simp
    define u1 where "u1 = u\<lparr>idxpos := ?n + PTR_SZ\<rparr>"
    have 1: "runs (db_readptr (int ?n)) u (int (a_tab a' ! i)) u1"
      using readptr_rep [OF u(2) ok] by (simp add: u1_def)
    have R1: "db_rep u1 a' (x # fl) (cs(i := ys @ zs))" "chainoff u1 = int ?n"
      using u(2,4) t(3) by (simp_all add: u1_def)
    have st: "length (idxfile u1) \<le> PTR_LIM" "length (datfile u1) < 2 ^ 63"
      "length (record_body k (int (length (datfile u1))) (length d + 1)) \<le> IDXLEN_MAX"
      using assms(3) u(6,7) fr by (simp_all add: storable_def u1_def)
    from append_rep [OF R1(1) i_def new pu st R1(2)] obtain v a'' cs' where
      v: "runs (store_append k d (int (a_tab a' ! i))) u1 () v" "db_rep v a'' (x # fl) cs'"
      "alookup (heap a'') (datfile v) cs' = (alookup (heap a') (datfile u1) (cs(i := ys @ zs)))(k \<mapsto> d)"
      "locks v = lock_upd Idx IDX_BASE 0 None (lock_upd Dat 0 0 None (locks u1))" "chainoff v = chainoff u1" "grown u1 v" by blast
    have g: "grown s v" using v(6) u(6,7) fr by (simp add: grown_def u1_def)
    let ?w = "set_lock Idx ?n 1 None (v\<lparr>cnt_stor3 := cnt_stor3 v + 1\<rparr>)"
    have "runs (db_store k d flag) s 0 ?w"
      unfolding db_store_def Let_def
      using fl lens(1)
      by (simp del: One_nat_def add: t(1) [THEN runs_step] le False u(1) [THEN runs_step] u(4) t(3) 1 [THEN runs_step]
          v(1) [THEN runs_step] unlock_chain_step rep_quiet [OF v(2)] v(5) R1(2))
    moreover have "represents ?w (m(k \<mapsto> d))"
    proof (rule representsI)
      show "db_rep ?w a'' (x # fl) cs'" using v(2) by simp
      show "locks ?w = no_locks" using v(4) u(5) t(4) lk by (simp add: u1_def)
      show "m(k \<mapsto> d) = alookup (heap a'') (datfile ?w) cs'" using v(3) u(3) m fr c(3) by (simp add: u1_def)
    qed
    ultimately show ?thesis using g by (intro exI [of _ ?w]) simp
  qed
qed

text \<open>What \<open>db_store\<close> promises: its return code and the map afterwards.\<close>

fun store_spec :: "int \<Rightarrow> (string \<rightharpoonup> string) \<Rightarrow> string \<Rightarrow> string \<Rightarrow> int \<times> (string \<rightharpoonup> string)" where
  "store_spec flag m k d =
     (case m k of
        None \<Rightarrow> if flag = DB_REPLACE then (-1, m) else (0, m(k \<mapsto> d))
      | Some _ \<Rightarrow> if flag = DB_INSERT then (1, m) else (0, m(k \<mapsto> d)))"

lemma store_rep:
  assumes "represents s m" and "storable s k d" and "flag \<in> {DB_INSERT, DB_REPLACE, DB_STORE}"
  shows "\<exists>t. runs (db_store k d flag) s (fst (store_spec flag m k d)) t \<and> represents t (snd (store_spec flag m k d)) \<and> grown s t"
proof -
  have lens: "DATLEN_MIN \<le> length d + 1 \<and> length d + 1 \<le> DATLEN_MAX"
    using assms(2) by (simp add: storable_def pushable_def)
  have ne: "DB_REPLACE \<noteq> DB_INSERT" "DB_STORE \<noteq> DB_INSERT" "DB_STORE \<noteq> DB_REPLACE" "DB_INSERT \<noteq> DB_REPLACE"
    by (simp_all add: db_consts)
  show ?thesis
  proof (cases "m k")
    case None
    show ?thesis
    proof (cases "flag = DB_REPLACE")
      case True
      then show ?thesis using store_missing [OF assms(1) None lens] None by auto
    next
      case False
      then show ?thesis using store_new [OF assms(1) None assms(2)] None assms(3) by auto
    qed
  next
    case (Some d0)
    show ?thesis
    proof (cases "flag = DB_INSERT")
      case True
      then show ?thesis using store_exists [OF assms(1) Some lens] Some by auto
    next
      case False
      then show ?thesis using store_replace [OF assms(1) Some assms(2)] Some assms(3) by auto
    qed
  qed
qed

end
