(* ===== verification/KvStore.thy ===== *)
theory KvStore
  imports Prelude
begin

section \<open>The contract of a key-value store\<close>

text \<open>
  The interface a client of the database library relies on: what fetch, store and delete
  do to the map the store holds, as long as the store has room. The client lemmas proved
  in the locale reduce a whole run of operations to a run on the map.
\<close>

datatype ('k, 'v) kv_op = Fetch 'k | Store 'k 'v | Delete 'k
datatype 'v kv_res = Got "'v option" | Code int

fun kv_spec :: "('k, 'v) kv_op list \<Rightarrow> ('k \<rightharpoonup> 'v) \<Rightarrow> 'v kv_res list \<times> ('k \<rightharpoonup> 'v)" where
  "kv_spec [] m = ([], m)"
| "kv_spec (Fetch k # ops) m = (let (rs, m') = kv_spec ops m in (Got (m k) # rs, m'))"
| "kv_spec (Store k v # ops) m = (let (rs, m') = kv_spec ops (m(k \<mapsto> v)) in (Code 0 # rs, m'))"
| "kv_spec (Delete k # ops) m =
     (let (rs, m') = kv_spec ops (m(k := None)) in (Code (if m k = None then -1 else 0) # rs, m'))"

fun kv_run :: "('k \<Rightarrow> ('s, 'e, 'v option) prog) \<Rightarrow> ('k \<Rightarrow> 'v \<Rightarrow> ('s, 'e, int) prog) \<Rightarrow> ('k \<Rightarrow> ('s, 'e, int) prog) \<Rightarrow>
    ('k, 'v) kv_op list \<Rightarrow> ('s, 'e, 'v kv_res list) prog" where
  "kv_run fetch store del [] = ret []"
| "kv_run fetch store del (Fetch k # ops) =
     bnd (fetch k) (\<lambda>r. bnd (kv_run fetch store del ops) (\<lambda>rs. ret (Got r # rs)))"
| "kv_run fetch store del (Store k v # ops) =
     bnd (store k v) (\<lambda>r. bnd (kv_run fetch store del ops) (\<lambda>rs. ret (Code r # rs)))"
| "kv_run fetch store del (Delete k # ops) =
     bnd (del k) (\<lambda>r. bnd (kv_run fetch store del ops) (\<lambda>rs. ret (Code r # rs)))"

fun op_ok :: "('k \<Rightarrow> 'v \<Rightarrow> bool) \<Rightarrow> ('k, 'v) kv_op \<Rightarrow> bool" where
  "op_ok okv (Store k v) = okv k v"
| "op_ok okv (Fetch k) = True"
| "op_ok okv (Delete k) = True"

locale kv_store =
  fixes rep :: "'s \<Rightarrow> ('k \<rightharpoonup> 'v) \<Rightarrow> bool"
    and room :: "nat \<Rightarrow> 's \<Rightarrow> bool"
    and okv :: "'k \<Rightarrow> 'v \<Rightarrow> bool"
    and fetch :: "'k \<Rightarrow> ('s, 'e, 'v option) prog"
    and store :: "'k \<Rightarrow> 'v \<Rightarrow> ('s, 'e, int) prog"
    and del :: "'k \<Rightarrow> ('s, 'e, int) prog"
  assumes fetch_law: "rep s m \<Longrightarrow> room n s \<Longrightarrow> \<exists>t. runs (fetch k) s (m k) t \<and> rep t m \<and> room n t"
    and store_law: "rep s m \<Longrightarrow> room (Suc n) s \<Longrightarrow> okv k v \<Longrightarrow>
      \<exists>t. runs (store k v) s 0 t \<and> rep t (m(k \<mapsto> v)) \<and> room n t"
    and delete_law: "rep s m \<Longrightarrow> room n s \<Longrightarrow>
      \<exists>t. runs (del k) s (if m k = None then -1 else 0) t \<and> rep t (m(k := None)) \<and> room n t"
    and room_mono: "room (Suc n) s \<Longrightarrow> room n s"
begin

lemma fetch_after_store:
  assumes "rep s m" and "room 1 s" and "okv k v"
  shows "\<exists>t u. runs (store k v) s 0 t \<and> runs (fetch k') t (if k' = k then Some v else m k') u \<and> rep u (m(k \<mapsto> v))"
proof -
  obtain t where t: "runs (store k v) s 0 t" "rep t (m(k \<mapsto> v))" "room 0 t"
    using store_law [of s m 0 k v] assms by auto
  then obtain u where "runs (fetch k') t ((m(k \<mapsto> v)) k') u" "rep u (m(k \<mapsto> v))" using fetch_law by blast
  then show ?thesis using t by (intro exI [of _ t] exI [of _ u]) simp
qed

lemma fetch_after_delete:
  assumes "rep s m" and "room 0 s"
  shows "\<exists>r t u. runs (del k) s r t \<and> runs (fetch k') t (if k' = k then None else m k') u \<and> rep u (m(k := None))"
proof -
  obtain r t where t: "runs (del k) s r t" "rep t (m(k := None))" "room 0 t"
    using delete_law assms by blast
  then obtain u where "runs (fetch k') t ((m(k := None)) k') u" "rep u (m(k := None))" using fetch_law by blast
  then show ?thesis using t by (intro exI [of _ r] exI [of _ t] exI [of _ u]) simp
qed

lemma run_refines:
  assumes "rep s m" and "room (length ops) s" and "\<forall>op\<in>set ops. op_ok okv op"
  shows "\<exists>t. runs (kv_run fetch store del ops) s (fst (kv_spec ops m)) t \<and> rep t (snd (kv_spec ops m))"
  using assms
proof (induction ops arbitrary: s m)
  case Nil
  then show ?case by auto
next
  case (Cons op ops)
  have room: "room (Suc (length ops)) s" using Cons.prems(2) by simp
  show ?case
  proof (cases op)
    case (Fetch k)
    obtain t where t: "runs (fetch k) s (m k) t" "rep t m" "room (length ops) t"
      using fetch_law [OF Cons.prems(1) room_mono [OF room]] by blast
    obtain u where "runs (kv_run fetch store del ops) t (fst (kv_spec ops m)) u" "rep u (snd (kv_spec ops m))"
      using Cons.IH [of t m] t(2,3) Cons.prems(3) by auto
    then show ?thesis
      using t(1) Fetch by (intro exI [of _ u]) (simp add: runs_step split_beta)
  next
    case (Store k v)
    obtain t where t: "runs (store k v) s 0 t" "rep t (m(k \<mapsto> v))" "room (length ops) t"
      using store_law [OF Cons.prems(1) room, of k v] Cons.prems(3) Store by auto
    obtain u where "runs (kv_run fetch store del ops) t (fst (kv_spec ops (m(k \<mapsto> v)))) u"
      "rep u (snd (kv_spec ops (m(k \<mapsto> v))))"
      using Cons.IH [of t "m(k \<mapsto> v)"] t(2,3) Cons.prems(3) by (auto simp del: fun_upd_apply)
    then show ?thesis
      using t(1) Store by (intro exI [of _ u]) (simp add: runs_step split_beta)
  next
    case (Delete k)
    obtain t where t: "runs (del k) s (if m k = None then -1 else 0) t" "rep t (m(k := None))" "room (length ops) t"
      using delete_law [OF Cons.prems(1) room_mono [OF room]] by blast
    obtain u where "runs (kv_run fetch store del ops) t (fst (kv_spec ops (m(k := None)))) u"
      "rep u (snd (kv_spec ops (m(k := None))))"
      using Cons.IH [of t "m(k := None)"] t(2,3) Cons.prems(3) by (auto simp del: fun_upd_apply)
    then show ?thesis
      using t(1) Delete by (cases "m k"; intro exI [of _ u]) (simp_all add: runs_step split_beta)
  qed
qed

end

end
