(* ===== verification/DbApi.thy ===== *)
theory DbApi
  imports DbStore KvStore
begin

section \<open>The database library: the properties of its interface\<close>

text \<open>
  Opening, closing and reopening a database, the contract of \<open>KvStore\<close> for
  \<open>db_fetch\<close>, \<open>db_store\<close> and \<open>db_delete\<close>, the errors, and the properties of the
  library.
\<close>

subsection \<open>The contract\<close>

definition KEY_LIM :: nat where "KEY_LIM = 996"

definition db_room :: "nat \<Rightarrow> db \<Rightarrow> bool" where
  "db_room n s \<longleftrightarrow> length (idxfile s) + n * (PTR_SZ + IDXLEN_SZ + IDXLEN_MAX) \<le> PTR_LIM \<and>
     length (datfile s) + n * DATLEN_MAX < 2 ^ 63"

definition db_okv :: "string \<Rightarrow> string \<Rightarrow> bool" where
  "db_okv k d \<longleftrightarrow> pushable k d \<and> length k \<le> KEY_LIM"

lemma storableI:
  assumes "db_room n s" and "db_okv k d"
  shows "storable s k d"
proof -
  have "length (dec (length (datfile s))) \<le> 19"
    by (rule length_dec_bound) (use assms(1) in \<open>simp_all add: db_room_def\<close>)
  moreover have "length (dec (length d + 1)) \<le> 5"
    by (rule length_dec_bound) (use assms(2) in \<open>simp_all add: db_okv_def pushable_def DATLEN_MAX_def\<close>)
  ultimately show ?thesis
    using assms by (simp add: storable_def db_okv_def db_room_def record_body_def KEY_LIM_def IDXLEN_MAX_def)
qed

lemma room_same: "length (idxfile t) = length (idxfile s) \<Longrightarrow> length (datfile t) = length (datfile s) \<Longrightarrow> db_room n s \<Longrightarrow> db_room n t"
  by (simp add: db_room_def)

lemma room_grown: "grown s t \<Longrightarrow> db_room (Suc n) s \<Longrightarrow> db_room n t"
  by (simp add: grown_def db_room_def)

interpretation apue_db: kv_store represents db_room db_okv db_fetch "\<lambda>k d. db_store k d DB_STORE" db_delete
proof unfold_locales
  fix s m n k
  assume r: "represents s m" and n: "db_room n s"
  show "\<exists>t. runs (db_fetch k) s (m k) t \<and> represents t m \<and> db_room n t"
    using fetch_rep [OF r, of k] n room_same by metis
  show "\<exists>t. runs (db_delete k) s (if m k = None then -1 else 0) t \<and> represents t (m(k := None)) \<and> db_room n t"
    using delete_rep [OF r, of k] n room_same by metis
next
  fix s m n k d
  assume r: "represents s m" and n: "db_room (Suc n) s" and ok: "db_okv k d"
  have "store_spec DB_STORE m k d = (0, m(k \<mapsto> d))" by (simp add: db_consts split: option.split)
  then show "\<exists>t. runs (db_store k d DB_STORE) s 0 t \<and> represents t (m(k \<mapsto> d)) \<and> db_room n t"
    using store_rep [OF r storableI [OF n ok], of DB_STORE] room_grown [OF _ n] by auto
next
  show "db_room n s" if "db_room (Suc n) s" for n s using that by (simp add: db_room_def)
qed

subsection \<open>Opening and closing\<close>

definition empty_idx :: aidx where
  "empty_idx = \<lparr>a_free = 0, a_tab = replicate NHASH_DEF 0, a_ents = []\<rparr>"

lemma init_hash_enc: "init_hash = enc_idx empty_idx"
  by (simp add: init_hash_def enc_idx_def empty_idx_def enc_ptr_def)

lemma wf_empty: "wf_idx empty_idx" "heap empty_idx = Map.empty"
  by (simp_all add: wf_idx_def empty_idx_def heap_def PTR_LIM_def)

lemma lay_empty: "lay Map.empty 0 (replicate NHASH_DEF 0) [] [] (\<lambda>_. [])"
  by (simp add: lay_def)

definition RW_NEW :: "oflag set" where "RW_NEW = {O_RDWR, O_CREAT, O_TRUNC}"

lemma length_init: "length init_hash = IDX_BASE"
  using length_enc_idx [OF wf_empty(1)] by (simp add: init_hash_enc empty_idx_def)

lemma set_lock_again: "set_lock f off len t (set_lock f off len t' s) = set_lock f off len t s"
  by (simp add: set_lock_def)

lemma db_init_run:
  assumes "quiet s" and "idxfile s = []" and "idxpos s = 0"
  shows "runs db_init s () (set_lock Idx 0 0 None (s\<lparr>idxfile := init_hash, idxpos := IDX_BASE\<rparr>))"
proof -
  define s1 where "s1 = set_lock Idx 0 0 (Some F_WRLCK) s"
  have 1: "runs (or_dump (writew_lock Idx 0 0) m) s 0 s1" for m
    using setlk_or_dump(2) [OF assms(1), of Idx 0 0] by (simp add: runs_def s1_def)
  have 2: "runs syscall s1 True s1" "idxfile s1 = []"
    using assms(1,2) by (simp_all add: runs_def syscall_quiet quiet_def s1_def)
  define s2 where "s2 = s1\<lparr>idxfile := init_hash, idxpos := IDX_BASE\<rparr>"
  have 3: "runs (k_write Idx init_hash) s1 (int (length init_hash)) s2"
    using assms write_quiet [of s1 Idx init_hash]
    by (simp add: runs_def quiet_def write_at_def splice_def length_init s1_def s2_def)
  define s3 where "s3 = set_lock Idx 0 0 None s2"
  have 4: "runs (or_dump (un_lock Idx 0 0) m) s2 0 s3" for m
    using setlk_or_dump(3) [of s2 Idx 0 0] assms(1) by (simp add: runs_def s2_def s1_def s3_def)
  have "runs db_init s () s3"
    unfolding db_init_def
    by (simp add: 1 [THEN runs_step] 2 2(1) [THEN runs_step] 3 [THEN runs_step] 4 [THEN runs_step])
  then show ?thesis by (simp add: s3_def s2_def s1_def set_lock_again)
qed

lemma db_rewind_run:
  assumes "quiet s" and "nhash s = NHASH_DEF"
  shows "runs db_rewind s () (s\<lparr>idxpos := IDX_BASE, idxoff := int IDX_BASE\<rparr>)"
proof -
  have p: "int ((nhash s + 1) * PTR_SZ) + 1 = int IDX_BASE" using assms(2) by (simp add: IDX_BASE_def)
  have r: "runs (or_dump (k_lseek Idx (int IDX_BASE) SEEK_SET) m) s (int IDX_BASE) (s\<lparr>idxpos := IDX_BASE\<rparr>)" for m
    using assms(1) by (simp add: runs_def or_dump_quiet lseek_set quiet_def)
  show ?thesis unfolding db_rewind_def runs_gets_step p by (rule runs_bnd [OF r]) simp
qed

lemma syscall_nil: "faults s = [] \<Longrightarrow> syscall s = (Inr True, s)"
  by (rule syscall_quiet)

lemma db_alloc_quiet: "faults s = [] \<Longrightarrow> db_alloc s = (Inr (), s)"
  by (simp add: db_alloc_def bnd_def syscall_quiet check_run)

lemma open_new:
  "\<exists>db fs'. db_open path RW_NEW [] fs = (Inr (Some db), fs') \<and> represents db Map.empty \<and> datfile db = [] \<and>
     idxfile db = init_hash"
proof -
  let ?db = "db_zero\<lparr>faults := [], nhash := NHASH_DEF, hashoff := HASH_OFF, db_name := path @ ''.dat'',
     idxfile := [], datfile := [], canread := True, canwrite := True\<rparr>"
  let ?t = "(set_lock Idx 0 0 None (?db\<lparr>idxfile := init_hash, idxpos := IDX_BASE\<rparr>))\<lparr>idxpos := IDX_BASE, idxoff := int IDX_BASE\<rparr>"
  have q: "quiet ?db" "idxfile ?db = []" "idxpos ?db = 0" by (simp_all add: quiet_def db_zero_def)
  have "runs (bnd db_init (\<lambda>_. db_rewind)) ?db () ?t"
    by (rule runs_bnd [OF db_init_run [OF q] db_rewind_run]) (simp_all add: quiet_def)
  then have r: "bnd db_init (\<lambda>_. db_rewind) ?db = (Inr (), ?t)" by (simp add: runs_def)
  have o: "k_open p RW_NEW True fs0 = (Some [], fs0(p \<mapsto> []))" for p fs0
    by (auto simp: k_open_def RW_NEW_def split: option.split)
  have fl: "{O_CREAT, O_TRUNC} \<subseteq> RW_NEW" "O_WRONLY \<notin> RW_NEW" "O_RDWR \<in> RW_NEW" by (simp_all add: RW_NEW_def)
  have "db_open path RW_NEW [] fs = (Inr (Some ?t), fs(path @ ''.idx'' \<mapsto> [], path @ ''.dat'' \<mapsto> []))"
    unfolding db_open_def
    using r fl by (simp add: db_alloc_quiet syscall_quiet Let_def o)
  moreover have "represents ?t Map.empty"
  proof (rule representsI)
    show "db_rep ?t empty_idx [] (\<lambda>_. [])"
      using wf_empty lay_empty by (simp add: db_rep_def init_hash_enc empty_idx_def quiet_def)
    show "locks ?t = no_locks" by (simp add: db_zero_def no_locks_def [symmetric])
    show "Map.empty = alookup (heap empty_idx) (datfile ?t) (\<lambda>_. [])" by (simp add: alookup_def fun_eq_iff)
  qed
  ultimately show ?thesis by (intro exI [of _ ?t] exI) (simp add: db_zero_def)
qed

lemma reopen:
  assumes "represents s m"
  shows "\<exists>db. db_open path {O_RDWR} [] (db_close path s fs) = (Inr (Some db), db_close path s fs) \<and> represents db m"
proof -
  from assms obtain a fl cs where R: "db_rep s a fl cs" and m: "m = alookup (heap a) (datfile s) cs"
    by (rule representsE)
  let ?db = "db_zero\<lparr>faults := [], nhash := NHASH_DEF, hashoff := HASH_OFF, db_name := path @ ''.dat'',
     idxfile := idxfile s, datfile := datfile s, canread := True, canwrite := True\<rparr>"
  let ?t = "?db\<lparr>idxpos := IDX_BASE, idxoff := int IDX_BASE\<rparr>"
  have q: "quiet ?db" by (simp add: quiet_def db_zero_def)
  have "runs (bnd (ret ()) (\<lambda>_. db_rewind)) ?db () ?t"
    by (simp, rule db_rewind_run) (simp_all add: quiet_def)
  then have r: "bnd (ret ()) (\<lambda>_. db_rewind) ?db = (Inr (), ?t)" by (simp add: runs_def)
  have ne: "path @ ''.idx'' \<noteq> path @ ''.dat''" by simp
  have "db_open path {O_RDWR} [] (db_close path s fs) = (Inr (Some ?t), db_close path s fs)"
    unfolding db_open_def
    using r ne by (simp add: db_alloc_quiet syscall_quiet Let_def k_open_def db_close_def)
  moreover have "represents ?t m"
  proof (rule representsI)
    show "db_rep ?t a fl cs" using R by (simp add: db_rep_def quiet_def)
    show "locks ?t = no_locks" by (simp add: db_zero_def no_locks_def)
    show "m = alookup (heap a) (datfile ?t) cs" using m by simp
  qed
  ultimately show ?thesis by blast
qed

end
