(* ===== verification/DbScan.thy ===== *)
theory DbScan
  imports DbApi
begin

section \<open>The database library: sequential reading\<close>

text \<open>
  \<open>db_rewind\<close> followed by calls of \<open>db_nextrec\<close> until it returns NULL (\<open>scan\<close>, the loop
  a client writes) delivers every record of the represented map once, in the order of the
  index file, skipping the blanked records of the free list. The result of \<open>scan\<close> is \<open>None\<close> when the given number
  of calls has not reached NULL.
\<close>

fun scan :: "nat \<Rightarrow> (string \<times> string) list option dbm" where
  "scan 0 = ret None"
| "scan (Suc n) = bnd db_nextrec (\<lambda>r. case r of
       None \<Rightarrow> ret (Some [])
     | Some p \<Rightarrow> bnd (scan n) (\<lambda>ps. ret (map_option ((#) p) ps)))"

declare next_loop.simps [simp del]

definition live :: "string \<Rightarrow> ent list \<Rightarrow> (string \<times> string) list" where
  "live dat es = map (\<lambda>e. (e_key e, ent_data dat e)) (filter (\<lambda>e. \<not> blank (e_key e)) es)"

abbreviation pos_of :: "ent list \<Rightarrow> nat" where
  "pos_of pre \<equiv> IDX_BASE + sum_list (map ent_size pre)"

lemma heap_at: "a_ents a = pre @ e # es \<Longrightarrow> heap a (pos_of pre) = Some e"
  by (simp add: heap_place place_append)

lemma next_loop_end:
  assumes "quiet s" "wf_idx a" "idxfile s = enc_idx a" "a_ents a = pre @ es" "idxpos s = pos_of pre" "length es < n"
    and "\<forall>e\<in>set es. blank (e_key e)"
  shows "\<exists>t. runs (next_loop n) s False t \<and> frame s t \<and> locks t = locks s \<and> idxpos t = pos_of (a_ents a)"
  using assms
proof (induction es arbitrary: pre s n)
  case Nil
  then obtain m where n: "n = Suc m" by (cases n) auto
  have "idxpos s = length (idxfile s)" using Nil.prems length_enc_idx [OF Nil.prems(2)] by simp
  then have r: "runs (db_readidx 0) s (-1) (s\<lparr>idxoff := int (idxpos s)\<rparr>)"
    unfolding runs_def by (rule readidx_eof [OF Nil.prems(1)])
  show ?case
    using Nil.prems by (intro exI [of _ "s\<lparr>idxoff := int (idxpos s)\<rparr>"])
      (simp add: n next_loop.simps r [THEN runs_step] frame_def)
next
  case (Cons e es)
  then obtain m where n: "n = Suc m" by (cases n) auto
  let ?s1 = "idx_loaded (pos_of pre) e s"
  have h: "heap a (pos_of pre) = Some e" using Cons.prems(4) by (rule heap_at)
  have we: "wf_ent e" using Cons.prems(2) h by (rule heap_wf)
  have r: "runs (db_readidx 0) s (int (e_next e)) ?s1"
    unfolding runs_def using Cons.prems(1-3) h by (rule readidx_ent) (simp add: Cons.prems(5))
  have k: "list_all (\<lambda>c. c = SPACE) (cstr (idxbuf ?s1))"
    using Cons.prems(7) loaded_idx_loaded [OF we, of "pos_of pre" s] by (simp add: loaded_def blank_def)
  have f: "frame s ?s1" "locks ?s1 = locks s" "idxpos ?s1 = pos_of (pre @ [e])"
    by (simp_all add: frame_def idx_loaded_def)
  obtain t where t: "runs (next_loop m) ?s1 False t" "frame ?s1 t" "locks t = locks ?s1" "idxpos t = pos_of (a_ents a)"
    using Cons.IH [where s = ?s1 and pre = "pre @ [e]" and n = m] Cons.prems f n by (auto simp: frame_def quiet_def)
  have "runs (next_loop n) s False t" using t(1) k by (simp add: n next_loop.simps r [THEN runs_step])
  then show ?case using t f frame_trans [OF f(1) t(2)] by (intro exI [of _ t]) simp
qed

lemma next_loop_hit:
  assumes "quiet s" "wf_idx a" "idxfile s = enc_idx a" "a_ents a = pre @ us @ e # vs" "idxpos s = pos_of pre" "length us < n"
    and "\<forall>u\<in>set us. blank (e_key u)" and "\<not> blank (e_key e)"
  shows "\<exists>t. runs (next_loop n) s True t \<and> frame s t \<and> locks t = locks s \<and> loaded t (pos_of (pre @ us)) e \<and>
    idxpos t = pos_of (pre @ us @ [e])"
  using assms
proof (induction us arbitrary: pre s n)
  case Nil
  then obtain m where n: "n = Suc m" by (cases n) auto
  let ?s1 = "idx_loaded (pos_of pre) e s"
  have h: "heap a (pos_of pre) = Some e" using Nil.prems(4) by (intro heap_at) simp
  have we: "wf_ent e" using Nil.prems(2) h by (rule heap_wf)
  have r: "runs (db_readidx 0) s (int (e_next e)) ?s1"
    unfolding runs_def using Nil.prems(1-3) h by (rule readidx_ent) (simp add: Nil.prems(5))
  have k: "\<not> list_all (\<lambda>c. c = SPACE) (cstr (idxbuf ?s1))"
    using Nil.prems(8) loaded_idx_loaded [OF we, of "pos_of pre" s] by (simp add: loaded_def blank_def)
  have "runs (next_loop n) s True ?s1" using k by (simp add: n next_loop.simps r [THEN runs_step])
  then show ?case using loaded_idx_loaded [OF we, of "pos_of pre" s]
    by (intro exI [of _ ?s1]) (simp add: frame_def idx_loaded_def)
next
  case (Cons u us)
  then obtain m where n: "n = Suc m" by (cases n) auto
  let ?s1 = "idx_loaded (pos_of pre) u s"
  have h: "heap a (pos_of pre) = Some u" using Cons.prems(4) by (intro heap_at) simp
  have we: "wf_ent u" using Cons.prems(2) h by (rule heap_wf)
  have r: "runs (db_readidx 0) s (int (e_next u)) ?s1"
    unfolding runs_def using Cons.prems(1-3) h by (rule readidx_ent) (simp add: Cons.prems(5))
  have k: "list_all (\<lambda>c. c = SPACE) (cstr (idxbuf ?s1))"
    using Cons.prems(7) loaded_idx_loaded [OF we, of "pos_of pre" s] by (simp add: loaded_def blank_def)
  have f: "frame s ?s1" "locks ?s1 = locks s" "idxpos ?s1 = pos_of (pre @ [u])"
    by (simp_all add: frame_def idx_loaded_def)
  obtain t where t: "runs (next_loop m) ?s1 True t" "frame ?s1 t" "locks t = locks ?s1"
    "loaded t (pos_of ((pre @ [u]) @ us)) e" "idxpos t = pos_of ((pre @ [u]) @ us @ [e])"
    using Cons.IH [where s = ?s1 and pre = "pre @ [u]" and n = m] Cons.prems f n by (auto simp: frame_def quiet_def)
  have "runs (next_loop n) s True t" using t(1) k by (simp add: n next_loop.simps r [THEN runs_step])
  then show ?case using t f frame_trans [OF f(1) t(2)] by (intro exI [of _ t]) simp
qed


subsection \<open>One call\<close>

lemma nextrec_prefix:
  assumes R: "db_rep s a fl cs" and r: "runs (next_loop (length (idxfile s) + 2)) (set_lock Idx (loc_off LFree) 1 (Some F_RDLCK) s) b u"
  shows "b = False \<Longrightarrow> quiet u \<Longrightarrow> runs db_nextrec s None (set_lock Idx (loc_off LFree) 1 None u)"
    and "b = True \<Longrightarrow> db_rep u a fl cs \<Longrightarrow> heap a x = Some e \<Longrightarrow> loaded u x e \<Longrightarrow>
      \<exists>t. runs db_nextrec s (Some (e_key e, ent_data (datfile u) e)) t \<and> db_rep t a fl cs \<and> idxpos t = idxpos u \<and>
        datfile t = datfile u \<and> locks t = lock_upd Idx (loc_off LFree) 1 None (locks u)"
proof -
  have lk: "runs (or_dump (readw_lock Idx FREE_OFF 1) m) s 0 (set_lock Idx (loc_off LFree) 1 (Some F_RDLCK) s)" for m
    using rep_quiet [OF R] by (simp add: runs_def FREE_OFF_loc setlk_or_dump)
  have un: "runs (or_dump (un_lock Idx FREE_OFF 1) m) v 0 (set_lock Idx (loc_off LFree) 1 None v)" if "quiet v" for m v
    using that by (simp add: runs_def FREE_OFF_loc setlk_or_dump)
  show "runs db_nextrec s None (set_lock Idx (loc_off LFree) 1 None u)" if b: "b = False" and q: "quiet u"
    unfolding db_nextrec_def
    using r b by (simp del: One_nat_def add_2_eq_Suc' add: lk [THEN runs_step] r [THEN runs_step] un [OF q, THEN runs_step])
  show "\<exists>t. runs db_nextrec s (Some (e_key e, ent_data (datfile u) e)) t \<and> db_rep t a fl cs \<and> idxpos t = idxpos u \<and>
        datfile t = datfile u \<and> locks t = lock_upd Idx (loc_off LFree) 1 None (locks u)"
    if b: "b = True" and Ru: "db_rep u a fl cs" and x: "heap a x = Some e" and ld: "loaded u x e"
  proof -
    note rd = readdat_run [OF Ru x ld]
    define v where "v = u\<lparr>datpos := e_off e + length (ent_data (datfile u) e) + 1, datbuf := ent_data (datfile u) e @ [NUL]\<rparr>"
    define w where "w = v\<lparr>cnt_nextrec := cnt_nextrec v + 1\<rparr>"
    have q: "quiet w" using rep_quiet [OF Ru] by (simp add: v_def w_def)
    have "cstr (idxbuf u) = e_key e" using ld by (simp add: loaded_def)
    then have "runs db_nextrec s (Some (e_key e, ent_data (datfile u) e)) (set_lock Idx (loc_off LFree) 1 None w)"
      unfolding db_nextrec_def
      using r b by (simp del: One_nat_def add_2_eq_Suc' add: lk [THEN runs_step] r [THEN runs_step]
          rd [folded v_def, THEN runs_step] w_def [symmetric] un [OF q, THEN runs_step])
    then show ?thesis using Ru by (intro exI [of _ "set_lock Idx (loc_off LFree) 1 None w"]) (simp add: w_def v_def)
  qed
qed

lemma ents_short: "wf_idx a \<Longrightarrow> idxfile s = enc_idx a \<Longrightarrow> a_ents a = pre @ es \<Longrightarrow> length es < length (idxfile s) + 2"
  using length_enc_idx [of a] sum_ent_size [of es] by simp

lemma nextrec_run:
  assumes R: "db_rep s a fl cs" and lk: "locks s = no_locks" and es: "a_ents a = pre @ es" and p: "idxpos s = pos_of pre"
  obtains (none) t where "\<forall>e\<in>set es. blank (e_key e)" "runs db_nextrec s None t" "db_rep t a fl cs" "locks t = no_locks"
      "datfile t = datfile s"
  | (hit) us e vs t where "es = us @ e # vs" "\<forall>u\<in>set us. blank (e_key u)" "\<not> blank (e_key e)"
      "runs db_nextrec s (Some (e_key e, ent_data (datfile s) e)) t" "db_rep t a fl cs" "locks t = no_locks"
      "datfile t = datfile s" "idxpos t = pos_of (pre @ us @ [e])"
proof -
  have wf: "wf_idx a" and f: "idxfile s = enc_idx a" and q: "quiet s" using R by (auto simp: db_rep_def)
  define s1 where "s1 = set_lock Idx (loc_off LFree) 1 (Some F_RDLCK) s"
  have s1: "quiet s1" "idxfile s1 = enc_idx a" "idxpos s1 = pos_of pre" "frame s s1"
    "locks s1 = lock_upd Idx (loc_off LFree) 1 (Some F_RDLCK) no_locks"
    using q f p lk by (simp_all add: s1_def frame_def)
  note sh = ents_short [OF wf f]
  show thesis
  proof (cases "find (\<lambda>e. \<not> blank (e_key e)) es")
    case None
    then have bl: "\<forall>e\<in>set es. blank (e_key e)" by (simp add: find_split_None)
    from next_loop_end [OF s1(1) wf s1(2) es s1(3) sh [OF es] bl] obtain u where
      u: "runs (next_loop (length (idxfile s) + 2)) s1 False u" "frame s1 u" "locks u = locks s1" by blast
    have Ru: "db_rep u a fl cs" using frame_rep [OF frame_trans [OF s1(4) u(2)] R] .
    note n = nextrec_prefix(1) [OF R u(1) [unfolded s1_def] refl rep_quiet [OF Ru]]
    show thesis
      by (rule none [OF bl n]) (use Ru u(2,3) s1(4,5) in \<open>simp_all add: frame_def\<close>)
  next
    case (Some e)
    from find_split_Some [OF this] obtain us vs where e: "es = us @ e # vs" "\<not> blank (e_key e)" "\<forall>u\<in>set us. blank (e_key u)" by blast
    have es': "a_ents a = pre @ us @ e # vs" using es e(1) by simp
    have h: "heap a (pos_of (pre @ us)) = Some e" by (rule heap_at [of a "pre @ us" e vs]) (simp add: es')
    have "length us < length (idxfile s) + 2" using sh [OF es] e(1) by simp
    from next_loop_hit [OF s1(1) wf s1(2) es' s1(3) this e(3,2)] obtain u where
      u: "runs (next_loop (length (idxfile s) + 2)) s1 True u" "frame s1 u" "locks u = locks s1"
      "loaded u (pos_of (pre @ us)) e" "idxpos u = pos_of (pre @ us @ [e])" by blast
    have Ru: "db_rep u a fl cs" using frame_rep [OF frame_trans [OF s1(4) u(2)] R] .
    have d: "datfile u = datfile s" using u(2) s1(4) by (simp add: frame_def)
    from nextrec_prefix(2) [OF R u(1) [unfolded s1_def] refl Ru h u(4)] obtain t where
      t: "runs db_nextrec s (Some (e_key e, ent_data (datfile s) e)) t" "db_rep t a fl cs" "idxpos t = idxpos u"
      "datfile t = datfile s" "locks t = lock_upd Idx (loc_off LFree) 1 None (locks u)" unfolding d by blast
    show thesis by (rule hit [OF e(1,3,2) t(1,2)]) (use t u s1(5) in simp_all)
  qed
qed

lemma live_blank: "\<forall>u\<in>set us. blank (e_key u) \<Longrightarrow> live dat (us @ es) = live dat es"
  by (simp add: live_def)

lemma scan_run:
  assumes "db_rep s a fl cs" and "locks s = no_locks" and "a_ents a = pre @ es" and "idxpos s = pos_of pre" and "length (live (datfile s) es) < n"
  shows "\<exists>t. runs (scan n) s (Some (live (datfile s) es)) t \<and> db_rep t a fl cs \<and> locks t = no_locks \<and> datfile t = datfile s"
  using assms
proof (induction n arbitrary: s pre es)
  case (Suc n)
  from Suc.prems(1-4) show ?case
  proof (cases rule: nextrec_run)
    case (none t)
    then have "live (datfile s) es = []" by (simp add: live_def)
    then show ?thesis using none by (intro exI [of _ t]) (simp add: runs_step)
  next
    case (hit us e vs t)
    have lv: "live (datfile s) es = (e_key e, ent_data (datfile s) e) # live (datfile s) vs"
      using hit(1-3) live_blank [of us] by (simp add: live_def)
    have "a_ents a = (pre @ us @ [e]) @ vs" "idxpos t = pos_of (pre @ us @ [e])" "length (live (datfile t) vs) < n"
      using Suc.prems(3,5) hit lv by simp_all
    from Suc.IH [OF hit(5,6) this] obtain u where
      u: "runs (scan n) t (Some (live (datfile s) vs)) u" "db_rep u a fl cs" "locks u = no_locks" "datfile u = datfile s"
      unfolding hit(7) by blast
    then show ?thesis
      using u lv by (intro exI [of _ u]) (simp add: hit(4) [THEN runs_step] u(1) [THEN runs_step])
  qed
qed simp

subsection \<open>The records delivered are the map\<close>

lemma live_in_chain:
  assumes L: "lay (heap a) fp tb dat fl cs" and x: "heap a x = Some e" and nb: "\<not> blank (e_key e)"
  shows "x \<in> set (cs (hash_of (e_key e)))"
proof -
  obtain i where i: "i < NHASH_DEF" "x \<in> set (cs i)" using lay_blank [OF L x] nb by blast
  then have "hash_of (key_at (heap a) x) = i" using lay_hash [OF L] by blast
  then show ?thesis using x i by (simp add: key_at_def)
qed

lemma live_unique:
  assumes L: "lay (heap a) fp tb dat fl cs" and "heap a x = Some e" "heap a y = Some f" "e_key e = e_key f" "\<not> blank (e_key e)"
  shows "x = y"
proof -
  let ?c = "cs (hash_of (e_key e))"
  have "x \<in> set ?c" "y \<in> set ?c" using live_in_chain [OF L] assms by (metis, metis)
  moreover have "key_at (heap a) x = key_at (heap a) y" using assms by (simp add: key_at_def)
  moreover have "inj_on (key_at (heap a)) (set ?c)" using lay_keys [OF L hash_of_less] by (simp add: distinct_map)
  ultimately show ?thesis by (simp add: inj_on_def)
qed

lemma live_place:
  "live dat es = map (\<lambda>(x, e). (e_key e, ent_data dat e)) (filter (\<lambda>(x, e). \<not> blank (e_key e)) (place b es))"
  by (induction es arbitrary: b) (auto simp: live_def)

lemma live_map:
  assumes L: "lay (heap a) fp tb dat fl cs" and nb: "\<And>k. alookup (heap a) dat cs k \<noteq> None \<Longrightarrow> \<not> blank k"
  shows "distinct (map fst (live dat (a_ents a)))" and "map_of (live dat (a_ents a)) = alookup (heap a) dat cs"
proof -
  let ?pl = "filter (\<lambda>(x, e). \<not> blank (e_key e)) (place IDX_BASE (a_ents a))"
  have pl: "(x, e) \<in> set ?pl \<longleftrightarrow> heap a x = Some e \<and> \<not> blank (e_key e)" for x e by (auto simp: heap_place)
  have "distinct (place IDX_BASE (a_ents a))" using distinct_place by (simp add: distinct_map)
  moreover have "inj_on (\<lambda>(x, e). e_key e) (set ?pl)"
  proof (rule inj_onI)
    fix p q assume p: "p \<in> set ?pl" and q: "q \<in> set ?pl" and eq: "(case p of (x, e) \<Rightarrow> e_key e) = (case q of (x, e) \<Rightarrow> e_key e)"
    obtain x e y f where pq: "p = (x, e)" "q = (y, f)" by (cases p, cases q)
    have h: "heap a x = Some e" "\<not> blank (e_key e)" "heap a y = Some f" using p q pl pq by blast+
    have "x = y" using live_unique [OF L h(1,3) _ h(2)] eq pq by simp
    then show "p = q" using h pq by simp
  qed
  moreover have fs: "map fst (live dat (a_ents a)) = map (\<lambda>(x, e). e_key e) ?pl"
    unfolding live_place [where b = IDX_BASE] by auto
  ultimately show d: "distinct (map fst (live dat (a_ents a)))" by (simp add: distinct_map)
  have mem: "(k, v) \<in> set (live dat (a_ents a)) \<longleftrightarrow> (\<exists>x e. heap a x = Some e \<and> \<not> blank k \<and> e_key e = k \<and> v = ent_data dat e)" for k v
    unfolding live_place [where b = IDX_BASE] by (auto simp: heap_place image_iff)
  show "map_of (live dat (a_ents a)) = alookup (heap a) dat cs"
  proof
    fix k
    from L show "map_of (live dat (a_ents a)) k = alookup (heap a) dat cs k"
    proof (cases rule: alookup_cases [where k = k])
      case none
      have "\<nexists>v. (k, v) \<in> set (live dat (a_ents a))"
        using none(1) live_in_chain [OF L] unfolding mem by (fastforce simp: key_at_def)
      then have "map_of (live dat (a_ents a)) k = None" by (meson map_of_SomeD not_Some_eq)
      then show ?thesis using none(2) by simp
    next
      case (some ys x zs e)
      have "\<not> blank k" using nb [of k] some(4) by simp
      then have "(k, ent_data dat e) \<in> set (live dat (a_ents a))" unfolding mem using some by blast
      then show ?thesis using some(4) d by simp
    qed
  qed
qed

lemma scan_rep:
  assumes "represents s m" and "\<And>k. k \<in> dom m \<Longrightarrow> \<not> blank k" and "card (dom m) < n"
  shows "\<exists>xs t. runs (bnd db_rewind (\<lambda>_. scan n)) s (Some xs) t \<and> distinct (map fst xs) \<and> map_of xs = m \<and> represents t m"
proof -
  from assms(1) obtain a fl cs where R: "db_rep s a fl cs" and lk: "locks s = no_locks"
    and m: "m = alookup (heap a) (datfile s) cs" and L: "lay (heap a) (a_free a) (a_tab a) (datfile s) fl cs" and q: "quiet s"
    by (rule representsE)
  define s1 where "s1 = s\<lparr>idxpos := IDX_BASE, idxoff := int IDX_BASE\<rparr>"
  have 1: "runs db_rewind s () s1" unfolding s1_def using q R by (intro db_rewind_run) (simp_all add: db_rep_def)
  have R1: "db_rep s1 a fl cs" "locks s1 = no_locks" "a_ents a = [] @ a_ents a" "idxpos s1 = pos_of []" "datfile s1 = datfile s"
    using R lk by (simp_all add: s1_def)
  have "\<And>k. alookup (heap a) (datfile s1) cs k \<noteq> None \<Longrightarrow> \<not> blank k" using assms(2) m R1(5) by auto
  note lm = live_map [OF L [folded R1(5)] this]
  have "length (live (datfile s1) (a_ents a)) = card (dom m)"
    using distinct_card [OF lm(1)] lm(2) m R1(5) by (metis dom_map_of_conv_image_fst length_map set_map)
  then obtain t where t: "runs (scan n) s1 (Some (live (datfile s1) (a_ents a))) t" "db_rep t a fl cs"
    "locks t = no_locks" "datfile t = datfile s1"
    using scan_run [OF R1(1-4)] assms(3) by metis
  have "represents t m" using t(2-4) m R1(5) by (intro representsI) simp_all
  then show ?thesis using 1 t(1) lm m R1(5) by (metis runs_bnd)
qed

end
