(* ===== verification/DbSafety.thy ===== *)
theory DbSafety
  imports DbScan
begin

section \<open>The database library: what holds whatever fails\<close>

text \<open>
  The lemmas of the earlier theories are about states whose system calls succeed. Here the
  state is arbitrary: any fault pattern, any (possibly corrupt) file contents, any access
  mode. Two interfaces carry the frame proofs through all functions of \<open>db.c\<close>: a relation
  that every function that does not write respects (\<open>file_frame\<close>), and one that every
  function respects because it also holds across a \<open>write\<close> (\<open>write_frame\<close>).
\<close>

definition same_files :: "db \<Rightarrow> db \<Rightarrow> bool" where
  "same_files s t \<longleftrightarrow> idxfile t = idxfile s \<and> datfile t = datfile s \<and> canwrite t = canwrite s"

locale file_frame =
  fixes R :: "db \<Rightarrow> db \<Rightarrow> bool"
  assumes R_trans: "R s t \<Longrightarrow> R t u \<Longrightarrow> R s u"
    and R_same: "same_files s t \<Longrightarrow> R s t"
begin

lemma R_refl: "reflp R" and R_transp: "transp R"
  by (auto simp: reflp_def R_same same_files_def intro: transpI R_trans)

lemmas keeps_basic = keeps_ret [OF R_refl] keeps_fail [OF R_refl] keeps_gets [OF R_refl] keeps_check [OF R_refl]

lemma keeps_seq: "keeps R m \<Longrightarrow> (\<And>x. keeps R (f x)) \<Longrightarrow> keeps R (bnd m f)"
  by (rule keeps_bnd [OF R_transp])

lemma keeps_mod: "(\<And>s. same_files s (f s)) \<Longrightarrow> keeps R (modify f)"
  by (rule keeps_modify) (rule R_same)

lemma keeps_if: "(b \<Longrightarrow> keeps R m) \<Longrightarrow> (\<not> b \<Longrightarrow> keeps R m') \<Longrightarrow> keeps R (if b then m else m')"
  by simp

lemma keeps_opt: "keeps R m \<Longrightarrow> (\<And>x. keeps R (f x)) \<Longrightarrow> keeps R (case r of None \<Rightarrow> m | Some x \<Rightarrow> f x)"
  by (simp split: option.split)

lemmas keeps_rules = keeps_basic keeps_seq keeps_if keeps_opt keeps_mod

lemma keeps_syscall: "keeps R syscall"
  unfolding keeps_def syscall_def by (auto split: list.split intro: R_same simp: same_files_def)

lemma keeps_lseek: "keeps R (k_lseek f off w)"
  unfolding k_lseek_def by (intro keeps_rules keeps_syscall) (cases f; simp add: same_files_def)

lemma keeps_read: "keeps R (k_read f n)"
  unfolding k_read_def by (intro keeps_rules keeps_syscall allI, clarsimp, intro conjI impI keeps_rules)
    (cases f; simp add: same_files_def)+

lemma keeps_setlk: "keeps R (k_setlk f off n t)"
  unfolding k_setlk_def by (intro keeps_rules keeps_syscall) (simp add: same_files_def set_lock_def)

lemma keeps_locks: "keeps R (readw_lock f off n)" "keeps R (writew_lock f off n)" "keeps R (un_lock f off n)"
  by (simp_all add: readw_lock_def writew_lock_def un_lock_def keeps_setlk)

lemma keeps_or_dump: "keeps R m \<Longrightarrow> keeps R (or_dump m msg)"
  unfolding or_dump_def by (intro keeps_rules) simp_all

lemmas keeps_calls = keeps_rules keeps_syscall keeps_lseek keeps_read keeps_locks keeps_or_dump

lemma keeps_readptr: "keeps R (db_readptr off)"
  unfolding db_readptr_def by (intro keeps_calls)

lemma keeps_sum: "(\<And>e. keeps R (f e)) \<Longrightarrow> (\<And>x. keeps R (g x)) \<Longrightarrow> keeps R (case r of Inl e \<Rightarrow> f e | Inr x \<Rightarrow> g x)"
  by (simp split: sum.split)

lemma keeps_split: "(\<And>x y. keeps R (f x y)) \<Longrightarrow> keeps R (case p of (x, y) \<Rightarrow> f x y)"
  by (simp split: prod.split)

lemma keeps_let: "keeps R (f x) \<Longrightarrow> keeps R (let y = x in f y)"
  by simp

lemmas keeps_more = keeps_calls keeps_sum keeps_split keeps_let keeps_readptr

lemma keeps_readidx: "keeps R (db_readidx off)"
  unfolding db_readidx_def by (intro keeps_more) (simp_all add: same_files_def)

lemma keeps_readdat: "keeps R db_readdat"
  unfolding db_readdat_def by (intro keeps_more) (simp_all add: same_files_def)

lemma keeps_find_loop: "keeps R (find_loop n k off)"
proof (induction n arbitrary: off)
  case 0
  show ?case unfolding find_loop.simps by (intro keeps_rules)
next
  case (Suc n)
  show ?case unfolding find_loop.simps by (intro keeps_more keeps_readidx Suc.IH) (simp_all add: same_files_def)
qed

lemma keeps_free_loop: "keeps R (free_loop n kl dl sv off)"
proof (induction n arbitrary: off sv)
  case 0
  show ?case unfolding free_loop.simps by (intro keeps_rules)
next
  case (Suc n)
  show ?case unfolding free_loop.simps by (intro keeps_more keeps_readidx Suc.IH)
qed

lemma keeps_next_loop: "keeps R (next_loop n)"
proof (induction n)
  case 0
  show ?case unfolding next_loop.simps by (intro keeps_rules)
next
  case (Suc n)
  show ?case unfolding next_loop.simps by (intro keeps_more keeps_readidx Suc.IH)
qed

lemma keeps_find_and_lock: "keeps R (db_find_and_lock k wl)"
  unfolding db_find_and_lock_def by (intro keeps_more keeps_find_loop) (simp_all add: same_files_def)

lemma keeps_unlock_chain: "keeps R (unlock_chain msg)"
  unfolding unlock_chain_def by (intro keeps_more)

lemma keeps_fetch: "keeps R (db_fetch k)"
  unfolding db_fetch_def
  by (intro keeps_more keeps_find_and_lock keeps_readdat keeps_unlock_chain) (simp_all add: same_files_def)

lemma keeps_rewind: "keeps R db_rewind"
  unfolding db_rewind_def by (intro keeps_more) (simp_all add: same_files_def)

lemma keeps_nextrec: "keeps R db_nextrec"
  unfolding db_nextrec_def
  by (intro keeps_more keeps_next_loop keeps_readdat) (simp_all add: same_files_def)

end

locale write_frame = file_frame +
  assumes R_write: "canwrite s \<Longrightarrow> R s (set_fcontent f (write_at (fcontent f s) p bs) s)"
begin

lemma keeps_write: "keeps R (k_write f bs)"
proof -
  have w: "R s (set_fpos f (fpos f s + length bs) (set_fcontent f (write_at (fcontent f s) (fpos f s) bs) s))"
    if "canwrite s" for s
  proof (rule R_trans [OF R_write [OF that, of f "fpos f s" bs]])
    show "R (set_fcontent f (write_at (fcontent f s) (fpos f s) bs) s)
      (set_fpos f (fpos f s + length bs) (set_fcontent f (write_at (fcontent f s) (fpos f s) bs) s))"
      by (rule R_same, cases f) (simp_all add: same_files_def)
  qed
  have sc: "same_files s t" if "syscall s = (r, t)" for s r t
    using that by (auto simp: syscall_def same_files_def split: list.splits)
  show ?thesis
    unfolding keeps_def
  proof
    fix s
    obtain r t where t: "syscall s = (r, t)" by fastforce
    have st: "R s t" using sc [OF t] by (rule R_same)
    obtain ok where r: "r = Inr ok" using t by (auto simp: syscall_def split: list.splits)
    show "R s (snd (k_write f bs s))"
      using st R_trans [OF st w [of t]]
      by (simp add: k_write_def bnd_def t [unfolded r] gets_run modify_run ret_run)
  qed
qed

lemmas keeps_all = keeps_more keeps_write keeps_readidx keeps_readdat keeps_find_and_lock keeps_unlock_chain

lemma keeps_writeptr: "keeps R (db_writeptr off p)"
  unfolding db_writeptr_def by (intro keeps_all)

lemma keeps_writedat: "keeps R (db_writedat d off w)"
  unfolding db_writedat_def by (intro keeps_all) (simp_all add: same_files_def)

lemma keeps_writeidx: "keeps R (db_writeidx k off w p)"
  unfolding db_writeidx_def by (intro keeps_all) (simp_all add: same_files_def)

lemmas keeps_writes = keeps_all keeps_writeptr keeps_writedat keeps_writeidx

lemma keeps_dodelete: "keeps R db_dodelete"
  unfolding db_dodelete_def by (intro keeps_writes) (simp_all add: same_files_def blank_bufs_def)

lemma keeps_findfree: "keeps R (db_findfree kl dl)"
  unfolding db_findfree_def by (intro keeps_writes keeps_free_loop)

lemma keeps_store_steps: "keeps R (store_append k d p)" "keeps R (store_reuse k d p)"
  unfolding store_append_def store_reuse_def by (intro keeps_writes)+

lemma keeps_delete: "keeps R (db_delete k)"
  unfolding db_delete_def by (intro keeps_writes keeps_dodelete) (simp_all add: same_files_def)

lemma keeps_store: "keeps R (db_store k d fl)"
  unfolding db_store_def Let_def
  by (intro keeps_writes keeps_dodelete keeps_findfree keeps_store_steps) (simp_all add: same_files_def)

end

interpretation unchanged: file_frame same_files
  by unfold_locales (auto simp: same_files_def)

definition readonly_same :: "db \<Rightarrow> db \<Rightarrow> bool" where
  "readonly_same s t \<longleftrightarrow> canwrite t = canwrite s \<and> (\<not> canwrite s \<longrightarrow> same_files s t)"

interpretation readonly: write_frame readonly_same
proof unfold_locales
  show "readonly_same s (set_fcontent f (write_at (fcontent f s) p bs) s)" if "canwrite s" for s f p bs
    using that by (cases f) (simp_all add: readonly_same_def)
qed (auto simp: readonly_same_def same_files_def)

end
