(* ===== verification/DbProps.thy ===== *)
theory DbProps
  imports DbSafety
begin

section \<open>The database library: properties\<close>

text \<open>
  The theorems the database library is judged by, each with a concrete instance. They rest
  on the interpretations \<open>apue_db\<close>, \<open>unchanged\<close> and \<open>readonly\<close> and on the representation
  lemmas of the component theories.
\<close>

subsection \<open>Errors\<close>

lemma writeidx_overflow:
  assumes "0 \<le> ptr" and "ptr \<le> PTR_MAX" and "1021 \<le> length key"
  shows "fst (db_writeidx key off w ptr s) = Inl HeapOverflow"
proof -
  have "1 \<le> length (dec_int (datoff s))" using length_dec_pos by (simp add: dec_int_def)
  moreover have "1 \<le> length (dec (datlen s))" by (rule length_dec_pos)
  ultimately have "\<not> length (record_body key (datoff s) (datlen s)) + 1 \<le> IDXLEN_MAX + 2"
    using assms(3) by (simp add: record_body_def IDXLEN_MAX_def)
  then show ?thesis
    using assms(1,2) by (simp add: db_writeidx_def bnd_def modify_run check_run gets_run)
qed

lemma bnd_fails: "fst (m s) = Inl e \<Longrightarrow> fst (bnd m f s) = Inl e"
  by (cases "m s") (auto simp: bnd_def)

lemma store_long_key:
  assumes "represents s m" and "m k = None" and "1021 \<le> length k" and "DATLEN_MIN \<le> length d + 1 \<and> length d + 1 \<le> DATLEN_MAX"
    and "flag = DB_INSERT \<or> flag = DB_STORE"
  shows "fst (db_store k d flag s) = Inl HeapOverflow"
proof -
  from assms(1) obtain a fl cs where R: "db_rep s a fl cs" and lk: "locks s = no_locks"
    and m: "m = alookup (heap a) (datfile s) cs" and L: "lay (heap a) (a_free a) (a_tab a) (datfile s) fl cs"
    by (rule representsE)
  define i where "i = hash_of k"
  have new: "\<forall>y\<in>set (cs i). key_at (heap a) y \<noteq> k"
    using L by (cases rule: alookup_cases [where k = k]) (use assms(2) m in \<open>auto simp: i_def\<close>)
  have fl: "\<not> (flag \<noteq> DB_INSERT \<and> flag \<noteq> DB_REPLACE \<and> flag \<noteq> DB_STORE)" "flag \<noteq> DB_REPLACE"
    using assms(5) by (auto simp: db_consts)
  let ?n = "loc_off (LTab i)"
  from find_and_lock_none [OF R i_def new, of True] obtain t where
    t: "runs (db_find_and_lock k True) s (-1) t" "frame s t" "chainoff t = int ?n" by (auto simp: runs_def)
  have Rt: "db_rep t a fl cs" using frame_rep [OF t(2) R] .
  have ok: "loc_ok a (LTab i)" using i_def hash_of_less by simp
  define t1 where "t1 = t\<lparr>idxpos := ?n + PTR_SZ\<rparr>"
  have 1: "runs (db_readptr (int ?n)) t (int (a_tab a ! i)) t1"
    using readptr_rep [OF Rt ok] by (simp add: t1_def)
  have R1: "db_rep t1 a fl cs" using Rt by (simp add: t1_def)
  have tab: "int (a_tab a ! i) \<le> PTR_MAX" using aget_le [OF _ ok] R by (simp add: db_rep_def PTR_LIM_def PTR_MAX_def)
  from R1 show ?thesis
  proof (cases rule: findfree_rep [where klen = "length k" and dlen = "length d + 1"])
    case (none u)
    have q: "quiet u" using frame_quiet [OF none(2)] rep_quiet [OF R1] .
    from writedat_append [OF q, of d, folded runs_def] obtain v where v: "runs (db_writedat d 0 SEEK_END) u () v" by blast
    have "fst (db_writeidx k 0 SEEK_END (int (a_tab a ! i)) v) = Inl HeapOverflow"
      by (rule writeidx_overflow) (use tab assms(3) in simp_all)
    then have "fst (store_append k d (int (a_tab a ! i)) u) = Inl HeapOverflow"
      unfolding store_append_def bnd_step [OF v] by (rule bnd_fails)
    then show ?thesis
      unfolding db_store_def Let_def
      using fl assms(4)
      by (auto simp del: One_nat_def simp add: bnd_step [OF t(1)] bnd_step [OF 1] bnd_step [OF none(1)] check_def bnd_assoc
          t(3) bnd_def [of "ret ()"] bnd_def [of "gets _"] ret_run gets_run bnd_fails)
  next
    case (some u a' fl' x e)
    have "wf_ent e" using some(2) heap_wf [of a' x e] by (simp add: reusable_def db_rep_def)
    then have "length (e_key e) < 1021" using dec_length_ge [of "e_off e"] dec_length_ge [of "e_len e"]
      by (simp add: wf_ent_def ent_body_def2 IDXLEN_MAX_def)
    then show ?thesis using some(3) assms(3) by (simp add: hit_def)
  qed
qed


text \<open>States reached by opening a new database, for the instances below.\<close>

lemma new_db_storable:
  assumes "datfile db = []" and "idxfile db = init_hash" and "db_okv k d"
  shows "storable db k d"
proof -
  have "length (idxfile db) = 967"
    unfolding assms(2) length_init by (simp add: IDX_BASE_def NHASH_DEF_def PTR_SZ_def)
  then have "db_room 0 db" using assms(1) by (simp add: db_room_def PTR_LIM_def)
  then show ?thesis using assms(3) by (rule storableI)
qed

lemmas okv_simps = db_okv_def pushable_def nonul_def SEP_def KEY_LIM_def DATLEN_MIN_def DATLEN_MAX_def

subsection \<open>The properties\<close>

text \<open>
  C1. A database opened new refines the map: any run of at most 9660 calls of
  \<open>db_store\<close> (with \<open>DB_STORE\<close>), \<open>db_fetch\<close> and \<open>db_delete\<close> returns what the same calls
  on a map return, byte for byte, and leaves files that represent the map's final value.
\<close>

theorem db_run_refines_map:
  assumes "\<forall>op\<in>set ops. op_ok db_okv op" and "length ops \<le> 9660"
  shows "\<exists>db fs' t. db_open path RW_NEW [] fs = (Inr (Some db), fs') \<and>
    runs (kv_run db_fetch (\<lambda>k d. db_store k d DB_STORE) db_delete ops) db (fst (kv_spec ops Map.empty)) t \<and>
    represents t (snd (kv_spec ops Map.empty))"
proof -
  obtain db fs' where o: "db_open path RW_NEW [] fs = (Inr (Some db), fs')" "represents db Map.empty"
    "datfile db = []" "idxfile db = init_hash" using open_new by blast
  have "length (idxfile db) = 967" unfolding o(4) length_init by (simp add: IDX_BASE_def NHASH_DEF_def PTR_SZ_def)
  then have "db_room (length ops) db"
    using assms(2) o(3) by (simp add: db_room_def PTR_SZ_def IDXLEN_SZ_def IDXLEN_MAX_def DATLEN_MAX_def PTR_LIM_def)
  then show ?thesis using apue_db.run_refines [OF o(2) _ assms(1)] o(1) by blast
qed

theorem db_run_refines_map_witness:
  "\<exists>db fs' t. db_open ''db'' RW_NEW [] Map.empty = (Inr (Some db), fs') \<and>
    runs (kv_run db_fetch (\<lambda>k d. db_store k d DB_STORE) db_delete
      [Store ''Alpha'' ''data1'', Fetch ''Alpha'', Delete ''Beta'']) db [Code 0, Got (Some ''data1''), Code (-1)] t"
  using db_run_refines_map [of "[Store ''Alpha'' ''data1'', Fetch ''Alpha'', Delete ''Beta'']" "''db''" Map.empty]
  by (auto simp: db_okv_def pushable_def nonul_def SEP_def KEY_LIM_def DATLEN_MIN_def DATLEN_MAX_def)

text \<open>
  C2. \<open>db_store\<close> with any of its three flags does what the manual page says: \<open>DB_INSERT\<close>
  returns 1 and changes nothing when the key exists, \<open>DB_REPLACE\<close> returns -1 and changes
  nothing when it does not, and otherwise the call returns 0 and the record is the new
  value; the locks are released and the files grow by at most one record.
\<close>

theorem db_store_refines:
  assumes "represents s m" and "storable s k d" and "flag \<in> {DB_INSERT, DB_REPLACE, DB_STORE}"
  shows "\<exists>t. runs (db_store k d flag) s (fst (store_spec flag m k d)) t \<and> represents t (snd (store_spec flag m k d)) \<and> grown s t"
  using assms by (rule store_rep)


theorem db_store_refines_witness:
  "\<exists>db t u. represents db Map.empty \<and> runs (db_store ''k'' ''one'' DB_INSERT) db 0 t \<and>
     represents t [''k'' \<mapsto> ''one''] \<and> runs (db_store ''k'' ''one'' DB_REPLACE) db (-1) u"
proof -
  obtain db fs' where o: "represents db Map.empty" "datfile db = []" "idxfile db = init_hash" using open_new by blast
  have st: "storable db ''k'' ''one''" by (rule new_db_storable [OF o(2,3)]) (simp add: okv_simps)
  show ?thesis
    using db_store_refines [OF o(1) st, of DB_INSERT] db_store_refines [OF o(1) st, of DB_REPLACE] o(1)
    by (auto simp: db_consts)
qed

text \<open>
  \<open>db_fetch\<close> returns the data stored under the key, or NULL when there is none; both
  files keep their bytes and every lock taken is released.
\<close>

theorem db_fetch_refines:
  assumes "represents s m"
  shows "\<exists>t. runs (db_fetch k) s (m k) t \<and> represents t m \<and> idxfile t = idxfile s \<and> datfile t = datfile s"
  using assms by (rule fetch_rep)

theorem db_fetch_refines_witness:
  "\<exists>db t. represents db Map.empty \<and> runs (db_fetch ''nokey'') db None t"
  using open_new db_fetch_refines [where k = "''nokey''" and m = Map.empty] by blast

text \<open>
  C5. \<open>db_delete\<close> removes the key's record and returns 0, or returns -1 when there is no such
  record; the other records keep their data and the files keep their size, because the
  record goes to the free list.
\<close>

theorem db_delete_refines:
  assumes "represents s m"
  shows "\<exists>t. runs (db_delete k) s (if m k = None then -1 else 0) t \<and> represents t (m(k := None)) \<and>
    length (idxfile t) = length (idxfile s) \<and> length (datfile t) = length (datfile s)"
  using assms by (rule delete_rep)

theorem db_delete_refines_witness:
  "\<exists>s t. represents s [''k'' \<mapsto> ''one''] \<and> runs (db_delete ''k'') s 0 t \<and> represents t Map.empty"
proof -
  obtain db fs' where o: "represents db Map.empty" "datfile db = []" "idxfile db = init_hash" using open_new by blast
  have "storable db ''k'' ''one''" by (rule new_db_storable [OF o(2,3)]) (simp add: okv_simps)
  from store_rep [OF o(1) this, of DB_INSERT] obtain s where s: "represents s [''k'' \<mapsto> ''one'']"
    by (auto simp: db_consts)
  have m: "[''k'' \<mapsto> ''one''](''k'' := None) = Map.empty" by simp
  obtain t where "runs (db_delete ''k'') s 0 t" "represents t Map.empty"
    using db_delete_refines [OF s, of "''k''"] unfolding m by auto
  then show ?thesis using s by blast
qed

text \<open>
  C3. Rewinding and calling \<open>db_nextrec\<close> until it returns NULL delivers every record
  exactly once, and NULL comes right after the last one: the loop needs one call more than there are
  records. No stored key may consist of blanks only (the library takes such a
  record for a deleted one).
\<close>

theorem db_scan_complete:
  assumes "represents s m" and "\<And>k. k \<in> dom m \<Longrightarrow> \<not> blank k" and "card (dom m) < n"
  shows "\<exists>xs t. runs (bnd db_rewind (\<lambda>_. scan n)) s (Some xs) t \<and> distinct (map fst xs) \<and> map_of xs = m \<and> represents t m"
  using assms by (rule scan_rep)

theorem db_scan_complete_witness:
  "\<exists>s xs t. represents s [''k'' \<mapsto> ''one''] \<and> runs (bnd db_rewind (\<lambda>_. scan 2)) s (Some xs) t \<and> map_of xs = [''k'' \<mapsto> ''one'']"
proof -
  obtain db fs' where o: "represents db Map.empty" "datfile db = []" "idxfile db = init_hash" using open_new by blast
  have "storable db ''k'' ''one''" by (rule new_db_storable [OF o(2,3)]) (simp add: okv_simps)
  from store_rep [OF o(1) this, of DB_INSERT] obtain t where t: "represents t [''k'' \<mapsto> ''one'']"
    by (auto simp: db_consts)
  have "\<not> blank k" if "k \<in> dom [''k'' \<mapsto> ''one'']" for k using that by (simp add: blank_def split: if_splits)
  from db_scan_complete [OF t this, of 2] show ?thesis using t by auto
qed



text \<open>
  A flag other than the three is refused with \<open>EINVAL\<close> before anything is read or
  locked, and data of a forbidden length stops the process before the files are touched.
\<close>

theorem db_store_refuses:
  "(flag \<notin> {DB_INSERT, DB_REPLACE, DB_STORE} \<longrightarrow> db_store k d flag s = (Inr (-1), s\<lparr>db_errno := Some EINVAL\<rparr>)) \<and>
   (flag \<in> {DB_INSERT, DB_REPLACE, DB_STORE} \<and> length d + 1 \<notin> {DATLEN_MIN..DATLEN_MAX} \<longrightarrow>
     db_store k d flag s = (Inl (ErrDump ''db_store: invalid data length''), s))"
  by (auto simp: db_store_def Let_def bnd_def modify_run check_run ret_run)

theorem db_store_refuses_witness:
  "db_store ''k'' ''one'' 7 db_zero = (Inr (-1), db_zero\<lparr>db_errno := Some EINVAL\<rparr>) \<and>
   db_store ''k'' [] DB_INSERT db_zero = (Inl (ErrDump ''db_store: invalid data length''), db_zero)"
  using db_store_refuses [of 7 "''k''" "''one''" db_zero] db_store_refuses [of DB_INSERT "''k''" "[]" db_zero]
  by (simp add: db_consts)

text \<open>
  A handle opened for reading only never changes a file, whatever the files hold and
  whatever system call fails.
\<close>

theorem db_readonly_safe:
  "readonly_same s (snd (db_store k d flag s)) \<and> readonly_same s (snd (db_delete k s)) \<and>
   readonly_same s (snd (db_fetch k s)) \<and> readonly_same s (snd (db_nextrec s))"
  using readonly.keeps_store readonly.keeps_delete readonly.keeps_fetch readonly.keeps_nextrec
  unfolding keeps_def by blast

text \<open>
  \<open>db_fetch\<close>, \<open>db_rewind\<close> and \<open>db_nextrec\<close> leave both files as they are, in every state and under every pattern of
  failing system calls.
\<close>

lemma reading_keeps_files:
  "same_files s (snd (db_fetch k s)) \<and> same_files s (snd (db_nextrec s)) \<and> same_files s (snd (db_rewind s))"
  using unchanged.keeps_fetch unchanged.keeps_nextrec unchanged.keeps_rewind unfolding keeps_def by blast

text \<open>
  An index record written at the end of the file by \<open>_db_writeidx\<close> is read back by
  \<open>_db_readidx\<close> with the same chain pointer, key, data offset and data length.
\<close>

theorem db_index_record_roundtrip:
  assumes "quiet s" and "wf_idx a" and "idxfile s = enc_idx a" and "nhash s = NHASH_DEF"
    and "datoff s = int off" and "datlen s = len" and "wf_ent \<lparr>e_next = p, e_key = k, e_off = off, e_len = len\<rparr>"
  shows "\<exists>t u. runs (db_writeidx k 0 SEEK_END (int p)) s () t \<and> runs (db_readidx (idxoff t)) t (int p) u \<and>
    cstr (idxbuf u) = k \<and> datoff u = int off \<and> datlen u = len \<and> ptrval u = int p"
proof -
  define e where "e = \<lparr>e_next = p, e_key = k, e_off = off, e_len = len\<rparr>"
  define a' where "a' = a\<lparr>a_ents := a_ents a @ [e]\<rparr>"
  have we: "wf_ent e" using assms(7) by (simp add: e_def)
  obtain t where t: "runs (db_writeidx k 0 SEEK_END (int p)) s () t" "quiet t" "idxfile t = enc_idx a'"
    "idxoff t = int (length (enc_idx a))"
    using writeidx_append [OF assms(1,3,4) e_def assms(5,6) we] assms(1) by (simp add: runs_def a'_def)
  have wf: "wf_idx a'" using assms(2) we by (auto simp: wf_idx_def a'_def)
  have h: "heap a' (length (enc_idx a)) = Some e" using heap_fresh(2) [OF assms(2) refl, of e] by (simp add: a'_def)
  have "db_readidx (idxoff t) t = (Inr (int p), idx_loaded (length (enc_idx a)) e t)"
    using readidx_ent [OF t(2) wf t(3) h] t(4) by (simp add: e_def)
  then show ?thesis
    using t(1) we by (intro exI [of _ t] exI [of _ "idx_loaded (length (enc_idx a)) e t"])
      (simp add: runs_def idx_loaded_def e_def)
qed

theorem db_index_record_roundtrip_witness:
  "\<exists>s t u. runs (db_writeidx ''Alpha'' 0 SEEK_END 0) s () t \<and> runs (db_readidx (idxoff t)) t 0 u \<and> cstr (idxbuf u) = ''Alpha''"
proof -
  let ?s = "db_zero\<lparr>idxfile := enc_idx empty_idx, canread := True, canwrite := True, nhash := NHASH_DEF, datoff := 0, datlen := 6\<rparr>"
  have "wf_ent \<lparr>e_next = 0, e_key = ''Alpha'', e_off = 0, e_len = 6\<rparr>"
    by (simp add: wf_ent_def ent_body_def2 nonul_def SEP_def IDXLEN_MIN_def IDXLEN_MAX_def DATLEN_MAX_def PTR_LIM_def dec.simps)
  from db_index_record_roundtrip [OF _ wf_empty(1) _ _ _ _ this, of ?s] show ?thesis
    by (fastforce simp: quiet_def db_zero_def)
qed

text \<open>
  C6. A key of 1021 bytes or more that is not in the database makes \<open>db_store\<close> write past
  the end of the index buffer: \<open>_db_writeidx\<close> formats the record before it checks its
  length.
\<close>

theorem db_store_long_key_overflows:
  assumes "represents s m" and "m k = None" and "1021 \<le> length k" and "DATLEN_MIN \<le> length d + 1 \<and> length d + 1 \<le> DATLEN_MAX"
    and "flag = DB_INSERT \<or> flag = DB_STORE"
  shows "fst (db_store k d flag s) = Inl HeapOverflow"
  using assms by (rule store_long_key)

theorem db_store_long_key_overflows_witness:
  "\<exists>s. represents s Map.empty \<and> fst (db_store (replicate 1021 CHR ''k'') ''one'' DB_INSERT s) = Inl HeapOverflow"
proof -
  obtain db where o: "represents db Map.empty" using open_new by blast
  have "fst (db_store (replicate 1021 CHR ''k'') ''one'' DB_INSERT db) = Inl HeapOverflow"
    by (rule db_store_long_key_overflows [OF o]) (simp_all add: DATLEN_MIN_def DATLEN_MAX_def)
  then show ?thesis using o by blast
qed

end
