(* ===== verification/PrintConf.thy ===== *)
theory PrintConf
  imports CString
begin

section \<open>The printer's configuration file (printer/util.c)\<close>

text \<open>
  \<open>scan_configfile\<close> reads the file line by line with \<open>fgets\<close> and splits each line with
  \<open>sscanf\<close> and the format \<open>%15s %511s\<close>. The file is its contents. Resolving a name to an
  address (\<open>getaddrinfo\<close>) is an argument: it gives the canonical name, if the address has
  one, or an error.
\<close>

definition MAXCFGLINE :: nat where "MAXCFGLINE = 512"
definition MAXKWLEN :: nat where "MAXKWLEN = 16"

definition fgets :: "nat \<Rightarrow> string \<Rightarrow> (string \<times> string) option" where
  "fgets n f =
     (if f = [] then None
      else let l = takeWhile (\<lambda>c. c \<noteq> NEWLINE) f;
               line = take (n - 1) (if length l < length f then l @ [NEWLINE] else l)
           in Some (line, drop (length line) f))"

definition read_word :: "nat \<Rightarrow> string \<Rightarrow> string \<times> string" where
  "read_word w s =
     (let s = dropWhile isspace s; k = takeWhile (\<lambda>c. \<not> isspace c) (take w s) in (k, drop (length k) s))"

definition sscanf_pair :: "string \<Rightarrow> (string \<times> string) option" where
  "sscanf_pair line =
     (let (k, r) = read_word (MAXKWLEN - 1) (cstr line)
      in if k = [] then None
         else let (v, r) = read_word (MAXCFGLINE - 1) r in if v = [] then None else Some (k, v))"

lemma fgets_shorter: "fgets n f = Some (l, r) \<Longrightarrow> 2 \<le> n \<Longrightarrow> length r < length f"
  by (cases f) (auto simp: fgets_def Let_def split: if_splits)

function scan_lines :: "string \<Rightarrow> string \<Rightarrow> string option" where
  "scan_lines keyword f =
     (case fgets MAXCFGLINE f of
        None \<Rightarrow> None
      | Some (line, rest) \<Rightarrow>
          (case sscanf_pair line of
             Some (keybuf, valbuf) \<Rightarrow> if keyword = keybuf then Some valbuf else scan_lines keyword rest
           | None \<Rightarrow> scan_lines keyword rest))"
  by pat_completeness auto
termination
  by (relation "measure (\<lambda>(k, f). length f)") (auto simp: MAXCFGLINE_def intro: fgets_shorter)

declare scan_lines.simps [simp del]

text \<open>The file, or that it could not be opened, which ends the program.\<close>

definition scan_configfile :: "string \<Rightarrow> string option \<Rightarrow> string option option" where
  "scan_configfile keyword file = (case file of None \<Rightarrow> None | Some f \<Rightarrow> Some (scan_lines keyword f))"

definition get_printserver :: "string option \<Rightarrow> string option option" where
  "get_printserver file = scan_configfile ''printserver'' file"

definition getaddrlist :: "(string \<Rightarrow> string \<Rightarrow> 'a option) \<Rightarrow> string \<Rightarrow> string \<Rightarrow> 'a option" where
  "getaddrlist getaddrinfo host service = getaddrinfo host service"

definition get_printaddr :: "(string \<Rightarrow> string \<Rightarrow> 'a option) \<Rightarrow> string option \<Rightarrow> 'a option option" where
  "get_printaddr getaddrinfo file =
     map_option (\<lambda>r. case r of None \<Rightarrow> None | Some p \<Rightarrow> getaddrlist getaddrinfo p ''ipp'') (scan_configfile ''printer'' file)"

subsection \<open>What a well-formed file gives\<close>

definition word_ok :: "string \<Rightarrow> bool" where
  "word_ok w \<longleftrightarrow> w \<noteq> [] \<and> nonul w \<and> (\<forall>c\<in>set w. \<not> isspace c)"

definition entry_ok :: "string \<times> string \<Rightarrow> bool" where
  "entry_ok e \<longleftrightarrow> word_ok (fst e) \<and> word_ok (snd e) \<and> length (fst e) < MAXKWLEN \<and> length (fst e) + length (snd e) + 2 < MAXCFGLINE"

definition print_conf :: "(string \<times> string) list \<Rightarrow> string" where
  "print_conf es = concat (map (\<lambda>(k, v). k @ SPACE # v @ [NEWLINE]) es)"

lemma isspace_SPACE [simp]: "isspace SPACE" "isspace NEWLINE"
  by (simp_all add: isspace_def)

lemma read_word_word:
  assumes "word_ok w" and "length w \<le> n" and "isspace c"
  shows "read_word n (w @ c # r) = (w, c # r)"
proof -
  have d: "dropWhile isspace (w @ c # r) = w @ c # r" using assms(1) by (cases w) (auto simp: word_ok_def)
  have "takeWhile (\<lambda>c. \<not> isspace c) (take n (w @ c # r)) = w"
    using assms by (cases "n - length w") (auto simp: word_ok_def takeWhile_tail)
  then show ?thesis by (simp add: read_word_def d Let_def)
qed

lemma read_word_skip: "isspace c \<Longrightarrow> read_word n (c # s) = read_word n s"
  by (simp add: read_word_def)

lemma sscanf_entry:
  assumes "entry_ok (k, v)"
  shows "sscanf_pair (k @ SPACE # v @ [NEWLINE]) = Some (k, v)"
proof -
  have n: "nonul (k @ SPACE # v @ [NEWLINE])" using assms by (simp add: entry_ok_def word_ok_def)
  have "read_word (MAXKWLEN - 1) (k @ SPACE # v @ [NEWLINE]) = (k, SPACE # v @ [NEWLINE])"
    by (rule read_word_word) (use assms in \<open>auto simp: entry_ok_def MAXKWLEN_def\<close>)
  moreover have "read_word (MAXCFGLINE - 1) (v @ NEWLINE # []) = (v, [NEWLINE])"
    by (rule read_word_word) (use assms in \<open>auto simp: entry_ok_def MAXCFGLINE_def\<close>)
  ultimately show ?thesis
    using assms by (simp add: sscanf_pair_def n read_word_skip entry_ok_def word_ok_def del: append.simps)
qed

lemma fgets_entry:
  assumes "entry_ok (k, v)"
  shows "fgets MAXCFGLINE (k @ SPACE # v @ NEWLINE # r) = Some (k @ SPACE # v @ [NEWLINE], r)"
proof -
  have "\<forall>c\<in>set (k @ SPACE # v). c \<noteq> NEWLINE" using assms by (auto simp: entry_ok_def word_ok_def)
  then have t: "takeWhile (\<lambda>c. c \<noteq> NEWLINE) ((k @ SPACE # v) @ NEWLINE # r) = k @ SPACE # v"
    by (subst takeWhile_append2) auto
  have "Suc (Suc (length v)) \<le> 511 - length k" using assms by (auto simp: entry_ok_def MAXCFGLINE_def)
  then show ?thesis
    using t assms by (simp add: fgets_def Let_def MAXCFGLINE_def)
qed

text \<open>
  A configuration file of one keyword and value a line gives for a keyword the value of the
  first line that has it, as long as keywords have at most 15 bytes and lines fit the line buffer.
\<close>

theorem scan_configfile_lookup:
  assumes "\<forall>e\<in>set es. entry_ok e"
  shows "scan_configfile kw (Some (print_conf es)) = Some (map_of es kw)"
proof -
  have "scan_lines kw (print_conf es) = map_of es kw"
    using assms
  proof (induction es)
    case Nil
    then show ?case by (simp add: print_conf_def scan_lines.simps fgets_def)
  next
    case (Cons e es)
    obtain k v where e: "e = (k, v)" by fastforce
    have "print_conf (e # es) = k @ SPACE # v @ NEWLINE # print_conf es" by (simp add: print_conf_def e)
    then show ?case using Cons e fgets_entry [of k v "print_conf es"] sscanf_entry [of k v]
      by (simp add: scan_lines.simps [of kw "k @ SPACE # v @ NEWLINE # print_conf es"])
  qed
  then show ?thesis by (simp add: scan_configfile_def)
qed

theorem scan_configfile_lookup_witness:
  "get_printserver (Some (print_conf [(''printer'', ''lj4''), (''printserver'', ''hal'')])) = Some (Some ''hal'')"
proof -
  have "\<forall>e\<in>set [(''printer'', ''lj4''), (''printserver'', ''hal'')]. entry_ok e"
    by (simp add: entry_ok_def word_ok_def MAXKWLEN_def MAXCFGLINE_def isspace_def)
  from scan_configfile_lookup [OF this, of "''printserver''"] show ?thesis by (simp add: get_printserver_def)
qed

end
