(* ===== verification/Dll.thy ===== *)
theory Dll
  imports Prelude
begin

section \<open>Doubly linked lists on a heap\<close>

text \<open>
  The print daemon and the thread examples keep their jobs in doubly linked lists of
  malloc'ed nodes. A heap maps the addresses of live nodes to their contents; a pointer is
  an address or NULL (\<open>None\<close>). Following a pointer to no live node is a crash: the
  operations return \<open>None\<close> then. \<open>dls\<close> describes a list segment, \<open>isq\<close> a queue with
  head and tail, and \<open>deque\<close> is the interface that both programs' queues implement.
\<close>

record 'a dnode =
  dnext :: "nat option"
  dprev :: "nat option"
  ddata :: 'a

type_synonym 'a dheap = "nat \<rightharpoonup> 'a dnode"

record 'a dq =
  dheap :: "'a dheap"
  qhead :: "nat option"
  qtail :: "nat option"

definition upd_node :: "nat \<Rightarrow> ('a dnode \<Rightarrow> 'a dnode) \<Rightarrow> 'a dheap \<Rightarrow> 'a dheap option" where
  "upd_node a f h = (case h a of None \<Rightarrow> None | Some n \<Rightarrow> Some (h(a \<mapsto> f n)))"

subsection \<open>Segments\<close>

text \<open>\<open>dls h p pr xs e\<close>: from pointer \<open>p\<close>, whose node points back to \<open>pr\<close>, the nodes \<open>xs\<close> lead to \<open>e\<close>.\<close>

fun dls :: "'a dheap \<Rightarrow> nat option \<Rightarrow> nat option \<Rightarrow> nat list \<Rightarrow> nat option \<Rightarrow> bool" where
  "dls h p pr [] e \<longleftrightarrow> p = e"
| "dls h p pr (x # xs) e \<longleftrightarrow> p = Some x \<and> (\<exists>n. h x = Some n \<and> dprev n = pr \<and> dls h (dnext n) (Some x) xs e)"

fun lastp :: "nat option \<Rightarrow> nat list \<Rightarrow> nat option" where
  "lastp pr [] = pr"
| "lastp pr (x # xs) = lastp (Some x) xs"

lemma lastp_append [simp]: "lastp pr (xs @ ys) = lastp (lastp pr xs) ys"
  by (induction xs arbitrary: pr) auto

lemma lastp_cases: "lastp pr xs = (if xs = [] then pr else Some (last xs))"
  by (induction xs arbitrary: pr) auto

lemma dls_append:
  "dls h p pr (xs @ ys) e \<longleftrightarrow> (\<exists>q. dls h p pr xs q \<and> dls h q (lastp pr xs) ys e)"
  by (induction xs arbitrary: p pr) auto

lemma dls_frame: "a \<notin> set xs \<Longrightarrow> dls (h(a := v)) p pr xs e = dls h p pr xs e"
  by (induction xs arbitrary: p pr) auto

lemma dls_dom: "dls h p pr xs e \<Longrightarrow> x \<in> set xs \<Longrightarrow> \<exists>n. h x = Some n"
  by (induction xs arbitrary: p pr) auto

lemma dls_data_cong:
  assumes "\<And>x. x \<in> set xs \<Longrightarrow> map_option (\<lambda>n. (dnext n, dprev n)) (h' x) = map_option (\<lambda>n. (dnext n, dprev n)) (h x)"
  shows "dls h' p pr xs e = dls h p pr xs e"
  using assms
proof (induction xs arbitrary: p pr)
  case (Cons x xs)
  then have "map_option (\<lambda>n. (dnext n, dprev n)) (h' x) = map_option (\<lambda>n. (dnext n, dprev n)) (h x)" by simp
  then show ?case using Cons by (cases "h x"; cases "h' x") auto
qed simp

text \<open>Redirecting the first node's back pointer and the last node's forward pointer.\<close>

lemma dls_set_prev:
  assumes "dls h (Some x) pr (x # xs) e" and "distinct (x # xs)" and "h x = Some n"
  shows "dls (h(x \<mapsto> n\<lparr>dprev := pr'\<rparr>)) (Some x) pr' (x # xs) e"
  using assms by (auto simp: dls_frame)

lemma dls_set_next:
  assumes "dls h p pr (xs @ [x]) e" and "distinct (xs @ [x])" and "h x = Some n"
  shows "dls (h(x \<mapsto> n\<lparr>dnext := e'\<rparr>)) p pr (xs @ [x]) e'"
  using assms by (auto simp: dls_append dls_frame)

subsection \<open>Queues\<close>

definition isq :: "'a dq \<Rightarrow> nat list \<Rightarrow> bool" where
  "isq q xs \<longleftrightarrow> distinct xs \<and> dls (dheap q) (qhead q) None xs None \<and> qtail q = lastp None xs"

definition data_at :: "'a dq \<Rightarrow> nat \<Rightarrow> 'a" where
  "data_at q a = ddata (the (dheap q a))"

text \<open>The data of the nodes \<open>xs\<close> does not change from \<open>q\<close> to \<open>q'\<close>.\<close>

definition same_data :: "'a dq \<Rightarrow> 'a dq \<Rightarrow> nat list \<Rightarrow> bool" where
  "same_data q q' xs \<longleftrightarrow> (\<forall>x\<in>set xs. data_at q' x = data_at q x)"

lemma isq_head: "isq q (x # xs) \<Longrightarrow> qhead q = Some x" and isq_empty: "isq q [] \<longleftrightarrow> qhead q = None \<and> qtail q = None"
  by (auto simp: isq_def)

lemma isq_head_None: "isq q xs \<Longrightarrow> qhead q = None \<longleftrightarrow> xs = []"
  by (cases xs) (auto simp: isq_def)

lemma isq_tail_None: "isq q xs \<Longrightarrow> qtail q = None \<longleftrightarrow> xs = []"
  by (cases xs) (auto simp: isq_def lastp_cases)

lemma isq_unique: "isq q xs \<Longrightarrow> isq q ys \<Longrightarrow> xs = ys"
proof -
  have "dls h p pr xs None \<Longrightarrow> dls h p pr ys None \<Longrightarrow> xs = ys" for h :: "'a dheap" and p pr
  proof (induction xs arbitrary: p pr ys)
    case (Cons x xs)
    then show ?case by (cases ys) auto
  qed (case_tac ys, auto)
  then show "isq q xs \<Longrightarrow> isq q ys \<Longrightarrow> xs = ys" by (auto simp: isq_def)
qed

text \<open>The three effects: a node in front, a node at the end, a node taken out.\<close>

lemma isq_push_front:
  assumes q: "isq q xs" and a: "a \<notin> set xs"
    and h': "dheap q' = (case xs of [] \<Rightarrow> (dheap q)(a \<mapsto> n)
               | x # _ \<Rightarrow> (dheap q)(a \<mapsto> n, x \<mapsto> (the (dheap q x))\<lparr>dprev := Some a\<rparr>))"
    and n: "dnext n = qhead q" "dprev n = None"
    and p': "qhead q' = Some a" "qtail q' = (if xs = [] then Some a else qtail q)"
  shows "isq q' (a # xs)"
proof (cases xs)
  case Nil
  then show ?thesis using q n p' h' by (simp add: isq_def)
next
  case (Cons x ys)
  from q Cons obtain m where m: "dheap q x = Some m" "dls (dheap q) (dnext m) (Some x) ys None" "distinct (x # ys)"
    by (auto simp: isq_def)
  have "x \<noteq> a" "a \<notin> set ys" using a Cons by auto
  then show ?thesis using q n p' h' m Cons by (auto simp: isq_def dls_frame lastp_cases)
qed

lemma isq_push_back:
  assumes q: "isq q xs" and a: "a \<notin> set xs"
    and h': "dheap q' = (if xs = [] then (dheap q)(a \<mapsto> n)
               else (dheap q)(a \<mapsto> n, last xs \<mapsto> (the (dheap q (last xs)))\<lparr>dnext := Some a\<rparr>))"
    and n: "dprev n = qtail q" "dnext n = None"
    and p': "qtail q' = Some a" "qhead q' = (if xs = [] then Some a else qhead q)"
  shows "isq q' (xs @ [a])"
proof (cases xs rule: rev_cases)
  case Nil
  then show ?thesis using q n p' h' by (simp add: isq_def)
next
  case (snoc ys x)
  from q have d: "dls (dheap q) (qhead q) None (ys @ [x]) None" "distinct (ys @ [x])" "qtail q = Some x"
    using snoc by (auto simp: isq_def)
  then obtain m where m: "dheap q x = Some m" by (auto simp: dls_append)
  have xa: "x \<noteq> a" "a \<notin> set (ys @ [x])" using a snoc by auto
  have "dls ((dheap q)(x \<mapsto> m\<lparr>dnext := Some a\<rparr>)) (qhead q) None (ys @ [x]) (Some a)"
    using d(1,2) m by (rule dls_set_next)
  then have "dls ((dheap q)(x \<mapsto> m\<lparr>dnext := Some a\<rparr>, a \<mapsto> n)) (qhead q) None (ys @ [x]) (Some a)"
    using xa(2) by (simp add: dls_frame)
  moreover have "dheap q' = (dheap q)(x \<mapsto> m\<lparr>dnext := Some a\<rparr>, a \<mapsto> n)"
    using h' snoc m xa(1) by (auto simp: fun_eq_iff)
  ultimately have "dls (dheap q') (qhead q') None ((ys @ [x]) @ [a]) None"
    unfolding dls_append using n p' d(3) snoc by (auto simp: lastp_cases)
  then show ?thesis using p' a d(2) snoc by (auto simp: isq_def)
qed

lemma isq_unlink:
  assumes q: "isq q (ys @ x # zs)" and x: "dheap q x = Some n"
    and h': "dheap q' = (\<lambda>a. if zs \<noteq> [] \<and> a = hd zs then Some ((the (dheap q a))\<lparr>dprev := lastp None ys\<rparr>)
               else if ys \<noteq> [] \<and> a = last ys then Some ((the (dheap q a))\<lparr>dnext := dnext n\<rparr>) else dheap q a)"
    and p': "qhead q' = (if ys = [] then dnext n else qhead q)" "qtail q' = (if zs = [] then lastp None ys else qtail q)"
  shows "isq q' (ys @ zs)"
proof -
  from q have d: "distinct (ys @ x # zs)" "dls (dheap q) (qhead q) None ys (Some x)"
    "dls (dheap q) (dnext n) (Some x) zs None" "qtail q = lastp None (ys @ x # zs)"
    using x by (auto simp: isq_def dls_append)
  have Z: "dls (dheap q') (dnext n) (lastp None ys) zs None"
  proof (cases zs)
    case Nil
    then show ?thesis using d(3) by simp
  next
    case (Cons z ws)
    then obtain m where m: "dheap q z = Some m" "dls (dheap q) (dnext m) (Some z) ws None" using d(3) by auto
    have eq: "map_option (\<lambda>n. (dnext n, dprev n)) (dheap q' w) = map_option (\<lambda>n. (dnext n, dprev n)) (dheap q w)"
      if "w \<in> set ws" for w
    proof -
      have "w \<noteq> z" "ys \<noteq> [] \<Longrightarrow> w \<noteq> last ys" using that d(1) Cons by (auto dest: last_in_set)
      then show ?thesis using h' Cons by (cases "ys = []") simp_all
    qed
    have "dls (dheap q') (dnext m) (Some z) ws None"
      using m(2) dls_data_cong [of ws "dheap q'" "dheap q", OF eq] by blast
    then show ?thesis using Cons h' m(1) d(3) by auto
  qed
  have Y: "dls (dheap q') (qhead q') None ys (dnext n)"
  proof (cases ys rule: rev_cases)
    case Nil
    then show ?thesis using p' by simp
  next
    case (snoc us y)
    obtain m where m: "dheap q y = Some m" using dls_dom [OF d(2)] snoc by auto
    have "dls ((dheap q)(y \<mapsto> m\<lparr>dnext := dnext n\<rparr>)) (qhead q) None (us @ [y]) (dnext n)"
      using d(1,2) snoc m by (intro dls_set_next) auto
    moreover have eq: "map_option (\<lambda>n. (dnext n, dprev n)) (dheap q' w)
        = map_option (\<lambda>n. (dnext n, dprev n)) (((dheap q)(y \<mapsto> m\<lparr>dnext := dnext n\<rparr>)) w)" if "w \<in> set (us @ [y])" for w
    proof -
      have "zs \<noteq> [] \<Longrightarrow> w \<noteq> hd zs" using that d(1) snoc by (cases zs) auto
      then show ?thesis using h' snoc m by (cases "zs = []") simp_all
    qed
    ultimately show ?thesis
      using dls_data_cong [of "us @ [y]" "dheap q'" "(dheap q)(y \<mapsto> m\<lparr>dnext := dnext n\<rparr>)", OF eq] p' snoc by simp
  qed
  have "qtail q' = lastp None (ys @ zs)" using p'(2) d(4) by (cases zs) auto
  then show ?thesis using Y Z d(1) by (auto simp: isq_def dls_append)
qed

subsection \<open>The interface\<close>

fun push_all :: "(nat \<Rightarrow> 's \<Rightarrow> 's option) \<Rightarrow> nat list \<Rightarrow> 's \<Rightarrow> 's option" where
  "push_all pb [] s = Some s"
| "push_all pb (x # xs) s = Option.bind (pb x s) (push_all pb xs)"

text \<open>
  \<open>Q s xs\<close>: the state \<open>s\<close> holds the queue \<open>xs\<close>. Adding at either end takes a node that is
  not in the queue; taking out takes one that is.
\<close>

locale deque =
  fixes Q :: "'s \<Rightarrow> nat list \<Rightarrow> bool"
    and node :: "'s \<Rightarrow> nat \<Rightarrow> bool"
    and push_front :: "nat \<Rightarrow> 's \<Rightarrow> 's option"
    and push_back :: "nat \<Rightarrow> 's \<Rightarrow> 's option"
    and unlink :: "nat \<Rightarrow> 's \<Rightarrow> 's option"
  assumes front_law: "Q s xs \<Longrightarrow> x \<notin> set xs \<Longrightarrow> node s x \<Longrightarrow> \<exists>t. push_front x s = Some t \<and> Q t (x # xs) \<and> node t = node s"
    and back_law: "Q s xs \<Longrightarrow> x \<notin> set xs \<Longrightarrow> node s x \<Longrightarrow> \<exists>t. push_back x s = Some t \<and> Q t (xs @ [x]) \<and> node t = node s"
    and unlink_law: "Q s (ys @ x # zs) \<Longrightarrow> \<exists>t. unlink x s = Some t \<and> Q t (ys @ zs) \<and> node t = node s"
    and unique: "Q s xs \<Longrightarrow> Q s ys \<Longrightarrow> xs = ys"
    and members: "Q s xs \<Longrightarrow> distinct xs \<and> (\<forall>x\<in>set xs. node s x)"
begin

lemma push_all_appends:
  assumes "Q s ys" and "distinct (ys @ xs)" and "\<forall>x\<in>set xs. node s x"
  shows "\<exists>t. push_all push_back xs s = Some t \<and> Q t (ys @ xs) \<and> node t = node s"
  using assms
proof (induction xs arbitrary: s ys)
  case (Cons x xs)
  obtain t where t: "push_back x s = Some t" "Q t (ys @ [x])" "node t = node s"
    using back_law [of s ys x] Cons.prems by auto
  obtain u where "push_all push_back xs t = Some u" "Q u ((ys @ [x]) @ xs)" "node u = node t"
    using Cons.IH [OF t(2)] Cons.prems t(3) by auto
  then show ?case using t by simp
qed simp

text \<open>Jobs come out in the order they were added.\<close>

lemma fifo:
  assumes "Q s []" and "distinct (x # xs)" and "\<forall>y\<in>set (x # xs). node s y"
  shows "\<exists>t u. push_all push_back (x # xs) s = Some t \<and> Q t (x # xs) \<and> unlink x t = Some u \<and> Q u xs"
proof -
  obtain t where t: "push_all push_back (x # xs) s = Some t" "Q t (x # xs)"
    using push_all_appends [OF assms(1), of "x # xs"] assms(2,3) by auto
  then show ?thesis using unlink_law [of t "[]" x xs] by auto
qed

text \<open>A job taken out of the front and put back is in front again.\<close>

lemma put_back:
  assumes "Q s (x # xs)"
  shows "\<exists>t u. unlink x s = Some t \<and> push_front x t = Some u \<and> Q u (x # xs)"
proof -
  obtain t where t: "unlink x s = Some t" "Q t xs" "node t = node s" using unlink_law [of s "[]" x xs] assms by auto
  moreover have "x \<notin> set xs" "node t x" using members [OF assms] t(3) by auto
  ultimately show ?thesis using front_law [of t xs x] by auto
qed

end

end
