(* ===== verification/JobQueue.thy ===== *)
theory JobQueue
  imports Dll "HOL-Library.Word"
begin

section \<open>Job queues (printer/printd.c, threads/rwlock.c)\<close>

text \<open>
  The print daemon's job list (\<open>add_job\<close>, \<open>replace_job\<close>, \<open>remove_job\<close>), the queue of the
  reader-writer lock example (\<open>queue_init\<close>, \<open>job_insert\<close>, \<open>job_append\<close>, \<open>job_remove\<close>,
  \<open>job_find\<close>) and the daemon's list of worker threads. Each function is the sequence of
  pointer assignments of the source, made while the function holds its lock.
\<close>

subsection \<open>The print daemon's jobs\<close>

record printreq =
  pr_size :: "32 word"
  pr_flags :: "32 word"
  usernm :: string
  jobnm :: string

record job =
  jobid :: "32 word"
  req :: printreq

type_synonym jobq = "job dq"

definition add_job :: "printreq \<Rightarrow> 32 word \<Rightarrow> nat \<Rightarrow> jobq \<Rightarrow> jobq option" where
  "add_job reqp jid jp q =
     (let h = (dheap q)(jp \<mapsto> \<lparr>dnext = None, dprev = qtail q, ddata = \<lparr>jobid = jid, req = reqp\<rparr>\<rparr>)
      in case qtail q of
           None \<Rightarrow> Some (q\<lparr>dheap := h, qhead := Some jp, qtail := Some jp\<rparr>)
         | Some t \<Rightarrow> map_option (\<lambda>h. q\<lparr>dheap := h, qtail := Some jp\<rparr>) (upd_node t (\<lambda>n. n\<lparr>dnext := Some jp\<rparr>) h))"

definition replace_job :: "nat \<Rightarrow> jobq \<Rightarrow> jobq option" where
  "replace_job jp q =
     Option.bind (upd_node jp (\<lambda>n. n\<lparr>dprev := None, dnext := qhead q\<rparr>) (dheap q)) (\<lambda>h.
       case qhead q of
         None \<Rightarrow> Some (q\<lparr>dheap := h, qtail := Some jp, qhead := Some jp\<rparr>)
       | Some hp \<Rightarrow> map_option (\<lambda>h. q\<lparr>dheap := h, qhead := Some jp\<rparr>) (upd_node hp (\<lambda>n. n\<lparr>dprev := Some jp\<rparr>) h))"

definition remove_job :: "nat \<Rightarrow> 'a dq \<Rightarrow> 'a dq option" where
  "remove_job target q =
     Option.bind (dheap q target) (\<lambda>n.
     Option.bind (case dnext n of
         Some x \<Rightarrow> map_option (\<lambda>h. q\<lparr>dheap := h\<rparr>) (upd_node x (\<lambda>m. m\<lparr>dprev := dprev n\<rparr>) (dheap q))
       | None \<Rightarrow> Some (q\<lparr>qtail := dprev n\<rparr>)) (\<lambda>q.
     Option.bind (dheap q target) (\<lambda>n.
     case dprev n of
         Some p \<Rightarrow> map_option (\<lambda>h. q\<lparr>dheap := h\<rparr>) (upd_node p (\<lambda>m. m\<lparr>dnext := dnext n\<rparr>) (dheap q))
       | None \<Rightarrow> Some (q\<lparr>qhead := dnext n\<rparr>))))"

lemma add_job_isq:
  assumes q: "isq q xs" and jp: "jp \<notin> set xs"
  shows "\<exists>q'. add_job r jid jp q = Some q' \<and> isq q' (xs @ [jp]) \<and> data_at q' jp = \<lparr>jobid = jid, req = r\<rparr> \<and>
    same_data q q' xs \<and> dom (dheap q') = insert jp (dom (dheap q))"
proof (cases xs rule: rev_cases)
  case Nil
  let ?n = "\<lparr>dnext = None, dprev = qtail q, ddata = \<lparr>jobid = jid, req = r\<rparr>\<rparr>"
  let ?q = "q\<lparr>dheap := (dheap q)(jp \<mapsto> ?n), qhead := Some jp, qtail := Some jp\<rparr>"
  have "add_job r jid jp q = Some ?q" using q Nil by (simp add: add_job_def isq_empty)
  moreover have "isq ?q (xs @ [jp])" using q jp Nil by (intro isq_push_back [OF q jp, of _ ?n]) (simp_all add: isq_empty)
  ultimately show ?thesis using Nil by (simp add: data_at_def same_data_def)
next
  case (snoc ys t)
  let ?n = "\<lparr>dnext = None, dprev = qtail q, ddata = \<lparr>jobid = jid, req = r\<rparr>\<rparr>"
  have t: "qtail q = Some t" using q snoc by (simp add: isq_def lastp_cases)
  obtain m where m: "dheap q t = Some m" using q snoc by (auto simp: isq_def dls_append)
  have ne: "t \<noteq> jp" using jp snoc by auto
  let ?q = "q\<lparr>dheap := (dheap q)(jp \<mapsto> ?n, t \<mapsto> m\<lparr>dnext := Some jp\<rparr>), qtail := Some jp\<rparr>"
  have "add_job r jid jp q = Some ?q" using t m ne by (simp add: add_job_def upd_node_def)
  moreover have "isq ?q (xs @ [jp])" using snoc m by (intro isq_push_back [OF q jp, of _ ?n]) simp_all
  moreover have "same_data q ?q xs" using jp m by (auto simp: same_data_def data_at_def)
  ultimately show ?thesis using ne m by (auto simp: data_at_def)
qed

lemma replace_job_isq:
  assumes q: "isq q xs" and jp: "jp \<notin> set xs" and n: "dheap q jp = Some n"
  shows "\<exists>q'. replace_job jp q = Some q' \<and> isq q' (jp # xs) \<and> same_data q q' (jp # xs) \<and> dom (dheap q') = dom (dheap q)"
proof (cases xs)
  case Nil
  let ?n = "n\<lparr>dprev := None, dnext := qhead q\<rparr>"
  let ?q = "q\<lparr>dheap := (dheap q)(jp \<mapsto> ?n), qtail := Some jp, qhead := Some jp\<rparr>"
  have "replace_job jp q = Some ?q" using q Nil n by (simp add: replace_job_def isq_empty upd_node_def)
  moreover have "isq ?q (jp # xs)" using q jp Nil by (intro isq_push_front [OF q jp, of _ ?n]) (simp_all add: isq_empty)
  ultimately show ?thesis using Nil n by (auto simp: data_at_def same_data_def)
next
  case (Cons x ys)
  let ?n = "n\<lparr>dprev := None, dnext := qhead q\<rparr>"
  have x: "qhead q = Some x" using q Cons by (simp add: isq_def)
  obtain m where m: "dheap q x = Some m" using q Cons by (auto simp: isq_def)
  have ne: "x \<noteq> jp" using jp Cons by auto
  let ?q = "q\<lparr>dheap := (dheap q)(jp \<mapsto> ?n, x \<mapsto> m\<lparr>dprev := Some jp\<rparr>), qhead := Some jp\<rparr>"
  have "replace_job jp q = Some ?q" using x m n ne by (simp add: replace_job_def upd_node_def)
  moreover have "isq ?q (jp # xs)" using Cons m by (intro isq_push_front [OF q jp, of _ ?n]) simp_all
  moreover have "same_data q ?q (jp # xs)" using jp m n by (auto simp: same_data_def data_at_def)
  ultimately show ?thesis using m n by auto
qed

lemma remove_job_isq:
  assumes q: "isq q (ys @ x # zs)"
  shows "\<exists>q'. remove_job x q = Some q' \<and> isq q' (ys @ zs) \<and> (\<forall>a. data_at q' a = data_at q a) \<and> dom (dheap q') = dom (dheap q)"
proof -
  obtain n where n: "dheap q x = Some n" using q by (auto simp: isq_def dls_append)
  have d: "distinct (ys @ x # zs)" using q by (simp add: isq_def)
  have nx: "dnext n = (case zs of [] \<Rightarrow> None | z # _ \<Rightarrow> Some z)" "dprev n = lastp None ys"
    using q n by (auto simp: isq_def dls_append split: list.split)
  have zn: "zs \<noteq> [] \<Longrightarrow> \<exists>m. dheap q (hd zs) = Some m" using q n by (cases zs) (auto simp: isq_def dls_append)
  have yn: "ys \<noteq> [] \<Longrightarrow> \<exists>m. dheap q (last ys) = Some m"
    using q dls_dom [of "dheap q" "qhead q" None ys _ "last ys"] by (auto simp: isq_def dls_append)
  have ne: "zs \<noteq> [] \<Longrightarrow> hd zs \<noteq> x" "ys \<noteq> [] \<Longrightarrow> last ys \<noteq> x" "zs \<noteq> [] \<Longrightarrow> ys \<noteq> [] \<Longrightarrow> hd zs \<noteq> last ys"
    using d by (cases zs; auto)+
  define h where "h = (\<lambda>a. if zs \<noteq> [] \<and> a = hd zs then Some ((the (dheap q a))\<lparr>dprev := lastp None ys\<rparr>)
               else if ys \<noteq> [] \<and> a = last ys then Some ((the (dheap q a))\<lparr>dnext := dnext n\<rparr>) else dheap q a)"
  let ?q = "q\<lparr>dheap := h, qhead := (if ys = [] then dnext n else qhead q), qtail := (if zs = [] then lastp None ys else qtail q)\<rparr>"
  have "remove_job x q = Some ?q"
  proof (cases zs)
    case Nil
    show ?thesis
    proof (cases "ys = []")
      case True
      then have "h = dheap q" using Nil by (simp add: h_def)
      then show ?thesis using True Nil n nx by (simp add: remove_job_def)
    next
      case False
      then obtain m where m: "dheap q (last ys) = Some m" using yn by blast
      have "h = (dheap q)(last ys \<mapsto> m\<lparr>dnext := dnext n\<rparr>)" using Nil False m by (auto simp: h_def)
      then show ?thesis using False Nil n nx m by (simp add: remove_job_def upd_node_def lastp_cases)
    qed
  next
    case (Cons z ws)
    then obtain k where k: "dheap q z = Some k" using zn by auto
    show ?thesis
    proof (cases "ys = []")
      case True
      then have "h = (dheap q)(z \<mapsto> k\<lparr>dprev := None\<rparr>)" using Cons k by (auto simp: h_def)
      then show ?thesis using True Cons n nx k ne by (simp add: remove_job_def upd_node_def)
    next
      case False
      then obtain m where m: "dheap q (last ys) = Some m" using yn by blast
      have "h = (dheap q)(z \<mapsto> k\<lparr>dprev := Some (last ys)\<rparr>, last ys \<mapsto> m\<lparr>dnext := dnext n\<rparr>)"
        using Cons False m k ne by (auto simp: h_def lastp_cases)
      then show ?thesis using False Cons n nx k m ne by (simp add: remove_job_def upd_node_def lastp_cases)
    qed
  qed
  moreover have "isq ?q (ys @ zs)" by (rule isq_unlink [OF q n]) (simp_all add: h_def)
  moreover have "data_at ?q a = data_at q a" for a by (simp add: data_at_def h_def)
  moreover have "a \<in> dom h \<longleftrightarrow> a \<in> dom (dheap q)" for a using zn yn by (auto simp: h_def split: if_splits)
  then have "dom h = dom (dheap q)" by blast
  ultimately show ?thesis by auto
qed


text \<open>
  A live node is one that \<open>malloc\<close> returned; adding a job to the end fills a live node and
  links it in.
\<close>

definition requeue :: "nat \<Rightarrow> jobq \<Rightarrow> jobq option" where
  "requeue x q = add_job (req (data_at q x)) (jobid (data_at q x)) x q"

interpretation printd_jobs: deque isq "\<lambda>q a. a \<in> dom (dheap q)" replace_job requeue remove_job
proof unfold_locales
  fix q :: jobq and xs x
  assume q: "isq q xs" "x \<notin> set xs" "x \<in> dom (dheap q)"
  show "\<exists>t. replace_job x q = Some t \<and> isq t (x # xs) \<and> (\<lambda>a. a \<in> dom (dheap t)) = (\<lambda>a. a \<in> dom (dheap q))"
    using replace_job_isq [OF q(1,2)] q(3) by auto
  show "\<exists>t. requeue x q = Some t \<and> isq t (xs @ [x]) \<and> (\<lambda>a. a \<in> dom (dheap t)) = (\<lambda>a. a \<in> dom (dheap q))"
    using add_job_isq [OF q(1,2), of "req (data_at q x)" "jobid (data_at q x)"] insert_absorb [OF q(3)]
    unfolding requeue_def by metis
next
  fix q :: jobq and ys x zs
  assume "isq q (ys @ x # zs)"
  then show "\<exists>t. remove_job x q = Some t \<and> isq t (ys @ zs) \<and> (\<lambda>a. a \<in> dom (dheap t)) = (\<lambda>a. a \<in> dom (dheap q))"
    using remove_job_isq by fastforce
next
  fix q :: jobq and xs ys
  show "xs = ys" if "isq q xs" "isq q ys" using that by (rule isq_unique)
  show "distinct xs \<and> (\<forall>x\<in>set xs. x \<in> dom (dheap q))" if "isq q xs"
    using that dls_dom by (fastforce simp: isq_def)
qed

subsection \<open>The reader-writer lock example\<close>

type_synonym rwq = "nat dq"

definition queue_init :: "int \<Rightarrow> rwq \<Rightarrow> int \<times> rwq" where
  "queue_init rwlock_err q =
     (let q = q\<lparr>qhead := None, qtail := None\<rparr>
      in if rwlock_err \<noteq> 0 then (rwlock_err, q) else (0, q))"

definition job_insert :: "nat \<Rightarrow> 'a dq \<Rightarrow> 'a dq option" where
  "job_insert jp q =
     Option.bind (upd_node jp (\<lambda>n. n\<lparr>dnext := qhead q, dprev := None\<rparr>) (dheap q)) (\<lambda>h.
     case qhead q of
       Some hp \<Rightarrow> map_option (\<lambda>h. q\<lparr>dheap := h, qhead := Some jp\<rparr>) (upd_node hp (\<lambda>n. n\<lparr>dprev := Some jp\<rparr>) h)
     | None \<Rightarrow> Some (q\<lparr>dheap := h, qtail := Some jp, qhead := Some jp\<rparr>))"

definition job_append :: "nat \<Rightarrow> 'a dq \<Rightarrow> 'a dq option" where
  "job_append jp q =
     Option.bind (upd_node jp (\<lambda>n. n\<lparr>dnext := None, dprev := qtail q\<rparr>) (dheap q)) (\<lambda>h.
     case qtail q of
       Some tp \<Rightarrow> map_option (\<lambda>h. q\<lparr>dheap := h, qtail := Some jp\<rparr>) (upd_node tp (\<lambda>n. n\<lparr>dnext := Some jp\<rparr>) h)
     | None \<Rightarrow> Some (q\<lparr>dheap := h, qhead := Some jp, qtail := Some jp\<rparr>))"

definition upd_ptr :: "nat option \<Rightarrow> ('a dnode \<Rightarrow> 'a dnode) \<Rightarrow> 'a dheap \<Rightarrow> 'a dheap option" where
  "upd_ptr p f h = Option.bind p (\<lambda>a. upd_node a f h)"

definition job_remove :: "nat \<Rightarrow> 'a dq \<Rightarrow> 'a dq option" where
  "job_remove jp q =
     Option.bind (dheap q jp) (\<lambda>n.
     if Some jp = qhead q then
       (let q = q\<lparr>qhead := dnext n\<rparr>
        in if qtail q = Some jp then Some (q\<lparr>qtail := None\<rparr>)
           else map_option (\<lambda>h. q\<lparr>dheap := h\<rparr>) (upd_ptr (dnext n) (\<lambda>m. m\<lparr>dprev := dprev n\<rparr>) (dheap q)))
     else if Some jp = qtail q then
       (let q = q\<lparr>qtail := dprev n\<rparr>
        in map_option (\<lambda>h. q\<lparr>dheap := h\<rparr>) (upd_ptr (dprev n) (\<lambda>m. m\<lparr>dnext := dnext n\<rparr>) (dheap q)))
     else
       Option.bind (upd_ptr (dprev n) (\<lambda>m. m\<lparr>dnext := dnext n\<rparr>) (dheap q)) (\<lambda>h.
       Option.bind (h jp) (\<lambda>n.
       map_option (\<lambda>h. q\<lparr>dheap := h\<rparr>) (upd_ptr (dnext n) (\<lambda>m. m\<lparr>dprev := dprev n\<rparr>) h))))"

text \<open>
  The search follows the next pointers, comparing the thread of each job (\<open>key\<close> of its data); it is \<open>None\<close> when it crashes or never ends, and the
  locked search is skipped when the lock cannot be taken.
\<close>

partial_function (option) find_from :: "('a \<Rightarrow> nat) \<Rightarrow> 'a dheap \<Rightarrow> nat option \<Rightarrow> nat \<Rightarrow> nat option option" where
  "find_from key h p tid =
     (case p of
        None \<Rightarrow> Some None
      | Some a \<Rightarrow> Option.bind (h a) (\<lambda>n. if key (ddata n) = tid then Some (Some a) else find_from key h (dnext n) tid))"

definition job_find :: "int \<Rightarrow> rwq \<Rightarrow> nat \<Rightarrow> nat option option" where
  "job_find rdlock_err q tid = (if rdlock_err \<noteq> 0 then Some None else find_from (\<lambda>d. d) (dheap q) (qhead q) tid)"

lemma job_insert_isq:
  assumes q: "isq q xs" and jp: "jp \<notin> set xs" and n: "dheap q jp = Some n"
  shows "\<exists>q'. job_insert jp q = Some q' \<and> isq q' (jp # xs) \<and> same_data q q' (jp # xs) \<and> dom (dheap q') = dom (dheap q)"
proof (cases xs)
  case Nil
  let ?n = "n\<lparr>dnext := qhead q, dprev := None\<rparr>"
  let ?q = "q\<lparr>dheap := (dheap q)(jp \<mapsto> ?n), qtail := Some jp, qhead := Some jp\<rparr>"
  have "job_insert jp q = Some ?q" using q Nil n by (simp add: job_insert_def isq_empty upd_node_def)
  moreover have "isq ?q (jp # xs)" using q jp Nil by (intro isq_push_front [OF q jp, of _ ?n]) (simp_all add: isq_empty)
  ultimately show ?thesis using Nil n by (auto simp: data_at_def same_data_def)
next
  case (Cons x ys)
  let ?n = "n\<lparr>dnext := qhead q, dprev := None\<rparr>"
  have x: "qhead q = Some x" using q Cons by (simp add: isq_def)
  obtain m where m: "dheap q x = Some m" using q Cons by (auto simp: isq_def)
  have ne: "x \<noteq> jp" using jp Cons by auto
  let ?q = "q\<lparr>dheap := (dheap q)(jp \<mapsto> ?n, x \<mapsto> m\<lparr>dprev := Some jp\<rparr>), qhead := Some jp\<rparr>"
  have "job_insert jp q = Some ?q" using x m n ne by (simp add: job_insert_def upd_node_def)
  moreover have "isq ?q (jp # xs)" using Cons m by (intro isq_push_front [OF q jp, of _ ?n]) simp_all
  moreover have "same_data q ?q (jp # xs)" using jp m n by (auto simp: same_data_def data_at_def)
  ultimately show ?thesis using m n by auto
qed

lemma job_append_isq:
  assumes q: "isq q xs" and jp: "jp \<notin> set xs" and n: "dheap q jp = Some n"
  shows "\<exists>q'. job_append jp q = Some q' \<and> isq q' (xs @ [jp]) \<and> same_data q q' (jp # xs) \<and> dom (dheap q') = dom (dheap q)"
proof (cases xs rule: rev_cases)
  case Nil
  let ?n = "n\<lparr>dnext := None, dprev := qtail q\<rparr>"
  let ?q = "q\<lparr>dheap := (dheap q)(jp \<mapsto> ?n), qhead := Some jp, qtail := Some jp\<rparr>"
  have "job_append jp q = Some ?q" using q Nil n by (simp add: job_append_def isq_empty upd_node_def)
  moreover have "isq ?q (xs @ [jp])" using q jp Nil by (intro isq_push_back [OF q jp, of _ ?n]) (simp_all add: isq_empty)
  ultimately show ?thesis using Nil n by (auto simp: data_at_def same_data_def)
next
  case (snoc ys t)
  let ?n = "n\<lparr>dnext := None, dprev := qtail q\<rparr>"
  have t: "qtail q = Some t" using q snoc by (simp add: isq_def lastp_cases)
  obtain m where m: "dheap q t = Some m" using q snoc by (auto simp: isq_def dls_append)
  have ne: "t \<noteq> jp" using jp snoc by auto
  let ?q = "q\<lparr>dheap := (dheap q)(jp \<mapsto> ?n, t \<mapsto> m\<lparr>dnext := Some jp\<rparr>), qtail := Some jp\<rparr>"
  have "job_append jp q = Some ?q" using t m n ne by (simp add: job_append_def upd_node_def)
  moreover have "isq ?q (xs @ [jp])" using snoc m by (intro isq_push_back [OF q jp, of _ ?n]) simp_all
  moreover have "same_data q ?q (jp # xs)" using jp m n by (auto simp: same_data_def data_at_def)
  ultimately show ?thesis using m n by auto
qed

text \<open>The four cases of \<open>job_remove\<close> have the effect of \<open>remove_job\<close> on a queue.\<close>

lemma job_remove_eq:
  assumes q: "isq q (ys @ x # zs)"
  shows "job_remove x q = remove_job x q"
proof -
  obtain n where n: "dheap q x = Some n" using q by (auto simp: isq_def dls_append)
  have d: "distinct (ys @ x # zs)" using q by (simp add: isq_def)
  have nx: "dnext n = (case zs of [] \<Rightarrow> None | z # _ \<Rightarrow> Some z)" "dprev n = lastp None ys"
    using q n by (auto simp: isq_def dls_append split: list.split)
  have ht: "qtail q = lastp None (ys @ x # zs)" "qhead q = (case ys of [] \<Rightarrow> Some x | y # _ \<Rightarrow> Some y)"
    using q by (auto simp: isq_def split: list.split)
  have yn: "ys \<noteq> [] \<Longrightarrow> \<exists>m. dheap q (last ys) = Some m"
    using q dls_dom [of "dheap q" "qhead q" None ys _ "last ys"] by (auto simp: isq_def dls_append)
  have zn: "zs \<noteq> [] \<Longrightarrow> \<exists>m. dheap q (hd zs) = Some m" using q n by (cases zs) (auto simp: isq_def dls_append)
  have hx: "qhead q = Some x \<longleftrightarrow> ys = []" using ht(2) d by (cases ys) auto
  have tx: "qtail q = Some x \<longleftrightarrow> zs = []" using ht(1) d by (cases zs) (auto simp: lastp_cases)
  have ne: "zs \<noteq> [] \<Longrightarrow> hd zs \<noteq> x" "ys \<noteq> [] \<Longrightarrow> last ys \<noteq> x" "zs \<noteq> [] \<Longrightarrow> ys \<noteq> [] \<Longrightarrow> hd zs \<noteq> last ys"
    using d by (cases zs; auto)+
  show ?thesis
  proof (cases "ys = []")
    case True
    then show ?thesis
      using n nx hx tx zn ne(1) by (cases zs) (auto simp: job_remove_def remove_job_def upd_ptr_def upd_node_def)
  next
    case False
    then obtain m where m: "dheap q (last ys) = Some m" using yn by blast
    have lp: "lastp None ys = Some (last ys)" using False by (simp add: lastp_cases)
    show ?thesis
    proof (cases zs)
      case Nil
      then show ?thesis
        using False n nx hx tx m lp ne(2) by (simp add: job_remove_def remove_job_def upd_ptr_def upd_node_def eq_commute [of "Some x"])
    next
      case (Cons z ws)
      then obtain k where k: "dheap q z = Some k" using zn by auto
      show ?thesis
        using False Cons n nx hx tx m k lp ne
        by (simp add: job_remove_def remove_job_def upd_ptr_def upd_node_def eq_commute [of "Some x"] fun_upd_twist)
    qed
  qed
qed

lemma job_remove_isq:
  assumes q: "isq q (ys @ x # zs)"
  shows "\<exists>q'. job_remove x q = Some q' \<and> isq q' (ys @ zs) \<and> (\<forall>a. data_at q' a = data_at q a) \<and> dom (dheap q') = dom (dheap q)"
  unfolding job_remove_eq [OF q] by (rule remove_job_isq [OF q])

interpretation rwlock_jobs: deque isq "\<lambda>q a. a \<in> dom (dheap q)" job_insert job_append job_remove
proof unfold_locales
  fix q :: "'a dq" and xs x
  assume q: "isq q xs" "x \<notin> set xs" "x \<in> dom (dheap q)"
  show "\<exists>t. job_insert x q = Some t \<and> isq t (x # xs) \<and> (\<lambda>a. a \<in> dom (dheap t)) = (\<lambda>a. a \<in> dom (dheap q))"
    using job_insert_isq [OF q(1,2)] q(3) by auto
  show "\<exists>t. job_append x q = Some t \<and> isq t (xs @ [x]) \<and> (\<lambda>a. a \<in> dom (dheap t)) = (\<lambda>a. a \<in> dom (dheap q))"
    using job_append_isq [OF q(1,2)] q(3) by auto
next
  fix q :: "'a dq" and ys x zs
  assume "isq q (ys @ x # zs)"
  then show "\<exists>t. job_remove x q = Some t \<and> isq t (ys @ zs) \<and> (\<lambda>a. a \<in> dom (dheap t)) = (\<lambda>a. a \<in> dom (dheap q))"
    using job_remove_isq by fastforce
next
  fix q :: "'a dq" and xs ys
  show "xs = ys" if "isq q xs" "isq q ys" using that by (rule isq_unique)
  show "distinct xs \<and> (\<forall>x\<in>set xs. x \<in> dom (dheap q))" if "isq q xs"
    using that dls_dom by (fastforce simp: isq_def)
qed

lemma find_from_dls:
  "dls h p pr xs None \<Longrightarrow> find_from key h p tid = Some (find (\<lambda>a. key (ddata (the (h a))) = tid) xs)"
proof (induction xs arbitrary: p pr)
  case Nil
  then show ?case by (simp add: find_from.simps)
next
  case (Cons x xs)
  then show ?case by (subst find_from.simps) auto
qed


subsection \<open>The daemon's worker threads\<close>

record worker =
  w_tid :: nat
  w_sockfd :: int

record wlist =
  wheap :: "worker dheap"
  workers :: "nat option"

text \<open>\<open>malloc\<close> is the address it returned; the result is \<open>False\<close> when the thread exits instead.\<close>

definition add_worker :: "nat \<Rightarrow> int \<Rightarrow> nat option \<Rightarrow> wlist \<Rightarrow> (bool \<times> wlist) option" where
  "add_worker tid sockfd malloc s =
     (case malloc of
        None \<Rightarrow> Some (False, s)
      | Some wtp \<Rightarrow>
          let h = (wheap s)(wtp \<mapsto> \<lparr>dnext = workers s, dprev = None, ddata = \<lparr>w_tid = tid, w_sockfd = sockfd\<rparr>\<rparr>)
          in case workers s of
               None \<Rightarrow> Some (True, s\<lparr>wheap := h, workers := Some wtp\<rparr>)
             | Some w \<Rightarrow> map_option (\<lambda>h. (True, s\<lparr>wheap := h\<rparr>)) (upd_node w (\<lambda>n. n\<lparr>dprev := Some wtp\<rparr>) h))"

partial_function (option) cancel_from :: "worker dheap \<Rightarrow> nat option \<Rightarrow> nat list option" where
  "cancel_from h p =
     (case p of
        None \<Rightarrow> Some []
      | Some a \<Rightarrow> Option.bind (h a) (\<lambda>n. Option.bind (cancel_from h (dnext n)) (\<lambda>ts. Some (w_tid (ddata n) # ts))))"

definition kill_workers :: "wlist \<Rightarrow> nat list option" where
  "kill_workers s = cancel_from (wheap s) (workers s)"

partial_function (option) worker_from :: "worker dheap \<Rightarrow> nat option \<Rightarrow> nat \<Rightarrow> nat option option" where
  "worker_from h p tid =
     (case p of
        None \<Rightarrow> Some None
      | Some a \<Rightarrow> Option.bind (h a) (\<lambda>n. if w_tid (ddata n) = tid then Some (Some a) else worker_from h (dnext n) tid))"

text \<open>The result is the descriptor that was closed, if any.\<close>

definition client_cleanup :: "nat \<Rightarrow> wlist \<Rightarrow> (int option \<times> wlist) option" where
  "client_cleanup tid s =
     Option.bind (worker_from (wheap s) (workers s) tid) (\<lambda>r.
     case r of
       None \<Rightarrow> Some (None, s)
     | Some wtp \<Rightarrow>
         Option.bind (wheap s wtp) (\<lambda>n.
         Option.bind (case dnext n of None \<Rightarrow> Some (wheap s)
             | Some x \<Rightarrow> upd_node x (\<lambda>m. m\<lparr>dprev := dprev n\<rparr>) (wheap s)) (\<lambda>h.
         Option.bind (h wtp) (\<lambda>n.
         Option.bind (case dprev n of None \<Rightarrow> Some (s\<lparr>wheap := h, workers := dnext n\<rparr>)
             | Some p \<Rightarrow> map_option (\<lambda>h. s\<lparr>wheap := h\<rparr>) (upd_node p (\<lambda>m. m\<lparr>dnext := dnext n\<rparr>) h)) (\<lambda>s.
         Some (Some (w_sockfd (ddata n)), s\<lparr>wheap := (wheap s)(wtp := None)\<rparr>))))))"

definition no_workers :: wlist where
  "no_workers = \<lparr>wheap = Map.empty, workers = None\<rparr>"

subsection \<open>The properties\<close>

text \<open>
  The daemon's queue keeps its jobs in order: a new job goes to the end with its own
  request, the job picked is the oldest, the others keep their requests, and a job that is
  put back is the next one picked.
\<close>

theorem printd_queue_order:
  assumes "isq q (x # xs)" and "jp \<notin> set (x # xs)"
  shows "\<exists>q1 q2 q3. add_job r jid jp q = Some q1 \<and> isq q1 (x # xs @ [jp]) \<and> data_at q1 jp = \<lparr>jobid = jid, req = r\<rparr> \<and>
    same_data q q1 (x # xs) \<and> remove_job x q1 = Some q2 \<and> isq q2 (xs @ [jp]) \<and>
    replace_job x q2 = Some q3 \<and> isq q3 (x # xs @ [jp])"
proof -
  obtain q1 where q1: "add_job r jid jp q = Some q1" "isq q1 (x # xs @ [jp])"
    "data_at q1 jp = \<lparr>jobid = jid, req = r\<rparr>" "same_data q q1 (x # xs)"
    using add_job_isq [OF assms, of r jid] by auto
  from printd_jobs.put_back [OF q1(2)] obtain q2 q3 where
    q2: "remove_job x q1 = Some q2" "replace_job x q2 = Some q3" "isq q3 (x # xs @ [jp])" by blast
  have "isq q2 (xs @ [jp])" using remove_job_isq [of q1 "[]" x "xs @ [jp]"] q1(2) q2(1) by auto
  then show ?thesis using q1 q2 by blast
qed

definition one_job :: jobq where
  "one_job = \<lparr>dheap = [7 \<mapsto> \<lparr>dnext = None, dprev = None,
      ddata = \<lparr>jobid = 1, req = \<lparr>pr_size = 10, pr_flags = 0, usernm = ''sar'', jobnm = ''a.ps''\<rparr>\<rparr>\<rparr>],
    qhead = Some 7, qtail = Some 7\<rparr>"

theorem printd_queue_order_witness:
  "\<exists>q1 q2. add_job \<lparr>pr_size = 5, pr_flags = 1, usernm = ''x'', jobnm = ''b''\<rparr> 2 9 one_job = Some q1 \<and>
     remove_job 7 q1 = Some q2 \<and> isq q2 [9]"
proof -
  have q: "isq one_job [7]" by (simp add: isq_def one_job_def)
  have n: "9 \<notin> set [7::nat]" by simp
  show ?thesis using printd_queue_order [OF q n, of "\<lparr>pr_size = 5, pr_flags = 1, usernm = ''x'', jobnm = ''b''\<rparr>" 2] by auto
qed

text \<open>
  The queue of the reader-writer lock example: each of the four cases of
  \<open>job_remove\<close> takes out exactly the given job and leaves it reusable at either end, and
  \<open>job_find\<close> ends and finds the first job of the thread.
\<close>

theorem rwlock_queue_correct:
  assumes "isq q (ys @ x # zs)"
  shows "(\<exists>q1. job_remove x q = Some q1 \<and> isq q1 (ys @ zs) \<and>
      (\<exists>q2. job_insert x q1 = Some q2 \<and> isq q2 (x # ys @ zs)) \<and> (\<exists>q3. job_append x q1 = Some q3 \<and> isq q3 (ys @ zs @ [x]))) \<and>
    job_find 0 q tid = Some (find (\<lambda>a. data_at q a = tid) (ys @ x # zs))"
proof -
  from rwlock_jobs.unlink_law [OF assms] obtain q1 where
    q1: "job_remove x q = Some q1" "isq q1 (ys @ zs)" "(\<lambda>a. a \<in> dom (dheap q1)) = (\<lambda>a. a \<in> dom (dheap q))" by blast
  have x: "x \<notin> set (ys @ zs)" "x \<in> dom (dheap q1)"
    using rwlock_jobs.members [OF assms] fun_cong [OF q1(3), of x] by auto
  have "dls (dheap q) (qhead q) None (ys @ x # zs) None" using assms by (simp add: isq_def)
  from find_from_dls [OF this, of "\<lambda>d. d" tid] have "job_find 0 q tid = Some (find (\<lambda>a. data_at q a = tid) (ys @ x # zs))"
    by (simp add: job_find_def data_at_def)
  then show ?thesis
    using q1 rwlock_jobs.front_law [OF q1(2) x] rwlock_jobs.back_law [OF q1(2) x] by auto
qed

definition two_jobs :: rwq where
  "two_jobs = \<lparr>dheap = [1 \<mapsto> \<lparr>dnext = Some 2, dprev = None, ddata = 10\<rparr>, 2 \<mapsto> \<lparr>dnext = None, dprev = Some 1, ddata = 20\<rparr>],
    qhead = Some 1, qtail = Some 2\<rparr>"

theorem rwlock_queue_correct_witness:
  "(\<exists>q1. job_remove 2 two_jobs = Some q1 \<and> isq q1 [1]) \<and> job_find 0 two_jobs 20 = Some (Some 2)"
proof -
  have "isq two_jobs ([1] @ 2 # [])" by (simp add: isq_def two_jobs_def)
  from rwlock_queue_correct [OF this, of 20] show ?thesis by (auto simp: data_at_def two_jobs_def)
qed

text \<open>
  C8. The worker list is broken from the second client on: \<open>add_worker\<close> never makes the new
  worker the head, so \<open>kill_workers\<close> cancels only the first one, the second one's cleanup
  closes nothing, and once the first one has cleaned up, \<open>workers\<close> points to freed memory.
\<close>

theorem workers_list_broken:
  assumes "a \<noteq> b" and "t \<noteq> u"
  shows "\<exists>s1 s2 s3. add_worker t fd (Some a) no_workers = Some (True, s1) \<and> add_worker u fd' (Some b) s1 = Some (True, s2) \<and>
    kill_workers s2 = Some [t] \<and> client_cleanup u s2 = Some (None, s2) \<and>
    client_cleanup t s2 = Some (Some fd, s3) \<and> workers s3 = Some a \<and> wheap s3 a = None \<and> kill_workers s3 = None"
  using assms
  by (auto simp: add_worker_def no_workers_def upd_node_def kill_workers_def cancel_from.simps client_cleanup_def worker_from.simps)

theorem workers_list_broken_witness:
  "\<exists>s1 s2 s3. add_worker 100 4 (Some 1) no_workers = Some (True, s1) \<and> add_worker 101 5 (Some 2) s1 = Some (True, s2) \<and>
    client_cleanup 100 s2 = Some (Some 4, s3) \<and> kill_workers s3 = None"
  using workers_list_broken [of 1 2 100 101 4 5] by auto

end
