(* ===== verification/WireFormat.thy ===== *)
theory WireFormat
  imports CString JobQueue
begin

section \<open>Integers and structures as bytes\<close>

text \<open>
  The print daemon and its client exchange C structures as raw bytes: 32-bit fields in
  network order on the socket and in host order (little endian) in the spool files,
  character arrays of fixed size.
\<close>

definition byte :: "nat \<Rightarrow> char" where
  "byte n = char_of n"

definition be32 :: "32 word \<Rightarrow> string" where
  "be32 w = (let n = unat w in map byte [n div 16777216, n div 65536 mod 256, n div 256 mod 256, n mod 256])"

definition le32 :: "32 word \<Rightarrow> string" where
  "le32 w = rev (be32 w)"

definition nat_of_be :: "string \<Rightarrow> nat" where
  "nat_of_be s = foldl (\<lambda>acc c. 256 * acc + of_char c) 0 s"

definition of_be32 :: "string \<Rightarrow> 32 word" where
  "of_be32 s = of_nat (nat_of_be (take 4 s))"

definition of_le32 :: "string \<Rightarrow> 32 word" where
  "of_le32 s = of_nat (nat_of_be (rev (take 4 s)))"

text \<open>\<open>htonl\<close> and \<open>ntohl\<close> on a little-endian host.\<close>

definition htonl :: "32 word \<Rightarrow> 32 word" where
  "htonl w = of_le32 (be32 w)"

definition ntohl :: "32 word \<Rightarrow> 32 word" where
  "ntohl w = of_be32 (le32 w)"

lemma of_char_byte: "of_char (byte n) = n mod 256"
  by (simp add: byte_def)

lemma div_byte: "(n::nat) div 65536 = n div 256 div 256" "n div 16777216 = n div 256 div 256 div 256"
  by (simp_all add: div_mult2_eq [symmetric])

lemma join_byte: "256 * (n div 256) + n mod (256::nat) = n"
  by simp

lemma nat_of_be32: "nat_of_be (be32 w) = unat w"
proof -
  let ?n = "unat w"
  have "?n < 2 ^ 32" by (rule order.strict_trans2 [OF unsigned_less]) simp
  then have "?n div 256 div 256 div 256 < 256" by simp
  then have "?n div 256 div 256 div 256 mod 256 = ?n div 256 div 256 div 256" by simp
  then show ?thesis by (simp add: nat_of_be_def be32_def Let_def of_char_byte div_byte join_byte)
qed

lemma length_be32 [simp]: "length (be32 w) = 4" "length (le32 w) = 4"
  by (simp_all add: be32_def le32_def Let_def)

lemma of_be32_be32 [simp]: "of_be32 (be32 w @ r) = w"
  by (simp add: of_be32_def nat_of_be32)

lemma of_le32_le32 [simp]: "of_le32 (le32 w @ r) = w"
  by (simp add: of_le32_def le32_def nat_of_be32)

lemma byte_of_char [simp]: "byte (of_char c) = c"
  by (simp add: byte_def)

lemma unpack_byte: "(a::nat) < 256 \<Longrightarrow> (256 * x + a) div 256 = x" "a < 256 \<Longrightarrow> (256 * x + a) mod 256 = a"
  by simp_all

lemma char_lt: "(of_char c :: nat) < 256"
  by simp

lemma step_bound:
  assumes "(x::nat) < m" and "a < 256"
  shows "256 * x + a < 256 * m"
proof -
  have "256 * x + a < 256 * (x + 1)" using assms(2) by simp
  also have "\<dots> \<le> 256 * m" using assms(1) by (intro mult_le_mono) simp_all
  finally show ?thesis .
qed

lemma val4_bound:
  assumes "a < 256" "b < 256" "c < 256" "(d::nat) < 256"
  shows "256 * (256 * (256 * d + c) + b) + a < 4294967296"
  using step_bound [OF step_bound [OF step_bound [OF assms(4,3)] assms(2)] assms(1)] by simp

lemma unat_of_nat32: "n < 4294967296 \<Longrightarrow> unat (of_nat n :: 32 word) = n"
  by (simp add: unat_of_nat take_bit_nat_eq_self)

lemma le32_of_le32:
  assumes "length s = 4"
  shows "le32 (of_le32 s) = s"
proof -
  obtain a b c d where s: "s = [a, b, c, d]" using assms by (auto simp: length_Suc_conv eval_nat_numeral)
  let ?v = "256 * (256 * (256 * of_char d + of_char c) + of_char b) + (of_char a :: nat)"
  have v: "?v < 4294967296" by (rule val4_bound) simp_all
  have "nat_of_be (rev (take 4 s)) = ?v" by (simp add: s nat_of_be_def)
  then have "unat (of_le32 s) = ?v" unfolding of_le32_def using unat_of_nat32 [OF v] by (simp only:)
  then show ?thesis
    by (simp add: le32_def be32_def Let_def s div_byte unpack_byte del: distrib_left_numeral)
qed

lemma ntohl_raw [simp]: "length s = 4 \<Longrightarrow> ntohl (of_le32 (s @ r)) = of_be32 s"
proof -
  assume l: "length s = 4"
  then have "of_le32 (s @ r) = of_le32 s" by (simp add: of_le32_def)
  then show ?thesis using le32_of_le32 [OF l] by (simp add: ntohl_def)
qed

lemma ntohl_htonl [simp]: "ntohl (htonl w) = w"
  using ntohl_raw [of "be32 w" "[]"] of_be32_be32 [of w "[]"] by (simp add: htonl_def)


subsection \<open>Print requests and responses\<close>

definition USERNM_MAX :: nat where "USERNM_MAX = 64"
definition JOBNM_MAX :: nat where "JOBNM_MAX = 256"
definition MSGLEN_MAX :: nat where "MSGLEN_MAX = 512"
definition PR_TEXT :: "32 word" where "PR_TEXT = 1"

definition SIZEOF_REQ :: nat where "SIZEOF_REQ = 4 + 4 + USERNM_MAX + JOBNM_MAX"

text \<open>The bytes of a \<open>struct printreq\<close> in memory and back.\<close>

definition req_raw :: "printreq \<Rightarrow> string" where
  "req_raw r = le32 (pr_size r) @ le32 (pr_flags r) @ usernm r @ jobnm r"

definition req_of_raw :: "string \<Rightarrow> printreq" where
  "req_of_raw b = \<lparr>pr_size = of_le32 b, pr_flags = of_le32 (drop 4 b),
     usernm = take USERNM_MAX (drop 8 b), jobnm = take JOBNM_MAX (drop (8 + USERNM_MAX) b)\<rparr>"

definition wf_req :: "printreq \<Rightarrow> bool" where
  "wf_req r \<longleftrightarrow> length (usernm r) = USERNM_MAX \<and> length (jobnm r) = JOBNM_MAX"

definition req_ntoh :: "printreq \<Rightarrow> printreq" where
  "req_ntoh r = r\<lparr>pr_size := ntohl (pr_size r), pr_flags := ntohl (pr_flags r)\<rparr>"

definition req_hton :: "printreq \<Rightarrow> printreq" where
  "req_hton r = r\<lparr>pr_size := htonl (pr_size r), pr_flags := htonl (pr_flags r)\<rparr>"

record printresp =
  retcode :: "32 word"
  pr_jobid :: "32 word"
  pr_msg :: string

lemma length_req_raw: "wf_req r \<Longrightarrow> length (req_raw r) = SIZEOF_REQ"
  by (simp add: req_raw_def wf_req_def SIZEOF_REQ_def)

lemma req_raw_roundtrip: "wf_req r \<Longrightarrow> req_of_raw (req_raw r) = r"
  by (simp add: req_of_raw_def req_raw_def wf_req_def)

lemma req_net_roundtrip: "wf_req r \<Longrightarrow> req_ntoh (req_of_raw (req_raw (req_hton r))) = r"
proof -
  assume "wf_req r"
  then have "wf_req (req_hton r)" by (simp add: wf_req_def req_hton_def)
  then show ?thesis by (simp add: req_raw_roundtrip req_ntoh_def req_hton_def)
qed

lemma wf_req_of_raw: "length b = SIZEOF_REQ \<Longrightarrow> wf_req (req_of_raw b)"
  by (simp add: wf_req_def req_of_raw_def SIZEOF_REQ_def)

lemma wf_req_ntoh [simp]: "wf_req (req_ntoh r) = wf_req r" "wf_req (r\<lparr>pr_flags := f\<rparr>) = wf_req r"
  by (simp_all add: wf_req_def req_ntoh_def)

end
