(* ===== verification/RobustIO.thy ===== *)
theory RobustIO
  imports CString
begin

section \<open>Reading and writing exactly n bytes (lib/readn.c, lib/writen.c, printer/util.c)\<close>

text \<open>
  A descriptor that is read is the bytes still to come together with the outcome of the
  coming calls: each \<open>read\<close> either fails or delivers at most a given number of bytes, and
  each \<open>select\<close> says ready, timed out or failed. When \<open>held_open\<close> is set the peer sends no more bytes but does not close the
  stream either, so that a \<open>select\<close> after the last byte times out. The loops of \<open>readn\<close>, \<open>treadn\<close> and
  \<open>writen\<close> are written over an arbitrary \<open>read\<close> or \<open>write\<close>, and the interfaces
  \<open>byte_source\<close> and \<open>byte_sink\<close> are what they rely on.
\<close>

datatype sel = SelReady | SelTimeout | SelError
datatype io_errno = ETIME | EINTR | EIO

record rdesc =
  rbytes :: string
  rplan :: "nat option list"
  splan :: "sel list"
  r_errno :: "io_errno option"
  held_open :: bool

definition fd_read :: "nat \<Rightarrow> rdesc \<Rightarrow> string option \<times> rdesc" where
  "fd_read n d =
     (case rplan d of
        [] \<Rightarrow> (Some (take n (rbytes d)), d\<lparr>rbytes := drop n (rbytes d)\<rparr>)
      | None # ps \<Rightarrow> (None, d\<lparr>rplan := ps, r_errno := Some EIO\<rparr>)
      | Some k # ps \<Rightarrow>
          let m = min n (Suc k)
          in (Some (take m (rbytes d)), d\<lparr>rplan := ps, rbytes := drop m (rbytes d)\<rparr>))"

definition fd_select :: "rdesc \<Rightarrow> int \<times> rdesc" where
  "fd_select d =
     (let ready = (if held_open d \<and> rbytes d = [] then 0 else 1)
      in case splan d of
        [] \<Rightarrow> (ready, d)
      | SelReady # ps \<Rightarrow> (ready, d\<lparr>splan := ps\<rparr>)
      | SelTimeout # ps \<Rightarrow> (0, d\<lparr>splan := ps\<rparr>)
      | SelError # ps \<Rightarrow> (-1, d\<lparr>splan := ps, r_errno := Some EINTR\<rparr>))"

definition tread :: "nat \<Rightarrow> rdesc \<Rightarrow> string option \<times> rdesc" where
  "tread nbytes d =
     (let (nfds, d) = fd_select d
      in if nfds \<le> 0 then (None, if nfds = 0 then d\<lparr>r_errno := Some ETIME\<rparr> else d)
         else fd_read nbytes d)"

text \<open>
  The loops: the result is the return value and the bytes stored through \<open>ptr\<close>. They end
  because each round either stops or decreases the number of bytes left.
\<close>

function readn_loop :: "(nat \<Rightarrow> 's \<Rightarrow> string option \<times> 's) \<Rightarrow> nat \<Rightarrow> nat \<Rightarrow> string \<Rightarrow> 's \<Rightarrow> (int \<times> string) \<times> 's" where
  "readn_loop rd n nleft buf s =
     (if nleft = 0 then ((int (n - nleft), buf), s)
      else case rd nleft s of
        (None, s') \<Rightarrow> if nleft = n then ((-1, buf), s') else ((int (n - nleft), buf), s')
      | (Some bs, s') \<Rightarrow>
          if bs = [] then ((int (n - nleft), buf), s')
          else readn_loop rd n (nleft - length bs) (buf @ bs) s')"
  by pat_completeness auto
termination
  by (relation "measure (\<lambda>(rd, n, nleft, buf, s). nleft)") auto

declare readn_loop.simps [simp del]

definition readn :: "nat \<Rightarrow> rdesc \<Rightarrow> (int \<times> string) \<times> rdesc" where
  "readn n d = readn_loop fd_read n n [] d"

definition treadn :: "nat \<Rightarrow> rdesc \<Rightarrow> (int \<times> string) \<times> rdesc" where
  "treadn nbytes d = readn_loop tread nbytes nbytes [] d"

record wdesc =
  wbytes :: string
  wplan :: "nat option list"

definition fd_write :: "string \<Rightarrow> wdesc \<Rightarrow> nat option \<times> wdesc" where
  "fd_write bs d =
     (case wplan d of
        [] \<Rightarrow> (Some (length bs), d\<lparr>wbytes := wbytes d @ bs\<rparr>)
      | None # ps \<Rightarrow> (None, d\<lparr>wplan := ps\<rparr>)
      | Some k # ps \<Rightarrow>
          let m = min k (length bs) in (Some m, d\<lparr>wplan := ps, wbytes := wbytes d @ take m bs\<rparr>))"

function writen_loop :: "(string \<Rightarrow> 's \<Rightarrow> nat option \<times> 's) \<Rightarrow> nat \<Rightarrow> string \<Rightarrow> 's \<Rightarrow> int \<times> 's" where
  "writen_loop wr n ptr s =
     (if ptr = [] then (int n, s)
      else case wr ptr s of
        (None, s') \<Rightarrow> if length ptr = n then (-1, s') else (int (n - length ptr), s')
      | (Some w, s') \<Rightarrow>
          if w = 0 then (int (n - length ptr), s')
          else writen_loop wr n (drop w ptr) s')"
  by pat_completeness auto
termination
  by (relation "measure (\<lambda>(wr, n, ptr, s). length ptr)") auto

declare writen_loop.simps [simp del]

definition writen :: "string \<Rightarrow> wdesc \<Rightarrow> int \<times> wdesc" where
  "writen data d = writen_loop fd_write (length data) data d"

subsection \<open>What the loops rely on and what they give\<close>

locale byte_source =
  fixes rd :: "nat \<Rightarrow> 's \<Rightarrow> string option \<times> 's"
    and stream :: "'s \<Rightarrow> string"
    and healthy :: "'s \<Rightarrow> bool"
  assumes rd_some: "rd n s = (Some bs, s') \<Longrightarrow> length bs \<le> n \<and> stream s = bs @ stream s'"
    and rd_none: "rd n s = (None, s') \<Longrightarrow> stream s' = stream s"
    and rd_eof: "rd n s = (Some [], s') \<Longrightarrow> 0 < n \<Longrightarrow> stream s = []"
    and rd_healthy: "healthy s \<Longrightarrow> \<exists>bs s'. rd n s = (Some bs, s') \<and> healthy s'"
begin

lemma loop_result:
  assumes "readn_loop rd n nleft buf s = ((r, out), s')" and "length buf + nleft = n"
  shows "\<exists>bs. out = buf @ bs \<and> stream s = bs @ stream s' \<and> length out \<le> n \<and> (r = int (length out) \<or> r = -1 \<and> out = [])"
  using assms
proof (induction nleft arbitrary: buf s rule: less_induct)
  case (less nleft)
  show ?case
  proof (cases "nleft = 0")
    case True
    then show ?thesis using less.prems by (simp add: readn_loop.simps)
  next
    case False
    obtain q t where q: "rd nleft s = (q, t)" by fastforce
    show ?thesis
    proof (cases q)
      case None
      then show ?thesis
        using less.prems False q rd_none [of nleft s t] by (auto simp: readn_loop.simps split: if_splits)
    next
      case (Some bs)
      note rs = rd_some [OF q [unfolded Some]]
      show ?thesis
      proof (cases "bs = []")
        case True
        then show ?thesis using less.prems False q Some rs by (auto simp: readn_loop.simps)
      next
        case bs: False
        have step: "readn_loop rd n (nleft - length bs) (buf @ bs) t = ((r, out), s')"
          using less.prems(1) False q Some bs by (simp add: readn_loop.simps [of rd n nleft])
        have "nleft - length bs < nleft" "length (buf @ bs) + (nleft - length bs) = n"
          using False bs rs less.prems(2) by auto
        from less.IH [OF this(1) step this(2)] show ?thesis using rs bs by auto
      qed
    qed
  qed
qed

lemma loop_healthy:
  assumes "healthy s" and "length buf + nleft = n"
  shows "\<exists>s'. readn_loop rd n nleft buf s = ((int (length buf + min nleft (length (stream s))), buf @ take nleft (stream s)), s') \<and>
    stream s' = drop nleft (stream s)"
  using assms
proof (induction nleft arbitrary: buf s rule: less_induct)
  case (less nleft)
  show ?case
  proof (cases "nleft = 0")
    case True
    then show ?thesis using less.prems by (simp add: readn_loop.simps)
  next
    case False
    obtain bs t where q: "rd nleft s = (Some bs, t)" "healthy t" using rd_healthy [OF less.prems(1)] by blast
    note rs = rd_some [OF q(1)]
    show ?thesis
    proof (cases "bs = []")
      case True
      then have "stream s = []" using rd_eof [of nleft s t] q(1) False by simp
      moreover have "stream t = []" using rs True calculation by simp
      moreover have "n - nleft = length buf" using less.prems(2) by linarith
      ultimately show ?thesis using False q True by (simp add: readn_loop.simps)
    next
      case bs: False
      have "nleft - length bs < nleft" "length (buf @ bs) + (nleft - length bs) = n"
        using False bs rs less.prems(2) by auto
      from less.IH [OF this(1) q(2) this(2)] obtain u where
        u: "readn_loop rd n (nleft - length bs) (buf @ bs) t =
           ((int (length (buf @ bs) + min (nleft - length bs) (length (stream t))), (buf @ bs) @ take (nleft - length bs) (stream t)), u)"
        "stream u = drop (nleft - length bs) (stream t)" by blast
      have "readn_loop rd n nleft buf s = readn_loop rd n (nleft - length bs) (buf @ bs) t"
        using False q bs by (simp add: readn_loop.simps [of rd n nleft])
      then show ?thesis using u rs by (intro exI [of _ u]) auto
    qed
  qed
qed

end

text \<open>
  A source that is only known to deliver while it has bytes left (what follows the last
  byte may be the end of file, a timeout or an error).
\<close>

locale live_source = byte_source +
  fixes live :: "'a \<Rightarrow> bool"
  assumes rd_live: "live s \<Longrightarrow> stream s \<noteq> [] \<Longrightarrow> 0 < n \<Longrightarrow> \<exists>bs s'. rd n s = (Some bs, s') \<and> bs \<noteq> [] \<and> live s'"
begin

lemma loop_live:
  assumes "live s" and "length buf + nleft = n" and "nleft \<le> length (stream s)"
  shows "\<exists>s'. readn_loop rd n nleft buf s = ((int n, buf @ take nleft (stream s)), s') \<and>
    stream s' = drop nleft (stream s) \<and> live s'"
  using assms
proof (induction nleft arbitrary: buf s rule: less_induct)
  case (less nleft)
  show ?case
  proof (cases "nleft = 0")
    case True
    then show ?thesis using less.prems by (simp add: readn_loop.simps)
  next
    case False
    then have "stream s \<noteq> []" using less.prems(3) by auto
    then obtain bs t where q: "rd nleft s = (Some bs, t)" "bs \<noteq> []" "live t"
      using rd_live [OF less.prems(1)] False by blast
    note rs = rd_some [OF q(1)]
    have "nleft - length bs < nleft" "length (buf @ bs) + (nleft - length bs) = n" "nleft - length bs \<le> length (stream t)"
      using False q rs less.prems(2,3) by auto
    from less.IH [OF this(1) q(3) this(2,3)] obtain u where
      u: "readn_loop rd n (nleft - length bs) (buf @ bs) t = ((int n, (buf @ bs) @ take (nleft - length bs) (stream t)), u)"
      "stream u = drop (nleft - length bs) (stream t)" "live u" by blast
    have "readn_loop rd n nleft buf s = readn_loop rd n (nleft - length bs) (buf @ bs) t"
      using False q by (simp add: readn_loop.simps [of rd n nleft])
    then show ?thesis using u rs by (intro exI [of _ u]) auto
  qed
qed

end

locale byte_sink =
  fixes wr :: "string \<Rightarrow> 's \<Rightarrow> nat option \<times> 's"
    and content :: "'s \<Rightarrow> string"
    and healthy :: "'s \<Rightarrow> bool"
  assumes wr_some: "wr bs s = (Some w, s') \<Longrightarrow> w \<le> length bs \<and> content s' = content s @ take w bs"
    and wr_none: "wr bs s = (None, s') \<Longrightarrow> content s' = content s"
    and wr_healthy: "healthy s \<Longrightarrow> bs \<noteq> [] \<Longrightarrow> \<exists>w s'. wr bs s = (Some w, s') \<and> 0 < w \<and> healthy s'"
begin

lemma wloop_result:
  assumes "writen_loop wr n ptr s = (r, s')" and "length ptr \<le> n"
  shows "\<exists>k\<le>length ptr. content s' = content s @ take k ptr \<and>
    (r = int (n - length ptr + k) \<or> r = -1 \<and> k = 0 \<and> length ptr = n)"
  using assms
proof (induction ptr arbitrary: s rule: length_induct)
  case (1 ptr)
  show ?case
  proof (cases "ptr = []")
    case True
    then show ?thesis using "1.prems" by (simp add: writen_loop.simps)
  next
    case False
    obtain q t where q: "wr ptr s = (q, t)" by fastforce
    show ?thesis
    proof (cases q)
      case None
      then show ?thesis
        using "1.prems" False q wr_none [of ptr s t] by (intro exI [of _ 0]) (auto simp: writen_loop.simps split: if_splits)
    next
      case (Some w)
      note ws = wr_some [OF q [unfolded Some]]
      show ?thesis
      proof (cases "w = 0")
        case True
        then show ?thesis using "1.prems" False q Some ws by (intro exI [of _ 0]) (auto simp: writen_loop.simps)
      next
        case w: False
        have step: "writen_loop wr n (drop w ptr) t = (r, s')"
          using "1.prems"(1) False q Some w by (simp add: writen_loop.simps [of wr n ptr])
        have "length (drop w ptr) < length ptr" "length (drop w ptr) \<le> n" using False w "1.prems"(2) by auto
        with "1.IH" step obtain k where k: "k \<le> length (drop w ptr)" "content s' = content t @ take k (drop w ptr)"
          "r = int (n - length (drop w ptr) + k) \<or> r = -1 \<and> k = 0 \<and> length (drop w ptr) = n" by blast
        have "take (w + k) ptr = take w ptr @ take k (drop w ptr)" by (rule take_add)
        moreover have "length (drop w ptr) \<noteq> n" using ws w "1.prems"(2) False by (cases ptr) auto
        ultimately show ?thesis
          using k ws "1.prems"(2) by (intro exI [of _ "w + k"]) auto
      qed
    qed
  qed
qed

lemma wloop_healthy:
  assumes "healthy s"
  shows "\<exists>s'. writen_loop wr n ptr s = (int n, s') \<and> content s' = content s @ ptr \<and> healthy s'"
  using assms
proof (induction ptr arbitrary: s rule: length_induct)
  case (1 ptr)
  show ?case
  proof (cases "ptr = []")
    case True
    then show ?thesis using "1.prems" by (simp add: writen_loop.simps)
  next
    case False
    obtain w t where q: "wr ptr s = (Some w, t)" "0 < w" "healthy t" using wr_healthy [OF "1.prems" False] by blast
    note ws = wr_some [OF q(1)]
    have "length (drop w ptr) < length ptr" using False q(2) by auto
    then obtain u where u: "writen_loop wr n (drop w ptr) t = (int n, u)" "content u = content t @ drop w ptr" "healthy u"
      using "1.IH" q(3) by blast
    have "writen_loop wr n ptr s = writen_loop wr n (drop w ptr) t"
      using False q by (simp add: writen_loop.simps [of wr n ptr])
    then show ?thesis using u ws by simp
  qed
qed

end

subsection \<open>The program's descriptors\<close>

definition read_ok :: "rdesc \<Rightarrow> bool" where
  "read_ok d \<longleftrightarrow> None \<notin> set (rplan d)"

definition tread_ok :: "rdesc \<Rightarrow> bool" where
  "tread_ok d \<longleftrightarrow> read_ok d \<and> set (splan d) \<subseteq> {SelReady} \<and> \<not> held_open d"

interpretation plain: byte_source fd_read rbytes read_ok
proof unfold_locales
  fix n s bs s'
  show "length bs \<le> n \<and> rbytes s = bs @ rbytes s'" if "fd_read n s = (Some bs, s')"
    using that by (auto simp: fd_read_def Let_def split: list.splits option.splits)
  show "rbytes s' = rbytes s" if "fd_read n s = (None, s')"
    using that by (auto simp: fd_read_def Let_def split: list.splits option.splits)
  show "rbytes s = []" if "fd_read n s = (Some [], s')" "0 < n"
    using that by (auto simp: fd_read_def Let_def split: list.splits option.splits)
  show "\<exists>bs s'. fd_read n s = (Some bs, s') \<and> read_ok s'" if "read_ok s"
    using that by (auto simp: fd_read_def read_ok_def Let_def split: list.splits option.splits)
qed

lemma fd_select_stream: "fd_select d = (r, d') \<Longrightarrow> rbytes d' = rbytes d"
  by (auto simp: fd_select_def Let_def split: list.splits sel.splits)

interpretation timed: byte_source tread rbytes tread_ok
proof unfold_locales
  fix n s bs s'
  show "length bs \<le> n \<and> rbytes s = bs @ rbytes s'" if "tread n s = (Some bs, s')"
    using that plain.rd_some fd_select_stream by (auto simp: tread_def split: prod.splits if_splits) metis
  show "rbytes s' = rbytes s" if "tread n s = (None, s')"
    using that plain.rd_none fd_select_stream by (fastforce simp: tread_def split: prod.splits if_splits)
  show "rbytes s = []" if "tread n s = (Some [], s')" "0 < n"
    using that plain.rd_eof fd_select_stream by (auto simp: tread_def split: prod.splits if_splits) metis
  show "\<exists>bs s'. tread n s = (Some bs, s') \<and> tread_ok s'" if "tread_ok s"
    using that by (auto simp: tread_def fd_select_def tread_ok_def fd_read_def read_ok_def Let_def split: list.splits option.splits sel.splits)
qed

text \<open>
  \<open>polls_ok\<close>: no read fails and the polls made while bytes are left find them; a poll after
  the last byte may time out or fail.
\<close>

definition polls_ok :: "rdesc \<Rightarrow> bool" where
  "polls_ok d \<longleftrightarrow> read_ok d \<and> (\<forall>i < length (rbytes d). i < length (splan d) \<longrightarrow> splan d ! i = SelReady)"

lemma polls_ok_step:
  assumes "polls_ok d" and "rbytes d \<noteq> []" and "0 < n"
  shows "\<exists>bs d'. tread n d = (Some bs, d') \<and> bs \<noteq> [] \<and> polls_ok d'"
proof -
  have sel: "splan d = [] \<or> (\<exists>ps. splan d = SelReady # ps)"
    using assms(1,2) by (cases "splan d") (auto simp: polls_ok_def)
  define d1 where "d1 = snd (fd_select d)"
  have d1: "fd_select d = (1, d1)" "rbytes d1 = rbytes d" "rplan d1 = rplan d" "splan d1 = drop 1 (splan d)"
    using sel assms(2) by (auto simp: fd_select_def d1_def)
  have ok: "read_ok d1" using assms(1) d1(3) by (simp add: polls_ok_def read_ok_def)
  obtain bs d' where r: "fd_read n d1 = (Some bs, d')" "read_ok d'" using plain.rd_healthy [OF ok] by blast
  have bs: "bs \<noteq> []" using plain.rd_eof [of n d1 d'] r(1) assms(2,3) d1(2) by auto
  have st: "rbytes d1 = bs @ rbytes d'" using plain.rd_some [OF r(1)] by simp
  have sp: "splan d' = drop 1 (splan d)"
    using r(1) d1(4) by (auto simp: fd_read_def Let_def split: list.splits option.splits)
  have "polls_ok d'"
    unfolding polls_ok_def
  proof (intro conjI allI impI)
    show "read_ok d'" by (rule r(2))
    fix i
    assume "i < length (rbytes d')" "i < length (splan d')"
    moreover from this have "Suc i < length (rbytes d)" using bs st d1(2) by (cases bs) auto
    ultimately show "splan d' ! i = SelReady" using assms(1) sp by (simp add: polls_ok_def)
  qed
  then show ?thesis using bs r(1) d1(1) by (auto simp: tread_def)
qed

interpretation patient: live_source tread rbytes tread_ok polls_ok
  by unfold_locales (rule polls_ok_step)

definition write_ok :: "wdesc \<Rightarrow> bool" where
  "write_ok d \<longleftrightarrow> None \<notin> set (wplan d) \<and> Some 0 \<notin> set (wplan d)"

interpretation fdsink: byte_sink fd_write wbytes write_ok
proof unfold_locales
  fix bs s w s'
  show "w \<le> length bs \<and> wbytes s' = wbytes s @ take w bs" if "fd_write bs s = (Some w, s')"
    using that by (auto simp: fd_write_def Let_def split: list.splits option.splits)
  show "wbytes s' = wbytes s" if "fd_write bs s = (None, s')"
    using that by (auto simp: fd_write_def Let_def split: list.splits option.splits)
  show "\<exists>w s'. fd_write bs s = (Some w, s') \<and> 0 < w \<and> write_ok s'" if "write_ok s" "bs \<noteq> []"
    using that by (auto simp: fd_write_def write_ok_def Let_def neq_Nil_conv split: list.splits option.splits)
qed

lemma writen_content:
  assumes "write_ok d"
  shows "fst (writen bs d) = int (length bs)" and "wbytes (snd (writen bs d)) = wbytes d @ bs"
proof -
  obtain d' where "writen bs d = (int (length bs), d')" "wbytes d' = wbytes d @ bs"
    using fdsink.wloop_healthy [OF assms, of "length bs" bs] by (auto simp: writen_def)
  then show "fst (writen bs d) = int (length bs)" "wbytes (snd (writen bs d)) = wbytes d @ bs" by simp_all
qed

subsection \<open>The properties\<close>

text \<open>
  \<open>treadn\<close> returns the bytes that come first on the descriptor, at most as many
  as asked for, and leaves the others on it: the result is their number, or -1 when the first call
  failed or timed out. With no failing call the number asked for is returned, unless
  the stream ends before.
\<close>

theorem treadn_reads_exactly:
  assumes "treadn n d = ((r, out), d')"
  shows "rbytes d = out @ rbytes d' \<and> length out \<le> n \<and> (r = int (length out) \<or> r = -1 \<and> out = []) \<and>
    (tread_ok d \<longrightarrow> r = int (min n (length (rbytes d)))) \<and> (polls_ok d \<and> n \<le> length (rbytes d) \<longrightarrow> r = int n)"
proof -
  have L: "readn_loop tread n n [] d = ((r, out), d')" using assms by (simp add: treadn_def)
  have "tread_ok d \<Longrightarrow> r = int (min n (length (rbytes d)))"
    using timed.loop_healthy [of d "[]" n n] L by auto
  moreover have "polls_ok d \<Longrightarrow> n \<le> length (rbytes d) \<Longrightarrow> r = int n"
    using patient.loop_live [of d "[]" n n] L by auto
  ultimately show ?thesis using timed.loop_result [OF L] by auto
qed

theorem treadn_reads_exactly_witness:
  "\<exists>d'. treadn 3 \<lparr>rbytes = ''abcd'', rplan = [Some 0], splan = [SelReady, SelReady], r_errno = None, held_open = False\<rparr> = ((3, ''abc''), d') \<and>
    rbytes d' = ''d''"
proof -
  let ?d = "\<lparr>rbytes = ''abcd'', rplan = [Some 0], splan = [SelReady, SelReady], r_errno = None, held_open = False\<rparr>"
  obtain r out d' where c: "treadn 3 ?d = ((r, out), d')" by (metis prod.exhaust)
  note P = treadn_reads_exactly [OF c]
  have s1: "rbytes ?d = out @ rbytes d'" using P by blast
  have s: "''abcd'' = out @ rbytes d'" using s1 by (simp only: rdesc.select_convs)
  have ok: "tread_ok ?d" by (simp add: tread_ok_def read_ok_def)
  have "r = int (min 3 (length (rbytes ?d)))" using P ok by blast
  then have r: "r = 3" by simp
  have "r = int (length out) \<or> r = -1 \<and> out = []" using P by blast
  then have l: "length out = 3" using r by linarith
  have "out = take (length out) (out @ rbytes d')" "rbytes d' = drop (length out) (out @ rbytes d')" by simp_all
  then have "out = ''abc''" "rbytes d' = ''d''" unfolding s [symmetric] l by simp_all
  then show ?thesis using c r by simp
qed

text \<open>
  \<open>writen\<close> appends a prefix of the data and returns its length, or -1 with nothing
  written; it returns the full length exactly when all the data was written, and it writes all
  of it when no call fails.
\<close>

theorem writen_all_or_reported:
  assumes "writen bs d = (r, d')"
  shows "\<exists>k\<le>length bs. wbytes d' = wbytes d @ take k bs \<and> (r = int k \<or> r = -1 \<and> k = 0) \<and>
    (r = int (length bs) \<longrightarrow> k = length bs) \<and> (write_ok d \<longrightarrow> r = int (length bs))"
proof -
  have L: "writen_loop fd_write (length bs) bs d = (r, d')" using assms by (simp add: writen_def)
  have "write_ok d \<Longrightarrow> r = int (length bs)" using fdsink.wloop_healthy [of d "length bs" bs] L by auto
  then show ?thesis using fdsink.wloop_result [OF L] by force
qed

theorem writen_all_or_reported_witness:
  "\<exists>d'. writen ''hello'' \<lparr>wbytes = ''>'', wplan = [Some 2, Some 1]\<rparr> = (5, d') \<and> wbytes d' = ''>hello''"
proof -
  let ?d = "\<lparr>wbytes = ''>'', wplan = [Some 2, Some 1]\<rparr>"
  obtain r d' where c: "writen ''hello'' ?d = (r, d')" by (metis prod.exhaust)
  have ok: "write_ok ?d" by (simp add: write_ok_def)
  obtain k where k: "wbytes d' = wbytes ?d @ take k ''hello''" "r = int (length ''hello'') \<longrightarrow> k = length ''hello''"
    "r = int (length ''hello'')"
    using writen_all_or_reported [OF c] ok by blast
  have r: "r = 5" using k(3) by simp
  have "k = 5" using k(2,3) by simp
  then have "wbytes d' = ''>hello''" using k(1) by (simp only: wdesc.select_convs) simp
  then show ?thesis using c r by blast
qed

end
