(* ===== verification/Printd.thy ===== *)
theory Printd
  imports WireFormat RobustIO
begin

unbundle bit_operations_syntax

section \<open>The print daemon: accepting and spooling jobs (printer/printd.c)\<close>

text \<open>
  The daemon's state is its job queue and job counter, the job-number file and the spool
  directory (paths to contents), its worker list, the outcomes of the coming file system
  calls, the allocator, the printer's configuration, and the socket of the thread that runs.
  \<open>client_thread\<close> reads a request from the socket, stores its data and control files and
  queues it; every error path answers the client and removes what it created. It is modelled as one step: while it
  waits for its client other threads run, which share with it the job counter, the queue and the worker list, each under its lock, and
  use files of other numbers.
  \<open>init_request\<close>, \<open>update_jobno\<close> and \<open>build_qonstart\<close> keep the jobs across restarts.
  An operation stops with \<open>LogQuit\<close> where the daemon exits (\<open>log_sys\<close>, \<open>log_quit\<close>)
  and with \<open>BadAccess\<close> where it would follow a dangling pointer or leave a buffer;
  \<open>OutOfFuel\<close> is for the loops that are run with fuel.
\<close>

definition IOBUFSZ :: nat where "IOBUFSZ = 8192"
definition FILENMSZ :: nat where "FILENMSZ = 64"
definition SPOOLDIR :: string where "SPOOLDIR = ''/var/spool/printer''"
definition JOBFILE :: string where "JOBFILE = ''jobno''"
definition DATADIR :: string where "DATADIR = ''data''"
definition REQDIR :: string where "REQDIR = ''reqs''"

datatype fsres = FsOk | FsErr nat | FsShort nat
datatype pd_stop = LogQuit | BadAccess | OutOfFuel

record printd =
  jobs :: jobq
  nextjob :: "32 word"
  jobfile :: string
  spool :: "string \<rightharpoonup> string"
  workl :: wlist
  closed :: "int list"
  fsplan :: "fsres list"
  next_addr :: nat
  oom :: bool
  reread :: bool
  printer :: "string option"
  unclosed :: "string list"
  sock_in :: rdesc
  sock_out :: wdesc

type_synonym 'a pd = "(printd, pd_stop, 'a) prog"

definition sdec :: "32 word \<Rightarrow> string" where
  "sdec w = dec_int (sint w)"

definition data_name :: "string \<Rightarrow> string" where
  "data_name e = SPOOLDIR @ ''/'' @ DATADIR @ ''/'' @ e"

definition req_name :: "string \<Rightarrow> string" where
  "req_name e = SPOOLDIR @ ''/'' @ REQDIR @ ''/'' @ e"

subsection \<open>System calls\<close>

definition next_fs :: "fsres pd" where
  "next_fs s = (case fsplan s of [] \<Rightarrow> (Inr FsOk, s) | r # rs \<Rightarrow> (Inr r, s\<lparr>fsplan := rs\<rparr>))"

text \<open>\<open>creat\<close> truncates or creates; the result is \<open>errno\<close> when it failed.\<close>

definition k_creat :: "string \<Rightarrow> nat option pd" where
  "k_creat name =
     bnd next_fs (\<lambda>r. case r of
        FsErr e \<Rightarrow> ret (Some e)
      | _ \<Rightarrow> bnd (modify (\<lambda>s. s\<lparr>spool := (spool s)(name \<mapsto> [])\<rparr>)) (\<lambda>_. ret None))"

text \<open>\<open>write\<close> at the end of an open spool file: the count and \<open>errno\<close>.\<close>

definition k_append :: "string \<Rightarrow> string \<Rightarrow> unit pd" where
  "k_append name bs = modify (\<lambda>s. s\<lparr>spool := (spool s)(name \<mapsto> the (spool s name) @ bs)\<rparr>)"

definition k_fwrite :: "string \<Rightarrow> string \<Rightarrow> (int \<times> nat) pd" where
  "k_fwrite name bs =
     bnd next_fs (\<lambda>r. case r of
        FsErr e \<Rightarrow> ret (-1, e)
      | FsShort k \<Rightarrow> bnd (k_append name (take k bs)) (\<lambda>_. ret (int (min k (length bs)), 0))
      | FsOk \<Rightarrow> bnd (k_append name bs) (\<lambda>_. ret (int (length bs), 0)))"

definition k_unlink :: "string \<Rightarrow> unit pd" where
  "k_unlink name = modify (\<lambda>s. s\<lparr>spool := (spool s)(name := None)\<rparr>)"

text \<open>\<open>open\<close> for reading, and the first \<open>read\<close> of at most \<open>n\<close> bytes.\<close>

definition k_open :: "string \<Rightarrow> bool pd" where
  "k_open name = bnd next_fs (\<lambda>r. bnd (gets (\<lambda>s. spool s name)) (\<lambda>f.
     ret (case r of FsErr _ \<Rightarrow> False | _ \<Rightarrow> f \<noteq> None)))"

definition k_read :: "string \<Rightarrow> nat \<Rightarrow> string option pd" where
  "k_read name n = bnd next_fs (\<lambda>r. bnd (gets (\<lambda>s. the (spool s name))) (\<lambda>f.
     ret (case r of FsErr _ \<Rightarrow> None | FsShort k \<Rightarrow> Some (take (min n k) f) | FsOk \<Rightarrow> Some (take n f))))"

definition EIO_NUM :: nat where "EIO_NUM = 5"

fun errno_num :: "io_errno option \<Rightarrow> nat" where
  "errno_num (Some ETIME) = 62"
| "errno_num (Some EINTR) = 4"
| "errno_num (Some EIO) = EIO_NUM"
| "errno_num None = 0"

definition lift_opt :: "(printd \<Rightarrow> 'a option) \<Rightarrow> 'a pd" where
  "lift_opt f = (\<lambda>s. case f s of None \<Rightarrow> (Inl BadAccess, s) | Some x \<Rightarrow> (Inr x, s))"

subsection \<open>Job numbers\<close>

definition get_newjobno :: "32 word pd" where
  "get_newjobno =
     bnd (gets nextjob) (\<lambda>jobid.
     bnd (modify (\<lambda>s. s\<lparr>nextjob := jobid + 1\<rparr>)) (\<lambda>_.
     bnd (gets nextjob) (\<lambda>n.
     bnd (if sint n \<le> 0 then modify (\<lambda>s. s\<lparr>nextjob := 1\<rparr>) else ret ()) (\<lambda>_.
     ret jobid))))"

definition update_jobno :: "unit pd" where
  "update_jobno =
     bnd next_fs (\<lambda>r. case r of
        FsErr _ \<Rightarrow> fail LogQuit
      | FsShort k \<Rightarrow> modify (\<lambda>s. let buf = take k (sdec (nextjob s)) in s\<lparr>jobfile := buf @ drop (length buf) (jobfile s)\<rparr>)
      | FsOk \<Rightarrow> modify (\<lambda>s. let buf = sdec (nextjob s) in s\<lparr>jobfile := buf @ drop (length buf) (jobfile s)\<rparr>))"

text \<open>
  The name buffer is reused for the job number, so the digits read are followed by the rest
  of the path. The daemon quits when another one holds the lock on the file.
\<close>

definition job_path :: string where
  "job_path = SPOOLDIR @ ''/'' @ JOBFILE @ [NUL]"

definition init_request :: "bool \<Rightarrow> unit pd" where
  "init_request locked =
     bnd (check (\<not> locked) LogQuit) (\<lambda>_.
     bnd next_fs (\<lambda>r. case r of
        FsErr _ \<Rightarrow> fail LogQuit
      | _ \<Rightarrow> bnd (gets (\<lambda>s. take FILENMSZ (jobfile s))) (\<lambda>bs.
          if length bs = 0 then modify (\<lambda>s. s\<lparr>nextjob := 1\<rparr>)
          else modify (\<lambda>s. s\<lparr>nextjob := word_of_int (atol (bs @ drop (length bs) job_path))\<rparr>))))"

subsection \<open>Queueing a job and picking one\<close>

definition pd_add_job :: "printreq \<Rightarrow> 32 word \<Rightarrow> unit pd" where
  "pd_add_job r jid =
     bnd (gets oom) (\<lambda>b.
     bnd (check (\<not> b) LogQuit) (\<lambda>_.
     bnd (lift_opt (\<lambda>s. add_job r jid (next_addr s) (jobs s))) (\<lambda>q.
     modify (\<lambda>s. s\<lparr>jobs := q, next_addr := next_addr s + 1\<rparr>))))"

text \<open>
  The entries of the directory, in the order \<open>readdir\<close> gives them, are an argument. A control file that has been read in full is never
  closed; \<open>unclosed\<close> has the entries of which the daemon keeps a descriptor.
\<close>

fun qonstart_loop :: "string list \<Rightarrow> unit pd" where
  "qonstart_loop [] = ret ()"
| "qonstart_loop (e # es) =
     (if e = ''.'' \<or> e = ''..'' then qonstart_loop es
      else bnd (k_open (req_name e)) (\<lambda>opened.
        if \<not> opened then qonstart_loop es
        else bnd (k_read (req_name e) SIZEOF_REQ) (\<lambda>r. case r of
          Some bs \<Rightarrow>
            if length bs \<noteq> SIZEOF_REQ
            then bnd (k_unlink (req_name e)) (\<lambda>_. bnd (k_unlink (data_name e)) (\<lambda>_. qonstart_loop es))
            else bnd (modify (\<lambda>s. s\<lparr>unclosed := e # unclosed s\<rparr>)) (\<lambda>_.
                 bnd (pd_add_job (req_of_raw bs) (word_of_int (atol e))) (\<lambda>_. qonstart_loop es))
        | None \<Rightarrow> bnd (k_unlink (req_name e)) (\<lambda>_. bnd (k_unlink (data_name e)) (\<lambda>_. qonstart_loop es)))))"

definition build_qonstart :: "string list option \<Rightarrow> unit pd" where
  "build_qonstart dir = (case dir of None \<Rightarrow> ret () | Some es \<Rightarrow> qonstart_loop es)"

subsection \<open>The client thread\<close>

definition strncpy :: "nat \<Rightarrow> string \<Rightarrow> string" where
  "strncpy n s = take n s @ replicate (n - length s) NUL"

definition resp_raw :: "printresp \<Rightarrow> string" where
  "resp_raw r = le32 (retcode r) @ le32 (pr_jobid r) @ pr_msg r"

definition answer :: "printresp \<Rightarrow> unit pd" where
  "answer r = modify (\<lambda>s. s\<lparr>sock_out := snd (writen (resp_raw r) (sock_out s))\<rparr>)"

text \<open>An error answer: the text is that of the code in network order, as in the source.\<close>

definition refuse :: "(int \<Rightarrow> string) \<Rightarrow> nat \<Rightarrow> unit pd" where
  "refuse strerr err =
     (let rc = htonl (of_nat err) in answer \<lparr>retcode = rc, pr_jobid = 0, pr_msg = strncpy MSGLEN_MAX (strerr (sint rc))\<rparr>)"

definition pd_add_worker :: "nat \<Rightarrow> int \<Rightarrow> nat option \<Rightarrow> bool pd" where
  "pd_add_worker tid fd malloc =
     bnd (lift_opt (\<lambda>s. add_worker tid fd malloc (workl s))) (\<lambda>(ok, w).
     bnd (modify (\<lambda>s. s\<lparr>workl := w\<rparr>)) (\<lambda>_. ret ok))"

text \<open>Leaving the thread runs its cleanup handler; the result is the thread's exit status.\<close>

definition thread_exit :: "nat \<Rightarrow> int \<Rightarrow> int pd" where
  "thread_exit tid status =
     bnd (lift_opt (\<lambda>s. client_cleanup tid (workl s))) (\<lambda>(fd, w).
     bnd (modify (\<lambda>s. s\<lparr>workl := w, closed := closed s @ (case fd of None \<Rightarrow> [] | Some f \<Rightarrow> [f])\<rparr>)) (\<lambda>_.
     ret status))"

lemma next_fs_cases: "next_fs s = (x, t) \<Longrightarrow> \<exists>r p. x = Inr r \<and> t = s\<lparr>fsplan := p\<rparr>"
  by (auto simp: next_fs_def split: list.splits intro: exI [of _ "fsplan s"])

lemma k_fwrite_cases:
  assumes "k_fwrite name bs s = (x, t)"
  shows "\<exists>nw e p. x = Inr (nw, e) \<and>
    (nw < 0 \<and> t = s\<lparr>fsplan := p\<rparr> \<or>
     (\<exists>k\<le>length bs. nw = int k \<and> t = s\<lparr>fsplan := p, spool := (spool s)(name \<mapsto> the (spool s name) @ take k bs)\<rparr>))"
proof -
  obtain r p where n: "next_fs s = (Inr r, s\<lparr>fsplan := p\<rparr>)" using next_fs_cases [of s] by (metis surj_pair)
  show ?thesis
  proof (cases r)
    case FsOk
    then show ?thesis using assms n by (auto simp: k_fwrite_def k_append_def run_simps bnd_def intro!: exI [of _ p])
  next
    case (FsErr e)
    then show ?thesis using assms n by (auto simp: k_fwrite_def k_append_def run_simps bnd_def intro!: exI [of _ p])
  next
    case (FsShort k)
    then show ?thesis using assms n
      by (auto simp: k_fwrite_def k_append_def run_simps bnd_def min_def intro!: exI [of _ p] exI [of _ "min k (length bs)"])
  qed
qed

lemma recv_step_decreases:
  assumes "(Some bs, d) = tread n (sock_in s)" and "bs \<noteq> []" and "(Inr (nw, e), t) = k_fwrite name bs (s\<lparr>sock_in := d\<rparr>)"
  shows "length (rbytes (sock_in t)) < length (rbytes (sock_in s))"
proof -
  have "sock_in t = d" using k_fwrite_cases [OF assms(3) [symmetric]] by auto
  moreover have "rbytes (sock_in s) = bs @ rbytes d" using timed.rd_some [OF assms(1) [symmetric]] by simp
  ultimately show ?thesis using assms(2) by simp
qed

text \<open>
  The loop that copies the data from the socket to the spool file; \<open>junk\<close> is what the
  stack buffer holds after the bytes read. A failing or timed-out read ends it like the
  end of the data. The result is the request, whose text flag may have been set, and
  \<open>errno\<close> when a write failed.
\<close>

function recv_data :: "string \<Rightarrow> string \<Rightarrow> bool \<Rightarrow> printreq \<Rightarrow> printd \<Rightarrow> (printreq \<times> nat option) \<times> printd" where
  "recv_data name junk first r s =
     (case tread IOBUFSZ (sock_in s) of
        (None, d) \<Rightarrow> ((r, None), s\<lparr>sock_in := d\<rparr>)
      | (Some bs, d) \<Rightarrow>
          if bs = [] then ((r, None), s\<lparr>sock_in := d\<rparr>)
          else
            let r = (if first \<and> \<not> strncmp_eq (bs @ junk) ''%!PS'' 4 then r\<lparr>pr_flags := pr_flags r OR PR_TEXT\<rparr> else r)
            in case k_fwrite name bs (s\<lparr>sock_in := d\<rparr>) of
                 (Inl _, s) \<Rightarrow> ((r, Some 0), s)
               | (Inr (nw, e), s) \<Rightarrow>
                   if nw \<noteq> int (length bs) then ((r, Some (if nw < 0 then e else EIO_NUM)), s)
                   else recv_data name junk False r s)"
  by pat_completeness auto
termination
  by (relation "measure (\<lambda>(name, junk, first, r, s). length (rbytes (sock_in s)))")
     (auto intro: recv_step_decreases)

declare recv_data.simps [simp del]

text \<open>\<open>junk\<close> and \<open>mjunk\<close> are the former contents of the stack buffers \<open>buf\<close> and \<open>res.msg\<close>.\<close>

definition sprintf_msg :: "32 word \<Rightarrow> string \<Rightarrow> string" where
  "sprintf_msg jid mjunk = (let m = ''request ID '' @ sdec jid @ [NUL] in m @ drop (length m) mjunk)"

definition store_control :: "(int \<Rightarrow> string) \<Rightarrow> string \<Rightarrow> nat \<Rightarrow> 32 word \<Rightarrow> printreq \<Rightarrow> int pd" where
  "store_control strerr mjunk tid jid r =
     bnd (k_creat (req_name (sdec jid))) (\<lambda>e. case e of
       Some err \<Rightarrow> bnd (refuse strerr err) (\<lambda>_. bnd (k_unlink (data_name (sdec jid))) (\<lambda>_. thread_exit tid 1))
     | None \<Rightarrow>
     bnd (k_fwrite (req_name (sdec jid)) (req_raw r)) (\<lambda>(nw, err).
     if nw \<noteq> int SIZEOF_REQ then
       bnd (refuse strerr (if nw < 0 then err else EIO_NUM)) (\<lambda>_.
       bnd (k_unlink (req_name (sdec jid))) (\<lambda>_.
       bnd (k_unlink (data_name (sdec jid))) (\<lambda>_. thread_exit tid 1)))
     else
     bnd (answer \<lparr>retcode = 0, pr_jobid = htonl jid, pr_msg = sprintf_msg jid mjunk\<rparr>) (\<lambda>_.
     bnd (pd_add_job r jid) (\<lambda>_.
     thread_exit tid 0))))"

definition pd_recv_data :: "string \<Rightarrow> string \<Rightarrow> printreq \<Rightarrow> (printreq \<times> nat option) pd" where
  "pd_recv_data name junk r = (\<lambda>s. let (p, s) = recv_data name junk True r s in (Inr p, s))"

definition store_data :: "(int \<Rightarrow> string) \<Rightarrow> string \<Rightarrow> string \<Rightarrow> nat \<Rightarrow> 32 word \<Rightarrow> printreq \<Rightarrow> int pd" where
  "store_data strerr junk mjunk tid jid r =
     bnd (k_creat (data_name (sdec jid))) (\<lambda>e. case e of
       Some err \<Rightarrow> bnd (refuse strerr err) (\<lambda>_. thread_exit tid 1)
     | None \<Rightarrow>
     bnd (pd_recv_data (data_name (sdec jid)) junk r) (\<lambda>(r, e). case e of
       Some err \<Rightarrow> bnd (refuse strerr err) (\<lambda>_. bnd (k_unlink (data_name (sdec jid))) (\<lambda>_. thread_exit tid 1))
     | None \<Rightarrow> store_control strerr mjunk tid jid r))"

definition pd_treadn :: "nat \<Rightarrow> (int \<times> string) pd" where
  "pd_treadn n = (\<lambda>s. let (p, d) = treadn n (sock_in s) in (Inr p, s\<lparr>sock_in := d\<rparr>))"

definition client_thread :: "(int \<Rightarrow> string) \<Rightarrow> string \<Rightarrow> string \<Rightarrow> nat \<Rightarrow> int \<Rightarrow> nat option \<Rightarrow> int pd" where
  "client_thread strerr junk mjunk tid fd malloc =
     bnd (pd_add_worker tid fd malloc) (\<lambda>ok.
     if \<not> ok then thread_exit tid 1 else
     bnd (pd_treadn SIZEOF_REQ) (\<lambda>(n, raw).
     if n \<noteq> int SIZEOF_REQ then
       bnd (gets (\<lambda>s. if n < 0 then errno_num (r_errno (sock_in s)) else EIO_NUM)) (\<lambda>err.
       bnd (refuse strerr err) (\<lambda>_. thread_exit tid 1))
     else
     bnd get_newjobno (\<lambda>jid.
     store_data strerr junk mjunk tid jid (req_ntoh (req_of_raw raw)))))"

subsection \<open>Signals\<close>

datatype signo = SIGHUP | SIGTERM | SIGOTHER

text \<open>One turn of \<open>signal_thread\<close>: the threads cancelled, and whether the daemon goes on.\<close>

definition signal_thread :: "signo option \<Rightarrow> (nat list \<times> bool) pd" where
  "signal_thread sg = (case sg of
       None \<Rightarrow> fail LogQuit
     | Some SIGHUP \<Rightarrow> bnd (modify (\<lambda>s. s\<lparr>reread := True\<rparr>)) (\<lambda>_. ret ([], True))
     | Some SIGTERM \<Rightarrow> bnd (lift_opt (\<lambda>s. kill_workers (workl s))) (\<lambda>ts. ret (ts, False))
     | Some SIGOTHER \<Rightarrow> bnd (lift_opt (\<lambda>s. kill_workers (workl s))) (\<lambda>_. fail LogQuit))"

subsection \<open>What each step does to the state\<close>

lemma lift_opt_cases: "lift_opt f s = (Inr x, t) \<Longrightarrow> f s = Some x \<and> t = s"
  by (auto simp: lift_opt_def split: option.splits)

lemma add_worker_step:
  "pd_add_worker tid fd malloc s = (Inr ok, t) \<Longrightarrow> \<exists>w. t = s\<lparr>workl := w\<rparr>"
  by (auto simp: pd_add_worker_def run_simps split: prod.splits elim!: bnd_Inr_cases dest!: lift_opt_cases)

lemma thread_exit_step:
  "thread_exit tid st s = (Inr c, t) \<Longrightarrow> c = st \<and> (\<exists>w cl. t = s\<lparr>workl := w, closed := cl\<rparr>)"
  by (fastforce simp: thread_exit_def run_simps split: prod.splits elim!: bnd_Inr_cases dest!: lift_opt_cases)

lemma newjobno_step:
  "get_newjobno s = (Inr j, t) \<Longrightarrow> j = nextjob s \<and> t = s\<lparr>nextjob := (if sint (nextjob s + 1) \<le> 0 then 1 else nextjob s + 1)\<rparr>"
  by (auto simp: get_newjobno_def run_simps bnd_def split: if_splits)

lemma answer_step: "answer r s = (Inr (), s\<lparr>sock_out := snd (writen (resp_raw r) (sock_out s))\<rparr>)"
  by (simp add: answer_def run_simps)

lemma refuse_step: "refuse strerr e s = (Inr u, t) \<Longrightarrow> \<exists>d. t = s\<lparr>sock_out := d\<rparr>"
  by (auto simp: refuse_def answer_step Let_def)

lemma unlink_step: "k_unlink name s = (Inr u, t) \<Longrightarrow> t = s\<lparr>spool := (spool s)(name := None)\<rparr>"
  by (simp add: k_unlink_def run_simps)

lemma creat_step:
  assumes "k_creat name s = (Inr e, t)"
  shows "\<exists>p. t = (if e = None then s\<lparr>fsplan := p, spool := (spool s)(name \<mapsto> [])\<rparr> else s\<lparr>fsplan := p\<rparr>)"
  using assms next_fs_cases
  by (fastforce simp: k_creat_def run_simps split: fsres.splits elim!: bnd_Inr_cases)

lemma add_job_step:
  assumes "pd_add_job r jid s = (Inr u, t)"
  shows "\<exists>q. add_job r jid (next_addr s) (jobs s) = Some q \<and> t = s\<lparr>jobs := q, next_addr := next_addr s + 1\<rparr>"
  using assms by (auto simp: pd_add_job_def run_simps elim!: bnd_Inr_cases dest!: lift_opt_cases split: if_splits)

lemma nothing_appended:
  assumes "spool s name = Some old"
  shows "s\<lparr>sock_in := d, fsplan := p\<rparr> = s\<lparr>sock_in := d, fsplan := p, spool := (spool s)(name \<mapsto> old @ [])\<rparr>"
    and "s\<lparr>sock_in := d\<rparr> = s\<lparr>sock_in := d, fsplan := fsplan s, spool := (spool s)(name \<mapsto> old @ [])\<rparr>"
  using assms by (cases s; simp add: fun_upd_idem)+

text \<open>
  What arrives on a socket: the bytes of one read after the other, up to the first one that fails, times out or finds the end. The
  first piece decides whether the request is marked as text.
\<close>

inductive drains :: "rdesc \<Rightarrow> string \<Rightarrow> rdesc \<Rightarrow> bool" where
  fails: "tread IOBUFSZ d = (None, d') \<Longrightarrow> drains d [] d'"
| ends: "tread IOBUFSZ d = (Some [], d') \<Longrightarrow> drains d [] d'"
| more: "tread IOBUFSZ d = (Some bs, d') \<Longrightarrow> bs \<noteq> [] \<Longrightarrow> drains d' body d'' \<Longrightarrow> drains d (bs @ body) d''"

lemma drains_stream: "drains d body d' \<Longrightarrow> rbytes d = body @ rbytes d'"
  by (induction rule: drains.induct) (auto dest: timed.rd_some timed.rd_none)

lemma drains_all: "drains d body d' \<Longrightarrow> polls_ok d \<Longrightarrow> rbytes d' = []"
proof (induction rule: drains.induct)
  case (fails d d')
  then show ?case using polls_ok_step [of d IOBUFSZ] timed.rd_none [OF fails(1)] by (auto simp: IOBUFSZ_def)
next
  case (ends d d')
  then show ?case using timed.rd_eof [OF ends(1)] timed.rd_some [OF ends(1)] by (auto simp: IOBUFSZ_def)
next
  case (more d bs d' body d'')
  have "rbytes d \<noteq> []" using timed.rd_some [OF more(1)] more(2) by simp
  then have "polls_ok d'" using polls_ok_step [OF more.prems, of IOBUFSZ] more(1) by (auto simp: IOBUFSZ_def)
  then show ?case by (rule more.IH)
qed

definition text_flag :: "string \<Rightarrow> rdesc \<Rightarrow> printreq \<Rightarrow> printreq" where
  "text_flag junk d r =
     (case fst (tread IOBUFSZ d) of
        None \<Rightarrow> r
      | Some bs \<Rightarrow> if bs \<noteq> [] \<and> \<not> strncmp_eq (bs @ junk) ''%!PS'' 4 then r\<lparr>pr_flags := pr_flags r OR PR_TEXT\<rparr> else r)"

lemma wf_text_flag: "wf_req r \<Longrightarrow> wf_req (text_flag junk d r)"
  by (simp add: text_flag_def wf_req_def split: option.split)

lemma recv_data_step:
  assumes "recv_data name junk first r s = ((r', e), t)" and "spool s name = Some old"
  shows "\<exists>body p d. t = s\<lparr>sock_in := d, fsplan := p, spool := (spool s)(name \<mapsto> old @ body)\<rparr> \<and>
    (e = None \<longrightarrow> r' = (if first then text_flag junk (sock_in s) r else r) \<and> drains (sock_in s) body d)"
  using assms
proof (induction name junk first r s arbitrary: old rule: recv_data.induct)
  case (1 name junk first r s)
  obtain q d where q: "tread IOBUFSZ (sock_in s) = (q, d)" by fastforce
  show ?case
  proof (cases q)
    case None
    then have "r' = r" "e = None" "t = s\<lparr>sock_in := d\<rparr>" using "1.prems" q by (auto simp: recv_data.simps)
    moreover have "text_flag junk (sock_in s) r = r" "drains (sock_in s) [] d"
      using q None by (auto simp: text_flag_def intro: drains.fails)
    moreover from calculation have "r' = (if first then text_flag junk (sock_in s) r else r)" by simp
    ultimately show ?thesis using nothing_appended(2) [OF "1.prems"(2), of d] by blast
  next
    case (Some bs)
    show ?thesis
    proof (cases "bs = []")
      case True
      then have "r' = r" "e = None" "t = s\<lparr>sock_in := d\<rparr>" using "1.prems" q Some by (auto simp: recv_data.simps)
      moreover have "text_flag junk (sock_in s) r = r" "drains (sock_in s) [] d"
        using q Some True by (auto simp: text_flag_def intro: drains.ends)
      moreover from calculation have "r' = (if first then text_flag junk (sock_in s) r else r)" by simp
      ultimately show ?thesis using nothing_appended(2) [OF "1.prems"(2), of d] by blast
    next
      case False
      define r1 where "r1 = (if first \<and> \<not> strncmp_eq (bs @ junk) ''%!PS'' 4 then r\<lparr>pr_flags := pr_flags r OR PR_TEXT\<rparr> else r)"
      obtain x u where f: "k_fwrite name bs (s\<lparr>sock_in := d\<rparr>) = (x, u)" by fastforce
      obtain nw e0 p where x: "x = Inr (nw, e0)" and c: "nw < 0 \<and> u = s\<lparr>sock_in := d, fsplan := p\<rparr> \<or>
         (\<exists>k\<le>length bs. nw = int k \<and> u = s\<lparr>sock_in := d, fsplan := p, spool := (spool s)(name \<mapsto> old @ take k bs)\<rparr>)"
        using k_fwrite_cases [OF f] "1.prems"(2) by auto
      have r1: "r1 = (if first then text_flag junk (sock_in s) r else r)" using q Some False by (simp add: r1_def text_flag_def)
      have E: "recv_data name junk first r s =
          (if nw \<noteq> int (length bs) then ((r1, Some (if nw < 0 then e0 else EIO_NUM)), u) else recv_data name junk False r1 u)"
        using q Some False f x by (simp add: recv_data.simps [of name junk first] r1_def Let_def)
      show ?thesis
      proof (cases "nw = int (length bs)")
        case True
        then have u: "u = s\<lparr>sock_in := d, fsplan := p, spool := (spool s)(name \<mapsto> old @ bs)\<rparr>" using c by auto
        have R: "recv_data name junk False r1 u = ((r', e), t)" using "1.prems"(1) E True by simp
        have sp: "spool u name = Some (old @ bs)" using u by simp
        have n: "\<not> nw \<noteq> int (length bs)" using True by simp
        from "1.IH" [OF q [symmetric] Some False r1_def f [symmetric] x refl n R sp]
        obtain body p' d' where b: "t = u\<lparr>sock_in := d', fsplan := p', spool := (spool u)(name \<mapsto> (old @ bs) @ body)\<rparr>"
          "e = None \<longrightarrow> r' = r1 \<and> drains (sock_in u) body d'" unfolding if_False by blast
        have "t = s\<lparr>sock_in := d', fsplan := p', spool := (spool s)(name \<mapsto> old @ (bs @ body))\<rparr>" using b(1) u by simp
        moreover have "e = None \<longrightarrow> r' = r1 \<and> drains (sock_in s) (bs @ body) d'"
          using b(2) u drains.more [OF q [unfolded Some] False] by simp
        ultimately show ?thesis unfolding r1 by blast
      next
        case F: False
        then have R: "e \<noteq> None" "t = u" using "1.prems"(1) E by auto
        from c show ?thesis
        proof
          assume "nw < 0 \<and> u = s\<lparr>sock_in := d, fsplan := p\<rparr>"
          then have "t = s\<lparr>sock_in := d, fsplan := p, spool := (spool s)(name \<mapsto> old @ [])\<rparr>"
            using R(2) nothing_appended(1) [OF "1.prems"(2), where d = d and p = p] by simp
          then show ?thesis using R by blast
        next
          assume "\<exists>k\<le>length bs. nw = int k \<and> u = s\<lparr>sock_in := d, fsplan := p, spool := (spool s)(name \<mapsto> old @ take k bs)\<rparr>"
          then obtain k where "t = s\<lparr>sock_in := d, fsplan := p, spool := (spool s)(name \<mapsto> old @ take k bs)\<rparr>" using R(2) by auto
          then show ?thesis using R by blast
        qed
      qed
    qed
  qed
qed

subsection \<open>What a client can do to the spool\<close>

text \<open>
  \<open>took junk s body r\<close>: on the socket of \<open>s\<close> there is a header of the right size, then \<open>body\<close> arrives, and \<open>r\<close> is the request of
  the header in host order with the text flag of the body. \<open>queued s t xs jid r\<close>: \<open>t\<close> has the queue \<open>xs\<close> of \<open>s\<close> and behind it a new job.
\<close>

definition took :: "string \<Rightarrow> printd \<Rightarrow> string \<Rightarrow> printreq \<Rightarrow> bool" where
  "took junk s body r \<longleftrightarrow> (\<exists>hdr d d'. treadn SIZEOF_REQ (sock_in s) = ((int SIZEOF_REQ, hdr), d) \<and>
     drains d body d' \<and> r = text_flag junk d (req_ntoh (req_of_raw hdr)))"

definition queued :: "printd \<Rightarrow> printd \<Rightarrow> nat list \<Rightarrow> 32 word \<Rightarrow> printreq \<Rightarrow> bool" where
  "queued s t xs jid r \<longleftrightarrow> isq (jobs t) (xs @ [next_addr s]) \<and> data_at (jobs t) (next_addr s) = \<lparr>jobid = jid, req = r\<rparr> \<and>
     same_data (jobs s) (jobs t) xs"

lemma names_differ [simp]: "data_name e \<noteq> req_name e'" "req_name e' \<noteq> data_name e"
  by (simp_all add: data_name_def req_name_def DATADIR_def REQDIR_def)

text \<open>The worker list has no dangling pointer for this thread, see \<open>workers_list_broken\<close>.\<close>

definition worker_fits :: "nat \<Rightarrow> int \<Rightarrow> nat option \<Rightarrow> printd \<Rightarrow> bool" where
  "worker_fits tid fd malloc s \<longleftrightarrow> (\<exists>ok w. add_worker tid fd malloc (workl s) = Some (ok, w) \<and> client_cleanup tid w \<noteq> None)"

lemma thread_exit_total:
  "client_cleanup tid (workl s) \<noteq> None \<Longrightarrow> \<exists>w cl. runs (thread_exit tid st) s st (s\<lparr>workl := w, closed := cl\<rparr>)"
proof -
  assume "client_cleanup tid (workl s) \<noteq> None"
  then obtain fd w where "client_cleanup tid (workl s) = Some (fd, w)" by auto
  then have "runs (thread_exit tid st) s st (s\<lparr>workl := w, closed := closed s @ (case fd of None \<Rightarrow> [] | Some f \<Rightarrow> [f])\<rparr>)"
    by (simp add: runs_def thread_exit_def lift_opt_def bnd_def run_simps)
  then show ?thesis by blast
qed

lemma refuse_runs: "\<exists>d. runs (refuse strerr e) s () (s\<lparr>sock_out := d\<rparr>)"
  by (auto simp: refuse_def answer_step Let_def runs_def)

lemma unlink_runs: "runs (k_unlink n) s () (s\<lparr>spool := (spool s)(n := None)\<rparr>)"
  by (simp add: k_unlink_def)

lemma creat_total:
  "\<exists>e p. runs (k_creat name) s e (if e = None then s\<lparr>fsplan := p, spool := (spool s)(name \<mapsto> [])\<rparr> else s\<lparr>fsplan := p\<rparr>)"
proof -
  obtain r p where n: "runs next_fs s r (s\<lparr>fsplan := p\<rparr>)" using next_fs_cases [of s] by (metis surj_pair runs_def)
  show ?thesis
    by (cases r) (use n in \<open>auto simp: k_creat_def runs_step [OF n] intro!: exI [of _ p]\<close>)
qed

lemma restrict_all: "m |` UNIV = m"
  by (simp add: restrict_map_def)

text \<open>The ways out of the thread after an error: the client is told, and the files are removed.\<close>

fun drop_files :: "string list \<Rightarrow> nat \<Rightarrow> int pd" where
  "drop_files [] tid = thread_exit tid 1"
| "drop_files (n # ns) tid = bnd (k_unlink n) (\<lambda>_. drop_files ns tid)"

lemma drop_files_total:
  "client_cleanup tid (workl s) \<noteq> None \<Longrightarrow>
    \<exists>t. runs (drop_files ns tid) s 1 t \<and> jobs t = jobs s \<and> spool t = spool s |` (- set ns)"
proof (induction ns arbitrary: s)
  case Nil
  then show ?case using thread_exit_total [of tid s 1] by auto
next
  case (Cons n ns)
  let ?s = "s\<lparr>spool := (spool s)(n := None)\<rparr>"
  have "client_cleanup tid (workl ?s) \<noteq> None" using Cons.prems by simp
  from Cons.IH [OF this] obtain t where t: "runs (drop_files ns tid) ?s 1 t" "jobs t = jobs ?s" "spool t = spool ?s |` (- set ns)" by blast
  show ?case using t by (intro exI [of _ t]) (auto simp: runs_step [OF unlink_runs] fun_eq_iff restrict_map_def)
qed

lemma refused_total:
  assumes "client_cleanup tid (workl s) \<noteq> None"
  shows "\<exists>t. runs (bnd (refuse strerr e) (\<lambda>_. drop_files ns tid)) s 1 t \<and> jobs t = jobs s \<and>
    spool t = spool s |` (- set ns)"
proof -
  obtain d where d: "runs (refuse strerr e) s () (s\<lparr>sock_out := d\<rparr>)" using refuse_runs by blast
  show ?thesis using drop_files_total [of tid "s\<lparr>sock_out := d\<rparr>" ns] assms by (simp add: runs_step [OF d])
qed

lemma pd_add_job_total:
  assumes "isq (jobs s) xs" and "next_addr s \<notin> set xs"
  obtains (full) "oom s" "pd_add_job r jid s = (Inl LogQuit, s)"
  | (added) q where "\<not> oom s" "runs (pd_add_job r jid) s () (s\<lparr>jobs := q, next_addr := next_addr s + 1\<rparr>)"
      "queued s (s\<lparr>jobs := q, next_addr := next_addr s + 1\<rparr>) xs jid r"
proof (cases "oom s")
  case True
  then show thesis using full by (simp add: pd_add_job_def bnd_def run_simps)
next
  case False
  obtain q where q: "add_job r jid (next_addr s) (jobs s) = Some q" "isq q (xs @ [next_addr s])"
    "data_at q (next_addr s) = \<lparr>jobid = jid, req = r\<rparr>" "same_data (jobs s) q xs" using add_job_isq [OF assms] by blast
  have "runs (pd_add_job r jid) s () (s\<lparr>jobs := q, next_addr := next_addr s + 1\<rparr>)"
    using False q(1) by (simp add: runs_def pd_add_job_def lift_opt_def bnd_def run_simps)
  then show thesis using added False q by (simp add: queued_def)
qed

lemma store_control_outcome:
  fixes jid :: "32 word"
  assumes wk: "client_cleanup tid (workl s) \<noteq> None" and q: "isq (jobs s) xs" "next_addr s \<notin> set xs" and wf: "wf_req r"
  defines "D \<equiv> data_name (sdec jid)" and "Q \<equiv> req_name (sdec jid)"
  obtains (failed) t ns where "store_control strerr mjunk tid jid r s = (Inr 1, t)" "jobs t = jobs s" "ns = [D] \<or> ns = [Q, D]"
      "spool t = spool s |` (- set ns)"
  | (stored) t where "store_control strerr mjunk tid jid r s = (if oom s then Inl LogQuit else Inr 0, t)"
      "spool t = (spool s)(Q \<mapsto> req_raw r)" "if oom s then jobs t = jobs s else queued s t xs jid r"
proof -
  obtain e p where 1: "runs (k_creat Q) s e (if e = None then s\<lparr>fsplan := p, spool := (spool s)(Q \<mapsto> [])\<rparr> else s\<lparr>fsplan := p\<rparr>)"
    using creat_total by blast
  show thesis
  proof (cases e)
    case (Some err)
    have 1: "runs (k_creat Q) s (Some err) (s\<lparr>fsplan := p\<rparr>)" using 1 Some by simp
    obtain t where t: "runs (bnd (refuse strerr err) (\<lambda>_. drop_files [D] tid)) (s\<lparr>fsplan := p\<rparr>) 1 t" "jobs t = jobs s"
      "spool t = spool s |` (- set [D])"
      using refused_total [of tid "s\<lparr>fsplan := p\<rparr>" strerr err "[D]"] wk by auto
    have "store_control strerr mjunk tid jid r s = (Inr 1, t)"
      using t(1) unfolding store_control_def Q_def [symmetric] D_def [symmetric] bnd_step [OF 1] by (simp add: runs_def)
    then show thesis using failed t(2,3) by blast
  next
    case None
    define s1 where "s1 = s\<lparr>fsplan := p, spool := (spool s)(Q \<mapsto> [])\<rparr>"
    have 1: "runs (k_creat Q) s None s1" using 1 None by (simp add: s1_def)
    obtain x s2 where f: "k_fwrite Q (req_raw r) s1 = (x, s2)" by fastforce
    obtain nw err p2 where x: "x = Inr (nw, err)" and c: "nw < 0 \<and> s2 = s1\<lparr>fsplan := p2\<rparr> \<or>
        (\<exists>k\<le>length (req_raw r). nw = int k \<and> s2 = s1\<lparr>fsplan := p2, spool := (spool s1)(Q \<mapsto> take k (req_raw r))\<rparr>)"
      using k_fwrite_cases [OF f] by (auto simp: s1_def)
    have 2: "runs (k_fwrite Q (req_raw r)) s1 (nw, err) s2" using f x by (simp add: runs_def)
    have same: "workl s2 = workl s" "jobs s2 = jobs s" "next_addr s2 = next_addr s" "oom s2 = oom s" "\<And>n. n \<noteq> Q \<Longrightarrow> spool s2 n = spool s n"
      using c by (auto simp: s1_def)
    show thesis
    proof (cases "nw = int SIZEOF_REQ")
      case False
      obtain t where t: "runs (bnd (refuse strerr (if nw < 0 then err else EIO_NUM)) (\<lambda>_. drop_files [Q, D] tid)) s2 1 t" "jobs t = jobs s"
        "spool t = spool s2 |` (- set [Q, D])"
        using refused_total [of tid s2 strerr "if nw < 0 then err else EIO_NUM" "[Q, D]"] wk same by auto
      have "store_control strerr mjunk tid jid r s = (Inr 1, t)"
        using t(1) False unfolding store_control_def Q_def [symmetric] D_def [symmetric] bnd_step [OF 1] option.case bnd_step [OF 2] prod.case
        by (simp add: runs_def)
      moreover have "spool t = spool s |` (- set [Q, D])" using t(3) same(5) by (auto simp: fun_eq_iff restrict_map_def)
      ultimately show thesis using failed t(2) by blast
    next
      case True
      then have sp: "spool s2 = (spool s)(Q \<mapsto> req_raw r)" using c length_req_raw [OF wf] by (auto simp: s1_def)
      define s3 where "s3 = s2\<lparr>sock_out := snd (writen (resp_raw \<lparr>retcode = 0, pr_jobid = htonl jid, pr_msg = sprintf_msg jid mjunk\<rparr>) (sock_out s2))\<rparr>"
      have 3: "runs (answer \<lparr>retcode = 0, pr_jobid = htonl jid, pr_msg = sprintf_msg jid mjunk\<rparr>) s2 () s3"
        by (simp add: runs_def answer_step s3_def)
      have run: "store_control strerr mjunk tid jid r s = bnd (pd_add_job r jid) (\<lambda>_. thread_exit tid 0) s3"
        using True unfolding store_control_def Q_def [symmetric] D_def [symmetric] bnd_step [OF 1] option.case bnd_step [OF 2] prod.case
        by (simp add: bnd_step [OF 3])
      have q3: "isq (jobs s3) xs" "next_addr s3 \<notin> set xs" using q same by (simp_all add: s3_def)
      from q3 show thesis
      proof (cases rule: pd_add_job_total [of s3 xs r jid])
        case full
        then show thesis using stored [of s3] run sp same by (simp add: bnd_def s3_def)
      next
        case (added q')
        define s4 where "s4 = s3\<lparr>jobs := q', next_addr := next_addr s3 + 1\<rparr>"
        obtain w cl where 5: "runs (thread_exit tid 0) s4 0 (s4\<lparr>workl := w, closed := cl\<rparr>)"
          using thread_exit_total [of tid s4 0] wk same by (auto simp: s4_def s3_def)
        have "store_control strerr mjunk tid jid r s = (Inr 0, s4\<lparr>workl := w, closed := cl\<rparr>)"
          unfolding run using added(2) 5 by (simp add: bnd_step [OF added(2)] runs_def s4_def)
        then show thesis using stored [of "s4\<lparr>workl := w, closed := cl\<rparr>"] added sp same by (simp add: s4_def s3_def queued_def)
      qed
    qed
  qed
qed

lemma store_data_outcome:
  fixes jid :: "32 word"
  assumes wk: "client_cleanup tid (workl s) \<noteq> None" and q: "isq (jobs s) xs" "next_addr s \<notin> set xs" and wf: "wf_req r"
  defines "D \<equiv> data_name (sdec jid)" and "Q \<equiv> req_name (sdec jid)"
  obtains (failed) t ns where "store_data strerr junk mjunk tid jid r s = (Inr 1, t)" "jobs t = jobs s" "ns \<in> {[], [D], [Q, D]}"
      "spool t = spool s |` (- set ns)"
  | (stored) t body d' r' where "store_data strerr junk mjunk tid jid r s = (if oom s then Inl LogQuit else Inr 0, t)"
      "drains (sock_in s) body d'" "r' = text_flag junk (sock_in s) r" "spool t = (spool s)(D \<mapsto> body, Q \<mapsto> req_raw r')"
      "if oom s then jobs t = jobs s else queued s t xs jid r'"
proof -
  obtain e p where 1: "runs (k_creat D) s e (if e = None then s\<lparr>fsplan := p, spool := (spool s)(D \<mapsto> [])\<rparr> else s\<lparr>fsplan := p\<rparr>)"
    using creat_total by blast
  show thesis
  proof (cases e)
    case (Some err)
    have 1: "runs (k_creat D) s (Some err) (s\<lparr>fsplan := p\<rparr>)" using 1 Some by simp
    obtain t where t: "runs (bnd (refuse strerr err) (\<lambda>_. drop_files [] tid)) (s\<lparr>fsplan := p\<rparr>) 1 t" "jobs t = jobs s"
      "spool t = spool s |` (- set [])"
      using refused_total [of tid "s\<lparr>fsplan := p\<rparr>" strerr err "[]"] wk by auto
    have "store_data strerr junk mjunk tid jid r s = (Inr 1, t)"
      using t(1) unfolding store_data_def D_def [symmetric] bnd_step [OF 1] by (simp add: runs_def)
    then show thesis using failed [OF _ t(2) _ t(3)] by blast
  next
    case None
    define s1 where "s1 = s\<lparr>fsplan := p, spool := (spool s)(D \<mapsto> [])\<rparr>"
    have 1: "runs (k_creat D) s None s1" using 1 None by (simp add: s1_def)
    obtain r' e' s2 where R: "recv_data D junk True r s1 = ((r', e'), s2)" by (metis prod.exhaust)
    have "spool s1 D = Some []" by (simp add: s1_def)
    from recv_data_step [OF R this] obtain body p2 d where s2: "s2 = s1\<lparr>sock_in := d, fsplan := p2, spool := (spool s1)(D \<mapsto> body)\<rparr>"
      and ok: "e' = None \<longrightarrow> r' = text_flag junk (sock_in s) r \<and> drains (sock_in s) body d" by (auto simp: s1_def)
    have 2: "runs (pd_recv_data D junk r) s1 (r', e') s2" using R by (simp add: runs_def pd_recv_data_def)
    have same: "workl s2 = workl s" "jobs s2 = jobs s" "next_addr s2 = next_addr s" "oom s2 = oom s" "spool s2 = (spool s)(D \<mapsto> body)"
      by (simp_all add: s2 s1_def)
    show thesis
    proof (cases e')
      case (Some err)
      obtain t where t: "runs (bnd (refuse strerr err) (\<lambda>_. drop_files [D] tid)) s2 1 t" "jobs t = jobs s"
        "spool t = spool s2 |` (- set [D])"
        using refused_total [of tid s2 strerr err "[D]"] wk same by auto
      have "store_data strerr junk mjunk tid jid r s = (Inr 1, t)"
        using t(1) unfolding store_data_def D_def [symmetric] bnd_step [OF 1] option.case bnd_step [OF 2] prod.case Some by (simp add: runs_def)
      moreover have "spool t = spool s |` (- set [D])" using t(3) same(5) by (auto simp: fun_eq_iff restrict_map_def)
      ultimately show thesis using failed t(2) by blast
    next
      case None
      have run: "store_data strerr junk mjunk tid jid r s = store_control strerr mjunk tid jid r' s2"
        unfolding store_data_def D_def [symmetric] bnd_step [OF 1] option.case bnd_step [OF 2] prod.case None ..
      have w2: "client_cleanup tid (workl s2) \<noteq> None" "isq (jobs s2) xs" "next_addr s2 \<notin> set xs" "wf_req r'"
        using wk q wf ok None same wf_text_flag by auto
      from w2 show thesis
      proof (cases rule: store_control_outcome [where strerr = strerr and mjunk = mjunk and jid = jid])
        case (failed t ns)
        have "spool t = spool s |` (- set ns)"
          using failed(3,4) same(5) by (auto simp: fun_eq_iff restrict_map_def D_def Q_def)
        then show thesis using that(1) [of t ns] failed run same by (auto simp: D_def Q_def)
      next
        case (stored t)
        have "if oom s then jobs t = jobs s else queued s t xs jid r'" using stored(3) same by (auto simp: queued_def split: if_splits)
        moreover have "store_data strerr junk mjunk tid jid r s = (if oom s then Inl LogQuit else Inr 0, t)" using stored(1) run same by simp
        moreover have "spool t = (spool s)(D \<mapsto> body, Q \<mapsto> req_raw r')" using stored(2) same by (simp add: Q_def)
        ultimately show thesis using that(2) [of t body d r'] ok None by blast
      qed
    qed
  qed
qed

text \<open>How a client thread ends: \<open>r\<close> and \<open>t\<close> are its result and the state it leaves.\<close>

definition client_outcome :: "string \<Rightarrow> nat list \<Rightarrow> printd \<Rightarrow> (pd_stop + int) \<Rightarrow> printd \<Rightarrow> bool" where
  "client_outcome junk xs s res t \<longleftrightarrow>
     (let D = data_name (sdec (nextjob s)); Q = req_name (sdec (nextjob s)) in
       res = Inr 1 \<and> jobs t = jobs s \<and> (\<exists>ns \<in> {[], [D], [Q, D]}. spool t = spool s |` (- set ns)) \<or>
       res = (if oom s then Inl LogQuit else Inr 0) \<and> (\<exists>body r. took junk s body r \<and> spool t = (spool s)(D \<mapsto> body, Q \<mapsto> req_raw r) \<and>
         (if oom s then jobs t = jobs s else queued s t xs (nextjob s) r)))"

lemma nothing_stored: "res = Inr 1 \<Longrightarrow> jobs t = jobs s \<Longrightarrow> spool t = spool s \<Longrightarrow> client_outcome junk xs s res t"
  by (simp add: client_outcome_def Let_def restrict_map_def)

lemma stored_all:
  "res = (if oom s then Inl LogQuit else Inr 0) \<Longrightarrow> took junk s body r \<Longrightarrow>
    spool t = (spool s)(data_name (sdec (nextjob s)) \<mapsto> body, req_name (sdec (nextjob s)) \<mapsto> req_raw r) \<Longrightarrow>
    (if oom s then jobs t = jobs s else queued s t xs (nextjob s) r) \<Longrightarrow> client_outcome junk xs s res t"
  unfolding client_outcome_def Let_def by blast

lemma took_stream:
  assumes "took junk s body r"
  shows "\<exists>hdr rest. length hdr = SIZEOF_REQ \<and> rbytes (sock_in s) = hdr @ body @ rest \<and> (polls_ok (sock_in s) \<longrightarrow> rest = []) \<and>
    r \<in> {req_ntoh (req_of_raw hdr), (req_ntoh (req_of_raw hdr))\<lparr>pr_flags := pr_flags (req_ntoh (req_of_raw hdr)) OR PR_TEXT\<rparr>}"
proof -
  obtain hdr d d' where t: "treadn SIZEOF_REQ (sock_in s) = ((int SIZEOF_REQ, hdr), d)" "drains d body d'"
    "r = text_flag junk d (req_ntoh (req_of_raw hdr))" using assms by (auto simp: took_def)
  have l: "rbytes (sock_in s) = hdr @ rbytes d" "length hdr = SIZEOF_REQ"
    using timed.loop_result [of SIZEOF_REQ SIZEOF_REQ "[]" "sock_in s" "int SIZEOF_REQ" hdr d] t(1) by (auto simp: treadn_def)
  have "rbytes d' = []" if p: "polls_ok (sock_in s)"
  proof -
    obtain d2 where "treadn SIZEOF_REQ (sock_in s) = ((int SIZEOF_REQ, take SIZEOF_REQ (rbytes (sock_in s))), d2)" "polls_ok d2"
      using patient.loop_live [OF p, of "[]" SIZEOF_REQ SIZEOF_REQ] l by (auto simp: treadn_def)
    then have "polls_ok d" using t(1) by simp
    then show ?thesis using drains_all [OF t(2)] by blast
  qed
  moreover have "r \<in> {req_ntoh (req_of_raw hdr), (req_ntoh (req_of_raw hdr))\<lparr>pr_flags := pr_flags (req_ntoh (req_of_raw hdr)) OR PR_TEXT\<rparr>}"
    by (auto simp: t(3) text_flag_def split: option.split)
  ultimately show ?thesis using l drains_stream [OF t(2)] by auto
qed

lemma client_thread_outcome:
  assumes wk: "worker_fits tid fd malloc s" and q: "isq (jobs s) xs" "next_addr s \<notin> set xs"
    and run: "client_thread strerr junk mjunk tid fd malloc s = (res, t)"
  shows "client_outcome junk xs s res t"
proof -
  obtain ok w where w: "add_worker tid fd malloc (workl s) = Some (ok, w)" "client_cleanup tid w \<noteq> None" using wk by (auto simp: worker_fits_def)
  define s1 where "s1 = s\<lparr>workl := w\<rparr>"
  have 1: "runs (pd_add_worker tid fd malloc) s ok s1"
    using w(1) by (simp add: runs_def pd_add_worker_def lift_opt_def bnd_def run_simps s1_def)
  obtain n raw d where tr: "treadn SIZEOF_REQ (sock_in s) = ((n, raw), d)" by (metis prod.exhaust)
  define s2 where "s2 = s1\<lparr>sock_in := d\<rparr>"
  have 2: "runs (pd_treadn SIZEOF_REQ) s1 (n, raw) s2" using tr by (simp add: runs_def pd_treadn_def s1_def s2_def)
  show ?thesis
  proof (cases "ok \<and> n = int SIZEOF_REQ")
    case False
    then consider "\<not> ok" | "ok" "n \<noteq> int SIZEOF_REQ" by blast
    then show ?thesis
    proof cases
      case 1
      obtain w' cl where "runs (thread_exit tid 1) s1 1 (s1\<lparr>workl := w', closed := cl\<rparr>)" using thread_exit_total [of tid s1 1] w(2) by (auto simp: s1_def)
      then have "res = Inr 1 \<and> t = s1\<lparr>workl := w', closed := cl\<rparr>"
        using run 1 unfolding client_thread_def bnd_step [OF \<open>runs (pd_add_worker tid fd malloc) s ok s1\<close>] by (simp add: runs_def)
      then show ?thesis by (intro nothing_stored) (simp_all add: s1_def)
    next
      case 2
      let ?e = "if n < 0 then errno_num (r_errno (sock_in s2)) else EIO_NUM"
      obtain u where u: "runs (bnd (refuse strerr ?e) (\<lambda>_. drop_files [] tid)) s2 1 u" "jobs u = jobs s" "spool u = spool s"
        using refused_total [of tid s2 strerr ?e "[]"] w(2) by (auto simp: s2_def s1_def restrict_all)
      have "client_thread strerr junk mjunk tid fd malloc s = (Inr 1, u)"
        using 2 u(1) unfolding client_thread_def bnd_step [OF 1] bnd_step [OF \<open>runs (pd_treadn SIZEOF_REQ) s1 (n, raw) s2\<close>]
        by (simp add: runs_def bnd_run_Inr [where m = "gets _", OF gets_run] bnd_step [OF \<open>runs (pd_treadn SIZEOF_REQ) s1 (n, raw) s2\<close>])
      then show ?thesis using run u(2,3) by (intro nothing_stored) simp_all
    qed
  next
    case True
    define s3 where "s3 = s2\<lparr>nextjob := (if sint (nextjob s + 1) \<le> 0 then 1 else nextjob s + 1)\<rparr>"
    have 3: "runs get_newjobno s2 (nextjob s) s3" by (simp add: runs_def get_newjobno_def bnd_def run_simps s3_def s2_def s1_def)
    have run3: "store_data strerr junk mjunk tid (nextjob s) (req_ntoh (req_of_raw raw)) s3 = (res, t)"
      using run True unfolding client_thread_def bnd_step [OF 1] by (simp add: bnd_step [OF 2] bnd_step [OF 3])
    have "length raw = SIZEOF_REQ"
      using timed.loop_result [of SIZEOF_REQ SIZEOF_REQ "[]" "sock_in s" n raw d] tr True by (auto simp: treadn_def)
    then have wf: "wf_req (req_ntoh (req_of_raw raw))" using wf_req_of_raw by simp
    have same: "workl s3 = w" "jobs s3 = jobs s" "next_addr s3 = next_addr s" "oom s3 = oom s" "spool s3 = spool s" "sock_in s3 = d"
      by (simp_all add: s3_def s2_def s1_def)
    have qq: "queued s3 = queued s" using same by (simp add: fun_eq_iff queued_def)
    have w3: "client_cleanup tid (workl s3) \<noteq> None" "isq (jobs s3) xs" "next_addr s3 \<notin> set xs" using w(2) q same by simp_all
    from w3 wf show ?thesis
    proof (cases rule: store_data_outcome [where strerr = strerr and junk = junk and mjunk = mjunk and jid = "nextjob s"])
      case (failed u ns)
      then show ?thesis using run3 same by (auto simp: client_outcome_def Let_def)
    next
      case (stored u body d' r')
      have "took junk s body r'" using tr True stored(2,3) same(6) by (auto simp: took_def)
      moreover have "(if oom s then jobs t = jobs s else queued s t xs (nextjob s) r')" "res = (if oom s then Inl LogQuit else Inr 0)" "u = t"
        using run3 stored(1,5) same qq by (auto split: if_splits)
      ultimately show ?thesis using stored(4) same(5) by (intro stored_all) simp_all
    qed
  qed
qed

subsection \<open>A client that is served\<close>

lemma k_creat_runs: "fsplan s = [] \<Longrightarrow> runs (k_creat name) s None (s\<lparr>spool := (spool s)(name \<mapsto> [])\<rparr>)"
  by (simp add: runs_def k_creat_def next_fs_def bnd_def run_simps)

lemma k_fwrite_runs:
  "fsplan s = [] \<Longrightarrow> runs (k_fwrite name bs) s (int (length bs), 0) (s\<lparr>spool := (spool s)(name \<mapsto> the (spool s name) @ bs)\<rparr>)"
  by (simp add: runs_def k_fwrite_def k_append_def next_fs_def bnd_def run_simps)

text \<open>The peer keeps the connection open while it waits for the answer: after the last byte the daemon's read can only time out.\<close>

definition waits_open :: "rdesc \<Rightarrow> bool" where
  "waits_open d \<longleftrightarrow> held_open d \<and> splan d = []"

lemma waits_open_tread: "waits_open d \<Longrightarrow> waits_open (snd (tread n d))"
  by (auto simp: waits_open_def tread_def fd_select_def fd_read_def Let_def split: list.split option.split)


lemma recv_data_live:
  assumes "polls_ok (sock_in s)" and "fsplan s = []" and "spool s name = Some old"
  shows "\<exists>r' d. recv_data name junk first r s = ((r', None), s\<lparr>sock_in := d, spool := (spool s)(name \<mapsto> old @ rbytes (sock_in s))\<rparr>) \<and>
    r' \<in> {r, r\<lparr>pr_flags := pr_flags r OR PR_TEXT\<rparr>} \<and> (waits_open (sock_in s) \<longrightarrow> r_errno d = Some ETIME)"
  using assms
proof (induction name junk first r s arbitrary: old rule: recv_data.induct)
  case (1 name junk first r s)
  obtain q d where q: "tread IOBUFSZ (sock_in s) = (q, d)" by fastforce
  show ?case
  proof (cases "rbytes (sock_in s) = []")
    case True
    have "q = None \<or> q = Some []" using q timed.rd_some [of IOBUFSZ "sock_in s" _ d] True by (cases q) auto
    then have "recv_data name junk first r s = ((r, None), s\<lparr>sock_in := d\<rparr>)" using q by (auto simp: recv_data.simps)
    moreover have "s\<lparr>sock_in := d\<rparr> = s\<lparr>sock_in := d, spool := (spool s)(name \<mapsto> old @ rbytes (sock_in s))\<rparr>"
      using "1.prems"(3) True by (cases s) (simp add: fun_upd_idem)
    ultimately have "recv_data name junk first r s =
        ((r, None), s\<lparr>sock_in := d, spool := (spool s)(name \<mapsto> old @ rbytes (sock_in s))\<rparr>)" by simp
    moreover have "waits_open (sock_in s) \<longrightarrow> r_errno d = Some ETIME" using q True by (auto simp: waits_open_def tread_def fd_select_def)
    ultimately show ?thesis by blast
  next
    case False
    have z: "0 < IOBUFSZ" by (simp add: IOBUFSZ_def)
    obtain bs where bs: "q = Some bs" "bs \<noteq> []" "polls_ok d"
      using polls_ok_step [OF "1.prems"(1) False z] q by auto
    have rs: "rbytes (sock_in s) = bs @ rbytes d" using timed.rd_some q bs(1) by auto
    define r1 where "r1 = (if first \<and> \<not> strncmp_eq (bs @ junk) ''%!PS'' 4 then r\<lparr>pr_flags := pr_flags r OR PR_TEXT\<rparr> else r)"
    define u where "u = s\<lparr>sock_in := d, spool := (spool s)(name \<mapsto> old @ bs)\<rparr>"
    have f: "k_fwrite name bs (s\<lparr>sock_in := d\<rparr>) = (Inr (int (length bs), 0), u)"
      using k_fwrite_runs [of "s\<lparr>sock_in := d\<rparr>" name bs] "1.prems"(2,3) by (simp add: runs_def u_def)
    have E: "recv_data name junk first r s = recv_data name junk False r1 u"
      using q bs f by (simp add: recv_data.simps [of name junk first] r1_def Let_def)
    have U: "polls_ok (sock_in u)" "fsplan u = []" "spool u name = Some (old @ bs)"
      using bs(3) "1.prems"(2) by (simp_all add: u_def)
    have n: "\<not> int (length bs) \<noteq> int (length bs)" by simp
    from "1.IH" [OF q [symmetric] bs(1,2) r1_def f [symmetric] refl refl n U]
    obtain r' d' where R: "recv_data name junk False r1 u = ((r', None), u\<lparr>sock_in := d', spool := (spool u)(name \<mapsto> (old @ bs) @ rbytes (sock_in u))\<rparr>)"
      "r' \<in> {r1, r1\<lparr>pr_flags := pr_flags r1 OR PR_TEXT\<rparr>}" "waits_open (sock_in u) \<longrightarrow> r_errno d' = Some ETIME" by blast
    have "waits_open (sock_in s) \<longrightarrow> waits_open (sock_in u)" using waits_open_tread [of "sock_in s" IOBUFSZ] q by (simp add: u_def)
    then have et: "waits_open (sock_in s) \<longrightarrow> r_errno d' = Some ETIME" using R(3) by simp
    have "r1 \<in> {r, r\<lparr>pr_flags := pr_flags r OR PR_TEXT\<rparr>}" by (simp add: r1_def)
    then have "r' \<in> {r, r\<lparr>pr_flags := pr_flags r OR PR_TEXT\<rparr>}" using R(2) by (auto simp: or.assoc)
    moreover have "u\<lparr>sock_in := d', spool := (spool u)(name \<mapsto> (old @ bs) @ rbytes (sock_in u))\<rparr> =
        s\<lparr>sock_in := d', spool := (spool s)(name \<mapsto> old @ rbytes (sock_in s))\<rparr>"
      using rs by (simp add: u_def)
    ultimately have "recv_data name junk first r s =
        ((r', None), s\<lparr>sock_in := d', spool := (spool s)(name \<mapsto> old @ rbytes (sock_in s))\<rparr>)"
      "r' \<in> {r, r\<lparr>pr_flags := pr_flags r OR PR_TEXT\<rparr>}" using E R(1) by simp_all
    then show ?thesis using et by blast
  qed
qed

lemma recv_data_later: "fst (fst (recv_data name junk False r s)) = r"
proof -
  have "\<not> first \<Longrightarrow> fst (fst (recv_data name junk first r s)) = r" for first
  proof (induction name junk first r s rule: recv_data.induct)
    case (1 name junk first r s)
    then show ?case by (subst recv_data.simps) (auto simp: Let_def split: prod.split option.split sum.split)
  qed
  from this [of False] show ?thesis by simp
qed

text \<open>When the first read fills the buffer, the text flag tells whether the data starts as PostScript does.\<close>

lemma recv_data_flag:
  assumes "recv_data name junk True r s = ((r', None), t)" and "fsplan s = []" and "spool s name = Some old"
    and "rplan (sock_in s) = []" and "polls_ok (sock_in s)" and "4 \<le> length (rbytes (sock_in s))"
  shows "r' = (if take 4 (rbytes (sock_in s)) = ''%!PS'' then r else r\<lparr>pr_flags := pr_flags r OR PR_TEXT\<rparr>)"
proof -
  let ?b = "rbytes (sock_in s)"
  obtain q d where q: "tread IOBUFSZ (sock_in s) = (q, d)" by fastforce
  have "?b \<noteq> []" using assms(6) by auto
  have sel: "splan (sock_in s) = [] \<or> (\<exists>ps. splan (sock_in s) = SelReady # ps)"
    using assms(5) \<open>?b \<noteq> []\<close> by (cases "splan (sock_in s)") (auto simp: polls_ok_def)
  have qb: "q = Some (take IOBUFSZ ?b)"
    using q sel assms(4) \<open>?b \<noteq> []\<close> by (auto simp: tread_def fd_select_def fd_read_def)
  have tk: "take 4 (cstr (take IOBUFSZ ?b @ junk)) = ''%!PS'' \<longleftrightarrow> take 4 ?b = ''%!PS''"
  proof -
    have "?b = take 4 ?b @ drop 4 ?b" "length (take 4 ?b) = 4" using assms(6) by simp_all
    then obtain x r where b: "?b = x @ r" "length x = 4" by blast
    have i: "take IOBUFSZ (x @ r) @ junk = x @ (take (IOBUFSZ - 4) r @ junk)" using b(2) by (simp add: IOBUFSZ_def)
    have t: "take 4 ?b = x" using b by simp
    have "take 4 (cstr (x @ y)) = ''%!PS'' \<longleftrightarrow> x = ''%!PS''" for y
    proof
      assume e: "take 4 (cstr (x @ y)) = ''%!PS''"
      have "length (take 4 (cstr (x @ y))) = 4" unfolding e by simp
      then have l: "4 \<le> length (cstr (x @ y))" by simp
      have "cstr (x @ y) = take (length (cstr (x @ y))) (x @ y)" unfolding cstr_def by (rule takeWhile_eq_take)
      then have "take 4 (cstr (x @ y)) = take 4 (take (length (cstr (x @ y))) (x @ y))" by (rule arg_cong)
      then have "take 4 (cstr (x @ y)) = x" using l b(2) by (simp add: min_def)
      then show "x = ''%!PS''" using e by simp
    qed (simp add: numeral_eq_Suc)
    then show ?thesis unfolding t unfolding b i .
  qed
  have sn: "strncmp_eq (take IOBUFSZ ?b @ junk) ''%!PS'' 4 \<longleftrightarrow> take 4 ?b = ''%!PS''"
    unfolding strncmp_eq_def tk [symmetric] by simp
  define r1 where "r1 = (if take 4 ?b = ''%!PS'' then r else r\<lparr>pr_flags := pr_flags r OR PR_TEXT\<rparr>)"
  have f: "k_fwrite name (take IOBUFSZ ?b) (s\<lparr>sock_in := d\<rparr>) = (Inr (int (length (take IOBUFSZ ?b)), 0), s\<lparr>sock_in := d, spool := (spool s)(name \<mapsto> old @ take IOBUFSZ ?b)\<rparr>)"
    using k_fwrite_runs [of "s\<lparr>sock_in := d\<rparr>" name "take IOBUFSZ ?b"] assms(2,3) by (simp add: runs_def)
  have ne: "take IOBUFSZ ?b \<noteq> []" using \<open>?b \<noteq> []\<close> by (simp add: IOBUFSZ_def)
  have "recv_data name junk False r1 (s\<lparr>sock_in := d, spool := (spool s)(name \<mapsto> old @ take IOBUFSZ ?b)\<rparr>) = ((r', None), t)"
    using assms(1) q qb ne f sn by (auto simp add: recv_data.simps [of name junk True] r1_def Let_def)
  then show ?thesis using recv_data_later [of name junk r1] by (metis fst_conv r1_def)
qed

lemma readn_loop_keeps:
  assumes "\<And>n d. I d \<Longrightarrow> I (snd (rd n d))" and "I d"
  shows "I (snd (readn_loop rd n nleft buf d))"
  using assms(2)
proof (induction nleft arbitrary: buf d rule: less_induct)
  case (less nleft)
  obtain q d' where q: "rd nleft d = (q, d')" by fastforce
  have I: "I d'" using assms(1) [OF less.prems, of nleft] q by simp
  show ?case
  proof (cases "nleft = 0 \<or> q = None \<or> q = Some []")
    case True
    then show ?thesis using q I less.prems by (auto simp: readn_loop.simps [of rd n nleft buf d])
  next
    case False
    then obtain bs where bs: "q = Some bs" "bs \<noteq> []" "nleft \<noteq> 0" by auto
    have "nleft - length bs < nleft" using bs by (cases bs) auto
    from less.IH [OF this I] show ?thesis using q bs by (simp add: readn_loop.simps [of rd n nleft buf d])
  qed
qed

lemma tread_full: "rplan d = [] \<Longrightarrow> rplan (snd (tread n d)) = []"
  by (auto simp: tread_def fd_select_def fd_read_def Let_def split: list.splits sel.splits if_splits)

definition one_worker :: "nat \<Rightarrow> nat \<Rightarrow> int \<Rightarrow> wlist \<Rightarrow> wlist" where
  "one_worker wtp tid fd w = w\<lparr>wheap := (wheap w)(wtp \<mapsto> \<lparr>dnext = None, dprev = None, ddata = \<lparr>w_tid = tid, w_sockfd = fd\<rparr>\<rparr>), workers := Some wtp\<rparr>"

lemma add_worker_runs:
  "workers (workl s) = None \<Longrightarrow> runs (pd_add_worker tid fd (Some wtp)) s True (s\<lparr>workl := one_worker wtp tid fd (workl s)\<rparr>)"
  by (simp add: runs_def pd_add_worker_def add_worker_def one_worker_def lift_opt_def bnd_def run_simps)

lemma thread_exit_runs:
  assumes "workl s = one_worker wtp tid fd w"
  shows "runs (thread_exit tid st) s st (s\<lparr>workl := w\<lparr>wheap := (wheap w)(wtp := None), workers := None\<rparr>, closed := closed s @ [fd]\<rparr>)"
  by (simp add: runs_def thread_exit_def client_cleanup_def worker_from.simps assms one_worker_def lift_opt_def bnd_def run_simps)

lemma newjobno_runs:
  "runs get_newjobno s (nextjob s) (s\<lparr>nextjob := (if sint (nextjob s + 1) \<le> 0 then 1 else nextjob s + 1)\<rparr>)"
  by (simp add: runs_def get_newjobno_def bnd_def run_simps)

lemma answer_runs: "runs (answer r) s () (s\<lparr>sock_out := snd (writen (resp_raw r) (sock_out s))\<rparr>)"
  by (simp add: runs_def answer_step)

lemma pd_add_job_runs:
  "\<not> oom s \<Longrightarrow> add_job r jid (next_addr s) (jobs s) = Some q \<Longrightarrow>
    runs (pd_add_job r jid) s () (s\<lparr>jobs := q, next_addr := next_addr s + 1\<rparr>)"
  by (simp add: runs_def pd_add_job_def lift_opt_def bnd_def run_simps)

lemma store_control_runs:
  assumes "fsplan s = []" and "\<not> oom s" and "wf_req r" and w: "workl s = one_worker wtp tid fd w"
    and q: "add_job r jid (next_addr s) (jobs s) = Some q"
  shows "runs (store_control strerr mjunk tid jid r) s 0
    (s\<lparr>spool := (spool s)(req_name (sdec jid) \<mapsto> req_raw r),
       sock_out := snd (writen (resp_raw \<lparr>retcode = 0, pr_jobid = htonl jid, pr_msg = sprintf_msg jid mjunk\<rparr>) (sock_out s)),
       jobs := q, next_addr := next_addr s + 1, workl := w\<lparr>wheap := (wheap w)(wtp := None), workers := None\<rparr>, closed := closed s @ [fd]\<rparr>)"
proof -
  let ?q = "req_name (sdec jid)"
  define s1 where "s1 = s\<lparr>spool := (spool s)(?q \<mapsto> [])\<rparr>"
  define s2 where "s2 = s1\<lparr>spool := (spool s1)(?q \<mapsto> the (spool s1 ?q) @ req_raw r)\<rparr>"
  define s3 where "s3 = s2\<lparr>sock_out := snd (writen (resp_raw \<lparr>retcode = 0, pr_jobid = htonl jid, pr_msg = sprintf_msg jid mjunk\<rparr>) (sock_out s2))\<rparr>"
  define s4 where "s4 = s3\<lparr>jobs := q, next_addr := next_addr s3 + 1\<rparr>"
  have r1: "runs (k_creat ?q) s None s1" unfolding s1_def by (rule k_creat_runs) (rule assms(1))
  have r2: "runs (k_fwrite ?q (req_raw r)) s1 (int (length (req_raw r)), 0) s2"
    unfolding s2_def by (rule k_fwrite_runs) (simp add: s1_def assms(1))
  have r3: "runs (answer \<lparr>retcode = 0, pr_jobid = htonl jid, pr_msg = sprintf_msg jid mjunk\<rparr>) s2 () s3"
    unfolding s3_def by (rule answer_runs)
  have r4: "runs (pd_add_job r jid) s3 () s4"
    unfolding s4_def by (rule pd_add_job_runs) (simp_all add: s3_def s2_def s1_def assms)
  have w4: "workl s4 = one_worker wtp tid fd w" by (simp add: s4_def s3_def s2_def s1_def w)
  show ?thesis
    unfolding store_control_def
    using thread_exit_runs [OF w4, of 0]
    by (simp add: r1 [THEN runs_step] r2 [THEN runs_step] r3 [THEN runs_step] r4 [THEN runs_step] length_req_raw [OF assms(3)])
      (simp add: s4_def s3_def s2_def s1_def)
qed

lemma client_served:
  assumes w: "workers (workl s) = None" and fs: "fsplan s = []" and m: "\<not> oom s"
    and p: "polls_ok (sock_in s)" and b: "rbytes (sock_in s) = req_raw (req_hton r) @ data" and wf: "wf_req r"
    and q: "isq (jobs s) xs" and a: "next_addr s \<notin> set xs"
  shows "\<exists>t r'. client_thread strerr junk mjunk tid fd (Some wtp) s = (Inr 0, t) \<and>
    r' \<in> {r, r\<lparr>pr_flags := pr_flags r OR PR_TEXT\<rparr>} \<and>
    (rplan (sock_in s) = [] \<and> 4 \<le> length data \<longrightarrow> r' = (if take 4 data = ''%!PS'' then r else r\<lparr>pr_flags := pr_flags r OR PR_TEXT\<rparr>)) \<and>
    spool t = (spool s)(data_name (sdec (nextjob s)) \<mapsto> data, req_name (sdec (nextjob s)) \<mapsto> req_raw r') \<and>
    isq (jobs t) (xs @ [next_addr s]) \<and> data_at (jobs t) (next_addr s) = \<lparr>jobid = nextjob s, req = r'\<rparr> \<and>
    same_data (jobs s) (jobs t) xs \<and> next_addr t = next_addr s + 1 \<and>
    workers (workl t) = None \<and> closed t = closed s @ [fd] \<and> jobfile t = jobfile s \<and> fsplan t = [] \<and> \<not> oom t \<and>
    (write_ok (sock_out s) \<longrightarrow> wbytes (sock_out t) = wbytes (sock_out s) @
       resp_raw \<lparr>retcode = 0, pr_jobid = htonl (nextjob s), pr_msg = sprintf_msg (nextjob s) mjunk\<rparr>) \<and>
    (waits_open (sock_in s) \<longrightarrow> r_errno (sock_in t) = Some ETIME)"
proof -
  let ?jid = "nextjob s" and ?d = "data_name (sdec (nextjob s))"
  have wfn: "wf_req (req_hton r)" using wf by (simp add: wf_req_def req_hton_def)
  note lraw = length_req_raw [OF wfn]
  have big: "SIZEOF_REQ \<le> length (rbytes (sock_in s))" using b lraw by simp
  obtain d1 where d1: "treadn SIZEOF_REQ (sock_in s) = ((int SIZEOF_REQ, req_raw (req_hton r)), d1)" "rbytes d1 = data" "polls_ok d1"
    using patient.loop_live [OF p, of "[]" SIZEOF_REQ SIZEOF_REQ] big b lraw by (auto simp: treadn_def)
  have rp1: "rplan (sock_in s) = [] \<Longrightarrow> rplan d1 = []"
    using readn_loop_keeps [of "\<lambda>d. rplan d = []" tread "sock_in s" SIZEOF_REQ SIZEOF_REQ "[]"] tread_full d1(1)
    by (simp add: treadn_def)
  have wo: "waits_open (sock_in s) \<Longrightarrow> waits_open d1"
    using readn_loop_keeps [of waits_open tread "sock_in s" SIZEOF_REQ SIZEOF_REQ "[]"] waits_open_tread d1(1)
    by (simp add: treadn_def)
  define s1 where "s1 = s\<lparr>workl := one_worker wtp tid fd (workl s)\<rparr>"
  define s2 where "s2 = s1\<lparr>sock_in := d1\<rparr>"
  define s3 where "s3 = s2\<lparr>nextjob := (if sint (?jid + 1) \<le> 0 then 1 else ?jid + 1)\<rparr>"
  define s4 where "s4 = s3\<lparr>spool := (spool s3)(?d \<mapsto> [])\<rparr>"
  have f4: "polls_ok (sock_in s4)" "fsplan s4 = []" "spool s4 ?d = Some []" "rbytes (sock_in s4) = data"
    by (simp_all add: s4_def s3_def s2_def s1_def d1 fs)
  obtain r' d5 where R: "recv_data ?d junk True r s4 = ((r', None), s4\<lparr>sock_in := d5, spool := (spool s4)(?d \<mapsto> [] @ data)\<rparr>)"
    and r': "r' \<in> {r, r\<lparr>pr_flags := pr_flags r OR PR_TEXT\<rparr>}" and et: "waits_open (sock_in s4) \<longrightarrow> r_errno d5 = Some ETIME"
    using recv_data_live [OF f4(1-3), of junk True r] f4(4) by auto
  define s5 where "s5 = s4\<lparr>sock_in := d5, spool := (spool s4)(?d \<mapsto> data)\<rparr>"
  have flag: "rplan (sock_in s) = [] \<Longrightarrow> 4 \<le> length data \<Longrightarrow> r' = (if take 4 data = ''%!PS'' then r else r\<lparr>pr_flags := pr_flags r OR PR_TEXT\<rparr>)"
    using recv_data_flag [OF R f4(2,3) _ f4(1)] f4(4) rp1 by (simp add: s4_def s3_def s2_def)
  obtain q' where Q: "add_job r' ?jid (next_addr s) (jobs s) = Some q'" "isq q' (xs @ [next_addr s])"
    "data_at q' (next_addr s) = \<lparr>jobid = ?jid, req = r'\<rparr>" "same_data (jobs s) q' xs"
    using add_job_isq [OF q a] by blast
  have r1: "runs (pd_add_worker tid fd (Some wtp)) s True s1" unfolding s1_def using w by (rule add_worker_runs)
  have r2: "runs (pd_treadn SIZEOF_REQ) s1 (int SIZEOF_REQ, req_raw (req_hton r)) s2"
    using d1(1) by (simp add: runs_def pd_treadn_def s1_def s2_def)
  have n2: "nextjob s2 = ?jid" by (simp add: s2_def s1_def)
  have r3: "runs get_newjobno s2 ?jid s3" using newjobno_runs [of s2] n2 by (simp only: s3_def)
  have r4: "runs (k_creat ?d) s3 None s4" unfolding s4_def by (rule k_creat_runs) (simp add: s3_def s2_def s1_def fs)
  have r5: "runs (pd_recv_data ?d junk r) s4 (r', None) s5" using R by (simp add: runs_def pd_recv_data_def s5_def)
  have wf': "wf_req r'" using r' wf by auto
  have c5: "fsplan s5 = []" "\<not> oom s5" "workl s5 = one_worker wtp tid fd (workl s)" "add_job r' ?jid (next_addr s5) (jobs s5) = Some q'"
    by (simp_all add: s5_def s4_def s3_def s2_def s1_def fs m Q)
  note r6 = store_control_runs [OF c5(1,2) wf' c5(3,4), of strerr mjunk]
  define t where "t = s5\<lparr>spool := (spool s5)(req_name (sdec ?jid) \<mapsto> req_raw r'),
       sock_out := snd (writen (resp_raw \<lparr>retcode = 0, pr_jobid = htonl ?jid, pr_msg = sprintf_msg ?jid mjunk\<rparr>) (sock_out s5)),
       jobs := q', next_addr := next_addr s5 + 1, workl := (workl s)\<lparr>wheap := (wheap (workl s))(wtp := None), workers := None\<rparr>, closed := closed s5 @ [fd]\<rparr>"
  have "runs (client_thread strerr junk mjunk tid fd (Some wtp)) s 0 t"
    unfolding client_thread_def store_data_def
    using r6 by (simp add: r1 [THEN runs_step] r2 [THEN runs_step] r3 [THEN runs_step] r4 [THEN runs_step] r5 [THEN runs_step]
        req_net_roundtrip [OF wf] t_def)
  then have C: "client_thread strerr junk mjunk tid fd (Some wtp) s = (Inr 0, t)" by (rule runsD)
  have out: "write_ok (sock_out s) \<Longrightarrow> wbytes (sock_out t) = wbytes (sock_out s) @
       resp_raw \<lparr>retcode = 0, pr_jobid = htonl ?jid, pr_msg = sprintf_msg ?jid mjunk\<rparr>"
    using writen_content(2) by (simp add: t_def s5_def s4_def s3_def s2_def s1_def)
  have T: "spool t = (spool s)(?d \<mapsto> data, req_name (sdec ?jid) \<mapsto> req_raw r')" "jobs t = q'" "workers (workl t) = None"
    "closed t = closed s @ [fd]" "jobfile t = jobfile s" "next_addr t = next_addr s + 1"
    "fsplan t = []" "\<not> oom t" "waits_open (sock_in s) \<longrightarrow> r_errno (sock_in t) = Some ETIME"
    using et wo by (simp_all add: t_def s5_def s4_def s3_def s2_def s1_def fs m)
  show ?thesis
    using C r' flag T Q out by (intro exI [of _ t] exI [of _ r']) blast
qed

subsection \<open>Job numbers and restarts\<close>

lemma sint_range32: "- (2 ^ 31) \<le> sint (w :: 32 word)" "sint w < 2 ^ 31"
  using sint_ge [of w] sint_lt [of w] by simp_all

lemma atol_sdec:
  assumes "0 < sint w" and "r = [] \<or> \<not> isdigit (hd r)"
  shows "word_of_int (atol (sdec w @ r)) = (w :: 32 word)"
proof -
  have "nat (sint w) < 2 ^ 63" using sint_range32 [of w] by simp
  from atol_dec [OF this assms(2)] have "atol (sdec w @ r) = sint w" using assms(1) by (simp add: sdec_def dec_int_def)
  then show ?thesis by simp
qed

lemma length_sdec: "0 < sint (w :: 32 word) \<Longrightarrow> 1 \<le> length (sdec w) \<and> length (sdec w) \<le> 10"
proof -
  assume p: "0 < sint w"
  have "nat (sint w) < 10 ^ 10" using sint_range32 [of w] by simp
  then have "length (dec (nat (sint w))) \<le> 10" by (rule length_dec_bound) simp
  then show ?thesis using p length_dec_pos by (auto simp: sdec_def dec_int_def)
qed

text \<open>The rest of the path after the digits read: it never starts with a digit.\<close>

lemma path_no_digit: "drop n job_path = [] \<or> \<not> isdigit (hd (drop n job_path))"
proof -
  have "list_all (\<lambda>c. \<not> isdigit c) job_path" by code_simp
  then have "\<forall>c\<in>set job_path. \<not> isdigit c" by (simp add: list_all_iff)
  moreover have "drop n job_path \<noteq> [] \<Longrightarrow> hd (drop n job_path) \<in> set job_path" by (metis hd_in_set in_set_dropD)
  ultimately show ?thesis by blast
qed

lemma k_open_runs: "fsplan s = [] \<Longrightarrow> runs (k_open name) s (spool s name \<noteq> None) s"
  by (simp add: runs_def k_open_def next_fs_def bnd_def run_simps)

lemma k_read_runs: "fsplan s = [] \<Longrightarrow> runs (k_read name n) s (Some (take n (the (spool s name)))) s"
  by (simp add: runs_def k_read_def next_fs_def bnd_def run_simps)

text \<open>\<open>stored s j r\<close>: the control file of job \<open>j\<close> holds the request \<open>r\<close>.\<close>

definition stored :: "printd \<Rightarrow> 32 word \<Rightarrow> printreq \<Rightarrow> bool" where
  "stored s j r \<longleftrightarrow> 0 < sint j \<and> wf_req r \<and> spool s (req_name (sdec j)) = Some (req_raw r)"

lemma sdec_not_dot: "0 < sint j \<Longrightarrow> sdec j \<noteq> ''.'' \<and> sdec j \<noteq> ''..''"
proof -
  assume "0 < sint j"
  then have s: "sdec j = dec (nat (sint j))" by (simp add: sdec_def dec_int_def)
  have "\<not> isdigit CHR ''.''" by (simp add: isdigit_def)
  then show ?thesis unfolding s using dec_digits [of "CHR ''.''" "nat (sint j)"] by force
qed

lemma qonstart_loop_restores:
  assumes "fsplan s = []" and "\<not> oom s" and "isq (jobs s) xs" and "\<forall>x\<in>set xs. x < next_addr s"
    and "\<forall>(j, r)\<in>set js. stored s j r"
    and "filter (\<lambda>e. e \<noteq> ''.'' \<and> e \<noteq> ''..'') es = map (\<lambda>(j, r). sdec j) js"
  shows "\<exists>t as. qonstart_loop es s = (Inr (), t) \<and> isq (jobs t) (xs @ as) \<and>
    map (data_at (jobs t)) (xs @ as) = map (data_at (jobs s)) xs @ map (\<lambda>(j, r). \<lparr>jobid = j, req = r\<rparr>) js \<and> spool t = spool s \<and>
    nextjob t = nextjob s \<and> fsplan t = [] \<and> length (unclosed t) = length js + length (unclosed s)"
  using assms
proof (induction es arbitrary: s xs js)
  case Nil
  then show ?case by (auto simp: run_simps intro!: exI [of _ "[]"])
next
  case (Cons e es)
  show ?case
  proof (cases "e = ''.'' \<or> e = ''..''")
    case True
    then show ?thesis using Cons.IH [OF Cons.prems(1-5)] Cons.prems(6) by auto
  next
    case False
    then obtain j r js' where js: "js = (j, r) # js'" and e: "e = sdec j"
      and rest: "filter (\<lambda>e. e \<noteq> ''.'' \<and> e \<noteq> ''..'') es = map (\<lambda>(j, r). sdec j) js'"
      using Cons.prems(6) by (auto simp: Cons_eq_map_conv)
    have st: "stored s j r" using Cons.prems(5) js by auto
    have raw: "length (req_raw r) = SIZEOF_REQ" "req_of_raw (req_raw r) = r"
      using st length_req_raw req_raw_roundtrip by (auto simp: stored_def)
    have new: "next_addr s \<notin> set xs" using Cons.prems(4) by auto
    obtain q where q: "add_job r j (next_addr s) (jobs s) = Some q" "isq q (xs @ [next_addr s])"
      "data_at q (next_addr s) = \<lparr>jobid = j, req = r\<rparr>" "same_data (jobs s) q xs"
      using add_job_isq [OF Cons.prems(3) new, of r j] by blast
    define s1 where "s1 = s\<lparr>unclosed := sdec j # unclosed s\<rparr>"
    define u where "u = s1\<lparr>jobs := q, next_addr := next_addr s1 + 1\<rparr>"
    have add: "runs (pd_add_job r j) s1 () u" unfolding u_def by (rule pd_add_job_runs) (simp_all add: s1_def Cons.prems(2) q(1))
    have j: "word_of_int (atol e) = j" using st e atol_sdec [of j "[]"] by (simp add: stored_def)
    have step: "qonstart_loop (e # es) s = qonstart_loop es u"
      using False st raw j e
      by (simp add: stored_def bnd_step [OF k_open_runs [OF Cons.prems(1)]]
        bnd_step [OF k_read_runs [OF Cons.prems(1)]] bnd_run_Inr [OF modify_run] s1_def [symmetric] bnd_step [OF add])
    have P: "fsplan u = []" "\<not> oom u" "isq (jobs u) (xs @ [next_addr s])" "\<forall>x\<in>set (xs @ [next_addr s]). x < next_addr u"
      "\<forall>(j, r)\<in>set js'. stored u j r"
      using Cons.prems js q by (auto simp: u_def s1_def stored_def)
    from Cons.IH [OF P rest] obtain t as where t: "qonstart_loop es u = (Inr (), t)" "isq (jobs t) ((xs @ [next_addr s]) @ as)"
      "map (data_at (jobs t)) ((xs @ [next_addr s]) @ as) = map (data_at (jobs u)) (xs @ [next_addr s]) @ map (\<lambda>(j, r). \<lparr>jobid = j, req = r\<rparr>) js'"
      "spool t = spool u" "nextjob t = nextjob u" "fsplan t = []" "length (unclosed t) = length js' + length (unclosed u)" by blast
    have "map (data_at (jobs u)) xs = map (data_at (jobs s)) xs" using q(4) by (simp add: u_def s1_def same_data_def)
    then have "map (data_at (jobs t)) (xs @ next_addr s # as) = map (data_at (jobs s)) xs @ map (\<lambda>(j, r). \<lparr>jobid = j, req = r\<rparr>) js"
      using t(3) q(3) js by (simp add: u_def s1_def)
    then show ?thesis using step t by (intro exI [of _ t] exI [of _ "next_addr s # as"]) (simp add: u_def s1_def js)
  qed
qed

lemma jobno_roundtrip:
  assumes "0 < sint (nextjob s)" and "length (jobfile s) \<le> length (sdec (nextjob s))" and "fsplan s = []"
  shows "\<exists>t. runs update_jobno s () t \<and> (\<forall>n. runs (init_request False) (t\<lparr>nextjob := n\<rparr>) () t)"
proof -
  let ?b = "sdec (nextjob s)"
  let ?t = "s\<lparr>jobfile := ?b\<rparr>"
  have l: "1 \<le> length ?b" "length ?b \<le> 10" using length_sdec [OF assms(1)] by auto
  have U: "runs update_jobno s () ?t"
    using assms(2,3) by (simp add: runs_def update_jobno_def next_fs_def bnd_def run_simps)
  have tk: "take FILENMSZ ?b = ?b" using l by (simp add: FILENMSZ_def)
  have ne: "?b \<noteq> []" "FILENMSZ \<noteq> 0" using l(1) by (cases ?b; simp add: FILENMSZ_def)+
  have "runs (init_request False) (?t\<lparr>nextjob := n\<rparr>) () ?t" for n
    using atol_sdec [OF assms(1) path_no_digit [of "length ?b"]] ne assms(3)
    by (simp add: runs_def init_request_def next_fs_def bnd_def run_simps tk)
  with U show ?thesis by blast
qed

subsection \<open>The properties\<close>

definition sample_req :: printreq where
  "sample_req = \<lparr>pr_size = 5, pr_flags = 0, usernm = strncpy USERNM_MAX ''sar'', jobnm = strncpy JOBNM_MAX ''a.ps''\<rparr>"

definition idle :: "string \<Rightarrow> printd" where
  "idle bs = \<lparr>jobs = \<lparr>dheap = Map.empty, qhead = None, qtail = None\<rparr>, nextjob = 1, jobfile = ''1'', spool = Map.empty,
     workl = no_workers, closed = [], fsplan = [], next_addr = 1, oom = False, reread = False, printer = Some ''lp'', unclosed = [],
     sock_in = \<lparr>rbytes = bs, rplan = [], splan = [], r_errno = None, held_open = False\<rparr>, sock_out = \<lparr>wbytes = [], wplan = []\<rparr>\<rparr>"

lemma idle_facts:
  "workers (workl (idle b)) = None" "fsplan (idle b) = []" "\<not> oom (idle b)" "polls_ok (sock_in (idle b))"
  "rbytes (sock_in (idle b)) = b" "wf_req sample_req" "isq (jobs (idle b)) []" "next_addr (idle b) \<notin> set []"
  "spool (idle b) = Map.empty" "nextjob (idle b) = 1" "jobfile (idle b) = ''1''" "rplan (sock_in (idle b)) = []"
  by (simp_all add: idle_def no_workers_def polls_ok_def read_ok_def wf_req_def sample_req_def strncpy_def USERNM_MAX_def JOBNM_MAX_def isq_def)

lemma sdec_1: "sdec 1 = ''1''"
  by code_simp

text \<open>
  C9. A client's request is stored and queued completely or not at all, whatever calls fail. Either the thread ends with an error, the
  queue is as before and so are all files, except that a file that had the number of the new job before may have been removed. Or
  the header has arrived in full, the data file holds everything that arrived behind it (all the rest of the stream, when no read fails
  or times out before its end), the control file holds the request in host order with the text flag, and the job
  is last in the queue; only when there is no memory for the job the daemon ends here, with both files in place for the next start. The worker
  list must be one of those on which the code does not follow a dangling pointer.
\<close>

theorem client_all_or_nothing:
  assumes "worker_fits tid fd malloc s" and "isq (jobs s) xs" and "next_addr s \<notin> set xs"
    and "client_thread strerr junk mjunk tid fd malloc s = (res, t)"
  shows "client_outcome junk xs s res t \<and>
    (\<forall>body r. took junk s body r \<longrightarrow> (\<exists>hdr rest. length hdr = SIZEOF_REQ \<and> rbytes (sock_in s) = hdr @ body @ rest \<and>
      (polls_ok (sock_in s) \<longrightarrow> rest = []) \<and> r \<in> {req_ntoh (req_of_raw hdr), (req_ntoh (req_of_raw hdr))\<lparr>pr_flags := pr_flags (req_ntoh (req_of_raw hdr)) OR PR_TEXT\<rparr>}))"
  using client_thread_outcome [OF assms] took_stream by blast

theorem client_all_or_nothing_witness:
  "\<exists>t r. client_thread (\<lambda>_. ''error'') [] [] 7 4 (Some 1) (idle (req_raw (req_hton sample_req) @ ''hello'')) = (Inr 0, t) \<and>
     spool t (data_name ''1'') = Some ''hello'' \<and> isq (jobs t) [1] \<and> data_at (jobs t) 1 = \<lparr>jobid = 1, req = r\<rparr>"
proof -
  let ?s = "idle (req_raw (req_hton sample_req) @ ''hello'')"
  obtain t where r: "client_thread (\<lambda>_. ''error'') [] [] 7 4 (Some 1) ?s = (Inr 0, t)"
    using client_served [OF idle_facts(1-5,6-8)] by blast
  have w: "worker_fits 7 4 (Some 1) ?s" by (auto simp: worker_fits_def add_worker_def idle_def no_workers_def client_cleanup_def worker_from.simps)
  note c = client_all_or_nothing [OF w idle_facts(7,8) r]
  have n: "nextjob ?s = 1" "\<not> oom ?s" "next_addr ?s = 1" by (simp_all add: idle_def)
  from conjunct1 [OF c] obtain body r' where b: "took [] ?s body r'" "spool t = (spool ?s)(data_name ''1'' \<mapsto> body, req_name ''1'' \<mapsto> req_raw r')"
    "queued ?s t [] 1 r'" unfolding client_outcome_def Let_def n sdec_1 using n(2) by auto
  obtain hdr rest where h: "length hdr = SIZEOF_REQ" "rbytes (sock_in ?s) = hdr @ body @ rest" "polls_ok (sock_in ?s) \<longrightarrow> rest = []"
    using conjunct2 [OF c, rule_format, OF b(1)] by blast
  have "length (req_raw (req_hton sample_req)) = SIZEOF_REQ"
    by (rule length_req_raw) (use idle_facts(6) in \<open>simp add: wf_req_def req_hton_def\<close>)
  then have "body = ''hello''" using h idle_facts(4,5) by (metis append_Nil2 append_eq_append_conv)
  then show ?thesis using r b(2,3) n by (auto simp: queued_def)
qed

text \<open>
  A request that arrives in full, with no failing call, is served: the data file holds
  exactly the bytes that follow the header, whether the stream then ends, times out or
  fails; a job with the request is last in the queue and its fields are in host order; the client is
  answered with the job number, its socket is closed and the worker list is empty again. When the
  first read fills its buffer, a file that does not start as PostScript does is marked as text.
\<close>

theorem client_request_served:
  assumes "workers (workl s) = None" and "fsplan s = []" and "\<not> oom s"
    and "polls_ok (sock_in s)" and "rbytes (sock_in s) = req_raw (req_hton r) @ data" and "wf_req r"
    and "isq (jobs s) xs" and "next_addr s \<notin> set xs"
  shows "\<exists>t r'. client_thread strerr junk mjunk tid fd (Some wtp) s = (Inr 0, t) \<and>
    r' \<in> {r, r\<lparr>pr_flags := pr_flags r OR PR_TEXT\<rparr>} \<and>
    (rplan (sock_in s) = [] \<and> 4 \<le> length data \<longrightarrow> r' = (if take 4 data = ''%!PS'' then r else r\<lparr>pr_flags := pr_flags r OR PR_TEXT\<rparr>)) \<and>
    spool t = (spool s)(data_name (sdec (nextjob s)) \<mapsto> data, req_name (sdec (nextjob s)) \<mapsto> req_raw r') \<and>
    isq (jobs t) (xs @ [next_addr s]) \<and> data_at (jobs t) (next_addr s) = \<lparr>jobid = nextjob s, req = r'\<rparr> \<and>
    same_data (jobs s) (jobs t) xs \<and> workers (workl t) = None \<and> closed t = closed s @ [fd] \<and>
    (write_ok (sock_out s) \<longrightarrow> wbytes (sock_out t) = wbytes (sock_out s) @
       resp_raw \<lparr>retcode = 0, pr_jobid = htonl (nextjob s), pr_msg = sprintf_msg (nextjob s) mjunk\<rparr>)"
  using client_served [OF assms, of strerr junk mjunk tid fd wtp]
  by (elim exE conjE) (intro exI conjI, assumption+)

theorem client_request_served_witness:
  "\<exists>t. client_thread (\<lambda>_. ''error'') [] [] 7 4 (Some 1) (idle (req_raw (req_hton sample_req) @ ''%!PS-Adobe'')) = (Inr 0, t) \<and>
     spool t (data_name ''1'') = Some ''%!PS-Adobe'' \<and> data_at (jobs t) 1 = \<lparr>jobid = 1, req = sample_req\<rparr> \<and> closed t = [4]"
proof -
  let ?d = "''%!PS-Adobe''"
  let ?s = "idle (req_raw (req_hton sample_req) @ ?d)"
  obtain t r' where r: "client_thread (\<lambda>_. ''error'') [] [] 7 4 (Some 1) ?s = (Inr 0, t)"
    "rplan (sock_in ?s) = [] \<and> 4 \<le> length ?d \<longrightarrow>
       r' = (if take 4 ?d = ''%!PS'' then sample_req else sample_req\<lparr>pr_flags := pr_flags sample_req OR PR_TEXT\<rparr>)"
    "spool t = (spool ?s)(data_name (sdec (nextjob ?s)) \<mapsto> ?d, req_name (sdec (nextjob ?s)) \<mapsto> req_raw r')"
    "data_at (jobs t) (next_addr ?s) = \<lparr>jobid = nextjob ?s, req = r'\<rparr>" "closed t = closed ?s @ [4]"
    using client_request_served [OF idle_facts(1-5,6-8), where data = ?d and strerr = "\<lambda>_. ''error''" and junk = "[]" and mjunk = "[]" and tid = 7 and fd = 4 and wtp = 1] by blast
  have r': "r' = sample_req" using r(2) by (simp add: idle_facts)
  have s: "next_addr ?s = 1" "closed ?s = []" by (simp_all add: idle_def)
  show ?thesis using r(1,3-5) unfolding r' s idle_facts sdec_1 by auto
qed

text \<open>
  C11. A restart restores the queue: \<open>build_qonstart\<close> skips the two dot entries and queues, in the
  order of the directory, every job whose control file a client thread left, with its number and
  its request, behind the jobs already queued, and removes nothing.
\<close>

theorem restart_restores_queue:
  assumes "fsplan s = []" and "\<not> oom s" and "isq (jobs s) xs" and "\<forall>x\<in>set xs. x < next_addr s"
    and "\<forall>(j, r)\<in>set js. stored s j r"
    and "filter (\<lambda>e. e \<noteq> ''.'' \<and> e \<noteq> ''..'') es = map (\<lambda>(j, r). sdec j) js"
  shows "\<exists>t as. build_qonstart (Some es) s = (Inr (), t) \<and> isq (jobs t) (xs @ as) \<and>
    map (data_at (jobs t)) (xs @ as) = map (data_at (jobs s)) xs @ map (\<lambda>(j, r). \<lparr>jobid = j, req = r\<rparr>) js \<and> spool t = spool s"
  using qonstart_loop_restores [OF assms] by (auto simp: build_qonstart_def)

theorem restart_restores_queue_witness:
  "\<exists>t a. build_qonstart (Some [''.'', ''1'', ''..'']) ((idle [])\<lparr>spool := [req_name ''1'' \<mapsto> req_raw sample_req]\<rparr>) = (Inr (), t) \<and>
     isq (jobs t) [a] \<and> data_at (jobs t) a = \<lparr>jobid = 1, req = sample_req\<rparr>"
proof -
  let ?s = "(idle [])\<lparr>spool := [req_name ''1'' \<mapsto> req_raw sample_req]\<rparr>"
  have "\<exists>t as. build_qonstart (Some [''.'', ''1'', ''..'']) ?s = (Inr (), t) \<and> isq (jobs t) ([] @ as) \<and>
    map (data_at (jobs t)) ([] @ as) = map (data_at (jobs ?s)) [] @ map (\<lambda>(j, r). \<lparr>jobid = j, req = r\<rparr>) [(1, sample_req)] \<and> spool t = spool ?s"
    by (rule restart_restores_queue) (simp_all add: idle_facts stored_def sdec_1 isq_def idle_def)
  then show ?thesis by (auto simp: map_eq_Cons_conv)
qed

text \<open>
  Job numbers are positive and follow each other, starting again at 1 after the largest
  32-bit number, and a number written to the job file by \<open>update_jobno\<close> is read back by
  \<open>init_request\<close> (which reads it into a buffer that still holds the path) when it is not shorter
  than the number before.
\<close>

theorem job_numbers:
  assumes "0 < sint (nextjob s)"
  shows "\<exists>t. get_newjobno s = (Inr (nextjob s), t) \<and> 0 < sint (nextjob t) \<and>
      sint (nextjob t) = (if sint (nextjob s) = 2 ^ 31 - 1 then 1 else sint (nextjob s) + 1) \<and>
    (fsplan s = [] \<and> length (jobfile s) \<le> length (sdec (nextjob s)) \<longrightarrow>
      (\<exists>u. update_jobno s = (Inr (), u) \<and> (\<forall>n. init_request False (u\<lparr>nextjob := n\<rparr>) = (Inr (), u))))"
proof -
  have sp: "sint (nextjob s + 1) = (if sint (nextjob s) = 2 ^ 31 - 1 then - (2 ^ 31) else sint (nextjob s) + 1)"
  proof (cases "sint (nextjob s) = 2 ^ 31 - 1")
    case True
    then show ?thesis by (simp add: sint_word_ariths)
  next
    case False
    then have "sint (nextjob s) + 1 < 2 ^ 31" using sint_range32(2) [of "nextjob s"] by linarith
    then show ?thesis using False assms by (simp add: sint_word_ariths signed_take_bit_int_eq_self)
  qed
  have a: "\<exists>t. get_newjobno s = (Inr (nextjob s), t) \<and> 0 < sint (nextjob t) \<and>
      sint (nextjob t) = (if sint (nextjob s) = 2 ^ 31 - 1 then 1 else sint (nextjob s) + 1)"
    using newjobno_runs [of s] assms sp by (auto simp: runs_def)
  moreover have "fsplan s = [] \<and> length (jobfile s) \<le> length (sdec (nextjob s)) \<longrightarrow>
      (\<exists>u. update_jobno s = (Inr (), u) \<and> (\<forall>n. init_request False (u\<lparr>nextjob := n\<rparr>) = (Inr (), u)))"
    using jobno_roundtrip [OF assms] by (auto simp: runs_def)
  ultimately show ?thesis by blast
qed

theorem job_numbers_witness:
  "\<exists>t. get_newjobno ((idle [])\<lparr>nextjob := 2147483647\<rparr>) = (Inr 2147483647, t) \<and> sint (nextjob t) = 1"
proof -
  let ?s = "(idle [])\<lparr>nextjob := 2147483647\<rparr>"
  have "0 < sint (nextjob ?s)" by simp
  from job_numbers [OF this] show ?thesis by auto
qed

text \<open>A daemon started again on the files of \<open>t\<close>.\<close>

definition restarted :: "printd \<Rightarrow> printd" where
  "restarted t = t\<lparr>jobs := \<lparr>dheap = Map.empty, qhead = None, qtail = None\<rparr>, nextjob := 0, workl := no_workers, closed := []\<rparr>"

text \<open>
  C12. The job counter reaches the disk only when the printer thread picks up a job: a daemon that is
  started again after accepting a job, and before picking it up, queues that job from its
  control file and gives its number to the next client as well, whose data file then replaces that of
  the queued job.
\<close>

theorem job_number_reused:
  assumes "workers (workl s) = None" and "fsplan s = []" and "\<not> oom s"
    and "polls_ok (sock_in s)" and "rbytes (sock_in s) = req_raw (req_hton r) @ data" and "wf_req r"
    and "isq (jobs s) xs" and "next_addr s \<notin> set xs"
    and "0 < sint (nextjob s)" and "jobfile s = sdec (nextjob s)"
  shows "\<exists>t v w a. client_thread strerr junk mjunk tid fd (Some wtp) s = (Inr 0, t) \<and>
    init_request False (restarted t) = (Inr (), v) \<and>
    build_qonstart (Some [''.'', ''..'', sdec (nextjob s)]) v = (Inr (), w) \<and>
    isq (jobs w) [a] \<and> jobid (data_at (jobs w) a) = nextjob s \<and> spool w (data_name (sdec (nextjob s))) = Some data \<and>
    (\<exists>x. get_newjobno w = (Inr (nextjob s), x) \<and>
         spool (snd (k_creat (data_name (sdec (nextjob s))) x)) (data_name (sdec (nextjob s))) = Some [])"
proof -
  obtain t r' where t: "client_thread strerr junk mjunk tid fd (Some wtp) s = (Inr 0, t)"
    "r' \<in> {r, r\<lparr>pr_flags := pr_flags r OR PR_TEXT\<rparr>}"
    "spool t = (spool s)(data_name (sdec (nextjob s)) \<mapsto> data, req_name (sdec (nextjob s)) \<mapsto> req_raw r')"
    "jobfile t = jobfile s" and ft: "fsplan t = []" "\<not> oom t"
    using client_served [OF assms(1-8), of strerr junk mjunk tid fd wtp] by (elim exE conjE) (rule that)
  let ?r = "restarted t" and ?b = "sdec (nextjob s)"
  define v where "v = ?r\<lparr>nextjob := nextjob s\<rparr>"
  have l: "1 \<le> length ?b" "length ?b \<le> 10" using length_sdec [OF assms(9)] by auto
  have ne: "?b \<noteq> []" "FILENMSZ \<noteq> 0" "take FILENMSZ ?b = ?b" using l by (cases ?b; simp add: FILENMSZ_def)+
  have V: "init_request False ?r = (Inr (), v)"
    using atol_sdec [OF assms(9) path_no_digit [of "length ?b"]] ne ft t(4) assms(10)
    by (simp add: init_request_def next_fs_def bnd_def run_simps restarted_def v_def)
  have wf: "wf_req r'" using t(2) assms(6) by auto
  have st: "\<forall>(j, q)\<in>set [(nextjob s, r')]. stored v j q"
    using t(3) assms(9) wf by (simp add: stored_def v_def restarted_def)
  have P: "fsplan v = []" "\<not> oom v" "isq (jobs v) []" "\<forall>x\<in>set []. x < next_addr v"
    using ft by (simp_all add: v_def restarted_def isq_def)
  have F: "filter (\<lambda>e. e \<noteq> ''.'' \<and> e \<noteq> ''..'') [''.'', ''..'', ?b] = map (\<lambda>(j, q). sdec j) [(nextjob s, r')]"
    using sdec_not_dot [OF assms(9)] by simp
  from qonstart_loop_restores [OF P st F] obtain w as where
    w: "build_qonstart (Some [''.'', ''..'', ?b]) v = (Inr (), w)" "isq (jobs w) as"
    "map (data_at (jobs w)) as = [\<lparr>jobid = nextjob s, req = r'\<rparr>]" "spool w = spool v" "nextjob w = nextjob v" "fsplan w = []" by (auto simp: build_qonstart_def)
  obtain a where a: "as = [a]" "data_at (jobs w) a = \<lparr>jobid = nextjob s, req = r'\<rparr>" using w(3) by auto
  have sp: "spool w (data_name ?b) = Some data" using w(4) t(3) by (simp add: v_def restarted_def)
  obtain x where x: "get_newjobno w = (Inr (nextjob s), x)" "fsplan x = fsplan w"
    using newjobno_runs [of w] w(5) by (simp add: runs_def v_def)
  have "fsplan w = []" using w(6) .
  then have "spool (snd (k_creat (data_name ?b) x)) (data_name ?b) = Some []"
    using runsD [OF k_creat_runs [of x "data_name ?b"]] x(2) by simp
  then show ?thesis using t(1) V w(1,2) a x(1) sp
    by (intro exI [of _ t] exI [of _ v] exI [of _ w] exI [of _ a] conjI exI [of _ x]) simp_all
qed

theorem job_number_reused_witness:
  "\<exists>t v w a. client_thread (\<lambda>_. ''error'') [] [] 7 4 (Some 1) (idle (req_raw (req_hton sample_req) @ ''hello'')) = (Inr 0, t) \<and>
     init_request False (restarted t) = (Inr (), v) \<and> build_qonstart (Some [''.'', ''..'', ''1'']) v = (Inr (), w) \<and>
     jobid (data_at (jobs w) a) = 1 \<and> (\<exists>x. get_newjobno w = (Inr 1, x))"
proof -
  let ?s = "idle (req_raw (req_hton sample_req) @ ''hello'')"
  have n: "0 < sint (nextjob ?s)" "jobfile ?s = sdec (nextjob ?s)" by (simp_all add: idle_facts sdec_1)
  show ?thesis
    using job_number_reused [OF idle_facts(1-5,6-8) n, of "\<lambda>_. ''error''" "[]" "[]" 7 4 1] unfolding idle_facts sdec_1 by blast
qed

end
