(* ===== verification/Printer.thy ===== *)
theory Printer
  imports Printd PrintConf
begin

unbundle bit_operations_syntax

section \<open>The print daemon: sending jobs to the printer (printer/printd.c)\<close>

text \<open>
  \<open>printer_thread\<close> is one turn of the daemon's printer thread: it picks the first job, records
  the job counter, re-reads the configuration when asked to, builds the IPP and HTTP headers,
  sends them with the data file and parses the printer's response. \<open>printer_status\<close> works on
  the read buffer as memory: every access outside it stops the model with \<open>BadAccess\<close>; its
  loops run with fuel, and \<open>OutOfFuel\<close> for every fuel means that the loop does not end.
\<close>

definition IBUFSZ :: nat where "IBUFSZ = 512"
definition HBUFSZ :: nat where "HBUFSZ = 512"
definition IPP_PORT :: nat where "IPP_PORT = 631"
definition OP_PRINT_JOB :: nat where "OP_PRINT_JOB = 2"
definition TAG_OPERATION_ATTR :: nat where "TAG_OPERATION_ATTR = 1"
definition TAG_END_OF_ATTR :: nat where "TAG_END_OF_ATTR = 3"
definition TAG_NAMEWOLANG :: nat where "TAG_NAMEWOLANG = 0x42"
definition TAG_URI :: nat where "TAG_URI = 0x45"
definition TAG_CHARSET :: nat where "TAG_CHARSET = 0x47"
definition TAG_NATULANG :: nat where "TAG_NATULANG = 0x48"
definition TAG_MIMETYPE :: nat where "TAG_MIMETYPE = 0x49"

subsection \<open>The headers\<close>

definition be16 :: "nat \<Rightarrow> string" where
  "be16 n = [byte (n div 256), byte n]"

text \<open>\<open>acc\<close> is what the buffer of \<open>cap\<close> bytes holds so far; \<open>strcpy\<close> also writes the null byte.\<close>

definition add_option :: "nat \<Rightarrow> nat \<Rightarrow> string \<Rightarrow> string \<Rightarrow> string \<Rightarrow> string option" where
  "add_option cap tag optname optval acc =
     (let out = acc @ [byte tag] @ be16 (length optname) @ optname @ be16 (length optval) @ optval
      in if length out + 1 \<le> cap then Some out else None)"

text \<open>A character array read as a string: it must be terminated within the memory given.\<close>

definition c_field :: "string \<Rightarrow> string option" where
  "c_field b = (if NUL \<in> set b then Some (cstr b) else None)"

definition is_text :: "printreq \<Rightarrow> bool" where
  "is_text r \<longleftrightarrow> pr_flags r AND PR_TEXT \<noteq> 0"

definition ipp_header :: "job \<Rightarrow> string \<Rightarrow> string option" where
  "ipp_header j printer_name =
     (let icp = [byte 1, byte 1] @ be16 OP_PRINT_JOB @ be32 (jobid j) @ [byte TAG_OPERATION_ATTR];
          str = ''http://'' @ printer_name @ ''/ipp''
      in Option.bind (add_option IBUFSZ TAG_CHARSET ''attributes-charset'' ''utf-8'' icp) (\<lambda>icp.
         Option.bind (add_option IBUFSZ TAG_NATULANG ''attributes-natural-language'' ''en-us'' icp) (\<lambda>icp.
         if 64 < length str + 1 then None else
         Option.bind (add_option IBUFSZ TAG_URI ''printer-uri'' str icp) (\<lambda>icp.
         Option.bind (c_field (usernm (req j) @ jobnm (req j))) (\<lambda>user.
         Option.bind (add_option IBUFSZ TAG_NAMEWOLANG ''requesting-user-name'' user icp) (\<lambda>icp.
         Option.bind (c_field (jobnm (req j))) (\<lambda>name.
         Option.bind (add_option IBUFSZ TAG_NAMEWOLANG ''job-name'' name icp) (\<lambda>icp.
         Option.bind (add_option IBUFSZ TAG_MIMETYPE ''document-format''
             (if is_text (req j) then ''text/plain'' else ''application/postscript'') icp) (\<lambda>icp.
         if length icp + 1 \<le> IBUFSZ then Some (icp @ [byte TAG_END_OF_ATTR]) else None)))))))))"

definition CRLF :: string where
  "CRLF = [CHR 0x0D, NEWLINE]"

definition http_header :: "string \<Rightarrow> nat \<Rightarrow> string option" where
  "http_header printer_name content_len =
     (let h = ''POST /ipp HTTP/1.1'' @ CRLF @ ''Content-Length: '' @ dec content_len @ CRLF @
              ''Content-Type: application/ipp'' @ CRLF @ ''Host: '' @ printer_name @ '':'' @ dec IPP_PORT @ CRLF @ CRLF
      in if length h \<le> HBUFSZ then Some h else None)"

subsection \<open>The printer's response\<close>

type_synonym 'a ps = "(rdesc, pd_stop, 'a) prog"

definition acc_opt :: "'a option \<Rightarrow> 'a ps" where
  "acc_opt x = (case x of None \<Rightarrow> fail BadAccess | Some v \<Rightarrow> ret v)"

definition byte_at :: "string \<Rightarrow> nat \<Rightarrow> char option" where
  "byte_at mem i = (if i < length mem then Some (mem ! i) else None)"

definition poke :: "string \<Rightarrow> nat \<Rightarrow> string option" where
  "poke mem i = (if i < length mem then Some (mem[i := NUL]) else None)"

function scan_while :: "(char \<Rightarrow> bool) \<Rightarrow> string \<Rightarrow> nat \<Rightarrow> nat option" where
  "scan_while P mem i =
     (if i < length mem then (if P (mem ! i) then scan_while P mem (i + 1) else Some i) else None)"
  by pat_completeness auto
termination by (relation "measure (\<lambda>(P, mem, i). length mem - i)") auto

definition lower :: "char \<Rightarrow> char" where
  "lower c = (let n = of_char c :: nat in if 65 \<le> n \<and> n \<le> 90 then char_of (n + 32) else c)"

text \<open>\<open>strncasecmp\<close> at an offset: it reads up to the first difference or null byte.\<close>

fun same_nocase :: "string \<Rightarrow> nat \<Rightarrow> string \<Rightarrow> bool option" where
  "same_nocase mem i [] = Some True"
| "same_nocase mem i (k # ks) =
     (if i < length mem then (if lower (mem ! i) = lower k then same_nocase mem (i + 1) ks else Some False) else None)"

text \<open>\<open>readmore\<close>; \<open>g\<close> gives the bytes of memory that \<open>malloc\<close> and \<open>realloc\<close> return.\<close>

definition readmore :: "(nat \<Rightarrow> char) \<Rightarrow> string \<Rightarrow> nat \<Rightarrow> (string \<times> nat) option ps" where
  "readmore g bp off = (\<lambda>d.
     let bp = (if length bp \<le> off then bp @ map g [length bp ..< length bp + IOBUFSZ] else bp)
     in if length bp < off then (Inl BadAccess, d)
        else case tread (length bp - off) d of
          (None, d) \<Rightarrow> (Inr None, d)
        | (Some bs, d) \<Rightarrow>
            if bs = [] then (Inr None, d)
            else (Inr (Some (take off bp @ bs @ drop (off + length bs) bp, off + length bs)), d))"

text \<open>The end of the data was reached at \<open>i\<close>: read more; \<open>None\<close> is the jump to \<open>out\<close>.\<close>

definition get_more :: "(nat \<Rightarrow> char) \<Rightarrow> string \<Rightarrow> nat \<Rightarrow> nat \<Rightarrow> (string \<times> nat) option ps" where
  "get_more g bp i datsz =
     bnd (readmore g bp i) (\<lambda>r. ret (map_option (\<lambda>(bp, nr). (bp, datsz + nr)) r))"

function scan_cl :: "string \<Rightarrow> nat \<Rightarrow> nat \<Rightarrow> nat option" where
  "scan_cl mem i datsz =
     (if i < length mem
      then if mem ! i \<noteq> CHR ''C'' \<and> mem ! i \<noteq> CHR ''c'' \<and> i < datsz then scan_cl mem (i + 1) datsz else Some i
      else None)"
  by pat_completeness auto
termination by (relation "measure (\<lambda>(mem, i, datsz). length mem - i)") auto

fun find_length :: "nat \<Rightarrow> (nat \<Rightarrow> char) \<Rightarrow> string \<Rightarrow> nat \<Rightarrow> nat \<Rightarrow> (string \<times> nat \<times> nat \<times> int) option ps" where
  "find_length 0 g bp i datsz = fail OutOfFuel"
| "find_length (Suc fuel) g bp i datsz =
     bnd (acc_opt (scan_cl bp i datsz)) (\<lambda>i.
     bnd (if datsz \<le> i then get_more g bp i datsz else ret (Some (bp, datsz))) (\<lambda>r. case r of
       None \<Rightarrow> ret None
     | Some (bp, datsz) \<Rightarrow>
         bnd (acc_opt (same_nocase bp i ''Content-Length:'')) (\<lambda>eq.
         if eq then
           bnd (acc_opt (scan_while isspace bp (i + 15))) (\<lambda>c.
           bnd (acc_opt (scan_while isdigit bp c)) (\<lambda>e.
           bnd (acc_opt (poke bp e)) (\<lambda>bp.
           ret (Some (bp, e + 1, datsz, atoi (drop c bp))))))
         else find_length fuel g bp (i + 1) datsz)))"

text \<open>The inner loop of the search for the end of the header: whether it was found, and where the loop stops.\<close>

function scan_end :: "string \<Rightarrow> nat \<Rightarrow> nat \<Rightarrow> (bool \<times> nat) option" where
  "scan_end mem i datsz =
     (if i + 2 < datsz then
        Option.bind (byte_at mem i) (\<lambda>c0.
        if c0 \<noteq> NEWLINE then scan_end mem (i + 1) datsz else
        Option.bind (byte_at mem (i + 1)) (\<lambda>c1.
        if c1 \<noteq> CHR 0x0D then scan_end mem (i + 1) datsz else
        Option.bind (byte_at mem (i + 2)) (\<lambda>c2.
        if c2 = NEWLINE then Some (True, i + 3) else scan_end mem (i + 1) datsz)))
      else Some (False, i))"
  by pat_completeness auto
termination by (relation "measure (\<lambda>(mem, i, datsz). datsz - i)") auto

fun header_end :: "nat \<Rightarrow> (nat \<Rightarrow> char) \<Rightarrow> string \<Rightarrow> nat \<Rightarrow> nat \<Rightarrow> (string \<times> nat \<times> nat) option ps" where
  "header_end 0 g bp i datsz = fail OutOfFuel"
| "header_end (Suc fuel) g bp i datsz =
     bnd (acc_opt (scan_end bp i datsz)) (\<lambda>(found, i).
     bnd (if datsz \<le> i then get_more g bp i datsz else ret (Some (bp, datsz))) (\<lambda>r. case r of
       None \<Rightarrow> ret None
     | Some (bp, datsz) \<Rightarrow> if found then ret (Some (bp, i, datsz)) else header_end fuel g bp i datsz))"

text \<open>The IPP status and request number at the end of the header.\<close>

definition ipp_response :: "32 word \<Rightarrow> string \<Rightarrow> nat \<Rightarrow> bool ps" where
  "ipp_response jid bp i =
     (if i + 8 \<le> length bp
      then ret (of_be32 (take 4 (drop (i + 4) bp)) = jid \<and> nat_of_be (take 2 (drop (i + 2) bp)) \<le> 255)
      else fail BadAccess)"

definition http_ok :: "nat \<Rightarrow> (nat \<Rightarrow> char) \<Rightarrow> 32 word \<Rightarrow> string \<Rightarrow> nat \<Rightarrow> nat \<Rightarrow> bool ps" where
  "http_ok fuel g jid bp i datsz =
     bnd (find_length fuel g bp i datsz) (\<lambda>r. case r of None \<Rightarrow> ret False | Some (bp, i, datsz, len) \<Rightarrow>
     bnd (if datsz \<le> i then get_more g bp i datsz else ret (Some (bp, datsz))) (\<lambda>r. case r of None \<Rightarrow> ret False | Some (bp, datsz) \<Rightarrow>
     bnd (header_end fuel g bp i datsz) (\<lambda>r. case r of None \<Rightarrow> ret False | Some (bp, i, datsz) \<Rightarrow>
     bnd (if int datsz - int i < len then get_more g bp i datsz else ret (Some (bp, datsz))) (\<lambda>r. case r of None \<Rightarrow> ret False | Some (bp, datsz) \<Rightarrow>
     ipp_response jid bp i))))"

fun status_loop :: "nat \<Rightarrow> (nat \<Rightarrow> char) \<Rightarrow> 32 word \<Rightarrow> string \<Rightarrow> bool ps" where
  "status_loop 0 g jid bp = fail OutOfFuel"
| "status_loop (Suc fuel) g jid bp =
     bnd (\<lambda>d. let (r, d) = tread (length bp) d in (Inr r, d)) (\<lambda>r. case r of
       None \<Rightarrow> ret False
     | Some bs \<Rightarrow>
       if bs = [] then ret False else
       let bp = bs @ drop (length bs) bp; datsz = length bs in
       bnd (acc_opt (scan_while isspace bp 8)) (\<lambda>statcode.
       bnd (acc_opt (scan_while isdigit bp statcode)) (\<lambda>cp.
       if cp = statcode then status_loop fuel g jid bp else
       bnd (acc_opt (poke bp cp)) (\<lambda>bp.
       bnd (acc_opt (scan_while (\<lambda>c. c \<noteq> CHR 0x0D \<and> c \<noteq> NEWLINE) bp (cp + 1))) (\<lambda>cp.
       bnd (acc_opt (poke bp cp)) (\<lambda>bp.
       let code = atoi (drop statcode bp) in
       if 100 \<le> code \<and> code \<le> 199 then status_loop fuel g jid bp
       else if \<not> (200 \<le> code \<and> code \<le> 299) then bnd (acc_opt (poke bp datsz)) (\<lambda>_. ret False)
       else http_ok fuel g jid bp cp datsz))))))"

definition printer_status :: "nat \<Rightarrow> (nat \<Rightarrow> char) \<Rightarrow> 32 word \<Rightarrow> bool ps" where
  "printer_status fuel g jid = status_loop fuel g jid (map g [0 ..< IOBUFSZ])"

subsection \<open>The printer thread\<close>

datatype outcome = Waiting | Canceled | Deferred | Printed
datatype conn_try = NoSocket | Refused | Connected

text \<open>\<open>connect_retry\<close> over the outcomes of its attempts: whether it connected, and the delays it slept.\<close>

definition MAXSLEEP :: nat where "MAXSLEEP = 128"

function connect_loop :: "nat \<Rightarrow> conn_try list \<Rightarrow> bool \<times> nat list" where
  "connect_loop numsec ts =
     (if MAXSLEEP < numsec then (False, [])
      else case ts of
        NoSocket # _ \<Rightarrow> (False, [])
      | Refused # ts \<Rightarrow>
          (let (r, ds) = connect_loop (2 * numsec) ts
           in (r, if numsec \<le> MAXSLEEP div 2 then numsec # ds else ds))
      | _ \<Rightarrow> (True, []))"
  by pat_completeness auto
termination by (relation "measure (\<lambda>(n, ts). length ts)") auto

definition connect_retry :: "conn_try list \<Rightarrow> bool \<times> nat list" where
  "connect_retry ts = connect_loop 1 ts"

text \<open>
  \<open>init_printer\<close>: \<open>None\<close> from \<open>getaddrinfo\<close> is an error; an address may have no canonical
  name. The daemon exits when there is no address.
\<close>

definition init_printer :: "(string \<Rightarrow> string \<Rightarrow> string option option) \<Rightarrow> string option \<Rightarrow> unit pd" where
  "init_printer getaddrinfo file =
     (case get_printaddr getaddrinfo file of
        Some (Some canonname) \<Rightarrow>
          modify (\<lambda>s. s\<lparr>printer := Some (case canonname of None \<Rightarrow> ''printer'' | Some n \<Rightarrow> n)\<rparr>)
      | _ \<Rightarrow> fail LogQuit)"

definition check_config :: "(string \<Rightarrow> string \<Rightarrow> string option option) \<Rightarrow> string option \<Rightarrow> unit pd" where
  "check_config getaddrinfo file =
     bnd (gets reread) (\<lambda>b.
     if b then bnd (modify (\<lambda>s. s\<lparr>printer := None, reread := False\<rparr>)) (\<lambda>_. init_printer getaddrinfo file)
     else ret ())"

definition sock_write :: "string \<Rightarrow> bool pd" where
  "sock_write bs = (\<lambda>s. case fd_write bs (sock_out s) of (r, d) \<Rightarrow> (Inr (r = Some (length bs)), s\<lparr>sock_out := d\<rparr>))"

definition conn_writen :: "string \<Rightarrow> bool pd" where
  "conn_writen bs = (\<lambda>s. case writen bs (sock_out s) of (r, d) \<Rightarrow> (Inr (r = int (length bs)), s\<lparr>sock_out := d\<rparr>))"

text \<open>The bytes the next \<open>read\<close> of the data file returns, or that it failed.\<close>

definition file_chunk :: "fsres \<Rightarrow> string \<Rightarrow> string option" where
  "file_chunk r rest = (case r of FsErr _ \<Rightarrow> None | FsShort k \<Rightarrow> Some (take (min IOBUFSZ (Suc k)) rest) | FsOk \<Rightarrow> Some (take IOBUFSZ rest))"

lemma file_chunk_nonempty: "file_chunk r rest = Some bs \<Longrightarrow> bs \<noteq> [] \<Longrightarrow> length (drop (length bs) rest) < length rest"
  by (auto simp: file_chunk_def split: fsres.splits)

function send_file :: "string \<Rightarrow> bool pd" where
  "send_file rest s =
     (case next_fs s of
        (Inl e, s) \<Rightarrow> (Inl e, s)
      | (Inr r, s) \<Rightarrow>
         (case file_chunk r rest of
            None \<Rightarrow> (Inr False, s)
          | Some bs \<Rightarrow>
              if bs = [] then (Inr True, s)
              else case conn_writen bs s of
                (Inl e, s) \<Rightarrow> (Inl e, s)
              | (Inr ok, s) \<Rightarrow> if ok then send_file (drop (length bs) rest) s else (Inr False, s)))"
  by pat_completeness auto
termination by (relation "measure (\<lambda>(rest, s). length rest)") (auto simp del: length_drop intro: file_chunk_nonempty)

declare send_file.simps [simp del]

definition run_status :: "nat \<Rightarrow> (nat \<Rightarrow> char) \<Rightarrow> 32 word \<Rightarrow> bool pd" where
  "run_status fuel g jid = (\<lambda>s. case printer_status fuel g jid (sock_in s) of (r, d) \<Rightarrow> (r, s\<lparr>sock_in := d\<rparr>))"

text \<open>From the headers to the response: whether the job was printed (\<open>False\<close> is the jump to \<open>defer\<close>).\<close>

definition send_job :: "nat \<Rightarrow> (nat \<Rightarrow> char) \<Rightarrow> job \<Rightarrow> string \<Rightarrow> bool pd" where
  "send_job fuel g j file =
     bnd (gets printer) (\<lambda>pn.
     bnd (lift_opt (\<lambda>s. Option.bind pn (\<lambda>n. ipp_header j n))) (\<lambda>ibuf.
     bnd (lift_opt (\<lambda>s. Option.bind pn (\<lambda>n. http_header n (length file + length ibuf + (if is_text (req j) then 1 else 0))))) (\<lambda>hbuf.
     bnd (sock_write (hbuf @ ibuf)) (\<lambda>ok. if \<not> ok then ret False else
     bnd (if is_text (req j) then sock_write [CHR 0x08] else ret True) (\<lambda>ok. if \<not> ok then ret False else
     bnd (send_file file) (\<lambda>ok. if \<not> ok then ret False else
     run_status fuel g (jobid j)))))))"

definition free_job :: "nat \<Rightarrow> unit pd" where
  "free_job jp = modify (\<lambda>s. s\<lparr>jobs := (jobs s)\<lparr>dheap := (dheap (jobs s))(jp := None)\<rparr>\<rparr>)"

definition set_jobs :: "(jobq \<Rightarrow> jobq option) \<Rightarrow> unit pd" where
  "set_jobs f = bnd (lift_opt (\<lambda>s. f (jobs s))) (\<lambda>q. modify (\<lambda>s. s\<lparr>jobs := q\<rparr>))"

text \<open>After \<open>goto defer\<close>: the job goes back to the front and the thread sleeps a minute.\<close>

definition defer_job :: "nat \<Rightarrow> outcome pd" where
  "defer_job jp = bnd (set_jobs (replace_job jp)) (\<lambda>_. ret Deferred)"

definition job_at :: "nat \<Rightarrow> job pd" where
  "job_at jp = lift_opt (\<lambda>s. map_option ddata (dheap (jobs s) jp))"

definition print_job :: "nat \<Rightarrow> (nat \<Rightarrow> char) \<Rightarrow> conn_try list \<Rightarrow> nat \<Rightarrow> outcome pd" where
  "print_job fuel g ts jp =
     bnd (job_at jp) (\<lambda>j.
     let name = data_name (sdec (jobid j)) in
     bnd (k_open name) (\<lambda>opened.
     if \<not> opened then bnd (free_job jp) (\<lambda>_. ret Canceled) else
     bnd (gets (\<lambda>s. the (spool s name))) (\<lambda>file.
     bnd next_fs (\<lambda>st. case st of FsErr _ \<Rightarrow> bnd (free_job jp) (\<lambda>_. ret Canceled) | _ \<Rightarrow>
     if \<not> fst (connect_retry ts) then defer_job jp else
     bnd (send_job fuel g j file) (\<lambda>printed.
     if printed then
       bnd (k_unlink name) (\<lambda>_. bnd (k_unlink (req_name (sdec (jobid j)))) (\<lambda>_. bnd (free_job jp) (\<lambda>_. ret Printed)))
     else defer_job jp)))))"

definition printer_thread ::
    "nat \<Rightarrow> (nat \<Rightarrow> char) \<Rightarrow> (string \<Rightarrow> string \<Rightarrow> string option option) \<Rightarrow> string option \<Rightarrow> conn_try list \<Rightarrow> outcome pd" where
  "printer_thread fuel g getaddrinfo file ts =
     bnd (gets (\<lambda>s. qhead (jobs s))) (\<lambda>h. case h of
       None \<Rightarrow> ret Waiting
     | Some jp \<Rightarrow>
         bnd (set_jobs (remove_job jp)) (\<lambda>_.
         bnd update_jobno (\<lambda>_.
         bnd (check_config getaddrinfo file) (\<lambda>_.
         print_job fuel g ts jp))))"

subsection \<open>What a turn of the printer thread leaves\<close>

definition same_queue :: "printd \<Rightarrow> printd \<Rightarrow> bool" where
  "same_queue s t \<longleftrightarrow> jobs t = jobs s \<and> spool t = spool s"

lemma same_queue_rel [simp, intro]: "transp same_queue" "reflp same_queue"
  by (auto simp: same_queue_def transp_def reflp_def)

lemma keeps_lift [intro]: "keeps same_queue (lift_opt f)"
  by (auto simp: keeps_def lift_opt_def same_queue_def split: option.split)

lemma keeps_next_fs [intro]: "keeps same_queue next_fs"
  by (auto simp: keeps_def next_fs_def same_queue_def split: list.split)

lemmas keeps_basic [intro] =
  keeps_ret [OF same_queue_rel(2)] keeps_fail [OF same_queue_rel(2)] keeps_gets [OF same_queue_rel(2)]
  keeps_bnd [OF same_queue_rel(1)]

lemma keeps_queue_if [intro]: "keeps same_queue a \<Longrightarrow> keeps same_queue b \<Longrightarrow> keeps same_queue (if c then a else b)"
  by simp

lemma keeps_update_jobno [intro]: "keeps same_queue update_jobno"
  unfolding update_jobno_def
  by (rule keeps_basic(4) [OF keeps_next_fs]) (auto simp: same_queue_def Let_def split: fsres.split intro!: keeps_modify)

lemma keeps_check_config [intro]: "keeps same_queue (check_config f c)"
proof -
  have m: "keeps same_queue (modify (\<lambda>s. s\<lparr>printer := p\<rparr>))" for p by (rule keeps_modify) (simp add: same_queue_def)
  have "keeps same_queue (init_printer f c)"
    unfolding init_printer_def using m by (auto split: option.split)
  moreover have "keeps same_queue (modify (\<lambda>s. s\<lparr>printer := None, reread := False\<rparr>))"
    by (rule keeps_modify) (simp add: same_queue_def)
  ultimately show ?thesis unfolding check_config_def by (intro keeps_basic keeps_queue_if)
qed

lemma keeps_sock [intro]: "keeps same_queue (sock_write bs)" "keeps same_queue (conn_writen bs)" "keeps same_queue (run_status f g j)"
  by (auto simp: keeps_def sock_write_def conn_writen_def run_status_def same_queue_def split: prod.split)

lemma keeps_send_file [intro]: "keeps same_queue (send_file rest)"
proof -
  have "same_queue s (snd (send_file rest s))" for s
  proof (induction rest s rule: send_file.induct)
    case (1 rest s)
    obtain x u where n: "next_fs s = (x, u)" by fastforce
    obtain r p where u: "x = Inr r" "u = s\<lparr>fsplan := p\<rparr>" using next_fs_cases [OF n] by blast
    have su: "same_queue s u" by (simp add: u same_queue_def)
    show ?case
    proof (cases "file_chunk r rest")
      case None
      then show ?thesis using n u su by (simp add: send_file.simps [of rest s])
    next
      case (Some bs)
      obtain y v where w: "conn_writen bs u = (y, v)" by fastforce
      obtain ok where y: "y = Inr ok" using w by (auto simp: conn_writen_def split: prod.splits)
      have sv: "same_queue s v" using su keepsD [OF keeps_sock(2) w] by (simp add: same_queue_def)
      show ?thesis
      proof (cases "bs = [] \<or> \<not> ok")
        case True
        then show ?thesis using n u su sv Some w y by (auto simp: send_file.simps [of rest s])
      next
        case False
        then have "same_queue v (snd (send_file (drop (length bs) rest) v))"
          using "1.IH" [OF n [symmetric] u(1) Some _ w [symmetric] y] by simp
        then show ?thesis using n u sv Some w y False by (simp add: send_file.simps [of rest s] same_queue_def)
      qed
    qed
  qed
  then show ?thesis by (simp add: keeps_def)
qed

lemma keeps_send_job [intro]: "keeps same_queue (send_job fuel g j file)"
  unfolding send_job_def by (intro keeps_basic keeps_queue_if keeps_lift keeps_sock keeps_send_file)

lemma keeps_k_open [intro]: "keeps same_queue (k_open n)"
  unfolding k_open_def by (intro keeps_basic keeps_next_fs)

lemma isq_free: "isq q xs \<Longrightarrow> a \<notin> set xs \<Longrightarrow> isq (q\<lparr>dheap := (dheap q)(a := None)\<rparr>) xs"
  by (simp add: isq_def dls_frame)

lemma job_at_runs: "jp \<in> dom (dheap (jobs s)) \<Longrightarrow> runs (job_at jp) s (data_at (jobs s) jp) s"
  by (auto simp: runs_def job_at_def lift_opt_def data_at_def)

lemma set_jobs_runs: "f (jobs s) = Some q \<Longrightarrow> runs (set_jobs f) s () (s\<lparr>jobs := q\<rparr>)"
  by (simp add: runs_def set_jobs_def lift_opt_def bnd_def run_simps)

subsection \<open>What is sent for a job\<close>

text \<open>A file system call fails; the document as it is sent; the headers and the document have gone to the printer.\<close>

definition failing :: "printd \<Rightarrow> bool" where
  "failing s \<longleftrightarrow> (\<exists>n. FsErr n \<in> set (fsplan s))"

definition doc_bytes :: "job \<Rightarrow> string \<Rightarrow> string" where
  "doc_bytes j file = (if is_text (req j) then [CHR 0x08] else []) @ file"

definition job_sent :: "job \<Rightarrow> string \<Rightarrow> printd \<Rightarrow> printd \<Rightarrow> bool" where
  "job_sent j file s t \<longleftrightarrow> (\<exists>pn ib hb. ipp_header j pn = Some ib \<and> http_header pn (length (ib @ doc_bytes j file)) = Some hb \<and>
     wbytes (sock_out t) = wbytes (sock_out s) @ hb @ ib @ doc_bytes j file)"

text \<open>\<open>pushes bs s ok t\<close>: a step has written \<open>bs\<close> to the printer, or has failed because a call did.\<close>

definition pushes :: "string \<Rightarrow> printd \<Rightarrow> bool \<Rightarrow> printd \<Rightarrow> bool" where
  "pushes bs s ok t \<longleftrightarrow> sock_in t = sock_in s \<and> same_queue s t \<and> set (fsplan t) \<subseteq> set (fsplan s) \<and>
     (ok \<longrightarrow> wbytes (sock_out t) = wbytes (sock_out s) @ bs) \<and> (wplan (sock_out s) = [] \<longrightarrow> wplan (sock_out t) = []) \<and>
     (\<not> ok \<longrightarrow> failing s \<or> wplan (sock_out s) \<noteq> [])"

lemma failing_mono: "set (fsplan t) \<subseteq> set (fsplan s) \<Longrightarrow> failing t \<Longrightarrow> failing s"
  by (auto simp: failing_def)

lemma pushes_trans: "pushes bs s True t \<Longrightarrow> pushes cs t ok u \<Longrightarrow> pushes (bs @ cs) s ok u"
  unfolding pushes_def same_queue_def using failing_mono [of t s] by auto

lemma pushes_refl: "pushes [] s True s"
  by (simp add: pushes_def same_queue_def)

lemma sock_write_pushes: "\<exists>ok t. sock_write bs s = (Inr ok, t) \<and> pushes bs s ok t"
  by (auto simp: sock_write_def fd_write_def pushes_def same_queue_def failing_def min_def split: list.split option.split)

lemma conn_writen_pushes: "\<exists>ok t. conn_writen bs s = (Inr ok, t) \<and> pushes bs s ok t"
proof -
  obtain r d where w: "writen bs (sock_out s) = (r, d)" by fastforce
  have c: "r = int (length bs) \<Longrightarrow> wbytes d = wbytes (sock_out s) @ bs"
    using fdsink.wloop_result [OF w [unfolded writen_def]] by auto
  have h: "r = int (length bs) \<and> wplan d = []" if "wplan (sock_out s) = []"
  proof (cases "bs = []")
    case True
    then show ?thesis using w that by (auto simp: writen_def writen_loop.simps [of fd_write _ "[]"])
  next
    case False
    then show ?thesis using w that
      by (auto simp: writen_def writen_loop.simps [of fd_write _ bs] writen_loop.simps [of fd_write _ "[]"] fd_write_def)
  qed
  have "conn_writen bs s = (Inr (r = int (length bs)), s\<lparr>sock_out := d\<rparr>)" using w by (simp add: conn_writen_def)
  moreover have "pushes bs s (r = int (length bs)) (s\<lparr>sock_out := d\<rparr>)"
    using c h by (auto simp: pushes_def same_queue_def)
  ultimately show ?thesis by blast
qed

lemma next_fs_shrinks: "\<exists>r p. next_fs s = (Inr r, s\<lparr>fsplan := p\<rparr>) \<and> set p \<subseteq> set (fsplan s) \<and> ((\<exists>n. r = FsErr n) \<longrightarrow> failing s)"
  by (cases "fsplan s") (auto simp: next_fs_def failing_def intro: exI [of _ "[]"])

lemma send_file_pushes: "\<exists>ok t. send_file rest s = (Inr ok, t) \<and> pushes rest s ok t"
proof (induction "length rest" arbitrary: rest s rule: less_induct)
  case less
  obtain r p where n: "next_fs s = (Inr r, s\<lparr>fsplan := p\<rparr>)" and p: "set p \<subseteq> set (fsplan s)" and r: "(\<exists>n. r = FsErr n) \<longrightarrow> failing s"
    using next_fs_shrinks by blast
  let ?u = "s\<lparr>fsplan := p\<rparr>"
  have u: "pushes [] s True ?u" using p by (simp add: pushes_def same_queue_def)
  show ?case
  proof (cases "file_chunk r rest")
    case None
    then have "failing s" using r by (auto simp: file_chunk_def split: fsres.splits)
    then have "pushes rest s False ?u" using p by (simp add: pushes_def same_queue_def)
    then show ?thesis using None n by (auto simp: send_file.simps [of rest s])
  next
    case (Some bs)
    have pre: "take k rest @ drop (length (take k rest)) rest = rest" for k by (cases "k \<le> length rest") simp_all
    have bs: "rest = bs @ drop (length bs) rest" "bs = [] \<longrightarrow> rest = []"
      using Some pre [symmetric] by (auto simp: file_chunk_def IOBUFSZ_def split: fsres.splits)
    obtain ok v where w: "conn_writen bs ?u = (Inr ok, v)" and v: "pushes bs ?u ok v" using conn_writen_pushes by blast
    have sv: "pushes bs s ok v" using pushes_trans [OF u v] by simp
    show ?thesis
    proof (cases "bs = [] \<or> \<not> ok")
      case True
      then show ?thesis using n Some w u sv bs(2) by (auto simp: send_file.simps [of rest s] pushes_def)
    next
      case False
      then have "length (drop (length bs) rest) < length rest" using file_chunk_nonempty [OF Some] by simp
      from less.hyps [OF this, of v] obtain ok' t where t: "send_file (drop (length bs) rest) v = (Inr ok', t)"
        "pushes (drop (length bs) rest) v ok' t" by blast
      have "pushes rest s ok' t" using pushes_trans [of bs s v "drop (length bs) rest" ok' t] sv t(2) False bs(1) by simp
      then show ?thesis using n Some w False t(1) by (simp add: send_file.simps [of rest s])
    qed
  qed
qed

text \<open>Whether a job was sent and what its answer was.\<close>

lemma send_job_outcome:
  assumes run: "send_job fuel g j file s = (x, t)"
  shows "(x = Inr True \<longrightarrow> job_sent j file s t \<and> printer_status fuel g (jobid j) (sock_in s) = (Inr True, sock_in t)) \<and>
    (x = Inr False \<longrightarrow> failing s \<or> wplan (sock_out s) \<noteq> [] \<or> fst (printer_status fuel g (jobid j) (sock_in s)) = Inr False) \<and>
    same_queue s t"
proof -
  have sq: "same_queue s t" using keepsD [OF keeps_send_job run] .
  show ?thesis
  proof (cases "\<exists>pn ib hb. printer s = Some pn \<and> ipp_header j pn = Some ib \<and> http_header pn (length (ib @ doc_bytes j file)) = Some hb")
    case False
    have "send_job fuel g j file s = (Inl BadAccess, s)"
    proof (cases "Option.bind (printer s) (\<lambda>n. ipp_header j n)")
      case None
      then show ?thesis by (simp add: send_job_def bnd_def run_simps lift_opt_def)
    next
      case (Some ib)
      then obtain pn where pn: "printer s = Some pn" "ipp_header j pn = Some ib" by (cases "printer s") auto
      have len: "length file + length ib + (if is_text (req j) then 1 else 0) = length (ib @ doc_bytes j file)" by (simp add: doc_bytes_def)
      have "http_header pn (length (ib @ doc_bytes j file)) = None" using False pn by auto
      then show ?thesis unfolding send_job_def len pn(1)
        using pn by (simp only: bnd_def gets_run lift_opt_def len Option.bind.simps option.case prod.case sum.case)
    qed
    then have "\<exists>e. x = Inl e" using run by simp
    then show ?thesis using sq by auto
  next
    case True
    then obtain pn ib hb where h: "printer s = Some pn" "ipp_header j pn = Some ib" "http_header pn (length (ib @ doc_bytes j file)) = Some hb"
      by blast
    have len: "length file + length ib + (if is_text (req j) then 1 else 0) = length (ib @ doc_bytes j file)" by (simp add: doc_bytes_def)
    have r0: "bnd (gets printer) f s = f (Some pn) s" for f :: "string option \<Rightarrow> bool pd" by (simp add: bnd_def gets_run h(1))
    have r1: "runs (lift_opt (\<lambda>s. Option.bind (Some pn) (\<lambda>n. ipp_header j n))) s ib s" using h(2) by (simp add: runs_def lift_opt_def)
    have r2: "runs (lift_opt (\<lambda>s. Option.bind (Some pn) (\<lambda>n. http_header n (length (ib @ doc_bytes j file))))) s hb s"
      using h(3) by (simp add: runs_def lift_opt_def)
    obtain ok1 s1 where r3: "runs (sock_write (hb @ ib)) s ok1 s1" and p1: "pushes (hb @ ib) s ok1 s1"
      using sock_write_pushes [of "hb @ ib" s] by (auto simp: runs_def)
    let ?bk = "if is_text (req j) then [CHR 0x08] else []"
    obtain ok2 s2 where r4: "runs (if is_text (req j) then sock_write [CHR 0x08] else ret True) s1 ok2 s2" and p2: "pushes ?bk s1 ok2 s2"
      using sock_write_pushes [of "[CHR 0x08]" s1] pushes_refl by (cases "is_text (req j)") (auto simp: runs_def run_simps)
    obtain ok3 s3 where r5: "runs (send_file file) s2 ok3 s3" and p3: "pushes file s2 ok3 s3"
      using send_file_pushes [where rest = "file" and s = s2] by (auto simp: runs_def)
    have all: "send_job fuel g j file s = (if \<not> ok1 then ret False s1 else if \<not> ok2 then ret False s2 else if \<not> ok3 then ret False s3
        else run_status fuel g (jobid j) s3)"
      unfolding send_job_def r0 bnd_step [OF r1] len bnd_step [OF r2] bnd_step [OF r3]
      by (cases ok1) (simp_all add: bnd_step [OF r4] bnd_step [OF r5])
    consider (bad) "failing s \<or> wplan (sock_out s) \<noteq> []" "x = Inr False"
      | (sent) "pushes (hb @ ib @ doc_bytes j file) s True s3" "run_status fuel g (jobid j) s3 = (x, t)"
    proof (cases "ok1 \<and> ok2 \<and> ok3")
      case True
      then have p: "pushes (hb @ ib) s True s1" "pushes ?bk s1 True s2" "pushes file s2 True s3" using p1 p2 p3 by (auto simp only:)
      have "pushes (((hb @ ib) @ ?bk) @ file) s True s3" by (rule pushes_trans [OF pushes_trans [OF p(1,2)] p(3)])
      then show thesis using sent all True run by (simp add: doc_bytes_def)
    next
      case False
      then have "failing s \<or> wplan (sock_out s) \<noteq> []"
        using p1 p2 p3 failing_mono [of s1 s] failing_mono [of s2 s1] unfolding pushes_def by blast
      moreover have "x = Inr False" using all run False by (auto simp: run_simps split: if_splits)
      ultimately show thesis by (rule bad)
    qed
    then show ?thesis
    proof cases
      case bad
      then show ?thesis using sq by auto
    next
      case sent
      then have "sock_in s3 = sock_in s" by (simp add: pushes_def)
      moreover have "job_sent j file s s3" using sent(1) h unfolding job_sent_def pushes_def by blast
      moreover have "sock_out t = sock_out s3" "x = Inr True \<longrightarrow> printer_status fuel g (jobid j) (sock_in s3) = (Inr True, sock_in t)"
        "fst (printer_status fuel g (jobid j) (sock_in s3)) = x"
        using sent(2) by (auto simp: run_status_def split: prod.splits)
      ultimately show ?thesis using sq unfolding job_sent_def by auto
    qed
  qed
qed

text \<open>The calls before anything is sent leave the connection alone.\<close>

definition untouched :: "printd \<Rightarrow> printd \<Rightarrow> bool" where
  "untouched s t \<longleftrightarrow> jobs t = jobs s \<and> spool t = spool s \<and> sock_in t = sock_in s \<and> sock_out t = sock_out s \<and>
     set (fsplan t) \<subseteq> set (fsplan s)"

lemma untouched_rel: "transp untouched" "reflp untouched"
  by (auto simp: untouched_def transp_def reflp_def)

lemmas untouched_basic =
  keeps_ret [OF untouched_rel(2)] keeps_fail [OF untouched_rel(2)] keeps_gets [OF untouched_rel(2)]
  keeps_bnd [OF untouched_rel(1)]

lemma untouched_next_fs: "keeps untouched next_fs"
  by (auto simp: keeps_def next_fs_def untouched_def split: list.split)

lemma untouched_before:
  "keeps untouched update_jobno" "keeps untouched (check_config f c)" "keeps untouched (k_open n)"
proof -
  show "keeps untouched update_jobno"
    unfolding update_jobno_def
    by (rule untouched_basic(4) [OF untouched_next_fs])
      (auto simp: untouched_def Let_def split: fsres.split intro!: keeps_modify untouched_basic)
  show "keeps untouched (k_open n)"
    unfolding k_open_def by (intro untouched_basic untouched_next_fs)
  have m: "keeps untouched (modify (\<lambda>s. s\<lparr>printer := p\<rparr>))" for p by (rule keeps_modify) (simp add: untouched_def)
  have "keeps untouched (init_printer f c)"
    unfolding init_printer_def using m by (auto split: option.split intro: untouched_basic)
  moreover have "keeps untouched (modify (\<lambda>s. s\<lparr>printer := None, reread := False\<rparr>))"
    by (rule keeps_modify) (simp add: untouched_def)
  moreover have "keeps untouched (if b then m1 else m2)" if "keeps untouched m1" "keeps untouched m2" for b and m1 m2 :: "unit pd"
    using that by simp
  ultimately show "keeps untouched (check_config f c)" unfolding check_config_def by (intro untouched_basic) (auto intro: untouched_basic)
qed

subsection \<open>Every way a turn ends\<close>

lemma free_job_kept:
  assumes "isq (jobs s) js" and "jp \<notin> set js"
  defines "t \<equiv> s\<lparr>jobs := (jobs s)\<lparr>dheap := (dheap (jobs s))(jp := None)\<rparr>\<rparr>"
  shows "runs (free_job jp) s () t" and "isq (jobs t) js" and "same_data (jobs s) (jobs t) js" and "spool t = spool s"
  using isq_free [OF assms(1,2)] assms(2) by (auto simp: free_job_def t_def same_data_def data_at_def)

lemma defer_job_kept:
  assumes "isq (jobs s) js" and "jp \<notin> set js" and "jp \<in> dom (dheap (jobs s))"
  obtains t where "defer_job jp s = (Inr Deferred, t)" "isq (jobs t) (jp # js)" "same_data (jobs s) (jobs t) (jp # js)" "spool t = spool s"
proof -
  obtain n where n: "dheap (jobs s) jp = Some n" using assms(3) by auto
  obtain q where q: "replace_job jp (jobs s) = Some q" "isq q (jp # js)" "same_data (jobs s) q (jp # js)"
    using replace_job_isq [OF assms(1,2) n] by blast
  have "defer_job jp s = (Inr Deferred, s\<lparr>jobs := q\<rparr>)"
    using set_jobs_runs [of "replace_job jp" s, OF q(1)] by (simp add: defer_job_def bnd_step run_simps)
  then show thesis using that q by simp
qed

text \<open>
  How a turn with job \<open>jp\<close> in front of \<open>js\<close> ends, with the queue and the spool it leaves: the four outcomes, or a stop of
  the daemon.
\<close>

definition turn_ends :: "nat \<Rightarrow> (nat \<Rightarrow> char) \<Rightarrow> conn_try list \<Rightarrow> nat \<Rightarrow> nat list \<Rightarrow> printd \<Rightarrow> pd_stop + outcome \<Rightarrow> printd \<Rightarrow> bool" where
  "turn_ends fuel g ts jp js s x t \<longleftrightarrow>
     (let j = data_at (jobs s) jp; D = data_name (sdec (jobid j)); Q = req_name (sdec (jobid j));
          verdict = printer_status fuel g (jobid j) (sock_in s)
      in case x of
        Inr Printed \<Rightarrow> fst (connect_retry ts) \<and> (\<exists>file. spool s D = Some file \<and> job_sent j file s t) \<and> verdict = (Inr True, sock_in t) \<and>
          isq (jobs t) js \<and> same_data (jobs s) (jobs t) js \<and> spool t = (spool s)(D := None, Q := None)
      | Inr Deferred \<Rightarrow> (\<not> fst (connect_retry ts) \<or> failing s \<or> wplan (sock_out s) \<noteq> [] \<or> fst verdict = Inr False) \<and>
          isq (jobs t) (jp # js) \<and> same_data (jobs s) (jobs t) (jp # js) \<and> spool t = spool s
      | Inr Canceled \<Rightarrow> (spool s D = None \<or> failing s) \<and> isq (jobs t) js \<and> same_data (jobs s) (jobs t) js \<and> spool t = spool s
      | Inr Waiting \<Rightarrow> False
      | Inl _ \<Rightarrow> isq (jobs t) js \<and> same_data (jobs s) (jobs t) js \<and> spool t = spool s)"

lemma turn_ends_later:
  assumes "turn_ends fuel g ts jp js s' x t" and "\<forall>a. data_at (jobs s') a = data_at (jobs s) a" and "spool s' = spool s"
    and "sock_in s' = sock_in s" "sock_out s' = sock_out s" "set (fsplan s') \<subseteq> set (fsplan s)"
  shows "turn_ends fuel g ts jp js s x t"
  using assms(1) failing_mono [OF assms(6)]
  unfolding turn_ends_def Let_def job_sent_def same_data_def assms(3-5) spec [OF assms(2)]
  by (auto split: sum.splits outcome.splits)

lemma print_job_ends:
  assumes run: "print_job fuel g ts jp s = (x, t)"
    and q: "isq (jobs s) js" "jp \<notin> set js" "jp \<in> dom (dheap (jobs s))"
  shows "turn_ends fuel g ts jp js s x t"
proof -
  let ?j = "data_at (jobs s) jp"
  let ?D = "data_name (sdec (jobid ?j))"
  have cancel: "turn_ends fuel g ts jp js s x t"
    if "bnd (free_job jp) (\<lambda>_. ret Canceled) u = (x, t)" "untouched s u" "spool s ?D = None \<or> failing s" for u
  proof -
    have "jobs u = jobs s" "spool u = spool s" using that(2) by (auto simp: untouched_def)
    then have qu: "isq (jobs u) js" using q(1) by simp
    have "x = Inr Canceled \<and> t = u\<lparr>jobs := (jobs u)\<lparr>dheap := (dheap (jobs u))(jp := None)\<rparr>\<rparr>"
      using that(1) by (simp add: free_job_def bnd_def run_simps)
    then show ?thesis using that(3) free_job_kept(2-) [OF qu q(2)] \<open>jobs u = jobs s\<close> \<open>spool u = spool s\<close>
      by (simp add: turn_ends_def Let_def)
  qed
  have putback: "turn_ends fuel g ts jp js s x t"
    if d: "defer_job jp u = (x, t)" "same_queue s u"
      "\<not> fst (connect_retry ts) \<or> failing s \<or> wplan (sock_out s) \<noteq> [] \<or> fst (printer_status fuel g (jobid ?j) (sock_in s)) = Inr False" for u
  proof -
    have "jobs u = jobs s" "spool u = spool s" using d(2) by (auto simp: same_queue_def)
    then obtain t' where "defer_job jp u = (Inr Deferred, t')" "isq (jobs t') (jp # js)" "same_data (jobs s) (jobs t') (jp # js)" "spool t' = spool s"
      using defer_job_kept [of u js jp] q by metis
    then show ?thesis using d(1,3) by (auto simp: turn_ends_def Let_def)
  qed
  obtain opened s1 where 1: "runs (k_open ?D) s opened s1"
    by (cases "k_open ?D s") (auto simp: k_open_def runs_def next_fs_def bnd_def run_simps split: list.splits)
  have u1: "untouched s s1" using keepsD [OF untouched_before(3) 1 [unfolded runs_def]] .
  have op: "opened \<Longrightarrow> spool s ?D \<noteq> None" "\<not> opened \<Longrightarrow> spool s ?D = None \<or> failing s"
    using 1 next_fs_shrinks [of s] by (auto simp: runs_def k_open_def bnd_def run_simps split: fsres.splits)
  have r1: "print_job fuel g ts jp s = (if \<not> opened then bnd (free_job jp) (\<lambda>_. ret Canceled) else
     bnd (gets (\<lambda>s. the (spool s ?D))) (\<lambda>file.
     bnd next_fs (\<lambda>st. case st of FsErr _ \<Rightarrow> bnd (free_job jp) (\<lambda>_. ret Canceled) | _ \<Rightarrow>
     if \<not> fst (connect_retry ts) then defer_job jp else
     bnd (send_job fuel g ?j file) (\<lambda>printed.
     if printed then
       bnd (k_unlink ?D) (\<lambda>_. bnd (k_unlink (req_name (sdec (jobid ?j)))) (\<lambda>_. bnd (free_job jp) (\<lambda>_. ret Printed)))
     else defer_job jp)))) s1"
    unfolding print_job_def bnd_step [OF job_at_runs [OF q(3)]] Let_def bnd_step [OF 1] ..
  show ?thesis
  proof (cases opened)
    case False
    then show ?thesis using cancel [OF _ u1] op(2) r1 run by simp
  next
    case True
    then obtain "file" where fl0: "spool s ?D = Some file" using op(1) by auto
    obtain st p where st: "runs next_fs s1 st (s1\<lparr>fsplan := p\<rparr>)" and p: "set p \<subseteq> set (fsplan s1)" "(\<exists>n. st = FsErr n) \<longrightarrow> failing s1"
      using next_fs_shrinks [of s1] by (auto simp: runs_def)
    let ?s2 = "s1\<lparr>fsplan := p\<rparr>"
    have u2: "untouched s ?s2" using u1 p(1) by (auto simp: untouched_def)
    have fl: "failing s1 \<Longrightarrow> failing s" using u1 failing_mono [of s1 s] by (simp add: untouched_def)
    have the_file: "the (spool s1 ?D) = file" using u1 fl0 by (simp add: untouched_def)
    have r2: "print_job fuel g ts jp s = (case st of FsErr _ \<Rightarrow> bnd (free_job jp) (\<lambda>_. ret Canceled) | _ \<Rightarrow>
       if \<not> fst (connect_retry ts) then defer_job jp else
       bnd (send_job fuel g ?j file) (\<lambda>printed.
       if printed then
         bnd (k_unlink ?D) (\<lambda>_. bnd (k_unlink (req_name (sdec (jobid ?j)))) (\<lambda>_. bnd (free_job jp) (\<lambda>_. ret Printed)))
       else defer_job jp)) ?s2"
      unfolding the_file [symmetric] using r1 True by (simp add: bnd_step [OF st] bnd_run_Inr [where m = "gets _", OF gets_run])
    show ?thesis
    proof (cases "(\<exists>n. st = FsErr n) \<or> \<not> fst (connect_retry ts)")
      case True
      have sq: "same_queue s ?s2" using u2 by (auto simp: untouched_def same_queue_def)
      show ?thesis
        using True run r2 cancel [OF _ u2] putback [OF _ sq] p(2) fl by (cases st) auto
    next
      case False
      obtain y v where sj: "send_job fuel g ?j file ?s2 = (y, v)" by fastforce
      note so = send_job_outcome [OF sj]
      have sv: "same_queue s v" "sock_in ?s2 = sock_in s" "sock_out ?s2 = sock_out s" "failing ?s2 \<Longrightarrow> failing s"
        using so u2 failing_mono [of ?s2 s] by (auto simp: untouched_def same_queue_def)
      have r3: "print_job fuel g ts jp s = (case y of Inl e \<Rightarrow> (Inl e, v) | Inr printed \<Rightarrow> (if printed then
         bnd (k_unlink ?D) (\<lambda>_. bnd (k_unlink (req_name (sdec (jobid ?j)))) (\<lambda>_. bnd (free_job jp) (\<lambda>_. ret Printed)))
         else defer_job jp) v)"
        using False r2 sj by (cases st) (auto simp: bnd_def)
      consider (stop) e where "y = Inl e" | (no) "y = Inr False" | (yes) "y = Inr True" by (cases y) auto
      then show ?thesis
      proof cases
        case stop
        then show ?thesis using r3 run sv(1) q by (auto simp: turn_ends_def Let_def same_queue_def same_data_def)
      next
        case no
        then show ?thesis using putback [OF _ sv(1)] r3 run so sv(2-4) by auto
      next
        case yes
        let ?w = "v\<lparr>spool := (spool v)(?D := None, req_name (sdec (jobid ?j)) := None)\<rparr>"
        have "isq (jobs ?w) js" using sv(1) q by (simp add: same_queue_def)
        note fj = free_job_kept [OF this q(2)]
        have "print_job fuel g ts jp s = (Inr Printed, ?w\<lparr>jobs := (jobs ?w)\<lparr>dheap := (dheap (jobs ?w))(jp := None)\<rparr>\<rparr>)"
          using r3 yes fj(1) by (simp add: run_simps bnd_def k_unlink_def runs_def)
        moreover have "job_sent ?j file s v" using so yes sv(3) by (simp add: job_sent_def)
        ultimately show ?thesis
          using run fj(2-4) sv so yes False fl0
          by (auto simp: turn_ends_def Let_def same_queue_def same_data_def job_sent_def)
      qed
    qed
  qed
qed

lemma printer_thread_ends:
  assumes run: "printer_thread fuel g gai file ts s = (x, t)" and q: "isq (jobs s) (jp # js)"
  shows "turn_ends fuel g ts jp js s x t"
proof -
  have h: "qhead (jobs s) = Some jp" using isq_head [OF q] .
  have "isq (jobs s) ([] @ jp # js)" using q by simp
  from remove_job_isq [OF this] obtain q1 where q1: "remove_job jp (jobs s) = Some q1" "isq q1 js"
    "\<forall>a. data_at q1 a = data_at (jobs s) a" "dom (dheap q1) = dom (dheap (jobs s))" by auto
  have dj: "distinct (jp # js)" using q by (simp add: isq_def)
  have "jp \<in> dom (dheap (jobs s))" using printd_jobs.members [OF q] by simp
  then have jp: "jp \<notin> set js" "jp \<in> dom (dheap q1)" using dj q1(4) by auto
  let ?s1 = "s\<lparr>jobs := q1\<rparr>"
  have r: "printer_thread fuel g gai file ts s =
      bnd update_jobno (\<lambda>_. bnd (check_config gai file) (\<lambda>_. print_job fuel g ts jp)) ?s1"
    using h bnd_step [OF set_jobs_runs [of "remove_job jp" s, OF q1(1)]] by (simp add: printer_thread_def bnd_run_Inr [where m = "gets _", OF gets_run])
  have later: "turn_ends fuel g ts jp js s x t" if "turn_ends fuel g ts jp js u x t" "untouched ?s1 u" for u
    using turn_ends_later [OF that(1)] that(2) q1(3) by (auto simp: untouched_def)
  have stop: "turn_ends fuel g ts jp js s x t" if "untouched ?s1 t" "x = Inl e" for e
    using that q1(2,3) by (auto simp: turn_ends_def Let_def untouched_def same_data_def)
  obtain y u where u: "update_jobno ?s1 = (y, u)" by fastforce
  have su: "untouched ?s1 u" using keepsD [OF untouched_before(1) u] .
  obtain z v where v: "check_config gai file u = (z, v)" by fastforce
  have sv: "untouched ?s1 v" using keepsD [OF untouched_before(2) v] su by (auto simp: untouched_def)
  show ?thesis
  proof (cases "(\<exists>e. y = Inl e) \<or> (\<exists>e. z = Inl e)")
    case True
    then show ?thesis using stop run su sv u v by (cases y) (auto simp: r bnd_def)
  next
    case False
    then have "print_job fuel g ts jp v = (x, t)" using run u v by (cases y; cases z) (auto simp: r bnd_def)
    from print_job_ends [OF this, of js] show ?thesis using later sv jp q1(2) by (simp add: untouched_def)
  qed
qed

lemma connect_retry_gives_up:
  "connect_retry (replicate 8 Refused) = (False, [1, 2, 4, 8, 16, 32, 64])"
  by code_simp

text \<open>
  C13. No job is lost: whatever calls fail and whatever the printer answers, a turn of the printer thread with a job in front ends in one of
  five ways. Printed: the connection was made, the headers and the whole data file were sent, the printer's
  response was a success, and only then have the job left the queue and its two files the spool.
  Deferred: the connection, a write, a read or the answer failed; the job is in front of the queue
  again and its files are there. Canceled: its data file cannot be opened or examined; it has left the queue, but its files
  have not been removed, so that its control file brings it back at the next start. Or the daemon stops (it exits, overruns a buffer, or
  searches for ever, see \<open>printer_status_cut\<close>) with all files as they were. The other jobs keep their order, their data and
  their files in every case, and the thread does not wait while there is a job.
\<close>

theorem printer_thread_keeps_jobs:
  assumes "printer_thread fuel g gai file ts s = (x, t)" and "isq (jobs s) (jp # js)"
  defines "j \<equiv> data_at (jobs s) jp"
  defines "D \<equiv> data_name (sdec (jobid j))" and "Q \<equiv> req_name (sdec (jobid j))"
    and "verdict \<equiv> printer_status fuel g (jobid j) (sock_in s)"
  shows "case x of
      Inr Printed \<Rightarrow> fst (connect_retry ts) \<and> (\<exists>file. spool s D = Some file \<and> job_sent j file s t) \<and> verdict = (Inr True, sock_in t) \<and>
        isq (jobs t) js \<and> same_data (jobs s) (jobs t) js \<and> spool t = (spool s)(D := None, Q := None)
    | Inr Deferred \<Rightarrow> (\<not> fst (connect_retry ts) \<or> failing s \<or> wplan (sock_out s) \<noteq> [] \<or> fst verdict = Inr False) \<and>
        isq (jobs t) (jp # js) \<and> same_data (jobs s) (jobs t) (jp # js) \<and> spool t = spool s
    | Inr Canceled \<Rightarrow> (spool s D = None \<or> failing s) \<and> isq (jobs t) js \<and> same_data (jobs s) (jobs t) js \<and> spool t = spool s
    | Inr Waiting \<Rightarrow> False
    | Inl _ \<Rightarrow> isq (jobs t) js \<and> same_data (jobs s) (jobs t) js \<and> spool t = spool s"
  using printer_thread_ends [OF assms(1,2)] by (simp only: turn_ends_def Let_def j_def D_def Q_def verdict_def)

definition one_queued :: printd where
  "one_queued = (idle [])\<lparr>jobs := \<lparr>dheap = [7 \<mapsto> \<lparr>dnext = None, dprev = None, ddata = \<lparr>jobid = 1, req = sample_req\<rparr>\<rparr>],
     qhead = Some 7, qtail = Some 7\<rparr>, spool := [data_name ''1'' \<mapsto> ''hello'', req_name ''1'' \<mapsto> req_raw sample_req]\<rparr>"

theorem printer_thread_keeps_jobs_witness:
  "\<exists>t. printer_thread 5 (\<lambda>_. NUL) (\<lambda>_ _. None) None [NoSocket] one_queued = (Inr Deferred, t) \<and> isq (jobs t) [7] \<and>
     spool t = spool one_queued"
proof -
  have q: "isq (jobs one_queued) [7]" by (simp add: isq_def one_queued_def)
  obtain x t where r: "printer_thread 5 (\<lambda>_. NUL) (\<lambda>_ _. None) None [NoSocket] one_queued = (x, t)" by fastforce
  have "x = Inr Deferred"
    using r by (auto simp: printer_thread_def one_queued_def idle_def bnd_def run_simps set_jobs_def lift_opt_def remove_job_def
        update_jobno_def next_fs_def check_config_def print_job_def job_at_def k_open_def sdec_1 connect_retry_def MAXSLEEP_def
        defer_job_def replace_job_def upd_node_def Let_def)
  then have r: "printer_thread 5 (\<lambda>_. NUL) (\<lambda>_ _. None) None [NoSocket] one_queued = (Inr Deferred, t)" using r by simp
  show ?thesis using printer_thread_keeps_jobs [OF r q] r by simp
qed

end
