(* ===== verification/PrinterStatus.thy ===== *)
theory PrinterStatus
  imports Printer
begin

section \<open>What the daemon sends and how it reads the response\<close>

text \<open>
  Properties of the headers that \<open>printer_thread\<close> builds and of \<open>printer_status\<close>: the headers are
  decoded by a reference decoder and fit their buffers exactly under a bound on the names; the
  body sent has the announced length; a complete response is understood; and a response whose
  header is cut short makes the daemon loop for ever.
\<close>

subsection \<open>The IPP header\<close>

definition enc_attr :: "nat \<times> string \<times> string \<Rightarrow> string" where
  "enc_attr = (\<lambda>(tag, n, v). [byte tag] @ be16 (length n) @ n @ be16 (length v) @ v)"

lemma add_option_eq:
  "add_option cap tag n v acc = (if length acc + length (enc_attr (tag, n, v)) + 1 \<le> cap then Some (acc @ enc_attr (tag, n, v)) else None)"
  by (simp add: add_option_def enc_attr_def Let_def)

lemma length_enc_attr: "length (enc_attr (tag, n, v)) = 5 + length n + length v"
  by (simp add: enc_attr_def be16_def)

text \<open>A decoder for the attributes up to the end tag, as the protocol defines them.\<close>

primrec decode_attrs :: "nat \<Rightarrow> string \<Rightarrow> (nat \<times> string \<times> string) list option" where
  "decode_attrs 0 s = None"
| "decode_attrs (Suc fuel) s =
     (case s of [] \<Rightarrow> None | t # r \<Rightarrow>
      if of_char t = TAG_END_OF_ATTR then Some []
      else let nl = nat_of_be (take 2 r); name = take nl (drop 2 r); r2 = drop (2 + nl) r;
               vl = nat_of_be (take 2 r2); val = take vl (drop 2 r2)
           in map_option (Cons (of_char t, name, val)) (decode_attrs fuel (drop (2 + vl) r2)))"

lemma nat_of_be16: "n < 65536 \<Longrightarrow> nat_of_be (be16 n) = n"
  by (simp add: nat_of_be_def be16_def of_char_byte)

lemma decode_enc_attr:
  assumes "tag < 256" and "tag \<noteq> TAG_END_OF_ATTR" and "length n < 65536" and "length v < 65536"
  shows "decode_attrs (Suc fuel) (enc_attr (tag, n, v) @ r) = map_option (Cons (tag, n, v)) (decode_attrs fuel r)"
proof -
  have l: "length (be16 k) = 2" for k by (simp add: be16_def)
  have e: "enc_attr (tag, n, v) @ r = byte tag # (be16 (length n) @ n @ be16 (length v) @ v @ r)" by (simp add: enc_attr_def)
  show ?thesis
    unfolding e using assms l by (simp add: of_char_byte nat_of_be16 Let_def)
qed

definition attrs_of :: "string \<Rightarrow> string \<Rightarrow> string \<Rightarrow> bool \<Rightarrow> (nat \<times> string \<times> string) list" where
  "attrs_of pn user name text =
     [(TAG_CHARSET, ''attributes-charset'', ''utf-8''), (TAG_NATULANG, ''attributes-natural-language'', ''en-us''),
      (TAG_URI, ''printer-uri'', ''http://'' @ pn @ ''/ipp''), (TAG_NAMEWOLANG, ''requesting-user-name'', user),
      (TAG_NAMEWOLANG, ''job-name'', name),
      (TAG_MIMETYPE, ''document-format'', if text then ''text/plain'' else ''application/postscript'')]"

lemmas tag_defs = TAG_CHARSET_def TAG_NATULANG_def TAG_URI_def TAG_NAMEWOLANG_def TAG_MIMETYPE_def TAG_END_OF_ATTR_def
  TAG_OPERATION_ATTR_def

text \<open>The bytes the names may have together: 512 less the fixed part.\<close>

definition ipp_size :: "string \<Rightarrow> string \<Rightarrow> string \<Rightarrow> bool \<Rightarrow> nat" where
  "ipp_size pn user name text = length pn + length user + length name + (if text then 170 else 182)"

lemma bind_if: "Option.bind (if c then Some x else None) f = (if c then f x else None)"
  by simp

text \<open>Adding the options one after the other succeeds when the last one fits.\<close>

fun add_options :: "(nat \<times> string \<times> string) list \<Rightarrow> string \<Rightarrow> string option" where
  "add_options [] acc = Some acc"
| "add_options ((t, n, v) # os) acc = Option.bind (add_option IBUFSZ t n v acc) (add_options os)"

lemma add_options_eq:
  "os \<noteq> [] \<Longrightarrow> add_options os acc =
    (if length acc + length (concat (map enc_attr os)) + 1 \<le> IBUFSZ then Some (acc @ concat (map enc_attr os)) else None)"
proof (induction os arbitrary: acc)
  case (Cons o1 os)
  obtain t n v where o1: "o1 = (t, n, v)" by (metis prod.exhaust)
  show ?case
  proof (cases "os = []")
    case True
    then show ?thesis by (simp add: o1 add_option_eq bind_if)
  next
    case False
    from Cons.IH [OF False, of "acc @ enc_attr (t, n, v)"] show ?thesis
      by (auto simp: o1 add_option_eq bind_if)
  qed
qed simp

definition ipp_start :: "32 word \<Rightarrow> string" where
  "ipp_start jid = [byte 1, byte 1] @ be16 OP_PRINT_JOB @ be32 jid @ [byte TAG_OPERATION_ATTR]"

lemma length_ipp_start [simp]: "length (ipp_start jid) = 9"
  by (simp add: ipp_start_def be16_def)

lemma length_attrs: "length (concat (map enc_attr (attrs_of pn user name text))) + 10 = ipp_size pn user name text"
  by (simp add: attrs_of_def length_enc_attr ipp_size_def)

lemma ipp_header_eq:
  assumes "c_field (usernm (req j) @ jobnm (req j)) = Some user" and "c_field (jobnm (req j)) = Some name"
  shows "ipp_header j pn =
    (if length pn \<le> 52 \<and> ipp_size pn user name (is_text (req j)) \<le> IBUFSZ
     then Some (ipp_start (jobid j) @ concat (map enc_attr (attrs_of pn user name (is_text (req j)))) @ [byte TAG_END_OF_ATTR])
     else None)"
proof -
  let ?as = "attrs_of pn user name (is_text (req j))"
  have "ipp_header j pn = (if length pn \<le> 52 then
      Option.bind (add_options ?as (ipp_start (jobid j))) (\<lambda>icp. if length icp + 1 \<le> IBUFSZ then Some (icp @ [byte TAG_END_OF_ATTR]) else None)
      else None)"
    by (cases "length pn \<le> 52") (simp_all add: ipp_header_def attrs_of_def assms ipp_start_def Let_def Option.bind_assoc)
  also have "add_options ?as (ipp_start (jobid j)) =
     (if ipp_size pn user name (is_text (req j)) \<le> IBUFSZ then Some (ipp_start (jobid j) @ concat (map enc_attr ?as)) else None)"
    using length_attrs [of pn user name "is_text (req j)"] by (subst add_options_eq) (auto simp: attrs_of_def)
  finally show ?thesis using length_attrs [of pn user name "is_text (req j)"] by auto
qed

lemma decode_attrs_of:
  assumes "length pn < 60000" and "length user < 65536" and "length name < 65536"
  shows "decode_attrs 7 (concat (map enc_attr (attrs_of pn user name text)) @ [byte TAG_END_OF_ATTR]) = Some (attrs_of pn user name text)"
proof -
  have G: "decode_attrs (Suc (length os)) (concat (map enc_attr os) @ [byte TAG_END_OF_ATTR]) = Some os"
    if "\<forall>(t, n, v)\<in>set os. t < 256 \<and> t \<noteq> TAG_END_OF_ATTR \<and> length n < 65536 \<and> length v < 65536" for os
    using that
  proof (induction os)
    case Nil
    then show ?case by (simp add: of_char_byte TAG_END_OF_ATTR_def)
  next
    case (Cons o1 os)
    obtain t n v where o1: "o1 = (t, n, v)" by (metis prod.exhaust)
    have IH: "decode_attrs (Suc (length os)) (concat (map enc_attr os) @ [byte TAG_END_OF_ATTR]) = Some os"
      using Cons by simp
    have "decode_attrs (Suc (Suc (length os))) (enc_attr (t, n, v) @ (concat (map enc_attr os) @ [byte TAG_END_OF_ATTR])) = Some ((t, n, v) # os)"
      using Cons.prems o1 IH by (subst decode_enc_attr) auto
    then show ?case by (simp add: o1)
  qed
  have A: "\<forall>(t, n, v)\<in>set (attrs_of pn user name text). t < 256 \<and> t \<noteq> TAG_END_OF_ATTR \<and> length n < 65536 \<and> length v < 65536"
    using assms by (simp add: attrs_of_def tag_defs)
  have "Suc (length (attrs_of pn user name text)) = 7" by (simp add: attrs_of_def)
  then show ?thesis using G [OF A] by (simp only:)
qed

subsection \<open>What is sent\<close>

lemma sock_write_runs:
  "wplan (sock_out s) = [] \<Longrightarrow> runs (sock_write bs) s True (s\<lparr>sock_out := (sock_out s)\<lparr>wbytes := wbytes (sock_out s) @ bs\<rparr>\<rparr>)"
  by (simp add: runs_def sock_write_def fd_write_def)

lemma conn_writen_runs:
  assumes "wplan (sock_out s) = []" and "bs \<noteq> []"
  shows "conn_writen bs s = (Inr True, s\<lparr>sock_out := (sock_out s)\<lparr>wbytes := wbytes (sock_out s) @ bs\<rparr>\<rparr>)"
  using assms by (simp add: conn_writen_def writen_def writen_loop.simps [of fd_write "length bs" bs]
      writen_loop.simps [of fd_write _ "[]"] fd_write_def)

lemma send_file_runs:
  assumes "fsplan s = []" and "wplan (sock_out s) = []"
  shows "send_file rest s = (Inr True, s\<lparr>sock_out := (sock_out s)\<lparr>wbytes := wbytes (sock_out s) @ rest\<rparr>\<rparr>)"
  using assms
proof (induction "length rest" arbitrary: rest s rule: less_induct)
  case less
  have n: "next_fs s = (Inr FsOk, s)" using less.prems by (simp add: next_fs_def)
  show ?case
  proof (cases "rest = []")
    case True
    then show ?thesis using n by (simp add: send_file.simps [of "[]" s] file_chunk_def)
  next
    case False
    let ?b = "take IOBUFSZ rest"
    let ?s = "s\<lparr>sock_out := (sock_out s)\<lparr>wbytes := wbytes (sock_out s) @ ?b\<rparr>\<rparr>"
    have b: "?b \<noteq> []" using False by (simp add: IOBUFSZ_def)
    have "length (drop (length ?b) rest) < length rest" using False b by (cases rest) (auto simp: IOBUFSZ_def)
    from less.hyps [OF this, of ?s] have IH: "send_file (drop (length ?b) rest) ?s =
        (Inr True, ?s\<lparr>sock_out := (sock_out ?s)\<lparr>wbytes := wbytes (sock_out ?s) @ drop (length ?b) rest\<rparr>\<rparr>)"
      using less.prems by simp
    have "send_file rest s = send_file (drop (length ?b) rest) ?s"
      using n b conn_writen_runs [OF less.prems(2) b] by (simp add: send_file.simps [of rest s] file_chunk_def)
    moreover have "?b @ drop (length ?b) rest = rest" by (cases "IOBUFSZ \<le> length rest") simp_all
    ultimately show ?thesis using IH by simp
  qed
qed

lemma send_job_runs:
  assumes "printer s = Some pn" and "ipp_header j pn = Some ib" and "http_header pn (length (ib @ doc_bytes j file)) = Some hb"
    and "fsplan s = []" and "wplan (sock_out s) = []"
  shows "send_job fuel g j file s =
    run_status fuel g (jobid j) (s\<lparr>sock_out := (sock_out s)\<lparr>wbytes := wbytes (sock_out s) @ hb @ ib @ doc_bytes j file\<rparr>\<rparr>)"
proof -
  define s1 where "s1 = s\<lparr>sock_out := (sock_out s)\<lparr>wbytes := wbytes (sock_out s) @ (hb @ ib)\<rparr>\<rparr>"
  define s2 where "s2 = (if is_text (req j) then s1\<lparr>sock_out := (sock_out s1)\<lparr>wbytes := wbytes (sock_out s1) @ [CHR 0x08]\<rparr>\<rparr> else s1)"
  define s3 where "s3 = s2\<lparr>sock_out := (sock_out s2)\<lparr>wbytes := wbytes (sock_out s2) @ file\<rparr>\<rparr>"
  have len: "length file + length ib + (if is_text (req j) then 1 else 0) = length (ib @ doc_bytes j file)"
    by (simp add: doc_bytes_def)
  have r0: "bnd (gets printer) f s = f (Some pn) s" for f :: "string option \<Rightarrow> bool pd"
    by (simp add: bnd_def gets_run assms(1))
  have r1: "runs (lift_opt (\<lambda>s. Option.bind (Some pn) (\<lambda>n. ipp_header j n))) s ib s"
    using assms(2) by (simp add: runs_def lift_opt_def)
  have r2: "runs (lift_opt (\<lambda>s. Option.bind (Some pn) (\<lambda>n. http_header n (length (ib @ doc_bytes j file))))) s hb s"
    using assms(3) by (simp add: runs_def lift_opt_def)
  have r3: "runs (sock_write (hb @ ib)) s True s1" unfolding s1_def by (rule sock_write_runs [OF assms(5)])
  have w1: "wplan (sock_out s1) = []" "fsplan s1 = []" using assms(4,5) by (simp_all add: s1_def)
  have r4: "runs (if is_text (req j) then sock_write [CHR 0x08] else ret True) s1 True s2"
    using sock_write_runs [OF w1(1)] by (simp add: s2_def)
  have w2: "wplan (sock_out s2) = []" "fsplan s2 = []" using w1 by (simp_all add: s2_def)
  have r5: "runs (send_file file) s2 True s3" using send_file_runs [OF w2(2,1)] by (simp add: runs_def s3_def)
  have "send_job fuel g j file s = run_status fuel g (jobid j) s3"
    unfolding send_job_def r0 bnd_step [OF r1] len bnd_step [OF r2] bnd_step [OF r3] bnd_step [OF r4]
    by (simp only: not_True_eq_False if_False bnd_step [OF r4] bnd_step [OF r5])
  moreover have "s3 = s\<lparr>sock_out := (sock_out s)\<lparr>wbytes := wbytes (sock_out s) @ hb @ ib @ doc_bytes j file\<rparr>\<rparr>"
    by (simp add: s3_def s2_def s1_def doc_bytes_def)
  ultimately show ?thesis by simp
qed

subsection \<open>Scanning the read buffer\<close>

declare scan_while.simps [simp del] scan_cl.simps [simp del] scan_end.simps [simp del]

lemma scan_while_run:
  "\<forall>c\<in>set xs. P c \<Longrightarrow> \<not> P y \<Longrightarrow> scan_while P (pre @ xs @ y # post) (length pre) = Some (length pre + length xs)"
proof (induction xs arbitrary: pre)
  case Nil
  then show ?case by (simp add: scan_while.simps [of P "pre @ y # post"] nth_append)
next
  case (Cons x xs)
  have "scan_while P (pre @ (x # xs) @ y # post) (length pre) = scan_while P ((pre @ [x]) @ xs @ y # post) (length (pre @ [x]))"
    using Cons.prems by (simp add: scan_while.simps [of P "pre @ x # xs @ y # post" "length pre"] nth_append)
  then show ?case using Cons.IH [of "pre @ [x]"] Cons.prems by simp
qed

lemma poke_at: "poke (pre @ c # post) (length pre) = Some (pre @ NUL # post)"
  by (simp add: poke_def)

lemma same_nocase_eq:
  "i + length ks \<le> length mem \<Longrightarrow>
    same_nocase mem i ks = Some (map lower (take (length ks) (drop i mem)) = map lower ks)"
proof (induction ks arbitrary: i)
  case (Cons k ks)
  have "drop i mem = mem ! i # drop (i + 1) mem" using Cons.prems by (simp add: Cons_nth_drop_Suc)
  then show ?case using Cons by simp
qed simp

lemma scan_cl_skip:
  "i < length mem \<Longrightarrow> i < datsz \<Longrightarrow> mem ! i \<noteq> CHR ''C'' \<Longrightarrow> mem ! i \<noteq> CHR ''c'' \<Longrightarrow>
    scan_cl mem i datsz = scan_cl mem (i + 1) datsz"
  by (simp add: scan_cl.simps [of mem i])

lemma scan_cl_stop:
  "i < length mem \<Longrightarrow> mem ! i = CHR ''C'' \<or> mem ! i = CHR ''c'' \<Longrightarrow> scan_cl mem i datsz = Some i"
  by (auto simp: scan_cl.simps [of mem i])

abbreviation clen :: string where "clen \<equiv> ''Content-Length:''"

text \<open>No earlier header line looks like the length field.\<close>

definition cl_at :: "string \<Rightarrow> nat \<Rightarrow> bool" where
  "cl_at mem i \<longleftrightarrow> map lower (take 15 (drop i mem)) = map lower clen"

lemma same_nocase_cl: "i + 15 \<le> length mem \<Longrightarrow> same_nocase mem i clen = Some (cl_at mem i)"
proof -
  assume a: "i + 15 \<le> length mem"
  have l: "length clen = 15" by simp
  show ?thesis using same_nocase_eq [of i clen mem] a unfolding cl_at_def l by blast
qed

declare same_nocase.simps [simp del]

lemma find_length_hit:
  assumes "p + 15 \<le> length bp" and "p + 15 \<le> datsz" and "cl_at bp p" and "bp ! p = CHR ''C'' \<or> bp ! p = CHR ''c''"
    and "scan_while isspace bp (p + 15) = Some c" and "scan_while isdigit bp c = Some e" and "poke bp e = Some bp'"
    and "\<forall>k. i \<le> k \<and> k < p \<longrightarrow> \<not> cl_at bp k" and "i \<le> p" and "p - i < fuel"
  shows "find_length fuel g bp i datsz d = (Inr (Some (bp', e + 1, datsz, atoi (drop c bp'))), d)"
  using assms(8-)
proof (induction "p - i" arbitrary: i fuel)
  case 0
  then obtain f where f: "fuel = Suc f" "i = p" by (cases fuel) auto
  have "scan_cl bp p datsz = Some p" using assms(1,4) by (intro scan_cl_stop) auto
  moreover have "same_nocase bp p clen = Some True" using same_nocase_cl [OF assms(1)] assms(3) by simp
  ultimately show ?case using assms(2,5-7) by (simp add: f acc_opt_def bnd_def run_simps)
next
  case (Suc n)
  then obtain f where f: "fuel = Suc f" by (cases fuel) auto
  have lt: "i < p" using Suc by simp
  show ?case
  proof (cases "bp ! i = CHR ''C'' \<or> bp ! i = CHR ''c''")
    case True
    then have "scan_cl bp i datsz = Some i" using lt assms(1) by (intro scan_cl_stop) auto
    moreover have "same_nocase bp i clen = Some False"
      using Suc.prems(1) lt assms(1) same_nocase_cl [of i bp] by simp
    ultimately have "find_length fuel g bp i datsz d = find_length f g bp (i + 1) datsz d"
      using lt assms(2) by (simp add: f acc_opt_def bnd_def run_simps)
    then show ?thesis using Suc.hyps(1) [of "i + 1" f] Suc.hyps(2) Suc.prems f by simp
  next
    case False
    then have "scan_cl bp i datsz = scan_cl bp (i + 1) datsz" using lt assms(1,2) by (intro scan_cl_skip) auto
    then have "find_length fuel g bp i datsz = find_length fuel g bp (i + 1) datsz" by (simp add: f)
    then show ?thesis using Suc.hyps(1) [of "i + 1" fuel] Suc.hyps(2) Suc.prems by simp
  qed
qed

abbreviation eoh :: string where "eoh \<equiv> [NEWLINE, CHR 0x0D, NEWLINE]"

lemma scan_end_step:
  assumes "i + 3 \<le> length mem" and "i + 2 < datsz"
  shows "scan_end mem i datsz = (if take 3 (drop i mem) = eoh then Some (True, i + 3) else scan_end mem (i + 1) datsz)"
proof -
  have "take 3 (drop i mem) = [mem ! i, mem ! (i + 1), mem ! (i + 2)]"
    using assms(1) by (auto simp: list_eq_iff_nth_eq nth_Cons' numeral_eq_Suc less_Suc_eq)
  then show ?thesis using assms by (simp add: scan_end.simps [of mem i] byte_at_def)
qed

lemma scan_end_hit:
  assumes "p + 3 \<le> length mem" and "p + 2 < datsz" and "take 3 (drop p mem) = eoh"
    and "\<forall>k. i \<le> k \<and> k < p \<longrightarrow> take 3 (drop k mem) \<noteq> eoh" and "i \<le> p"
  shows "scan_end mem i datsz = Some (True, p + 3)"
  using assms(4,5)
proof (induction "p - i" arbitrary: i)
  case 0
  then show ?case using assms(1-3) by (simp add: scan_end_step)
next
  case (Suc n)
  then show ?case using Suc.hyps(1) [of "i + 1"] assms(1,2) by (simp add: scan_end_step)
qed

lemma scan_end_miss:
  assumes "datsz \<le> length mem" and "\<forall>k. i \<le> k \<and> k + 2 < datsz \<longrightarrow> take 3 (drop k mem) \<noteq> eoh"
  shows "scan_end mem i datsz = Some (False, max i (datsz - 2))"
  using assms(2)
proof (induction "datsz - i" arbitrary: i)
  case 0
  then show ?case by (simp add: scan_end.simps [of mem i])
next
  case (Suc n)
  show ?case
  proof (cases "i + 2 < datsz")
    case True
    then have "i + 1 \<le> datsz - 2" by linarith
    then have m: "max (i + 1) (datsz - 2) = max i (datsz - 2)" by (simp add: max_def)
    have "scan_end mem i datsz = scan_end mem (i + 1) datsz" using True Suc.prems assms(1) by (simp add: scan_end_step)
    then show ?thesis using Suc.hyps(1) [of "i + 1"] Suc.hyps(2) Suc.prems m by simp
  next
    case False
    then show ?thesis by (simp add: scan_end.simps [of mem i])
  qed
qed

text \<open>
  The loop that does not end: the data ends within the header, so nothing is found, and as at
  least one byte is left before its end, nothing more is read.
\<close>

lemma header_end_spins:
  assumes "datsz \<le> length mem" and "\<forall>k. i \<le> k \<and> k + 2 < datsz \<longrightarrow> take 3 (drop k mem) \<noteq> eoh" and "i < datsz" and "2 \<le> datsz"
  shows "header_end fuel g mem i datsz d = (Inl OutOfFuel, d)"
  using assms(2,3)
proof (induction fuel arbitrary: i)
  case (Suc fuel)
  let ?i = "max i (datsz - 2)"
  have "scan_end mem i datsz = Some (False, ?i)" using assms(1) Suc.prems(1) by (rule scan_end_miss)
  moreover have "?i < datsz" using Suc.prems(2) assms(4) by simp
  ultimately have "header_end (Suc fuel) g mem i datsz d = header_end fuel g mem ?i datsz d"
    by (simp add: acc_opt_def bnd_def run_simps del: max_less_iff_conj)
  then show ?case using Suc.IH [of ?i] Suc.prems \<open>?i < datsz\<close> by simp
qed (simp add: run_simps)

subsection \<open>Complete and cut responses\<close>

text \<open>The parts of a response: version, status line, header lines around the length, blank line, IPP message.\<close>

record http_resp =
  r_version :: string
  r_code :: nat
  r_gap :: char
  r_reason :: string
  r_eol :: char
  r_before :: string
  r_name :: string
  r_len :: nat
  r_after :: string
  r_ipp :: string

definition status_line :: "http_resp \<Rightarrow> string" where
  "status_line r = r_version r @ SPACE # dec (r_code r) @ r_gap r # r_reason r @ [r_eol r]"

definition length_line :: "http_resp \<Rightarrow> string" where
  "length_line r = r_name r @ SPACE # dec (r_len r)"

definition resp_bytes :: "http_resp \<Rightarrow> string" where
  "resp_bytes r = status_line r @ r_before r @ length_line r @ r_after r @ eoh @ r_ipp r"

definition has_field :: "string \<Rightarrow> string \<Rightarrow> bool" where
  "has_field f s \<longleftrightarrow> (\<exists>k \<in> {..< length s}. map lower (take (length f) (drop k s)) = map lower f)"

text \<open>
  A response to a job: a status line with the version in eight bytes and, for a success code, one length field, one
  blank line and an IPP message of the announced length.
\<close>

definition line_ok :: "http_resp \<Rightarrow> bool" where
  "line_ok r \<longleftrightarrow> length (r_version r) = 8 \<and> r_code r < 2 ^ 31 \<and> \<not> isdigit (r_gap r) \<and>
     (\<forall>c\<in>set (r_reason r). c \<noteq> CHR 0x0D \<and> c \<noteq> NEWLINE) \<and> (r_eol r = CHR 0x0D \<or> r_eol r = NEWLINE)"

definition http_info :: "http_resp \<Rightarrow> bool" where
  "http_info r \<longleftrightarrow> 100 \<le> r_code r \<and> r_code r \<le> 199"

definition http_success :: "http_resp \<Rightarrow> bool" where
  "http_success r \<longleftrightarrow> 200 \<le> r_code r \<and> r_code r \<le> 299"

definition status_ok :: "http_resp \<Rightarrow> bool" where
  "status_ok r \<longleftrightarrow> line_ok r \<and> http_success r"

definition field_ok :: "http_resp \<Rightarrow> bool" where
  "field_ok r \<longleftrightarrow> map lower (r_name r) = map lower clen \<and> r_len r < 2 ^ 31 \<and>
     (\<forall>k < length (r_before r). \<not> cl_at (r_before r @ r_name r) k)"

definition tail_ok :: "http_resp \<Rightarrow> bool" where
  "tail_ok r \<longleftrightarrow> r_after r \<noteq> [] \<and> \<not> isdigit (hd (r_after r)) \<and>
     (\<forall>k < length (r_after r). 0 < k \<longrightarrow> take 3 (drop k (r_after r @ eoh)) \<noteq> eoh) \<and>
     8 \<le> length (r_ipp r) \<and> r_len r \<le> length (r_ipp r)"

definition sample_resp :: http_resp where
  "sample_resp = \<lparr>r_version = ''HTTP/1.1'', r_code = 200, r_gap = SPACE, r_reason = ''OK'', r_eol = CHR 0x0D,
     r_before = [NEWLINE], r_name = ''content-length:'', r_len = 9, r_after = [CHR 0x0D],
     r_ipp = [byte 1, byte 1, byte 0, byte 0] @ be32 3 @ [byte 3]\<rparr>"

lemma dec_sample: "dec 9 = ''9''" "length (dec 200) = 3"
  by code_simp+

lemma sample_head: "map lower ''content-length:'' = map lower clen" "\<not> isdigit CHR 0x0D" "\<not> isdigit SPACE" "lower NEWLINE \<noteq> lower CHR ''C''"
  by code_simp+

lemma sample_resp_ok:
  "line_ok sample_resp" "http_success sample_resp" "map lower (r_name sample_resp) = map lower clen" "r_len sample_resp = 9" "r_before sample_resp = [NEWLINE]"
  "\<forall>k < length (r_before sample_resp). \<not> cl_at (r_before sample_resp @ r_name sample_resp) k"
  "r_after sample_resp = [CHR 0x0D]" "\<not> isdigit CHR 0x0D" "length (r_ipp sample_resp) = 9"
  "length (resp_bytes sample_resp) = 47" "length (length_line sample_resp) = 17" "length (status_line sample_resp) = 16"
  using sample_head
  by (simp_all add: sample_resp_def line_ok_def http_success_def cl_at_def resp_bytes_def status_line_def length_line_def dec_sample numeral_eq_Suc [of num.One])

text \<open>The memory after the status line has been parsed.\<close>

lemma status_loop_line:
  assumes ok: "line_ok r" and b: "tread (length bp) d = (Some (status_line r @ rest), d')"
    and l: "length (status_line r @ rest) \<le> length bp"
  defines "head \<equiv> r_version r @ SPACE # dec (r_code r) @ NUL # r_reason r"
  shows "status_loop (Suc fuel) g jid bp d =
    (if http_info r then status_loop fuel g jid (head @ NUL # rest @ drop (length (status_line r @ rest)) bp) d'
     else if \<not> http_success r then ((if length (status_line r @ rest) = length bp then Inl BadAccess else Inr False), d')
     else http_ok fuel g jid (head @ NUL # rest @ drop (length (status_line r @ rest)) bp) (length head) (length (status_line r @ rest)) d')"
proof -
  define post where "post = rest @ drop (length (status_line r @ rest)) bp"
  have bp: "(status_line r @ rest) @ drop (length (status_line r @ rest)) bp =
      r_version r @ [SPACE] @ dec (r_code r) @ r_gap r # r_reason r @ r_eol r # post"
    by (simp add: status_line_def post_def)
  have v: "length (r_version r) = 8" using ok by (simp add: line_ok_def)
  obtain c cs where c: "dec (r_code r) = c # cs" by (cases "dec (r_code r)") auto
  have cd: "isdigit c" "\<not> isspace c" using hd_dec_digit [of "r_code r"] c isdigit_not_space by auto
  have 1: "scan_while isspace (r_version r @ [SPACE] @ dec (r_code r) @ r_gap r # r_reason r @ r_eol r # post) 8 = Some 9"
    using scan_while_run [of "[SPACE]" isspace c "r_version r" "cs @ r_gap r # r_reason r @ r_eol r # post"] cd v c by simp
  have 2: "scan_while isdigit (r_version r @ [SPACE] @ dec (r_code r) @ r_gap r # r_reason r @ r_eol r # post) 9
      = Some (9 + length (dec (r_code r)))"
    using scan_while_run [of "dec (r_code r)" isdigit "r_gap r" "r_version r @ [SPACE]" "r_reason r @ r_eol r # post"]
      dec_digits ok v by (simp add: line_ok_def)
  have 3: "poke (r_version r @ [SPACE] @ dec (r_code r) @ r_gap r # r_reason r @ r_eol r # post) (9 + length (dec (r_code r)))
      = Some (r_version r @ [SPACE] @ dec (r_code r) @ NUL # r_reason r @ r_eol r # post)"
    using poke_at [of "r_version r @ [SPACE] @ dec (r_code r)" "r_gap r" "r_reason r @ r_eol r # post"] v by simp
  have 4: "scan_while (\<lambda>c. c \<noteq> CHR 0x0D \<and> c \<noteq> NEWLINE) (r_version r @ [SPACE] @ dec (r_code r) @ NUL # r_reason r @ r_eol r # post)
      (9 + length (dec (r_code r)) + 1) = Some (length head)"
    using scan_while_run [of "r_reason r" "\<lambda>c. c \<noteq> CHR 0x0D \<and> c \<noteq> NEWLINE" "r_eol r" "r_version r @ [SPACE] @ dec (r_code r) @ [NUL]" post] ok v
    by (simp add: line_ok_def head_def)
  have 5: "poke (r_version r @ [SPACE] @ dec (r_code r) @ NUL # r_reason r @ r_eol r # post) (length head) = Some (head @ NUL # post)"
    using poke_at [of head "r_eol r" post] by (simp add: head_def)
  have code: "atoi (drop 9 (head @ NUL # post)) = int (r_code r)"
  proof -
    have "drop 9 (head @ NUL # post) = dec (r_code r) @ NUL # r_reason r @ NUL # post" using v by (simp add: head_def)
    moreover have "r_code r < 2 ^ 63" using ok by (simp add: line_ok_def)
    ultimately have "atol (drop 9 (head @ NUL # post)) = int (r_code r)"
      using atol_dec [of "r_code r" "NUL # r_reason r @ NUL # post"] by (simp add: isdigit_def)
    then show ?thesis using ok by (simp add: atoi_def line_ok_def)
  qed
  have ne: "status_line r @ rest \<noteq> []" by (simp add: status_line_def)
  have dp: "9 + length (dec (r_code r)) \<noteq> 9" using c by simp
  have "status_loop (Suc fuel) g jid bp d =
     (let code = atoi (drop 9 (head @ NUL # post)) in
       if 100 \<le> code \<and> code \<le> 199 then status_loop fuel g jid (head @ NUL # post)
       else if \<not> (200 \<le> code \<and> code \<le> 299) then bnd (acc_opt (poke (head @ NUL # post) (length (status_line r @ rest)))) (\<lambda>_. ret False)
       else http_ok fuel g jid (head @ NUL # post) (length head) (length (status_line r @ rest))) d'"
    using b ne dp by (simp only: status_loop.simps bnd_def Let_def prod.case sum.case option.case if_False bp 1 2 3 4 5 acc_opt_def ret_run)
  moreover have "length (head @ NUL # post) = length bp" using l by (simp add: head_def post_def status_line_def)
  moreover have "(poke (head @ NUL # post) (length (status_line r @ rest)) = None) = (length (status_line r @ rest) = length bp)"
    using l calculation(2) by (auto simp: poke_def)
  moreover have "bnd (acc_opt x) (\<lambda>_. ret False) d' = ((if x = None then Inl BadAccess else Inr False), d')" for x :: "string option"
    by (auto simp: bnd_def acc_opt_def run_simps split: option.split)
  ultimately show ?thesis
    unfolding code post_def [symmetric] by (simp add: Let_def http_info_def http_success_def)
qed

lemma lower_c: "lower c = lower CHR ''C'' \<Longrightarrow> c = CHR ''C'' \<or> c = CHR ''c''"
proof -
  assume a: "lower c = lower CHR ''C''"
  have C: "lower CHR ''C'' = CHR ''c''" by code_simp
  let ?n = "of_char c :: nat"
  show ?thesis
  proof (cases "65 \<le> ?n \<and> ?n \<le> 90")
    case True
    then have "char_of (?n + 32) = CHR ''c''" using a C by (simp add: lower_def Let_def)
    then have "of_char (char_of (?n + 32) :: char) = (of_char CHR ''c'' :: nat)" by simp
    then have "?n + 32 = 99" using True by simp
    then have "?n = of_char CHR ''C''" by simp
    then show ?thesis by (metis of_char_eq_iff)
  next
    case False
    then have "lower c = c" by (auto simp: lower_def Let_def)
    then show ?thesis using a C by simp
  qed
qed

lemma lower_NUL: "lower NUL \<noteq> lower CHR ''C''"
  by code_simp

lemma cl_at_prefix:
  assumes "length xs = k" and "length nm = 15"
  shows "cl_at (xs @ nm @ post) k \<longleftrightarrow> map lower nm = map lower clen"
  using assms by (simp add: cl_at_def)

lemma find_length_field:
  assumes f: "field_ok r" and a: "\<not> isdigit a" and d: "length head + length (r_before r) + length (r_name r) + 1 \<le> datsz"
    and fuel: "length (r_before r) + 1 < fuel"
  defines "front \<equiv> head @ NUL # r_before r @ length_line r"
  shows "find_length fuel g (front @ a # post) (length head) datsz d =
    (Inr (Some (front @ NUL # post, length front + 1, datsz, int (r_len r))), d)"
proof -
  have nm: "map lower (r_name r) = map lower clen" using f by (simp add: field_ok_def)
  have l15: "length (r_name r) = 15"
  proof -
    have "length (map lower (r_name r)) = length (map lower clen)" by (simp only: nm)
    then show ?thesis by simp
  qed
  let ?bp = "front @ a # post"
  define p where "p = length head + 1 + length (r_before r)"
  have bp: "?bp = (head @ NUL # r_before r) @ r_name r @ SPACE # dec (r_len r) @ a # post"
    by (simp add: front_def length_line_def)
  have pl: "length (head @ NUL # r_before r) = p" by (simp add: p_def)
  have C1: "p + 15 \<le> length ?bp" unfolding bp using l15 by (simp add: p_def)
  have C3: "cl_at ?bp p" unfolding bp using cl_at_prefix [OF pl l15] nm by simp
  obtain n0 ns where n0: "r_name r = n0 # ns" using l15 by (cases "r_name r") auto
  have "lower n0 = lower CHR ''C''" using nm n0 by simp
  then have C4: "?bp ! p = CHR ''C'' \<or> ?bp ! p = CHR ''c''"
    unfolding bp using lower_c pl n0 by (simp add: nth_append)
  obtain c cs where c: "dec (r_len r) = c # cs" by (cases "dec (r_len r)") auto
  have cd: "\<not> isspace c" using hd_dec_digit [of "r_len r"] c isdigit_not_space by auto
  let ?pre = "(head @ NUL # r_before r) @ r_name r"
  have pre: "length ?pre = p + 15" using pl l15 by simp
  then have pre2: "length (?pre @ [SPACE]) = p + 16" by simp
  have C5: "scan_while isspace ?bp (p + 15) = Some (p + 16)"
    using scan_while_run [of "[SPACE]" isspace c ?pre "cs @ a # post", unfolded pre] cd c unfolding bp by simp
  have C6: "scan_while isdigit ?bp (p + 16) = Some (p + 16 + length (dec (r_len r)))"
    using scan_while_run [of "dec (r_len r)" isdigit a "?pre @ [SPACE]" post, unfolded pre2] dec_digits a unfolding bp by simp
  have lf: "length front = p + 16 + length (dec (r_len r))" using l15 by (simp add: front_def length_line_def p_def)
  have C7: "poke ?bp (p + 16 + length (dec (r_len r))) = Some (front @ NUL # post)"
    using poke_at [of front a post] lf by simp
  have C8: "\<forall>k. length head \<le> k \<and> k < p \<longrightarrow> \<not> cl_at ?bp k"
  proof (intro allI impI)
    fix k
    assume k: "length head \<le> k \<and> k < p"
    show "\<not> cl_at ?bp k"
    proof (cases "k = length head")
      case True
      then show ?thesis unfolding bp cl_at_def using lower_NUL by (simp add: numeral_eq_Suc)
    next
      case False
      define k' where "k' = k - (length head + 1)"
      have k': "k = length head + 1 + k'" "k' < length (r_before r)"
        using k False unfolding k'_def p_def by linarith+
      have "take 15 (drop k ?bp) = take 15 (drop k' (r_before r @ r_name r))"
        unfolding bp using k' l15 by simp
      then show ?thesis using f k'(2) by (simp add: cl_at_def field_ok_def)
    qed
  qed
  have len: "atoi (drop (p + 16) (front @ NUL # post)) = int (r_len r)"
  proof -
    have "front @ NUL # post = (?pre @ [SPACE]) @ dec (r_len r) @ NUL # post" by (simp add: front_def length_line_def)
    moreover have "length (?pre @ [SPACE]) = p + 16" using l15 by (simp add: p_def)
    ultimately have "drop (p + 16) (front @ NUL # post) = dec (r_len r) @ NUL # post" by (metis append_eq_conv_conj)
    moreover have "r_len r < 2 ^ 63" using f by (simp add: field_ok_def)
    ultimately have "atol (drop (p + 16) (front @ NUL # post)) = int (r_len r)"
      using atol_dec [of "r_len r" "NUL # post"] by (simp add: isdigit_def)
    then show ?thesis using f by (simp add: atoi_def field_ok_def)
  qed
  have i: "length head \<le> p" "p - length head < fuel" "p + 15 \<le> datsz" using fuel d l15 by (simp_all add: p_def)
  show ?thesis
    using find_length_hit [OF C1 i(3) C3 C4 C5 C6 C7 C8 i(1,2)] unfolding lf len by simp
qed

lemma take_le_append: "n \<le> length ys \<Longrightarrow> take n (ys @ x) = take n ys"
  by simp

text \<open>A read that has at least a byte behind the length field: what is left to do is to find the end of the header.\<close>

definition front_of :: "http_resp \<Rightarrow> string" where
  "front_of r = (r_version r @ SPACE # dec (r_code r) @ NUL # r_reason r) @ NUL # r_before r @ length_line r"

definition from_header :: "nat \<Rightarrow> (nat \<Rightarrow> char) \<Rightarrow> 32 word \<Rightarrow> string \<Rightarrow> nat \<Rightarrow> nat \<Rightarrow> int \<Rightarrow> bool ps" where
  "from_header fuel g jid bp i datsz len =
     bnd (header_end fuel g bp i datsz) (\<lambda>r. case r of None \<Rightarrow> ret False | Some (bp, i, datsz) \<Rightarrow>
     bnd (if int datsz - int i < len then get_more g bp i datsz else ret (Some (bp, datsz))) (\<lambda>r. case r of None \<Rightarrow> ret False | Some (bp, datsz) \<Rightarrow>
     ipp_response jid bp i))"

lemma status_loop_to_header:
  assumes ok: "status_ok r" "field_ok r" and a: "\<not> isdigit a" "tail \<noteq> []" and ch: "chunk = status_line r @ r_before r @ length_line r @ a # tail"
    and l: "length chunk \<le> length bp" and b: "tread (length bp) d = (Some chunk, d')" and fuel: "length (r_before r) + 2 < fuel"
  shows "status_loop fuel g jid bp d = from_header (fuel - 1) g jid (front_of r @ NUL # tail @ drop (length chunk) bp)
      (length (front_of r) + 1) (length chunk) (int (r_len r)) d' \<and> length chunk = length (front_of r) + 1 + length tail"
proof -
  obtain f where Suc: "fuel = Suc f" using fuel by (cases fuel) auto
  define rest where "rest = r_before r @ length_line r @ a # tail"
  define head where "head = r_version r @ SPACE # dec (r_code r) @ NUL # r_reason r"
  define junk where "junk = drop (length chunk) bp"
  have fr: "front_of r = head @ NUL # r_before r @ length_line r" by (simp add: front_of_def head_def)
  have rb: "chunk = status_line r @ rest" by (simp add: ch rest_def)
  have dsz: "length chunk = length (front_of r) + 1 + length tail" by (simp add: rb status_line_def rest_def front_of_def)
  have code: "line_ok r" "http_success r" "\<not> http_info r" using ok(1) by (auto simp: status_ok_def http_success_def http_info_def)
  have "status_loop fuel g jid bp d = http_ok f g jid (head @ NUL # rest @ junk) (length head) (length chunk) d'"
    using status_loop_line [OF code(1), of bp d rest d' f g jid] b l code(2,3)
    unfolding Suc rb head_def junk_def by simp
  also have "head @ NUL # rest @ junk = front_of r @ a # (tail @ junk)" by (simp add: fr rest_def)
  also have "http_ok f g jid (front_of r @ a # (tail @ junk)) (length head) (length chunk) d' =
      from_header f g jid (front_of r @ NUL # tail @ junk) (length (front_of r) + 1) (length chunk) (int (r_len r)) d'"
  proof -
    have "length (r_name r) \<le> length (length_line r)" by (simp add: length_line_def)
    then have D: "length head + length (r_before r) + length (r_name r) + 1 \<le> length chunk" using dsz by (simp add: fr)
    have F: "length (r_before r) + 1 < f" using fuel Suc by simp
    have 1: "runs (find_length f g (front_of r @ a # (tail @ junk)) (length head) (length chunk)) d'
        (Some (front_of r @ NUL # tail @ junk, length (front_of r) + 1, length chunk, int (r_len r))) d'"
      using find_length_field [OF ok(2) a(1) D F, of g "tail @ junk" d'] by (simp add: runs_def fr)
    have 2: "\<not> length chunk \<le> length (front_of r) + 1" using dsz a(2) by (cases tail) auto
    show ?thesis
      unfolding http_ok_def from_header_def bnd_step [OF 1] option.case prod.case if_not_P [OF 2]
      by (simp only: bnd_def ret_run prod.case sum.case option.case)
  qed
  finally show ?thesis using dsz unfolding junk_def Suc by simp
qed

text \<open>Before its end a well-formed header has no blank line.\<close>

lemma no_blank_line:
  assumes "tail_ok r" and "r_after r = a # as" and "length front + 1 \<le> k" and "k < length front + 1 + length as"
  shows "take 3 (drop k (front @ NUL # as @ eoh @ rest)) \<noteq> eoh"
proof -
  define k' where "k' = k - length front"
  have k': "k = length front + k'" "0 < k'" "k' < length (r_after r)" using assms(3,4) unfolding k'_def assms(2) length_Cons by linarith+
  obtain k0 where k0: "k' = Suc k0" using k'(2) by (cases k') auto
  have "3 + k0 - length as \<le> length eoh" using k'(3) by (simp add: assms(2) k0)
  then have "take (3 + k0 - length as) (eoh @ rest) = take (3 + k0 - length as) eoh" by (rule take_le_append)
  then have "take 3 (drop k (front @ NUL # as @ eoh @ rest)) = take 3 (drop k' (r_after r @ eoh))" using k' by (simp add: assms(2) k0)
  then show ?thesis using assms(1) k' by (simp add: tail_ok_def)
qed

lemma ipp_response_at:
  assumes "8 \<le> length ipp"
  shows "ipp_response jid (pre @ ipp @ junk) (length pre) s =
    (Inr (of_be32 (take 4 (drop 4 ipp)) = jid \<and> nat_of_be (take 2 (drop 2 ipp)) \<le> 255), s)"
  using assms by (simp add: ipp_response_def run_simps)

lemma from_header_complete:
  assumes ok: "tail_ok r" "r_after r = a # as" and dsz: "datsz = length front + 1 + length (as @ eoh @ r_ipp r)" and "0 < f"
  shows "from_header f g jid (front @ NUL # (as @ eoh @ r_ipp r) @ junk) (length front + 1) datsz (int (r_len r)) d =
    (Inr (of_be32 (take 4 (drop 4 (r_ipp r))) = jid \<and> nat_of_be (take 2 (drop 2 (r_ipp r))) \<le> 255), d)"
proof -
  let ?m = "front @ NUL # as @ eoh @ r_ipp r @ junk"
  let ?p = "length front + 1 + length as"
  have N: "\<forall>k. length front + 1 \<le> k \<and> k < ?p \<longrightarrow> take 3 (drop k ?m) \<noteq> eoh" using no_blank_line [OF ok] by blast
  have ie: "r_ipp r \<noteq> []" "8 \<le> length (r_ipp r)" "r_len r \<le> length (r_ipp r)" using ok(1) by (auto simp: tail_ok_def)
  have "scan_end ?m (length front + 1) datsz = Some (True, ?p + 3)"
    by (rule scan_end_hit) (use dsz N in simp_all)
  moreover obtain f' where "f = Suc f'" using assms(4) by (cases f) auto
  ultimately have 1: "runs (header_end f g ?m (length front + 1) datsz) d (Some (?m, ?p + 3, datsz)) d"
    using dsz ie by (simp add: runs_def acc_opt_def bnd_def run_simps)
  have 2: "\<not> int datsz - int (?p + 3) < int (r_len r)" using dsz ie(3) by simp
  have L: "length (front @ NUL # as @ eoh) = ?p + 3" by simp
  have 3: "ipp_response jid ?m (?p + 3) d = (Inr (of_be32 (take 4 (drop 4 (r_ipp r))) = jid \<and> nat_of_be (take 2 (drop 2 (r_ipp r))) \<le> 255), d)"
    using ipp_response_at [OF ie(2), of jid "front @ NUL # as @ eoh" junk d, unfolded L] by (simp only: append_assoc append_Cons)
  have m: "front @ NUL # (as @ eoh @ r_ipp r) @ junk = ?m" by simp
  show ?thesis
    unfolding m from_header_def bnd_step [OF 1] option.case prod.case if_not_P [OF 2] by (simp only: bnd_def ret_run prod.case sum.case option.case 3)
qed

text \<open>What the job's response should be answered with, and reads that deliver given pieces one after the other.\<close>

definition resp_verdict :: "32 word \<Rightarrow> http_resp \<Rightarrow> bool" where
  "resp_verdict jid r \<longleftrightarrow> http_success r \<and> of_be32 (take 4 (drop 4 (r_ipp r))) = jid \<and> nat_of_be (take 2 (drop 2 (r_ipp r))) \<le> 255"

fun delivers :: "rdesc \<Rightarrow> string list \<Rightarrow> rdesc \<Rightarrow> bool" where
  "delivers d [] d' \<longleftrightarrow> d' = d"
| "delivers d (c # cs) d' \<longleftrightarrow> (case tread IOBUFSZ d of (None, _) \<Rightarrow> False | (Some bs, d1) \<Rightarrow> bs = c \<and> delivers d1 cs d')"

definition info_bytes :: "http_resp \<Rightarrow> string" where
  "info_bytes r = status_line r @ r_before r"

definition info_ok :: "http_resp \<Rightarrow> bool" where
  "info_ok r \<longleftrightarrow> line_ok r \<and> http_info r \<and> length (info_bytes r) \<le> IOBUFSZ"

lemma delivers_Cons: "delivers d (c # cs) d' \<longleftrightarrow> (\<exists>d1. tread IOBUFSZ d = (Some c, d1) \<and> delivers d1 cs d')"
  by (auto split: prod.splits option.splits)

lemma infos_skipped:
  assumes "\<forall>i\<in>set infos. info_ok i" and "delivers d (map info_bytes infos @ cs) d'" and "length bp = IOBUFSZ"
  shows "\<exists>bp' d1. status_loop (length infos + fuel) g jid bp d = status_loop fuel g jid bp' d1 \<and> length bp' = IOBUFSZ \<and> delivers d1 cs d'"
  using assms
proof (induction infos arbitrary: d bp)
  case (Cons i infos)
  obtain d1 where "tread (length bp) d = (Some (info_bytes i), d1)" and dl: "delivers d1 (map info_bytes infos @ cs) d'"
    using Cons.prems(2,3) delivers_Cons [of d "info_bytes i"] by auto
  then have t: "tread (length bp) d = (Some (status_line i @ r_before i), d1)" by (simp add: info_bytes_def)
  have i: "line_ok i" "http_info i" "length (status_line i @ r_before i) \<le> length bp"
    using Cons.prems(1,3) by (auto simp: info_ok_def info_bytes_def)
  define bp1 where "bp1 = (r_version i @ SPACE # dec (r_code i) @ NUL # r_reason i) @ NUL # r_before i @
    drop (length (status_line i @ r_before i)) bp"
  have "status_loop (length (i # infos) + fuel) g jid bp d = status_loop (length infos + fuel) g jid bp1 d1"
    using status_loop_line [OF i(1) t i(3), of "length infos + fuel" g jid] i(2) by (simp add: bp1_def)
  moreover have "length bp1 = IOBUFSZ" using i(3) Cons.prems(3) by (simp add: bp1_def status_line_def)
  ultimately show ?case using Cons.IH [OF _ dl, of bp1] Cons.prems(1) by simp
qed auto

text \<open>
  C19. After any number of informational responses, each in one read, a complete response that arrives in one read is understood: whatever
  the version string, the reason, the header lines around the length field and the capitals of its name,
  \<open>printer_status\<close> reads no more and reports success exactly when the HTTP code is from 200 to 299, the request number of
  the IPP message is the job's and its status is a success code. Any other final code is a failure; then
  a response that fills the buffer has its end written behind the buffer.
\<close>

theorem printer_status_complete:
  assumes infos: "\<forall>i\<in>set infos. info_ok i"
    and ok: "line_ok r" "\<not> http_info r" "http_success r \<longrightarrow> field_ok r \<and> tail_ok r" and l: "length (resp_bytes r) \<le> IOBUFSZ"
    and b: "delivers d (map info_bytes infos @ [resp_bytes r]) d'" and fuel: "length infos + length (r_before r) + 2 < fuel"
  shows "printer_status fuel g jid d =
    (if \<not> http_success r \<and> length (resp_bytes r) = IOBUFSZ then Inl BadAccess else Inr (resp_verdict jid r), d')"
proof -
  define f where "f = fuel - length infos"
  have f: "fuel = length infos + f" "length (r_before r) + 2 < f" using fuel by (auto simp: f_def)
  obtain bp d1 where run: "printer_status fuel g jid d = status_loop f g jid bp d1" and bp: "length bp = IOBUFSZ"
    and d1: "delivers d1 [resp_bytes r] d'"
    using infos_skipped [OF infos b, of "map g [0 ..< IOBUFSZ]" f g jid] unfolding printer_status_def f(1) by auto
  have t: "tread (length bp) d1 = (Some (resp_bytes r), d')" using d1 bp delivers_Cons [of d1] by auto
  show ?thesis
  proof (cases "http_success r")
    case False
    obtain f' where f': "f = Suc f'" using f(2) by (cases f) auto
    define rest where "rest = r_before r @ length_line r @ r_after r @ eoh @ r_ipp r"
    have rb: "resp_bytes r = status_line r @ rest" by (simp add: resp_bytes_def rest_def)
    show ?thesis
      unfolding run f' using status_loop_line [OF ok(1) t [unfolded rb], of f' g jid] l ok(2) False bp
      by (simp add: rb resp_verdict_def)
  next
    case True
    then have ok': "status_ok r" "field_ok r" "tail_ok r" using ok by (simp_all add: status_ok_def)
    obtain a as where a: "r_after r = a # as" using ok'(3) by (cases "r_after r") (auto simp: tail_ok_def)
    have ad: "\<not> isdigit a" "as @ eoh @ r_ipp r \<noteq> []" using ok'(3) a by (auto simp: tail_ok_def)
    have ch: "resp_bytes r = status_line r @ r_before r @ length_line r @ a # (as @ eoh @ r_ipp r)" by (simp add: resp_bytes_def a)
    have lb: "length (resp_bytes r) \<le> length bp" using l bp by simp
    note h = status_loop_to_header [OF ok'(1,2) ad ch lb t f(2), of g jid]
    have "0 < f - 1" using f(2) by simp
    from from_header_complete [OF ok'(3) a conjunct2 [OF h] this] show ?thesis
      unfolding run conjunct1 [OF h] using True by (simp add: resp_verdict_def)
  qed
qed

definition sample_info :: http_resp where
  "sample_info = sample_resp\<lparr>r_code := 100, r_reason := ''Continue'', r_before := [NEWLINE, CHR 0x0D, NEWLINE]\<rparr>"

lemma length_sample_info: "length (info_bytes sample_info) = 25"
proof -
  have "length (dec 100) = 3" by code_simp
  then show ?thesis by (simp add: info_bytes_def status_line_def sample_info_def sample_resp_def)
qed

theorem printer_status_complete_witness:
  "fst (printer_status 10 (\<lambda>_. NUL) 3 \<lparr>rbytes = info_bytes sample_info @ resp_bytes sample_resp, rplan = [Some 24], splan = [],
     r_errno = None, held_open = False\<rparr>) = Inr True"
proof -
  let ?d = "\<lparr>rbytes = info_bytes sample_info @ resp_bytes sample_resp, rplan = [Some 24], splan = [], r_errno = None, held_open = False\<rparr>"
  have i: "\<forall>i\<in>set [sample_info]. info_ok i"
    using sample_resp_ok(1) by (simp add: info_ok_def line_ok_def http_info_def length_sample_info IOBUFSZ_def) (simp add: sample_info_def)
  have ok: "line_ok sample_resp" "\<not> http_info sample_resp" "http_success sample_resp \<longrightarrow> field_ok sample_resp \<and> tail_ok sample_resp"
    using sample_resp_ok by (auto simp: field_ok_def tail_ok_def http_success_def http_info_def)
  have l: "length (resp_bytes sample_resp) \<le> IOBUFSZ" by (simp add: sample_resp_ok IOBUFSZ_def)
  have b: "delivers ?d (map info_bytes [sample_info] @ [resp_bytes sample_resp]) (?d\<lparr>rbytes := [], rplan := []\<rparr>)"
    using l length_sample_info by (simp add: tread_def fd_select_def fd_read_def IOBUFSZ_def)
  have f: "length [sample_info] + length (r_before sample_resp) + 2 < 10" by (simp add: sample_resp_ok)
  have v: "resp_verdict 3 sample_resp"
    using of_be32_be32 [of 3 "[]"] sample_resp_ok(2) by (simp add: resp_verdict_def) (simp add: sample_resp_def nat_of_be_def of_char_byte)
  show ?thesis using printer_status_complete [OF i ok l b f, of "\<lambda>_. NUL" 3] v sample_resp_ok(2) by simp
qed

text \<open>
  C20. A header that is cut short after the length field makes \<open>printer_status\<close> loop for ever: when the first read
  ends before the blank line, the inner loops look at the same bytes again without reading, so no
  amount of fuel is enough, whatever the printer sends later.
\<close>

theorem printer_status_cut:
  assumes ok: "status_ok r" "field_ok r" and a: "r_after r = a # as" "\<not> isdigit a" "as \<noteq> []"
    and ne: "\<forall>k. k + 2 < length as \<longrightarrow> take 3 (drop k as) \<noteq> eoh"
  defines "chunk \<equiv> status_line r @ r_before r @ length_line r @ r_after r"
  assumes l: "length chunk \<le> IOBUFSZ" and b: "tread IOBUFSZ d = (Some chunk, d')" and fuel: "length (r_before r) + 2 < fuel"
  shows "printer_status fuel g jid d = (Inl OutOfFuel, d')"
proof -
  let ?m' = "as @ drop (length chunk) (map g [0 ..< IOBUFSZ])"
  let ?m = "front_of r @ NUL # ?m'"
  have ch: "chunk = status_line r @ r_before r @ length_line r @ a # as" by (simp add: chunk_def a(1))
  have bp: "length (map g [0 ..< IOBUFSZ]) = IOBUFSZ" by simp
  have h: "printer_status fuel g jid d = from_header (fuel - 1) g jid (front_of r @ NUL # ?m') (length (front_of r) + 1) (length chunk)
      (int (r_len r)) d' \<and> length chunk = length (front_of r) + 1 + length as"
    using status_loop_to_header [OF ok a(2,3) ch _ _ fuel, of "map g [0 ..< IOBUFSZ]" d d' g jid] l b by (simp add: printer_status_def)
  note dsz = conjunct2 [OF h]
  have "take 3 (drop k ?m) \<noteq> eoh" if k: "length (front_of r) + 1 \<le> k" "k + 2 < length chunk" for k
  proof -
    define k' where "k' = k - (length (front_of r) + 1)"
    have k': "k = length (front_of r) + 1 + k'" "k' + 2 < length as" using k dsz unfolding k'_def by linarith+
    have "take 3 (drop k ?m) = take 3 (drop k' as)" using k' by simp
    then show ?thesis using ne k' by simp
  qed
  moreover have "length chunk \<le> length ?m" "length (front_of r) + 1 < length chunk" "2 \<le> length chunk" using dsz a(3) by (cases as; simp)+
  ultimately have "header_end (fuel - 1) g ?m (length (front_of r) + 1) (length chunk) d' = (Inl OutOfFuel, d')"
    by (intro header_end_spins) auto
  then show ?thesis unfolding conjunct1 [OF h] by (simp only: from_header_def bnd_def prod.case sum.case)
qed

lemma http_header_eq:
  assumes "http_header pn n = Some hb"
  shows "hb = ''POST /ipp HTTP/1.1'' @ CRLF @ ''Content-Length: '' @ dec n @ CRLF @
              ''Content-Type: application/ipp'' @ CRLF @ ''Host: '' @ pn @ '':'' @ dec IPP_PORT @ CRLF @ CRLF"
proof -
  have if_Some: "hb = h" if "(if c then Some h else None) = Some hb" for c h
    using that by (cases c) simp_all
  show ?thesis by (rule if_Some) (rule assms [unfolded http_header_def Let_def])
qed

theorem printer_status_cut_witness:
  "\<forall>k. fst (printer_status (k + 4) (\<lambda>_. NUL) 3
     \<lparr>rbytes = resp_bytes sample_resp, rplan = [Some 35], splan = [], r_errno = None, held_open = False\<rparr>) = Inl OutOfFuel"
proof
  fix k :: nat
  let ?r = "sample_resp\<lparr>r_after := [CHR 0x0D, NEWLINE]\<rparr>"
  let ?chunk = "status_line ?r @ r_before ?r @ length_line ?r @ r_after ?r"
  let ?d = "\<lparr>rbytes = resp_bytes sample_resp, rplan = [Some 35], splan = [], r_errno = None, held_open = False\<rparr>"
  have ok: "status_ok ?r" "field_ok ?r"
    using sample_resp_ok by (simp_all add: field_ok_def status_ok_def line_ok_def http_success_def)
  have a: "r_after ?r = CHR 0x0D # [NEWLINE]" "\<not> isdigit CHR 0x0D" "[NEWLINE] \<noteq> []" using sample_head by simp_all
  have ne: "\<forall>k. k + 2 < length [NEWLINE] \<longrightarrow> take 3 (drop k [NEWLINE]) \<noteq> eoh" by simp
  have e: "length_line ?r = length_line sample_resp" "status_line ?r = status_line sample_resp"
    by (simp_all add: length_line_def status_line_def)
  have c: "length ?chunk = 36" by (simp add: e sample_resp_ok)
  have "resp_bytes sample_resp = ?chunk @ [CHR 0x0D, NEWLINE] @ r_ipp sample_resp" by (simp add: resp_bytes_def e sample_resp_ok)
  then have t: "take 36 (resp_bytes sample_resp) = ?chunk" using c by (metis append_eq_conv_conj)
  have l: "length ?chunk \<le> IOBUFSZ" using c by (simp add: IOBUFSZ_def)
  have b: "tread IOBUFSZ ?d = (Some ?chunk, ?d\<lparr>rbytes := drop 36 (resp_bytes sample_resp), rplan := []\<rparr>)"
    using t by (simp add: tread_def fd_select_def fd_read_def IOBUFSZ_def)
  have "length (r_before ?r) = 1" by (simp add: sample_resp_ok)
  then have f: "length (r_before ?r) + 2 < k + 4" by simp
  show "fst (printer_status (k + 4) (\<lambda>_. NUL) 3 ?d) = Inl OutOfFuel"
    using printer_status_cut [OF ok a ne l b f, of "\<lambda>_. NUL" 3] by simp
qed

subsection \<open>The properties\<close>

text \<open>
  C18. The IPP header: when the two names are terminated it is built exactly when the printer's name has at most
  52 bytes and the names have room in the 512-byte buffer, and then a decoder of the protocol reads from
  it the job's request number and the six attributes with their values; in every other case
  \<open>printer_thread\<close> writes past one of its stack buffers.
\<close>

theorem ipp_header_correct:
  assumes "c_field (usernm (req j) @ jobnm (req j)) = Some user" and "c_field (jobnm (req j)) = Some name"
  shows "(ipp_header j pn = None \<longleftrightarrow> 52 < length pn \<or> IBUFSZ < ipp_size pn user name (is_text (req j))) \<and>
    (\<forall>h. ipp_header j pn = Some h \<longrightarrow> length h \<le> IBUFSZ \<and> take 8 h = [byte 1, byte 1] @ be16 OP_PRINT_JOB @ be32 (jobid j) \<and>
      decode_attrs 7 (drop 9 h) = Some (attrs_of pn user name (is_text (req j))))"
proof (cases "length pn \<le> 52 \<and> ipp_size pn user name (is_text (req j)) \<le> IBUFSZ")
  case True
  let ?as = "concat (map enc_attr (attrs_of pn user name (is_text (req j))))"
  have h: "ipp_header j pn = Some (ipp_start (jobid j) @ ?as @ [byte TAG_END_OF_ATTR])" using ipp_header_eq [OF assms] True by simp
  have "length (ipp_start (jobid j) @ ?as @ [byte TAG_END_OF_ATTR]) \<le> IBUFSZ"
    using length_attrs [of pn user name "is_text (req j)"] True by simp
  moreover have "take 8 (ipp_start (jobid j) @ ?as @ [byte TAG_END_OF_ATTR]) = [byte 1, byte 1] @ be16 OP_PRINT_JOB @ be32 (jobid j)"
    by (simp add: ipp_start_def be16_def)
  moreover have "decode_attrs 7 (drop 9 (ipp_start (jobid j) @ ?as @ [byte TAG_END_OF_ATTR])) = Some (attrs_of pn user name (is_text (req j)))"
    using decode_attrs_of [of pn user name "is_text (req j)"] True by (simp add: ipp_size_def IBUFSZ_def)
  ultimately show ?thesis using h True by (auto simp: not_less)
next
  case False
  then have "ipp_header j pn = None" using ipp_header_eq [OF assms, of pn] by simp
  then show ?thesis using False by auto
qed

theorem ipp_header_correct_witness:
  "ipp_header \<lparr>jobid = 3, req = \<lparr>pr_size = 0, pr_flags = 0, usernm = strncpy 64 (replicate 63 CHR ''u''), jobnm = strncpy 256 (replicate 255 CHR ''n'')\<rparr>\<rparr>
     ''printer1.example.com'' = None"
proof -
  let ?j = "\<lparr>jobid = 3, req = \<lparr>pr_size = 0, pr_flags = 0, usernm = strncpy 64 (replicate 63 CHR ''u''), jobnm = strncpy 256 (replicate 255 CHR ''n'')\<rparr>\<rparr>"
  have u: "c_field (usernm (req ?j) @ jobnm (req ?j)) = Some (replicate 63 CHR ''u'')"
    by (simp add: c_field_def strncpy_def nonul_def)
  have n: "c_field (jobnm (req ?j)) = Some (replicate 255 CHR ''n'')" by (simp add: c_field_def strncpy_def nonul_def)
  have "\<not> is_text (req ?j)" by (simp add: is_text_def PR_TEXT_def)
  then have "IBUFSZ < ipp_size ''printer1.example.com'' (replicate 63 CHR ''u'') (replicate 255 CHR ''n'') (is_text (req ?j))"
    by (simp add: ipp_size_def IBUFSZ_def)
  then show ?thesis using ipp_header_correct [OF u n] by blast
qed

text \<open>
  What is sent for a job is framed as announced: the HTTP header, whose length field is the number of
  bytes that follow it, the IPP header, a backspace for a plain text job, and the whole data
  file; then the printer's answer is read.
\<close>

theorem job_sent_framed:
  assumes "printer s = Some pn" and "ipp_header j pn = Some ib" and "http_header pn (length (ib @ doc_bytes j file)) = Some hb"
    and "fsplan s = []" and "wplan (sock_out s) = []"
  shows "send_job fuel g j file s =
      run_status fuel g (jobid j) (s\<lparr>sock_out := (sock_out s)\<lparr>wbytes := wbytes (sock_out s) @ hb @ ib @ doc_bytes j file\<rparr>\<rparr>) \<and>
    (\<exists>pre post. hb = pre @ ''Content-Length: '' @ dec (length (ib @ doc_bytes j file)) @ CRLF @ post) \<and>
    (\<exists>pre. hb = pre @ CRLF @ CRLF)"
proof -
  let ?n = "dec (length (ib @ doc_bytes j file))"
  have "hb = ''POST /ipp HTTP/1.1'' @ CRLF @ ''Content-Length: '' @ ?n @ CRLF @
              ''Content-Type: application/ipp'' @ CRLF @ ''Host: '' @ pn @ '':'' @ dec IPP_PORT @ CRLF @ CRLF"
    using http_header_eq [OF assms(3)] .
  then have "hb = (''POST /ipp HTTP/1.1'' @ CRLF) @ ''Content-Length: '' @ ?n @ CRLF @
              (''Content-Type: application/ipp'' @ CRLF @ ''Host: '' @ pn @ '':'' @ dec IPP_PORT @ CRLF @ CRLF)"
    "hb = (''POST /ipp HTTP/1.1'' @ CRLF @ ''Content-Length: '' @ ?n @ CRLF @
              ''Content-Type: application/ipp'' @ CRLF @ ''Host: '' @ pn @ '':'' @ dec IPP_PORT) @ CRLF @ CRLF"
    by (simp_all only: append_assoc)
  then show ?thesis using send_job_runs [OF assms, of fuel g] by blast
qed

theorem job_sent_framed_witness:
  "\<exists>ib hb. ipp_header \<lparr>jobid = 1, req = sample_req\<rparr> ''lp'' = Some ib \<and> length ib = 191 \<and>
     send_job 0 (\<lambda>_. NUL) \<lparr>jobid = 1, req = sample_req\<rparr> ''hello'' (idle []) =
       run_status 0 (\<lambda>_. NUL) 1 ((idle [])\<lparr>sock_out := \<lparr>wbytes = hb @ ib @ ''hello'', wplan = []\<rparr>\<rparr>)"
proof -
  let ?j = "\<lparr>jobid = 1, req = sample_req\<rparr>"
  have u: "c_field (usernm (req ?j) @ jobnm (req ?j)) = Some ''sar''" "c_field (jobnm (req ?j)) = Some ''a.ps''"
    by (simp_all add: c_field_def sample_req_def strncpy_def USERNM_MAX_def JOBNM_MAX_def numeral_eq_Suc)
  have nt: "\<not> is_text (req ?j)" by (simp add: is_text_def sample_req_def PR_TEXT_def)
  obtain ib where ib: "ipp_header ?j ''lp'' = Some ib" "length ib = 191"
    using ipp_header_eq [OF u, of "''lp''"] length_attrs [of "''lp''" "''sar''" "''a.ps''" False] nt
    by (auto simp: ipp_size_def IBUFSZ_def)
  have n: "length (ib @ doc_bytes ?j ''hello'') = 196" using ib nt by (simp add: doc_bytes_def)
  have "http_header ''lp'' 196 \<noteq> None" by code_simp
  then obtain hb where hb: "http_header ''lp'' (length (ib @ doc_bytes ?j ''hello'')) = Some hb" unfolding n by blast
  have s: "printer (idle []) = Some ''lp''" "fsplan (idle []) = []" "wplan (sock_out (idle [])) = []" by (simp_all add: idle_def)
  from job_sent_framed [OF s(1) ib(1) hb s(2,3), of 0 "\<lambda>_. NUL"] show ?thesis
    using ib nt by (intro exI [of _ ib] exI [of _ hb]) (simp add: doc_bytes_def idle_def)
qed

end
