(* ===== verification/PrintClient.thy ===== *)
theory PrintClient
  imports Printer
begin

section \<open>The print command (printer/print.c)\<close>

text \<open>
  What \<open>print\<close> does from its arguments to the job number it prints. The file is a stream of
  bytes whose reads may be short or fail; the server is a function from the bytes it is sent to
  the stream it answers with. Character arrays are filled as the code fills them: what
  \<open>strcpy\<close> does not reach keeps the bytes that the stack held before.
\<close>

datatype cl_stop = ErrSys | ErrQuit | ErrExit | Overread
datatype reply = Rejected string | Accepted int

definition SIZEOF_RESP :: nat where "SIZEOF_RESP = 4 + 4 + MSGLEN_MAX"

definition user_field :: "string option \<Rightarrow> string \<Rightarrow> string" where
  "user_field pw junk =
     (case pw of
        None \<Rightarrow> ''unknown'' @ NUL # drop 8 junk
      | Some nm \<Rightarrow> strncpy (USERNM_MAX - 1) nm @ [NUL])"

definition job_field :: "string \<Rightarrow> string \<Rightarrow> string" where
  "job_field fname junk =
     (let len = length fname in
      if JOBNM_MAX \<le> len then ''... '' @ take (JOBNM_MAX - 5) (drop (len - JOBNM_MAX + 5) fname) @ [NUL]
      else fname @ NUL # drop (len + 1) junk)"

definition build_req :: "string option \<Rightarrow> string \<Rightarrow> nat \<Rightarrow> bool \<Rightarrow> string \<Rightarrow> string \<Rightarrow> printreq" where
  "build_req pw fname nbytes plain_text ujunk jjunk =
     \<lparr>pr_size = htonl (of_nat nbytes), pr_flags = (if plain_text then htonl PR_TEXT else 0),
      usernm = user_field pw ujunk, jobnm = job_field fname jjunk\<rparr>"

text \<open>The loop that sends the file. A \<open>read\<close> that fails passes -1 to \<open>writen\<close> as the length, which reads past \<open>buf\<close>.\<close>

function send_doc :: "rdesc \<Rightarrow> wdesc \<Rightarrow> (cl_stop + unit) \<times> rdesc \<times> wdesc" where
  "send_doc f w =
     (case fd_read IOBUFSZ f of
        (None, f) \<Rightarrow> (Inl Overread, f, w)
      | (Some bs, f') \<Rightarrow>
          if bs = [] then (Inr (), f', w)
          else (case writen bs w of
                  (nw, w) \<Rightarrow> if nw \<noteq> int (length bs) then (Inl (if nw < 0 then ErrSys else ErrQuit), f', w) else send_doc f' w))"
  by pat_completeness auto
termination
  by (relation "measure (\<lambda>(f, w). length (rbytes f))") (auto dest!: plain.rd_some [OF sym])

declare send_doc.simps [simp del]

definition read_reply :: "rdesc \<Rightarrow> cl_stop + reply" where
  "read_reply d =
     (case readn SIZEOF_RESP d of
        ((nr, raw), d) \<Rightarrow>
          if nr \<noteq> int SIZEOF_RESP then Inl ErrSys
          else if of_le32 raw \<noteq> 0 then Inr (Rejected (cstr (drop 8 raw)))
          else Inr (Accepted (uint (ntohl (of_le32 (drop 4 raw))))))"

definition submit_file ::
  "(string \<Rightarrow> rdesc) \<Rightarrow> string option \<Rightarrow> string \<Rightarrow> string \<Rightarrow> rdesc \<Rightarrow> wdesc \<Rightarrow> string \<Rightarrow> nat \<Rightarrow> bool \<Rightarrow> (cl_stop + reply) \<times> wdesc" where
  "submit_file server pw ujunk jjunk f w fname nbytes plain_text =
     (case writen (req_raw (build_req pw fname nbytes plain_text ujunk jjunk)) w of
        (nw, w) \<Rightarrow>
          if nw \<noteq> int SIZEOF_REQ then (Inl (if nw < 0 then ErrSys else ErrQuit), w)
          else (case send_doc f w of
                  (Inl e, f, w) \<Rightarrow> (Inl e, w)
                | (Inr _, f, w) \<Rightarrow> (read_reply (server (wbytes w)), w)))"

subsection \<open>The command\<close>

text \<open>\<open>getopt\<close> with the option \<open>-t\<close>: whether it was given, whether another one was, and the other arguments.\<close>

fun getopt_t :: "string list \<Rightarrow> bool \<times> bool \<times> string list" where
  "getopt_t [] = (False, False, [])"
| "getopt_t (a # as) =
     (if a = ''--'' then (False, False, as)
      else if length a < 2 \<or> hd a \<noteq> CHR ''-'' then (False, False, a # as)
      else (let (t, e, r) = getopt_t as in (t \<or> CHR ''t'' \<in> set (tl a), e \<or> \<not> set (tl a) \<subseteq> {CHR ''t''}, r)))"

text \<open>The first address of the list to which \<open>connect_retry\<close> connects.\<close>

fun connect_first :: "('a \<Rightarrow> conn_try list) \<Rightarrow> 'a list \<Rightarrow> 'a option" where
  "connect_first tries [] = None"
| "connect_first tries (a # as) = (if fst (connect_retry (tries a)) then Some a else connect_first tries as)"

text \<open>\<open>open\<close> and \<open>fstat\<close> of the file give whether it is a regular file and its size.\<close>

definition print_main ::
  "(string \<Rightarrow> (bool \<times> nat) option option) \<Rightarrow> string option \<Rightarrow> (string \<Rightarrow> string \<Rightarrow> 'a list option) \<Rightarrow> ('a \<Rightarrow> conn_try list) \<Rightarrow>
   ('a \<Rightarrow> string \<Rightarrow> nat \<Rightarrow> bool \<Rightarrow> cl_stop + reply) \<Rightarrow> string list \<Rightarrow> cl_stop + reply" where
  "print_main fs conf getaddrinfo tries submit args =
     (case getopt_t args of (plain_text, err, rest) \<Rightarrow>
        if err \<or> length rest \<noteq> 1 then Inl ErrQuit
        else case fs (hd rest) of
          None \<Rightarrow> Inl ErrSys
        | Some None \<Rightarrow> Inl ErrSys
        | Some (Some (regular, nbytes)) \<Rightarrow>
            if \<not> regular then Inl ErrQuit
            else (case get_printserver conf of
                None \<Rightarrow> Inl ErrSys
              | Some None \<Rightarrow> Inl ErrQuit
              | Some (Some host) \<Rightarrow>
                  (case getaddrlist getaddrinfo host ''print'' of
                     None \<Rightarrow> Inl ErrQuit
                   | Some ailist \<Rightarrow>
                       (case connect_first tries ailist of
                          None \<Rightarrow> Inl ErrExit
                        | Some aip \<Rightarrow> submit aip (hd rest) nbytes plain_text))))"

subsection \<open>The request\<close>

lemma user_field_ok:
  assumes "\<And>nm. pw = Some nm \<Longrightarrow> nonul nm" and "length junk = USERNM_MAX"
  shows "length (user_field pw junk) = USERNM_MAX"
    "cstr (user_field pw junk) = (case pw of None \<Rightarrow> ''unknown'' | Some nm \<Rightarrow> take (USERNM_MAX - 1) nm)"
proof -
  show "length (user_field pw junk) = USERNM_MAX"
    using assms(2) by (auto simp: user_field_def strncpy_def USERNM_MAX_def min_def split: option.splits)
  have nn: "nonul nm \<Longrightarrow> nonul (take k nm)" for nm k by (auto simp: nonul_def dest: in_set_takeD)
  have "cstr (take k nm @ replicate m NUL @ [NUL]) = take k nm" if "nonul nm" for nm k m
    using nn [OF that] by (cases m) auto
  then show "cstr (user_field pw junk) = (case pw of None \<Rightarrow> ''unknown'' | Some nm \<Rightarrow> take (USERNM_MAX - 1) nm)"
    using assms(1) cstr_append_NUL [of "''unknown''" "drop 8 junk"] by (auto simp: user_field_def strncpy_def nonul_def split: option.splits)
qed

definition job_title :: "string \<Rightarrow> string" where
  "job_title fname = (if length fname < JOBNM_MAX then fname else ''... '' @ drop (length fname - (JOBNM_MAX - 5)) fname)"

lemma job_field_ok:
  assumes "nonul fname" and "length junk = JOBNM_MAX"
  shows "length (job_field fname junk) = JOBNM_MAX" and "cstr (job_field fname junk) = job_title fname"
proof -
  have nd: "nonul (drop k fname)" for k using assms(1) by (auto simp: nonul_def dest: in_set_dropD)
  have t: "JOBNM_MAX \<le> length fname \<Longrightarrow> take (JOBNM_MAX - 5) (drop (length fname - JOBNM_MAX + 5) fname) = drop (length fname - (JOBNM_MAX - 5)) fname"
    by (simp add: JOBNM_MAX_def)
  show "length (job_field fname junk) = JOBNM_MAX" using assms(2) by (auto simp: job_field_def Let_def JOBNM_MAX_def)
  have "nonul (''... '' @ drop k fname)" for k using nd by (simp add: nonul_def)
  then have "cstr ((''... '' @ drop k fname) @ NUL # []) = ''... '' @ drop k fname" for k by (rule cstr_append_NUL)
  then show "cstr (job_field fname junk) = job_title fname"
    using t assms(1) cstr_append_NUL by (auto simp: job_field_def job_title_def Let_def)
qed

text \<open>The request in host order.\<close>

definition host_req :: "string option \<Rightarrow> string \<Rightarrow> nat \<Rightarrow> bool \<Rightarrow> string \<Rightarrow> string \<Rightarrow> printreq" where
  "host_req pw fname nbytes plain_text uj jj =
     \<lparr>pr_size = of_nat nbytes, pr_flags = (if plain_text then PR_TEXT else 0), usernm = user_field pw uj, jobnm = job_field fname jj\<rparr>"

lemma htonl_0: "htonl 0 = 0"
  by (simp add: htonl_def of_le32_def be32_def nat_of_be_def of_char_byte Let_def)

lemma build_req_host: "build_req pw fname nbytes plain_text uj jj = req_hton (host_req pw fname nbytes plain_text uj jj)"
  by (simp add: build_req_def host_req_def req_hton_def htonl_0)

lemma host_req_ok:
  assumes "\<And>nm. pw = Some nm \<Longrightarrow> nonul nm" and "nonul fname" and "length uj = USERNM_MAX" and "length jj = JOBNM_MAX"
  shows "wf_req (host_req pw fname nbytes plain_text uj jj)"
  unfolding wf_req_def host_req_def using user_field_ok(1) [OF assms(1,3)] job_field_ok(1) [OF assms(2,4)] by simp

subsection \<open>Sending the file\<close>

lemma fd_read_ok: "read_ok f \<Longrightarrow> 0 < n \<Longrightarrow> \<exists>bs f'. fd_read n f = (Some bs, f') \<and> read_ok f' \<and> rbytes f = bs @ rbytes f' \<and> (bs = [] \<longrightarrow> rbytes f = [])"
  using plain.rd_healthy [of f n] plain.rd_some plain.rd_eof by (metis)

lemma writen_ok: "write_ok w \<Longrightarrow> \<exists>w'. writen bs w = (int (length bs), w') \<and> wbytes w' = wbytes w @ bs \<and> write_ok w'"
  using fdsink.wloop_healthy [of w "length bs" bs] by (auto simp: writen_def)

lemma send_doc_all:
  assumes "read_ok f" and "write_ok w"
  shows "\<exists>f' w'. send_doc f w = (Inr (), f', w') \<and> wbytes w' = wbytes w @ rbytes f"
  using assms
proof (induction f w rule: send_doc.induct)
  case (1 f w)
  obtain bs f' where f: "fd_read IOBUFSZ f = (Some bs, f')" "read_ok f'" "rbytes f = bs @ rbytes f'" "bs = [] \<longrightarrow> rbytes f = []"
    using fd_read_ok [OF "1.prems"(1), of IOBUFSZ] by (auto simp: IOBUFSZ_def)
  obtain w' where w: "writen bs w = (int (length bs), w')" "wbytes w' = wbytes w @ bs" "write_ok w'" using writen_ok [OF "1.prems"(2)] by blast
  show ?case
  proof (cases "bs = []")
    case True
    then show ?thesis using f by (simp add: send_doc.simps)
  next
    case False
    have "\<exists>f'' w''. send_doc f' w' = (Inr (), f'', w'') \<and> wbytes w'' = wbytes w' @ rbytes f'"
      by (rule "1.IH" [OF f(1) [symmetric] refl _ w(1) [symmetric]]) (use False f(2) w(3) in auto)
    then show ?thesis using False f w by (simp add: send_doc.simps [of f])
  qed
qed

lemma read_reply_ok:
  assumes "read_ok d" and "rbytes d = resp_raw r @ rest" and "length (pr_msg r) = MSGLEN_MAX"
  shows "read_reply d = (if retcode r \<noteq> 0 then Inr (Rejected (cstr (pr_msg r))) else Inr (Accepted (uint (ntohl (pr_jobid r)))))"
proof -
  have l: "length (resp_raw r) = SIZEOF_RESP" using assms(3) by (simp add: resp_raw_def SIZEOF_RESP_def)
  obtain d' where d: "readn SIZEOF_RESP d = ((int SIZEOF_RESP, resp_raw r), d')"
    using plain.loop_healthy [OF assms(1), of "[]" SIZEOF_RESP SIZEOF_RESP] assms(2) l by (auto simp: readn_def)
  have "of_le32 (resp_raw r) = retcode r" "of_le32 (drop 4 (resp_raw r)) = pr_jobid r" "drop 8 (resp_raw r) = pr_msg r"
    by (simp_all add: resp_raw_def)
  then show ?thesis by (simp add: read_reply_def d)
qed


subsection \<open>The command and the daemon together\<close>

text \<open>
  The daemon as the server of one connection: a client thread reads what the client sent, and what it
  wrote is delivered to the client in pieces given by \<open>plan\<close>. The command neither closes nor shuts down its side before it has
  read the answer, so the connection is held open: after the last byte the daemon sees no end of file, and its
  receive loop is left by the timeout of its last read.
\<close>

definition daemon_state :: "(int \<Rightarrow> string) \<Rightarrow> string \<Rightarrow> string \<Rightarrow> nat \<Rightarrow> int \<Rightarrow> nat \<Rightarrow> printd \<Rightarrow> string \<Rightarrow> printd" where
  "daemon_state strerr junk mjunk tid fd wtp s sent =
     snd (client_thread strerr junk mjunk tid fd (Some wtp) (s\<lparr>sock_in := (sock_in s)\<lparr>rbytes := sent, held_open := True\<rparr>\<rparr>))"

definition daemon_answer :: "nat option list \<Rightarrow> printd \<Rightarrow> rdesc" where
  "daemon_answer plan t = \<lparr>rbytes = wbytes (sock_out t), rplan = plan, splan = [], r_errno = None, held_open = False\<rparr>"

definition daemon_idle :: "printd \<Rightarrow> nat list \<Rightarrow> bool" where
  "daemon_idle s xs \<longleftrightarrow> workers (workl s) = None \<and> fsplan s = [] \<and> \<not> oom s \<and> isq (jobs s) xs \<and> next_addr s \<notin> set xs \<and>
     0 < sint (nextjob s) \<and> write_ok (sock_out s) \<and> wbytes (sock_out s) = [] \<and> None \<notin> set (rplan (sock_in s)) \<and> splan (sock_in s) = []"

lemma sprintf_msg_length:
  assumes "0 < sint j" and "length mjunk = MSGLEN_MAX"
  shows "length (sprintf_msg j mjunk) = MSGLEN_MAX"
proof -
  have "sint j < 2 ^ 31" using sint_lt [of j] by simp
  then have "nat (sint j) < 10 ^ 10" using assms(1) by simp
  then have "length (dec (nat (sint j))) \<le> 10" by (rule length_dec_bound) simp
  then have "length (sdec j) \<le> 10" using assms(1) by (simp add: sdec_def dec_int_def)
  then show ?thesis using assms(2) by (simp add: sprintf_msg_def Let_def MSGLEN_MAX_def)
qed

lemma sint_positive: "0 < sint (j :: 32 word) \<Longrightarrow> sint j = uint j"
  using sint_lt [of j] by (simp add: uint_sint [of j] take_bit_int_eq_self)

text \<open>
  C10. The print command and the daemon together: when no call fails, however the streams are cut, submitting a file to an
  idle daemon prints the job number that the daemon gave to it; then the spool directory has
  the bytes of the file under that number, the job is last in the queue with the size, the name of the user and
  the title of the file (its end, when the name is too long), and the jobs before it are as they were. The daemon has then
  waited for more data until its read timed out, as the command sends no end of file.
\<close>

theorem print_job_queued:
  assumes "read_ok f" and "write_ok w" and "wbytes w = []" and "None \<notin> set plan" and "daemon_idle s xs"
    and "\<And>nm. pw = Some nm \<Longrightarrow> nonul nm" and "nonul fname" and "length uj = USERNM_MAX" and "length jj = JOBNM_MAX" and "length mjunk = MSGLEN_MAX"
  shows "\<exists>w' t r. submit_file (\<lambda>sent. daemon_answer plan (daemon_state strerr junk mjunk tid fd wtp s sent)) pw uj jj f w fname (length (rbytes f)) plain_text =
      (Inr (Accepted (sint (nextjob s))), w') \<and> t = daemon_state strerr junk mjunk tid fd wtp s (wbytes w') \<and>
    spool t (data_name (sdec (nextjob s))) = Some (rbytes f) \<and>
    isq (jobs t) (xs @ [next_addr s]) \<and> same_data (jobs s) (jobs t) xs \<and> data_at (jobs t) (next_addr s) = \<lparr>jobid = nextjob s, req = r\<rparr> \<and>
    r_errno (sock_in t) = Some ETIME \<and>
    pr_size r = of_nat (length (rbytes f)) \<and> (plain_text \<longrightarrow> pr_flags r = PR_TEXT) \<and>
    cstr (usernm r) = (case pw of None \<Rightarrow> ''unknown'' | Some nm \<Rightarrow> take (USERNM_MAX - 1) nm) \<and> cstr (jobnm r) = job_title fname"
proof -
  let ?h = "host_req pw fname (length (rbytes f)) plain_text uj jj"
  let ?q = "req_raw (req_hton ?h)"
  have wf: "wf_req ?h" by (rule host_req_ok [OF assms(6-9)])
  then have "length ?q = SIZEOF_REQ" by (intro length_req_raw) (simp add: wf_req_def req_hton_def)
  then obtain w1 where w1: "writen ?q w = (int SIZEOF_REQ, w1)" "wbytes w1 = ?q" "write_ok w1"
    using writen_ok [OF assms(2), of ?q] assms(3) by auto
  obtain f' w' where w': "send_doc f w1 = (Inr (), f', w')" "wbytes w' = ?q @ rbytes f"
    using send_doc_all [OF assms(1) w1(3)] w1(2) by auto
  let ?s = "s\<lparr>sock_in := (sock_in s)\<lparr>rbytes := ?q @ rbytes f, held_open := True\<rparr>\<rparr>"
  define t where "t = daemon_state strerr junk mjunk tid fd wtp s (?q @ rbytes f)"
  have I: "workers (workl ?s) = None" "fsplan ?s = []" "\<not> oom ?s" "rbytes (sock_in ?s) = ?q @ rbytes f" "isq (jobs ?s) xs" "next_addr ?s \<notin> set xs"
    "write_ok (sock_out ?s)" "wbytes (sock_out ?s) = []" "0 < sint (nextjob s)"
    using assms(5) by (simp_all add: daemon_idle_def)
  have wo: "waits_open (sock_in ?s)" using assms(5) by (simp add: daemon_idle_def waits_open_def)
  have P: "polls_ok (sock_in ?s)" using assms(5) by (auto simp: daemon_idle_def polls_ok_def read_ok_def dest!: nth_mem)
  obtain r' where r': "r' \<in> {?h, ?h\<lparr>pr_flags := pr_flags ?h OR PR_TEXT\<rparr>}"
      "spool t = (spool s)(data_name (sdec (nextjob s)) \<mapsto> rbytes f, req_name (sdec (nextjob s)) \<mapsto> req_raw r')"
      "isq (jobs t) (xs @ [next_addr s])" "data_at (jobs t) (next_addr s) = \<lparr>jobid = nextjob s, req = r'\<rparr>" "same_data (jobs s) (jobs t) xs"
      "wbytes (sock_out t) = resp_raw \<lparr>retcode = 0, pr_jobid = htonl (nextjob s), pr_msg = sprintf_msg (nextjob s) mjunk\<rparr>"
      "r_errno (sock_in t) = Some ETIME"
    using client_served [OF I(1-3) P I(4) wf I(5,6), of strerr junk mjunk tid fd wtp] I(7,8) wo by (auto simp: t_def daemon_state_def)
  have "read_reply (daemon_answer plan t) = Inr (Accepted (uint (nextjob s)))"
    using read_reply_ok [of "daemon_answer plan t" "\<lparr>retcode = 0, pr_jobid = htonl (nextjob s), pr_msg = sprintf_msg (nextjob s) mjunk\<rparr>" "[]"]
      r'(6) assms(4) sprintf_msg_length [OF I(9) assms(10)] by (simp add: daemon_answer_def read_ok_def)
  then have sub: "submit_file (\<lambda>sent. daemon_answer plan (daemon_state strerr junk mjunk tid fd wtp s sent)) pw uj jj f w fname (length (rbytes f)) plain_text =
      (Inr (Accepted (sint (nextjob s))), w')"
    using w1(1) w' sint_positive [OF I(9)] by (simp add: submit_file_def build_req_host t_def)
  have "pr_size r' = of_nat (length (rbytes f)) \<and> (plain_text \<longrightarrow> pr_flags r' = PR_TEXT) \<and> usernm r' = user_field pw uj \<and> jobnm r' = job_field fname jj"
    using r'(1) by (auto simp: host_req_def)
  moreover have "spool t (data_name (sdec (nextjob s))) = Some (rbytes f)" using r'(2) by (simp add: data_name_def req_name_def DATADIR_def REQDIR_def)
  ultimately show ?thesis
    using sub r'(3-5,7) user_field_ok(2) [OF assms(6,8)] job_field_ok(2) [OF assms(7,9)] w'(2)
    by (intro exI [of _ w'] exI [of _ t] exI [of _ r']) (simp add: t_def)
qed

theorem print_job_queued_witness:
  "\<exists>w' t. submit_file (\<lambda>sent. daemon_answer [Some 99] (daemon_state (\<lambda>_. ''error'') [] (replicate MSGLEN_MAX NUL) 7 4 1 (idle []) sent)) (Some ''sar'')
       (replicate USERNM_MAX NUL) (replicate JOBNM_MAX NUL) \<lparr>rbytes = ''%!PS-Adobe'', rplan = [Some 3], splan = [], r_errno = None, held_open = False\<rparr>
       \<lparr>wbytes = [], wplan = [Some 5]\<rparr> ''a.ps'' 10 False = (Inr (Accepted 1), w') \<and>
     t = daemon_state (\<lambda>_. ''error'') [] (replicate MSGLEN_MAX NUL) 7 4 1 (idle []) (wbytes w') \<and>
     spool t (data_name ''1'') = Some ''%!PS-Adobe'' \<and> isq (jobs t) [1] \<and> cstr (usernm (req (data_at (jobs t) 1))) = ''sar''"
proof -
  let ?f = "\<lparr>rbytes = ''%!PS-Adobe'', rplan = [Some 3], splan = [], r_errno = None, held_open = False\<rparr>"
  let ?w = "\<lparr>wbytes = [], wplan = [Some 5]\<rparr>"
  have idle: "daemon_idle (idle []) []" using idle_facts by (simp add: daemon_idle_def) (simp add: idle_def write_ok_def)
  have a: "read_ok ?f" "write_ok ?w" "wbytes ?w = []" "None \<notin> set [Some 99]" by (simp_all add: read_ok_def write_ok_def)
  have b: "nonul nm" if "Some ''sar'' = Some nm" for nm using that by auto
  have c: "nonul ''a.ps''" "length (replicate USERNM_MAX NUL) = USERNM_MAX" "length (replicate JOBNM_MAX NUL) = JOBNM_MAX"
    "length (replicate MSGLEN_MAX NUL) = MSGLEN_MAX" by simp_all
  have l: "length (rbytes ?f) = 10" "sdec (nextjob (idle [])) = ''1''" "sint (nextjob (idle [])) = 1" "next_addr (idle []) = 1"
    by (simp_all add: idle_def sdec_1)
  have u: "take (USERNM_MAX - 1) ''sar'' = ''sar''" by (simp add: USERNM_MAX_def)
  let ?m = "replicate MSGLEN_MAX NUL"
  obtain w' t r where P: "submit_file (\<lambda>sent. daemon_answer [Some 99] (daemon_state (\<lambda>_. ''error'') [] ?m 7 4 1 (idle []) sent)) (Some ''sar'')
       (replicate USERNM_MAX NUL) (replicate JOBNM_MAX NUL) ?f ?w ''a.ps'' (length (rbytes ?f)) False = (Inr (Accepted (sint (nextjob (idle [])))), w')"
     "t = daemon_state (\<lambda>_. ''error'') [] ?m 7 4 1 (idle []) (wbytes w')"
     "spool t (data_name (sdec (nextjob (idle [])))) = Some (rbytes ?f)" "isq (jobs t) ([] @ [next_addr (idle [])])"
     "data_at (jobs t) (next_addr (idle [])) = \<lparr>jobid = nextjob (idle []), req = r\<rparr>"
     "cstr (usernm r) = (case Some ''sar'' of None \<Rightarrow> ''unknown'' | Some nm \<Rightarrow> take (USERNM_MAX - 1) nm)"
    using print_job_queued [OF a idle, where pw = "Some ''sar''", OF b c, where strerr = "\<lambda>_. ''error''" and junk = "[]" and tid = 7 and fd = 4 and wtp = 1
      and plain_text = False] by blast
  show ?thesis using P unfolding l by (intro exI [of _ w'] exI [of _ t]) (simp add: USERNM_MAX_def)
qed

end
