(* ===== verification/OpendLoop.thy ===== *)
theory OpendLoop
  imports CString "HOL-Library.Word"
begin

section \<open>The client table and the event loops of the open server (ipc2/opend/client.c, loop.select.c, loop.poll.c)\<close>

text \<open>
  The table of clients, and one round of each of the two loops as a function of what the system
  reports in that round: the ready descriptors, the accepted connection, whether memory is
  left, and the result of each \<open>read\<close>. The calls of a round (connections logged,
  clients closed, requests passed to \<open>handle_request\<close> with the user number of the
  table) are recorded in order in \<open>acts\<close>. An \<open>fd_set\<close> has \<open>FD_SETSIZE\<close> bits: setting a bit behind them stops the \<open>select\<close> loop with
  \<open>FdSetOverrun\<close>, as it writes past \<open>allset\<close> on the stack of \<open>loop\<close>. A specification of these calls keeps a map from open
  connections to the users that opened them: the \<open>select\<close> loop refines it, the \<open>poll\<close> loop does not.
\<close>

definition NALLOC :: nat where "NALLOC = 10"

type_synonym uid = "32 word"

record cl_ent =
  cfd :: int
  cuid :: "uid option"

definition client_alloc :: "bool \<Rightarrow> cl_ent list \<Rightarrow> cl_ent list option" where
  "client_alloc mem cs = (if mem then Some (cs @ replicate NALLOC \<lparr>cfd = -1, cuid = None\<rparr>) else None)"

text \<open>The first entry with a descriptor: the loops of \<open>client_add\<close> and \<open>client_del\<close>.\<close>

fun find_fd :: "int \<Rightarrow> cl_ent list \<Rightarrow> nat option" where
  "find_fd fd [] = None"
| "find_fd fd (c # cs) = (if cfd c = fd then Some 0 else map_option Suc (find_fd fd cs))"

definition client_add :: "bool \<Rightarrow> int \<Rightarrow> uid \<Rightarrow> cl_ent list \<Rightarrow> (nat \<times> cl_ent list) option" where
  "client_add mem fd uid cs =
     (case (if cs = [] then client_alloc mem cs else Some cs) of
        None \<Rightarrow> None
      | Some cs \<Rightarrow>
          (case find_fd (-1) cs of
             Some i \<Rightarrow> Some (i, cs[i := \<lparr>cfd = fd, cuid = Some uid\<rparr>])
           | None \<Rightarrow>
               (case client_alloc mem cs of
                  None \<Rightarrow> None
                | Some cs \<Rightarrow> map_option (\<lambda>i. (i, cs[i := \<lparr>cfd = fd, cuid = Some uid\<rparr>])) (find_fd (-1) cs))))"

definition client_del :: "int \<Rightarrow> cl_ent list \<Rightarrow> cl_ent list option" where
  "client_del fd cs = map_option (\<lambda>i. cs[i := (cs ! i)\<lparr>cfd := -1\<rparr>]) (find_fd fd cs)"

datatype act = Connected uid int | Closed "uid option" int | Request string int "uid option"
datatype loop_stop = LogSys | NoMemory | LogQuit | OutOfTable | FdSetOverrun
datatype read_result = ReadError | ReadEof | ReadData string

subsection \<open>The loop with select\<close>

definition FD_SETSIZE :: int where "FD_SETSIZE = 1024"

record sel_loop =
  listenfd :: int
  clients :: "cl_ent list"
  allset :: "int set"
  maxfd :: int
  maxi :: int
  acts :: "act list"

text \<open>The \<open>for\<close> loop over the table.\<close>

function sel_scan :: "(int \<Rightarrow> read_result) \<Rightarrow> int set \<Rightarrow> nat \<Rightarrow> sel_loop \<Rightarrow> (loop_stop + unit) \<times> sel_loop" where
  "sel_scan rd rset i s =
     (if maxi s < int i then (Inr (), s)
      else if length (clients s) \<le> i then (Inl OutOfTable, s)
      else let c = clients s ! i; clifd = cfd c in
           if clifd < 0 \<or> clifd \<notin> rset then sel_scan rd rset (i + 1) s
           else case rd clifd of
                  ReadError \<Rightarrow> (Inl LogSys, s)
                | ReadEof \<Rightarrow>
                    (case client_del clifd (clients s) of
                       None \<Rightarrow> (Inl LogQuit, s)
                     | Some cs \<Rightarrow> sel_scan rd rset (i + 1)
                         (s\<lparr>clients := cs, allset := allset s - {clifd}, acts := acts s @ [Closed (cuid c) clifd]\<rparr>))
                | ReadData b \<Rightarrow> sel_scan rd rset (i + 1) (s\<lparr>acts := acts s @ [Request b clifd (cuid c)]\<rparr>))"
  by pat_completeness auto
termination
  by (relation "measure (\<lambda>(rd, rset, i, s). nat (maxi s + 1 - int i))") auto

declare sel_scan.simps [simp del]

text \<open>A round: \<open>select\<close> looks at the descriptors of \<open>allset\<close> below \<open>maxfd + 1\<close>.\<close>

definition sel_round :: "int set \<Rightarrow> (int \<times> uid) option \<Rightarrow> bool \<Rightarrow> (int \<Rightarrow> read_result) \<Rightarrow> sel_loop \<Rightarrow> (loop_stop + unit) \<times> sel_loop" where
  "sel_round ready acc mem rd s =
     (let rset = {fd \<in> ready. fd \<in> allset s \<and> fd \<le> maxfd s}
      in if listenfd s \<in> rset then
           (case acc of
              None \<Rightarrow> (Inl LogSys, s)
            | Some (clifd, uid) \<Rightarrow>
                (case client_add mem clifd uid (clients s) of
                   None \<Rightarrow> (Inl NoMemory, s)
                 | Some (i, cs) \<Rightarrow>
                     if FD_SETSIZE \<le> clifd then (Inl FdSetOverrun, s\<lparr>clients := cs\<rparr>)
                     else (Inr (), s\<lparr>clients := cs, allset := insert clifd (allset s),
                        maxfd := (if maxfd s < clifd then clifd else maxfd s),
                        maxi := (if maxi s < int i then int i else maxi s),
                        acts := acts s @ [Connected uid clifd]\<rparr>)))
         else sel_scan rd rset 0 s)"

definition sel_init :: "int \<Rightarrow> sel_loop" where
  "sel_init lfd = \<lparr>listenfd = lfd, clients = [], allset = {lfd}, maxfd = lfd, maxi = -1, acts = []\<rparr>"

subsection \<open>The loop with poll\<close>

record poll_ent =
  pfd :: int
  pin :: bool
  phup :: bool

record poll_loop =
  p_clients :: "cl_ent list"
  pollfd :: "poll_ent list"
  numfd :: nat
  p_acts :: "act list"

definition grow_pollfd :: "poll_ent list \<Rightarrow> poll_ent list" where
  "grow_pollfd p = p @ replicate NALLOC \<lparr>pfd = -1, pin = False, phup = False\<rparr>"

function poll_scan :: "(int \<Rightarrow> read_result) \<Rightarrow> nat \<Rightarrow> poll_loop \<Rightarrow> (loop_stop + unit) \<times> poll_loop" where
  "poll_scan rd i s =
     (if numfd s \<le> i then (Inr (), s)
      else let p = pollfd s ! i;
               r = (if phup p then Some ReadEof else if pin p then Some (rd (pfd p)) else None)
           in case r of
                None \<Rightarrow> poll_scan rd (i + 1) s
              | Some ReadError \<Rightarrow> (Inl LogSys, s)
              | Some ReadEof \<Rightarrow>
                  (if length (p_clients s) \<le> i then (Inl OutOfTable, s)
                   else case client_del (pfd p) (p_clients s) of
                          None \<Rightarrow> (Inl LogQuit, s)
                        | Some cs \<Rightarrow>
                            let s' = s\<lparr>p_acts := p_acts s @ [Closed (cuid (p_clients s ! i)) (pfd p)], p_clients := cs\<rparr>
                            in if i < numfd s - 1
                               then poll_scan rd i (s'\<lparr>pollfd := (pollfd s)[i := pollfd s ! (numfd s - 1)], numfd := numfd s - 1\<rparr>)
                               else poll_scan rd (i + 1) (s'\<lparr>numfd := numfd s - 1\<rparr>))
              | Some (ReadData b) \<Rightarrow>
                  (if length (p_clients s) \<le> i then (Inl OutOfTable, s)
                   else poll_scan rd (i + 1) (s\<lparr>p_acts := p_acts s @ [Request b (pfd p) (cuid (p_clients s ! i))]\<rparr>)))"
  by pat_completeness auto
termination
  by (relation "measure (\<lambda>(rd, i, s). numfd s - i)") auto

declare poll_scan.simps [simp del]

text \<open>\<open>poll\<close> reports for each descriptor whether it is readable and whether the peer hung up.\<close>

definition poll_report :: "(int \<Rightarrow> bool \<times> bool) \<Rightarrow> nat \<Rightarrow> poll_ent list \<Rightarrow> poll_ent list" where
  "poll_report rep n ps =
     map (\<lambda>p. p\<lparr>pin := 0 \<le> pfd p \<and> fst (rep (pfd p)), phup := 0 \<le> pfd p \<and> snd (rep (pfd p))\<rparr>) (take n ps) @ drop n ps"

definition poll_round :: "(int \<Rightarrow> bool \<times> bool) \<Rightarrow> (int \<times> uid) option \<Rightarrow> bool \<Rightarrow> (int \<Rightarrow> read_result) \<Rightarrow> poll_loop \<Rightarrow>
    (loop_stop + unit) \<times> poll_loop" where
  "poll_round rep acc mem rd s =
     (let s = s\<lparr>pollfd := poll_report rep (numfd s) (pollfd s)\<rparr>
      in if pin (pollfd s ! 0) then
           (case acc of
              None \<Rightarrow> (Inl LogSys, s)
            | Some (clifd, uid) \<Rightarrow>
                (case client_add mem clifd uid (p_clients s) of
                   None \<Rightarrow> (Inl NoMemory, s)
                 | Some (_, cs) \<Rightarrow>
                     if numfd s = length (pollfd s) \<and> \<not> mem then (Inl NoMemory, s\<lparr>p_clients := cs\<rparr>)
                     else let ps = (if numfd s = length (pollfd s) then grow_pollfd (pollfd s) else pollfd s)
                          in poll_scan rd 1 (s\<lparr>p_clients := cs, pollfd := ps[numfd s := \<lparr>pfd = clifd, pin = False, phup = False\<rparr>],
                               numfd := numfd s + 1, p_acts := p_acts s @ [Connected uid clifd]\<rparr>)))
         else poll_scan rd 1 s)"

definition poll_init :: "bool \<Rightarrow> int \<Rightarrow> poll_loop option" where
  "poll_init mem lfd =
     (if \<not> mem then None
      else map_option (\<lambda>(i, cs). \<lparr>p_clients = cs,
        pollfd = (replicate NALLOC \<lparr>pfd = -1, pin = False, phup = False\<rparr>)[0 := \<lparr>pfd = lfd, pin = False, phup = False\<rparr>],
        numfd = 1, p_acts = []\<rparr>) (client_add mem lfd 0 []))"

subsection \<open>The specification of the calls\<close>

text \<open>Connections and their users; \<open>explain\<close> runs the recorded calls against it and refuses a wrong user.\<close>

fun explain :: "(int \<Rightarrow> uid option) \<Rightarrow> act list \<Rightarrow> (int \<Rightarrow> uid option) option" where
  "explain m [] = Some m"
| "explain m (Connected u fd # as) = (if m fd = None then explain (m(fd \<mapsto> u)) as else None)"
| "explain m (Closed u fd # as) = (if m fd = u \<and> u \<noteq> None then explain (m(fd := None)) as else None)"
| "explain m (Request b fd u # as) = (if m fd = u \<and> u \<noteq> None then explain m as else None)"

lemma explain_append: "explain m (as @ bs) = Option.bind (explain m as) (\<lambda>m. explain m bs)"
  by (induction m as rule: explain.induct) (auto simp del: fun_upd_apply)

text \<open>The connections that a table holds.\<close>

definition conns :: "cl_ent list \<Rightarrow> int \<Rightarrow> uid option" where
  "conns cs fd = (if fd < 0 then None else Option.bind (find_fd fd cs) (\<lambda>i. cuid (cs ! i)))"

definition fds :: "cl_ent list \<Rightarrow> int set" where
  "fds cs = {cfd c | c. c \<in> set cs \<and> 0 \<le> cfd c}"

text \<open>A well-formed table: entries are free or hold a descriptor and its user, no descriptor twice.\<close>

definition table :: "cl_ent list \<Rightarrow> bool" where
  "table cs \<longleftrightarrow> (\<forall>i<length cs. cfd (cs ! i) = -1 \<or> 0 \<le> cfd (cs ! i) \<and> cuid (cs ! i) \<noteq> None) \<and>
     (\<forall>i<length cs. \<forall>j<length cs. cfd (cs ! i) = cfd (cs ! j) \<and> 0 \<le> cfd (cs ! i) \<longrightarrow> i = j)"

lemma find_fd_Some: "find_fd fd cs = Some i \<Longrightarrow> i < length cs \<and> cfd (cs ! i) = fd"
  by (induction cs arbitrary: i) (auto split: if_splits)

lemma find_fd_None: "find_fd fd cs = None \<longleftrightarrow> (\<forall>c\<in>set cs. cfd c \<noteq> fd)"
  by (induction cs) auto

lemma find_fd_table:
  assumes "table cs" and "i < length cs" and "cfd (cs ! i) = fd" and "0 \<le> fd"
  shows "find_fd fd cs = Some i"
proof (cases "find_fd fd cs")
  case None
  then show ?thesis using assms(2,3) find_fd_None by (metis nth_mem)
next
  case (Some j)
  then show ?thesis using find_fd_Some [OF Some] assms unfolding table_def by metis
qed

lemma conns_Some:
  assumes "table cs"
  shows "conns cs fd = Some u \<longleftrightarrow> 0 \<le> fd \<and> (\<exists>i<length cs. cfd (cs ! i) = fd \<and> cuid (cs ! i) = Some u)"
proof
  assume "conns cs fd = Some u"
  then show "0 \<le> fd \<and> (\<exists>i<length cs. cfd (cs ! i) = fd \<and> cuid (cs ! i) = Some u)"
    using find_fd_Some by (fastforce simp: conns_def bind_eq_Some_conv split: if_splits)
next
  assume "0 \<le> fd \<and> (\<exists>i<length cs. cfd (cs ! i) = fd \<and> cuid (cs ! i) = Some u)"
  then show "conns cs fd = Some u" using find_fd_table [OF assms] by (auto simp: conns_def)
qed

lemma fds_nth: "fd \<in> fds cs \<longleftrightarrow> 0 \<le> fd \<and> (\<exists>i<length cs. cfd (cs ! i) = fd)"
  by (auto simp: fds_def in_set_conv_nth)

lemma dom_conns:
  assumes "table cs"
  shows "dom (conns cs) = fds cs"
proof -
  have "(\<exists>u. cuid (cs ! i) = Some u) \<longleftrightarrow> 0 \<le> cfd (cs ! i)" if "i < length cs" "0 \<le> cfd (cs ! i)" for i
    using assms that unfolding table_def by force
  then show ?thesis unfolding dom_def set_eq_iff mem_Collect_eq fds_nth not_None_eq conns_Some [OF assms] by blast
qed

lemma map_eqI: "(\<And>x u. f x = Some u \<longleftrightarrow> g x = Some u) \<Longrightarrow> f = g" for f g :: "'a \<Rightarrow> 'b option"
  by (rule ext) (metis not_Some_eq)

lemma table_set:
  assumes "table cs" and "i < length cs" and "cfd (cs ! i) = -1" and "0 \<le> fd" and "fd \<notin> fds cs"
  shows "table (cs[i := \<lparr>cfd = fd, cuid = Some u\<rparr>])" and "conns (cs[i := \<lparr>cfd = fd, cuid = Some u\<rparr>]) = (conns cs)(fd \<mapsto> u)"
    and "fds (cs[i := \<lparr>cfd = fd, cuid = Some u\<rparr>]) = insert fd (fds cs)"
proof -
  let ?c = "cs[i := \<lparr>cfd = fd, cuid = Some u\<rparr>]"
  have nf: "cfd (cs ! j) \<noteq> fd" if "j < length cs" for j using assms(4,5) that by (auto simp: fds_nth)
  show t: "table ?c" unfolding table_def
  proof (intro conjI allI impI)
    fix j
    assume "j < length ?c"
    then show "cfd (?c ! j) = -1 \<or> 0 \<le> cfd (?c ! j) \<and> cuid (?c ! j) \<noteq> None"
      using assms(1,4) unfolding table_def by (cases "j = i") simp_all
  next
    fix j k
    assume "j < length ?c" "k < length ?c" "cfd (?c ! j) = cfd (?c ! k) \<and> 0 \<le> cfd (?c ! j)"
    then show "j = k"
      using assms(1) nf unfolding table_def by (cases "j = i"; cases "k = i") auto
  qed
  show c: "conns ?c = (conns cs)(fd \<mapsto> u)"
  proof (rule map_eqI)
    fix x v
    show "conns ?c x = Some v \<longleftrightarrow> ((conns cs)(fd \<mapsto> u)) x = Some v"
    proof (cases "x = fd")
      case True
      then show ?thesis unfolding conns_Some [OF t] using assms(2,4) nf by (auto simp: nth_list_update)
    next
      case False
      have "(\<exists>j<length ?c. cfd (?c ! j) = x \<and> cuid (?c ! j) = Some v) \<longleftrightarrow> (\<exists>j<length cs. cfd (cs ! j) = x \<and> cuid (cs ! j) = Some v)" if "0 \<le> x"
      proof -
        have "(j < length ?c \<and> cfd (?c ! j) = x \<and> cuid (?c ! j) = Some v) \<longleftrightarrow> (j < length cs \<and> cfd (cs ! j) = x \<and> cuid (cs ! j) = Some v)" for j
          using False assms(3) that by (cases "j = i") auto
        then show ?thesis by blast
      qed
      then show ?thesis using False conns_Some [OF t] conns_Some [OF assms(1)] by auto
    qed
  qed
  from c t assms(1) show "fds ?c = insert fd (fds cs)" by (simp add: dom_conns [symmetric])
qed

lemma table_del:
  assumes "table cs" and "i < length cs" and "cfd (cs ! i) = fd" and "0 \<le> fd"
  shows "client_del fd cs = Some (cs[i := (cs ! i)\<lparr>cfd := -1\<rparr>])" and "table (cs[i := (cs ! i)\<lparr>cfd := -1\<rparr>])"
    and "conns (cs[i := (cs ! i)\<lparr>cfd := -1\<rparr>]) = (conns cs)(fd := None)" and "fds (cs[i := (cs ! i)\<lparr>cfd := -1\<rparr>]) = fds cs - {fd}"
proof -
  let ?c = "cs[i := (cs ! i)\<lparr>cfd := -1\<rparr>]"
  have u: "j = i" if "j < length cs" "cfd (cs ! j) = fd" for j using assms that unfolding table_def by metis
  show "client_del fd cs = Some ?c" using find_fd_table [OF assms] by (simp add: client_del_def)
  show t: "table ?c" unfolding table_def
  proof (intro conjI allI impI)
    fix j
    assume "j < length ?c"
    then show "cfd (?c ! j) = -1 \<or> 0 \<le> cfd (?c ! j) \<and> cuid (?c ! j) \<noteq> None"
      using assms(1) unfolding table_def by (cases "j = i") simp_all
  next
    fix j k
    assume "j < length ?c" "k < length ?c" "cfd (?c ! j) = cfd (?c ! k) \<and> 0 \<le> cfd (?c ! j)"
    then show "j = k"
      using assms(1) unfolding table_def by (cases "j = i"; cases "k = i") auto
  qed
  have e: "(j < length ?c \<and> cfd (?c ! j) = x \<and> P (cuid (?c ! j))) \<longleftrightarrow> (j < length cs \<and> cfd (cs ! j) = x \<and> x \<noteq> fd \<and> P (cuid (cs ! j)))" if "0 \<le> x" for j x P
    using assms(3) that u by (cases "j = i") auto
  show c: "conns ?c = (conns cs)(fd := None)"
  proof (rule map_eqI)
    fix x v
    show "conns ?c x = Some v \<longleftrightarrow> ((conns cs)(fd := None)) x = Some v"
      unfolding conns_Some [OF t] using conns_Some [OF assms(1), of x v] e [of x _ "\<lambda>c. c = Some v"] by auto
  qed
  from c t assms(1) show "fds ?c = fds cs - {fd}" by (simp add: dom_conns [symmetric])
qed

lemma table_grow:
  assumes "table cs"
  shows "table (cs @ replicate n \<lparr>cfd = -1, cuid = None\<rparr>)" and "conns (cs @ replicate n \<lparr>cfd = -1, cuid = None\<rparr>) = conns cs"
    and "fds (cs @ replicate n \<lparr>cfd = -1, cuid = None\<rparr>) = fds cs"
proof -
  let ?c = "cs @ replicate n \<lparr>cfd = -1, cuid = None\<rparr>"
  have old: "j < length cs \<and> ?c ! j = cs ! j" if "j < length ?c" "0 \<le> cfd (?c ! j)" for j
    using that by (auto simp: nth_append split: if_splits)
  show t: "table ?c" unfolding table_def
  proof (intro conjI allI impI)
    fix j
    assume "j < length ?c"
    then show "cfd (?c ! j) = -1 \<or> 0 \<le> cfd (?c ! j) \<and> cuid (?c ! j) \<noteq> None"
      using assms unfolding table_def by (cases "j < length cs") (simp_all add: nth_append)
  next
    fix j k
    assume "j < length ?c" "k < length ?c" "cfd (?c ! j) = cfd (?c ! k) \<and> 0 \<le> cfd (?c ! j)"
    then show "j = k" using assms old [of j] old [of k] unfolding table_def by metis
  qed
  have e: "(\<exists>j<length ?c. cfd (?c ! j) = x \<and> P (cuid (?c ! j))) \<longleftrightarrow> (\<exists>j<length cs. cfd (cs ! j) = x \<and> P (cuid (cs ! j)))" if "0 \<le> x" for x P
  proof
    assume "\<exists>j<length ?c. cfd (?c ! j) = x \<and> P (cuid (?c ! j))"
    then show "\<exists>j<length cs. cfd (cs ! j) = x \<and> P (cuid (cs ! j))" using old that by metis
  next
    assume "\<exists>j<length cs. cfd (cs ! j) = x \<and> P (cuid (cs ! j))"
    then obtain j where "j < length cs" "cfd (cs ! j) = x \<and> P (cuid (cs ! j))" by blast
    then show "\<exists>j<length ?c. cfd (?c ! j) = x \<and> P (cuid (?c ! j))" by (intro exI [of _ j]) (simp add: nth_append)
  qed
  show c: "conns ?c = conns cs"
    by (rule map_eqI) (use conns_Some [OF t] conns_Some [OF assms] e [where P = "\<lambda>c. c = Some v" for v] in blast)
  from c t assms show "fds ?c = fds cs" by (simp add: dom_conns [symmetric])
qed

text \<open>Adding a client: some index, the table with the new connection, and nothing else moved.\<close>

lemma client_add_table:
  assumes "client_add mem fd u cs = Some (i, cs')" and "table cs" and "0 \<le> fd" and "fd \<notin> fds cs"
  shows "table cs' \<and> conns cs' = (conns cs)(fd \<mapsto> u) \<and> fds cs' = insert fd (fds cs) \<and> i < length cs' \<and> length cs \<le> length cs' \<and>
    (\<forall>j<length cs'. 0 \<le> cfd (cs' ! j) \<longrightarrow> j = i \<or> j < length cs \<and> 0 \<le> cfd (cs ! j))"
proof -
  have put: "table (ds[i := \<lparr>cfd = fd, cuid = Some u\<rparr>]) \<and> conns (ds[i := \<lparr>cfd = fd, cuid = Some u\<rparr>]) = (conns cs)(fd \<mapsto> u) \<and>
      fds (ds[i := \<lparr>cfd = fd, cuid = Some u\<rparr>]) = insert fd (fds cs) \<and> i < length ds \<and>
      (\<forall>j<length ds. 0 \<le> cfd (ds[i := \<lparr>cfd = fd, cuid = Some u\<rparr>] ! j) \<longrightarrow> j = i \<or> j < length cs \<and> 0 \<le> cfd (cs ! j))"
    if d: "ds = cs @ replicate n \<lparr>cfd = -1, cuid = None\<rparr>" and f: "find_fd (-1) ds = Some i" for ds n
  proof -
    note g = table_grow [OF assms(2), of n, folded d]
    note i = conjunct1 [OF find_fd_Some [OF f]] conjunct2 [OF find_fd_Some [OF f]]
    have nf: "fd \<notin> fds ds" using assms(4) g(3) by simp
    have "j < length cs \<and> 0 \<le> cfd (cs ! j)" if "j < length ds" "0 \<le> cfd (ds ! j)" for j
      using that unfolding d by (cases "j < length cs") (simp_all add: nth_append)
    then show ?thesis using table_set [OF g(1) i assms(3) nf, of u] g(2,3) i(1) by (auto simp: nth_list_update)
  qed
  have alloc: "client_alloc mem ds = Some es \<longleftrightarrow> mem \<and> es = ds @ replicate NALLOC \<lparr>cfd = -1, cuid = None\<rparr>" for ds es
    by (auto simp: client_alloc_def)
  obtain n ds where d: "ds = cs @ replicate n \<lparr>cfd = -1, cuid = None\<rparr>" "find_fd (-1) ds = Some i" "cs' = ds[i := \<lparr>cfd = fd, cuid = Some u\<rparr>]"
  proof (cases "cs = []")
    case True
    obtain ds where ds: "client_alloc mem cs = Some ds" using assms(1) True by (auto simp: client_add_def split: option.splits)
    have "find_fd (-1) ds = Some 0" using ds by (auto simp: alloc True NALLOC_def numeral_eq_Suc)
    then have "find_fd (-1) ds = Some i" "cs' = ds[i := \<lparr>cfd = fd, cuid = Some u\<rparr>]" using ds assms(1) True by (simp_all add: client_add_def)
    moreover have "ds = cs @ replicate NALLOC \<lparr>cfd = -1, cuid = None\<rparr>" using ds alloc by blast
    ultimately show thesis using that by blast
  next
    case False
    show thesis
    proof (cases "find_fd (-1) cs")
      case None
      then show thesis using assms(1) False that [of _ NALLOC] by (auto simp: client_add_def alloc split: option.splits)
    next
      case (Some k)
      then show thesis using assms(1) False that [of cs 0] by (auto simp: client_add_def split: option.splits)
    qed
  qed
  have "length cs \<le> length ds" using d(1) by simp
  then show ?thesis using put [OF d(1,2)] unfolding d(3) by simp
qed

subsection \<open>The select loop\<close>

fun act_fd :: "act \<Rightarrow> int" where
  "act_fd (Connected u fd) = fd" | "act_fd (Closed u fd) = fd" | "act_fd (Request b fd u) = fd"

definition sel_inv :: "sel_loop \<Rightarrow> bool" where
  "sel_inv s \<longleftrightarrow> table (clients s) \<and> 0 \<le> listenfd s \<and> listenfd s \<notin> fds (clients s) \<and>
     allset s = insert (listenfd s) (fds (clients s)) \<and> (\<forall>fd\<in>allset s. fd \<le> maxfd s \<and> fd < FD_SETSIZE) \<and>
     (\<forall>i<length (clients s). 0 \<le> cfd (clients s ! i) \<longrightarrow> int i \<le> maxi s) \<and> maxi s < int (length (clients s)) \<and>
     explain Map.empty (acts s) = Some (conns (clients s))"

lemma sel_inv_init: "0 \<le> lfd \<Longrightarrow> lfd < FD_SETSIZE \<Longrightarrow> sel_inv (sel_init lfd)"
  by (auto simp: sel_inv_def sel_init_def table_def fds_def conns_def)

text \<open>The scan: which descriptors it serves, in which order.\<close>

definition served :: "int set \<Rightarrow> nat \<Rightarrow> cl_ent list \<Rightarrow> int list" where
  "served rset i cs = filter (\<lambda>fd. 0 \<le> fd \<and> fd \<in> rset) (map cfd (drop i cs))"

lemma served_step:
  assumes "i < length cs"
  shows "served rset i cs = (if 0 \<le> cfd (cs ! i) \<and> cfd (cs ! i) \<in> rset then [cfd (cs ! i)] else []) @ served rset (i + 1) cs"
  using assms by (simp add: served_def Cons_nth_drop_Suc [symmetric])

lemma served_end: "\<forall>j<length cs. 0 \<le> cfd (cs ! j) \<longrightarrow> j < i \<Longrightarrow> served rset i cs = []"
proof -
  assume a: "\<forall>j<length cs. 0 \<le> cfd (cs ! j) \<longrightarrow> j < i"
  have "\<not> 0 \<le> cfd c" if c: "c \<in> set (drop i cs)" for c
  proof -
    obtain k where k: "k < length cs - i" "c = cs ! (i + k)" using c by (auto simp: in_set_conv_nth)
    then have "i + k < length cs" by linarith
    then show ?thesis using a [rule_format, of "i + k"] k(2) by auto
  qed
  then show ?thesis by (auto simp: served_def filter_empty_conv)
qed

lemma sel_scan_inv:
  assumes "sel_inv s" and "sel_scan rd rset i s = (r, s')" and "listenfd s \<notin> rset"
  shows "sel_inv s' \<and> listenfd s' = listenfd s \<and> (r = Inr () \<or> r = Inl LogSys) \<and>
    (r = Inr () \<longrightarrow> (\<exists>as. acts s' = acts s @ as \<and> map act_fd as = served rset i (clients s)))"
  using assms
proof (induction rd rset i s rule: sel_scan.induct)
  case (1 rd rset i s)
  show ?case
  proof (cases "maxi s < int i")
    case True
    then have "\<forall>j<length (clients s). 0 \<le> cfd (clients s ! j) \<longrightarrow> j < i" using "1.prems"(1) by (fastforce simp: sel_inv_def)
    then show ?thesis using True "1.prems" served_end by (auto simp: sel_scan.simps [of rd rset i s])
  next
    case le: False
    then have il: "i < length (clients s)" using "1.prems"(1) by (simp add: sel_inv_def)
    let ?c = "clients s ! i"
    let ?fd = "cfd ?c"
    note sv = served_step [OF il, of rset]
    show ?thesis
    proof (cases "?fd < 0 \<or> ?fd \<notin> rset")
      case True
      have "sel_scan rd rset (i + 1) s = (r, s')" using "1.prems"(2) le il True by (simp add: sel_scan.simps [of rd rset i s])
      then show ?thesis using "1.IH"(1) [OF le _ refl refl True] il "1.prems"(1,3) sv True by auto
    next
      case use: False
      have fd: "0 \<le> ?fd" "?fd \<in> rset" "?fd \<noteq> listenfd s" using use "1.prems"(3) by auto
      have t: "table (clients s)" and ex: "explain Map.empty (acts s) = Some (conns (clients s))" using "1.prems"(1) by (simp_all add: sel_inv_def)
      have cu: "conns (clients s) ?fd = cuid ?c" "cuid ?c \<noteq> None"
        using find_fd_table [OF t il refl fd(1)] fd(1) il t unfolding table_def conns_def by fastforce+
      show ?thesis
      proof (cases "rd ?fd")
        case ReadError
        then show ?thesis using "1.prems" le il use by (auto simp: sel_scan.simps [of rd rset i s])
      next
        case ReadEof
        note d = table_del [OF t il refl fd(1)]
        let ?cs = "(clients s)[i := ?c\<lparr>cfd := -1\<rparr>]"
        let ?s1 = "s\<lparr>clients := ?cs, allset := allset s - {?fd}, acts := acts s @ [Closed (cuid ?c) ?fd]\<rparr>"
        have idx: "\<forall>j<length ?cs. 0 \<le> cfd (?cs ! j) \<longrightarrow> int j \<le> maxi s" 
        proof (intro allI impI)
          fix j
          assume "j < length ?cs" "0 \<le> cfd (?cs ! j)"
          then show "int j \<le> maxi s" using "1.prems"(1) unfolding sel_inv_def by (cases "j = i") simp_all
        qed
        have inv: "sel_inv ?s1" using "1.prems"(1) d(2-4) fd(3) cu ex idx unfolding sel_inv_def by (auto simp: explain_append)
        have "sel_scan rd rset (i + 1) ?s1 = (r, s')" using "1.prems"(2) le il use ReadEof d(1) by (simp add: sel_scan.simps [of rd rset i s] Let_def)
        moreover have "served rset (i + 1) ?cs = served rset (i + 1) (clients s)" by (simp add: served_def)
        ultimately show ?thesis using "1.IH"(2) [OF le _ refl refl use ReadEof d(1) inv] il "1.prems"(3) sv fd by auto
      next
        case (ReadData b)
        let ?s1 = "s\<lparr>acts := acts s @ [Request b ?fd (cuid ?c)]\<rparr>"
        have inv: "sel_inv ?s1" using "1.prems"(1) cu ex by (auto simp: sel_inv_def explain_append)
        have "sel_scan rd rset (i + 1) ?s1 = (r, s')" using "1.prems"(2) le il use ReadData by (simp add: sel_scan.simps [of rd rset i s] Let_def)
        then show ?thesis using "1.IH"(3) [OF le _ refl refl use ReadData inv] il "1.prems"(3) sv fd by auto
      qed
    qed
  qed
qed

text \<open>The states that rounds reach: an accepted connection has a descriptor that is not in use.\<close>

inductive sel_run :: "int \<Rightarrow> sel_loop \<Rightarrow> bool" for lfd where
  start: "sel_run lfd (sel_init lfd)"
| round: "sel_run lfd s \<Longrightarrow> sel_round ready acc mem rd s = (Inr (), s') \<Longrightarrow>
    (\<And>fd u. acc = Some (fd, u) \<Longrightarrow> 0 \<le> fd \<and> fd \<notin> allset s) \<Longrightarrow> sel_run lfd s'"

lemma sel_round_inv:
  assumes "sel_inv s" and "sel_round ready acc mem rd s = (r, s')" and "\<And>fd u. acc = Some (fd, u) \<Longrightarrow> 0 \<le> fd \<and> fd \<notin> allset s"
  shows "(r = Inr () \<longrightarrow> sel_inv s' \<and> listenfd s' = listenfd s) \<and> r \<noteq> Inl LogQuit \<and> r \<noteq> Inl OutOfTable \<and>
    (r = Inl FdSetOverrun \<longleftrightarrow> listenfd s \<in> ready \<and> (\<exists>fd u. acc = Some (fd, u) \<and> FD_SETSIZE \<le> fd \<and> client_add mem fd u (clients s) \<noteq> None)) \<and>
    (listenfd s \<notin> ready \<and> r = Inr () \<longrightarrow> (\<exists>as. acts s' = acts s @ as \<and> map act_fd as = served ready 0 (clients s)))"
proof (cases "listenfd s \<in> ready")
  case True
  then have l: "listenfd s \<in> {fd \<in> ready. fd \<in> allset s \<and> fd \<le> maxfd s}" using assms(1) by (auto simp: sel_inv_def)
  show ?thesis
  proof (cases acc)
    case None
    then show ?thesis using assms l True by (auto simp: sel_round_def)
  next
    case (Some a)
    obtain fd u where a: "a = (fd, u)" by (cases a)
    have fd: "0 \<le> fd" "fd \<notin> allset s" using assms(3) Some a by blast+
    show ?thesis
    proof (cases "client_add mem fd u (clients s)")
      case None
      then show ?thesis using assms l True Some a by (auto simp: sel_round_def)
    next
      case (Some q)
      obtain i cs where q: "q = (i, cs)" by (cases q)
      have t: "table (clients s)" and nf: "fd \<notin> fds (clients s)" "fd \<noteq> listenfd s" using assms(1) fd by (auto simp: sel_inv_def)
      note ad = client_add_table [OF Some [unfolded q] t fd(1) nf(1)]
      let ?s = "s\<lparr>clients := cs, allset := insert fd (allset s), maxfd := (if maxfd s < fd then fd else maxfd s),
        maxi := (if maxi s < int i then int i else maxi s), acts := acts s @ [Connected u fd]\<rparr>"
      show ?thesis
      proof (cases "FD_SETSIZE \<le> fd")
        case True
        then have "r = Inl FdSetOverrun" using assms(2) l \<open>acc = Some a\<close> a Some q by (simp add: sel_round_def)
        then show ?thesis using \<open>acc = Some a\<close> a True Some \<open>listenfd s \<in> ready\<close> by auto
      next
        case small: False
        have st: "r = Inr ()" "s' = ?s" using assms(2) l \<open>acc = Some a\<close> a Some q small by (simp_all add: sel_round_def)
        have c: "conns (clients s) fd = None" using dom_conns [OF t] nf(1) by blast
        have ix: "\<forall>j<length cs. 0 \<le> cfd (cs ! j) \<longrightarrow> int j \<le> maxi ?s"
          using ad assms(1) by (auto simp: sel_inv_def)
        have mx: "\<forall>x\<in>insert fd (allset s). x \<le> maxfd ?s \<and> x < FD_SETSIZE" using assms(1) small by (force simp: sel_inv_def)
        have "sel_inv ?s" using assms(1) ad c nf(2) ix mx unfolding sel_inv_def by (auto simp: explain_append)
        then show ?thesis using st True small \<open>acc = Some a\<close> a by simp
      qed
    qed
  qed
next
  case False
  let ?r = "{fd \<in> ready. fd \<in> allset s \<and> fd \<le> maxfd s}"
  have sc: "sel_scan rd ?r 0 s = (r, s')" using assms(2) False by (simp add: sel_round_def)
  have "served ?r 0 (clients s) = served ready 0 (clients s)"
    using assms(1) unfolding served_def by (intro filter_cong) (auto simp: sel_inv_def fds_def)
  then show ?thesis using sel_scan_inv [OF assms(1) sc] False by auto
qed

lemma sel_run_inv: "sel_run lfd s \<Longrightarrow> 0 \<le> lfd \<Longrightarrow> lfd < FD_SETSIZE \<Longrightarrow> sel_inv s \<and> listenfd s = lfd"
  by (induction rule: sel_run.induct) (use sel_inv_init sel_round_inv in \<open>auto simp: sel_init_def\<close>)

subsection \<open>The properties\<close>

text \<open>
  C25. The select loop refines the table of connections: after any rounds the recorded calls are a run of
  the specification, every request and close with the user that opened the connection; the
  watched descriptors are the open connections and the listening one, all within an \<open>fd_set\<close>; and a further round never stops for a missing
  table entry and, unless it accepts, serves exactly the ready clients once, in table order. It writes outside its \<open>fd_set\<close> exactly when it has
  accepted and entered a client whose descriptor is not below \<open>FD_SETSIZE\<close>: nothing else bounds the number of clients.
\<close>

theorem select_loop_refines:
  assumes "sel_run lfd s" and "0 \<le> lfd" and "lfd < FD_SETSIZE" and "\<And>fd u. acc = Some (fd, u) \<Longrightarrow> 0 \<le> fd \<and> fd \<notin> allset s"
  shows "explain Map.empty (acts s) = Some (conns (clients s)) \<and> allset s = insert lfd (dom (conns (clients s))) \<and>
    (\<forall>fd\<in>allset s. 0 \<le> fd \<and> fd < FD_SETSIZE) \<and>
    fst (sel_round ready acc mem rd s) \<noteq> Inl LogQuit \<and> fst (sel_round ready acc mem rd s) \<noteq> Inl OutOfTable \<and>
    (fst (sel_round ready acc mem rd s) = Inl FdSetOverrun \<longleftrightarrow>
      lfd \<in> ready \<and> (\<exists>fd u. acc = Some (fd, u) \<and> FD_SETSIZE \<le> fd \<and> client_add mem fd u (clients s) \<noteq> None)) \<and>
    (lfd \<notin> ready \<and> fst (sel_round ready acc mem rd s) = Inr () \<longrightarrow>
      (\<exists>as. acts (snd (sel_round ready acc mem rd s)) = acts s @ as \<and> map act_fd as = served ready 0 (clients s)))"
proof -
  obtain r s' where rs: "sel_round ready acc mem rd s = (r, s')" by fastforce
  have i: "sel_inv s" "listenfd s = lfd" using sel_run_inv [OF assms(1-3)] by blast+
  have "\<forall>fd\<in>fds (clients s). 0 \<le> fd" by (auto simp: fds_def)
  then show ?thesis using i sel_round_inv [OF i(1) rs assms(4)] rs assms(2) dom_conns [of "clients s"] unfolding sel_inv_def by auto
qed

theorem select_loop_refines_witness:
  "explain Map.empty (acts (snd (sel_round {3} (Some (4, 100)) True (\<lambda>_. ReadEof) (sel_init 3)))) =
     Some (conns (clients (snd (sel_round {3} (Some (4, 100)) True (\<lambda>_. ReadEof) (sel_init 3)))))"
proof -
  have r: "sel_round {3} (Some (4, 100)) True (\<lambda>_. ReadEof) (sel_init 3) = (Inr (), snd (sel_round {3} (Some (4, 100)) True (\<lambda>_. ReadEof) (sel_init 3)))"
    by (simp add: sel_round_def sel_init_def client_add_def client_alloc_def NALLOC_def FD_SETSIZE_def replicate_Suc [of 9, simplified])
  have "sel_run 3 (snd (sel_round {3} (Some (4, 100)) True (\<lambda>_. ReadEof) (sel_init 3)))"
    by (rule sel_run.round [OF sel_run.start r]) (auto simp: sel_init_def)
  then show ?thesis
    by (rule conjunct1 [OF select_loop_refines [where acc = None]]) (simp_all add: FD_SETSIZE_def)
qed

text \<open>
  C26. The poll loop does not: it reads the user of the connection from the table at the index in its own array, and
  packs only that array. When the first of three clients has closed its connection, a request of
  the third is passed on with the user number of the first.
\<close>

theorem poll_loop_wrong_user:
  assumes "distinct [l, a, b, c]" and "0 \<le> l" and "0 \<le> a" and "0 \<le> b" and "0 \<le> c"
  shows "\<exists>s0 s1 s2 s3 s4 s5. poll_init True l = Some s0 \<and>
    poll_round (\<lambda>fd. (fd = l, False)) (Some (a, ua)) True rd s0 = (Inr (), s1) \<and>
    poll_round (\<lambda>fd. (fd = l, False)) (Some (b, ub)) True rd s1 = (Inr (), s2) \<and>
    poll_round (\<lambda>fd. (fd = l, False)) (Some (c, uc)) True rd s2 = (Inr (), s3) \<and>
    poll_round (\<lambda>fd. (fd = a, False)) None True (\<lambda>_. ReadEof) s3 = (Inr (), s4) \<and>
    poll_round (\<lambda>fd. (fd = c, False)) None True (\<lambda>_. ReadData d) s4 = (Inr (), s5) \<and>
    p_acts s5 = [Connected ua a, Connected ub b, Connected uc c, Closed (Some ua) a, Request d c (Some ua)]"
proof -
  show ?thesis
    using assms by (simp add: poll_init_def client_alloc_def NALLOC_def poll_round_def poll_report_def client_add_def client_del_def Let_def
      poll_scan.simps numeral_eq_Suc)
qed

theorem poll_loop_wrong_user_witness:
  "\<exists>s5 :: poll_loop. p_acts s5 = [Connected 100 4, Connected 200 5, Connected 300 6, Closed (Some 100) 4, Request ''open f 0'' 6 (Some 100)] \<and>
     explain Map.empty (p_acts s5) = None"
proof -
  have "distinct [3, 4, 5, 6 :: int]" by simp
  from poll_loop_wrong_user [OF this, of 100 "\<lambda>_. ReadEof" 200 300 "''open f 0''"] obtain s5 :: poll_loop where
    "p_acts s5 = [Connected 100 4, Connected 200 5, Connected 300 6, Closed (Some 100) 4, Request ''open f 0'' 6 (Some 100)]" by auto
  then show ?thesis by (intro exI [of _ s5]) simp
qed

end
