(* ===== verification/FdPass.thy ===== *)
theory FdPass
  imports RobustIO WireFormat
begin

section \<open>Passing descriptors and argument buffers (lib/bufargs.c, sendfd.c, recvfd.c, senderr.c)\<close>

text \<open>
  A stream socket between two processes is a list of segments: the bytes of one \<open>write\<close> or
  \<open>sendmsg\<close> and the open file that travels with them. \<open>recvmsg\<close> glues as many whole
  segments as its plan allows, cuts them at the size of the buffer and stops after a segment
  with a descriptor, which it installs at the lowest free number of the receiving process.
  The two plans (\<open>txplan\<close>, \<open>rxplan\<close>) say which system calls fail or are short, and
  \<open>mallocs\<close> which allocations fail; an empty plan is a system without faults.
\<close>

definition CMSG_LEN :: "nat \<Rightarrow> nat" where "CMSG_LEN n = 16 + n"
definition CONTROLLEN :: nat where "CONTROLLEN = CMSG_LEN 4"

record ofile =
  of_path :: string
  of_flags :: int

record seg =
  seg_bytes :: string
  seg_file :: "ofile option"

type_synonym fdtab = "ofile option list"

text \<open>The descriptor table of a process: \<open>open\<close> and \<open>recvmsg\<close> use the lowest free number.\<close>

definition fd_install :: "ofile \<Rightarrow> fdtab \<Rightarrow> nat \<times> fdtab" where
  "fd_install f t =
     (let n = length (takeWhile (\<lambda>e. e \<noteq> None) t)
      in (n, if n < length t then t[n := Some f] else t @ [Some f]))"

definition fd_lookup :: "fdtab \<Rightarrow> int \<Rightarrow> ofile option" where
  "fd_lookup t fd = (if 0 \<le> fd \<and> nat fd < length t then t ! nat fd else None)"

definition fd_close :: "nat \<Rightarrow> fdtab \<Rightarrow> fdtab" where
  "fd_close fd t = t[fd := None]"

subsection \<open>Sending\<close>

record sender =
  tx_fds :: fdtab
  tx_cmptr :: bool
  tx_mallocs :: "bool list"
  tx_segs :: "seg list"
  txplan :: "nat option list"

definition tx_malloc :: "'a sender_scheme \<Rightarrow> bool \<times> 'a sender_scheme" where
  "tx_malloc s = (case tx_mallocs s of [] \<Rightarrow> (True, s) | b # bs \<Rightarrow> (b, s\<lparr>tx_mallocs := bs\<rparr>))"

text \<open>\<open>write\<close> and \<open>sendmsg\<close> on the socket: the number of bytes taken, or an error.\<close>

definition sock_send :: "ofile option \<Rightarrow> string \<Rightarrow> 'a sender_scheme \<Rightarrow> nat option \<times> 'a sender_scheme" where
  "sock_send f bs s =
     (case txplan s of
        [] \<Rightarrow> (Some (length bs), s\<lparr>tx_segs := tx_segs s @ [\<lparr>seg_bytes = bs, seg_file = f\<rparr>]\<rparr>)
      | None # ps \<Rightarrow> (None, s\<lparr>txplan := ps\<rparr>)
      | Some k # ps \<Rightarrow>
          let m = min k (length bs)
          in (Some m, if m = 0 then s\<lparr>txplan := ps\<rparr>
                      else s\<lparr>txplan := ps, tx_segs := tx_segs s @ [\<lparr>seg_bytes = take m bs, seg_file = f\<rparr>]\<rparr>))"

definition send_fd :: "int \<Rightarrow> 'a sender_scheme \<Rightarrow> int \<times> 'a sender_scheme" where
  "send_fd fd_to_send s =
     (if fd_to_send < 0 then
        let b = byte (nat (- fd_to_send mod 256));
            b = (if b = NUL then byte 1 else b);
            (n, s) = sock_send None [NUL, b] s
        in (if n \<noteq> Some 2 then -1 else 0, s)
      else
        let (ok, s) = (if tx_cmptr s then (True, s) else tx_malloc s)
        in if \<not> ok then (-1, s)
           else let s = s\<lparr>tx_cmptr := True\<rparr> in
                case fd_lookup (tx_fds s) fd_to_send of
                  None \<Rightarrow> (-1, s)
                | Some f \<Rightarrow>
                    let (n, s) = sock_send (Some f) [NUL, NUL] s
                    in (if n \<noteq> Some 2 then -1 else 0, s))"

text \<open>\<open>writen\<close> on the socket is the loop of the library over \<open>sock_send\<close>.\<close>

definition sock_writen :: "string \<Rightarrow> 'a sender_scheme \<Rightarrow> int \<times> 'a sender_scheme" where
  "sock_writen data s = writen_loop (sock_send None) (length data) data s"

definition send_err :: "int \<Rightarrow> string \<Rightarrow> 'a sender_scheme \<Rightarrow> int \<times> 'a sender_scheme" where
  "send_err errcode msg s =
     (let (w, s) = (if 0 < length msg then sock_writen msg s else (0, s))
      in if 0 < length msg \<and> w \<noteq> int (length msg) then (-1, s)
         else let errcode = (if 0 \<le> errcode then -1 else errcode);
                  (r, s) = send_fd errcode s
              in (if r < 0 then -1 else 0, s))"

subsection \<open>Receiving\<close>

datatype fd_stop = Dump string

record 'u receiver =
  rx_fds :: fdtab
  rx_cmptr :: bool
  rx_mallocs :: "bool list"
  rx_segs :: "seg list"
  rxplan :: "nat option list"
  user :: 'u

text \<open>
  \<open>gather k n gs\<close>: at most \<open>k + 1\<close> segments and \<open>n\<close> bytes from the front of the stream.
\<close>

fun gather :: "nat \<Rightarrow> nat \<Rightarrow> seg list \<Rightarrow> string \<times> ofile option \<times> seg list" where
  "gather k n [] = ([], None, [])"
| "gather k n (g # gs) =
     (if n < length (seg_bytes g) then
        (take n (seg_bytes g), seg_file g, \<lparr>seg_bytes = drop n (seg_bytes g), seg_file = None\<rparr> # gs)
      else if k = 0 \<or> seg_file g \<noteq> None then (seg_bytes g, seg_file g, gs)
      else let (b, f, r) = gather (k - 1) (n - length (seg_bytes g)) gs in (seg_bytes g @ b, f, r))"

definition recvmsg :: "nat \<Rightarrow> ('u, 'a) receiver_scheme \<Rightarrow> (string \<times> nat option) option \<times> ('u, 'a) receiver_scheme" where
  "recvmsg n s =
     (let (p, s) = (case rxplan s of [] \<Rightarrow> (Some (length (rx_segs s)), s) | p # ps \<Rightarrow> (p, s\<lparr>rxplan := ps\<rparr>))
      in case p of
           None \<Rightarrow> (None, s)
         | Some k \<Rightarrow>
             let (b, f, r) = gather k n (rx_segs s); s = s\<lparr>rx_segs := r\<rparr>
             in case f of
                  None \<Rightarrow> (Some (b, None), s)
                | Some f \<Rightarrow> let (fd, t) = fd_install f (rx_fds s) in (Some (b, Some fd), s\<lparr>rx_fds := t\<rparr>))"

definition controllen :: "nat option \<Rightarrow> nat" where
  "controllen c = (case c of None \<Rightarrow> 0 | Some _ \<Rightarrow> CMSG_LEN 4)"

definition rx_malloc :: "('u, 'a) receiver_scheme \<Rightarrow> bool \<times> ('u, 'a) receiver_scheme" where
  "rx_malloc s = (case rx_mallocs s of [] \<Rightarrow> (True, s) | b # bs \<Rightarrow> (b, s\<lparr>rx_mallocs := bs\<rparr>))"

text \<open>
  The inner loop of \<open>recv_fd\<close> over the buffer: \<open>ptr\<close> and \<open>nr\<close> as in the code, the
  result is \<open>nr\<close>, \<open>status\<close> and \<open>newfd\<close>.
\<close>

function scan_final :: "nat option \<Rightarrow> string \<Rightarrow> nat \<Rightarrow> nat \<Rightarrow> int \<Rightarrow> int \<Rightarrow> fd_stop + (nat \<times> int \<times> int)" where
  "scan_final c buf ptr nr status newfd =
     (if nr \<le> ptr then Inr (nr, status, newfd)
      else if buf ! ptr \<noteq> NUL then scan_final c buf (ptr + 1) nr status newfd
      else if ptr + 1 \<noteq> nr - 1 then Inl (Dump ''message format error'')
      else let status = of_char (buf ! (ptr + 1))
           in if status = 0 then
                (if controllen c < CONTROLLEN then Inl (Dump ''status = 0 but no fd'')
                 else scan_final c buf (ptr + 1) (nr - 2) status (case c of None \<Rightarrow> newfd | Some fd \<Rightarrow> int fd))
              else scan_final c buf (ptr + 1) (nr - 2) status (- status))"
  by pat_completeness auto
termination
  by (relation "measure (\<lambda>(c, buf, ptr, nr, status, newfd). nr - ptr)") auto

declare scan_final.simps [simp del]

definition rx_total :: "('u, 'a) receiver_scheme \<Rightarrow> nat" where
  "rx_total s = length (concat (map seg_bytes (rx_segs s)))"

lemma gather_total:
  "gather k n gs = (b, f, r) \<Longrightarrow> concat (map seg_bytes gs) = b @ concat (map seg_bytes r)"
  by (induction k n gs arbitrary: b f r rule: gather.induct) (auto split: if_splits prod.splits)

lemma recvmsg_total:
  assumes "recvmsg n s = (Some (b, c), s')"
  shows "rx_total s = length b + rx_total s'"
proof -
  have "\<exists>k f. gather k n (rx_segs s) = (b, f, rx_segs s')"
    using assms by (auto simp: recvmsg_def Let_def split: list.splits option.splits prod.splits) blast+
  then show ?thesis using gather_total by (fastforce simp: rx_total_def)
qed

lemma rx_malloc_segs: "rx_malloc s = (b, s') \<Longrightarrow> rx_segs s' = rx_segs s"
  by (auto simp: rx_malloc_def split: list.splits)

text \<open>
  \<open>recv_fd\<close>: \<open>userfunc\<close> is called with the bytes before the final two and returns how many it
  took; \<open>newfd\<close> has an arbitrary value until the final message sets it.
\<close>

function recv_loop :: "(string \<Rightarrow> 'u \<Rightarrow> int \<times> 'u) \<Rightarrow> int \<Rightarrow> int \<Rightarrow> ('u, 'a) receiver_scheme \<Rightarrow>
    (fd_stop + int) \<times> ('u, 'a) receiver_scheme" where
  "recv_loop userfunc status newfd s =
     (let (ok, s) = (if rx_cmptr s then (True, s) else rx_malloc s)
      in if \<not> ok then (Inr (-1), s)
         else case recvmsg MAXLINE (s\<lparr>rx_cmptr := True\<rparr>) of
           (None, s) \<Rightarrow> (Inr (-1), s)
         | (Some (buf, c), s) \<Rightarrow>
             if buf = [] then (Inr (-1), s)
             else case scan_final c buf 0 (length buf) status newfd of
               Inl e \<Rightarrow> (Inl e, s)
             | Inr (nr, status, newfd) \<Rightarrow>
                 let (w, u) = (if 0 < nr then userfunc (take nr buf) (user s) else (0, user s));
                     s = s\<lparr>user := u\<rparr>
                 in if 0 < nr \<and> w \<noteq> int nr then (Inr (-1), s)
                    else if 0 \<le> status then (Inr newfd, s)
                    else recv_loop userfunc status newfd s)"
  by pat_completeness auto
termination
proof (relation "measure (\<lambda>(userfunc, status, newfd, s). rx_total s)", goal_cases)
  case 1
  then show ?case by simp
next
  case (2 userfunc status newfd s x ok s0 xb s1 x2 buf c b nr yc st nf xf w u s2)
  have "rx_segs s0 = rx_segs s" using 2(1,2) rx_malloc_segs [of s ok s0] by (auto split: if_splits)
  moreover have "rx_total (s0\<lparr>rx_cmptr := True\<rparr>) = length buf + rx_total s1"
    using 2(4,5,6) recvmsg_total by metis
  moreover have "rx_total s2 = rx_total s1" using 2(13) by (simp add: rx_total_def)
  ultimately show ?case using 2(7) by (simp add: rx_total_def)
qed

declare recv_loop.simps [simp del]

definition recv_fd :: "(string \<Rightarrow> 'u \<Rightarrow> int \<times> 'u) \<Rightarrow> int \<Rightarrow> ('u, 'a) receiver_scheme \<Rightarrow>
    (fd_stop + int) \<times> ('u, 'a) receiver_scheme" where
  "recv_fd userfunc newfd s = recv_loop userfunc (-1) newfd s"

subsection \<open>What arrives\<close>

text \<open>The text of a message: non-empty segments without descriptors or null bytes.\<close>

definition texts :: "seg list \<Rightarrow> bool" where
  "texts ts \<longleftrightarrow> (\<forall>t\<in>set ts. seg_file t = None \<and> seg_bytes t \<noteq> [] \<and> nonul (seg_bytes t))"

abbreviation bytes_of :: "seg list \<Rightarrow> string" where
  "bytes_of ts \<equiv> concat (map seg_bytes ts)"

lemma texts_simps [simp]:
  "texts []" "texts (t # ts) \<longleftrightarrow> seg_file t = None \<and> seg_bytes t \<noteq> [] \<and> nonul (seg_bytes t) \<and> texts ts"
  "texts (ts @ us) \<longleftrightarrow> texts ts \<and> texts us"
  by (auto simp: texts_def)

lemma texts_take_drop: "texts ts \<Longrightarrow> texts (take n ts) \<and> texts (drop n ts)"
  by (auto simp: texts_def dest: in_set_takeD in_set_dropD)

lemma nonul_texts: "texts ts \<Longrightarrow> nonul (bytes_of ts)"
  by (induction ts) auto

lemma gather_part:
  assumes "texts ts" and "k < length ts" and "length (bytes_of ts) \<le> n"
  shows "gather k n (ts @ gs) = (bytes_of (take (Suc k) ts), None, drop (Suc k) ts @ gs)"
  using assms
proof (induction ts arbitrary: k n)
  case (Cons t ts)
  then show ?case by (cases k) auto
qed simp

lemma gather_whole:
  assumes "texts ts" and "length ts \<le> k" and "length (bytes_of ts) + 2 \<le> n"
  shows "gather k n (ts @ [\<lparr>seg_bytes = [NUL, b], seg_file = f\<rparr>]) = (bytes_of ts @ [NUL, b], f, [])"
  using assms
proof (induction ts arbitrary: k n)
  case Nil
  then show ?case by (cases k) auto
next
  case (Cons t ts)
  then show ?case by (cases k) auto
qed

lemma scan_text:
  assumes "nonul xs" and "i \<le> length xs" and "length xs \<le> nr"
  shows "scan_final c (xs @ ys) i nr st nf = scan_final c (xs @ ys) (length xs) nr st nf"
  using assms(2)
proof (induction "length xs - i" arbitrary: i)
  case (Suc k)
  then have i: "i < length xs" by simp
  then have "(xs @ ys) ! i \<noteq> NUL" using assms(1) by (auto simp: nth_append nonul_def in_set_conv_nth)
  then show ?case using Suc i assms(3) by (simp add: scan_final.simps [of c "xs @ ys" i])
qed simp

lemma scan_no_final: "nonul xs \<Longrightarrow> scan_final c xs 0 (length xs) st nf = Inr (length xs, st, nf)"
  using scan_text [of xs 0 "length xs" c "[]"] by (simp add: scan_final.simps [of c xs "length xs"])

lemma scan_with_final:
  assumes "nonul xs" and "b = NUL \<Longrightarrow> c \<noteq> None"
  shows "scan_final c (xs @ [NUL, b]) 0 (length (xs @ [NUL, b])) st nf =
    Inr (length xs, of_char b, if b = NUL then int (the c) else - of_char b)"
proof -
  have [simp]: "scan_final c ys (Suc (length xs)) (length xs) st' nf' = Inr (length xs, st', nf')" for c ys st' nf'
    by (simp add: scan_final.simps [of c ys "Suc (length xs)"])
  have z: "(of_char b :: int) = 0 \<longleftrightarrow> b = NUL" using of_char_eq_iff [of b NUL, where ?'a = int] by simp
  show ?thesis
    using scan_text [of xs 0 "length (xs @ [NUL, b])" c "[NUL, b]" st nf] assms
    by (auto simp: scan_final.simps [of c "xs @ [NUL, b]" "length xs"] nth_append Let_def z controllen_def CONTROLLEN_def split: option.splits)
qed

text \<open>The plain user function: all bytes go to the standard error of the process.\<close>

definition stderr_write :: "string \<Rightarrow> string \<Rightarrow> int \<times> string" where
  "stderr_write bs u = (int (length bs), u @ bs)"

definition rx_ok :: "('u, 'a) receiver_scheme \<Rightarrow> bool" where
  "rx_ok s \<longleftrightarrow> None \<notin> set (rxplan s) \<and> rx_mallocs s = []"

text \<open>The final message: an error status, or a zero status with a file.\<close>

definition final_ok :: "char \<Rightarrow> ofile option \<Rightarrow> bool" where
  "final_ok b f \<longleftrightarrow> (b = NUL \<longleftrightarrow> f \<noteq> None)"

definition arrived :: "ofile option \<Rightarrow> char \<Rightarrow> int \<Rightarrow> fdtab \<Rightarrow> fdtab \<Rightarrow> bool" where
  "arrived f b r t t' \<longleftrightarrow>
     (case f of None \<Rightarrow> r = - of_char b \<and> t' = t
      | Some x \<Rightarrow> 0 \<le> r \<and> fd_lookup t r = None \<and> (\<forall>n. fd_lookup t' n = (if n = r then Some x else fd_lookup t n)))"

lemma fd_install_lookup:
  assumes "fd_install x t = (n, t')"
  shows "fd_lookup t (int n) = None \<and> fd_lookup t' m = (if m = int n then Some x else fd_lookup t m)"
proof -
  let ?n = "length (takeWhile (\<lambda>e. e \<noteq> None) t)"
  have n: "n = ?n" and t': "t' = (if ?n < length t then t[?n := Some x] else t @ [Some x])"
    using assms unfolding fd_install_def Let_def prod.inject by (blast, blast)
  have free: "?n < length t \<Longrightarrow> t ! ?n = None" using nth_length_takeWhile [of "\<lambda>e. e \<noteq> None" t] by simp
  have le: "?n \<le> length t" by (rule length_takeWhile_le)
  show ?thesis
  proof (cases "?n < length t")
    case True
    then show ?thesis using free unfolding n t' by (auto simp: fd_lookup_def nth_list_update)
  next
    case False
    then have "?n = length t" using le by simp
    then show ?thesis unfolding n t' by (auto simp: fd_lookup_def nth_append)
  qed
qed

lemma recv_loop_arrives:
  assumes "rx_segs s = ts @ [\<lparr>seg_bytes = [NUL, b], seg_file = f\<rparr>]" and "texts ts" and "length (bytes_of ts) + 2 \<le> MAXLINE"
    and "final_ok b f" and "rx_ok s"
  shows "\<exists>r s'. recv_loop stderr_write (-1) g s = (Inr r, s') \<and> arrived f b r (rx_fds s) (rx_fds s') \<and>
    user s' = user s @ bytes_of ts \<and> rx_segs s' = [] \<and> rx_ok s' \<and> more s' = more s"
  using assms
proof (induction "length ts" arbitrary: ts s g rule: less_induct)
  case less
  let ?f = "\<lparr>seg_bytes = [NUL, b], seg_file = f\<rparr>"
  define s0 where "s0 = s\<lparr>rx_cmptr := True, rxplan := tl (rxplan s)\<rparr>"
  have ok0: "rx_ok s0" using less.prems(5) by (cases "rxplan s") (auto simp: s0_def rx_ok_def)
  have m: "(if rx_cmptr s then (True, s) else rx_malloc s) = (True, s)" using less.prems(5) by (simp add: rx_ok_def rx_malloc_def)
  obtain k where k: "recvmsg MAXLINE (s\<lparr>rx_cmptr := True\<rparr>) =
      (case gather k MAXLINE (ts @ [?f]) of (d, None, r) \<Rightarrow> (Some (d, None), s0\<lparr>rx_segs := r\<rparr>)
          | (d, Some f, r) \<Rightarrow> (case fd_install f (rx_fds s) of (fd, t) \<Rightarrow> (Some (d, Some fd), s0\<lparr>rx_segs := r, rx_fds := t\<rparr>)))"
  proof (cases "rxplan s")
    case Nil
    then show ?thesis
      by (intro that [of "length (rx_segs s)"]) (simp add: recvmsg_def s0_def less.prems(1) split: prod.splits option.splits)
  next
    case (Cons p ps)
    then obtain k where "p = Some k" using less.prems(5) by (cases p) (auto simp: rx_ok_def)
    then show ?thesis using Cons
      by (intro that [of k]) (simp add: recvmsg_def s0_def less.prems(1) split: prod.splits option.splits)
  qed
  show ?case
  proof (cases "k < length ts")
    case True
    let ?a = "take (Suc k) ts" and ?r = "drop (Suc k) ts"
    define A where "A = bytes_of ?a"
    let ?s1 = "s0\<lparr>rx_segs := ?r @ [?f], user := user s @ A\<rparr>"
    have a: "texts ?a" "texts ?r" using texts_take_drop less.prems(2) by blast+
    have "bytes_of ?a @ bytes_of ?r = bytes_of ts" by (simp only: concat_append [symmetric] map_append [symmetric] append_take_drop_id)
    then have l: "bytes_of ts = A @ bytes_of ?r" by (simp add: A_def)
    have g: "gather k MAXLINE (ts @ [?f]) = (A, None, ?r @ [?f])"
      using gather_part [OF less.prems(2) True] less.prems(3) by (simp add: A_def)
    have ne: "A \<noteq> []" using True a(1) unfolding A_def by (cases ts) auto
    have nA: "nonul A" using nonul_texts [OF a(1)] by (simp add: A_def)
    have step: "recv_loop stderr_write (-1) g s = recv_loop stderr_write (-1) g ?s1"
      unfolding recv_loop.simps [of stderr_write "-1" g s] m
      using k g ne scan_no_final [OF nA] by (simp add: stderr_write_def s0_def)
    have p: "length ?r < length ts" "rx_segs ?s1 = ?r @ [?f]" "length (bytes_of ?r) + 2 \<le> MAXLINE" "rx_ok ?s1"
      using True less.prems(3) l ok0 by (simp_all add: rx_ok_def)
    have "rx_fds ?s1 = rx_fds s" "user ?s1 = user s @ A" "more ?s1 = more s" by (simp_all add: s0_def)
    with less.hyps [OF p(1) p(2) a(2) p(3) less.prems(4) p(4), of g] step l show ?thesis by simp
  next
    case False
    have g: "gather k MAXLINE (ts @ [?f]) = (bytes_of ts @ [NUL, b], f, [])"
      using gather_whole less.prems(2,3) False by simp
    have nu: "nonul (bytes_of ts)" using nonul_texts less.prems(2) .
    have pos: "(0 :: int) \<le> of_char b" using of_nat_of_char [of b, where ?'a = int] of_nat_0_le_iff by metis
    show ?thesis
    proof (cases f)
      case None
      then have "b \<noteq> NUL" using less.prems(4) by (simp add: final_ok_def)
      then have "recv_loop stderr_write (-1) g s = (Inr (- of_char b), s0\<lparr>rx_segs := [], user := user s @ bytes_of ts\<rparr>)"
        unfolding recv_loop.simps [of stderr_write "-1" g s] m
        using k g None scan_with_final [OF nu, of b None "-1" g] pos by (simp add: stderr_write_def s0_def)
      then show ?thesis using None ok0 by (simp add: arrived_def s0_def rx_ok_def)
    next
      case (Some x)
      then have b: "b = NUL" using less.prems(4) by (simp add: final_ok_def)
      obtain n t where n: "fd_install x (rx_fds s) = (n, t)" by fastforce
      have "recv_loop stderr_write (-1) g s = (Inr (int n), s0\<lparr>rx_segs := [], rx_fds := t, user := user s @ bytes_of ts\<rparr>)"
        unfolding recv_loop.simps [of stderr_write "-1" g s] m
        using k g Some n b scan_with_final [OF nu, of b "Some n" "-1" g] by (simp add: stderr_write_def s0_def)
      then show ?thesis using Some ok0 fd_install_lookup [OF n] by (simp add: arrived_def s0_def rx_ok_def)
    qed
  qed
qed

text \<open>What \<open>send_err\<close> and \<open>send_fd\<close> put on the stream when they report success.\<close>

lemma writen_segs:
  assumes "writen_loop (sock_send None) n ptr s = (int n, s')" and "length ptr \<le> n" and "nonul ptr"
  shows "\<exists>ts. tx_segs s' = tx_segs s @ ts \<and> texts ts \<and> bytes_of ts = ptr"
  using assms
proof (induction ptr arbitrary: s rule: length_induct)
  case (1 ptr)
  show ?case
  proof (cases "ptr = []")
    case True
    then show ?thesis using "1.prems" by (intro exI [of _ "[]"]) (simp add: writen_loop.simps)
  next
    case False
    obtain q t where q: "sock_send None ptr s = (q, t)" by fastforce
    have n: "int (n - length ptr) \<noteq> int n" "(-1 :: int) \<noteq> int n" using False "1.prems"(2) by auto
    obtain w where w: "q = Some w" "0 < w" "writen_loop (sock_send None) n (drop w ptr) t = (int n, s')"
      using "1.prems"(1) False q n unfolding writen_loop.simps [of "sock_send None" n ptr] by (auto split: option.splits if_splits)
    have s: "tx_segs t = tx_segs s @ [\<lparr>seg_bytes = take w ptr, seg_file = None\<rparr>]"
      using q w(1,2) by (auto simp: sock_send_def Let_def split: list.splits option.splits if_splits)
    have l: "length (drop w ptr) < length ptr" "length (drop w ptr) \<le> n" using w(2) False "1.prems"(2) by simp_all
    have nu: "nonul (drop w ptr)" "nonul (take w ptr)" using "1.prems"(3) by (auto simp: nonul_def dest: in_set_dropD in_set_takeD)
    obtain ts where "tx_segs s' = tx_segs t @ ts" "texts ts" "bytes_of ts = drop w ptr"
      using "1.IH" l w(3) nu(1) by blast
    then show ?thesis using s nu(2) w(2) False
      by (intro exI [of _ "\<lparr>seg_bytes = take w ptr, seg_file = None\<rparr> # ts"]) simp
  qed
qed

definition status_byte :: "int \<Rightarrow> char" where
  "status_byte e = (let b = byte (nat (- e mod 256)) in if b = NUL then byte 1 else b)"

lemma byte1 [simp]: "byte 1 \<noteq> NUL" "byte (Suc 0) \<noteq> NUL" "byte 0 = NUL"
  by code_simp+

lemma sock_send_two:
  assumes "sock_send f [NUL, b] s = (Some 2, s')"
  shows "tx_segs s' = tx_segs s @ [\<lparr>seg_bytes = [NUL, b], seg_file = f\<rparr>]"
  using assms by (auto simp: sock_send_def Let_def min_def split: list.splits option.splits if_splits)

lemma send_fd_segs:
  assumes "send_fd fd s = (0, s')"
  obtains b f where "tx_segs s' = tx_segs s @ [\<lparr>seg_bytes = [NUL, b], seg_file = f\<rparr>]" "final_ok b f"
    "fd < 0 \<Longrightarrow> f = None \<and> b = status_byte fd" "0 \<le> fd \<Longrightarrow> f = fd_lookup (tx_fds s) fd"
proof (cases "fd < 0")
  case True
  obtain q t where q: "sock_send None [NUL, status_byte fd] s = (q, t)" by fastforce
  have "q = Some 2 \<and> t = s'" using assms True q by (simp add: send_fd_def status_byte_def Let_def split: if_splits)
  moreover have "status_byte fd \<noteq> NUL" by (simp add: status_byte_def Let_def)
  ultimately show thesis using that [of "status_byte fd" None] True q sock_send_two [of None "status_byte fd" s s'] by (simp add: final_ok_def)
next
  case False
  obtain ok s1 where m: "(if tx_cmptr s then (True, s) else tx_malloc s) = (ok, s1)" by fastforce
  have s1: "tx_segs s1 = tx_segs s" "tx_fds s1 = tx_fds s"
    using m by (auto simp: tx_malloc_def split: if_splits list.splits)
  obtain x where x: "ok" "fd_lookup (tx_fds s) fd = Some x"
    using assms False m s1 by (cases ok) (auto simp: send_fd_def Let_def split: option.splits)
  define s2 where "s2 = s1\<lparr>tx_cmptr := True\<rparr>"
  have s2: "tx_segs s2 = tx_segs s" "tx_fds s2 = tx_fds s" using s1 by (simp_all add: s2_def)
  obtain q t where q: "sock_send (Some x) [NUL, NUL] s2 = (q, t)" by fastforce
  have "q = Some 2 \<and> t = s'" using assms False m x s1(2) q [unfolded s2_def] by (simp add: send_fd_def Let_def split: if_splits)
  then have "sock_send (Some x) [NUL, NUL] s2 = (Some 2, s')" using q by simp
  then have "tx_segs s' = tx_segs s @ [\<lparr>seg_bytes = [NUL, NUL], seg_file = Some x\<rparr>]" using sock_send_two s2(1) by fastforce
  then show thesis by (rule that) (use False x in \<open>simp_all add: final_ok_def\<close>)
qed

lemma send_err_segs:
  assumes "send_err e msg s = (0, s')" and "nonul msg"
  obtains ts where "tx_segs s' = tx_segs s @ ts @ [\<lparr>seg_bytes = [NUL, status_byte (if 0 \<le> e then -1 else e)], seg_file = None\<rparr>]"
    "texts ts" "bytes_of ts = msg"
proof -
  let ?e = "if 0 \<le> e then -1 else e"
  obtain w s1 where w: "(if 0 < length msg then sock_writen msg s else (0, s)) = (w, s1)" by fastforce
  obtain ts where ts: "tx_segs s1 = tx_segs s @ ts" "texts ts" "bytes_of ts = msg"
  proof (cases "msg = []")
    case True
    then show thesis using w that [of "[]"] by simp
  next
    case False
    then have "sock_writen msg s = (int (length msg), s1)" using w assms(1) by (auto simp: send_err_def Let_def split: if_splits)
    then show thesis using writen_segs [of "length msg" msg s s1] assms(2) that unfolding sock_writen_def by blast
  qed
  obtain r s2 where r: "send_fd ?e s1 = (r, s2)" by fastforce
  have v: "(if r < 0 then -1 else 0 :: int, s2) = (0, s')"
    using assms(1) w r by (auto simp: send_err_def Let_def split: if_splits)
  then have "0 \<le> r" "s2 = s'" by (auto split: if_splits)
  moreover have "r \<le> 0" using r by (auto simp: send_fd_def Let_def split: if_splits option.splits prod.splits)
  ultimately have "send_fd ?e s1 = (0, s')" using r by simp
  then show thesis using send_fd_segs [of ?e s1 s'] ts that by (auto split: if_splits)
qed

subsection \<open>The property\<close>

text \<open>
  C21. The two-byte protocol: when \<open>send_err\<close> reports success, in whatever pieces the message was
  written and read, \<open>recv_fd\<close> hands exactly the message to the user function and returns
  the negated status byte; when \<open>send_fd\<close> of a descriptor reports success it returns a new
  descriptor of the same open file. The message and the two bytes must fit the buffer.
\<close>

theorem fd_protocol_roundtrip:
  assumes "fst (send_err e msg s) = 0" and "nonul msg" and "length msg + 2 \<le> MAXLINE"
    and "fst (send_fd fd t) = 0" and "0 \<le> fd"
    and "tx_segs s = []" and "tx_segs t = []" and "rx_ok r" and "rx_ok q"
    and "rx_segs r = tx_segs (snd (send_err e msg s))" and "rx_segs q = tx_segs (snd (send_fd fd t))"
  shows "\<exists>r' q' n x. recv_fd stderr_write g r = (Inr (- of_char (status_byte (if 0 \<le> e then -1 else e))), r') \<and>
    user r' = user r @ msg \<and> rx_fds r' = rx_fds r \<and> rx_segs r' = [] \<and>
    recv_fd stderr_write g q = (Inr n, q') \<and> user q' = user q \<and> fd_lookup (tx_fds t) fd = Some x \<and>
    0 \<le> n \<and> fd_lookup (rx_fds q) n = None \<and> (\<forall>m. fd_lookup (rx_fds q') m = (if m = n then Some x else fd_lookup (rx_fds q) m))"
proof -
  let ?b = "status_byte (if 0 \<le> e then -1 else e)"
  obtain s' where s': "send_err e msg s = (0, s')" using assms(1) by (cases "send_err e msg s") auto
  obtain t' where t': "send_fd fd t = (0, t')" using assms(4) by (cases "send_fd fd t") auto
  obtain ts where ts: "rx_segs r = ts @ [\<lparr>seg_bytes = [NUL, ?b], seg_file = None\<rparr>]" "texts ts" "bytes_of ts = msg"
    using send_err_segs [OF s' assms(2)] s' assms(6,10) by auto
  have "?b \<noteq> NUL" by (simp add: status_byte_def Let_def)
  then have fo: "final_ok ?b None" by (simp add: final_ok_def)
  obtain v r' where r': "recv_loop stderr_write (-1) g r = (Inr v, r')" "arrived None ?b v (rx_fds r) (rx_fds r')"
    "user r' = user r @ msg" "rx_segs r' = []"
    using recv_loop_arrives [OF ts(1,2) _ fo assms(8), of g] assms(3) ts(3) by auto
  obtain b f where f: "tx_segs t' = tx_segs t @ [\<lparr>seg_bytes = [NUL, b], seg_file = f\<rparr>]" "final_ok b f" "f = fd_lookup (tx_fds t) fd"
    using send_fd_segs [OF t'] assms(5) by blast
  have qs: "rx_segs q = [] @ [\<lparr>seg_bytes = [NUL, b], seg_file = f\<rparr>]" using f(1) t' assms(7,11) by simp
  obtain n q' where q': "recv_loop stderr_write (-1) g q = (Inr n, q')" "arrived f b n (rx_fds q) (rx_fds q')" "user q' = user q"
    using recv_loop_arrives [OF qs _ _ f(2) assms(9), of g] by (auto simp: MAXLINE_def)
  have "f \<noteq> None"
  proof
    assume n: "f = None"
    obtain ok s1 where m: "(if tx_cmptr t then (True, t) else tx_malloc t) = (ok, s1)" by fastforce
    have "tx_fds s1 = tx_fds t" using m by (auto simp: tx_malloc_def split: if_splits list.splits)
    then show False using t' n f(3) assms(5) m by (cases ok) (auto simp: send_fd_def Let_def)
  qed
  then obtain x where "f = Some x" by blast
  then show ?thesis using r' q' f(3) unfolding recv_fd_def by (simp add: arrived_def)
qed

theorem fd_protocol_roundtrip_witness:
  "\<exists>r' n q'. recv_fd stderr_write 0 \<lparr>rx_fds = [Some \<lparr>of_path = ''tty'', of_flags = 2\<rparr>], rx_cmptr = False, rx_mallocs = [],
       rx_segs = tx_segs (snd (send_err (-256) ''no'' \<lparr>tx_fds = [], tx_cmptr = False, tx_mallocs = [], tx_segs = [], txplan = [Some 1]\<rparr>)),
       rxplan = [Some 1], user = ''''\<rparr> = (Inr (-1), r') \<and> user r' = ''no'' \<and>
     recv_fd stderr_write 0 \<lparr>rx_fds = [Some \<lparr>of_path = ''tty'', of_flags = 2\<rparr>], rx_cmptr = False, rx_mallocs = [],
       rx_segs = [\<lparr>seg_bytes = [NUL, NUL], seg_file = Some \<lparr>of_path = ''f'', of_flags = 0\<rparr>\<rparr>],
       rxplan = [], user = ''''\<rparr> = (Inr n, q') \<and> fd_lookup (rx_fds q') n = Some \<lparr>of_path = ''f'', of_flags = 0\<rparr>"
proof -
  let ?s = "\<lparr>tx_fds = [], tx_cmptr = False, tx_mallocs = [], tx_segs = [], txplan = [Some 1]\<rparr>"
  let ?t = "\<lparr>tx_fds = [Some \<lparr>of_path = ''f'', of_flags = 0\<rparr>], tx_cmptr = True, tx_mallocs = [], tx_segs = [], txplan = []\<rparr>"
  let ?r = "\<lparr>rx_fds = [Some \<lparr>of_path = ''tty'', of_flags = 2\<rparr>], rx_cmptr = False, rx_mallocs = [],
       rx_segs = tx_segs (snd (send_err (-256) ''no'' ?s)), rxplan = [Some 1], user = ''''\<rparr>"
  let ?q = "\<lparr>rx_fds = [Some \<lparr>of_path = ''tty'', of_flags = 2\<rparr>], rx_cmptr = False, rx_mallocs = [],
       rx_segs = [\<lparr>seg_bytes = [NUL, NUL], seg_file = Some \<lparr>of_path = ''f'', of_flags = 0\<rparr>\<rparr>], rxplan = [], user = ''''\<rparr>"
  have 1: "fst (send_err (-256) ''no'' ?s) = 0"
    by (simp add: send_err_def sock_writen_def send_fd_def sock_send_def writen_loop.simps)
  have 2: "nonul ''no''" "length ''no'' + 2 \<le> MAXLINE" by (simp_all add: MAXLINE_def)
  have 3: "fst (send_fd 0 ?t) = 0" by (simp add: send_fd_def sock_send_def fd_lookup_def)
  have 4: "rx_ok ?r" "rx_ok ?q" by (simp_all add: rx_ok_def)
  have 5: "rx_segs ?q = tx_segs (snd (send_fd 0 ?t))" by (simp add: send_fd_def sock_send_def fd_lookup_def)
  have b: "of_char (status_byte (if (0 :: int) \<le> -256 then -1 else -256)) = (1 :: int)"
  proof -
    have "status_byte (-256) = char_of (1 :: nat)" by (simp add: status_byte_def) (simp add: byte_def)
    then show ?thesis using of_nat_of_char [of "char_of (1 :: nat)", where ?'a = int] by simp
  qed
  have x: "fd_lookup (tx_fds ?t) 0 = Some \<lparr>of_path = ''f'', of_flags = 0\<rparr>" by (simp add: fd_lookup_def)
  from fd_protocol_roundtrip [OF 1 2 3 order.refl _ _ 4 _ 5, of 0]
  obtain r' q' n where "recv_fd stderr_write 0 ?r = (Inr (-1), r')" "user r' = ''no''" "recv_fd stderr_write 0 ?q = (Inr n, q')"
    "\<forall>m. fd_lookup (rx_fds q') m = (if m = n then Some \<lparr>of_path = ''f'', of_flags = 0\<rparr> else fd_lookup (rx_fds ?q) m)"
    unfolding b x by auto
  then show ?thesis by (intro exI [of _ r'] exI [of _ n] exI [of _ q']) simp
qed

end
