(* ===== verification/BufArgs.thy ===== *)
theory BufArgs
  imports CString
begin

section \<open>Splitting a buffer into arguments (lib/bufargs.c)\<close>

text \<open>
  \<open>buf_args\<close> cuts a null-terminated buffer in place with \<open>strtok\<close>; the argument vector holds
  positions in the buffer. The reference definition \<open>words\<close> splits a string at white space,
  and the last lemma says which strings the argument vector points to.
\<close>

definition MAXARGC :: nat where "MAXARGC = 50"

definition is_white :: "char \<Rightarrow> bool" where
  "is_white c \<longleftrightarrow> c = SPACE \<or> c = CHR 0x09 \<or> c = NEWLINE"

text \<open>One call of \<open>strtok\<close> from position \<open>p\<close>: the start of the token, the buffer, the saved position.\<close>

definition strtok_at :: "string \<Rightarrow> nat \<Rightarrow> (nat \<times> string \<times> nat) option" where
  "strtok_at buf p =
     (let s = p + length (takeWhile is_white (drop p buf))
      in if length buf \<le> s \<or> buf ! s = NUL then None
         else let e = s + length (takeWhile (\<lambda>c. \<not> is_white c \<and> c \<noteq> NUL) (drop s buf))
              in if length buf \<le> e \<or> buf ! e = NUL then Some (s, buf, e) else Some (s, buf[e := NUL], e + 1))"

function tok_loop :: "string \<Rightarrow> nat \<Rightarrow> nat \<Rightarrow> nat list \<Rightarrow> (string \<times> nat list) option" where
  "tok_loop buf p argc argv =
     (case strtok_at buf p of
        None \<Rightarrow> Some (buf, argv)
      | Some (ptr, buf', next) \<Rightarrow>
          if MAXARGC - 1 \<le> argc + 1 then None
          else tok_loop buf' next (argc + 1) (argv @ [ptr]))"
  by pat_completeness auto
termination
  by (relation "measure (\<lambda>(buf, p, argc, argv). MAXARGC - argc)") (auto simp: MAXARGC_def)

declare tok_loop.simps [simp del]

definition buf_args :: "string \<Rightarrow> (string \<Rightarrow> nat list \<Rightarrow> 's \<Rightarrow> int \<times> 's) \<Rightarrow> 's \<Rightarrow> int \<times> 's" where
  "buf_args buf optfunc s =
     (case strtok_at buf 0 of
        None \<Rightarrow> (-1, s)
      | Some (_, buf', next) \<Rightarrow>
          (case tok_loop buf' next 0 [0] of
             None \<Rightarrow> (-1, s)
           | Some (buf'', argv) \<Rightarrow> optfunc buf'' argv s))"

text \<open>The string an argument pointer denotes.\<close>

definition arg_str :: "string \<Rightarrow> nat \<Rightarrow> string" where
  "arg_str buf i = cstr (drop i buf)"

subsection \<open>The words of a string\<close>

function words :: "string \<Rightarrow> string list" where
  "words s = (let t = dropWhile is_white s in
     if t = [] then [] else takeWhile (\<lambda>c. \<not> is_white c) t # words (dropWhile (\<lambda>c. \<not> is_white c) t))"
  by pat_completeness auto
termination
proof (relation "measure length", goal_cases)
  case (2 s t)
  have "\<not> is_white (hd t)" using 2 hd_dropWhile by metis
  then have "length (dropWhile (\<lambda>c. \<not> is_white c) t) < length t"
    using 2(2) length_dropWhile_le [of "\<lambda>c. \<not> is_white c" "tl t"] by (cases t) auto
  moreover have "length t \<le> length s" using 2(1) length_dropWhile_le by simp
  ultimately show ?case by simp
qed simp

declare words.simps [simp del]

lemma words_white: "\<forall>c\<in>set w. is_white c \<Longrightarrow> words (w @ s) = words s"
  by (simp add: words.simps [of "w @ s"] words.simps [of s] dropWhile_append2)

lemma words_Nil [simp]: "words [] = []"
  by (simp add: words.simps)

lemma words_token:
  assumes "t \<noteq> []" and "\<forall>c\<in>set t. \<not> is_white c" and "s = [] \<or> is_white (hd s)"
  shows "words (t @ s) = t # words s"
proof -
  have "dropWhile is_white (t @ s) = t @ s" using assms(1,2) by (cases t) auto
  moreover have "takeWhile (\<lambda>c. \<not> is_white c) (t @ s) = t" using assms(2,3) by (cases s) (simp_all add: takeWhile_append2)
  moreover have "dropWhile (\<lambda>c. \<not> is_white c) (t @ s) = s" using assms(2,3) by (cases s) (simp_all add: dropWhile_append2)
  ultimately show ?thesis using assms(1) by (simp add: words.simps [of "t @ s"] Let_def)
qed

text \<open>A string is white space, or white space, a token and a rest that does not continue the token.\<close>

lemma word_cases:
  obtains (white) "\<forall>c\<in>set s. is_white c"
  | (token) w t r where "s = w @ t @ r" "\<forall>c\<in>set w. is_white c" "t \<noteq> []" "\<forall>c\<in>set t. \<not> is_white c" "r = [] \<or> is_white (hd r)"
proof (cases "dropWhile is_white s = []")
  case True
  then show thesis using white by (simp add: dropWhile_eq_Nil_conv)
next
  case False
  let ?u = "dropWhile is_white s"
  let ?w = "takeWhile is_white s" and ?t = "takeWhile (\<lambda>c. \<not> is_white c) ?u" and ?r = "dropWhile (\<lambda>c. \<not> is_white c) ?u"
  have 1: "s = ?w @ ?t @ ?r" by simp
  have 2: "\<forall>c\<in>set ?w. is_white c" by (auto dest: set_takeWhileD)
  have "\<not> is_white (hd ?u)" using False hd_dropWhile by blast
  then have 3: "?t \<noteq> []" using False by (cases ?u) auto
  have 4: "\<forall>c\<in>set ?t. \<not> is_white c" by (auto dest: set_takeWhileD)
  have 5: "?r = [] \<or> is_white (hd ?r)" using hd_dropWhile [of "\<lambda>c. \<not> is_white c" ?u] by blast
  show thesis by (rule token [OF 1 2 3 4 5])
qed

lemma words_append: "is_white c \<Longrightarrow> words (a @ c # b) = words a @ words b"
proof (induction a rule: length_induct)
  case (1 a)
  have cb: "words (c # b) = words b" using words_white [of "[c]" b] 1(2) by simp
  show ?case
  proof (cases a rule: word_cases)
    case white
    then show ?thesis using words_white [of a "c # b"] words_white [of a "[]"] cb by simp
  next
    case (token w t r)
    have "length r < length a" using token by simp
    then have IH: "words (r @ c # b) = words r @ words b" using 1 by blast
    have "words (t @ r @ c # b) = t # words (r @ c # b)"
    proof (rule words_token)
      show "r @ c # b = [] \<or> is_white (hd (r @ c # b))" using token(5) 1(2) by (cases r) simp_all
    qed (rule token)+
    moreover have "words (t @ r) = t # words r" using token by (intro words_token)
    ultimately show ?thesis using token IH words_white [of w "t @ r @ c # b"] words_white [of w "t @ r"] by simp
  qed
qed

lemma words_single: "t \<noteq> [] \<Longrightarrow> \<forall>c\<in>set t. \<not> is_white c \<Longrightarrow> words t = [t]"
  using words_token [of t "[]"] by simp

lemma words_parts: "x \<in> set (words s) \<Longrightarrow> x \<noteq> [] \<and> (\<forall>c\<in>set x. c \<in> set s \<and> \<not> is_white c)"
proof (induction s rule: length_induct)
  case (1 s)
  show ?case
  proof (cases s rule: word_cases)
    case white
    then show ?thesis using 1(2) words_white [of s "[]"] by simp
  next
    case (token w t r)
    have w: "words s = t # words r" using token words_white [of w "t @ r"] words_token [of t r] by simp
    have "length r < length s" using token by simp
    with 1 have "x \<in> set (words r) \<Longrightarrow> x \<noteq> [] \<and> (\<forall>c\<in>set x. c \<in> set r \<and> \<not> is_white c)" by blast
    moreover have "x \<in> insert t (set (words r))" using 1(2) w by simp
    ultimately show ?thesis using token(3,4) unfolding token(1) by auto
  qed
qed

subsection \<open>What the tokenizer finds\<close>

lemma white_not_NUL [simp]: "\<not> is_white NUL"
  by (simp add: is_white_def)

lemma strtok_none:
  assumes "length pre = p" and "\<forall>c\<in>set w. is_white c"
  shows "strtok_at (pre @ w @ NUL # post) p = None"
  using assms by (simp add: strtok_at_def takeWhile_append2 nth_append Let_def)

lemma strtok_some:
  assumes "length pre = p" and "\<forall>c\<in>set w. is_white c" and "t \<noteq> []" and "\<forall>c\<in>set t. \<not> is_white c \<and> c \<noteq> NUL"
    and "is_white d \<or> d = NUL"
  shows "strtok_at (pre @ w @ t @ d # post) p =
    Some (p + length w, pre @ w @ t @ NUL # post, p + length w + length t + (if d = NUL then 0 else 1))"
proof -
  let ?b = "pre @ w @ t @ d # post"
  let ?s = "p + length w"
  obtain t0 ts where t: "t = t0 # ts" using assms(3) by (cases t) auto
  have 1: "takeWhile is_white (drop p ?b) = w" using assms(1,2,4) t by (simp add: takeWhile_append2)
  have 2: "?b ! ?s = t0" using assms(1) t by (simp add: nth_append)
  have ds: "drop ?s ?b = t @ d # post" using assms(1) by simp
  have 3: "takeWhile (\<lambda>c. \<not> is_white c \<and> c \<noteq> NUL) (drop ?s ?b) = t"
    unfolding ds using assms(4,5) by (auto simp: takeWhile_append2)
  have 4: "?b ! (?s + length t) = d" using assms(1) by (simp add: nth_append)
  have 5: "?b[?s + length t := NUL] = pre @ w @ t @ NUL # post" using assms(1) by (simp add: list_update_append)
  have "t0 \<noteq> NUL" using assms(4) t by simp
  then show ?thesis unfolding strtok_at_def Let_def 1 2 3 4 5 using assms(1) t by simp
qed

lemma cstr_split: "NUL \<in> set s \<Longrightarrow> \<exists>post. s = cstr s @ NUL # post"
  by (induction s) auto

text \<open>The rest of a buffer from a position, up to its null byte.\<close>

lemma tok_loop_words:
  assumes "p \<le> length buf" and "NUL \<in> set (drop p buf)" and "argc < MAXARGC - 1"
  shows "if argc + length (words (cstr (drop p buf))) < MAXARGC - 1
    then \<exists>buf' ps. tok_loop buf p argc argv = Some (buf', argv @ ps) \<and> length buf' = length buf \<and> take p buf' = take p buf \<and>
      map (arg_str buf') ps = words (cstr (drop p buf))
    else tok_loop buf p argc argv = None"
  using assms
proof (induction "length buf - p" arbitrary: buf p argc argv rule: less_induct)
  case less
  let ?c = "cstr (drop p buf)"
  obtain post where post: "drop p buf = ?c @ NUL # post" using cstr_split [OF less.prems(2)] by blast
  have buf: "buf = take p buf @ ?c @ NUL # post" using post append_take_drop_id [of p buf] by simp
  have lp: "length (take p buf) = p" using less.prems(1) by simp
  have nu: "\<And>c. c \<in> set ?c \<Longrightarrow> c \<noteq> NUL" using nonul_cstr [of "drop p buf"] by (auto simp: nonul_def)
  show ?case
  proof (cases ?c rule: word_cases)
    case white
    then have "words ?c = []" using words_white [of ?c "[]"] by simp
    moreover have "strtok_at buf p = None" using strtok_none [OF lp white, of post] buf by simp
    ultimately show ?thesis using less.prems(3) by (simp add: tok_loop.simps [of buf p])
  next
    case (token w t r)
    have w: "words ?c = t # words r" using token words_white [of w "t @ r"] words_token [of t r] by simp
    obtain d post' where d: "r @ NUL # post = d # post'" "is_white d \<or> d = NUL" "d = NUL \<longleftrightarrow> r = []"
      using token(5) nu unfolding token(1) by (cases r) auto
    define nx where "nx = p + length w + length t + (if d = NUL then 0 else 1)"
    define b1 where "b1 = take p buf @ w @ t @ NUL # post'"
    have b: "buf = take p buf @ w @ t @ d # post'" using buf d(1) unfolding token(1) by simp
    have tn: "\<forall>c\<in>set t. \<not> is_white c \<and> c \<noteq> NUL" using token(4) nu unfolding token(1) by auto
    have st: "strtok_at buf p = Some (p + length w, b1, nx)"
      using strtok_some [OF lp token(2,3) tn d(2), of post'] b unfolding b1_def nx_def by simp
    have l1: "length b1 = length buf" using arg_cong [OF b, of length] by (simp add: b1_def)
    show ?thesis
    proof (cases "MAXARGC - 1 \<le> argc + 1")
      case True
      then show ?thesis using st w by (simp add: tok_loop.simps [of buf p])
    next
      case False
      have step: "tok_loop buf p argc argv = tok_loop b1 nx (argc + 1) (argv @ [p + length w])"
        using st False by (simp add: tok_loop.simps [of buf p])
      have ps: "arg_str b (p + length w) = t" if "take (p + length w + length t + 1) b = take p buf @ w @ t @ [NUL]" for b
      proof -
        have "b = (take p buf @ w @ t @ [NUL]) @ drop (p + length w + length t + 1) b"
          using that append_take_drop_id [of "p + length w + length t + 1" b] by simp
        then have "drop (p + length w) b = drop (p + length w) ((take p buf @ w @ t @ [NUL]) @ drop (p + length w + length t + 1) b)"
          by (rule arg_cong)
        also have "\<dots> = t @ NUL # drop (p + length w + length t + 1) b" using lp by simp
        finally have "drop (p + length w) b = t @ NUL # drop (p + length w + length t + 1) b" .
        moreover have "nonul t" using tn by (auto simp: nonul_def)
        ultimately show ?thesis by (simp add: arg_str_def)
      qed
      have t1: "take (p + length w + length t + 1) b1 = take p buf @ w @ t @ [NUL]" unfolding b1_def using lp by simp
      have tp: "take p b1 = take p buf" unfolding b1_def using lp by simp
      show ?thesis
      proof (cases "d = NUL")
        case True
        have "strtok_at b1 nx = None"
          using strtok_none [of "take p buf @ w @ t" nx "[]" post'] lp True by (simp add: b1_def nx_def)
        then have "tok_loop b1 nx (argc + 1) (argv @ [p + length w]) = Some (b1, argv @ [p + length w])"
          by (simp add: tok_loop.simps [of b1 nx])
        then show ?thesis using step w d(3) True False ps [OF t1] l1 tp by simp
      next
        case nn: False
        obtain r' where r': "r = d # r'" "post' = r' @ NUL # post" "is_white d" using d nn by (cases r) auto
        have nx: "nx = p + length w + length t + 1" using nn by (simp add: nx_def)
        have dn: "drop nx b1 = r' @ NUL # post" unfolding b1_def nx using lp r'(2) by simp
        have nr: "nonul r'" using nu unfolding token(1) r'(1) by (auto simp: nonul_def)
        have c1: "cstr (drop nx b1) = r'" unfolding dn using nr by simp
        have wr: "words r = words r'" using words_white [of "[d]" r'] r' by simp
        have nl: "nx \<le> length b1" unfolding b1_def nx using lp by simp
        have sm: "length b1 - nx < length buf - p" using l1 nx nl token(3) by simp
        have zn: "NUL \<in> set (drop nx b1)" unfolding dn by simp
        have ac: "argc + 1 < MAXARGC - 1" using False by simp
        have IH: "if argc + 1 + length (words r') < MAXARGC - 1
          then \<exists>buf' ps. tok_loop b1 nx (argc + 1) (argv @ [p + length w]) = Some (buf', (argv @ [p + length w]) @ ps) \<and>
            length buf' = length b1 \<and> take nx buf' = take nx b1 \<and> map (arg_str buf') ps = words r'
          else tok_loop b1 nx (argc + 1) (argv @ [p + length w]) = None"
          using less.hyps [OF sm nl zn ac, of "argv @ [p + length w]"] unfolding c1 .
        show ?thesis
        proof (cases "argc + 1 + length (words r') < MAXARGC - 1")
          case True
          with IH obtain b2 ps2 where b2: "tok_loop b1 nx (argc + 1) (argv @ [p + length w]) = Some (b2, (argv @ [p + length w]) @ ps2)"
            "length b2 = length b1" "take nx b2 = take nx b1" "map (arg_str b2) ps2 = words r'" by auto
          have "take (p + length w + length t + 1) b2 = take p buf @ w @ t @ [NUL]" using b2(3) t1 nx by simp
          then have a: "arg_str b2 (p + length w) = t" by (rule ps)
          have "take p (take nx b2) = take p (take nx b1)" by (simp only: b2(3))
          then have "take p b2 = take p buf" using tp nx by (simp add: min_def)
          then show ?thesis using step w wr True b2 a l1 by simp
        next
          case False
          then show ?thesis using IH step w wr by simp
        qed
      qed
    qed
  qed
qed

subsection \<open>What the function is called with\<close>

text \<open>
  On a null-terminated buffer: a buffer without a word is refused, so is one with
  more than 49 words; otherwise the user's function is called once, with pointers to the words
  of the buffer, except that the first pointer is the buffer itself, so that the first argument
  keeps the white space in front of it.
\<close>

lemma buf_args_words:
  assumes "NUL \<in> set buf"
  shows "(words (cstr buf) = [] \<longrightarrow> buf_args buf f s = (-1, s)) \<and>
    (MAXARGC - 1 < length (words (cstr buf)) \<longrightarrow> buf_args buf f s = (-1, s)) \<and>
    (words (cstr buf) \<noteq> [] \<and> length (words (cstr buf)) \<le> MAXARGC - 1 \<longrightarrow>
      (\<exists>buf' argv. buf_args buf f s = f buf' argv s \<and> length argv = length (words (cstr buf)) \<and>
        map (arg_str buf') argv = (takeWhile is_white buf @ hd (words (cstr buf))) # tl (words (cstr buf))))"
proof -
  obtain post where post: "buf = cstr buf @ NUL # post" using cstr_split assms by blast
  show ?thesis
  proof (cases "cstr buf" rule: word_cases)
    case white
    then have "words (cstr buf) = []" using words_white [of "cstr buf" "[]"] by simp
    moreover have "strtok_at buf 0 = None" using strtok_none [of "[]" 0 "cstr buf" post] white post by simp
    ultimately show ?thesis by (simp add: buf_args_def)
  next
    case (token w t r)
    have w: "words (cstr buf) = t # words r" using token words_white [of w "t @ r"] words_token [of t r] by simp
    have nu: "\<And>c. c \<in> set (cstr buf) \<Longrightarrow> c \<noteq> NUL" using nonul_cstr [of buf] by (auto simp: nonul_def)
    obtain d post' where d: "r @ NUL # post = d # post'" "is_white d \<or> d = NUL" "d = NUL \<longleftrightarrow> r = []"
      using token(5) nu unfolding token(1) by (cases r) auto
    define nx where "nx = length w + length t + (if d = NUL then 0 else 1)"
    define b1 where "b1 = w @ t @ NUL # post'"
    have b: "buf = w @ t @ d # post'" using post d(1) token(1) by simp
    have tn: "\<forall>c\<in>set t. \<not> is_white c \<and> c \<noteq> NUL" using token(4) nu unfolding token(1) by auto
    have wn: "nonul w" "nonul t" using nu unfolding token(1) by (auto simp: nonul_def)
    have tw: "takeWhile is_white buf = w" using b token(2) tn token(3) by (cases t) (simp_all add: takeWhile_append2)
    have st: "strtok_at buf 0 = Some (length w, b1, nx)"
      using strtok_some [OF _ token(2,3) tn d(2), of "[]" 0 post'] b unfolding b1_def nx_def by simp
    have first: "arg_str b 0 = w @ t" if e: "take (length w + length t + 1) b = w @ t @ [NUL]" for b
    proof -
      have "b = w @ t @ NUL # drop (length w + length t + 1) b"
        using e append_take_drop_id [of "length w + length t + 1" b] by simp
      then show ?thesis using wn cstr_append_NUL [of "w @ t"] unfolding arg_str_def by (metis append.assoc drop0 nonul_simps(3))
    qed
    have nl: "nx \<le> length b1" by (simp add: b1_def nx_def)
    have ta: "take (length w + length t + 1) b1 = w @ t @ [NUL]" by (simp add: b1_def)
    have rest: "words (cstr (drop nx b1)) = words r \<and> NUL \<in> set (drop nx b1)"
    proof (cases "d = NUL")
      case True
      then show ?thesis using d(3) by (simp add: b1_def nx_def)
    next
      case False
      obtain r' where r': "r = d # r'" "post' = r' @ NUL # post" "is_white d" using d False by (cases r) auto
      have "nonul r'" using nu unfolding token(1) r'(1) by (auto simp: nonul_def)
      then show ?thesis using False r' words_white [of "[d]" r'] by (simp add: b1_def nx_def)
    qed
    have keep: "take (length w + length t + 1) b = w @ t @ [NUL]"
      if e: "take nx b = take nx b1" and l: "tok_loop b1 nx 0 [0] = Some (b, ps)" for b ps
    proof (cases "d = NUL")
      case True
      have "strtok_at b1 nx = None" using strtok_none [of "w @ t" nx "[]" post'] True by (simp add: b1_def nx_def)
      then have "b = b1" using l by (simp add: tok_loop.simps [of b1 nx])
      then show ?thesis by (simp add: b1_def)
    next
      case False
      then show ?thesis using e by (simp add: nx_def b1_def)
    qed
    note L = tok_loop_words [OF nl conjunct2 [OF rest], of 0 "[0]", unfolded conjunct1 [OF rest]]
    show ?thesis
    proof (cases "length (words r) < MAXARGC - 1")
      case True
      with L obtain b ps where l: "tok_loop b1 nx 0 [0] = Some (b, 0 # ps)" "take nx b = take nx b1" "map (arg_str b) ps = words r"
        by (auto simp: MAXARGC_def)
      have "arg_str b 0 = w @ t" using first [OF keep [OF l(2,1)]] .
      moreover have "length ps = length (words r)" using l(3) by (metis length_map)
      moreover have "buf_args buf f s = f b (0 # ps) s" using st l(1) by (simp add: buf_args_def)
      ultimately have "\<exists>buf' argv. buf_args buf f s = f buf' argv s \<and> length argv = length (words (cstr buf)) \<and>
        map (arg_str buf') argv = (takeWhile is_white buf @ hd (words (cstr buf))) # tl (words (cstr buf))"
        unfolding w tw using l(3) by (intro exI [of _ b] exI [of _ "0 # ps"]) simp
      then show ?thesis using True w by (auto simp: MAXARGC_def)
    next
      case False
      then have "tok_loop b1 nx 0 [0] = None" using L by (auto simp: MAXARGC_def)
      then show ?thesis using False st w by (auto simp: buf_args_def)
    qed
  qed
qed

end
