(* ===== verification/Opend.thy ===== *)
theory Opend
  imports FdPass BufArgs
begin

section \<open>The open server and its client (ipc2/opend/request.c, cliargs.c, ipc2/open/open.c)\<close>

text \<open>
  The server keeps its globals, the log and one end of the client's socket. Opening a file is a
  parameter \<open>opn\<close> (the error number, or \<open>None\<close> when the file can be opened), as are
  \<open>strerror\<close> and, for the client, the process at the other end of its connection.
\<close>

definition CL_OPEN :: string where "CL_OPEN = ''open''"
definition ERRMAX :: nat where "ERRMAX = MAXLINE - 2"

record srv = sender +
  errmsg :: string
  pathname :: string
  oflag :: int
  log :: "string list"

datatype srv_stop = LogSys | BadFormat

definition cli_args :: "string \<Rightarrow> nat list \<Rightarrow> srv \<Rightarrow> int \<times> srv" where
  "cli_args buf argv s =
     (if length argv \<noteq> 3 \<or> arg_str buf (argv ! 0) \<noteq> CL_OPEN then
        (-1, s\<lparr>errmsg := ''usage: <pathname> <oflag>'' @ [NEWLINE]\<rparr>)
      else (0, s\<lparr>pathname := arg_str buf (argv ! 1), oflag := atoi (arg_str buf (argv ! 2))\<rparr>))"

definition srv_log :: "string \<Rightarrow> srv \<Rightarrow> srv" where
  "srv_log m s = s\<lparr>log := log s @ [m]\<rparr>"

text \<open>
  \<open>log_msg (errmsg)\<close> uses the message as a format without arguments: a doubled percent sign
  prints one, any other conversion reads an argument that is not there.
\<close>

fun log_format :: "string \<Rightarrow> string option" where
  "log_format [] = Some []"
| "log_format [c] = (if c = CHR ''%'' then None else Some [c])"
| "log_format (c # d # cs) =
     (if c = CHR ''%'' then (if d = CHR ''%'' then map_option (Cons d) (log_format cs) else None)
      else map_option (Cons c) (log_format (d # cs)))"

definition log_errmsg :: "srv \<Rightarrow> (srv_stop + unit) \<times> srv" where
  "log_errmsg s = (case log_format (errmsg s) of None \<Rightarrow> (Inl BadFormat, s) | Some m \<Rightarrow> (Inr (), srv_log m s))"

definition handle_request :: "(string \<Rightarrow> int \<Rightarrow> nat option) \<Rightarrow> (nat \<Rightarrow> string) \<Rightarrow> string \<Rightarrow> int \<Rightarrow> 32 word \<Rightarrow> srv \<Rightarrow> (srv_stop + unit) \<times> srv" where
  "handle_request opn strerror buf clifd uid s =
     (let nread = length buf in
      if last buf \<noteq> NUL then
        let s = s\<lparr>errmsg := take ERRMAX (''request from uid '' @ dec_int (sint uid) @ '' not null terminated: '' @
                   pad nread (cstr buf) @ [NEWLINE])\<rparr>;
            (_, s) = send_err (-1) (errmsg s) s
        in (Inr (), s)
      else
        let s = srv_log (''request: '' @ cstr buf @ '', from uid '' @ dec_int (sint uid)) s;
            (r, s) = buf_args buf cli_args s
        in if r < 0 then
             let (_, s) = send_err (-1) (errmsg s) s in log_errmsg s
           else case opn (pathname s) (oflag s) of
             Some e \<Rightarrow>
               let s = s\<lparr>errmsg := take ERRMAX (''can'' @ CHR 0x27 # ''t open '' @ pathname s @ '': '' @ strerror e @ [NEWLINE])\<rparr>;
                   (_, s) = send_err (-1) (errmsg s) s
               in log_errmsg s
           | None \<Rightarrow>
               let (newfd, t) = fd_install \<lparr>of_path = pathname s, of_flags = oflag s\<rparr> (tx_fds s);
                   (r, s) = send_fd (int newfd) (s\<lparr>tx_fds := t\<rparr>)
               in if r < 0 then (Inl LogSys, s)
                  else (Inr (), (srv_log (''sent fd '' @ dec newfd @ '' over fd '' @ dec_int clifd @ '' for '' @ pathname s) s)\<lparr>tx_fds := fd_close newfd (tx_fds s)\<rparr>))"

text \<open>The client: \<open>csfd\<close> is static, \<open>conn\<close> the result of \<open>cli_conn\<close>, \<open>writev_ok\<close> whether all bytes are taken.\<close>

record client = "string receiver" +
  csfd :: int
  conn :: int
  writev_ok :: bool

datatype cl_stop = Overrun | Receive fd_stop

definition csopen :: "(string \<Rightarrow> seg list) \<Rightarrow> int \<Rightarrow> string \<Rightarrow> int \<Rightarrow> client \<Rightarrow> (cl_stop + int) \<times> client" where
  "csopen peer junk name oflg c =
     (let c = (if csfd c < 0 then c\<lparr>csfd := conn c\<rparr> else c) in
      if csfd c < 0 then (Inr (-1), c)
      else let num = SPACE # dec_int oflg in
           if 12 < length num + 1 then (Inl Overrun, c)
           else let iov = [CL_OPEN @ [SPACE], name, num @ [NUL]] in
                if \<not> writev_ok c then (Inr (-1), c)
                else case recv_fd stderr_write junk (c\<lparr>rx_segs := rx_segs c @ peer (concat iov)\<rparr>) of
                       (Inl e, c) \<Rightarrow> (Inl (Receive e), c)
                     | (Inr r, c) \<Rightarrow> (Inr r, c))"


text \<open>One client's side of \<open>loop\<close>: each \<open>read\<close> takes at most \<open>MAXLINE\<close> bytes, and each is one request.\<close>

function serve :: "(string \<Rightarrow> int \<Rightarrow> nat option) \<Rightarrow> (nat \<Rightarrow> string) \<Rightarrow> int \<Rightarrow> 32 word \<Rightarrow> string \<Rightarrow> srv \<Rightarrow> (srv_stop + unit) \<times> srv" where
  "serve opn strerror clifd uid bytes s =
     (let buf = take MAXLINE bytes
      in if buf = [] then (Inr (), s)
         else case handle_request opn strerror buf clifd uid s of
                (Inl e, s) \<Rightarrow> (Inl e, s)
              | (Inr _, s) \<Rightarrow> serve opn strerror clifd uid (drop MAXLINE bytes) s)"
  by pat_completeness auto
termination
  by (relation "measure (\<lambda>(opn, strerror, clifd, uid, bytes, s). length bytes)") (auto simp: MAXLINE_def)

declare serve.simps [simp del]

subsection \<open>The request on the wire\<close>

lemma white_isspace: "is_white c \<Longrightarrow> \<not> isdigit c \<and> c \<noteq> CHR ''-''"
  by (auto simp: is_white_def isdigit_def)

lemma dec_int_chars: "\<forall>c\<in>set (dec_int i). \<not> is_white c \<and> c \<noteq> NUL"
  using dec_digits white_isspace isdigit_chars(1) by (auto simp: dec_int_def)

lemma dec_int_nonempty [simp]: "dec_int i \<noteq> []"
  by (simp add: dec_int_def)

lemma atoi_dec_int:
  assumes "- (2 ^ 31) \<le> i" and "i < 2 ^ 31"
  shows "atoi (dec_int i) = i"
proof (cases "i < 0")
  case True
  have "strtol10 (dec_int i) = i" using True by (simp add: strtol10_def dec_int_def isspace_def digits_val_dec)
  then show ?thesis using assms by (simp add: atoi_def atol_def)
next
  case False
  then have "atoi (dec_int i) = int (nat i)" using atoi_pad [of "nat i" 0] assms by (simp add: dec_int_def pad_def)
  then show ?thesis using False by simp
qed

definition request :: "string \<Rightarrow> int \<Rightarrow> string" where
  "request name oflg = CL_OPEN @ SPACE # name @ SPACE # dec_int oflg"

lemma nonul_request: "nonul name \<Longrightarrow> nonul (request name oflg)"
  using dec_int_chars by (auto simp: request_def CL_OPEN_def nonul_def)

lemma words_request: "words (request name oflg) = CL_OPEN # words name @ [dec_int oflg]"
proof -
  have s: "is_white SPACE" by (simp add: is_white_def)
  have "words CL_OPEN = [CL_OPEN]" by (rule words_single) (auto simp: CL_OPEN_def is_white_def)
  moreover have "words (dec_int oflg) = [dec_int oflg]" using dec_int_chars by (intro words_single) auto
  ultimately show ?thesis unfolding request_def words_append [OF s] by simp
qed

lemma white_open: "takeWhile is_white (request name oflg @ x) = []"
  by (simp add: request_def CL_OPEN_def is_white_def)

text \<open>What \<open>buf_args\<close> does with a request, by the number of words in the name.\<close>

lemma buf_args_request:
  assumes "nonul name"
  shows "(MAXARGC - 3 < length (words name) \<longrightarrow> buf_args (request name oflg @ [NUL]) cli_args s = (-1, s)) \<and>
    (length (words name) \<noteq> 1 \<and> length (words name) \<le> MAXARGC - 3 \<longrightarrow>
      buf_args (request name oflg @ [NUL]) cli_args s = (-1, s\<lparr>errmsg := ''usage: <pathname> <oflag>'' @ [NEWLINE]\<rparr>)) \<and>
    (\<forall>x. words name = [x] \<longrightarrow> buf_args (request name oflg @ [NUL]) cli_args s = (0, s\<lparr>pathname := x, oflag := atoi (dec_int oflg)\<rparr>))"
proof -
  let ?b = "request name oflg @ [NUL]"
  have c: "cstr ?b = request name oflg" using nonul_request [OF assms] by simp
  have n: "NUL \<in> set ?b" by simp
  have l: "length (words (cstr ?b)) = length (words name) + 2" unfolding c words_request by simp
  note B = buf_args_words [OF n, of cli_args s]
  show ?thesis
  proof (cases "MAXARGC - 3 < length (words name)")
    case True
    then show ?thesis using B l by (auto simp: MAXARGC_def)
  next
    case False
    then have "words (cstr ?b) \<noteq> [] \<and> length (words (cstr ?b)) \<le> MAXARGC - 1" using l by (auto simp: MAXARGC_def)
    then obtain buf argv where ba: "buf_args ?b cli_args s = cli_args buf argv s" "length argv = length (words name) + 2"
      "map (arg_str buf) argv = CL_OPEN # words name @ [dec_int oflg]"
      using B unfolding l unfolding c words_request white_open by auto
    show ?thesis
    proof (cases "length (words name) = 1")
      case True
      then obtain x where x: "words name = [x]" by (cases "words name") auto
      then obtain p q r where a: "argv = [p, q, r]" using ba(2) by (auto simp: numeral_eq_Suc length_Suc_conv)
      have "arg_str buf p = CL_OPEN" "arg_str buf q = x" "arg_str buf r = dec_int oflg" using ba(3) x a by simp_all
      then show ?thesis using ba(1) a x False by (simp add: cli_args_def MAXARGC_def)
    next
      case len: False
      then show ?thesis using ba(1,2) False by (auto simp: cli_args_def)
    qed
  qed
qed

subsection \<open>Replies\<close>

text \<open>With no fault planned every send succeeds, and the descriptor table stays.\<close>

lemma send_err_ok:
  assumes "txplan s = []"
  shows "\<exists>t. send_err (-1) m s = (0, t) \<and> t = s\<lparr>tx_segs := tx_segs t\<rparr>"
proof -
  have w: "sock_writen m s = (int (length m), s\<lparr>tx_segs := tx_segs s @ (if m = [] then [] else [\<lparr>seg_bytes = m, seg_file = None\<rparr>])\<rparr>)"
    using assms by (simp add: sock_writen_def writen_loop.simps sock_send_def)
  have f: "send_fd (-1) t = (0, t\<lparr>tx_segs := tx_segs t @ [\<lparr>seg_bytes = [NUL, status_byte (-1)], seg_file = None\<rparr>]\<rparr>)" if "txplan t = []" for t :: "'a sender_scheme"
    using that by (simp add: send_fd_def sock_send_def status_byte_def Let_def)
  show ?thesis
    using assms by (cases "m = []") (simp_all add: send_err_def w f)
qed

lemma send_fd_ok:
  assumes "txplan s = []" and "tx_mallocs s = []" and "fd_lookup (tx_fds s) (int n) = Some x"
  shows "\<exists>t. send_fd (int n) s = (0, t) \<and> t = s\<lparr>tx_segs := tx_segs t, tx_cmptr := True\<rparr>"
  using assms by (cases "tx_cmptr s") (simp_all add: send_fd_def sock_send_def tx_malloc_def)

lemma status1: "- of_char (status_byte (-1)) = (-1 :: int)"
proof -
  have "status_byte (-1) = char_of (1 :: nat)" by (simp add: status_byte_def) (simp add: byte_def)
  then show ?thesis using of_nat_of_char [of "char_of (1 :: nat)", where ?'a = int] by simp
qed

definition client_ok :: "client \<Rightarrow> bool" where
  "client_ok c \<longleftrightarrow> 0 \<le> csfd c \<and> writev_ok c \<and> rx_segs c = [] \<and> rx_ok c"

definition server_ok :: "srv \<Rightarrow> bool" where
  "server_ok s \<longleftrightarrow> txplan s = [] \<and> tx_mallocs s = [] \<and> tx_segs s = []"

lemma csopen_receives:
  assumes "client_ok c" and "length (dec_int oflg) \<le> 10"
    and "peer (request name oflg @ [NUL]) = ts @ [\<lparr>seg_bytes = [NUL, b], seg_file = f\<rparr>]" and "texts ts"
    and "length (bytes_of ts) \<le> ERRMAX" and "final_ok b f"
  shows "\<exists>r c'. csopen peer junk name oflg c = (Inr r, c') \<and> arrived f b r (rx_fds c) (rx_fds c') \<and> user c' = user c @ bytes_of ts"
proof -
  let ?c = "c\<lparr>rx_segs := rx_segs c @ peer (request name oflg @ [NUL])\<rparr>"
  have p: "rx_segs ?c = ts @ [\<lparr>seg_bytes = [NUL, b], seg_file = f\<rparr>]" "length (bytes_of ts) + 2 \<le> MAXLINE" "rx_ok ?c"
    using assms by (simp_all add: client_ok_def ERRMAX_def MAXLINE_def rx_ok_def)
  obtain r c' where r: "recv_loop stderr_write (-1) junk ?c = (Inr r, c')" "arrived f b r (rx_fds c) (rx_fds c')"
    "user c' = user c @ bytes_of ts"
    using recv_loop_arrives [OF p(1) assms(4) p(2) assms(6) p(3), of junk] by auto
  have "csopen peer junk name oflg c = (Inr r, c')"
    using assms(1,2) r(1) by (simp add: csopen_def client_ok_def recv_fd_def request_def)
  then show ?thesis using r by blast
qed

lemma csopen_error:
  assumes "client_ok c" and "length (dec_int oflg) \<le> 10" and "txplan s = []" and "tx_segs s = []"
    and "peer (request name oflg @ [NUL]) = tx_segs (snd (send_err (-1) m s))" and "nonul m" and "length m \<le> ERRMAX"
  shows "\<exists>c'. csopen peer junk name oflg c = (Inr (-1), c') \<and> rx_fds c' = rx_fds c \<and> user c' = user c @ m"
proof -
  obtain t where t: "send_err (-1) m s = (0, t)" using send_err_ok assms(3) by blast
  obtain ts where ts: "tx_segs t = ts @ [\<lparr>seg_bytes = [NUL, status_byte (-1)], seg_file = None\<rparr>]" "texts ts" "bytes_of ts = m"
    using send_err_segs [OF t assms(6)] assms(4) by auto
  have f: "final_ok (status_byte (-1)) None" by (simp add: final_ok_def status_byte_def Let_def)
  from csopen_receives [OF assms(1,2) _ ts(2) _ f, of peer name junk] show ?thesis
    using assms(5,7) t ts status1 by (auto simp: arrived_def)
qed

lemma serve_one:
  assumes "bytes \<noteq> []" and "length bytes \<le> MAXLINE"
  shows "snd (serve opn strerror clifd uid bytes s) = snd (handle_request opn strerror bytes clifd uid s)"
  using assms by (simp add: serve.simps [of _ _ _ _ bytes] serve.simps [of _ _ _ _ "[]"] split: prod.splits sum.splits)

lemma snd_log_errmsg [simp]: "tx_segs (snd (log_errmsg s)) = tx_segs s" "tx_fds (snd (log_errmsg s)) = tx_fds s"
  by (simp_all add: log_errmsg_def srv_log_def split: option.splits)

lemma fd_close_lookup: "fd_lookup (fd_close n t) m = (if m = int n then None else fd_lookup t m)"
  by (auto simp: fd_lookup_def fd_close_def nth_list_update)

text \<open>The server's side of a request, by the result of \<open>buf_args\<close> and of opening the file.\<close>

lemma handle_refused:
  assumes "last buf = NUL" and "\<And>s. buf_args buf cli_args s = (-1, upd s)" and "\<And>s. tx_segs (upd s) = tx_segs s \<and> txplan (upd s) = txplan s \<and> tx_fds (upd s) = tx_fds s"
    and "\<And>m. errmsg (upd (srv_log m s)) = e" and "txplan s = []" and "tx_segs s = []"
  shows "\<exists>s1 :: srv. tx_segs (snd (handle_request opn strerror buf clifd uid s)) = tx_segs (snd (send_err (-1) e s1)) \<and>
    txplan s1 = [] \<and> tx_segs s1 = []"
proof -
  let ?s1 = "upd (srv_log (''request: '' @ cstr buf @ '', from uid '' @ dec_int (sint uid)) s)"
  have "txplan ?s1 = []" "tx_segs ?s1 = []" using assms(3,5,6) by (simp_all add: srv_log_def)
  moreover have "tx_segs (snd (handle_request opn strerror buf clifd uid s)) = tx_segs (snd (send_err (-1) e ?s1))"
    using assms(1,2,4) by (simp add: handle_request_def split: prod.splits)
  ultimately show ?thesis by blast
qed

lemma handle_fails:
  assumes "last buf = NUL" and "\<And>s. buf_args buf cli_args s = (0, s\<lparr>pathname := x, oflag := o'\<rparr>)" and "opn x o' = Some e"
    and "txplan s = []" and "tx_segs s = []"
  shows "\<exists>s1 :: srv. tx_segs (snd (handle_request opn strerror buf clifd uid s)) =
      tx_segs (snd (send_err (-1) (take ERRMAX (''can'' @ CHR 0x27 # ''t open '' @ x @ '': '' @ strerror e @ [NEWLINE])) s1)) \<and>
    txplan s1 = [] \<and> tx_segs s1 = []"
proof -
  let ?m = "take ERRMAX (''can'' @ CHR 0x27 # ''t open '' @ x @ '': '' @ strerror e @ [NEWLINE])"
  let ?s1 = "(srv_log (''request: '' @ cstr buf @ '', from uid '' @ dec_int (sint uid)) s)\<lparr>pathname := x, oflag := o', errmsg := ?m\<rparr>"
  have "txplan ?s1 = []" "tx_segs ?s1 = []" using assms(4,5) by (simp_all add: srv_log_def)
  moreover have "tx_segs (snd (handle_request opn strerror buf clifd uid s)) = tx_segs (snd (send_err (-1) ?m ?s1))"
    using assms(1,2,3) by (simp add: handle_request_def split: prod.splits)
  ultimately show ?thesis by blast
qed

lemma handle_opens:
  assumes "last buf = NUL" and "\<And>s. buf_args buf cli_args s = (0, s\<lparr>pathname := x, oflag := o'\<rparr>)" and "opn x o' = None"
    and "server_ok s"
  shows "tx_segs (snd (handle_request opn strerror buf clifd uid s)) =
      [\<lparr>seg_bytes = [NUL, NUL], seg_file = Some \<lparr>of_path = x, of_flags = o'\<rparr>\<rparr>] \<and>
    (\<forall>m. fd_lookup (tx_fds (snd (handle_request opn strerror buf clifd uid s))) m = fd_lookup (tx_fds s) m)"
proof -
  let ?f = "\<lparr>of_path = x, of_flags = o'\<rparr>"
  obtain n t where n: "fd_install ?f (tx_fds s) = (n, t)" by fastforce
  note il = fd_install_lookup [OF n]
  define s0 where "s0 = srv_log (''request: '' @ cstr buf @ '', from uid '' @ dec_int (sint uid)) s"
  let ?s1 = "s0\<lparr>pathname := x, oflag := o', tx_fds := t\<rparr>"
  have p: "txplan ?s1 = []" "tx_mallocs ?s1 = []" "tx_segs ?s1 = []" using assms(4) by (simp_all add: s0_def srv_log_def server_ok_def)
  have n0: "fd_install ?f (tx_fds s0) = (n, t)" using n by (simp add: s0_def srv_log_def)
  have l: "fd_lookup (tx_fds ?s1) (int n) = Some ?f" using il by simp
  obtain s2 where s2: "send_fd (int n) ?s1 = (0, s2)" "s2 = ?s1\<lparr>tx_segs := tx_segs s2, tx_cmptr := True\<rparr>"
    using send_fd_ok [OF p(1,2) l] by blast
  have nn: "(0 :: int) \<le> int n" by simp
  obtain b f where bf: "tx_segs s2 = [\<lparr>seg_bytes = [NUL, b], seg_file = f\<rparr>]" "final_ok b f" "f = Some ?f"
  proof (rule send_fd_segs [OF s2(1)], goal_cases)
    case (1 b f)
    show ?case by (rule 1(1)) (use 1(2,3) 1(5) [OF nn] p(3) l in simp_all)
  qed
  have t: "tx_fds s2 = t" by (subst s2(2)) simp
  let ?r = "(srv_log (''sent fd '' @ dec n @ '' over fd '' @ dec_int clifd @ '' for '' @ pathname s2) s2)\<lparr>tx_fds := fd_close n t\<rparr>"
  have "handle_request opn strerror buf clifd uid s = (Inr (), (srv_log (''sent fd '' @ dec n @ '' over fd '' @ dec_int clifd @ '' for '' @ pathname s2) s2)
      \<lparr>tx_fds := fd_close n (tx_fds s2)\<rparr>)"
    using assms(1,3) n0 s2(1) by (simp only: handle_request_def Let_def s0_def [symmetric] assms(2) prod.case srv.simps sender.simps option.case) simp
  then have h: "snd (handle_request opn strerror buf clifd uid s) = ?r" using t by (simp add: srv_log_def)
  have b: "b = NUL" using bf(2,3) by (simp add: final_ok_def)
  have "tx_segs ?r = [\<lparr>seg_bytes = [NUL, NUL], seg_file = Some ?f\<rparr>]" using bf(1,3) b by (simp add: srv_log_def)
  moreover have "fd_lookup (tx_fds ?r) m = fd_lookup (tx_fds s) m" for m using il [of m] by (simp add: fd_close_lookup)
  ultimately show ?thesis unfolding h by blast
qed

text \<open>The server as its client sees it: the bytes of a request are answered with segments.\<close>

definition opend_peer :: "(string \<Rightarrow> int \<Rightarrow> nat option) \<Rightarrow> (nat \<Rightarrow> string) \<Rightarrow> int \<Rightarrow> 32 word \<Rightarrow> srv \<Rightarrow> string \<Rightarrow> seg list" where
  "opend_peer opn strerror clifd uid s bytes = tx_segs (snd (serve opn strerror clifd uid bytes s))"

subsection \<open>The properties\<close>

text \<open>
  C22. An open request end to end: \<open>csopen\<close> sends the name and the flags, the server opens the one
  word of the name with exactly these flags, and the caller gets a new descriptor of that
  open file while the server's own descriptors are as before; when the open fails the caller
  gets -1 and the text with the reason goes to its standard error, cut at the server's buffer.
\<close>

theorem open_request_served:
  assumes "nonul name" and "words name = [x]" and "- (2 ^ 31) \<le> oflg" and "oflg < 2 ^ 31" and "length (dec_int oflg) \<le> 10"
    and "length (request name oflg) < MAXLINE" and "client_ok c" and "server_ok s" and "\<And>e. nonul (strerror e)"
  shows "case opn x oflg of
      None \<Rightarrow> \<exists>n c'. csopen (opend_peer opn strerror clifd uid s) junk name oflg c = (Inr n, c') \<and> user c' = user c \<and> 0 \<le> n \<and> fd_lookup (rx_fds c) n = None \<and>
        (\<forall>m. fd_lookup (rx_fds c') m = (if m = n then Some \<lparr>of_path = x, of_flags = oflg\<rparr> else fd_lookup (rx_fds c) m)) \<and>
        (\<forall>m. fd_lookup (tx_fds (snd (serve opn strerror clifd uid (request name oflg @ [NUL]) s))) m = fd_lookup (tx_fds s) m)
    | Some e \<Rightarrow> \<exists>c'. csopen (opend_peer opn strerror clifd uid s) junk name oflg c = (Inr (-1), c') \<and> rx_fds c' = rx_fds c \<and>
        user c' = user c @ take ERRMAX (''can'' @ CHR 0x27 # ''t open '' @ x @ '': '' @ strerror e @ [NEWLINE])"
proof -
  let ?b = "request name oflg @ [NUL]"
  have ba: "buf_args ?b cli_args s = (0, s\<lparr>pathname := x, oflag := oflg\<rparr>)" for s
    using buf_args_request [OF assms(1), of oflg s] assms(2) atoi_dec_int [OF assms(3,4)] by simp
  have so: "snd (serve opn strerror clifd uid ?b s) = snd (handle_request opn strerror ?b clifd uid s)"
    using assms(6) by (intro serve_one) simp_all
  have lb: "last ?b = NUL" by simp
  have sv: "txplan s = []" "tx_segs s = []" using assms(8) by (simp_all add: server_ok_def)
  show ?thesis
  proof (cases "opn x oflg")
    case None
    note h = handle_opens [where opn = opn and strerror = strerror and clifd = clifd and uid = uid, OF lb ba None assms(8)]
    have p: "opend_peer opn strerror clifd uid s ?b = [] @ [\<lparr>seg_bytes = [NUL, NUL], seg_file = Some \<lparr>of_path = x, of_flags = oflg\<rparr>\<rparr>]"
      using h by (simp add: opend_peer_def so)
    have f: "final_ok NUL (Some \<lparr>of_path = x, of_flags = oflg\<rparr>)" by (simp add: final_ok_def)
    from csopen_receives [where peer = "opend_peer opn strerror clifd uid s" and name = name, OF assms(7,5) p _ _ f, of junk] obtain r c' where "csopen (opend_peer opn strerror clifd uid s) junk name oflg c = (Inr r, c')"
      "arrived (Some \<lparr>of_path = x, of_flags = oflg\<rparr>) NUL r (rx_fds c) (rx_fds c')" "user c' = user c" by auto
    then show ?thesis unfolding None option.case using h unfolding so by (intro exI [of _ r] exI [of _ c']) (simp add: arrived_def)
  next
    case (Some e)
    let ?m = "take ERRMAX (''can'' @ CHR 0x27 # ''t open '' @ x @ '': '' @ strerror e @ [NEWLINE])"
    obtain s1 :: srv where s1: "tx_segs (snd (handle_request opn strerror ?b clifd uid s)) = tx_segs (snd (send_err (-1) ?m s1))"
      "txplan s1 = []" "tx_segs s1 = []"
      using handle_fails [where opn = opn and strerror = strerror and clifd = clifd and uid = uid, OF lb ba Some sv] by blast
    have "x \<in> set (words name)" using assms(2) by simp
    then have "nonul x" using words_parts [of x name] assms(1) by (auto simp: nonul_def)
    then have "nonul (''can'' @ CHR 0x27 # ''t open '' @ x @ '': '' @ strerror e @ [NEWLINE])" using assms(9) by simp
    then have n: "nonul ?m" by (auto simp only: nonul_def dest: in_set_takeD)
    have p: "opend_peer opn strerror clifd uid s ?b = tx_segs (snd (send_err (-1) ?m s1))" unfolding opend_peer_def so by (rule s1(1))
    have l: "length ?m \<le> ERRMAX" by simp
    show ?thesis unfolding Some option.case using csopen_error [where peer = "opend_peer opn strerror clifd uid s" and name = name, OF assms(7,5) s1(2,3) p n l, of junk] by blast
  qed
qed

definition sample_client :: client where
  "sample_client = \<lparr>rx_fds = [], rx_cmptr = False, rx_mallocs = [], rx_segs = [], rxplan = [], user = '''', csfd = 3, conn = 3, writev_ok = True\<rparr>"

definition sample_server :: "string \<Rightarrow> srv" where
  "sample_server e = \<lparr>tx_fds = [None], tx_cmptr = False, tx_mallocs = [], tx_segs = [], txplan = [], errmsg = e, pathname = '''', oflag = 0, log = []\<rparr>"

lemma sample_ok: "client_ok sample_client" "server_ok (sample_server e)"
  by (simp_all add: sample_client_def sample_server_def client_ok_def server_ok_def rx_ok_def)

theorem open_request_served_witness:
  "\<exists>n c'. csopen (opend_peer (\<lambda>_ _. None) (\<lambda>_. '''') 4 0 (sample_server '''')) 0 '' motd'' 2 sample_client = (Inr n, c') \<and>
     fd_lookup (rx_fds c') n = Some \<lparr>of_path = ''motd'', of_flags = 2\<rparr>"
proof -
  have d: "dec_int 2 = ''2''" by code_simp
  have w: "nonul '' motd''" "words '' motd'' = [''motd'']" by code_simp+
  have l: "length (dec_int 2) \<le> 10" "length (request '' motd'' 2) < MAXLINE" by (simp_all add: d request_def CL_OPEN_def MAXLINE_def)
  from open_request_served [OF w _ _ l sample_ok(1) sample_ok(2) [of "''''"], of "\<lambda>_. ''''" "\<lambda>_ _. None" 4 0 0]
  show ?thesis by fastforce
qed

text \<open>
  C23. A name that is not one word: \<open>csopen\<close> returns -1 and no file is opened; with none or with two to
  47 words the usage line goes to the caller's standard error, but with more words
  \<open>buf_args\<close> gives up without setting \<open>errmsg\<close>, and the caller is sent whatever the server had
  last put there, the error message of another client's request.
\<close>

theorem open_request_refused:
  assumes "nonul name" and "length (words name) \<noteq> 1" and "length (dec_int oflg) \<le> 10"
    and "length (request name oflg) < MAXLINE" and "client_ok c" and "server_ok s" and "nonul (errmsg s)" and "length (errmsg s) \<le> ERRMAX"
  shows "\<exists>c'. csopen (opend_peer opn strerror clifd uid s) junk name oflg c = (Inr (-1), c') \<and> rx_fds c' = rx_fds c \<and>
    user c' = user c @ (if length (words name) \<le> MAXARGC - 3 then ''usage: <pathname> <oflag>'' @ [NEWLINE] else errmsg s)"
proof -
  let ?b = "request name oflg @ [NUL]"
  let ?upd = "\<lambda>s :: srv. if length (words name) \<le> MAXARGC - 3 then s\<lparr>errmsg := ''usage: <pathname> <oflag>'' @ [NEWLINE]\<rparr> else s"
  let ?m = "if length (words name) \<le> MAXARGC - 3 then ''usage: <pathname> <oflag>'' @ [NEWLINE] else errmsg s"
  have ba: "buf_args ?b cli_args s = (-1, ?upd s)" for s
    using buf_args_request [OF assms(1), of oflg s] assms(2) by simp
  have so: "snd (serve opn strerror clifd uid ?b s) = snd (handle_request opn strerror ?b clifd uid s)"
    using assms(4) by (intro serve_one) simp_all
  have sv: "txplan s = []" "tx_segs s = []" using assms(6) by (simp_all add: server_ok_def)
  have lb: "last ?b = NUL" by simp
  have fr: "tx_segs (?upd s) = tx_segs s \<and> txplan (?upd s) = txplan s \<and> tx_fds (?upd s) = tx_fds s" for s by simp
  have em: "errmsg (?upd (srv_log m s)) = ?m" for m by (simp add: srv_log_def)
  obtain s1 :: srv where s1: "tx_segs (snd (handle_request opn strerror ?b clifd uid s)) = tx_segs (snd (send_err (-1) ?m s1))"
    "txplan s1 = []" "tx_segs s1 = []"
    using handle_refused [where upd = ?upd and opn = opn and strerror = strerror and clifd = clifd and uid = uid, OF lb ba fr em sv] by blast
  have n: "nonul ?m" "length ?m \<le> ERRMAX" using assms(7,8) by (simp_all add: ERRMAX_def MAXLINE_def)
  have p: "opend_peer opn strerror clifd uid s ?b = tx_segs (snd (send_err (-1) ?m s1))" unfolding opend_peer_def so by (rule s1(1))
  show ?thesis using csopen_error [where peer = "opend_peer opn strerror clifd uid s" and name = name, OF assms(5,3) s1(2,3) p n, of junk] .
qed

theorem open_request_refused_witness:
  "\<exists>c'. csopen (opend_peer (\<lambda>_ _. None) (\<lambda>_. '''') 4 0 (sample_server ''secret'')) 0
     (concat (replicate 48 ''a '')) 0 sample_client = (Inr (-1), c') \<and> user c' = ''secret''"
proof -
  let ?n = "concat (replicate 48 ''a '')"
  have d: "dec_int 0 = ''0''" by code_simp
  have r: "words (concat (replicate k ''a '')) = replicate k ''a''" for k
    by (induction k) (simp_all add: words_append [of SPACE "''a''", simplified] words_single is_white_def)
  have w: "nonul ?n" "length (words ?n) = 48" unfolding r by (simp_all add: numeral_eq_Suc)
  then have w1: "length (words ?n) \<noteq> 1" by simp
  have l: "length (dec_int 0) \<le> 10" "length (request ?n 0) < MAXLINE"
    by (simp_all add: d request_def CL_OPEN_def MAXLINE_def length_concat sum_list_replicate)
  have e: "nonul (errmsg (sample_server ''secret''))" "length (errmsg (sample_server ''secret'')) \<le> ERRMAX"
    by (simp_all add: sample_server_def ERRMAX_def MAXLINE_def)
  from open_request_refused [OF w(1) w1 l sample_ok e, of "\<lambda>_ _. None" "\<lambda>_. ''''" 4 0 0]
  show ?thesis using w(2) by (auto simp: MAXARGC_def sample_server_def sample_client_def)
qed

end
