(* ===== verification/FMemOpen.thy ===== *)
theory FMemOpen
  imports CString
begin

section \<open>Memory streams (exercises/fmemopen.c)\<close>

text \<open>
  The state of a memory stream and the functions behind it. The buffer is the memory at \<open>buf\<close>, as
  long as its real size; storing outside of it is an error of the model (\<open>None\<close>). The
  specification is a file of bounded size with a position and an open mode, and streams of every mode
  refine it. Lengths are below 2^31, where the
  conversions between \<open>int\<close> and \<open>size_t\<close> change nothing; \<open>mstream_seek\<close> cuts a 64-bit position to an \<open>int\<close>, so
  the refinement needs offsets whose sums with a position fit in one.
\<close>

datatype ms_errno = EINVAL | ENOMEM | EBADF

record ms_flags =
  ms_read :: bool
  ms_write :: bool
  ms_append :: bool
  ms_truncate :: bool
  ms_mybuf :: bool

record memstream =
  buf :: string
  rsize :: nat
  vsize :: nat
  curpos :: nat
  flags :: ms_flags

definition no_flags :: ms_flags where
  "no_flags = \<lparr>ms_read = False, ms_write = False, ms_append = False, ms_truncate = False, ms_mybuf = False\<rparr>"

text \<open>\<open>type_to_flags\<close>; \<open>None\<close> is the result 0.\<close>

definition flag_step :: "char \<Rightarrow> ms_flags \<Rightarrow> ms_flags option" where
  "flag_step c f =
     (if c = CHR ''r'' then if f \<noteq> no_flags then None else Some (f\<lparr>ms_read := True\<rparr>)
      else if c = CHR ''w'' then if f \<noteq> no_flags then None else Some (f\<lparr>ms_write := True, ms_truncate := True\<rparr>)
      else if c = CHR ''a'' then if f \<noteq> no_flags then None else Some (f\<lparr>ms_append := True\<rparr>)
      else if c = CHR ''+'' then if f = no_flags then None else Some (f\<lparr>ms_read := True, ms_write := True\<rparr>)
      else if c = CHR ''b'' then if f = no_flags then None else Some f
      else None)"

primrec flag_loop :: "string \<Rightarrow> ms_flags \<Rightarrow> ms_flags option" where
  "flag_loop [] f = Some f"
| "flag_loop (c # cs) f = (case flag_step c f of None \<Rightarrow> None | Some f \<Rightarrow> flag_loop cs f)"

definition type_to_flags :: "string \<Rightarrow> ms_flags option" where
  "type_to_flags t = (case flag_loop (cstr t) no_flags of None \<Rightarrow> None | Some f \<Rightarrow> if f = no_flags then None else Some f)"

definition find_end :: "string \<Rightarrow> nat \<Rightarrow> nat" where
  "find_end b len = length (takeWhile (\<lambda>c. c \<noteq> NUL) (take len b))"

text \<open>
  \<open>fmemopen\<close>: \<open>ok1\<close>, \<open>ok2\<close> say whether the two allocations succeed, \<open>fresh\<close> is the contents of
  allocated memory, and \<open>fp\<close> whether \<open>funopen\<close> gives a stream (it sets \<open>errno\<close> itself).
\<close>

definition fmemopen :: "bool \<Rightarrow> bool \<Rightarrow> bool \<Rightarrow> string \<Rightarrow> string option \<Rightarrow> nat \<Rightarrow> string \<Rightarrow> ms_errno option + memstream" where
  "fmemopen ok1 ok2 fp fresh b sz t =
     (if sz = 0 then Inl (Some EINVAL)
      else if \<not> ok1 then Inl (Some ENOMEM)
      else case type_to_flags t of
        None \<Rightarrow> Inl (Some EINVAL)
      | Some f \<Rightarrow>
          if b = None \<and> \<not> (ms_read f \<and> ms_write f) then Inl (Some EINVAL)
          else if b = None \<and> \<not> ok2 then Inl (Some ENOMEM)
          else
            let ms = (case b of
                  None \<Rightarrow> \<lparr>buf = fresh, rsize = sz, vsize = 0, curpos = 0, flags = f\<lparr>ms_mybuf := True\<rparr>\<rparr>
                | Some bs \<Rightarrow> \<lparr>buf = bs, rsize = sz, vsize = 0, curpos = (if ms_append f then find_end bs sz else 0), flags = f\<rparr>);
                ms = ms\<lparr>vsize := (if ms_append f then curpos ms else if ms_truncate f then 0 else sz)\<rparr>
            in if fp then Inr ms else Inl None)"

definition mstream_read :: "nat \<Rightarrow> memstream \<Rightarrow> (ms_errno + string) \<times> memstream" where
  "mstream_read len ms =
     (if \<not> ms_read (flags ms) then (Inl EBADF, ms)
      else if vsize ms \<le> curpos ms then (Inr [], ms)
      else let nr = min len (vsize ms - curpos ms)
           in (Inr (take nr (drop (curpos ms) (buf ms))), ms\<lparr>curpos := curpos ms + nr\<rparr>))"

definition store :: "nat \<Rightarrow> string \<Rightarrow> string \<Rightarrow> string option" where
  "store off bs b = (if off + length bs \<le> length b then Some (splice b off bs) else None)"

definition mstream_write :: "string \<Rightarrow> memstream \<Rightarrow> ((ms_errno + nat) \<times> memstream) option" where
  "mstream_write bs ms =
     (if \<not> (ms_append (flags ms) \<or> ms_write (flags ms)) then Some (Inl EBADF, ms)
      else
        let off = (if ms_append (flags ms) then vsize ms else curpos ms);
            nw = min (length bs) (rsize ms - off)
        in case store off (take nw bs) (buf ms) of
             None \<Rightarrow> None
           | Some b \<Rightarrow>
               let pos = off + nw;
                   grow = vsize ms < pos;
                   v = (if grow then pos else vsize ms)
               in case (if grow \<and> ms_read (flags ms) \<and> ms_write (flags ms) \<and> v < rsize ms then store v [NUL] b else Some b) of
                    None \<Rightarrow> None
                  | Some b \<Rightarrow>
                      (case (if (ms_write (flags ms) \<or> ms_append (flags ms)) \<and> \<not> ms_read (flags ms)
                             then store (if pos < rsize ms then pos else rsize ms - 1) [NUL] b else Some b) of
                         None \<Rightarrow> None
                       | Some b \<Rightarrow> Some (Inr nw, ms\<lparr>buf := b, curpos := pos, vsize := v\<rparr>)))"

datatype whence = SEEK_SET | SEEK_END | SEEK_CUR | SEEK_OTHER

definition to_int32 :: "int \<Rightarrow> int" where
  "to_int32 x = (x + 2 ^ 31) mod 2 ^ 32 - 2 ^ 31"

text \<open>With another \<open>whence\<close> the offset is not set: \<open>junk\<close> is its value.\<close>

definition mstream_seek :: "int \<Rightarrow> int \<Rightarrow> whence \<Rightarrow> memstream \<Rightarrow> (ms_errno + int) \<times> memstream" where
  "mstream_seek junk pos w ms =
     (let off = (case w of
            SEEK_SET \<Rightarrow> to_int32 pos
          | SEEK_END \<Rightarrow> to_int32 (int (vsize ms) + pos)
          | SEEK_CUR \<Rightarrow> to_int32 (int (curpos ms) + pos)
          | SEEK_OTHER \<Rightarrow> junk)
      in if off < 0 \<or> int (vsize ms) < off then (Inl EINVAL, ms)
         else (Inr off, ms\<lparr>curpos := nat off\<rparr>))"

text \<open>\<open>mstream_close\<close>: what is freed besides the stream itself.\<close>

definition mstream_close :: "memstream \<Rightarrow> bool \<times> int" where
  "mstream_close ms = (ms_mybuf (flags ms), 0)"

subsection \<open>A bounded file\<close>

record mfile =
  content :: string
  fpos :: nat
  limit :: nat
  readable :: bool
  writable :: bool
  appends :: bool

definition file_of :: "memstream \<Rightarrow> mfile" where
  "file_of ms = \<lparr>content = take (vsize ms) (buf ms), fpos = curpos ms, limit = rsize ms, readable = ms_read (flags ms),
     writable = ms_append (flags ms) \<or> ms_write (flags ms), appends = ms_append (flags ms)\<rparr>"

datatype ms_op = OpRead nat | OpWrite string | OpSeek int whence
datatype ms_out = Bytes string | Count nat | Pos int | Failed ms_errno

definition file_read :: "nat \<Rightarrow> mfile \<Rightarrow> ms_out \<times> mfile" where
  "file_read n f =
     (if \<not> readable f then (Failed EBADF, f)
      else let bs = take n (drop (fpos f) (content f)) in (Bytes bs, f\<lparr>fpos := fpos f + length bs\<rparr>))"

text \<open>A write goes to the position, or to the end of a file that appends; a file that cannot be read back is ended by a null byte at the
  new position, or at the end of the buffer.\<close>

definition file_write :: "string \<Rightarrow> mfile \<Rightarrow> ms_out \<times> mfile" where
  "file_write bs f =
     (if \<not> writable f then (Failed EBADF, f)
      else let p = (if appends f then length (content f) else fpos f);
               bs = take (limit f - p) bs; q = p + length bs; c = splice (content f) p bs
           in (Count (length bs), f\<lparr>content := (if readable f then c else c[min q (limit f - 1) := NUL]), fpos := q\<rparr>))"

definition file_seek :: "int \<Rightarrow> whence \<Rightarrow> mfile \<Rightarrow> ms_out \<times> mfile" where
  "file_seek p w f =
     (let off = (case w of SEEK_SET \<Rightarrow> p | SEEK_CUR \<Rightarrow> int (fpos f) + p | SEEK_END \<Rightarrow> int (length (content f)) + p | SEEK_OTHER \<Rightarrow> -1)
      in if off < 0 \<or> int (length (content f)) < off then (Failed EINVAL, f) else (Pos off, f\<lparr>fpos := nat off\<rparr>))"

definition file_step :: "ms_op \<Rightarrow> mfile \<Rightarrow> ms_out \<times> mfile" where
  "file_step p f = (case p of OpRead n \<Rightarrow> file_read n f | OpWrite bs \<Rightarrow> file_write bs f | OpSeek q w \<Rightarrow> file_seek q w f)"

primrec file_run :: "ms_op list \<Rightarrow> mfile \<Rightarrow> ms_out list \<times> mfile" where
  "file_run [] f = ([], f)"
| "file_run (p # ps) f = (let (r, f) = file_step p f; (rs, f) = file_run ps f in (r # rs, f))"

definition ms_ok :: "memstream \<Rightarrow> bool" where
  "ms_ok ms \<longleftrightarrow> length (buf ms) = rsize ms \<and> 0 < rsize ms \<and> vsize ms \<le> rsize ms \<and> curpos ms \<le> vsize ms \<and> rsize ms < 2 ^ 31"

lemma find_end_le: "find_end b n \<le> n"
  by (simp add: find_end_def le_trans [OF length_takeWhile_le])

lemma to_int32_id: "- (2 ^ 31) \<le> x \<Longrightarrow> x < 2 ^ 31 \<Longrightarrow> to_int32 x = x"
  by (simp add: to_int32_def)

lemma fmemopen_ok:
  assumes "fmemopen ok1 ok2 fp fresh b sz t = Inr ms" and "sz < 2 ^ 31" and "length fresh = sz" and "\<And>bs. b = Some bs \<Longrightarrow> length bs = sz"
  shows "ms_ok ms"
proof -
  have s: "0 < sz" using assms(1) by (cases "sz = 0") (auto simp: fmemopen_def)
  show ?thesis
    using assms s find_end_le [of _ sz]
    by (auto simp: fmemopen_def ms_ok_def Let_def split: if_splits option.splits)
qed

lemma take_splice:
  assumes "off \<le> v" and "v \<le> length b" and "off + length bs \<le> length b"
  shows "take (max v (off + length bs)) (splice b off bs) = splice (take v b) off bs"
proof (cases "v \<le> off + length bs")
  case True
  then show ?thesis using assms by (cases bs) (auto simp: splice_def max_def min_def)
next
  case False
  then show ?thesis using assms by (simp add: splice_def max_def min_def drop_take)
qed

lemma take_splice_after: "v \<le> p \<Longrightarrow> v \<le> length b \<Longrightarrow> take v (splice b p bs) = take v b"
  by (simp add: splice_def min_def)

lemma mstream_write_ok:
  assumes "ms_ok ms"
  shows "\<exists>r ms'. mstream_write bs ms = Some (r, ms') \<and> ms_ok ms' \<and> rsize ms' = rsize ms \<and>
    file_write bs (file_of ms) = (case r of Inl e \<Rightarrow> Failed e | Inr n \<Rightarrow> Count n, file_of ms')"
proof (cases "ms_append (flags ms) \<or> ms_write (flags ms)")
  case False
  then show ?thesis using assms by (simp add: mstream_write_def file_write_def file_of_def)
next
  case True
  define off where "off = (if ms_append (flags ms) then vsize ms else curpos ms)"
  define nw where "nw = min (length bs) (rsize ms - off)"
  define cs where "cs = take nw bs"
  define b1 where "b1 = splice (buf ms) off cs"
  define pos where "pos = off + nw"
  define v where "v = max (vsize ms) pos"
  have ok: "length (buf ms) = rsize ms" "0 < rsize ms" "vsize ms \<le> rsize ms" "curpos ms \<le> vsize ms" "rsize ms < 2 ^ 31"
    using assms by (simp_all add: ms_ok_def)
  have off: "off \<le> vsize ms" using ok by (simp add: off_def)
  have lc: "length cs = nw" by (simp add: cs_def nw_def)
  have pr: "pos \<le> rsize ms" using off ok by (simp add: pos_def nw_def)
  have s1: "store off cs (buf ms) = Some b1" using pr ok by (simp add: store_def b1_def pos_def lc)
  have l1: "length b1 = rsize ms" using pr ok by (simp add: b1_def length_splice pos_def lc)
  have vr: "v \<le> rsize ms" using pr ok by (simp add: v_def)
  define b2 where "b2 = (if vsize ms < pos \<and> ms_read (flags ms) \<and> ms_write (flags ms) \<and> v < rsize ms then splice b1 v [NUL] else b1)"
  have l2: "length b2 = rsize ms" using l1 vr by (simp add: b2_def length_splice)
  define b3 where "b3 = (if \<not> ms_read (flags ms) then splice b2 (if pos < rsize ms then pos else rsize ms - 1) [NUL] else b2)"
  have l3: "length b3 = rsize ms" using l2 ok(2) by (simp add: b3_def length_splice)
  have w: "mstream_write bs ms = Some (Inr nw, ms\<lparr>buf := b3, curpos := pos, vsize := v\<rparr>)"
  proof -
    have v': "(if vsize ms < pos then pos else vsize ms) = v" by (simp add: v_def max_def)
    have s2: "(if vsize ms < pos \<and> ms_read (flags ms) \<and> ms_write (flags ms) \<and> v < rsize ms then store v [NUL] b1 else Some b1) = Some b2"
      using l1 by (simp add: store_def b2_def)
    have s3: "(if (ms_write (flags ms) \<or> ms_append (flags ms)) \<and> \<not> ms_read (flags ms)
        then store (if pos < rsize ms then pos else rsize ms - 1) [NUL] b2 else Some b2) = Some b3"
      using l2 True ok(2) by (auto simp: store_def b3_def)
    have "\<not> \<not> (ms_append (flags ms) \<or> ms_write (flags ms))" using True by simp
    then show ?thesis
      unfolding mstream_write_def Let_def off_def [symmetric] if_not_P [OF \<open>\<not> \<not> (ms_append (flags ms) \<or> ms_write (flags ms))\<close>]
        nw_def [symmetric] cs_def [symmetric] s1 option.case pos_def [symmetric] v' s2 s3 by simp
  qed
  have okn: "ms_ok (ms\<lparr>buf := b3, curpos := pos, vsize := v\<rparr>)" using ok l3 vr by (simp add: ms_ok_def v_def)
  have p: "(if ms_append (flags ms) then length (take (vsize ms) (buf ms)) else curpos ms) = off" using ok by (simp add: off_def)
  have c: "take (rsize ms - off) bs = cs" by (simp add: cs_def nw_def min_def)
  have b1: "take v b1 = splice (take (vsize ms) (buf ms)) off cs"
    using take_splice [OF off, of "buf ms" cs] ok(1,3) pr by (simp add: v_def pos_def b1_def lc)
  have b2: "take v b2 = take v b1" using take_splice_after [of v v b1 "[NUL]"] l1 vr by (simp add: b2_def)
  have k: "(if pos < rsize ms then pos else rsize ms - 1) = min pos (rsize ms - 1)" using pr ok(2) by (auto simp: min_def)
  have "splice b2 k [NUL] = b2[k := NUL]" if "k < length b2" for k using that by (simp add: splice_def upd_conv_take_nth_drop)
  then have b3: "b3 = (if ms_read (flags ms) then b2 else b2[min pos (rsize ms - 1) := NUL])"
    unfolding b3_def k using l2 ok(2) by simp
  have t: "take v b3 = (if ms_read (flags ms) then splice (take (vsize ms) (buf ms)) off cs
      else (splice (take (vsize ms) (buf ms)) off cs)[min pos (rsize ms - 1) := NUL])"
    unfolding b3 using b1 b2 by (simp add: take_update_swap)
  have fw: "file_write bs (file_of ms) = (Count nw, file_of (ms\<lparr>buf := b3, curpos := pos, vsize := v\<rparr>))"
    using True unfolding file_write_def file_of_def Let_def mfile.simps p c lc by (simp add: t pos_def lc)
  show ?thesis using w okn fw by (intro exI [of _ "Inr nw"] exI [of _ "ms\<lparr>buf := b3, curpos := pos, vsize := v\<rparr>"]) simp
qed

lemma mstream_read_ok:
  assumes "ms_ok ms"
  shows "ms_ok (snd (mstream_read n ms)) \<and> rsize (snd (mstream_read n ms)) = rsize ms \<and>
    file_read n (file_of ms) = (case fst (mstream_read n ms) of Inl e \<Rightarrow> Failed e | Inr bs \<Rightarrow> Bytes bs, file_of (snd (mstream_read n ms)))"
proof -
  have "take (min n (vsize ms - curpos ms)) (drop (curpos ms) (buf ms)) = take n (drop (curpos ms) (take (vsize ms) (buf ms)))"
    by (simp add: drop_take)
  moreover have "length (take n (drop (curpos ms) (take (vsize ms) (buf ms)))) = min n (vsize ms - curpos ms)"
    using assms by (simp add: ms_ok_def)
  ultimately show ?thesis
    using assms by (auto simp: mstream_read_def file_read_def file_of_def ms_ok_def Let_def)
qed

text \<open>An offset of which every sum with a position of the stream is an \<open>int\<close>.\<close>

definition seek_fits :: "nat \<Rightarrow> int \<Rightarrow> whence \<Rightarrow> bool" where
  "seek_fits sz p w \<longleftrightarrow> w \<noteq> SEEK_OTHER \<and> - (2 ^ 31) \<le> p \<and> p < 2 ^ 31 - int sz"

lemma mstream_seek_ok:
  assumes "ms_ok ms"
  shows "ms_ok (snd (mstream_seek junk p w ms)) \<and> rsize (snd (mstream_seek junk p w ms)) = rsize ms"
  using assms by (auto simp: mstream_seek_def ms_ok_def Let_def)

lemma mstream_seek_file:
  assumes "ms_ok ms" and "seek_fits (rsize ms) p w"
  shows "file_seek p w (file_of ms) = (case fst (mstream_seek junk p w ms) of Inl e \<Rightarrow> Failed e | Inr off \<Rightarrow> Pos off, file_of (snd (mstream_seek junk p w ms)))"
proof -
  have "vsize ms \<le> rsize ms" "curpos ms \<le> vsize ms" "length (take (vsize ms) (buf ms)) = vsize ms" using assms(1) by (auto simp: ms_ok_def)
  moreover have "to_int32 p = p" "to_int32 (int (vsize ms) + p) = int (vsize ms) + p" "to_int32 (int (curpos ms) + p) = int (curpos ms) + p"
    using assms(2) calculation by (intro to_int32_id; simp add: seek_fits_def)+
  ultimately show ?thesis
    using assms(2) by (cases w) (simp_all add: mstream_seek_def file_seek_def file_of_def seek_fits_def Let_def)
qed

subsection \<open>Runs of a stream\<close>

text \<open>The result and the next state; \<open>None\<close> when the function stores outside of the buffer.\<close>

definition ms_step :: "int \<Rightarrow> ms_op \<Rightarrow> memstream \<Rightarrow> (ms_out \<times> memstream) option" where
  "ms_step junk p ms =
     (case p of
        OpRead n \<Rightarrow> (case mstream_read n ms of (r, ms) \<Rightarrow> Some (case r of Inl e \<Rightarrow> Failed e | Inr bs \<Rightarrow> Bytes bs, ms))
      | OpWrite bs \<Rightarrow> map_option (\<lambda>(r, ms). (case r of Inl e \<Rightarrow> Failed e | Inr n \<Rightarrow> Count n, ms)) (mstream_write bs ms)
      | OpSeek q w \<Rightarrow> (case mstream_seek junk q w ms of (r, ms) \<Rightarrow> Some (case r of Inl e \<Rightarrow> Failed e | Inr off \<Rightarrow> Pos off, ms)))"

primrec ms_run :: "int \<Rightarrow> ms_op list \<Rightarrow> memstream \<Rightarrow> (ms_out list \<times> memstream) option" where
  "ms_run junk [] ms = Some ([], ms)"
| "ms_run junk (p # ps) ms =
     (case ms_step junk p ms of None \<Rightarrow> None | Some (r, ms) \<Rightarrow> map_option (\<lambda>(rs, ms). (r # rs, ms)) (ms_run junk ps ms))"

definition ops_fit :: "nat \<Rightarrow> ms_op list \<Rightarrow> bool" where
  "ops_fit sz ps \<longleftrightarrow> (\<forall>p\<in>set ps. case p of OpSeek q w \<Rightarrow> seek_fits sz q w | _ \<Rightarrow> True)"

lemma ms_step_ok:
  assumes "ms_ok ms"
  shows "\<exists>r ms'. ms_step junk p ms = Some (r, ms') \<and> ms_ok ms' \<and> rsize ms' = rsize ms \<and>
    (ops_fit (rsize ms) [p] \<longrightarrow> file_step p (file_of ms) = (r, file_of ms'))"
proof (cases p)
  case (OpRead n)
  then show ?thesis using mstream_read_ok [OF assms, of n] by (auto simp: ms_step_def file_step_def split: prod.split)
next
  case (OpWrite bs)
  then show ?thesis using mstream_write_ok [OF assms, of bs] by (auto simp: ms_step_def file_step_def)
next
  case (OpSeek q w)
  then show ?thesis using mstream_seek_ok [OF assms, of junk q w] mstream_seek_file [OF assms, of q w junk]
    by (auto simp: ms_step_def file_step_def ops_fit_def split: prod.split)
qed

lemma ms_run_ok:
  "ms_ok ms \<Longrightarrow> \<exists>rs ms'. ms_run junk ps ms = Some (rs, ms') \<and> ms_ok ms' \<and> rsize ms' = rsize ms \<and>
    (ops_fit (rsize ms) ps \<longrightarrow> file_run ps (file_of ms) = (rs, file_of ms'))"
proof (induction ps arbitrary: ms)
  case (Cons p ps)
  obtain r ms1 where 1: "ms_step junk p ms = Some (r, ms1)" "ms_ok ms1" "rsize ms1 = rsize ms"
    "ops_fit (rsize ms) [p] \<longrightarrow> file_step p (file_of ms) = (r, file_of ms1)" using ms_step_ok [OF Cons.prems] by blast
  obtain rs ms2 where 2: "ms_run junk ps ms1 = Some (rs, ms2)" "ms_ok ms2" "rsize ms2 = rsize ms1"
    "ops_fit (rsize ms1) ps \<longrightarrow> file_run ps (file_of ms1) = (rs, file_of ms2)" using Cons.IH [OF 1(2)] by blast
  have "ops_fit (rsize ms) (p # ps) \<Longrightarrow> ops_fit (rsize ms) [p] \<and> ops_fit (rsize ms1) ps" using 1(3) by (simp add: ops_fit_def)
  then show ?case using 1 2 by (intro exI [of _ "r # rs"] exI [of _ ms2]) auto
qed simp

lemma find_end_eq: "find_end b (length b) = length (takeWhile (\<lambda>c. c \<noteq> NUL) b)"
  by (simp add: find_end_def)

lemma take_takeWhile: "take (length (takeWhile P xs)) xs = takeWhile P xs"
  by (metis takeWhile_eq_take)

subsection \<open>The property\<close>

text \<open>
  C27. A memory stream opened on a buffer of its size never stores outside of the buffer and keeps its
  position within its contents, whatever is read, written and sought on it in any mode. It is a file bounded by the buffer: opened on a buffer it has
  the contents of the buffer, up to the first null byte for appending and none after truncation; and every read, write and
  seek of any sequence gives the result that it gives on that file, in every mode, as long as the offsets of
  the seeks are such that no sum with a position leaves the range of an \<open>int\<close>.
\<close>

theorem memstream_refines_file:
  assumes "fmemopen ok1 ok2 True fresh b sz t = Inr ms0" and "sz < 2 ^ 31" and "length fresh = sz" and "\<And>bs. b = Some bs \<Longrightarrow> length bs = sz"
  shows "\<exists>rs ms. ms_run junk ps ms0 = Some (rs, ms) \<and> length (buf ms) = sz \<and> curpos ms \<le> vsize ms \<and> vsize ms \<le> sz \<and>
    (ops_fit sz ps \<longrightarrow> file_run ps (file_of ms0) = (rs, file_of ms)) \<and>
    (\<exists>f. type_to_flags t = Some f \<and> (\<forall>bs. b = Some bs \<longrightarrow>
      file_of ms0 = \<lparr>content = (if ms_append f then takeWhile (\<lambda>c. c \<noteq> NUL) bs else if ms_truncate f then [] else bs),
        fpos = (if ms_append f then length (takeWhile (\<lambda>c. c \<noteq> NUL) bs) else 0), limit = sz,
        readable = ms_read f, writable = (ms_append f \<or> ms_write f), appends = ms_append f\<rparr>))"
proof -
  have ok: "ms_ok ms0" by (rule fmemopen_ok [OF assms])
  obtain rs ms where ms: "ms_run junk ps ms0 = Some (rs, ms)" "ms_ok ms" "rsize ms = rsize ms0"
    "ops_fit (rsize ms0) ps \<longrightarrow> file_run ps (file_of ms0) = (rs, file_of ms)" using ms_run_ok [OF ok] by blast
  have sz: "rsize ms0 = sz" using assms(1) by (auto simp: fmemopen_def Let_def split: if_splits option.splits)
  obtain f where f: "type_to_flags t = Some f" using assms(1) by (auto simp: fmemopen_def split: if_splits option.splits)
  have "file_of ms0 = \<lparr>content = (if ms_append f then takeWhile (\<lambda>c. c \<noteq> NUL) bs else if ms_truncate f then [] else bs),
        fpos = (if ms_append f then length (takeWhile (\<lambda>c. c \<noteq> NUL) bs) else 0), limit = sz,
        readable = ms_read f, writable = (ms_append f \<or> ms_write f), appends = ms_append f\<rparr>" if b: "b = Some bs" for bs
  proof -
    have l: "length bs = sz" using assms(4) b by blast
    have "ms0 = \<lparr>buf = bs, rsize = sz, vsize = (if ms_append f then find_end bs sz else if ms_truncate f then 0 else sz),
        curpos = (if ms_append f then find_end bs sz else 0), flags = f\<rparr>"
      using assms(1) b f by (auto simp: fmemopen_def Let_def split: if_splits)
    then show ?thesis using l find_end_eq [of bs] take_takeWhile [of "\<lambda>c. c \<noteq> NUL" bs] by (simp add: file_of_def)
  qed
  then show ?thesis using ms sz f by (intro exI [of _ rs] exI [of _ ms]) (auto simp: ms_ok_def)
qed

theorem memstream_refines_file_witness:
  "\<exists>ms0 ms. fmemopen True True True [] (Some ''abcdefgh'') 8 ''r+'' = Inr ms0 \<and>
     ms_run 0 [OpSeek 6 SEEK_SET, OpWrite ''XYZ'', OpSeek (-3) SEEK_CUR, OpRead 9, OpSeek 1 SEEK_END] ms0 =
       Some ([Pos 6, Count 2, Pos 5, Bytes ''fXY'', Failed EINVAL], ms) \<and> length (buf ms) = 8"
proof -
  let ?ps = "[OpSeek 6 SEEK_SET, OpWrite ''XYZ'', OpSeek (-3) SEEK_CUR, OpRead 9, OpSeek 1 SEEK_END]"
  have t: "type_to_flags ''r+'' = Some (no_flags\<lparr>ms_read := True, ms_write := True\<rparr>)"
    by (simp add: type_to_flags_def flag_step_def no_flags_def)
  obtain ms0 where m: "fmemopen True True True (replicate 8 NUL) (Some ''abcdefgh'') 8 ''r+'' = Inr ms0"
    using t by (simp add: fmemopen_def no_flags_def)
  have e: "fmemopen True True True [] (Some ''abcdefgh'') 8 ''r+'' = fmemopen True True True (replicate 8 NUL) (Some ''abcdefgh'') 8 ''r+''"
    by (simp add: fmemopen_def split: option.splits)
  have o: "ops_fit 8 ?ps" by (simp add: ops_fit_def seek_fits_def)
  from memstream_refines_file [OF m, where junk = 0 and ps = ?ps] t o obtain rs ms where
    r: "ms_run 0 ?ps ms0 = Some (rs, ms)" "length (buf ms) = 8" "file_run ?ps (file_of ms0) = (rs, file_of ms)" and
    f: "file_of ms0 = \<lparr>content = ''abcdefgh'', fpos = 0, limit = 8, readable = True, writable = True, appends = False\<rparr>"
    by (auto simp: no_flags_def simp del: ms_run.simps file_run.simps)
  have "fst (file_run ?ps (file_of ms0)) = [Pos 6, Count 2, Pos 5, Bytes ''fXY'', Failed EINVAL]"
    unfolding f by (simp add: file_step_def file_seek_def file_write_def file_read_def splice_def Let_def)
  then show ?thesis using m e r by (intro exI [of _ ms0] exI [of _ ms]) simp
qed

end
