(* ===== verification/MyDup2.thy ===== *)
theory MyDup2
  imports Main
begin

section \<open>dup2 in user space (Chapter03/my_dup2.c)\<close>

text \<open>
  The descriptor table of a process has as many slots as it may have open files. \<open>my_dup2\<close>
  duplicates the old descriptor until the new one is hit and keeps the other duplicates on a
  stack to close them. The stack is its allocated memory, with arbitrary contents \<open>g\<close> where
  nothing was stored, and its size; a read outside of it is an error of the model (\<open>None\<close>), as is a loop that never ends.
\<close>

datatype errno = EBADF | EIO | EINTR

record stack =
  data :: "int list"
  ssize :: nat

definition stack_new :: "(nat \<Rightarrow> int) \<Rightarrow> stack" where
  "stack_new g = \<lparr>data = map g [0 ..< 64], ssize = 0\<rparr>"

definition stack_size :: "stack \<Rightarrow> nat" where
  "stack_size s = ssize s"

definition stack_push :: "(nat \<Rightarrow> int) \<Rightarrow> int \<Rightarrow> stack \<Rightarrow> stack" where
  "stack_push g item s =
     (let d = (if ssize s = length (data s) then data s @ map g [length (data s) ..< 2 * length (data s)] else data s)
      in \<lparr>data = d[ssize s := item], ssize = ssize s + 1\<rparr>)"

definition stack_pop :: "stack \<Rightarrow> (int \<times> stack) option" where
  "stack_pop s = (if ssize s < length (data s) then Some (data s ! ssize s, s\<lparr>ssize := ssize s - 1\<rparr>) else None)"

text \<open>\<open>dup\<close> takes the lowest free slot.\<close>

definition valid_fd :: "int \<Rightarrow> 'f option list \<Rightarrow> bool" where
  "valid_fd fd t \<longleftrightarrow> 0 \<le> fd \<and> fd < int (length t) \<and> t ! nat fd \<noteq> None"

definition first_free :: "'f option list \<Rightarrow> nat" where
  "first_free t = length (takeWhile (\<lambda>e. e \<noteq> None) t)"

definition dup :: "int \<Rightarrow> 'f option list \<Rightarrow> int \<times> 'f option list" where
  "dup fd t =
     (if \<not> valid_fd fd t \<or> length t \<le> first_free t then (-1, t)
      else (int (first_free t), t[first_free t := t ! nat fd]))"

definition close :: "int \<Rightarrow> 'f option list \<Rightarrow> (errno option \<times> 'f option list)" where
  "close fd t = (if valid_fd fd t then (None, t[nat fd := None]) else (Some EBADF, t))"

partial_function (option) dup_loop :: "(nat \<Rightarrow> int) \<Rightarrow> int \<Rightarrow> int \<Rightarrow> 'f option list \<Rightarrow> stack \<Rightarrow> ('f option list \<times> stack) option" where
  "dup_loop g oldfd newfd t s =
     (let (fd, t') = dup oldfd t
      in if fd = newfd then Some (t', s) else dup_loop g oldfd newfd t' (stack_push g fd s))"

function pop_loop :: "'f option list \<Rightarrow> stack \<Rightarrow> 'f option list option" where
  "pop_loop t s =
     (if stack_size s = 0 then Some t
      else case stack_pop s of None \<Rightarrow> None | Some (fd, s') \<Rightarrow> pop_loop (snd (close fd t)) s')"
  by pat_completeness auto
termination
  by (relation "measure (\<lambda>(t, s). ssize s)") (auto simp: stack_size_def stack_pop_def split: if_splits)

declare pop_loop.simps [simp del]

text \<open>The result: the value, \<open>errno\<close> when it is -1, and the table. \<open>ce\<close> is an error that closing the new descriptor reports.\<close>

definition my_dup2 :: "(nat \<Rightarrow> int) \<Rightarrow> errno option \<Rightarrow> int \<Rightarrow> int \<Rightarrow> 'f option list \<Rightarrow> (int \<times> errno option \<times> 'f option list) option" where
  "my_dup2 g ce oldfd newfd t =
     (if oldfd < 0 \<or> newfd < 0 then Some (-1, Some EBADF, t)
      else if oldfd = newfd then Some (newfd, None, t)
      else let (fd, t1) = dup oldfd t
           in if fd < 0 then Some (-1, Some EBADF, t1)
              else let (_, t2) = close fd t1;
                       (e, t3) = close newfd t2;
                       e = (if e = None then ce else e)
                   in if e \<noteq> None \<and> e \<noteq> Some EBADF then Some (-1, e, t3)
                      else (case dup_loop g oldfd newfd t3 (stack_new g) of
                              None \<Rightarrow> None
                            | Some (t4, s) \<Rightarrow> map_option (\<lambda>t5. (newfd, None, t5)) (pop_loop t4 s)))"

subsection \<open>The slots that are passed over\<close>

definition free_below :: "nat \<Rightarrow> 'f option list \<Rightarrow> nat list" where
  "free_below k t = filter (\<lambda>i. t ! i = None) [0 ..< k]"

lemma takeWhile_upto:
  assumes "k < length t" and "t ! k = None" and "\<forall>i<k. t ! i \<noteq> None"
  shows "first_free t = k"
proof -
  have "takeWhile (\<lambda>e. e \<noteq> None) t = take k t"
    using assms takeWhile_eq_take_P_nth [of k t "\<lambda>e. e \<noteq> None"] by auto
  then show ?thesis using assms(1) by (simp add: first_free_def)
qed

lemma first_free_below:
  assumes "free_below k t = f # fs" and "k \<le> length t"
  shows "first_free t = f \<and> f < k \<and> free_below k (t[f := Some x]) = fs \<and> t ! f = None"
proof -
  have f: "f \<in> set (free_below k t)" using assms(1) by simp
  then have fk: "f < k" "t ! f = None" by (auto simp: free_below_def)
  have sp: "[0 ..< k] = [0 ..< f] @ f # [Suc f ..< k]" using fk(1) upt_add_eq_append [of 0 f "k - f"] upt_conv_Cons [of f k] by simp
  have "free_below k t = filter (\<lambda>i. t ! i = None) [0 ..< f] @ f # filter (\<lambda>i. t ! i = None) [Suc f ..< k]"
    unfolding free_below_def sp using fk(2) by simp
  moreover have "filter (\<lambda>i. t ! i = None) [0 ..< f] = []"
  proof (rule ccontr)
    assume "\<not> ?thesis"
    then obtain a as where a: "filter (\<lambda>i. t ! i = None) [0 ..< f] = a # as" by (cases "filter (\<lambda>i. t ! i = None) [0 ..< f]") auto
    then have "a \<in> set (filter (\<lambda>i. t ! i = None) [0 ..< f])" by simp
    then have "a < f" by simp
    then show False using calculation assms(1) a by auto
  qed
  ultimately have e: "filter (\<lambda>i. t ! i = None) [0 ..< f] = []" "fs = filter (\<lambda>i. t ! i = None) [Suc f ..< k]" using assms(1) by auto
  then have "\<forall>i<f. t ! i \<noteq> None" by (auto simp: filter_empty_conv)
  then have "first_free t = f" using takeWhile_upto [of f t] fk assms(2) by simp
  moreover have "free_below k (t[f := Some x]) = fs"
  proof -
    have "filter (\<lambda>i. t[f := Some x] ! i = None) [0 ..< f] = filter (\<lambda>i. t ! i = None) [0 ..< f]"
      "filter (\<lambda>i. t[f := Some x] ! i = None) [Suc f ..< k] = filter (\<lambda>i. t ! i = None) [Suc f ..< k]"
      by (auto intro!: filter_cong)
    then show ?thesis unfolding free_below_def sp using e fk assms(2) by simp
  qed
  ultimately show ?thesis using fk by simp
qed

text \<open>A table after duplicates were stored in some slots.\<close>

definition fill :: "'f \<Rightarrow> nat list \<Rightarrow> 'f option list \<Rightarrow> 'f option list" where
  "fill x fs t = foldl (\<lambda>t f. t[f := Some x]) t fs"

lemma fill_Cons [simp]: "fill x (f # fs) t = fill x fs (t[f := Some x])" "fill x [] t = t"
  by (simp_all add: fill_def)

lemma length_fill [simp]: "length (fill x fs t) = length t"
  by (induction fs arbitrary: t) auto

lemma fill_nth: "m < length t \<Longrightarrow> fill x fs t ! m = (if m \<in> set fs then Some x else t ! m)"
  by (induction fs arbitrary: t) (auto simp: nth_list_update)

definition pushed :: "(nat \<Rightarrow> int) \<Rightarrow> nat list \<Rightarrow> stack" where
  "pushed g fs = \<lparr>data = map (\<lambda>i. if i < length fs then int (fs ! i) else g i) [0 ..< 64], ssize = length fs\<rparr>"

lemma push_pushed:
  assumes "length fs < 64"
  shows "stack_push g (int f) (pushed g fs) = pushed g (fs @ [f])"
  using assms by (auto simp: stack_push_def pushed_def nth_append nth_list_update intro!: nth_equalityI)

lemma dup_loop_fills:
  assumes "free_below (nat newfd) t = fs" and "valid_fd oldfd t" and "t ! nat oldfd = Some x" and "0 \<le> newfd" and "nat newfd < length t"
    and "t ! nat newfd = None" and "length gs + length fs \<le> 64"
  shows "dup_loop g oldfd newfd t (pushed g gs) = Some ((fill x fs t)[nat newfd := Some x], pushed g (gs @ fs))"
  using assms
proof (induction fs arbitrary: t gs)
  case Nil
  then have "\<forall>i<nat newfd. t ! i \<noteq> None" by (auto simp: free_below_def filter_empty_conv)
  then have "first_free t = nat newfd" using takeWhile_upto Nil.prems(5,6) by blast
  then have "dup oldfd t = (newfd, t[nat newfd := Some x])" using Nil.prems by (simp add: dup_def)
  then show ?case by (simp add: dup_loop.simps)
next
  case (Cons f fs)
  have le: "nat newfd \<le> length t" using Cons.prems(5) by simp
  note ff = first_free_below [OF Cons.prems(1) le, of x]
  have fl: "f < length t" using ff Cons.prems(5) by simp
  have ne: "f \<noteq> nat oldfd" using ff Cons.prems(2) by (auto simp: valid_fd_def)
  have d: "dup oldfd t = (int f, t[f := Some x])" using ff fl Cons.prems(2,3) by (simp add: dup_def)
  have nn: "int f \<noteq> newfd" using ff by auto
  have "dup_loop g oldfd newfd t (pushed g gs) = dup_loop g oldfd newfd (t[f := Some x]) (pushed g (gs @ [f]))"
    using d nn push_pushed [of gs g f] Cons.prems(7) by (simp add: dup_loop.simps [of g oldfd newfd t])
  also have "\<dots> = Some ((fill x fs (t[f := Some x]))[nat newfd := Some x], pushed g ((gs @ [f]) @ fs))"
    by (rule Cons.IH) (use ff Cons.prems ne in \<open>auto simp: valid_fd_def nth_list_update\<close>)
  finally show ?case by simp
qed

text \<open>Popping: each read is one above the top, so the first duplicate is never popped.\<close>

definition drop_fd :: "int \<Rightarrow> 'f option list \<Rightarrow> 'f option list" where
  "drop_fd fd t = (if 0 \<le> fd \<and> fd < int (length t) then t[nat fd := None] else t)"

lemma close_drop: "snd (close fd t) = drop_fd fd t"
  by (auto simp: close_def drop_fd_def valid_fd_def intro: list_update_same_conv [THEN iffD2, symmetric])

lemma pop_loop_pushed:
  assumes "k \<le> length fs" and "length fs < 64"
  shows "pop_loop t (pushed g fs\<lparr>ssize := k\<rparr>) =
    Some (foldl (\<lambda>t i. drop_fd (if i < length fs then int (fs ! i) else g i) t) t (rev [1 ..< k + 1]))"
  using assms(1)
proof (induction k arbitrary: t)
  case 0
  then show ?case by (simp add: pop_loop.simps stack_size_def)
next
  case (Suc k)
  have p: "stack_pop (pushed g fs\<lparr>ssize := Suc k\<rparr>) =
      Some (if Suc k < length fs then int (fs ! Suc k) else g (Suc k), pushed g fs\<lparr>ssize := k\<rparr>)"
    using Suc.prems assms(2) by (simp add: stack_pop_def pushed_def)
  show ?case
    unfolding pop_loop.simps [of t "pushed g fs\<lparr>ssize := Suc k\<rparr>"] p
    using Suc.IH Suc.prems by (simp add: stack_size_def close_drop)
qed

lemma foldl_drop_nth:
  "m < length t \<Longrightarrow> foldl (\<lambda>t i. drop_fd (h i) t) t is ! m = (if \<exists>i\<in>set is. h i = int m then None else t ! m) \<and>
    length (foldl (\<lambda>t i. drop_fd (h i) t) t is) = length t"
proof (induction "is" arbitrary: t)
  case (Cons i "is")
  have "length (drop_fd (h i) t) = length t" "drop_fd (h i) t ! m = (if h i = int m then None else t ! m)"
    using Cons.prems by (auto simp: drop_fd_def nth_list_update)
  then show ?case using Cons.IH [of "drop_fd (h i) t"] Cons.prems by (cases "h i = int m") simp_all
qed simp

lemma length_foldl_drop: "length (foldl (\<lambda>t i. drop_fd (h i) t) t is) = length t"
  by (induction "is" arbitrary: t) (simp_all add: drop_fd_def)

lemma popped_slots:
  "(\<exists>i\<in>set (rev [1 ..< length fs + 1]). (if i < length fs then int (fs ! i) else g i) = int m) \<longleftrightarrow>
    fs \<noteq> [] \<and> (m \<in> set (tl fs) \<or> int m = g (length fs))"
proof (cases fs)
  case (Cons f gs)
  have "set (rev [1 ..< length fs + 1]) = insert (length fs) (Suc ` {..< length gs})"
    unfolding Cons image_Suc_lessThan by auto
  moreover have "(\<exists>i<length gs. gs ! i = m) \<longleftrightarrow> m \<in> set gs" by (auto simp: in_set_conv_nth)
  ultimately show ?thesis unfolding Cons by auto
qed simp

text \<open>A new descriptor beyond the table is never reached.\<close>

lemma dup_range: "dup fd t = (r, t') \<Longrightarrow> r < int (length t) \<and> length t' = length t"
  by (auto simp: dup_def split: if_splits)

lemma dup_loop_beyond:
  assumes "dup_loop g oldfd newfd t s = Some r"
  shows "newfd < int (length t)"
proof (rule dup_loop.raw_induct [OF _ assms], goal_cases)
  case (1 loop g oldfd newfd t s r)
  obtain fd t' where d: "dup oldfd t = (fd, t')" by fastforce
  show ?case
  proof (cases "fd = newfd")
    case True
    then show ?thesis using dup_range [OF d] by simp
  next
    case False
    then have "loop g oldfd newfd t' (stack_push g fd s) = Some r" using 1(2) d by simp
    then show ?thesis using 1(1) dup_range [OF d] by fastforce
  qed
qed

text \<open>The first duplicate of the old descriptor only tells whether it is valid and is closed at once.\<close>

lemma my_dup2_loops:
  assumes "valid_fd oldfd t" and "0 \<le> newfd" and "oldfd \<noteq> newfd" and "first_free t < length t"
  shows "my_dup2 g None oldfd newfd t = (case dup_loop g oldfd newfd (drop_fd newfd t) (stack_new g) of
      None \<Rightarrow> None | Some (t4, s) \<Rightarrow> map_option (\<lambda>t5. (newfd, None, t5)) (pop_loop t4 s))"
proof -
  obtain x where x: "t ! nat oldfd = Some x" "0 \<le> oldfd" using assms(1) by (auto simp: valid_fd_def)
  have fn: "t ! first_free t = None" using assms(4) nth_length_takeWhile [of "\<lambda>e. e \<noteq> None" t] by (simp add: first_free_def)
  have d: "dup oldfd t = (int (first_free t), t[first_free t := Some x])" using assms(1,4) x(1) by (simp add: dup_def)
  have "snd (close (int (first_free t)) (t[first_free t := Some x])) = t"
    using assms(4) fn by (simp add: close_drop drop_fd_def list_update_same_conv)
  then obtain e1 where e1: "close (int (first_free t)) (t[first_free t := Some x]) = (e1, t)" by (metis prod.collapse)
  obtain e2 where e2: "close newfd t = (e2, drop_fd newfd t)" by (metis close_drop prod.collapse)
  have "e2 = None \<or> e2 = Some EBADF" using e2 by (auto simp: close_def split: if_splits)
  then show ?thesis using x(2) assms(2,3) d e1 e2 by (auto simp: my_dup2_def)
qed

text \<open>What the two loops leave in each slot.\<close>

definition after_loops :: "(nat \<Rightarrow> int) \<Rightarrow> 'f \<Rightarrow> int \<Rightarrow> 'f option list \<Rightarrow> 'f option list" where
  "after_loops g x newfd t = (let fs = free_below (nat newfd) t in
     foldl (\<lambda>t i. drop_fd (if i < length fs then int (fs ! i) else g i) t) ((fill x fs (drop_fd newfd t))[nat newfd := Some x]) (rev [1 ..< length fs + 1]))"

lemma loops_run:
  assumes "valid_fd oldfd t" and "t ! nat oldfd = Some x" and "0 \<le> newfd" and "oldfd \<noteq> newfd" and "newfd < int (length t)"
    and "length (free_below (nat newfd) t) < 64"
  shows "(case dup_loop g oldfd newfd (drop_fd newfd t) (stack_new g) of None \<Rightarrow> None | Some (t4, s) \<Rightarrow> map_option (\<lambda>t5. (newfd, None, t5)) (pop_loop t4 s)) =
    Some (newfd, None, after_loops g x newfd t)"
proof -
  let ?fs = "free_below (nat newfd) t" and ?t3 = "drop_fd newfd t"
  have n: "nat newfd < length ?t3" "?t3 ! nat newfd = None" "?t3 = t[nat newfd := None]"
    using assms(3,5) by (simp_all add: drop_fd_def)
  have fb: "free_below (nat newfd) ?t3 = ?fs" unfolding free_below_def n(3) by (auto intro!: filter_cong)
  have "nat oldfd \<noteq> nat newfd" using assms(1,3,4) by (auto simp: valid_fd_def)
  then have v: "valid_fd oldfd ?t3" "?t3 ! nat oldfd = Some x"
    using assms(1,2) unfolding n(3) by (auto simp: valid_fd_def)
  have l: "length [] + length ?fs \<le> 64" using assms(6) by simp
  have sn: "stack_new g = pushed g []" by (simp add: stack_new_def pushed_def)
  have dl: "dup_loop g oldfd newfd ?t3 (stack_new g) = Some ((fill x ?fs ?t3)[nat newfd := Some x], pushed g ?fs)"
    unfolding sn using dup_loop_fills [OF fb v assms(3) n(1,2) l, of g] by simp
  have "pushed g ?fs\<lparr>ssize := length ?fs\<rparr> = pushed g ?fs" by (simp add: pushed_def)
  then have "pop_loop ((fill x ?fs ?t3)[nat newfd := Some x]) (pushed g ?fs) = Some (after_loops g x newfd t)"
    unfolding after_loops_def Let_def using pop_loop_pushed [of "length ?fs" ?fs "(fill x ?fs ?t3)[nat newfd := Some x]" g] assms(6) by simp
  then show ?thesis unfolding dl by simp
qed

lemma after_loops_nth:
  assumes "m < length t" and "0 \<le> newfd" and "newfd < int (length t)"
  shows "after_loops g x newfd t ! m = (let fs = free_below (nat newfd) t in
     if fs \<noteq> [] \<and> (m \<in> set (tl fs) \<or> int m = g (length fs)) then None
     else if int m = newfd \<or> fs \<noteq> [] \<and> m = hd fs then Some x else t ! m)"
proof -
  let ?fs = "free_below (nat newfd) t"
  let ?t4 = "(fill x ?fs (drop_fd newfd t))[nat newfd := Some x]"
  have l4: "length ?t4 = length t" by (simp add: drop_fd_def)
  have "after_loops g x newfd t ! m = (if \<exists>i\<in>set (rev [1 ..< length ?fs + 1]). (if i < length ?fs then int (?fs ! i) else g i) = int m then None else ?t4 ! m)"
    unfolding after_loops_def Let_def by (rule conjunct1 [OF foldl_drop_nth]) (use assms(1) l4 in simp)
  moreover have "?t4 ! m = (if int m = newfd then Some x else if m \<in> set ?fs then Some x else t ! m)"
    using assms by (auto simp: nth_list_update fill_nth drop_fd_def)
  moreover have "m \<in> set ?fs \<longleftrightarrow> ?fs \<noteq> [] \<and> (m = hd ?fs \<or> m \<in> set (tl ?fs))" by (cases ?fs) auto
  ultimately show ?thesis unfolding popped_slots by (auto simp: Let_def)
qed

lemma length_after_loops: "length (after_loops g x newfd t) = length t"
  unfolding after_loops_def Let_def length_foldl_drop length_list_update length_fill by (simp add: drop_fd_def)

subsection \<open>The property\<close>

text \<open>
  C29. What \<open>my_dup2\<close> does on a valid old descriptor with a free slot in the table and fewer than 64 free slots below
  the new one: it returns, and the new descriptor is the duplicate, as with \<open>dup2\<close>. But of the other duplicates
  only all but the first are closed again, the first stays open, and besides them one descriptor
  is closed whose number is whatever was in the stack's memory above its top; only when no
  slot below the new descriptor is free is the table the one \<open>dup2\<close> gives. For a new descriptor
  beyond the table it never returns.
\<close>

theorem my_dup2_effect:
  fixes t :: "'f option list"
  assumes "valid_fd oldfd t" and "t ! nat oldfd = Some x" and "0 \<le> newfd" and "oldfd \<noteq> newfd" and "first_free t < length t"
    and "length (free_below (nat newfd) t) < 64"
  shows "if newfd < int (length t)
    then \<exists>t'. my_dup2 g None oldfd newfd t = Some (newfd, None, t') \<and> length t' = length t \<and>
      (\<forall>m<length t. t' ! m =
        (let fs = free_below (nat newfd) t in
         if fs \<noteq> [] \<and> (m \<in> set (tl fs) \<or> int m = g (length fs)) then None
         else if int m = newfd \<or> fs \<noteq> [] \<and> m = hd fs then Some x else t ! m))
    else my_dup2 g None oldfd newfd t = None"
proof (cases "newfd < int (length t)")
  case False
  have "dup_loop g oldfd newfd (drop_fd newfd t) (stack_new g) = None"
  proof (cases "dup_loop g oldfd newfd (drop_fd newfd t) (stack_new g)")
    case (Some r)
    then show ?thesis using dup_loop_beyond [OF Some] False by (simp add: drop_fd_def)
  qed
  then show ?thesis using False my_dup2_loops [OF assms(1,3,4,5), of g] by simp
next
  case True
  have "my_dup2 g None oldfd newfd t = Some (newfd, None, after_loops g x newfd t)"
    unfolding my_dup2_loops [OF assms(1,3,4,5)] by (rule loops_run [OF assms(1-4) True assms(6)])
  then show ?thesis unfolding if_P [OF True]
    by (intro exI [of _ "after_loops g x newfd t"] conjI length_after_loops allI impI after_loops_nth [OF _ assms(3) True])
qed

theorem my_dup2_effect_witness:
  "\<exists>t'. my_dup2 (\<lambda>_. 0) None 3 6 [Some ''tty'', Some ''tty'', Some ''tty'', Some ''zero'', None, None, Some ''tty''] =
     Some (6, None, t') \<and> t' ! 0 = None \<and> t' ! 4 = Some ''zero'' \<and> t' ! 5 = None \<and> t' ! 6 = Some ''zero''"
proof -
  let ?t = "[Some ''tty'', Some ''tty'', Some ''tty'', Some ''zero'', None, None, Some ''tty'']"
  have f: "free_below (nat 6) ?t = [4, 5]" by (simp add: free_below_def upt_rec numeral_eq_Suc)
  have "valid_fd 3 ?t" "?t ! nat 3 = Some ''zero''" "first_free ?t < length ?t"
    by (simp_all add: valid_fd_def first_free_def)
  from my_dup2_effect [OF this(1,2) _ _ this(3), of 6 "\<lambda>_. 0"] show ?thesis
    unfolding f by (auto simp: Let_def)
qed

end
