(* ===== verification/RefCount.thy ===== *)
theory RefCount
  imports Main
begin

section \<open>Reference-counted objects in a hash table (threads/mutex1.c, mutex2.c, mutex3.c)\<close>

text \<open>
  The objects live in a heap from addresses to structures; a bucket of the hash table is a linked
  list through \<open>f_next\<close>. What a function does under its locks is one atomic step. In
  \<open>mutex3\<close> releasing a reference is one step; in \<open>mutex2\<close> it is two, with a window between
  them in which other threads run, and the second step checks the count again. The count, an \<open>int\<close> in the source, is unbounded here: it
  would overflow with 2^31 references at the same time. \<open>None\<close> as the
  result of an operation is an access to memory that is not an object, or a walk that never ends.
\<close>

definition NHASH :: nat where "NHASH = 29"

definition HASH :: "int \<Rightarrow> nat" where
  "HASH oid = nat (oid mod 2 ^ 64) mod NHASH"

record foo =
  f_count :: int
  f_id :: int
  f_next :: "nat option"

record table =
  heap :: "nat \<Rightarrow> foo option"
  fh :: "nat \<Rightarrow> nat option"

subsection \<open>One object (mutex1.c)\<close>

text \<open>The address \<open>malloc\<close> returns is a parameter, \<open>None\<close> when it fails, as is whether \<open>pthread_mutex_init\<close> succeeds.\<close>

definition foo_alloc1 :: "nat option \<Rightarrow> bool \<Rightarrow> int \<Rightarrow> (nat \<Rightarrow> foo option) \<Rightarrow> nat option \<times> (nat \<Rightarrow> foo option)" where
  "foo_alloc1 a minit oid h =
     (case a of
        None \<Rightarrow> (None, h)
      | Some p \<Rightarrow> if \<not> minit then (None, h(p := None)) else (Some p, h(p \<mapsto> \<lparr>f_count = 1, f_id = oid, f_next = None\<rparr>)))"

definition foo_hold1 :: "nat \<Rightarrow> (nat \<Rightarrow> foo option) \<Rightarrow> (nat \<Rightarrow> foo option) option" where
  "foo_hold1 p h = map_option (\<lambda>f. h(p \<mapsto> f\<lparr>f_count := f_count f + 1\<rparr>)) (h p)"

definition foo_rele1 :: "nat \<Rightarrow> (nat \<Rightarrow> foo option) \<Rightarrow> (nat \<Rightarrow> foo option) option" where
  "foo_rele1 p h =
     (case h p of
        None \<Rightarrow> None
      | Some f \<Rightarrow> if f_count f - 1 = 0 then Some (h(p := None)) else Some (h(p \<mapsto> f\<lparr>f_count := f_count f - 1\<rparr>)))"

subsection \<open>The hash table (mutex2.c and mutex3.c)\<close>

definition foo_alloc :: "nat option \<Rightarrow> bool \<Rightarrow> int \<Rightarrow> table \<Rightarrow> nat option \<times> table" where
  "foo_alloc a minit oid t =
     (case a of
        None \<Rightarrow> (None, t)
      | Some p \<Rightarrow>
          if \<not> minit then (None, t)
          else let idx = HASH oid in
            (Some p, t\<lparr>heap := (heap t)(p \<mapsto> \<lparr>f_count = 1, f_id = oid, f_next = fh t idx\<rparr>), fh := (fh t)(idx \<mapsto> p)\<rparr>))"

definition foo_hold :: "nat \<Rightarrow> table \<Rightarrow> table option" where
  "foo_hold p t = map_option (\<lambda>f. t\<lparr>heap := (heap t)(p \<mapsto> f\<lparr>f_count := f_count f + 1\<rparr>)\<rparr>) (heap t p)"

partial_function (option) find_walk :: "(nat \<Rightarrow> foo option) \<Rightarrow> int \<Rightarrow> nat option \<Rightarrow> nat option option" where
  "find_walk h oid fp =
     (case fp of
        None \<Rightarrow> Some None
      | Some p \<Rightarrow>
          (case h p of
             None \<Rightarrow> None
           | Some f \<Rightarrow> if f_id f = oid then Some (Some p) else find_walk h oid (f_next f)))"

definition foo_find :: "int \<Rightarrow> table \<Rightarrow> (nat option \<times> table) option" where
  "foo_find oid t =
     (case find_walk (heap t) oid (fh t (HASH oid)) of
        None \<Rightarrow> None
      | Some None \<Rightarrow> Some (None, t)
      | Some (Some p) \<Rightarrow> map_option (\<lambda>t. (Some p, t)) (foo_hold p t))"

text \<open>The predecessor in the list, and taking the object out.\<close>

partial_function (option) pred_walk :: "(nat \<Rightarrow> foo option) \<Rightarrow> nat \<Rightarrow> nat \<Rightarrow> nat option" where
  "pred_walk h fp tfp =
     (case h tfp of
        None \<Rightarrow> None
      | Some f \<Rightarrow>
          if f_next f = Some fp then Some tfp
          else (case f_next f of None \<Rightarrow> None | Some q \<Rightarrow> pred_walk h fp q))"

definition unlink :: "nat \<Rightarrow> foo \<Rightarrow> table \<Rightarrow> table option" where
  "unlink fp f t =
     (let idx = HASH (f_id f)
      in case fh t idx of
           None \<Rightarrow> None
         | Some tfp \<Rightarrow>
             if tfp = fp then Some (t\<lparr>fh := (fh t)(idx := f_next f)\<rparr>)
             else (case pred_walk (heap t) fp tfp of
                     None \<Rightarrow> None
                   | Some q \<Rightarrow> map_option (\<lambda>g. t\<lparr>heap := (heap t)(q \<mapsto> g\<lparr>f_next := f_next f\<rparr>)\<rparr>) (heap t q)))"

definition free_foo :: "nat \<Rightarrow> table \<Rightarrow> table" where
  "free_foo p t = t\<lparr>heap := (heap t)(p := None)\<rparr>"

definition foo_rele3 :: "nat \<Rightarrow> table \<Rightarrow> table option" where
  "foo_rele3 p t =
     (case heap t p of
        None \<Rightarrow> None
      | Some f \<Rightarrow>
          let f = f\<lparr>f_count := f_count f - 1\<rparr>; t = t\<lparr>heap := (heap t)(p \<mapsto> f)\<rparr>
          in if f_count f = 0 then map_option (free_foo p) (unlink p f t) else Some t)"

text \<open>\<open>mutex2\<close>: the first step ends the call, or leaves the count at one and goes on to the second.\<close>

definition rele2_first :: "nat \<Rightarrow> table \<Rightarrow> (bool \<times> table) option" where
  "rele2_first p t =
     (case heap t p of
        None \<Rightarrow> None
      | Some f \<Rightarrow> if f_count f = 1 then Some (True, t)
                  else Some (False, t\<lparr>heap := (heap t)(p \<mapsto> f\<lparr>f_count := f_count f - 1\<rparr>)\<rparr>))"

definition rele2_second :: "nat \<Rightarrow> table \<Rightarrow> table option" where
  "rele2_second p t =
     (case heap t p of
        None \<Rightarrow> None
      | Some f \<Rightarrow>
          if f_count f \<noteq> 1 then Some (t\<lparr>heap := (heap t)(p \<mapsto> f\<lparr>f_count := f_count f - 1\<rparr>)\<rparr>)
          else map_option (free_foo p) (unlink p f t))"

definition foo_rele2 :: "nat \<Rightarrow> table \<Rightarrow> table option" where
  "foo_rele2 p t = (case rele2_first p t of None \<Rightarrow> None | Some (again, t) \<Rightarrow> if again then rele2_second p t else Some t)"

subsection \<open>The lists of the buckets\<close>

primrec chain :: "(nat \<Rightarrow> foo option) \<Rightarrow> nat option \<Rightarrow> nat list \<Rightarrow> bool" where
  "chain h x [] \<longleftrightarrow> x = None"
| "chain h x (p # ps) \<longleftrightarrow> x = Some p \<and> (\<exists>f. h p = Some f \<and> chain h (f_next f) ps)"

definition same_links :: "(nat \<Rightarrow> foo option) \<Rightarrow> (nat \<Rightarrow> foo option) \<Rightarrow> nat set \<Rightarrow> bool" where
  "same_links h h' A \<longleftrightarrow> (\<forall>p\<in>A. map_option f_next (h' p) = map_option f_next (h p))"

lemma chain_heap_cong: "chain h x ps \<Longrightarrow> same_links h h' (set ps) \<Longrightarrow> chain h' x ps"
proof (induction ps arbitrary: x)
  case (Cons p ps)
  then obtain f where f: "x = Some p" "h p = Some f" "chain h (f_next f) ps" by auto
  then obtain f' where "h' p = Some f'" "f_next f' = f_next f" using Cons.prems(2) by (force simp: same_links_def)
  then show ?case using f Cons.IH [OF f(3)] Cons.prems(2) by (simp add: same_links_def)
qed simp

lemma find_walk_chain:
  assumes "chain h x ps"
  shows "find_walk h oid x = Some (find (\<lambda>p. \<exists>f. h p = Some f \<and> f_id f = oid) ps)"
  using assms by (induction ps arbitrary: x) (auto simp: find_walk.simps)

lemma chain_split: "chain h x (ps @ qs) \<Longrightarrow> \<exists>y. chain h y qs"
  by (induction ps arbitrary: x) auto

lemma chain_remove:
  assumes "chain h (Some t) (t # xs @ p # ys)" and "distinct (t # xs @ p # ys)" and "h p = Some f"
  shows "\<exists>q g. pred_walk h p t = Some q \<and> q = last (t # xs) \<and> h q = Some g \<and>
    chain (h(q \<mapsto> g\<lparr>f_next := f_next f\<rparr>)) (Some t) (t # xs @ ys)"
  using assms
proof (induction xs arbitrary: t)
  case Nil
  then obtain g where g: "h t = Some g" "f_next g = Some p" "chain h (f_next f) ys" by auto
  have "chain (h(t \<mapsto> g\<lparr>f_next := f_next f\<rparr>)) (f_next f) ys"
    by (rule chain_heap_cong [OF g(3)]) (use Nil.prems(2) in \<open>auto simp: same_links_def\<close>)
  then show ?case using g by (intro exI [of _ t] exI [of _ g]) (simp add: pred_walk.simps del: fun_upd_apply, simp)
next
  case (Cons x xs)
  then obtain e where e: "h t = Some e" "f_next e = Some x" "chain h (Some x) (x # xs @ p # ys)" by auto
  have dx: "distinct (x # xs @ p # ys)" using Cons.prems(2) by simp
  obtain q g where q: "pred_walk h p x = Some q" "q = last (x # xs)" "h q = Some g"
    "chain (h(q \<mapsto> g\<lparr>f_next := f_next f\<rparr>)) (Some x) (x # xs @ ys)"
    using Cons.IH [OF e(3) dx Cons.prems(3)] by blast
  have "q \<in> set (x # xs)" unfolding q(2) by (rule last_in_set) simp
  then have "q \<noteq> t" using Cons.prems(2) by auto
  moreover have "x \<noteq> p" using Cons.prems(2) by auto
  moreover have "pred_walk h p t = Some q" using e(1,2) q(1) \<open>x \<noteq> p\<close> by (simp add: pred_walk.simps [of h p t])
  moreover have "chain (h(q \<mapsto> g\<lparr>f_next := f_next f\<rparr>)) (Some t) (t # (x # xs) @ ys)"
    unfolding chain.simps(2) [of _ _ t] using e(1,2) q(4) \<open>q \<noteq> t\<close> by (simp del: chain.simps fun_upd_apply add: fun_upd_other)
  moreover have "q = last (t # x # xs)" using q(2) by simp
  ultimately show ?case using q(3) by blast
qed

text \<open>A table represents for each bucket the list of its objects; every object is in its bucket.\<close>

definition buckets :: "table \<Rightarrow> (nat \<Rightarrow> nat list) \<Rightarrow> bool" where
  "buckets t ls \<longleftrightarrow> (\<forall>b. chain (heap t) (fh t b) (ls b) \<and> distinct (ls b)) \<and>
     (\<forall>p f. heap t p = Some f \<longrightarrow> p \<in> set (ls (HASH (f_id f)))) \<and>
     (\<forall>b p. p \<in> set (ls b) \<longrightarrow> (\<exists>f. heap t p = Some f \<and> HASH (f_id f) = b))"

lemma bucket_same:
  assumes "buckets t ls" and "heap t p = Some f" and "p \<in> set (ls b)"
  shows "b = HASH (f_id f)"
  using assms unfolding buckets_def by (metis option.inject)

definition attrs :: "table \<Rightarrow> nat \<Rightarrow> (int \<times> int) option" where
  "attrs t p = map_option (\<lambda>f. (f_count f, f_id f)) (heap t p)"

lemma bucketsI:
  assumes "buckets t ls" and "heap t p = Some f" and "ls (HASH (f_id f)) = xs @ p # ys"
    and "chain h x (xs @ ys)" and "\<And>q. q \<noteq> p \<Longrightarrow> map_option (\<lambda>f. (f_count f, f_id f)) (h q) = attrs t q"
    and "\<And>q. q \<notin> set (ls (HASH (f_id f))) \<Longrightarrow> h q = heap t q" and "heap t' = h(p := None)" and "fh t' = (fh t)(HASH (f_id f) := x)"
  shows "buckets t' (ls(HASH (f_id f) := remove1 p (ls (HASH (f_id f)))))"
proof -
  let ?b = "HASH (f_id f)"
  have d: "distinct (xs @ p # ys)" using assms(1,3) unfolding buckets_def by metis
  then have r: "remove1 p (ls ?b) = xs @ ys" using assms(3) by (simp add: remove1_append)
  have 1: "chain (heap t') (fh t' b) ((ls(?b := xs @ ys)) b) \<and> distinct ((ls(?b := xs @ ys)) b)" for b
  proof (cases "b = ?b")
    case True
    have "chain (h(p := None)) x (xs @ ys)" by (rule chain_heap_cong [OF assms(4)]) (use d in \<open>auto simp: same_links_def\<close>)
    then show ?thesis using True d assms(7,8) by auto
  next
    case False
    have ls: "chain (heap t) (fh t b) (ls b)" "distinct (ls b)" using assms(1) unfolding buckets_def by blast+
    have nb: "q \<notin> set (ls ?b)" "q \<noteq> p" if q: "q \<in> set (ls b)" for q
    proof -
      obtain g where "heap t q = Some g" "HASH (f_id g) = b" using assms(1) q unfolding buckets_def by blast
      then show "q \<notin> set (ls ?b)" "q \<noteq> p" using False bucket_same [OF assms(1)] assms(2) by auto
    qed
    have "chain (heap t') (fh t b) (ls b)" by (rule chain_heap_cong [OF ls(1)]) (use nb assms(6,7) in \<open>auto simp: same_links_def\<close>)
    then show ?thesis using False ls assms(8) by simp
  qed
  have at: "attrs t' q = (if q = p then None else attrs t q)" for q using assms(5,7) by (simp add: attrs_def)
  have 2: "q \<in> set ((ls(?b := xs @ ys)) (HASH (f_id g)))" if g: "heap t' q = Some g" for q g
  proof -
    have "q \<noteq> p" "attrs t q = Some (f_count g, f_id g)" using at [of q] g by (auto simp: attrs_def split: if_splits)
    then obtain g' where "heap t q = Some g'" "f_id g' = f_id g" by (auto simp: attrs_def)
    then have "q \<in> set (ls (HASH (f_id g)))" using assms(1) unfolding buckets_def by metis
    then show ?thesis using \<open>q \<noteq> p\<close> assms(3) by auto
  qed
  have 3: "\<exists>g. heap t' q = Some g \<and> HASH (f_id g) = b" if q: "q \<in> set ((ls(?b := xs @ ys)) b)" for q b
  proof -
    have "q \<in> set (ls b)" "q \<noteq> p" using q assms(3) d bucket_same [OF assms(1,2), of b] by (auto split: if_splits)
    then obtain g where "heap t q = Some g" "HASH (f_id g) = b" using assms(1) unfolding buckets_def by blast
    then have "attrs t' q = Some (f_count g, f_id g)" using at [of q] \<open>q \<noteq> p\<close> by (simp add: attrs_def)
    then show ?thesis using \<open>HASH (f_id g) = b\<close> by (auto simp: attrs_def)
  qed
  show ?thesis unfolding r buckets_def using 1 2 3 by blast
qed

lemma unlink_buckets:
  assumes "buckets t ls" and "heap t p = Some f"
  shows "\<exists>t'. unlink p f t = Some t' \<and> buckets (free_foo p t') (ls(HASH (f_id f) := remove1 p (ls (HASH (f_id f))))) \<and>
    attrs (free_foo p t') = (attrs t)(p := None)"
proof -
  let ?b = "HASH (f_id f)"
  have c: "chain (heap t) (fh t ?b) (ls ?b)" "distinct (ls ?b)" "p \<in> set (ls ?b)"
    using assms unfolding buckets_def by blast+
  then obtain xs ys where ls: "ls ?b = xs @ p # ys" by (meson split_list)
  show ?thesis
  proof (cases xs)
    case Nil
    let ?t = "t\<lparr>fh := (fh t)(?b := f_next f)\<rparr>"
    have f: "fh t ?b = Some p" "chain (heap t) (f_next f) ys" using c(1) ls Nil assms(2) by auto
    have "buckets (free_foo p ?t) (ls(?b := remove1 p (ls ?b)))"
      by (rule bucketsI [OF assms ls, of "heap t"]) (use f Nil in \<open>auto simp: attrs_def free_foo_def\<close>)
    then show ?thesis using f(1) by (auto simp: unlink_def free_foo_def attrs_def)
  next
    case (Cons z zs)
    have f: "fh t ?b = Some z" "z \<noteq> p" "chain (heap t) (Some z) (z # zs @ p # ys)" "distinct (z # zs @ p # ys)"
      using c(1,2) unfolding ls Cons by auto
    obtain q g where q: "pred_walk (heap t) p z = Some q" "q = last (z # zs)" "heap t q = Some g"
      "chain ((heap t)(q \<mapsto> g\<lparr>f_next := f_next f\<rparr>)) (Some z) (z # zs @ ys)"
      using chain_remove [OF f(3,4) assms(2)] by blast
    have qs: "q \<in> set (z # zs)" unfolding q(2) by (rule last_in_set) simp
    let ?t = "t\<lparr>heap := (heap t)(q \<mapsto> g\<lparr>f_next := f_next f\<rparr>)\<rparr>"
    have "buckets (free_foo p ?t) (ls(?b := remove1 p (ls ?b)))"
      by (rule bucketsI [OF assms ls, of "heap ?t" "Some z"]) (use f q(3,4) qs Cons ls in \<open>auto simp: attrs_def free_foo_def\<close>)
    moreover have "unlink p f t = Some ?t" using f q(1,3) by (simp add: unlink_def)
    moreover have "attrs (free_foo p ?t) = (attrs t)(p := None)" using q(3) by (auto simp: attrs_def free_foo_def)
    ultimately show ?thesis by blast
  qed
qed

lemma count_buckets:
  assumes "buckets t ls" and "heap t p = Some f"
  shows "buckets (t\<lparr>heap := (heap t)(p \<mapsto> f\<lparr>f_count := n\<rparr>)\<rparr>) ls"
    and "attrs (t\<lparr>heap := (heap t)(p \<mapsto> f\<lparr>f_count := n\<rparr>)\<rparr>) = (attrs t)(p \<mapsto> (n, f_id f))"
proof -
  have "chain ((heap t)(p \<mapsto> f\<lparr>f_count := n\<rparr>)) x ps" if "chain (heap t) x ps" for x ps
    by (rule chain_heap_cong [OF that]) (use assms(2) in \<open>simp add: same_links_def\<close>)
  then show "buckets (t\<lparr>heap := (heap t)(p \<mapsto> f\<lparr>f_count := n\<rparr>)\<rparr>) ls"
    using assms bucket_same [OF assms] unfolding buckets_def by (auto split: if_splits)
  show "attrs (t\<lparr>heap := (heap t)(p \<mapsto> f\<lparr>f_count := n\<rparr>)\<rparr>) = (attrs t)(p \<mapsto> (n, f_id f))"
    by (auto simp: attrs_def)
qed

lemma alloc_buckets:
  assumes "buckets t ls" and "heap t p = None" and "foo_alloc (Some p) True oid t = (r, t')"
  shows "r = Some p \<and> buckets t' (ls(HASH oid := p # ls (HASH oid))) \<and> attrs t' = (attrs t)(p \<mapsto> (1, oid))"
proof -
  have new: "p \<notin> set (ls b)" for b using assms(1,2) unfolding buckets_def by force
  have r: "r = Some p" and t': "t' = t\<lparr>heap := (heap t)(p \<mapsto> \<lparr>f_count = 1, f_id = oid, f_next = fh t (HASH oid)\<rparr>), fh := (fh t)(HASH oid \<mapsto> p)\<rparr>"
    using assms(3) unfolding foo_alloc_def Let_def by auto
  have "chain (heap t') (fh t b) (ls b)" for b
  proof -
    have "chain (heap t) (fh t b) (ls b)" using assms(1) unfolding buckets_def by blast
    then show ?thesis by (rule chain_heap_cong) (use new in \<open>auto simp: same_links_def t'\<close>)
  qed
  moreover have "q \<in> set (ls (HASH (f_id f)))" if "heap t q = Some f" for q f using assms(1) that unfolding buckets_def by blast
  ultimately have "buckets t' (ls(HASH oid := p # ls (HASH oid)))"
    using assms(1) new unfolding buckets_def t' by (fastforce split: if_splits)
  then show ?thesis using r by (auto simp: attrs_def t')
qed

lemma find_buckets:
  assumes "buckets t ls"
  shows "find_walk (heap t) oid (fh t (HASH oid)) = Some None \<and> (\<forall>p n. attrs t p \<noteq> Some (n, oid)) \<or>
    (\<exists>p f. find_walk (heap t) oid (fh t (HASH oid)) = Some (Some p) \<and> heap t p = Some f \<and> f_id f = oid)"
proof -
  have c: "chain (heap t) (fh t (HASH oid)) (ls (HASH oid))" using assms unfolding buckets_def by blast
  show ?thesis
  proof (cases "find (\<lambda>p. \<exists>f. heap t p = Some f \<and> f_id f = oid) (ls (HASH oid))")
    case None
    then have "\<forall>p\<in>set (ls (HASH oid)). \<not> (\<exists>f. heap t p = Some f \<and> f_id f = oid)" by (simp add: find_None_iff)
    then have "attrs t p \<noteq> Some (n, oid)" for p n
      using assms unfolding buckets_def attrs_def by fastforce
    then show ?thesis using find_walk_chain [OF c] None by simp
  next
    case (Some p)
    then show ?thesis using find_walk_chain [OF c, of oid] by (auto simp: find_Some_iff)
  qed
qed

subsection \<open>Threads\<close>

text \<open>
  The references that threads hold on each object, and how many of the holders are in the window
  of \<open>foo_rele\<close>. A thread may hold or release an object it has a reference on; a finished
  window is the second step of its release.
\<close>

record system =
  tab :: table
  refs :: "nat \<Rightarrow> nat"
  window :: "nat \<Rightarrow> nat"

datatype action = Alloc "nat option" bool int | Find int | Hold nat | Release nat | Finish nat

definition enabled :: "action \<Rightarrow> system \<Rightarrow> bool" where
  "enabled a s =
     (case a of
        Alloc p m oid \<Rightarrow> (case p of None \<Rightarrow> True | Some p \<Rightarrow> heap (tab s) p = None)
      | Find oid \<Rightarrow> True
      | Hold p \<Rightarrow> window s p < refs s p
      | Release p \<Rightarrow> window s p < refs s p
      | Finish p \<Rightarrow> 0 < window s p)"

definition gain :: "nat option \<Rightarrow> table \<Rightarrow> system \<Rightarrow> system" where
  "gain r t s = (case r of None \<Rightarrow> s\<lparr>tab := t\<rparr> | Some p \<Rightarrow> s\<lparr>tab := t, refs := (refs s)(p := refs s p + 1)\<rparr>)"

definition step2 :: "action \<Rightarrow> system \<Rightarrow> system option" where
  "step2 a s =
     (case a of
        Alloc p m oid \<Rightarrow> (let (r, t) = foo_alloc p m oid (tab s) in Some (gain r t s))
      | Find oid \<Rightarrow> map_option (\<lambda>(r, t). gain r t s) (foo_find oid (tab s))
      | Hold p \<Rightarrow> map_option (\<lambda>t. gain (Some p) t s) (foo_hold p (tab s))
      | Release p \<Rightarrow>
          map_option (\<lambda>(again, t). if again then s\<lparr>window := (window s)(p := window s p + 1)\<rparr>
            else s\<lparr>tab := t, refs := (refs s)(p := refs s p - 1)\<rparr>) (rele2_first p (tab s))
      | Finish p \<Rightarrow>
          map_option (\<lambda>t. s\<lparr>tab := t, refs := (refs s)(p := refs s p - 1), window := (window s)(p := window s p - 1)\<rparr>)
            (rele2_second p (tab s)))"

inductive reach2 :: "system \<Rightarrow> bool" where
  empty: "reach2 \<lparr>tab = \<lparr>heap = Map.empty, fh = Map.empty\<rparr>, refs = \<lambda>_. 0, window = \<lambda>_. 0\<rparr>"
| step: "reach2 s \<Longrightarrow> enabled a s \<Longrightarrow> step2 a s = Some s' \<Longrightarrow> reach2 s'"

definition counted :: "system \<Rightarrow> nat \<Rightarrow> bool" where
  "counted s p \<longleftrightarrow>
     (case attrs (tab s) p of
        None \<Rightarrow> refs s p = 0 \<and> window s p = 0
      | Some (n, _) \<Rightarrow> n = int (refs s p) \<and> 0 < refs s p \<and> window s p \<le> refs s p)"

definition sys_ok :: "system \<Rightarrow> bool" where
  "sys_ok s \<longleftrightarrow> (\<exists>ls. buckets (tab s) ls) \<and> (\<forall>p. counted s p)"

lemma counted_live:
  assumes "\<forall>p. counted s p" and "heap (tab s) p = Some f"
  shows "f_count f = int (refs s p)" "0 < refs s p" "window s p \<le> refs s p"
  using assms(1) [rule_format, of p] assms(2) by (simp_all add: counted_def attrs_def)

lemma counted_dead: "\<forall>p. counted s p \<Longrightarrow> heap (tab s) p = None \<Longrightarrow> refs s p = 0 \<and> window s p = 0"
  by (auto simp: counted_def attrs_def dest: spec [of _ p])

lemma gain_ok:
  assumes "\<forall>p. counted s p" and "attrs t = (attrs (tab s))(p \<mapsto> (int (refs s p) + 1, oid))" and "buckets t ls"
    and "window s p \<le> refs s p"
  shows "sys_ok (gain (Some p) t s)"
proof -
  have "counted (gain (Some p) t s) q" for q
    using assms(1) [rule_format, of q] assms(2,4) by (auto simp: counted_def gain_def split: option.splits)
  then show ?thesis using assms(3) by (auto simp: sys_ok_def gain_def)
qed

lemma window_le: "\<forall>p. counted s p \<Longrightarrow> window s p \<le> refs s p"
  by (auto simp: counted_def split: option.splits dest: spec [of _ p])

lemma step2_ok:
  assumes "sys_ok s" and "enabled a s"
  shows "\<exists>s'. step2 a s = Some s' \<and> sys_ok s'"
proof -
  obtain ls where b: "buckets (tab s) ls" and c: "\<forall>p. counted s p" using assms(1) by (auto simp: sys_ok_def)
  have hold: "\<exists>t. foo_hold p (tab s) = Some t \<and> sys_ok (gain (Some p) t s)" if f: "heap (tab s) p = Some f" for p f
  proof -
    let ?t = "(tab s)\<lparr>heap := (heap (tab s))(p \<mapsto> f\<lparr>f_count := f_count f + 1\<rparr>)\<rparr>"
    have "sys_ok (gain (Some p) ?t s)"
      using gain_ok [OF c _ count_buckets(1) [OF b f], where p = p and oid = "f_id f"] count_buckets(2) [OF b f, of "f_count f + 1"]
        counted_live [OF c f] by auto
    then show ?thesis using f by (simp add: foo_hold_def)
  qed
  show ?thesis
  proof (cases a)
    case (Alloc q m oid)
    show ?thesis
    proof (cases "q = None \<or> \<not> m")
      case True
      then show ?thesis using assms(1) Alloc by (cases q) (auto simp: step2_def foo_alloc_def gain_def)
    next
      case False
      then obtain p where q: "q = Some p" "m" by auto
      then have h: "heap (tab s) p = None" using assms(2) Alloc by (simp add: enabled_def)
      obtain r t where rt: "foo_alloc (Some p) True oid (tab s) = (r, t)" by fastforce
      note al = alloc_buckets [OF b h rt]
      have "refs s p = 0" "window s p = 0" using counted_dead [OF c h] by blast+
      then have "sys_ok (gain (Some p) t s)" using gain_ok [OF c, where t = t and p = p and oid = oid] al by auto
      then show ?thesis using Alloc q rt al by (simp add: step2_def)
    qed
  next
    case (Find oid)
    from find_buckets [OF b, of oid] show ?thesis
    proof (elim disjE exE conjE, goal_cases)
      case 1
      then show ?case using assms(1) Find by (simp add: step2_def foo_find_def gain_def)
    next
      case (2 p f)
      then show ?case using hold [OF 2(2)] Find by (auto simp: step2_def foo_find_def)
    qed
  next
    case (Hold p)
    then have "heap (tab s) p \<noteq> None" using assms(2) counted_dead [OF c, of p] by (auto simp: enabled_def)
    then obtain f where f: "heap (tab s) p = Some f" by blast
    then show ?thesis using hold [OF f] Hold by (auto simp: step2_def)
  next
    case (Release p)
    then have w: "window s p < refs s p" using assms(2) by (simp add: enabled_def)
    then obtain f where f: "heap (tab s) p = Some f" using counted_dead [OF c, of p] by (cases "heap (tab s) p") auto
    show ?thesis
    proof (cases "f_count f = 1")
      case True
      have "counted (s\<lparr>window := (window s)(p := window s p + 1)\<rparr>) q" for q
        using c [rule_format, of q] w by (auto simp: counted_def split: option.splits)
      then show ?thesis using True f Release b by (auto simp: step2_def rele2_first_def sys_ok_def)
    next
      case False
      let ?t = "(tab s)\<lparr>heap := (heap (tab s))(p \<mapsto> f\<lparr>f_count := f_count f - 1\<rparr>)\<rparr>"
      have "counted (s\<lparr>tab := ?t, refs := (refs s)(p := refs s p - 1)\<rparr>) q" for q
        using c [rule_format, of q] w False counted_live [OF c f] count_buckets(2) [OF b f, of "f_count f - 1"]
        by (auto simp: counted_def split: option.splits)
      then show ?thesis using False f Release count_buckets(1) [OF b f] by (auto simp: step2_def rele2_first_def sys_ok_def)
    qed
  next
    case (Finish p)
    then have w: "0 < window s p" using assms(2) by (simp add: enabled_def)
    then obtain f where f: "heap (tab s) p = Some f" using counted_dead [OF c, of p] by (cases "heap (tab s) p") auto
    note cl = counted_live [OF c f]
    show ?thesis
    proof (cases "f_count f = 1")
      case True
      obtain t where t: "unlink p f (tab s) = Some t" "buckets (free_foo p t) (ls(HASH (f_id f) := remove1 p (ls (HASH (f_id f)))))"
        "attrs (free_foo p t) = (attrs (tab s))(p := None)"
        using unlink_buckets [OF b f] by blast
      have "refs s p = 1" "window s p = 1" using cl w True by auto
      then have "counted (s\<lparr>tab := free_foo p t, refs := (refs s)(p := refs s p - 1), window := (window s)(p := window s p - 1)\<rparr>) q" for q
        using c [rule_format, of q] t(3) by (auto simp: counted_def split: option.splits)
      then show ?thesis using True f Finish t by (auto simp: step2_def rele2_second_def sys_ok_def)
    next
      case False
      let ?t = "(tab s)\<lparr>heap := (heap (tab s))(p \<mapsto> f\<lparr>f_count := f_count f - 1\<rparr>)\<rparr>"
      have "counted (s\<lparr>tab := ?t, refs := (refs s)(p := refs s p - 1), window := (window s)(p := window s p - 1)\<rparr>) q" for q
        using c [rule_format, of q] w False cl count_buckets(2) [OF b f, of "f_count f - 1"]
        by (auto simp: counted_def split: option.splits)
      then show ?thesis using False f Finish count_buckets(1) [OF b f] by (auto simp: step2_def rele2_second_def sys_ok_def)
    qed
  qed
qed

lemma reach2_ok: "reach2 s \<Longrightarrow> sys_ok s"
proof (induction rule: reach2.induct)
  case empty
  show ?case unfolding sys_ok_def
    by (intro conjI exI [of _ "\<lambda>_. []"] allI) (simp_all add: buckets_def counted_def attrs_def)
next
  case (step s a s')
  then show ?case using step2_ok [of s a] by auto
qed

subsection \<open>Both versions of the release\<close>

lemma unlink_head: "fh t (HASH (f_id f)) = Some p \<Longrightarrow> unlink p f t = Some (t\<lparr>fh := (fh t)(HASH (f_id f) := f_next f)\<rparr>)"
  by (simp add: unlink_def Let_def)

lemma rele_same:
  assumes "buckets t ls" and "heap t p = Some f"
  shows "foo_rele2 p t = foo_rele3 p t"
proof (cases "f_count f = 1")
  case False
  then show ?thesis using assms(2) by (simp add: foo_rele2_def rele2_first_def foo_rele3_def Let_def)
next
  case True
  let ?b = "HASH (f_id f)"
  define f' where "f' = f\<lparr>f_count := 0\<rparr>"
  define h' where "h' = (heap t)(p \<mapsto> f')"
  have f': "f_id f' = f_id f" "f_next f' = f_next f" by (simp_all add: f'_def)
  have two: "foo_rele2 p t = map_option (free_foo p) (unlink p f t)"
    using True assms(2) by (simp add: foo_rele2_def rele2_first_def rele2_second_def)
  have three: "foo_rele3 p t = map_option (free_foo p) (unlink p f' (t\<lparr>heap := h'\<rparr>))"
    using True assms(2) by (simp add: foo_rele3_def h'_def f'_def Let_def)
  have c: "chain (heap t) (fh t ?b) (ls ?b)" "distinct (ls ?b)" "p \<in> set (ls ?b)"
    using assms unfolding buckets_def by blast+
  then obtain xs ys where ls: "ls ?b = xs @ p # ys" by (meson split_list)
  show ?thesis
  proof (cases xs)
    case Nil
    then have h: "fh t ?b = Some p" using c(1) ls by auto
    then show ?thesis unfolding two three using f' by (simp add: unlink_def Let_def free_foo_def h'_def)
  next
    case (Cons z zs)
    have g: "fh t ?b = Some z" "z \<noteq> p" "chain (heap t) (Some z) (z # zs @ p # ys)" "distinct (z # zs @ p # ys)"
      using c(1,2) unfolding ls Cons by auto
    have k: "chain h' (Some z) (z # zs @ p # ys)"
      by (rule chain_heap_cong [OF g(3)]) (use assms(2) f' in \<open>auto simp: same_links_def h'_def\<close>)
    have "last (z # zs) \<in> set (z # zs)" by (rule last_in_set) simp
    then have lp: "last (z # zs) \<noteq> p" using g(4) by auto
    obtain e where w: "pred_walk (heap t) p z = Some (last (z # zs))" "heap t (last (z # zs)) = Some e"
      using chain_remove [OF g(3,4) assms(2)] by blast
    have "h' p = Some f'" by (simp add: h'_def)
    then have w': "pred_walk h' p z = Some (last (z # zs))" using chain_remove [OF k g(4)] by blast
    have "h' (last (z # zs)) = Some e" using w(2) lp by (simp add: h'_def)
    then show ?thesis unfolding two three unlink_def f' using g(1,2) w w' lp
      by (simp add: Let_def free_foo_def h'_def fun_upd_twist del: last.simps)
  qed
qed

subsection \<open>The property\<close>

text \<open>
  C33. However the threads interleave, also in the window of \<open>mutex2\<close>'s \<open>foo_rele\<close>, no operation touches an
  object that has been freed: an enabled step always succeeds, an object is live exactly while
  references to it are held, its count is their number, \<open>foo_find\<close> returns an object of the
  number asked for exactly when one is live, and releasing a reference without interruption does the
  same in \<open>mutex2\<close> as in \<open>mutex3\<close>.
\<close>

theorem refcount_safe:
  assumes "reach2 s" and "enabled a s"
  shows "step2 a s \<noteq> None \<and>
    (\<forall>p. (case heap (tab s) p of None \<Rightarrow> refs s p = 0 | Some f \<Rightarrow> 0 < refs s p \<and> f_count f = int (refs s p))) \<and>
    (\<exists>r t. foo_find oid (tab s) = Some (r, t) \<and> (r = None \<longleftrightarrow> (\<forall>p f. heap (tab s) p = Some f \<longrightarrow> f_id f \<noteq> oid)) \<and>
      (\<forall>p. r = Some p \<longrightarrow> (\<exists>f. heap (tab s) p = Some f \<and> f_id f = oid))) \<and>
    (\<forall>p. refs s p \<noteq> 0 \<longrightarrow> foo_rele2 p (tab s) = foo_rele3 p (tab s))"
proof -
  have ok: "sys_ok s" by (rule reach2_ok [OF assms(1)])
  then obtain ls where b: "buckets (tab s) ls" and c: "\<forall>p. counted s p" by (auto simp: sys_ok_def)
  have 1: "step2 a s \<noteq> None" using step2_ok [OF ok assms(2)] by auto
  have 2: "case heap (tab s) p of None \<Rightarrow> refs s p = 0 | Some f \<Rightarrow> 0 < refs s p \<and> f_count f = int (refs s p)" for p
    using counted_live [OF c, of p] counted_dead [OF c, of p] by (cases "heap (tab s) p") auto
  have 3: "\<exists>r t. foo_find oid (tab s) = Some (r, t) \<and> (r = None \<longleftrightarrow> (\<forall>p f. heap (tab s) p = Some f \<longrightarrow> f_id f \<noteq> oid)) \<and>
      (\<forall>p. r = Some p \<longrightarrow> (\<exists>f. heap (tab s) p = Some f \<and> f_id f = oid))"
    using find_buckets [OF b, of oid]
  proof (elim disjE exE conjE, goal_cases)
    case 1
    then have "foo_find oid (tab s) = Some (None, tab s)" by (simp add: foo_find_def)
    moreover have "f_id f \<noteq> oid" if "heap (tab s) p = Some f" for p f
      using 1(2) that by (auto simp: attrs_def)
    ultimately show ?case by blast
  next
    case (2 p f)
    then show ?case by (auto simp: foo_find_def foo_hold_def)
  qed
  have 4: "foo_rele2 p (tab s) = foo_rele3 p (tab s)" if "refs s p \<noteq> 0" for p
    using that counted_dead [OF c, of p] rele_same [OF b, of p] by (cases "heap (tab s) p") auto
  show ?thesis using 1 2 3 4 by blast
qed

theorem refcount_safe_witness:
  "step2 (Finish 7) \<lparr>tab = \<lparr>heap = [7 \<mapsto> \<lparr>f_count = 1, f_id = 31, f_next = None\<rparr>], fh = [2 \<mapsto> 7]\<rparr>, refs = (\<lambda>_. 0)(7 := 1), window = (\<lambda>_. 0)(7 := 1)\<rparr> \<noteq> None"
proof -
  let ?e = "\<lparr>tab = \<lparr>heap = Map.empty, fh = Map.empty\<rparr>, refs = \<lambda>_. 0, window = \<lambda>_. 0\<rparr>"
  let ?t = "\<lparr>heap = [7 \<mapsto> \<lparr>f_count = 1, f_id = 31, f_next = None\<rparr>], fh = [2 \<mapsto> 7]\<rparr>"
  have 1: "step2 (Alloc (Some 7) True 31) ?e = Some \<lparr>tab = ?t, refs = (\<lambda>_. 0)(7 := 1), window = \<lambda>_. 0\<rparr>"
    by (simp add: step2_def foo_alloc_def gain_def HASH_def NHASH_def)
  have r1: "reach2 \<lparr>tab = ?t, refs = (\<lambda>_. 0)(7 := 1), window = \<lambda>_. 0\<rparr>"
    by (rule reach2.step [OF reach2.empty _ 1]) (simp add: enabled_def)
  have 2: "step2 (Release 7) \<lparr>tab = ?t, refs = (\<lambda>_. 0)(7 := 1), window = \<lambda>_. 0\<rparr> =
      Some \<lparr>tab = ?t, refs = (\<lambda>_. 0)(7 := 1), window = (\<lambda>_. 0)(7 := 1)\<rparr>"
    by (simp add: step2_def rele2_first_def)
  have "reach2 \<lparr>tab = ?t, refs = (\<lambda>_. 0)(7 := 1), window = (\<lambda>_. 0)(7 := 1)\<rparr>"
    by (rule reach2.step [OF r1 _ 2]) (simp add: enabled_def)
  from refcount_safe [OF this, of "Finish 7"] show ?thesis by (simp add: enabled_def)
qed

end
