(* ===== verification/Barrier.thy ===== *)
theory Barrier
  imports Main "HOL-Library.Multiset"
begin

section \<open>Sorting with threads and a barrier (threads/barrier.c)\<close>

text \<open>
  Each thread sorts its segment of \<open>nums\<close> with \<open>heapsort\<close>, which is a parameter; the main thread
  waits for all of them and merges the segments. The number of threads and of numbers per
  thread are parameters (8 and 1000000 in the program), the order in which the threads run is
  any permutation. A read outside of \<open>nums\<close> is an error (\<open>None\<close>); \<open>minidx\<close> has an arbitrary value at first.
\<close>

definition LONG_MAX :: int where "LONG_MAX = 2 ^ 63 - 1"
definition NTHR :: nat where "NTHR = 8"
definition NUMNUM :: nat where "NUMNUM = 8000000"
definition TNUM :: nat where "TNUM = NUMNUM div NTHR"

definition complong :: "int \<Rightarrow> int \<Rightarrow> int" where
  "complong l1 l2 = (if l1 = l2 then 0 else if l1 < l2 then -1 else 1)"

definition thr_fn :: "(int list \<Rightarrow> int list) \<Rightarrow> nat \<Rightarrow> nat \<Rightarrow> int list \<Rightarrow> int list" where
  "thr_fn heapsort tnum idx nums = take idx nums @ heapsort (take tnum (drop idx nums)) @ drop (idx + tnum) nums"

text \<open>One round of the inner loop of \<open>merge\<close>, then the loop over the threads.\<close>

definition min_step :: "int list \<Rightarrow> nat \<Rightarrow> nat list \<Rightarrow> nat \<Rightarrow> int \<times> nat \<Rightarrow> int \<times> nat" where
  "min_step nums tnum idx i = (\<lambda>(num, minidx).
     if idx ! i < (i + 1) * tnum \<and> nums ! (idx ! i) < num then (nums ! (idx ! i), i) else (num, minidx))"

definition find_min :: "int list \<Rightarrow> nat \<Rightarrow> nat list \<Rightarrow> nat \<Rightarrow> int \<times> nat" where
  "find_min nums tnum idx minidx = fold (min_step nums tnum idx) [0 ..< length idx] (LONG_MAX, minidx)"

primrec merge_loop :: "nat \<Rightarrow> int list \<Rightarrow> nat \<Rightarrow> nat list \<Rightarrow> nat \<Rightarrow> int list \<Rightarrow> int list option" where
  "merge_loop 0 nums tnum idx minidx snums = Some snums"
| "merge_loop (Suc n) nums tnum idx minidx snums =
     (let m = snd (find_min nums tnum idx minidx)
      in if length idx \<le> m \<or> length nums \<le> idx ! m then None
         else merge_loop n nums tnum (idx[m := idx ! m + 1]) m (snums @ [nums ! (idx ! m)]))"

definition merge :: "nat \<Rightarrow> nat \<Rightarrow> nat \<Rightarrow> int list \<Rightarrow> int list option" where
  "merge junk nthr tnum nums = merge_loop (length nums) nums tnum (map (\<lambda>i. i * tnum) [0 ..< nthr]) junk []"

text \<open>\<open>main\<close>: the threads run in the order \<open>ord\<close>, then the merge.\<close>

definition psort :: "(int list \<Rightarrow> int list) \<Rightarrow> nat list \<Rightarrow> nat \<Rightarrow> nat \<Rightarrow> nat \<Rightarrow> int list \<Rightarrow> int list option" where
  "psort heapsort ord junk nthr tnum nums = merge junk nthr tnum (fold (\<lambda>i. thr_fn heapsort tnum (i * tnum)) ord nums)"

subsection \<open>The threads\<close>

definition seg :: "nat \<Rightarrow> nat \<Rightarrow> 'a list \<Rightarrow> 'a list" where
  "seg tnum i xs = take tnum (drop (i * tnum) xs)"

lemma thr_fn_seg:
  assumes "length nums = k * tnum" and "i < k" and "j < k" and "\<And>xs. length (hs xs) = length xs"
  shows "seg tnum j (thr_fn hs tnum (i * tnum) nums) = (if j = i then hs (seg tnum i nums) else seg tnum j nums)"
    and "length (thr_fn hs tnum (i * tnum) nums) = length nums"
proof -
  have le: "i * tnum + tnum \<le> length nums" if "i < k" for i
    using that assms(1) mult_le_mono1 [of "i + 1" k tnum] by simp
  show "length (thr_fn hs tnum (i * tnum) nums) = length nums" using le [OF assms(2)] assms(4) by (simp add: thr_fn_def)
  have l: "length (take (i * tnum) nums) = i * tnum" "length (hs (take tnum (drop (i * tnum) nums))) = tnum"
    using le [OF assms(2)] assms(4) by simp_all
  show "seg tnum j (thr_fn hs tnum (i * tnum) nums) = (if j = i then hs (seg tnum i nums) else seg tnum j nums)"
  proof (cases j i rule: linorder_cases)
    case less
    then have "j * tnum + tnum \<le> i * tnum" using mult_le_mono1 [of "j + 1" i tnum] by simp
    define A where "A = take (i * tnum) nums"
    have A: "length A = i * tnum" using l by (simp add: A_def)
    have "take tnum (drop (j * tnum) (A @ r)) = take tnum (drop (j * tnum) A)" for r using A \<open>j * tnum + tnum \<le> i * tnum\<close> by simp
    moreover have "take tnum (drop (j * tnum) A) = take tnum (drop (j * tnum) nums)"
      using \<open>j * tnum + tnum \<le> i * tnum\<close> by (simp add: A_def drop_take min_def)
    ultimately show ?thesis using less by (simp only: seg_def thr_fn_def A_def [symmetric] if_False less_imp_neq)
  next
    case equal
    then show ?thesis using l by (simp add: seg_def thr_fn_def)
  next
    case greater
    then have "i * tnum + tnum \<le> j * tnum" using mult_le_mono1 [of "i + 1" j tnum] by simp
    then obtain d where "j * tnum = i * tnum + tnum + d" using le_Suc_ex by blast
    then show ?thesis using l greater by (simp add: seg_def thr_fn_def add.commute add.left_commute)
  qed
qed

lemma threads_segs:
  assumes "length nums = k * tnum" and "distinct ord" and "set ord \<subseteq> {..<k}" and "j < k" and "\<And>xs. length (hs xs) = length xs"
  shows "seg tnum j (fold (\<lambda>i. thr_fn hs tnum (i * tnum)) ord nums) = (if j \<in> set ord then hs (seg tnum j nums) else seg tnum j nums) \<and>
    length (fold (\<lambda>i. thr_fn hs tnum (i * tnum)) ord nums) = length nums"
  using assms(1-3)
proof (induction ord arbitrary: nums)
  case (Cons i ord)
  then have i: "i < k" by simp
  note t = thr_fn_seg [OF Cons.prems(1) i, where hs = hs, OF _ assms(5)]
  have "length (thr_fn hs tnum (i * tnum) nums) = k * tnum" using t(2) [OF i] Cons.prems(1) by simp
  from Cons.IH [OF this] Cons.prems(2,3) show ?case using t(1) [OF assms(4)] t(2) [OF i] by auto
qed simp

lemma segs_concat:
  assumes "length nums = k * tnum"
  shows "mset nums = (\<Sum>i<k. mset (seg tnum i nums))"
  using assms
proof (induction k arbitrary: nums)
  case (Suc k)
  then have l: "length (take (k * tnum) nums) = k * tnum" by simp
  have "seg tnum i (take (k * tnum) nums) = seg tnum i nums" if "i < k" for i
  proof -
    have "i * tnum + tnum \<le> k * tnum" using that mult_le_mono1 [of "i + 1" k tnum] by simp
    then show ?thesis by (simp add: seg_def drop_take min_def)
  qed
  then have "(\<Sum>i<k. mset (seg tnum i nums)) = mset (take (k * tnum) nums)" using Suc.IH [OF l] by simp
  moreover have "seg tnum k nums = drop (k * tnum) nums" using Suc.prems by (simp add: seg_def)
  ultimately show ?case by (simp add: mset_append [symmetric] del: mset_append)
qed simp

subsection \<open>The merge\<close>

text \<open>What is left of a segment.\<close>

definition rest :: "int list \<Rightarrow> nat \<Rightarrow> nat list \<Rightarrow> nat \<Rightarrow> int list" where
  "rest nums tnum idx i = take ((i + 1) * tnum - idx ! i) (drop (idx ! i) nums)"

definition left_over :: "int list \<Rightarrow> nat \<Rightarrow> nat list \<Rightarrow> int multiset" where
  "left_over nums tnum idx = (\<Sum>i<length idx. mset (rest nums tnum idx i))"

definition merging :: "int list \<Rightarrow> nat \<Rightarrow> nat list \<Rightarrow> bool" where
  "merging nums tnum idx \<longleftrightarrow> length nums = length idx * tnum \<and>
     (\<forall>i<length idx. idx ! i \<le> (i + 1) * tnum \<and> sorted (rest nums tnum idx i))"

lemma rest_Cons:
  assumes "merging nums tnum idx" and "i < length idx" and "idx ! i < (i + 1) * tnum"
  shows "rest nums tnum idx i = nums ! (idx ! i) # take ((i + 1) * tnum - (idx ! i + 1)) (drop (idx ! i + 1) nums) \<and> idx ! i < length nums"
proof -
  have "(i + 1) * tnum \<le> length idx * tnum" using assms(2) by (intro mult_le_mono1) simp
  then have l: "idx ! i < length nums" using assms(1,3) by (simp add: merging_def)
  have s: "(i + 1) * tnum - idx ! i = Suc ((i + 1) * tnum - (idx ! i + 1))" using assms(3) by simp
  show ?thesis unfolding rest_def s using l by (simp add: Cons_nth_drop_Suc [symmetric])
qed

lemma rest_Nil: "merging nums tnum idx \<Longrightarrow> i < length idx \<Longrightarrow> \<not> idx ! i < (i + 1) * tnum \<Longrightarrow> rest nums tnum idx i = []"
  by (simp add: rest_def)

lemma find_min_fold:
  "fold (min_step nums tnum idx) is (num, m) = (num', m') \<Longrightarrow>
    num' \<le> num \<and> (\<forall>i\<in>set is. idx ! i < (i + 1) * tnum \<longrightarrow> num' \<le> nums ! (idx ! i)) \<and>
    (num' = num \<and> m' = m \<or> m' \<in> set is \<and> idx ! m' < (m' + 1) * tnum \<and> nums ! (idx ! m') = num')"
proof (induction "is" arbitrary: num m)
  case (Cons i "is")
  obtain n2 m2 where st: "min_step nums tnum idx i (num, m) = (n2, m2)" by fastforce
  then have "fold (min_step nums tnum idx) is (n2, m2) = (num', m')" using Cons.prems by simp
  from Cons.IH [OF this] show ?case using st by (auto simp: min_step_def split: if_splits)
qed simp

lemma in_sum_mset: "x \<in># (\<Sum>i<n. f i) \<longleftrightarrow> (\<exists>i<n. x \<in># f i)" for f :: "nat \<Rightarrow> 'a multiset"
  by (induction n) (auto simp: less_Suc_eq)

lemma left_over_elem:
  "x \<in># left_over nums tnum idx \<longleftrightarrow> (\<exists>i<length idx. x \<in> set (rest nums tnum idx i))"
  unfolding left_over_def in_sum_mset by simp

lemma merge_step:
  fixes junk :: nat
  assumes "merging nums tnum idx" and "left_over nums tnum idx \<noteq> {#}" and "\<forall>x\<in>#left_over nums tnum idx. x < LONG_MAX"
  defines "m \<equiv> snd (find_min nums tnum idx junk)"
  shows "m < length idx \<and> idx ! m < length nums \<and> merging nums tnum (idx[m := idx ! m + 1]) \<and>
    left_over nums tnum idx = add_mset (nums ! (idx ! m)) (left_over nums tnum (idx[m := idx ! m + 1])) \<and>
    (\<forall>x\<in>#left_over nums tnum (idx[m := idx ! m + 1]). nums ! (idx ! m) \<le> x)"
proof -
  obtain num where f: "fold (min_step nums tnum idx) [0 ..< length idx] (LONG_MAX, junk) = (num, m)"
    by (metis m_def find_min_def prod.collapse)
  note F = find_min_fold [OF f]
  obtain x where "x \<in># left_over nums tnum idx" using assms(2) by auto
  then obtain i where i: "i < length idx" "x \<in> set (rest nums tnum idx i)" by (auto simp: left_over_elem)
  then have a: "idx ! i < (i + 1) * tnum" using rest_Nil [OF assms(1), of i] by (cases "idx ! i < (i + 1) * tnum") auto
  then have "nums ! (idx ! i) \<in># left_over nums tnum idx" using rest_Cons [OF assms(1) i(1)] i(1) by (auto simp: left_over_elem)
  then have "num < LONG_MAX" using F i(1) a assms(3) by fastforce
  then have m: "m < length idx" "idx ! m < (m + 1) * tnum" "nums ! (idx ! m) = num" using F by auto
  note rm = rest_Cons [OF assms(1) m(1,2)]
  let ?idx = "idx[m := idx ! m + 1]"
  have r: "rest nums tnum ?idx i = (if i = m then tl (rest nums tnum idx m) else rest nums tnum idx i)" if "i < length idx" for i
    using rm m(1) that by (auto simp: rest_def)
  have mg: "merging nums tnum ?idx" unfolding merging_def
  proof (intro conjI allI impI)
    show "length nums = length ?idx * tnum" using assms(1) by (simp add: merging_def)
  next
    fix i
    assume i: "i < length ?idx"
    show "?idx ! i \<le> (i + 1) * tnum" using i assms(1) m(2) unfolding merging_def by (cases "i = m") simp_all
    have "sorted (rest nums tnum idx i)" "sorted (rest nums tnum idx m)" using i m(1) assms(1) by (simp_all add: merging_def)
    then show "sorted (rest nums tnum ?idx i)" using r [of i] i by (simp add: sorted_tl)
  qed
  have lo: "left_over nums tnum idx = add_mset num (left_over nums tnum ?idx)"
  proof -
    have "left_over nums tnum idx = mset (rest nums tnum idx m) + (\<Sum>i\<in>{..<length idx} - {m}. mset (rest nums tnum idx i))"
      unfolding left_over_def using m(1) by (intro sum.remove) simp_all
    also have "\<dots> = add_mset num (mset (rest nums tnum ?idx m) + (\<Sum>i\<in>{..<length idx} - {m}. mset (rest nums tnum ?idx i)))"
      using r rm m(1,3) by simp
    also have "mset (rest nums tnum ?idx m) + (\<Sum>i\<in>{..<length idx} - {m}. mset (rest nums tnum ?idx i)) = left_over nums tnum ?idx"
      unfolding left_over_def using m(1) by (simp add: sum.remove [of "{..<length idx}" m])
    finally show ?thesis .
  qed
  have "num \<le> y" if y: "y \<in># left_over nums tnum ?idx" for y
  proof -
    have "y \<in># left_over nums tnum idx" using y lo by simp
    then obtain j where j: "j < length idx" "y \<in> set (rest nums tnum idx j)" by (auto simp: left_over_elem)
    then have a: "idx ! j < (j + 1) * tnum" using rest_Nil [OF assms(1), of j] by (cases "idx ! j < (j + 1) * tnum") auto
    have "sorted (rest nums tnum idx j)" using assms(1) j(1) by (simp add: merging_def)
    then have "nums ! (idx ! j) \<le> y" using rest_Cons [OF assms(1) j(1) a] j(2) by auto
    moreover have "num \<le> nums ! (idx ! j)" using F j(1) a by auto
    ultimately show ?thesis by simp
  qed
  then show ?thesis using m rm mg lo by simp
qed

lemma merge_loop_sorts:
  assumes "merging nums tnum idx" and "size (left_over nums tnum idx) = n" and "\<forall>x\<in>#left_over nums tnum idx. x < LONG_MAX"
  shows "\<exists>ys. merge_loop n nums tnum idx junk out = Some (out @ ys) \<and> sorted ys \<and> mset ys = left_over nums tnum idx"
  using assms
proof (induction n arbitrary: idx junk out)
  case (Suc n)
  have "left_over nums tnum idx \<noteq> {#}" using Suc.prems(2) by auto
  note S = merge_step [OF Suc.prems(1) this Suc.prems(3), of junk]
  let ?m = "snd (find_min nums tnum idx junk)"
  let ?idx = "idx[?m := idx ! ?m + 1]"
  have sz: "size (left_over nums tnum ?idx) = n" and lt: "\<forall>x\<in>#left_over nums tnum ?idx. x < LONG_MAX"
    using S Suc.prems(2,3) by auto
  obtain ys where ys: "merge_loop n nums tnum ?idx ?m (out @ [nums ! (idx ! ?m)]) = Some ((out @ [nums ! (idx ! ?m)]) @ ys)"
    "sorted ys" "mset ys = left_over nums tnum ?idx"
    using Suc.IH [OF _ sz lt] S by blast
  have "\<forall>y\<in>set ys. nums ! (idx ! ?m) \<le> y" using S ys(3) by (metis set_mset_mset)
  then show ?case using S ys by (intro exI [of _ "nums ! (idx ! ?m) # ys"]) (simp add: Let_def)
qed simp

subsection \<open>The property\<close>

text \<open>
  C35. The sort of the program equals the sort of the library: when \<open>heapsort\<close> sorts with \<open>complong\<close> and every
  number is below \<open>LONG_MAX\<close>, then in whatever order the threads run, \<open>merge\<close> reads only inside of \<open>nums\<close>
  and stores the sorted list of all the numbers.
\<close>

theorem psort_is_sort:
  assumes "\<And>xs. mset (hs xs) = mset xs \<and> sorted_wrt (\<lambda>x y. complong x y \<le> 0) (hs xs)" and "length nums = nthr * tnum"
    and "distinct ord" and "set ord = {..<nthr}" and "\<forall>x\<in>set nums. x < LONG_MAX"
  shows "psort hs ord junk nthr tnum nums = Some (sort nums)"
proof -
  let ?ns = "fold (\<lambda>i. thr_fn hs tnum (i * tnum)) ord nums"
  let ?idx = "map (\<lambda>i. i * tnum) [0 ..< nthr]"
  have hl: "length (hs xs) = length xs" for xs using assms(1) mset_eq_length by blast
  have hs: "sorted (hs xs)" for xs
    by (rule sorted_wrt_mono_rel [OF _ conjunct2 [OF assms(1)]]) (auto simp: complong_def split: if_splits)
  have sg: "seg tnum j ?ns = hs (seg tnum j nums)" "length ?ns = length nums" if "j < nthr" for j
    using threads_segs [OF assms(2,3) _ that hl] assms(4) that by auto
  have ln: "length ?ns = nthr * tnum"
  proof (cases nthr)
    case 0
    then show ?thesis using assms(2,4) by simp
  next
    case (Suc k)
    then show ?thesis using sg(2) [of 0] assms(2) by simp
  qed
  have rs: "rest ?ns tnum ?idx i = seg tnum i ?ns" if "i < nthr" for i
    using that by (simp add: rest_def seg_def)
  have mg: "merging ?ns tnum ?idx" using ln rs sg(1) hs by (simp add: merging_def)
  have "left_over ?ns tnum ?idx = (\<Sum>i<nthr. mset (seg tnum i ?ns))" unfolding left_over_def using rs by simp
  also have "\<dots> = (\<Sum>i<nthr. mset (seg tnum i nums))" using sg(1) assms(1) by simp
  also have "\<dots> = mset nums" using segs_concat [OF assms(2)] by simp
  finally have lo: "left_over ?ns tnum ?idx = mset nums" .
  have "size (left_over ?ns tnum ?idx) = length ?ns" using lo ln assms(2) by simp
  from merge_loop_sorts [OF mg this, of junk "[]"] obtain ys where "merge junk nthr tnum ?ns = Some ys" "sorted ys" "mset ys = mset nums"
    using lo assms(5) by (auto simp: merge_def)
  then show ?thesis using properties_for_sort [of ys nums] by (simp add: psort_def)
qed

theorem psort_is_sort_witness:
  "psort sort [1, 0] 0 2 3 [3, 1, 2, 0, 9, 5] = Some [0, 1, 2, 3, 5, 9]"
proof -
  have h: "mset (sort xs) = mset xs \<and> sorted_wrt (\<lambda>x y. complong x y \<le> 0) (sort xs)" for xs :: "int list"
    by (simp, rule sorted_wrt_mono_rel [OF _ sorted_sort]) (auto simp: complong_def)
  have "psort sort [1, 0] 0 2 3 [3, 1, 2, 0, 9, 5] = Some (sort [3, 1, 2, 0, 9, 5])"
    by (rule psort_is_sort [OF h]) (auto simp: LONG_MAX_def)
  then show ?thesis by simp
qed

end
