(* ===== verification/Semaph.thy ===== *)
theory Semaph
  imports Main
begin

section \<open>Semaphores on System V semaphore sets (lib/semaph.c)\<close>

text \<open>
  One key and any number of processes. The kernel holds at most one set of three semaphores
  for the key, with an identifier that is never used again after the set is removed, and for
  each process the adjustments that it applies when the process exits. A process is at one
  of the points between the system calls of the library's functions; a step of the system is
  one system call of one process, or its exit at any point.
\<close>

definition BIGCOUNT :: int where "BIGCOUNT = 10000"

text \<open>The largest value of a semaphore; the adjustments have the same bound.\<close>

definition SEMVMX :: int where "SEMVMX = 32767"

text \<open>An operation: the semaphore, what is added (zero waits for zero), and \<open>SEM_UNDO\<close>.\<close>

type_synonym sembuf = "nat \<times> int \<times> bool"

definition op_lock :: "sembuf list" where "op_lock = [(2, 0, False), (2, 1, True)]"
definition op_endcreate :: "sembuf list" where "op_endcreate = [(1, -1, True), (2, -1, True)]"
definition op_open :: "sembuf list" where "op_open = [(1, -1, True)]"
definition op_close :: "sembuf list" where "op_close = [(2, 0, False), (2, 1, True), (1, 1, True)]"
definition op_unlock :: "sembuf list" where "op_unlock = [(2, -1, True)]"
definition op_op :: "int \<Rightarrow> sembuf list" where "op_op v = [(0, v, True)]"

text \<open>
  \<open>semop\<close> on the values and the adjustments of the caller: all operations or none. The caller waits, or gets \<open>ERANGE\<close> when a value or an
  adjustment would leave its range.
\<close>

datatype semop_result = Done "int list \<times> int list" | Wait | Range

fun semop :: "sembuf list \<Rightarrow> int list \<times> int list \<Rightarrow> semop_result" where
  "semop [] va = Done va"
| "semop ((n, v, u) # ops) (vals, adj) =
     (if v = 0 then (if vals ! n = 0 then semop ops (vals, adj) else Wait)
      else if vals ! n + v < 0 then Wait
      else if SEMVMX < vals ! n + v \<or> u \<and> (adj ! n - v < - SEMVMX - 1 \<or> SEMVMX < adj ! n - v) then Range
      else semop ops (vals[n := vals ! n + v], if u then adj[n := adj ! n - v] else adj))"

text \<open>The field \<open>sem_op\<close> is a short: the conversion of an int keeps 16 bits.\<close>

definition short_of :: "int \<Rightarrow> int" where
  "short_of v = signed_take_bit 15 v"

datatype pc =
    Idle
  | CGot nat int      \<comment> \<open>\<open>sem_create\<close> has the identifier\<close>
  | CWait nat int     \<comment> \<open>and sleeps in \<open>semop\<close>\<close>
  | CLocked nat int   \<comment> \<open>and the lock\<close>
  | CInit0 nat int    \<comment> \<open>the counter was zero: before setting the value\<close>
  | CInit1 nat        \<comment> \<open>before setting the counter\<close>
  | CEnd nat          \<comment> \<open>before the last call of \<open>sem_create\<close>\<close>
  | OGot nat          \<comment> \<open>\<open>sem_open\<close> has the identifier\<close>
  | Using nat
  | KLocked nat       \<comment> \<open>\<open>sem_close\<close> has the lock and gave up its count\<close>
  | KRemove nat
  | KUnlock nat
  | Failed            \<comment> \<open>the process called \<open>err_sys\<close> or \<open>err_dump\<close>\<close>

record sys =
  cur :: "(nat \<times> int list) option"
  next_id :: nat
  adjs :: "nat \<Rightarrow> int list"
  pcs :: "nat \<Rightarrow> pc"

definition goto :: "nat \<Rightarrow> pc \<Rightarrow> sys \<Rightarrow> sys" where
  "goto p x s = s\<lparr>pcs := (pcs s)(p := x)\<rparr>"

text \<open>A process ends: its adjustments are added to the values, which stay in their range, and forgotten.\<close>

definition exit_proc :: "nat \<Rightarrow> pc \<Rightarrow> sys \<Rightarrow> sys" where
  "exit_proc p x s = goto p x (s\<lparr>cur := map_option (\<lambda>(i, vals). (i, map2 (\<lambda>v a. min SEMVMX (max 0 (v + a))) vals (adjs s p))) (cur s),
     adjs := (adjs s)(p := [0, 0, 0])\<rparr>)"

abbreviation err_sys :: "nat \<Rightarrow> sys \<Rightarrow> sys" where
  "err_sys p s \<equiv> exit_proc p Failed s"

text \<open>One \<open>semop\<close> call: what to do when the identifier is stale, and where to go on success. Every other error ends the process.\<close>

definition call_semop :: "nat \<Rightarrow> nat \<Rightarrow> sembuf list \<Rightarrow> sys \<Rightarrow> pc \<Rightarrow> sys \<Rightarrow> sys option" where
  "call_semop p i ops stale x s =
     (case cur s of
        Some (j, vals) \<Rightarrow>
          if j \<noteq> i then Some stale
          else (case semop ops (vals, adjs s p) of
                  Wait \<Rightarrow> None
                | Range \<Rightarrow> Some (err_sys p s)
                | Done (vals, adj) \<Rightarrow> Some (goto p x (s\<lparr>cur := Some (j, vals), adjs := (adjs s)(p := adj)\<rparr>)))
      | None \<Rightarrow> Some stale)"

text \<open>\<open>semctl (id, 1, GETVAL)\<close> and \<open>SETVAL\<close>, which fails for a value out of range and also clears the adjustments of that semaphore.\<close>

definition call_getval :: "nat \<Rightarrow> nat \<Rightarrow> (int \<Rightarrow> sys) \<Rightarrow> sys \<Rightarrow> sys" where
  "call_getval p i k s = (case cur s of Some (j, vals) \<Rightarrow> if j = i then k (vals ! 1) else err_sys p s | None \<Rightarrow> err_sys p s)"

definition call_setval :: "nat \<Rightarrow> nat \<Rightarrow> nat \<Rightarrow> int \<Rightarrow> pc \<Rightarrow> sys \<Rightarrow> sys" where
  "call_setval p i n v x s =
     (case cur s of
        Some (j, vals) \<Rightarrow>
          if j = i \<and> 0 \<le> v \<and> v \<le> SEMVMX then goto p x (s\<lparr>cur := Some (j, vals[n := v]), adjs := (\<lambda>q. (adjs s q)[n := 0])\<rparr>) else err_sys p s
      | None \<Rightarrow> err_sys p s)"

definition IPC_PRIVATE :: int where "IPC_PRIVATE = 0"

definition bad_key :: "int \<Rightarrow> bool" where
  "bad_key key \<longleftrightarrow> key = IPC_PRIVATE \<or> key = -1"

text \<open>\<open>semget\<close> with \<open>IPC_CREAT\<close>, where \<open>sem_create\<close> starts over when the set is gone.\<close>

definition create_get :: "nat \<Rightarrow> int \<Rightarrow> sys \<Rightarrow> sys" where
  "create_get p initval s =
     (case cur s of
        Some (i, _) \<Rightarrow> goto p (CGot i initval) s
      | None \<Rightarrow> goto p (CGot (next_id s) initval) (s\<lparr>cur := Some (next_id s, [0, 0, 0]), next_id := next_id s + 1\<rparr>))"

text \<open>
  In \<open>create_step\<close>, the first \<open>semop\<close> on a set that is gone fails with \<open>EINVAL\<close>, for which
  \<open>sem_create\<close> starts over; a process that sleeps in it when the set goes gets \<open>EIDRM\<close>, for which it does not.
  All other calls end the process for both.
\<close>

definition sem_create :: "nat \<Rightarrow> int \<Rightarrow> int \<Rightarrow> sys \<Rightarrow> sys" where
  "sem_create p key initval s = (if bad_key key then s else create_get p initval s)"

definition create_step :: "nat \<Rightarrow> pc \<Rightarrow> sys \<Rightarrow> sys option" where
  "create_step p x s =
     (case x of
        CGot i v \<Rightarrow> (case call_semop p i op_lock (create_get p v s) (CLocked i v) s of
          None \<Rightarrow> Some (goto p (CWait i v) s) | Some s' \<Rightarrow> Some s')
      | CWait i v \<Rightarrow> call_semop p i op_lock (err_sys p s) (CLocked i v) s
      | CLocked i v \<Rightarrow> Some (call_getval p i (\<lambda>semval. goto p (if semval = 0 then CInit0 i v else CEnd i) s) s)
      | CInit0 i v \<Rightarrow> Some (call_setval p i 0 v (CInit1 i) s)
      | CInit1 i \<Rightarrow> Some (call_setval p i 1 BIGCOUNT (CEnd i) s)
      | CEnd i \<Rightarrow> call_semop p i op_endcreate (err_sys p s) (Using i) s
      | _ \<Rightarrow> None)"

definition sem_open :: "nat \<Rightarrow> int \<Rightarrow> sys \<Rightarrow> sys" where
  "sem_open p key s = (if bad_key key then s else case cur s of None \<Rightarrow> s | Some (i, _) \<Rightarrow> goto p (OGot i) s)"

definition open_step :: "nat \<Rightarrow> nat \<Rightarrow> sys \<Rightarrow> sys option" where
  "open_step p i s = call_semop p i op_open (err_sys p s) (Using i) s"

definition sem_rm :: "nat \<Rightarrow> nat \<Rightarrow> pc \<Rightarrow> sys \<Rightarrow> sys" where
  "sem_rm p i x s =
     (case cur s of
        Some (j, _) \<Rightarrow> if j = i then goto p x (s\<lparr>cur := None, adjs := (\<lambda>_. [0, 0, 0])\<rparr>) else err_sys p s
      | None \<Rightarrow> err_sys p s)"

definition sem_close :: "nat \<Rightarrow> nat \<Rightarrow> sys \<Rightarrow> sys option" where
  "sem_close p i s = call_semop p i op_close (err_sys p s) (KLocked i) s"

definition close_step :: "nat \<Rightarrow> pc \<Rightarrow> sys \<Rightarrow> sys option" where
  "close_step p x s =
     (case x of
        KLocked i \<Rightarrow> Some (call_getval p i (\<lambda>semval.
          if BIGCOUNT < semval then err_sys p s else goto p (if semval = BIGCOUNT then KRemove i else KUnlock i) s) s)
      | KRemove i \<Rightarrow> Some (sem_rm p i Idle s)
      | KUnlock i \<Rightarrow> call_semop p i op_unlock (err_sys p s) Idle s
      | _ \<Rightarrow> None)"

definition sem_op :: "nat \<Rightarrow> nat \<Rightarrow> int \<Rightarrow> sys \<Rightarrow> sys option" where
  "sem_op p i v s = (let v = short_of v in if v = 0 then Some (err_sys p s) else call_semop p i (op_op v) (err_sys p s) (Using i) s)"

definition sem_wait :: "nat \<Rightarrow> nat \<Rightarrow> sys \<Rightarrow> sys option" where
  "sem_wait p i s = sem_op p i (-1) s"

definition sem_signal :: "nat \<Rightarrow> nat \<Rightarrow> sys \<Rightarrow> sys option" where
  "sem_signal p i s = sem_op p i 1 s"

subsection \<open>Runs\<close>

datatype call = Create int int | Open int | Close | Op int | Run | Exit

text \<open>A step of process \<open>p\<close>: a call when it is outside of the library's functions, otherwise the next system call.\<close>

definition step :: "nat \<Rightarrow> call \<Rightarrow> sys \<Rightarrow> sys option" where
  "step p c s =
     (case c of
        Exit \<Rightarrow> Some (exit_proc p Idle s)
      | Create key v \<Rightarrow> if pcs s p = Idle then Some (sem_create p key v s) else None
      | Open key \<Rightarrow> if pcs s p = Idle then Some (sem_open p key s) else None
      | Close \<Rightarrow> (case pcs s p of Using i \<Rightarrow> sem_close p i s | _ \<Rightarrow> None)
      | Op v \<Rightarrow> (case pcs s p of Using i \<Rightarrow> sem_op p i v s | _ \<Rightarrow> None)
      | Run \<Rightarrow> (case pcs s p of
            OGot i \<Rightarrow> open_step p i s
          | KLocked _ \<Rightarrow> close_step p (pcs s p) s
          | KRemove _ \<Rightarrow> close_step p (pcs s p) s
          | KUnlock _ \<Rightarrow> close_step p (pcs s p) s
          | x \<Rightarrow> create_step p x s))"

definition start :: sys where
  "start = \<lparr>cur = None, next_id = 0, adjs = \<lambda>_. [0, 0, 0], pcs = \<lambda>_. Idle\<rparr>"

text \<open>Runs of \<open>n\<close> processes; \<open>opens\<close> says whether \<open>sem_open\<close> is used.\<close>

inductive sem_run :: "nat \<Rightarrow> bool \<Rightarrow> sys \<Rightarrow> bool" for n opens where
  init: "sem_run n opens start"
| call: "sem_run n opens s \<Longrightarrow> p < n \<Longrightarrow> step p c s = Some s' \<Longrightarrow> (\<And>key. c = Open key \<Longrightarrow> opens) \<Longrightarrow> sem_run n opens s'"

inductive_cases sem_run_step: "sem_run n opens s'"

subsection \<open>The invariant\<close>

fun locked :: "pc \<Rightarrow> bool" where
  "locked (CLocked i v) = True" | "locked (CInit0 i v) = True" | "locked (CInit1 i) = True" | "locked (CEnd i) = True"
| "locked (KLocked i) = True" | "locked (KRemove i) = True" | "locked (KUnlock i) = True" | "locked _ = False"

fun in_use :: "pc \<Rightarrow> bool" where
  "in_use (Using i) = True" | "in_use _ = False"

fun pc_id :: "pc \<Rightarrow> nat" where
  "pc_id (CGot i v) = i" | "pc_id (CWait i v) = i" | "pc_id (CLocked i v) = i" | "pc_id (CInit0 i v) = i" | "pc_id (CInit1 i) = i" | "pc_id (CEnd i) = i"
| "pc_id (OGot i) = i" | "pc_id (Using i) = i" | "pc_id (KLocked i) = i" | "pc_id (KRemove i) = i" | "pc_id (KUnlock i) = i"
| "pc_id _ = 0"

definition count :: "nat \<Rightarrow> ('a \<Rightarrow> bool) \<Rightarrow> (nat \<Rightarrow> 'a) \<Rightarrow> int" where
  "count n P f = (\<Sum>p<n. of_bool (P (f p)))"

lemma sum_upd: "p < n \<Longrightarrow> (\<Sum>q<n. g ((f(p := x)) q)) = (\<Sum>q<n. g (f q)) - g (f p) + (g x :: int)" for n p :: nat
proof -
  assume a: "p < n"
  have "(\<Sum>q\<in>{..<n} - {p}. g ((f(p := x)) q)) = (\<Sum>q\<in>{..<n} - {p}. g (f q))" by (rule sum.cong) auto
  then show ?thesis
    using a sum.remove [of "{..<n}" p "\<lambda>q. g ((f(p := x)) q)"] sum.remove [of "{..<n}" p "\<lambda>q. g (f q)"] by simp
qed

lemma count_upd: "p < n \<Longrightarrow> count n P (f(p := x)) = count n P f - of_bool (P (f p)) + of_bool (P x)"
  unfolding count_def by (rule sum_upd [where g = "\<lambda>y. of_bool (P y)"])

lemma count_nonneg: "0 \<le> count n P f"
  unfolding count_def by (rule sum_nonneg) simp

lemma count_le: "count n P f \<le> int n"
proof -
  have "count n P f \<le> (\<Sum>p<n. 1)" unfolding count_def by (rule sum_mono) simp
  then show ?thesis by simp
qed

lemma count_two: "p < n \<Longrightarrow> q < n \<Longrightarrow> p \<noteq> q \<Longrightarrow> P (f p) \<Longrightarrow> P (f q) \<Longrightarrow> 2 \<le> count n P f"
proof -
  assume a: "p < n" "q < n" "p \<noteq> q" "P (f p)" "P (f q)"
  have "(\<Sum>r\<in>{p, q}. of_bool (P (f r)) :: int) \<le> count n P f"
    unfolding count_def using a by (intro sum_mono2) auto
  then show ?thesis using a by simp
qed

lemma count_one: "p < n \<Longrightarrow> P (f p) \<Longrightarrow> 1 \<le> count n P f"
proof -
  assume a: "p < n" "P (f p)"
  have "(\<Sum>r\<in>{p}. of_bool (P (f r)) :: int) \<le> count n P f"
    unfolding count_def using a by (intro sum_mono2) auto
  then show ?thesis using a by simp
qed

text \<open>What a process between two calls knows of the counter.\<close>

fun knows :: "int \<Rightarrow> pc \<Rightarrow> bool" where
  "knows v (CInit0 i x) \<longleftrightarrow> v = 0" | "knows v (CInit1 i) \<longleftrightarrow> v = 0" | "knows v (CEnd i) \<longleftrightarrow> v \<noteq> 0"
| "knows v (KLocked i) \<longleftrightarrow> v \<noteq> 0" | "knows v (KRemove i) \<longleftrightarrow> v = BIGCOUNT" | "knows v _ \<longleftrightarrow> True"

lemma knows_idle: "\<not> locked x \<Longrightarrow> knows v x"
  by (cases x) simp_all

definition adj_ok :: "pc \<Rightarrow> int list \<Rightarrow> bool" where
  "adj_ok x a \<longleftrightarrow> length a = 3 \<and> a ! 1 = of_bool (in_use x) \<and> a ! 2 = - of_bool (locked x)"

definition pc_ok :: "pc \<Rightarrow> bool" where
  "pc_ok x \<longleftrightarrow> (\<forall>i. x \<noteq> OGot i)"

definition set_ok :: "nat \<Rightarrow> (nat \<Rightarrow> pc) \<Rightarrow> nat \<times> int list \<Rightarrow> bool" where
  "set_ok n f = (\<lambda>(i, vals). length vals = 3 \<and> (\<forall>p<n. in_use (f p) \<or> locked (f p) \<longrightarrow> pc_id (f p) = i) \<and>
     vals ! 2 = count n locked f \<and> vals ! 2 \<le> 1 \<and>
     (vals ! 1 = 0 \<and> count n in_use f = 0 \<or> vals ! 1 = BIGCOUNT - count n in_use f) \<and> (\<forall>p<n. knows (vals ! 1) (f p)))"

definition sem_inv :: "nat \<Rightarrow> sys \<Rightarrow> bool" where
  "sem_inv n s \<longleftrightarrow> (\<forall>p<n. adj_ok (pcs s p) (adjs s p) \<and> pc_ok (pcs s p)) \<and>
     (case cur s of None \<Rightarrow> \<forall>p<n. \<not> in_use (pcs s p) \<and> \<not> locked (pcs s p) | Some iv \<Rightarrow> set_ok n (pcs s) iv)"

lemma inv_move:
  assumes "sem_inv n s" and "p < n" and "cur s = Some (i, vals)" and "length vals' = 3" and "adj_ok x adj" and "pc_ok x"
    and "in_use x \<or> locked x \<Longrightarrow> pc_id x = i"
    and "vals' ! 2 = vals ! 2 - of_bool (locked (pcs s p)) + of_bool (locked x)" and "vals' ! 2 \<le> 1"
    and "let u = count n in_use (pcs s) - of_bool (in_use (pcs s p)) + of_bool (in_use x) in vals' ! 1 = 0 \<and> u = 0 \<or> vals' ! 1 = BIGCOUNT - u"
    and "\<And>q. q < n \<Longrightarrow> q \<noteq> p \<Longrightarrow> locked (pcs s q) \<Longrightarrow> knows (vals' ! 1) (pcs s q)" and "knows (vals' ! 1) x"
    and "\<And>q. q < n \<Longrightarrow> q \<noteq> p \<Longrightarrow> adj_ok (pcs s q) (f q)" and "f p = adj"
  shows "sem_inv n (goto p x (s\<lparr>cur := Some (i, vals'), adjs := f\<rparr>))"
proof -
  have s: "set_ok n (pcs s) (i, vals)" using assms(1,3) by (simp add: sem_inv_def)
  have "set_ok n ((pcs s)(p := x)) (i, vals')"
    using s assms(2,4,7-12) knows_idle unfolding set_ok_def prod.case count_upd [OF assms(2)] Let_def by (auto simp: fun_upd_apply)
  then show ?thesis using assms(1,5,6,13,14) by (auto simp: sem_inv_def goto_def)
qed

lemma inv_holder:
  assumes "sem_inv n s" and "p < n" and "locked (pcs s p)"
  obtains i vals where "cur s = Some (i, vals)" "pc_id (pcs s p) = i" "set_ok n (pcs s) (i, vals)" "vals ! 2 = 1" "length vals = 3"
    "\<And>q. q < n \<Longrightarrow> q \<noteq> p \<Longrightarrow> \<not> locked (pcs s q)"
proof -
  obtain i vals where c: "cur s = Some (i, vals)" "set_ok n (pcs s) (i, vals)"
    using assms by (auto simp: sem_inv_def split: option.splits)
  have "vals ! 2 = 1" using c(2) count_one [OF assms(2), of locked "pcs s"] assms(3) by (simp add: set_ok_def)
  moreover have "\<not> locked (pcs s q)" if "q < n" "q \<noteq> p" for q
    using count_two [OF assms(2) that(1), of locked "pcs s"] that(2) assms(3) c(2) by (auto simp: set_ok_def)
  ultimately show thesis using that c assms(2,3) by (simp add: set_ok_def)
qed

lemma list3: "length a = 3 \<longleftrightarrow> (\<exists>x y z. a = [x, y, z])"
  by (auto simp: numeral_eq_Suc length_Suc_conv)


text \<open>A move that keeps the lock and the use, without a change of the set.\<close>

lemma inv_pc:
  assumes "sem_inv n s" and "p < n" and "locked x = locked (pcs s p)" and "in_use x = in_use (pcs s p)" and "pc_ok x"
    and "in_use x \<or> locked x \<Longrightarrow> pc_id x = pc_id (pcs s p)" and "\<And>i vals. cur s = Some (i, vals) \<Longrightarrow> knows (vals ! 1) x"
  shows "sem_inv n (goto p x s)"
proof (cases "cur s")
  case None
  then show ?thesis using assms by (auto simp: sem_inv_def goto_def adj_ok_def)
next
  case (Some iv)
  obtain i vals where iv: "iv = (i, vals)" by (cases iv)
  have "sem_inv n (goto p x (s\<lparr>cur := Some (i, vals), adjs := adjs s\<rparr>))"
    using assms Some iv by (intro inv_move [where adj = "adjs s p"]) (auto simp: sem_inv_def set_ok_def adj_ok_def Let_def)
  moreover have "s\<lparr>cur := Some (i, vals), adjs := adjs s\<rparr> = s" using Some iv by simp
  ultimately show ?thesis by simp
qed

lemma counter_cases:
  assumes "sem_inv n s" and "int n < BIGCOUNT" and "cur s = Some (i, vals)"
  shows "vals ! 1 = 0 \<and> count n in_use (pcs s) = 0 \<or> 0 < vals ! 1 \<and> vals ! 1 = BIGCOUNT - count n in_use (pcs s) \<and> vals ! 1 \<le> BIGCOUNT"
  using assms count_le [of n in_use "pcs s"] count_nonneg [of n in_use "pcs s"] by (auto simp: sem_inv_def set_ok_def)

lemma in_use_count: "p < n \<Longrightarrow> in_use (f p) \<Longrightarrow> 1 \<le> count n in_use f"
  by (rule count_one)

lemma in_use_not_locked: "in_use x \<Longrightarrow> \<not> locked x"
  by (cases x) simp_all

lemma inv_exit:
  assumes "sem_inv n s" and "int n < BIGCOUNT" and "p < n" and "\<not> in_use x" and "\<not> locked x" and "pc_ok x"
  shows "sem_inv n (exit_proc p x s)"
proof (cases "cur s")
  case None
  then show ?thesis using assms by (auto simp: sem_inv_def goto_def exit_proc_def adj_ok_def nth_Cons')
next
  case (Some iv)
  obtain i vals where iv: "iv = (i, vals)" by (cases iv)
  let ?vals' = "map2 (\<lambda>v a. min SEMVMX (max 0 (v + a))) vals (adjs s p)"
  have ok: "adj_ok (pcs s p) (adjs s p)" "set_ok n (pcs s) (i, vals)"
    using assms(1,3) Some iv by (auto simp: sem_inv_def)
  have l: "length vals = 3" "length (adjs s p) = 3" using ok by (simp_all add: adj_ok_def set_ok_def)
  have c: "vals ! 1 = 0 \<and> count n in_use (pcs s) = 0 \<or> 0 < vals ! 1 \<and> vals ! 1 = BIGCOUNT - count n in_use (pcs s)"
    using counter_cases [OF assms(1,2)] Some iv by blast
  have u: "in_use (pcs s p) \<Longrightarrow> 1 \<le> count n in_use (pcs s)" using assms(3) by (rule in_use_count)
  have h: "of_bool (locked (pcs s p)) \<le> vals ! 2" 
    using ok(2) count_one [OF assms(3), of locked "pcs s"] count_nonneg [of n locked "pcs s"] by (auto simp: set_ok_def)
  have b1: "vals ! 1 + of_bool (in_use (pcs s p)) \<le> SEMVMX"
    using c count_nonneg [of n in_use "pcs s"] by (auto simp: SEMVMX_def BIGCOUNT_def of_bool_def)
  have b2: "vals ! 2 - of_bool (locked (pcs s p)) \<le> SEMVMX" using ok(2) by (simp add: set_ok_def SEMVMX_def)
  have v1: "?vals' ! 1 = max 0 (vals ! 1 + of_bool (in_use (pcs s p)))"
    using ok l b1 by (simp add: adj_ok_def SEMVMX_def)
  have v2: "?vals' ! 2 = max 0 (vals ! 2 - of_bool (locked (pcs s p)))"
    using ok l b2 by (simp add: adj_ok_def SEMVMX_def)
  have k: "knows (?vals' ! 1) (pcs s q)" if "q < n" for q
    using ok(2) that c u unfolding v1 set_ok_def by (cases "pcs s q") (auto simp: of_bool_def)
  have "sem_inv n (goto p x (s\<lparr>cur := Some (i, ?vals'), adjs := (adjs s)(p := [0, 0, 0])\<rparr>))"
  proof (rule inv_move [OF assms(1,3) Some [unfolded iv], where adj = "[0, 0, 0]"])
    show "?vals' ! 2 = vals ! 2 - of_bool (locked (pcs s p)) + of_bool (locked x)" using v2 h assms(5) by simp
    show "?vals' ! 2 \<le> 1" using v2 ok(2) by (auto simp: set_ok_def of_bool_def)
    show "let w = count n in_use (pcs s) - of_bool (in_use (pcs s p)) + of_bool (in_use x) in ?vals' ! 1 = 0 \<and> w = 0 \<or> ?vals' ! 1 = BIGCOUNT - w"
      unfolding v1 Let_def using c u assms(4) by (auto simp: of_bool_def)
    show "knows (?vals' ! 1) x" using knows_idle assms(5) .
  qed (use assms l k ok in \<open>auto simp: adj_ok_def sem_inv_def\<close>)
  then show ?thesis using Some iv by (simp add: exit_proc_def)
qed


definition gone :: "nat \<Rightarrow> sys \<Rightarrow> bool" where
  "gone i s \<longleftrightarrow> (\<forall>vals. cur s \<noteq> Some (i, vals))"

lemma call_semop_cases:
  assumes "call_semop p i ops stale x s = Some s'"
  obtains (stopped) "gone i s" "s' = stale"
  | (range) vals where "cur s = Some (i, vals)" "semop ops (vals, adjs s p) = Range" "s' = err_sys p s"
  | (went) vals vals' adj where "cur s = Some (i, vals)" "semop ops (vals, adjs s p) = Done (vals', adj)"
      "s' = goto p x (s\<lparr>cur := Some (i, vals'), adjs := (adjs s)(p := adj)\<rparr>)"
  using assms by (auto simp: call_semop_def gone_def split: option.splits prod.splits if_splits semop_result.splits)

lemma inv_stays: "sem_inv n s \<Longrightarrow> p < n \<Longrightarrow> in_use (pcs s p) \<or> locked (pcs s p) \<Longrightarrow> \<not> gone (pc_id (pcs s p)) s"
  by (auto simp: sem_inv_def set_ok_def gone_def split: option.splits)

text \<open>A successful \<open>semop\<close> of a process whose set is there.\<close>

lemma inv_semop:
  assumes inv: "sem_inv n s" and p: "p < n" and c: "cur s = Some (i, vals)" and op: "semop ops (vals, adjs s p) = Done (vals', adj)"
    and x: "pc_ok x" "in_use x \<or> locked x \<Longrightarrow> pc_id x = i"
    and eff: "\<And>v0 v1 v2 a0. vals = [v0, v1, v2] \<Longrightarrow> adjs s p = [a0, of_bool (in_use (pcs s p)), - of_bool (locked (pcs s p))] \<Longrightarrow>
      \<exists>w0 b0. (locked x \<and> \<not> locked (pcs s p) \<longrightarrow> v2 = 0) \<and>
        vals' = [w0, v1 + of_bool (in_use (pcs s p)) - of_bool (in_use x), v2 - of_bool (locked (pcs s p)) + of_bool (locked x)] \<and>
        adj = [b0, of_bool (in_use x), - of_bool (locked x)]"
    and use: "in_use x = in_use (pcs s p) \<or> vals ! 1 \<noteq> 0" and k: "knows (vals' ! 1) x"
    and others: "in_use x = in_use (pcs s p) \<or> locked (pcs s p) \<or> locked x"
  shows "sem_inv n (goto p x (s\<lparr>cur := Some (i, vals'), adjs := (adjs s)(p := adj)\<rparr>))"
proof -
  have s: "set_ok n (pcs s) (i, vals)" "adj_ok (pcs s p) (adjs s p)" using inv p c by (auto simp: sem_inv_def)
  obtain v0 v1 v2 where v: "vals = [v0, v1, v2]" using s(1) list3 [of vals] by (auto simp: set_ok_def)
  obtain a0 where a: "adjs s p = [a0, of_bool (in_use (pcs s p)), - of_bool (locked (pcs s p))]"
    using s(2) list3 [of "adjs s p"] by (auto simp: adj_ok_def)
  obtain w0 b0 where e: "locked x \<and> \<not> locked (pcs s p) \<longrightarrow> v2 = 0"
    "vals' = [w0, v1 + of_bool (in_use (pcs s p)) - of_bool (in_use x), v2 - of_bool (locked (pcs s p)) + of_bool (locked x)]"
    "adj = [b0, of_bool (in_use x), - of_bool (locked x)]" using eff [OF v a] by blast
  have c2: "v2 = count n locked (pcs s)" "v2 \<le> 1" using s(1) v by (auto simp: set_ok_def)
  have alone: "locked (pcs s q) \<Longrightarrow> in_use x = in_use (pcs s p)" if "q < n" "q \<noteq> p" for q
    using others e(1) c2 count_two [OF p that(1), of locked "pcs s"] count_one [OF that(1), of locked "pcs s"] that(2) by (auto simp: of_bool_def)
  show ?thesis
  proof (rule inv_move [OF inv p c _ _ x, where adj = adj])
    show "vals' ! 2 \<le> 1" using e c2 by (auto simp: of_bool_def)
    show "let w = count n in_use (pcs s) - of_bool (in_use (pcs s p)) + of_bool (in_use x) in vals' ! 1 = 0 \<and> w = 0 \<or> vals' ! 1 = BIGCOUNT - w"
      using s(1) use v e by (auto simp: set_ok_def Let_def)
    show "knows (vals' ! 1) (pcs s q)" if "q < n" "q \<noteq> p" "locked (pcs s q)" for q
      using alone [OF that] s(1) v e that by (auto simp: set_ok_def)
  qed (use v e k inv in \<open>auto simp: adj_ok_def sem_inv_def\<close>)
qed

lemma create_get_inv: "sem_inv n s \<Longrightarrow> p < n \<Longrightarrow> \<not> in_use (pcs s p) \<Longrightarrow> \<not> locked (pcs s p) \<Longrightarrow> sem_inv n (create_get p v s)"
proof -
  assume a: "sem_inv n s" "p < n" "\<not> in_use (pcs s p)" "\<not> locked (pcs s p)"
  show ?thesis
  proof (cases "cur s")
    case None
    have "count n in_use (pcs s) = 0" "count n locked (pcs s) = 0" using a(1) None unfolding count_def by (auto simp: sem_inv_def)
    then have "set_ok n (pcs s) (next_id s, [0, 0, 0])"
      using a(1) None knows_idle by (auto simp: sem_inv_def set_ok_def)
    then have "sem_inv n (s\<lparr>cur := Some (next_id s, [0, 0, 0]), next_id := next_id s + 1\<rparr>)"
      using a(1) by (auto simp: sem_inv_def)
    then show ?thesis using None a(2-4) inv_pc [of n "s\<lparr>cur := Some (next_id s, [0, 0, 0]), next_id := next_id s + 1\<rparr>" p "CGot (next_id s) v"]
      by (simp add: create_get_def pc_ok_def)
  next
    case (Some iv)
    then show ?thesis using a inv_pc [of n s p] by (cases iv) (simp add: create_get_def pc_ok_def)
  qed
qed


lemma inv_here: "sem_inv n s \<Longrightarrow> p < n \<Longrightarrow> in_use (pcs s p) \<or> locked (pcs s p) \<Longrightarrow> pc_id (pcs s p) = i \<Longrightarrow>
    \<exists>vals. cur s = Some (i, vals) \<and> set_ok n (pcs s) (i, vals)"
  by (auto simp: sem_inv_def set_ok_def split: option.splits)

lemma setval_inv:
  assumes inv: "sem_inv n s" and big: "int n < BIGCOUNT" and p: "p < n" and x: "pcs s p = CInit0 i v \<and> m = 0 \<and> y = CInit1 i \<or> pcs s p = CInit1 i \<and> m = 1 \<and> w = BIGCOUNT \<and> y = CEnd i"
  shows "sem_inv n (call_setval p i m w y s) \<and> (pcs (call_setval p i m w y s) p = Failed \<longrightarrow> w < 0 \<or> SEMVMX < w)"
proof (cases "0 \<le> w \<and> w \<le> SEMVMX")
  case False
  then have "call_setval p i m w y s = err_sys p s" by (auto simp: call_setval_def split: option.split)
  then show ?thesis using False inv_exit [OF inv big p, of Failed] by (auto simp: pc_ok_def)
next
  case True
  obtain vals where c: "cur s = Some (i, vals)" and s: "set_ok n (pcs s) (i, vals)"
    using inv_here [OF inv p] x by (metis locked.simps(2,3) pc_id.simps(4,5))
  have l: "length vals = 3" using s by (simp add: set_ok_def)
  have k: "vals ! 1 = 0" using s p x by (force simp: set_ok_def)
  have z: "count n in_use (pcs s) = 0" using counter_cases [OF inv big c] k by simp
  have lone: "\<not> locked (pcs s q)" if "q < n" "q \<noteq> p" for q
    using inv_holder [OF inv p] x that by (metis locked.simps(2,3))
  have n: "m = 1 \<Longrightarrow> count n in_use (pcs s) = 0 \<Longrightarrow> q < n \<Longrightarrow> \<not> in_use (pcs s q)" for q
    using in_use_count [of q n "pcs s"] by auto
  have "sem_inv n (goto p y (s\<lparr>cur := Some (i, vals[m := w]), adjs := \<lambda>q. (adjs s q)[m := 0]\<rparr>))" if "count n in_use (pcs s) = 0"
  proof (rule inv_move [OF inv p c, where adj = "(adjs s p)[m := 0]"])
    show "adj_ok y ((adjs s p)[m := 0])" using inv p x by (auto simp: sem_inv_def adj_ok_def nth_list_update)
    show "adj_ok (pcs s q) ((adjs s q)[m := 0])" if "q < n" "q \<noteq> p" for q
      using inv that x n [OF _ \<open>count n in_use (pcs s) = 0\<close>] by (auto simp: sem_inv_def adj_ok_def nth_list_update)
    show "let u = count n in_use (pcs s) - of_bool (in_use (pcs s p)) + of_bool (in_use y) in vals[m := w] ! 1 = 0 \<and> u = 0 \<or> vals[m := w] ! 1 = BIGCOUNT - u"
      using that x k l by (auto simp: Let_def)
    show "vals[m := w] ! 2 = vals ! 2 - of_bool (locked (pcs s p)) + of_bool (locked y)" using x by auto
    show "vals[m := w] ! 2 \<le> 1" using x s by (auto simp: set_ok_def)
    show "knows (vals[m := w] ! 1) y" using x k l by (auto simp: BIGCOUNT_def)
  qed (use x l lone in \<open>auto simp: pc_ok_def\<close>)
  then show ?thesis using c z x True by (auto simp: call_setval_def goto_def)
qed

text \<open>The operations of the library on the counter and the lock stay in range.\<close>

lemma library_in_range:
  assumes "sem_inv n s" and "int n < BIGCOUNT" and "p < n" and "cur s = Some (i, vals)"
    and "ops \<in> {op_lock, op_endcreate, op_close, op_unlock}"
  shows "semop ops (vals, adjs s p) \<noteq> Range"
proof -
  have s: "set_ok n (pcs s) (i, vals)" "adj_ok (pcs s p) (adjs s p)" using assms(1,3,4) by (auto simp: sem_inv_def)
  obtain v0 v1 v2 where v: "vals = [v0, v1, v2]" using s(1) list3 [of vals] by (auto simp: set_ok_def)
  obtain a0 a1 a2 where a: "adjs s p = [a0, a1, a2]" using s(2) list3 [of "adjs s p"] by (auto simp: adj_ok_def)
  have "v1 \<le> 10000" "v2 \<le> 1" "a1 = 0 \<or> a1 = 1" "a2 = 0 \<or> a2 = -1"
    using s v a counter_cases [OF assms(1,2,4)] by (auto simp: set_ok_def adj_ok_def BIGCOUNT_def of_bool_def)
  then show ?thesis
    using assms(5) unfolding v a by (auto simp: op_lock_def op_endcreate_def op_close_def op_unlock_def SEMVMX_def split: if_splits)
qed

lemma getval_here: "cur s = Some (i, vals) \<Longrightarrow> call_getval p i k s = k (vals ! 1)"
  by (simp add: call_getval_def)

lemma goto_pc: "pcs (goto p x s) p = x"
  by (simp add: goto_def)

lemma exit_pc: "pcs (exit_proc p x s) p = x"
  by (simp add: exit_proc_def goto_def)

lemma create_get_pc: "pcs (create_get p v s) p \<noteq> Failed"
  by (simp add: create_get_def goto_pc split: option.splits prod.splits)

lemma sem_create_inv: "sem_inv n s \<Longrightarrow> p < n \<Longrightarrow> pcs s p = Idle \<Longrightarrow> sem_inv n (sem_create p key v s) \<and> pcs (sem_create p key v s) p \<noteq> Failed"
  by (simp add: sem_create_def create_get_inv create_get_pc)

lemma lock_inv:
  assumes inv: "sem_inv n s" and p: "p < n" and x: "pcs s p = CGot i v \<or> pcs s p = CWait i v"
    and c: "cur s = Some (i, vals)" and op: "semop op_lock (vals, adjs s p) = Done (vals', adj)"
  shows "sem_inv n (goto p (CLocked i v) (s\<lparr>cur := Some (i, vals'), adjs := (adjs s)(p := adj)\<rparr>))"
  by (rule inv_semop [OF inv p c op]) (use x op in \<open>auto simp: pc_ok_def op_lock_def split: if_splits\<close>)

lemma create_step_inv:
  assumes inv: "sem_inv n s" and big: "int n < BIGCOUNT" and p: "p < n" and st: "create_step p (pcs s p) s = Some s'"
  shows "sem_inv n s' \<and> (pcs s' p = Failed \<longrightarrow> (\<exists>i v. pcs s p = CWait i v \<and> gone i s) \<or> (\<exists>i v. pcs s p = CInit0 i v \<and> (v < 0 \<or> SEMVMX < v)))"
proof (cases "pcs s p")
  case (CGot i v)
  show ?thesis
  proof (cases "call_semop p i op_lock (create_get p v s) (CLocked i v) s")
    case None
    then have "s' = goto p (CWait i v) s" using st CGot by (simp add: create_step_def)
    then show ?thesis using inv_pc [OF inv p, of "CWait i v"] CGot by (simp add: pc_ok_def goto_pc)
  next
    case (Some t)
    then have "s' = t" using st CGot by (simp add: create_step_def)
    with Some show ?thesis
      by (cases rule: call_semop_cases) (use inv p CGot library_in_range [OF inv big p, where ops = op_lock] create_get_inv create_get_pc lock_inv in \<open>auto simp: goto_pc\<close>)
  qed
next
  case (CWait i v)
  then have "call_semop p i op_lock (err_sys p s) (CLocked i v) s = Some s'" using st by (simp add: create_step_def)
  then show ?thesis
    by (cases rule: call_semop_cases) (use inv p big CWait library_in_range [OF inv big p, where ops = op_lock] inv_exit lock_inv in \<open>auto simp: goto_pc pc_ok_def\<close>)
next
  case (CLocked i v)
  obtain vals where c: "cur s = Some (i, vals)" using inv_here [OF inv p] CLocked by auto
  then have "s' = goto p (if vals ! 1 = 0 then CInit0 i v else CEnd i) s" using st CLocked by (simp add: create_step_def getval_here)
  then show ?thesis using inv_pc [OF inv p, of "if vals ! 1 = 0 then CInit0 i v else CEnd i"] c CLocked by (simp add: pc_ok_def goto_pc)
next
  case (CInit0 i v)
  then show ?thesis using setval_inv [OF inv big p, of i v 0 "CInit1 i" v] st by (auto simp: create_step_def)
next
  case (CInit1 i)
  then show ?thesis using setval_inv [OF inv big p, of i _ 1 "CEnd i" BIGCOUNT] st by (auto simp: create_step_def BIGCOUNT_def SEMVMX_def)
next
  case (CEnd i)
  then have st: "call_semop p i op_endcreate (err_sys p s) (Using i) s = Some s'" using st by (simp add: create_step_def)
  obtain vals where c: "cur s = Some (i, vals)" "set_ok n (pcs s) (i, vals)" using inv_here [OF inv p] CEnd by auto
  have k: "vals ! 1 \<noteq> 0" using c(2) p CEnd by (force simp: set_ok_def)
  show ?thesis using st
  proof (cases rule: call_semop_cases)
    case stopped
    then show ?thesis using c by (simp add: gone_def)
  next
    case (range vals)
    then show ?thesis using library_in_range [OF inv big p, where ops = op_endcreate] by auto
  next
    case (went vals vals' adj)
    have "sem_inv n s'" unfolding went(3)
      by (rule inv_semop [OF inv p went(1,2)]) (use CEnd k went c in \<open>auto simp: pc_ok_def op_endcreate_def split: if_splits\<close>)
    then show ?thesis using went by (simp add: goto_pc)
  qed
qed (use st in \<open>auto simp: create_step_def\<close>)


lemma use_inv:
  assumes inv: "sem_inv n s" and p: "p < n" and x: "pcs s p = Using i" and st: "call_semop p i ops t y s = Some s'"
    and ops: "ops = op_close \<and> y = KLocked i \<or> (\<exists>v. v \<noteq> 0 \<and> ops = op_op v \<and> y = Using i)" and big: "int n < BIGCOUNT"
  shows "sem_inv n s' \<and> (pcs s' p = Failed \<longrightarrow> (\<exists>vals. cur s = Some (i, vals) \<and> semop ops (vals, adjs s p) = Range))"
proof -
  obtain vals where c: "cur s = Some (i, vals)" "set_ok n (pcs s) (i, vals)" using inv_here [OF inv p] x by auto
  have v: "vals ! 1 = BIGCOUNT - count n in_use (pcs s)" "1 \<le> count n in_use (pcs s)" "0 < vals ! 1"
    using counter_cases [OF inv big c(1)] in_use_count [OF p, of "pcs s"] x by auto
  show ?thesis using st
  proof (cases rule: call_semop_cases)
    case stopped
    then show ?thesis using c by (simp add: gone_def)
  next
    case (range vals)
    then show ?thesis using inv_exit [OF inv big p, of Failed] by (simp add: pc_ok_def)
  next
    case (went vals vals' adj)
    have l: "length vals = 3" using went(1) c by (simp add: set_ok_def)
    have "sem_inv n s'" unfolding went(3)
      by (rule inv_semop [OF inv p went(1,2)])
        (use x v went c ops l in \<open>auto simp: pc_ok_def op_close_def op_op_def split: if_splits\<close>)
    then show ?thesis using went ops by (auto simp: goto_pc)
  qed
qed

lemma close_step_inv:
  assumes inv: "sem_inv n s" and big: "int n < BIGCOUNT" and p: "p < n" and st: "close_step p (pcs s p) s = Some s'"
  shows "sem_inv n s' \<and> pcs s' p \<noteq> Failed"
proof (cases "pcs s p")
  case (KLocked i)
  obtain vals where c: "cur s = Some (i, vals)" "set_ok n (pcs s) (i, vals)" using inv_here [OF inv p] KLocked by auto
  have "vals ! 1 \<le> BIGCOUNT" using counter_cases [OF inv big c(1)] by (auto simp: BIGCOUNT_def)
  then have "s' = goto p (if vals ! 1 = BIGCOUNT then KRemove i else KUnlock i) s" using st KLocked c by (simp add: close_step_def getval_here)
  then show ?thesis
    using inv_pc [OF inv p, of "if vals ! 1 = BIGCOUNT then KRemove i else KUnlock i"] c KLocked by (simp add: pc_ok_def goto_pc)
next
  case (KRemove i)
  obtain vals where c: "cur s = Some (i, vals)" "set_ok n (pcs s) (i, vals)" using inv_here [OF inv p] KRemove by auto
  have v: "vals ! 1 = BIGCOUNT" using c(2) p KRemove by (force simp: set_ok_def)
  have free: "\<not> in_use (pcs s q)" if "q < n" for q
    using counter_cases [OF inv big c(1)] v in_use_count [OF that, of "pcs s"] by (auto simp: BIGCOUNT_def)
  have lone: "\<not> locked (pcs s q)" if "q < n" "q \<noteq> p" for q using inv_holder [OF inv p] KRemove that by (metis locked.simps(6))
  have s': "s' = goto p Idle (s\<lparr>cur := None, adjs := (\<lambda>_. [0, 0, 0])\<rparr>)" using st KRemove c by (simp add: close_step_def sem_rm_def)
  have "sem_inv n s'" unfolding s' using inv free lone by (auto simp: sem_inv_def goto_def adj_ok_def pc_ok_def)
  then show ?thesis by (simp add: s' goto_pc)
next
  case (KUnlock i)
  then have st: "call_semop p i op_unlock (err_sys p s) Idle s = Some s'" using st by (simp add: close_step_def)
  obtain vals where c: "cur s = Some (i, vals)" "set_ok n (pcs s) (i, vals)" using inv_here [OF inv p] KUnlock by auto
  show ?thesis using st
  proof (cases rule: call_semop_cases)
    case stopped
    then show ?thesis using c by (simp add: gone_def)
  next
    case (range vals)
    then show ?thesis using library_in_range [OF inv big p, where ops = op_unlock] by auto
  next
    case (went vals vals' adj)
    have "sem_inv n s'" unfolding went(3)
      by (rule inv_semop [OF inv p went(1,2)]) (use KUnlock went c in \<open>auto simp: pc_ok_def op_unlock_def split: if_splits\<close>)
    then show ?thesis using went by (simp add: goto_pc)
  qed
qed (use st in \<open>auto simp: close_step_def\<close>)

text \<open>When a call ends its process.\<close>

definition call_fails :: "nat \<Rightarrow> call \<Rightarrow> sys \<Rightarrow> bool" where
  "call_fails p c s \<longleftrightarrow>
     c = Run \<and> (\<exists>i v. pcs s p = CWait i v \<and> gone i s) \<or>
     c = Run \<and> (\<exists>i v. pcs s p = CInit0 i v \<and> (v < 0 \<or> SEMVMX < v)) \<or>
     (\<exists>i v vals. c = Op v \<and> pcs s p = Using i \<and> cur s = Some (i, vals) \<and>
        (let k = short_of v; a = adjs s p ! 0 - k in
           k = 0 \<or> SEMVMX < vals ! 0 + k \<or> 0 \<le> vals ! 0 + k \<and> (a < - SEMVMX - 1 \<or> SEMVMX < a)))"

lemma op_range: "v \<noteq> 0 \<Longrightarrow> semop (op_op v) (vals, adj) = Range \<longleftrightarrow>
    0 \<le> vals ! 0 + v \<and> (SEMVMX < vals ! 0 + v \<or> adj ! 0 - v < - SEMVMX - 1 \<or> SEMVMX < adj ! 0 - v)"
  by (auto simp: op_op_def)

lemma call_fails_ends:
  assumes "step p c s = Some s'" and "call_fails p c s"
  shows "pcs s' p = Failed"
  using assms(2) unfolding call_fails_def
proof (elim disjE conjE exE)
  fix i v vals
  assume x: "c = Op v" "pcs s p = Using i" "cur s = Some (i, vals)"
    and f: "let k = short_of v; a = adjs s p ! 0 - k in
      k = 0 \<or> SEMVMX < vals ! 0 + k \<or> 0 \<le> vals ! 0 + k \<and> (a < - SEMVMX - 1 \<or> SEMVMX < a)"
  show ?thesis
  proof (cases "short_of v = 0")
    case True
    then show ?thesis using assms(1) x by (auto simp: step_def sem_op_def exit_pc)
  next
    case False
    then have "semop (op_op (short_of v)) (vals, adjs s p) = Range" using f by (auto simp: op_range Let_def SEMVMX_def)
    then show ?thesis using assms(1) x False by (auto simp: step_def sem_op_def Let_def call_semop_def exit_pc)
  qed
qed (use assms(1) in \<open>auto simp: step_def create_step_def call_semop_def call_setval_def gone_def exit_pc
      split: option.splits prod.splits if_splits semop_result.splits\<close>)

lemma step_inv:
  assumes inv: "sem_inv n s" and big: "int n < BIGCOUNT" and p: "p < n" and st: "step p c s = Some s'" and c: "\<And>key. c \<noteq> Open key"
  shows "sem_inv n s' \<and> (pcs s' p = Failed \<longrightarrow> call_fails p c s)"
proof (cases c)
  case (Create key v)
  then show ?thesis using st sem_create_inv [OF inv p] by (auto simp: step_def split: if_splits)
next
  case (Open key)
  then show ?thesis using c by simp
next
  case Close
  then obtain i where x: "pcs s p = Using i" "sem_close p i s = Some s'" using st by (auto simp: step_def split: pc.splits)
  then show ?thesis
    using use_inv [OF inv p x(1) _ _ big, of op_close _ "KLocked i" s'] library_in_range [OF inv big p, where ops = op_close]
    by (auto simp: sem_close_def)
next
  case (Op v)
  then obtain i where x: "pcs s p = Using i" "sem_op p i v s = Some s'" using st by (auto simp: step_def split: pc.splits)
  obtain vals where cur: "cur s = Some (i, vals)" using inv_here [OF inv p] x(1) by auto
  show ?thesis
  proof (cases "short_of v = 0")
    case True
    then show ?thesis using x Op cur inv_exit [OF inv big p, of Failed] by (auto simp: sem_op_def pc_ok_def call_fails_def)
  next
    case False
    then show ?thesis
      using x cur Op use_inv [OF inv p x(1) _ _ big, of "op_op (short_of v)" _ "Using i" s'] op_range [OF False]
      by (auto simp: sem_op_def Let_def call_fails_def)
  qed
next
  case Run
  show ?thesis
  proof (cases "pcs s p")
    case (OGot i)
    then show ?thesis using inv p by (auto simp: sem_inv_def pc_ok_def)
  qed (use st Run create_step_inv [OF inv big p] close_step_inv [OF inv big p] in \<open>auto simp: step_def call_fails_def\<close>)
next
  case Exit
  then show ?thesis using st inv_exit [OF inv big p, of Idle] by (auto simp: step_def pc_ok_def exit_pc)
qed

lemma sem_run_inv: "sem_run n False s \<Longrightarrow> int n < BIGCOUNT \<Longrightarrow> sem_inv n s"
proof (induction rule: sem_run.induct)
  case init
  show ?case by (simp add: sem_inv_def start_def adj_ok_def pc_ok_def)
next
  case (call s p c s')
  then show ?case using step_inv [OF call.IH [OF call.prems] call.prems call.hyps(2,3)] by blast
qed

text \<open>Runs by a list of steps.\<close>

fun run_steps :: "(nat \<times> call) list \<Rightarrow> sys \<Rightarrow> sys option" where
  "run_steps [] s = Some s"
| "run_steps ((p, c) # cs) s = (case step p c s of None \<Rightarrow> None | Some s' \<Rightarrow> run_steps cs s')"

lemma run_steps_run: "sem_run n opens s \<Longrightarrow> run_steps cs s = Some t \<Longrightarrow> \<forall>(p, c) \<in> set cs. p < n \<and> (\<forall>key. c = Open key \<longrightarrow> opens) \<Longrightarrow> sem_run n opens t"
  by (induction cs s rule: run_steps.induct) (auto split: option.splits intro: sem_run.call)

subsection \<open>Properties\<close>

text \<open>
  C36. As long as processes use a set by \<open>sem_create\<close>, the operations and \<open>sem_close\<close> only, in any interleaving of
  fewer than \<open>BIGCOUNT\<close> processes and with processes that die at any point: a set in use is never removed and its
  counter is \<open>BIGCOUNT\<close> less the number of its users; at most one process is between taking and giving up the lock;
  and a call ends its process by \<open>err_sys\<close> or \<open>err_dump\<close> exactly when it is a process that sleeps in the first \<open>semop\<close> of
  \<open>sem_create\<close> when the set is removed, the one that sets an initial value outside 0 to \<open>SEMVMX\<close>, or a \<open>sem_op\<close> whose value is
  zero in 16 bits or takes the semaphore or the adjustment out of its range. Permissions and the tables of the
  kernel suffice, and no signal is caught in a \<open>semop\<close> that sleeps.
\<close>

theorem sem_set_kept:
  assumes "sem_run n False s" and "int n < BIGCOUNT"
  shows "(\<forall>p<n. \<forall>i. pcs s p = Using i \<longrightarrow> (\<exists>vals. cur s = Some (i, vals) \<and> vals ! 1 = BIGCOUNT - count n in_use (pcs s))) \<and>
    (\<forall>p<n. \<forall>q<n. locked (pcs s p) \<and> locked (pcs s q) \<longrightarrow> p = q) \<and>
    (\<forall>p<n. \<forall>c s'. step p c s = Some s' \<and> (\<forall>key. c \<noteq> Open key) \<longrightarrow> (pcs s' p = Failed \<longleftrightarrow> call_fails p c s))"
proof -
  note inv = sem_run_inv [OF assms]
  have "\<exists>vals. cur s = Some (i, vals) \<and> vals ! 1 = BIGCOUNT - count n in_use (pcs s)" if "p < n" "pcs s p = Using i" for p i
    using inv_here [OF inv that(1)] counter_cases [OF inv assms(2)] in_use_count [OF that(1), of "pcs s"] that(2) by fastforce
  moreover have "p = q" if "p < n" "q < n" "locked (pcs s p)" "locked (pcs s q)" for p q
    using inv_holder [OF inv that(1,3)] that(2,4) by metis
  ultimately show ?thesis using step_inv [OF inv assms(2)] call_fails_ends by blast
qed

definition two_creates :: "(nat \<times> call) list" where
  "two_creates = [(0, Create 7 3), (1, Create 7 3), (0, Run), (0, Run), (0, Run), (0, Run), (0, Run), (1, Run), (1, Run), (1, Run)]"

theorem sem_set_kept_witness:
  "\<exists>s. sem_run 2 False s \<and> pcs s 0 = Using 0 \<and> pcs s 1 = Using 0 \<and> (\<exists>vals. cur s = Some (0, vals) \<and> vals ! 1 = 9998)"
proof -
  have "\<exists>s. run_steps two_creates start = Some s \<and> pcs s 0 = Using 0 \<and> pcs s 1 = Using 0"
    by (simp add: two_creates_def start_def step_def sem_create_def bad_key_def IPC_PRIVATE_def create_get_def create_step_def
      goto_def call_semop_def op_lock_def call_getval_def call_setval_def op_endcreate_def BIGCOUNT_def SEMVMX_def)
  then obtain s where s: "run_steps two_creates start = Some s" "pcs s 0 = Using 0" "pcs s 1 = Using 0" by blast
  have r: "sem_run 2 False s" by (rule run_steps_run [OF sem_run.init s(1)]) (auto simp: two_creates_def)
  have "count 2 in_use (pcs s) = 2" using s(2,3) by (simp add: count_def numeral_2_eq_2)
  then show ?thesis using sem_set_kept [OF r] r s(2,3) by (fastforce simp: BIGCOUNT_def)
qed

text \<open>
  The protocol has two holes. \<open>sem_open\<close> takes its count without the lock, so a set can be removed by a
  \<open>sem_close\<close> of another process after \<open>sem_open\<close> has succeeded. And a process that sleeps in \<open>sem_create\<close> while
  another one closes the last use is told that the set was removed and ends, where one that comes later starts over.
\<close>

lemma sem_set_lost:
  "(\<exists>s. sem_run 2 True s \<and> pcs s 1 = Using 0 \<and> cur s = None) \<and> (\<exists>s. sem_run 2 False s \<and> pcs s 1 = Failed \<and> cur s = None)"
proof
  let ?opened = "[(0, Create 7 3), (0, Run), (0, Run), (0, Run), (0, Run), (0, Run), (1, Open 7), (0, Close), (0, Run), (1, Run), (0, Run)] :: (nat \<times> call) list"
  let ?slept = "[(0, Create 7 3), (1, Create 7 3), (0, Run), (0, Run), (0, Run), (0, Run), (0, Run), (0, Close), (1, Run), (0, Run), (0, Run), (1, Run)] :: (nat \<times> call) list"
  note eval = start_def step_def sem_create_def bad_key_def IPC_PRIVATE_def create_get_def create_step_def sem_open_def open_step_def op_open_def
    goto_def call_semop_def op_lock_def call_getval_def call_setval_def op_endcreate_def BIGCOUNT_def SEMVMX_def sem_close_def close_step_def op_close_def
    sem_rm_def exit_proc_def
  have "\<exists>s. run_steps ?opened start = Some s \<and> pcs s 1 = Using 0 \<and> cur s = None" by (simp add: eval)
  then obtain s where s: "run_steps ?opened start = Some s" "pcs s 1 = Using 0 \<and> cur s = None" by blast
  have "sem_run 2 True s" by (rule run_steps_run [OF sem_run.init s(1)]) auto
  then show "\<exists>s. sem_run 2 True s \<and> pcs s 1 = Using 0 \<and> cur s = None" using s(2) by blast
  have "\<exists>s. run_steps ?slept start = Some s \<and> pcs s 1 = Failed \<and> cur s = None" by (simp add: eval)
  then obtain s where s: "run_steps ?slept start = Some s" "pcs s 1 = Failed \<and> cur s = None" by blast
  have "sem_run 2 False s" by (rule run_steps_run [OF sem_run.init s(1)]) auto
  then show "\<exists>s. sem_run 2 False s \<and> pcs s 1 = Failed \<and> cur s = None" using s(2) by blast
qed

end
