(* ===== verification/TtyModes.thy ===== *)
theory TtyModes
  imports "HOL-Library.Word"
begin

unbundle bit_operations_syntax

section \<open>Terminal modes (lib/ttymodes.c)\<close>

text \<open>
  The static variables of the file and the settings of the terminals. Descriptors refer to
  terminals by a function \<open>dev\<close>. What a terminal makes of new settings is a parameter
  \<open>drv\<close>: \<open>tcsetattr\<close> fails (\<open>None\<close>), or returns 0 with all or only some of the changes
  made. A \<open>tcgetattr\<close> may fail; the outcomes of the next calls are in the state.
  The constants are those of Linux.
\<close>

definition ECHO :: "32 word" where "ECHO = 0x8"
definition ICANON :: "32 word" where "ICANON = 0x2"
definition ISIG :: "32 word" where "ISIG = 0x1"
definition IEXTEN :: "32 word" where "IEXTEN = 0x8000"
definition BRKINT :: "32 word" where "BRKINT = 0x2"
definition ICRNL :: "32 word" where "ICRNL = 0x100"
definition INPCK :: "32 word" where "INPCK = 0x10"
definition ISTRIP :: "32 word" where "ISTRIP = 0x20"
definition IXON :: "32 word" where "IXON = 0x400"
definition CSIZE :: "32 word" where "CSIZE = 0x30"
definition CS8 :: "32 word" where "CS8 = 0x30"
definition PARENB :: "32 word" where "PARENB = 0x100"
definition OPOST :: "32 word" where "OPOST = 0x1"
definition VTIME :: nat where "VTIME = 5"
definition VMIN :: nat where "VMIN = 6"

lemmas flag_defs = ECHO_def ICANON_def ISIG_def IEXTEN_def BRKINT_def ICRNL_def INPCK_def ISTRIP_def IXON_def
  CSIZE_def CS8_def PARENB_def OPOST_def VTIME_def VMIN_def

record termios =
  c_iflag :: "32 word"
  c_oflag :: "32 word"
  c_cflag :: "32 word"
  c_lflag :: "32 word"
  c_cc :: "nat \<Rightarrow> 8 word"

datatype mode = RESET | RAW | CBREAK
datatype errno = EINVAL | ENOTTY | EINTR

record tty =
  terminal :: "nat \<Rightarrow> termios"
  gets :: "bool list"
  errno :: errno
  save_termios :: termios
  ttysavefd :: int
  ttystate :: mode

type_synonym driver = "termios \<Rightarrow> termios \<Rightarrow> termios option"

definition tcgetattr :: "(int \<Rightarrow> nat option) \<Rightarrow> int \<Rightarrow> tty \<Rightarrow> termios option \<times> tty" where
  "tcgetattr dev fd s =
     (case dev fd of
        None \<Rightarrow> (None, s\<lparr>errno := ENOTTY\<rparr>)
      | Some t \<Rightarrow>
          if False \<in> set (take 1 (gets s)) then (None, s\<lparr>gets := tl (gets s), errno := EINTR\<rparr>)
          else (Some (terminal s t), s\<lparr>gets := tl (gets s)\<rparr>))"

definition tcsetattr :: "(int \<Rightarrow> nat option) \<Rightarrow> driver \<Rightarrow> int \<Rightarrow> termios \<Rightarrow> tty \<Rightarrow> bool \<times> tty" where
  "tcsetattr dev drv fd new s =
     (case dev fd of
        None \<Rightarrow> (False, s\<lparr>errno := ENOTTY\<rparr>)
      | Some t \<Rightarrow> (case drv (terminal s t) new of
            None \<Rightarrow> (False, s\<lparr>errno := EINTR\<rparr>)
          | Some x \<Rightarrow> (True, s\<lparr>terminal := (terminal s)(t := x)\<rparr>)))"

definition cbreak_settings :: "termios \<Rightarrow> termios" where
  "cbreak_settings buf = buf\<lparr>c_lflag := c_lflag buf AND NOT (ECHO OR ICANON), c_cc := (c_cc buf)(VMIN := 1, VTIME := 0)\<rparr>"

definition cbreak_ok :: "termios \<Rightarrow> bool" where
  "cbreak_ok buf \<longleftrightarrow> \<not> (c_lflag buf AND (ECHO OR ICANON) \<noteq> 0 \<or> c_cc buf VMIN \<noteq> 1 \<or> c_cc buf VTIME \<noteq> 0)"

definition raw_settings :: "termios \<Rightarrow> termios" where
  "raw_settings buf = buf\<lparr>c_lflag := c_lflag buf AND NOT (ECHO OR ICANON OR IEXTEN OR ISIG),
     c_iflag := c_iflag buf AND NOT (BRKINT OR ICRNL OR INPCK OR ISTRIP OR IXON),
     c_cflag := c_cflag buf AND NOT (CSIZE OR PARENB) OR CS8,
     c_oflag := c_oflag buf AND NOT OPOST, c_cc := (c_cc buf)(VMIN := 1, VTIME := 0)\<rparr>"

definition raw_ok :: "termios \<Rightarrow> bool" where
  "raw_ok buf \<longleftrightarrow> \<not> (c_lflag buf AND (ECHO OR ICANON OR IEXTEN OR ISIG) \<noteq> 0 \<or>
     c_iflag buf AND (BRKINT OR ICRNL OR INPCK OR ISTRIP OR IXON) \<noteq> 0 \<or>
     c_cflag buf AND (CSIZE OR PARENB OR CS8) \<noteq> CS8 \<or>
     c_oflag buf AND OPOST \<noteq> 0 \<or> c_cc buf VMIN \<noteq> 1 \<or> c_cc buf VTIME \<noteq> 0)"

text \<open>The part that \<open>tty_cbreak\<close> and \<open>tty_raw\<close> have in common: set, verify, and go back when not all was changed.\<close>

definition set_and_verify :: "(termios \<Rightarrow> termios) \<Rightarrow> (termios \<Rightarrow> bool) \<Rightarrow> mode \<Rightarrow> (int \<Rightarrow> nat option) \<Rightarrow> driver \<Rightarrow> int \<Rightarrow> tty \<Rightarrow> int \<times> tty" where
  "set_and_verify settings ok m dev drv fd s =
     (if ttystate s \<noteq> RESET then (-1, s\<lparr>errno := EINVAL\<rparr>)
      else case tcgetattr dev fd s of
        (None, s) \<Rightarrow> (-1, s)
      | (Some buf, s) \<Rightarrow>
          (let s = s\<lparr>save_termios := buf\<rparr> in
           case tcsetattr dev drv fd (settings buf) s of
             (False, s) \<Rightarrow> (-1, s)
           | (True, s) \<Rightarrow>
               (case tcgetattr dev fd s of
                  (None, s) \<Rightarrow> (let err = errno s; s = snd (tcsetattr dev drv fd (save_termios s) s) in (-1, s\<lparr>errno := err\<rparr>))
                | (Some buf, s) \<Rightarrow>
                    if \<not> ok buf then (let s = snd (tcsetattr dev drv fd (save_termios s) s) in (-1, s\<lparr>errno := EINVAL\<rparr>))
                    else (0, s\<lparr>ttystate := m, ttysavefd := fd\<rparr>))))"

definition tty_cbreak :: "(int \<Rightarrow> nat option) \<Rightarrow> driver \<Rightarrow> int \<Rightarrow> tty \<Rightarrow> int \<times> tty" where
  "tty_cbreak = set_and_verify cbreak_settings cbreak_ok CBREAK"

definition tty_raw :: "(int \<Rightarrow> nat option) \<Rightarrow> driver \<Rightarrow> int \<Rightarrow> tty \<Rightarrow> int \<times> tty" where
  "tty_raw = set_and_verify raw_settings raw_ok RAW"

definition tty_reset :: "(int \<Rightarrow> nat option) \<Rightarrow> driver \<Rightarrow> int \<Rightarrow> tty \<Rightarrow> int \<times> tty" where
  "tty_reset dev drv fd s =
     (if ttystate s = RESET then (0, s)
      else case tcsetattr dev drv fd (save_termios s) s of
        (False, s) \<Rightarrow> (-1, s)
      | (True, s) \<Rightarrow> (0, s\<lparr>ttystate := RESET\<rparr>))"

definition tty_atexit :: "(int \<Rightarrow> nat option) \<Rightarrow> driver \<Rightarrow> tty \<Rightarrow> tty" where
  "tty_atexit dev drv s = (if 0 \<le> ttysavefd s then snd (tty_reset dev drv (ttysavefd s) s) else s)"

definition tty_termios :: "tty \<Rightarrow> termios" where
  "tty_termios s = save_termios s"

subsection \<open>The settings asked for pass the check\<close>

lemma cleared: "(x AND NOT m) AND m = (0 :: 32 word)"
  by (rule bit_word_eqI) (auto simp: bit_simps)

lemma field_set: "k AND m = k \<Longrightarrow> (x AND NOT m OR k) AND m = (k :: 32 word)"
  by (simp add: bit.conj_disj_distrib2 cleared)

lemma raw_settings_ok: "raw_ok (raw_settings t)"
  using cleared [of _ "ECHO OR ICANON OR IEXTEN OR ISIG"] cleared [of _ "BRKINT OR ICRNL OR INPCK OR ISTRIP OR IXON"] cleared [of _ OPOST]
    field_set [of CS8 "CSIZE OR PARENB OR CS8"]
  by (simp add: raw_ok_def raw_settings_def flag_defs)

lemma cbreak_settings_ok: "cbreak_ok (cbreak_settings t)"
  using cleared [of _ "ECHO OR ICANON"] by (simp add: cbreak_ok_def cbreak_settings_def flag_defs)

subsection \<open>Runs on one terminal\<close>

datatype tty_call = Cbreak int | Raw int | Reset int | Atexit

definition tty_step :: "(int \<Rightarrow> nat option) \<Rightarrow> driver \<Rightarrow> tty_call \<Rightarrow> tty \<Rightarrow> tty" where
  "tty_step dev drv c s =
     (case c of Cbreak fd \<Rightarrow> snd (tty_cbreak dev drv fd s) | Raw fd \<Rightarrow> snd (tty_raw dev drv fd s)
      | Reset fd \<Rightarrow> snd (tty_reset dev drv fd s) | Atexit \<Rightarrow> tty_atexit dev drv s)"

fun call_fd :: "tty_call \<Rightarrow> int option" where
  "call_fd (Cbreak fd) = Some fd" | "call_fd (Raw fd) = Some fd" | "call_fd (Reset fd) = Some fd" | "call_fd Atexit = None"

definition mode_ok :: "mode \<Rightarrow> termios \<Rightarrow> bool" where
  "mode_ok m x \<longleftrightarrow> (case m of RESET \<Rightarrow> True | RAW \<Rightarrow> raw_ok x | CBREAK \<Rightarrow> cbreak_ok x)"

text \<open>The terminal has its original settings, or it is in a verified mode and the original settings are saved.\<close>

definition tty_inv :: "(int \<Rightarrow> nat option) \<Rightarrow> nat \<Rightarrow> termios \<Rightarrow> tty \<Rightarrow> bool" where
  "tty_inv dev t orig s \<longleftrightarrow>
     (if ttystate s = RESET then terminal s t = orig else save_termios s = orig \<and> dev (ttysavefd s) = Some t \<and> 0 \<le> ttysavefd s) \<and>
     mode_ok (ttystate s) (terminal s t)"

definition only_tty :: "(int \<Rightarrow> nat option) \<Rightarrow> nat \<Rightarrow> bool" where
  "only_tty dev t \<longleftrightarrow> (\<forall>fd. dev fd = None \<or> dev fd = Some t \<and> 0 \<le> fd)"

definition restorable :: "driver \<Rightarrow> termios \<Rightarrow> bool" where
  "restorable drv orig \<longleftrightarrow> (\<forall>old. drv old orig = Some orig)"

lemma set_and_verify_inv:
  assumes "only_tty dev t" and "restorable drv orig" and "tty_inv dev t orig s" and "\<And>x. ok x = mode_ok m x" and "m \<noteq> RESET"
  shows "tty_inv dev t orig (snd (set_and_verify settings ok m dev drv fd s))"
proof (cases "dev fd")
  case None
  then show ?thesis using assms(3) by (cases "ttystate s") (simp_all add: set_and_verify_def tcgetattr_def tty_inv_def mode_ok_def)
next
  case (Some u)
  then have "u = t" "0 \<le> fd" using assms(1) unfolding only_tty_def by (metis option.distinct(1) option.inject)+
  then show ?thesis using Some assms(2-5)
    by (auto simp: set_and_verify_def tcgetattr_def tcsetattr_def tty_inv_def Let_def mode_ok_def [of RESET] restorable_def
      split: option.splits if_splits)
qed

lemma tty_reset_inv:
  assumes "only_tty dev t" and "restorable drv orig" and "tty_inv dev t orig s"
  shows "tty_inv dev t orig (snd (tty_reset dev drv fd s))"
proof (cases "dev fd")
  case None
  then show ?thesis using assms(3) by (cases "ttystate s") (simp_all add: tty_reset_def tcsetattr_def tty_inv_def mode_ok_def)
next
  case (Some u)
  then have "u = t" using assms(1) unfolding only_tty_def by (metis option.distinct(1) option.inject)
  then show ?thesis using Some assms(2,3) by (auto simp: tty_reset_def tcsetattr_def tty_inv_def mode_ok_def [of RESET] restorable_def)
qed

lemma tty_step_inv:
  assumes "only_tty dev t" and "restorable drv orig" and "tty_inv dev t orig s"
  shows "tty_inv dev t orig (tty_step dev drv c s)"
  using tty_reset_inv [OF assms] set_and_verify_inv [OF assms, of raw_ok RAW] set_and_verify_inv [OF assms, of cbreak_ok CBREAK] assms(3)
  by (cases c) (auto simp: tty_step_def tty_atexit_def tty_raw_def tty_cbreak_def mode_ok_def)

lemma tty_run_inv:
  "only_tty dev t \<Longrightarrow> restorable drv orig \<Longrightarrow> tty_inv dev t orig s \<Longrightarrow> tty_inv dev t orig (fold (tty_step dev drv) cs s)"
  by (induction cs arbitrary: s) (simp_all add: tty_step_inv)

lemma tty_atexit_reset:
  assumes "restorable drv orig" and "tty_inv dev t orig s"
  shows "ttystate (tty_atexit dev drv s) = RESET"
  using assms by (auto simp: tty_atexit_def tty_reset_def tcsetattr_def tty_inv_def restorable_def split: if_splits)

lemma set_and_verify_result: "m \<noteq> RESET \<Longrightarrow> set_and_verify settings ok m dev drv fd s = (r, s') \<Longrightarrow> r = 0 \<and> ttystate s = RESET \<and> ttystate s' = m \<or> r = -1 \<and> ttystate s' = ttystate s"
  by (auto simp: set_and_verify_def tcgetattr_def tcsetattr_def Let_def split: option.splits if_splits if_splits prod.splits bool.splits)

text \<open>
  C37. In any run of calls of the library on descriptors of one terminal, which may refuse settings or take them in part
  but goes back to its original ones: outside of a mode the terminal has its original settings, in a mode it has passed
  the check of that mode, \<open>tty_raw\<close> and \<open>tty_cbreak\<close> return 0 exactly when they entered the mode from none, and
  \<open>tty_atexit\<close> leaves the terminal as it was at the beginning.
\<close>

theorem tty_modes_restored:
  assumes "only_tty dev t" and "restorable drv (terminal s t)" and "ttystate s = RESET" and "s' = fold (tty_step dev drv) cs s"
  shows "(ttystate s' = RESET \<longrightarrow> terminal s' t = terminal s t) \<and> mode_ok (ttystate s') (terminal s' t) \<and>
    terminal (tty_atexit dev drv s') t = terminal s t \<and>
    (case tty_raw dev drv fd s' of (r, s'') \<Rightarrow> r = 0 \<and> ttystate s' = RESET \<and> ttystate s'' = RAW \<or> r = -1 \<and> ttystate s'' = ttystate s') \<and>
    (case tty_cbreak dev drv fd s' of (r, s'') \<Rightarrow> r = 0 \<and> ttystate s' = RESET \<and> ttystate s'' = CBREAK \<or> r = -1 \<and> ttystate s'' = ttystate s')"
proof -
  have inv: "tty_inv dev t (terminal s t) s'"
    unfolding assms(4) by (rule tty_run_inv [OF assms(1,2)]) (simp add: tty_inv_def assms(3) mode_ok_def)
  have "tty_inv dev t (terminal s t) (tty_atexit dev drv s')" using tty_step_inv [OF assms(1,2) inv, of Atexit] by (simp add: tty_step_def)
  then have "terminal (tty_atexit dev drv s') t = terminal s t" using tty_atexit_reset [OF assms(2) inv] by (simp add: tty_inv_def)
  moreover have "case tty_raw dev drv fd s' of (r, s'') \<Rightarrow> r = 0 \<and> ttystate s' = RESET \<and> ttystate s'' = RAW \<or> r = -1 \<and> ttystate s'' = ttystate s'"
    by (rule case_prodI2) (rule set_and_verify_result [of RAW], simp_all add: tty_raw_def)
  moreover have "case tty_cbreak dev drv fd s' of (r, s'') \<Rightarrow> r = 0 \<and> ttystate s' = RESET \<and> ttystate s'' = CBREAK \<or> r = -1 \<and> ttystate s'' = ttystate s'"
    by (rule case_prodI2) (rule set_and_verify_result [of CBREAK], simp_all add: tty_cbreak_def)
  ultimately show ?thesis using inv by (simp add: tty_inv_def)
qed

text \<open>A terminal that always processes its output: it takes \<open>tty_cbreak\<close> and refuses \<open>tty_raw\<close>.\<close>

definition odd_drv :: driver where
  "odd_drv old new = Some (new\<lparr>c_oflag := OPOST\<rparr>)"

definition cooked :: termios where
  "cooked = \<lparr>c_iflag = ICRNL OR IXON, c_oflag = OPOST, c_cflag = CS8, c_lflag = ECHO OR ICANON OR ISIG, c_cc = \<lambda>_. 0\<rparr>"

definition cooked_tty :: tty where
  "cooked_tty = \<lparr>terminal = \<lambda>_. cooked, gets = [], errno = ENOTTY, save_termios = cooked, ttysavefd = -1, ttystate = RESET\<rparr>"

theorem tty_modes_restored_witness:
  "ttystate (fold (tty_step (\<lambda>_. None) odd_drv) [Raw 0] cooked_tty) = RESET \<and>
   (let s' = fold (tty_step (\<lambda>fd. if fd = 0 then Some 0 else None) odd_drv) [Raw 0, Cbreak 0, Raw 0] cooked_tty in
     ttystate s' = CBREAK \<and> mode_ok CBREAK (terminal s' 0) \<and>
     terminal (tty_atexit (\<lambda>fd. if fd = 0 then Some 0 else None) odd_drv s') 0 = cooked)"
proof -
  let ?dev = "\<lambda>fd :: int. if fd = 0 then Some (0 :: nat) else None"
  let ?s = "fold (tty_step ?dev odd_drv) [Raw 0, Cbreak 0, Raw 0] cooked_tty"
  have "only_tty ?dev 0" by (simp add: only_tty_def)
  moreover have "restorable odd_drv (terminal cooked_tty 0)" by (simp add: restorable_def odd_drv_def cooked_tty_def cooked_def)
  moreover have "ttystate cooked_tty = RESET" by (simp add: cooked_tty_def)
  ultimately have "mode_ok (ttystate ?s) (terminal ?s 0) \<and> terminal (tty_atexit ?dev odd_drv ?s) 0 = terminal cooked_tty 0"
    using tty_modes_restored [where s = cooked_tty and s' = ?s and cs = "[Raw 0, Cbreak 0, Raw 0]" and t = 0 and dev = ?dev and drv = odd_drv and fd = 0] by blast
  moreover have "ttystate ?s = CBREAK"
    by (simp add: tty_step_def tty_raw_def tty_cbreak_def set_and_verify_def tcgetattr_def tcsetattr_def cooked_tty_def cooked_def odd_drv_def
      raw_settings_def raw_ok_def cbreak_settings_def cbreak_ok_def flag_defs Let_def)
  moreover have "ttystate (fold (tty_step (\<lambda>_. None) odd_drv) [Raw 0] cooked_tty) = RESET"
    by (simp add: tty_step_def tty_raw_def set_and_verify_def tcgetattr_def cooked_tty_def)
  ultimately show ?thesis by (simp add: Let_def cooked_tty_def)
qed

end
