(* ===== verification/Popen.thy ===== *)
theory Popen
  imports MyDup2
begin

section \<open>Commands run over pipes (lib/popen.c, lib/openmax.c)\<close>

text \<open>
  The state of the calling process: its descriptor table, the static variables of \<open>popen.c\<close>, and
  what the kernel knows of its children, the table with which each shell was started and the
  children not yet waited for. A stream is its descriptor. Whether \<open>calloc\<close>, \<open>fork\<close>, \<open>fdopen\<close>
  and \<open>fclose\<close> succeed, and what interrupts \<open>waitpid\<close>, are arguments.
\<close>

datatype obj = File nat | PipeR nat | PipeW nat
datatype perrno = EINVAL | EMFILE | ENFILE | EAGAIN | ECHILD | EINTR | ENOMEM

type_synonym fds = "obj option list"

record par =
  tab :: fds
  childpid :: "nat list option"
  maxfd :: nat
  pipes :: nat
  pids :: nat
  started :: "nat \<Rightarrow> fds option"
  unwaited :: "nat list"
  perr :: perrno

text \<open>\<open>open_max\<close> with its static variable and the answer of \<open>sysconf\<close>; \<open>None\<close> is \<open>err_sys\<close>.\<close>

definition OPEN_MAX_GUESS :: int where "OPEN_MAX_GUESS = 256"

definition open_max :: "int \<Rightarrow> int \<times> bool \<Rightarrow> int option" where
  "open_max openmax = (\<lambda>(conf, errno_set).
     if openmax \<noteq> 0 then Some openmax
     else if conf < 0 then (if errno_set then None else Some OPEN_MAX_GUESS)
     else Some conf)"

definition pipe :: "par \<Rightarrow> (nat \<times> nat \<times> par) option" where
  "pipe s =
     (let r = first_free (tab s); t = (tab s)[r := Some (PipeR (pipes s))]; w = first_free t in
      if length (tab s) \<le> r \<or> length (tab s) \<le> w then None
      else Some (r, w, s\<lparr>tab := t[w := Some (PipeW (pipes s))], pipes := pipes s + 1\<rparr>))"

text \<open>The table of the child when it calls \<open>execl\<close>.\<close>

definition close_streams :: "nat list \<Rightarrow> fds \<Rightarrow> fds" where
  "close_streams cp t = fold (\<lambda>i t. if 0 < cp ! i then t[i := None] else t) [0..<length cp] t"

definition child_tab :: "string \<Rightarrow> nat \<Rightarrow> nat \<Rightarrow> nat list \<Rightarrow> fds \<Rightarrow> fds" where
  "child_tab type r w cp t =
     (let t = (if hd type = CHR ''r'' then
                 let t = t[r := None] in if w \<noteq> 1 then t[1 := t ! w, w := None] else t
               else let t = t[w := None] in if r \<noteq> 0 then t[0 := t ! r, r := None] else t)
      in close_streams cp t)"

text \<open>What the caller does after \<open>fork\<close>.\<close>

definition popen_parent :: "string \<Rightarrow> bool \<Rightarrow> nat \<Rightarrow> nat \<Rightarrow> nat \<Rightarrow> nat list \<Rightarrow> par \<Rightarrow> nat option \<times> par" where
  "popen_parent type fdopen_ok r w pid cp s =
     (let fd = (if hd type = CHR ''r'' then r else w); s = s\<lparr>tab := (tab s)[(if hd type = CHR ''r'' then w else r) := None]\<rparr> in
      if \<not> fdopen_ok then (None, s\<lparr>perr := ENOMEM\<rparr>)
      else (Some fd, s\<lparr>childpid := Some (cp[fd := pid])\<rparr>))"

text \<open>The first call allocates the array.\<close>

definition first_call :: "nat \<Rightarrow> bool \<Rightarrow> par \<Rightarrow> par" where
  "first_call limit calloc_ok s =
     (if childpid s = None then s\<lparr>maxfd := limit, childpid := (if calloc_ok then Some (replicate limit 0) else None)\<rparr> else s)"

definition popen :: "nat \<Rightarrow> bool \<Rightarrow> bool \<Rightarrow> bool \<Rightarrow> string \<Rightarrow> par \<Rightarrow> nat option \<times> par" where
  "popen limit calloc_ok fork_ok fdopen_ok type s =
     (if type \<noteq> ''r'' \<and> type \<noteq> ''w'' then (None, s\<lparr>perr := EINVAL\<rparr>)
      else
        let s = first_call limit calloc_ok s in
        case childpid s of
          None \<Rightarrow> (None, s\<lparr>perr := ENOMEM\<rparr>)
        | Some cp \<Rightarrow>
            (case pipe s of
               None \<Rightarrow> (None, s\<lparr>perr := ENFILE\<rparr>)
             | Some (r, w, s) \<Rightarrow>
                 if maxfd s \<le> r \<or> maxfd s \<le> w then (None, s\<lparr>tab := (tab s)[r := None, w := None], perr := EMFILE\<rparr>)
                 else if \<not> fork_ok then (None, s\<lparr>perr := EAGAIN\<rparr>)
                 else popen_parent type fdopen_ok r w (pids s) cp
                   (s\<lparr>started := (started s)(pids s \<mapsto> child_tab type r w cp (tab s)), unwaited := pids s # unwaited s, pids := pids s + 1\<rparr>)))"

text \<open>The loop over \<open>waitpid\<close>; a list of failures comes before the child is reaped.\<close>

fun wait_loop :: "(nat \<Rightarrow> int) \<Rightarrow> perrno list \<Rightarrow> nat \<Rightarrow> par \<Rightarrow> int \<times> par" where
  "wait_loop st [] pid s =
     (if pid \<in> set (unwaited s) then (st pid, s\<lparr>unwaited := remove1 pid (unwaited s)\<rparr>) else (-1, s\<lparr>perr := ECHILD\<rparr>))"
| "wait_loop st (e # es) pid s = (if e \<noteq> EINTR then (-1, s\<lparr>perr := e\<rparr>) else wait_loop st es pid s)"

definition pclose :: "(nat \<Rightarrow> int) \<Rightarrow> bool \<Rightarrow> perrno list \<Rightarrow> nat \<Rightarrow> par \<Rightarrow> int \<times> par" where
  "pclose st fclose_ok waits fd s =
     (case childpid s of
        None \<Rightarrow> (-1, s\<lparr>perr := EINVAL\<rparr>)
      | Some cp \<Rightarrow>
          if maxfd s \<le> fd then (-1, s\<lparr>perr := EINVAL\<rparr>)
          else if cp ! fd = 0 then (-1, s\<lparr>perr := EINVAL\<rparr>)
          else
            let pid = cp ! fd; s = s\<lparr>childpid := Some (cp[fd := 0]), tab := (tab s)[fd := None]\<rparr> in
            if \<not> fclose_ok then (-1, s) else wait_loop st waits pid s)"

subsection \<open>The table of a child\<close>

lemma close_streams_nth:
  "j < length t \<Longrightarrow> close_streams cp t ! j = (if j < length cp \<and> 0 < cp ! j then None else t ! j)"
proof -
  have "length (fold (\<lambda>i t. if 0 < cp ! i then t[i := None] else t) [0..<m] t) = length t \<and>
      (j < length t \<longrightarrow> fold (\<lambda>i t. if 0 < cp ! i then t[i := None] else t) [0..<m] t ! j = (if j < m \<and> 0 < cp ! j then None else t ! j))" for m
    by (induction m) (auto simp: nth_list_update less_Suc_eq)
  then show "j < length t \<Longrightarrow> ?thesis" by (simp add: close_streams_def)
qed

lemma close_streams_length: "length (close_streams cp t) = length t"
proof -
  have "length (fold (\<lambda>i t. if 0 < cp ! i then t[i := None] else t) [0..<m] t) = length t" for m
    by (induction m) auto
  then show ?thesis by (simp add: close_streams_def)
qed

lemma child_tab_length: "length (child_tab type r w cp t) = length t"
  by (simp add: child_tab_def close_streams_length Let_def)

lemma child_tab_nth:
  assumes "2 \<le> r" "2 \<le> w" "r \<noteq> w" "r < length t" "w < length t" "j < length t"
  shows "child_tab type r w cp t ! j =
    (if j < length cp \<and> 0 < cp ! j \<or> j = r \<or> j = w then None
     else if hd type = CHR ''r'' \<and> j = 1 then t ! w else if hd type \<noteq> CHR ''r'' \<and> j = 0 then t ! r else t ! j)"
  using assms by (auto simp: child_tab_def close_streams_nth Let_def nth_list_update)

lemma first_free_spec: "first_free t < length t \<Longrightarrow> t ! first_free t = None"
  using nth_length_takeWhile [of "\<lambda>e. e \<noteq> None" t] by (simp add: first_free_def)

lemma first_free_from: "t ! 0 \<noteq> None \<Longrightarrow> t ! 1 \<noteq> None \<Longrightarrow> 2 \<le> length t \<Longrightarrow> 2 \<le> first_free t"
  by (cases t; cases "tl t") (auto simp: first_free_def)


subsection \<open>The invariant\<close>

fun pipe_no :: "obj \<Rightarrow> nat option" where
  "pipe_no (File n) = None" | "pipe_no (PipeR k) = Some k" | "pipe_no (PipeW k) = Some k"

text \<open>The other end of a pipe, and where the child of a stream has it.\<close>

fun peer :: "obj \<Rightarrow> obj" where
  "peer (PipeR k) = PipeW k" | "peer (PipeW k) = PipeR k" | "peer (File n) = File n"

fun std_fd :: "obj \<Rightarrow> nat" where
  "std_fd (PipeR k) = 1" | "std_fd e = 0"

text \<open>A stream: its descriptor is one end of a pipe that no child has; its child has the other end as standard input or output.\<close>

definition stream :: "par \<Rightarrow> nat \<Rightarrow> nat \<Rightarrow> bool" where
  "stream s fd pid \<longleftrightarrow> 2 \<le> fd \<and> fd < length (tab s) \<and> pid < pids s \<and> pid \<in> set (unwaited s) \<and>
     (\<exists>e c. tab s ! fd = Some e \<and> pipe_no e \<noteq> None \<and> started s pid = Some c \<and> 2 \<le> length c \<and> c ! std_fd e = Some (peer e) \<and>
       (\<forall>q d. started s q = Some d \<longrightarrow> Some e \<notin> set d))"

definition numbered :: "nat \<Rightarrow> fds \<Rightarrow> bool" where
  "numbered n t \<longleftrightarrow> (\<forall>e k. Some e \<in> set t \<and> pipe_no e = Some k \<longrightarrow> k < n)"

definition once :: "fds \<Rightarrow> bool" where
  "once t \<longleftrightarrow> (\<forall>i j e. i < length t \<and> j < length t \<and> t ! i = Some e \<and> t ! j = Some e \<and> pipe_no e \<noteq> None \<longrightarrow> i = j)"

definition streams_ok :: "par \<Rightarrow> nat list \<Rightarrow> bool" where
  "streams_ok s cp \<longleftrightarrow> length cp = maxfd s \<and> (\<forall>fd<maxfd s. 0 < cp ! fd \<longrightarrow> stream s fd (cp ! fd)) \<and>
     (\<forall>i<maxfd s. \<forall>j<maxfd s. cp ! i = cp ! j \<and> 0 < cp ! i \<longrightarrow> i = j)"

definition par_ok :: "par \<Rightarrow> bool" where
  "par_ok s \<longleftrightarrow> 2 \<le> length (tab s) \<and> tab s ! 0 \<noteq> None \<and> tab s ! 1 \<noteq> None \<and> once (tab s) \<and> numbered (pipes s) (tab s) \<and>
     0 < pids s \<and> (\<forall>q d. started s q = Some d \<longrightarrow> q < pids s \<and> numbered (pipes s) d) \<and>
     distinct (unwaited s) \<and> (\<forall>q \<in> set (unwaited s). q < pids s) \<and>
     (\<forall>cp. childpid s = Some cp \<longrightarrow> streams_ok s cp)"

lemma numbered_mono: "numbered n t \<Longrightarrow> n \<le> m \<Longrightarrow> numbered m t"
  by (force simp: numbered_def)

lemma numbered_upd: "numbered n t \<Longrightarrow> (\<And>e k. x = Some e \<Longrightarrow> pipe_no e = Some k \<Longrightarrow> k < n) \<Longrightarrow> numbered n (t[i := x])"
  unfolding numbered_def by (metis in_set_conv_nth length_list_update nth_list_update_eq nth_list_update_neq)

lemma once_None: "once t \<Longrightarrow> once (t[i := None])"
  unfolding once_def by (metis length_list_update nth_list_update_eq nth_list_update_neq option.distinct(1))

lemma once_new: "once t \<Longrightarrow> numbered n t \<Longrightarrow> pipe_no e = Some n \<Longrightarrow> Some e \<notin> set t \<Longrightarrow> once (t[i := Some e])"
  unfolding once_def by (metis length_list_update nth_list_update_eq nth_list_update_neq nth_mem)

text \<open>Changes that leave the streams alone.\<close>

lemma stream_keep:
  assumes "stream s fd pid" and "tab s' ! fd = tab s ! fd" and "length (tab s') = length (tab s)" and "pids s \<le> pids s'"
    and "pid \<in> set (unwaited s')" and "\<And>q. q \<noteq> pids s \<Longrightarrow> started s' q = started s q"
    and "\<And>e d. tab s ! fd = Some e \<Longrightarrow> started s' (pids s) = Some d \<Longrightarrow> Some e \<notin> set d"
  shows "stream s' fd pid"
proof -
  obtain e c where e: "tab s ! fd = Some e" "pipe_no e \<noteq> None" "started s pid = Some c" "2 \<le> length c" "c ! std_fd e = Some (peer e)"
    "\<forall>q d. started s q = Some d \<longrightarrow> Some e \<notin> set d" and f: "2 \<le> fd" "fd < length (tab s)" "pid < pids s"
    using assms(1) by (auto simp: stream_def)
  have "started s' pid = Some c" using assms(6) [of pid] e(3) f(3) by simp
  moreover have "Some e \<notin> set d" if "started s' q = Some d" for q d
    using assms(7) [OF e(1)] assms(6) [of q] e(6) that by (cases "q = pids s") fastforce+
  ultimately show ?thesis
    unfolding stream_def assms(2,3) using e(1,2,4,5) f assms(4,5) by (intro conjI exI [of _ e] exI [of _ c]) auto
qed

lemma pipe_ok:
  assumes "par_ok s" and "pipe s = Some (r, w, s1)"
  shows "2 \<le> r" "2 \<le> w" "r \<noteq> w" "r < length (tab s)" "w < length (tab s)" "tab s ! r = None" "tab s ! w = None"
    "s1 = s\<lparr>tab := (tab s)[r := Some (PipeR (pipes s)), w := Some (PipeW (pipes s))], pipes := pipes s + 1\<rparr>"
proof -
  define t where "t = (tab s)[r := Some (PipeR (pipes s))]"
  have r: "r = first_free (tab s)" "r < length (tab s)" and w: "w = first_free t" "w < length (tab s)"
    and s1: "s1 = s\<lparr>tab := t[w := Some (PipeW (pipes s))], pipes := pipes s + 1\<rparr>"
    using assms(2) by (auto simp: pipe_def Let_def t_def split: if_splits)
  have o: "tab s ! 0 \<noteq> None" "tab s ! 1 \<noteq> None" "2 \<le> length (tab s)" using assms(1) by (auto simp: par_ok_def)
  show r2: "2 \<le> r" using first_free_from [OF o] r(1) by simp
  show rn: "tab s ! r = None" using first_free_spec [of "tab s"] r by simp
  have wn: "t ! w = None" using first_free_spec [of t] w by (simp add: t_def)
  show "r \<noteq> w" using wn r(2) by (auto simp: t_def)
  then show "tab s ! w = None" using wn by (simp add: t_def)
  have "t ! 0 \<noteq> None" "t ! 1 \<noteq> None" "2 \<le> length t" using o r2 by (simp_all add: t_def)
  then show "2 \<le> w" using first_free_from [of t] w(1) by simp
  show "s1 = s\<lparr>tab := (tab s)[r := Some (PipeR (pipes s)), w := Some (PipeW (pipes s))], pipes := pipes s + 1\<rparr>"
    using s1 by (simp add: t_def)
qed (use assms(2) in \<open>auto simp: pipe_def Let_def split: if_splits\<close>)


lemma child_without:
  assumes "once t" and "t ! i = Some e" and "pipe_no e \<noteq> None" and "i < length t"
    and "2 \<le> r" "2 \<le> w" "r \<noteq> w" "r < length t" "w < length t"
    and "i \<noteq> (if hd type = CHR ''r'' then w else r)" and "i < length cp \<and> 0 < cp ! i \<or> i = r \<or> i = w"
  shows "Some e \<notin> set (child_tab type r w cp t)"
proof
  assume "Some e \<in> set (child_tab type r w cp t)"
  then obtain j where j: "j < length t" "child_tab type r w cp t ! j = Some e" by (metis child_tab_length in_set_conv_nth)
  have o: "t ! j' = Some e \<Longrightarrow> j' < length t \<Longrightarrow> j' = i" for j'
    using assms(1-4) unfolding once_def by blast
  show False
    using j(2) o [OF _ j(1)] o [of r] o [of w] assms(5-11) unfolding child_tab_nth [OF assms(5-9) j(1)] by (auto split: if_splits)
qed

lemma child_numbered:
  assumes "numbered n t" and "2 \<le> r" "2 \<le> w" "r \<noteq> w" "r < length t" "w < length t"
  shows "numbered n (child_tab type r w cp t)"
proof -
  have "Some e \<in> set t" if i: "Some e \<in> set (child_tab type r w cp t)" for e
  proof -
    obtain j where j: "j < length t" "child_tab type r w cp t ! j = Some e" using i by (metis child_tab_length in_set_conv_nth)
    then have "Some e = t ! r \<or> Some e = t ! w \<or> Some e = t ! j"
      unfolding child_tab_nth [OF assms(2-6) j(1)] by (auto split: if_splits)
    then show ?thesis using assms(5,6) j(1) by auto
  qed
  then show ?thesis using assms(1) by (auto simp: numbered_def)
qed

lemma streams_keep:
  assumes "streams_ok s cp" and "maxfd s' = maxfd s" and "\<And>fd pid. stream s fd pid \<Longrightarrow> 0 < pid \<Longrightarrow> fd < maxfd s \<Longrightarrow> pid = cp ! fd \<Longrightarrow> stream s' fd pid"
  shows "streams_ok s' cp"
  using assms by (simp add: streams_ok_def)

text \<open>A change of slots that no stream uses.\<close>

lemma tab_ok:
  assumes "par_ok s" and "length t = length (tab s)" and "t ! 0 \<noteq> None" and "t ! 1 \<noteq> None" and "once t" and "numbered n t" and "pipes s \<le> n"
    and "\<And>cp fd. childpid s = Some cp \<Longrightarrow> fd < maxfd s \<Longrightarrow> 0 < cp ! fd \<Longrightarrow> t ! fd = tab s ! fd"
  shows "par_ok (s\<lparr>tab := t, pipes := n\<rparr>)"
proof -
  have "streams_ok (s\<lparr>tab := t, pipes := n\<rparr>) cp" if c: "childpid s = Some cp" for cp
  proof (rule streams_keep)
    show s: "streams_ok s cp" using assms(1) c by (simp add: par_ok_def)
    show "stream (s\<lparr>tab := t, pipes := n\<rparr>) fd pid" if "stream s fd pid" "0 < pid" "fd < maxfd s" "pid = cp ! fd" for fd pid
      by (rule stream_keep [OF that(1)])
        (use assms(1,2,8) c that in \<open>auto simp: stream_def par_ok_def\<close>)
  qed simp
  moreover have "numbered n d" if "started s q = Some d" for q d
    using assms(1,7) that by (auto simp: par_ok_def intro: numbered_mono)
  ultimately show ?thesis using assms(1-6) by (simp add: par_ok_def)
qed

lemma pipe_par_ok:
  assumes "par_ok s" and "pipe s = Some (r, w, s1)"
  shows "par_ok s1"
proof -
  note p = pipe_ok [OF assms]
  have ok: "once (tab s)" "numbered (pipes s) (tab s)" using assms(1) by (simp_all add: par_ok_def)
  have new: "Some e \<notin> set (tab s)" if "pipe_no e = Some (pipes s)" for e using ok(2) that by (auto simp: numbered_def)
  let ?t = "(tab s)[r := Some (PipeR (pipes s))]"
  have o1: "once ?t" by (rule once_new [OF ok]) (simp_all add: new)
  have "Some (PipeW (pipes s)) \<notin> set ?t" using new [of "PipeW (pipes s)"] set_update_subset_insert [of "tab s" r "Some (PipeR (pipes s))"] by auto
  then have o2: "once (?t[w := Some (PipeW (pipes s))])"
    using o1 unfolding once_def by (metis length_list_update nth_list_update_eq nth_list_update_neq nth_mem)
  have "numbered (pipes s + 1) (?t[w := Some (PipeW (pipes s))])"
    by (intro numbered_upd numbered_mono [OF ok(2)]) auto
  moreover have "?t[w := Some (PipeW (pipes s))] ! fd = tab s ! fd" if "childpid s = Some cp" "fd < maxfd s" "0 < cp ! fd" for cp fd
  proof -
    have "stream s fd (cp ! fd)" using assms(1) that by (auto simp: par_ok_def streams_ok_def)
    then have "fd \<noteq> r" "fd \<noteq> w" using p(6,7) by (auto simp: stream_def)
    then show ?thesis by simp
  qed
  moreover have "tab s ! 0 \<noteq> None" "tab s ! 1 \<noteq> None" using assms(1) by (simp_all add: par_ok_def)
  ultimately show ?thesis unfolding p(8) using p(1,2) by (intro tab_ok [OF assms(1)] o2) auto
qed

lemma not_stream_slot:
  assumes "par_ok s" and "pipe s = Some (r, w, s1)" and "childpid s = Some cp" and "r < maxfd s" "w < maxfd s"
  shows "cp ! r = 0" "cp ! w = 0"
proof -
  have "\<not> stream s fd pid" if "tab s ! fd = None" for fd pid using that by (simp add: stream_def)
  then show "cp ! r = 0" "cp ! w = 0" using pipe_ok(6,7) [OF assms(1,2)] assms(1,3-5) by (auto simp: par_ok_def streams_ok_def)
qed

lemma close_slot_ok:
  assumes "par_ok s" and "2 \<le> fd" and "\<And>cp. childpid s = Some cp \<Longrightarrow> fd < maxfd s \<Longrightarrow> cp ! fd = 0"
  shows "par_ok (s\<lparr>tab := (tab s)[fd := None]\<rparr>)"
proof -
  have "par_ok (s\<lparr>tab := (tab s)[fd := None], pipes := pipes s\<rparr>)"
  proof (rule tab_ok [OF assms(1)])
    show "numbered (pipes s) ((tab s)[fd := None])" by (rule numbered_upd) (use assms(1) in \<open>auto simp: par_ok_def\<close>)
    show "(tab s)[fd := None] ! i = tab s ! i" if "childpid s = Some cp" "i < maxfd s" "0 < cp ! i" for cp i
      using assms(3) that by (cases "i = fd") auto
  qed (use assms(1,2) in \<open>auto simp: par_ok_def once_None\<close>)
  then show ?thesis by simp
qed


lemma streams_set:
  assumes "streams_ok s cp" and "fd < maxfd s" and "0 < pid \<Longrightarrow> stream s fd pid" and "\<And>i. 0 < pid \<Longrightarrow> i < maxfd s \<Longrightarrow> cp ! i \<noteq> pid"
  shows "streams_ok (s\<lparr>childpid := x\<rparr>) (cp[fd := pid])"
proof -
  have same: "stream (s\<lparr>childpid := x\<rparr>) fd pid = stream s fd pid" for fd pid by (simp add: stream_def)
  have n: "i < maxfd s \<Longrightarrow> cp[fd := pid] ! i = (if i = fd then pid else cp ! i)" for i
    using assms(1,2) by (simp add: streams_ok_def nth_list_update)
  show ?thesis
    unfolding streams_ok_def same
  proof (intro conjI allI impI)
    fix i j assume a: "i < maxfd (s\<lparr>childpid := x\<rparr>)" "j < maxfd (s\<lparr>childpid := x\<rparr>)" "cp[fd := pid] ! i = cp[fd := pid] ! j \<and> 0 < cp[fd := pid] ! i"
    have inj: "i < maxfd s \<Longrightarrow> j < maxfd s \<Longrightarrow> cp ! i = cp ! j \<Longrightarrow> 0 < cp ! i \<Longrightarrow> i = j" using assms(1) by (simp add: streams_ok_def)
    have ij: "i < maxfd s" "j < maxfd s" using a(1,2) by simp_all
    show "i = j" using a(3) n [OF ij(1)] n [OF ij(2)] inj [OF ij] assms(4) [OF _ ij(1)] assms(4) [OF _ ij(2)] by (metis (full_types))
  qed (use assms n in \<open>auto simp: streams_ok_def\<close>)
qed

text \<open>The state after \<open>fork\<close>.\<close>

definition forked :: "string \<Rightarrow> nat \<Rightarrow> nat \<Rightarrow> nat list \<Rightarrow> par \<Rightarrow> par" where
  "forked type r w cp s = s\<lparr>started := (started s)(pids s \<mapsto> child_tab type r w cp (tab s)), unwaited := pids s # unwaited s, pids := pids s + 1\<rparr>"

lemma forked_ok:
  assumes ok: "par_ok s" and cp: "childpid s = Some cp" and rw: "2 \<le> r" "2 \<le> w" "r \<noteq> w" "r < length (tab s)" "w < length (tab s)"
    and free: "r < maxfd s" "w < maxfd s" "cp ! r = 0" "cp ! w = 0"
  shows "par_ok (forked type r w cp s)"
proof -
  have s: "streams_ok s cp" "once (tab s)" using ok cp by (auto simp: par_ok_def)
  have "streams_ok (forked type r w cp s) cp"
  proof (rule streams_keep [OF s(1)])
    show "stream (forked type r w cp s) fd pid" if st: "stream s fd pid" "0 < pid" "fd < maxfd s" "pid = cp ! fd" for fd pid
    proof (rule stream_keep [OF st(1)])
      show "Some e \<notin> set d" if e: "tab s ! fd = Some e" "started (forked type r w cp s) (pids s) = Some d" for e d
      proof -
        have d: "d = child_tab type r w cp (tab s)" using e(2) by (simp add: forked_def)
        have "pipe_no e \<noteq> None" "fd < length (tab s)" using st(1) e(1) by (auto simp: stream_def)
        moreover have "fd \<noteq> (if hd type = CHR ''r'' then w else r)" using st free(3,4) by auto
        ultimately show ?thesis unfolding d using child_without [OF s(2) e(1) _ _ rw] st s(1) by (simp add: streams_ok_def)
      qed
    qed (use st in \<open>auto simp: forked_def stream_def\<close>)
  qed (simp add: forked_def)
  moreover have "numbered (pipes s) (child_tab type r w cp (tab s))"
    by (rule child_numbered [OF _ rw]) (use ok in \<open>simp add: par_ok_def\<close>)
  moreover have "childpid (forked type r w cp s) = Some cp" using cp by (simp add: forked_def)
  ultimately show ?thesis using ok by (auto simp: par_ok_def forked_def less_Suc_eq)
qed

lemma parent_ok:
  assumes ok: "par_ok s" and cp: "childpid s = Some cp" and p: "pipe s = Some (r, w, s1)" and free: "r < maxfd s" "w < maxfd s"
    and type: "type = ''r'' \<or> type = ''w''"
    and res: "popen_parent type fdopen_ok r w (pids s1) cp (forked type r w cp s1) = (res, s')"
  shows "par_ok s'" and "\<And>fd. res = Some fd \<Longrightarrow> fd = (if type = ''r'' then r else w) \<and> childpid s' = Some (cp[fd := pids s])"
proof -
  note pk = pipe_ok [OF ok p]
  have m: "maxfd s1 = maxfd s" "childpid s1 = Some cp" "pids s1 = pids s" "length (tab s1) = length (tab s)" "length cp = maxfd s"
    using pk(8) cp ok by (simp_all add: par_ok_def streams_ok_def)
  have z: "cp ! r = 0" "cp ! w = 0" using not_stream_slot [OF ok p cp free] by auto
  have ok1: "par_ok s1" by (rule pipe_par_ok [OF ok p])
  let ?f = "forked type r w cp s1" and ?own = "if type = ''r'' then r else w" and ?other = "if type = ''r'' then w else r"
  have f: "par_ok ?f" by (rule forked_ok [OF ok1 m(2) pk(1-3)]) (use pk free z m in auto)
  define c where "c = ?f\<lparr>tab := (tab ?f)[?other := None]\<rparr>"
  have c: "par_ok c" unfolding c_def by (rule close_slot_ok [OF f]) (use pk(1,2) m z in \<open>auto simp: forked_def\<close>)
  have hd: "(hd type = CHR ''r'') = (type = ''r'')" using type by auto
  have r: "res = (if fdopen_ok then Some ?own else None)" "s' = (if fdopen_ok then c\<lparr>childpid := Some (cp[?own := pids s])\<rparr> else c\<lparr>perr := ENOMEM\<rparr>)"
    using res m(3) by (auto simp: popen_parent_def c_def hd Let_def split: if_splits)
  let ?e = "if type = ''r'' then PipeR (pipes s) else PipeW (pipes s)"
  have t1: "tab s1 ! r = Some (PipeR (pipes s))" "tab s1 ! w = Some (PipeW (pipes s))" using pk by simp_all
  have own: "tab s1 ! ?own = Some ?e" using t1 by simp
  have "Some ?e \<notin> set d" if "started ?f q = Some d" for q d
  proof (cases "q = pids s1")
    case True
    have "d = child_tab type r w cp (tab s1)" using that True by (simp add: forked_def)
    then show ?thesis
      using child_without [OF _ own _ _ pk(1-3), of type cp] ok1 pk hd m(4) by (auto simp: par_ok_def)
  next
    case False
    then have "numbered (pipes s) d" using that ok pk(8) by (auto simp: par_ok_def forked_def)
    then show ?thesis unfolding numbered_def by (metis less_irrefl pipe_no.simps(2,3))
  qed
  moreover have "child_tab type r w cp (tab s1) ! std_fd ?e = Some (peer ?e)"
  proof -
    have n: "\<not> (j < length cp \<and> 0 < cp ! j)" if "j < 2" for j
      using ok cp that by (auto simp: par_ok_def streams_ok_def stream_def)
    have l: "0 < length (tab s1)" "1 < length (tab s1)" "r < length (tab s1)" "w < length (tab s1)" using ok m(4) pk by (auto simp: par_ok_def)
    have "type \<noteq> ''r'' \<Longrightarrow> child_tab type r w cp (tab s1) ! 0 = tab s1 ! r"
      using pk(1,2) hd n [of 0] by (subst child_tab_nth [OF pk(1-3) l(3,4,1)]) auto
    moreover have "type = ''r'' \<Longrightarrow> child_tab type r w cp (tab s1) ! 1 = tab s1 ! w"
      using pk(1,2) hd n [of 1] by (subst child_tab_nth [OF pk(1-3) l(3,4,2)]) auto
    ultimately show ?thesis using t1 by simp
  qed
  ultimately have new: "stream c ?own (pids s)"
    using pk own ok1 m(3,4) by (auto simp: stream_def c_def forked_def child_tab_length par_ok_def nth_list_update)
  have fresh: "cp ! i < pids s" if "i < maxfd s" for i
    using ok cp that by (cases "cp ! i = 0") (auto simp: par_ok_def streams_ok_def stream_def)
  have st: "streams_ok c cp" using c m(2) by (simp add: par_ok_def c_def forked_def)
  have mc: "maxfd c = maxfd s" using m(1) by (simp add: c_def forked_def)
  have "streams_ok (c\<lparr>childpid := Some (cp[?own := pids s])\<rparr>) (cp[?own := pids s])"
    by (rule streams_set [OF st]) (use new fresh free mc in \<open>auto dest: fresh\<close>)
  then have "par_ok (c\<lparr>childpid := Some (cp[?own := pids s])\<rparr>)" using c by (simp add: par_ok_def)
  moreover have "par_ok (c\<lparr>perr := ENOMEM\<rparr>)" using c by (auto simp: par_ok_def streams_ok_def stream_def)
  ultimately show "par_ok s'" using r(2) by simp
  show "\<And>fd. res = Some fd \<Longrightarrow> fd = ?own \<and> childpid s' = Some (cp[fd := pids s])" using r by (auto split: if_splits)
qed


lemma perr_ok [simp]: "par_ok (s\<lparr>perr := x\<rparr>) = par_ok s"
  by (auto simp: par_ok_def streams_ok_def stream_def)

lemma init_ok: "par_ok s \<Longrightarrow> childpid s = None \<Longrightarrow> par_ok (s\<lparr>maxfd := n, childpid := x\<rparr>) = (\<forall>cp. x = Some cp \<longrightarrow> streams_ok (s\<lparr>maxfd := n, childpid := x\<rparr>) cp)"
  by (auto simp: par_ok_def)

lemma emfile_ok:
  assumes "par_ok s" and "pipe s = Some (r, w, s1)" and "childpid s = Some cp"
  shows "par_ok (s1\<lparr>tab := (tab s1)[r := None, w := None]\<rparr>)"
proof -
  note pk = pipe_ok [OF assms(1,2)]
  have "(tab s1)[r := None, w := None] = tab s"
    unfolding pk(8) using pk(3-7) by (simp add: list_update_swap [of r w]) (metis list_update_id list_update_swap)
  moreover have "par_ok (s\<lparr>tab := tab s, pipes := pipes s + 1\<rparr>)"
    by (rule tab_ok [OF assms(1)]) (use assms(1) in \<open>auto simp: par_ok_def numbered_def less_Suc_eq\<close>)
  ultimately show ?thesis by (simp add: pk(8))
qed

lemma popen_ok:
  assumes "par_ok s" and "popen limit calloc_ok fork_ok fdopen_ok type s = (res, s')"
  shows "par_ok s' \<and> (\<forall>fd. res = Some fd \<longrightarrow> (\<exists>cp. childpid s' = Some cp \<and> fd < maxfd s' \<and> cp ! fd = pids s \<and> 0 < cp ! fd))"
proof (cases "type = ''r'' \<or> type = ''w''")
  case False
  then show ?thesis using assms by (auto simp: popen_def)
next
  case type: True
  define s0 where "s0 = first_call limit calloc_ok s"
  have ok0: "par_ok s0" using assms(1) by (auto simp: s0_def first_call_def init_ok streams_ok_def)
  have p0: "pids s0 = pids s" by (simp add: s0_def first_call_def)
  show ?thesis
  proof (cases "childpid s0")
    case None
    then show ?thesis using assms(2) type ok0 by (auto simp: popen_def s0_def [symmetric])
  next
    case (Some cp)
    show ?thesis
    proof (cases "pipe s0")
      case None
      then show ?thesis using assms(2) type ok0 Some by (auto simp: popen_def s0_def [symmetric])
    next
      case p: (Some x)
      obtain r w s1 where x: "x = (r, w, s1)" by (cases x)
      note p = p [unfolded x]
      have m: "maxfd s1 = maxfd s0" "pids s1 = pids s0" using pipe_ok(8) [OF ok0 p] by simp_all
      show ?thesis
      proof (cases "maxfd s1 \<le> r \<or> maxfd s1 \<le> w \<or> \<not> fork_ok")
        case True
        then show ?thesis using assms(2) type Some p emfile_ok [OF ok0 p Some] pipe_par_ok [OF ok0 p]
          by (auto simp: popen_def s0_def [symmetric] split: if_splits)
      next
        case False
        have run: "popen_parent type fdopen_ok r w (pids s1) cp (forked type r w cp s1) = (res, s')"
          using assms(2) type Some p False by (auto simp: popen_def s0_def [symmetric] forked_def)
        have f: "r < maxfd s0" "w < maxfd s0" using False m by auto
        have "0 < pids s0" "length cp = maxfd s0" using ok0 Some by (auto simp: par_ok_def streams_ok_def)
        moreover have "maxfd s' = maxfd s0" using run m by (auto simp: popen_parent_def forked_def Let_def split: if_splits)
        moreover have "par_ok s'" by (rule parent_ok(1) [OF ok0 Some p f type run])
        moreover have "\<exists>cp. childpid s' = Some cp \<and> fd < maxfd s0 \<and> cp ! fd = pids s" if "res = Some fd" for fd
          using parent_ok(2) [OF ok0 Some p f type run that] f p0 calculation(2) by (intro exI [of _ "cp[fd := pids s0]"]) auto
        ultimately show ?thesis using p0 by auto
      qed
    qed
  qed
qed

lemma unwaited_ok:
  assumes "par_ok s" and "\<And>cp fd. childpid s = Some cp \<Longrightarrow> fd < maxfd s \<Longrightarrow> cp ! fd \<noteq> pid"
  shows "par_ok (s\<lparr>unwaited := remove1 pid (unwaited s)\<rparr>)"
proof -
  let ?s = "s\<lparr>unwaited := remove1 pid (unwaited s)\<rparr>"
  have "streams_ok ?s cp" if "childpid s = Some cp" for cp
  proof (rule streams_keep)
    show "streams_ok s cp" using assms(1) that by (simp add: par_ok_def)
    show "stream ?s fd q" if st: "stream s fd q" "0 < q" "fd < maxfd s" "q = cp ! fd" for fd q
      using st assms(2) [OF \<open>childpid s = Some cp\<close> st(3)] unfolding stream_def by (simp add: in_set_remove1)
  qed simp
  then show ?thesis using assms(1) notin_set_remove1 by (auto simp: par_ok_def dest: notin_set_remove1)
qed

lemma wait_loop_eintr: "wait_loop st (filter (\<lambda>e. e = EINTR) es) pid s = wait_loop st [] pid s"
  by (induction es) simp_all

lemma wait_loop_effect: "wait_loop st es pid s = (r, s') \<Longrightarrow> \<exists>x. s' = s\<lparr>perr := x\<rparr> \<or> s' = s\<lparr>unwaited := remove1 pid (unwaited s)\<rparr>"
  by (induction es) (auto split: if_splits)

lemma pclose_ok:
  assumes "par_ok s" and "pclose st fclose_ok waits fd s = (r, s')"
  shows "par_ok s'"
proof (cases "\<exists>cp. childpid s = Some cp \<and> fd < maxfd s \<and> cp ! fd \<noteq> 0")
  case False
  then show ?thesis using assms by (auto simp: pclose_def split: option.splits if_splits)
next
  case True
  then obtain cp where cp: "childpid s = Some cp" "fd < maxfd s" "cp ! fd \<noteq> 0" by blast
  have ss: "streams_ok s cp" using assms(1) cp by (simp add: par_ok_def)
  have f: "2 \<le> fd" using ss cp by (auto simp: streams_ok_def stream_def)
  define s1 where "s1 = s\<lparr>childpid := Some (cp[fd := 0])\<rparr>"
  have "streams_ok s1 (cp[fd := 0])" unfolding s1_def by (rule streams_set [OF ss cp(2)]) auto
  then have ok1: "par_ok s1" using assms(1) by (simp add: par_ok_def s1_def)
  define s2 where "s2 = s1\<lparr>tab := (tab s1)[fd := None]\<rparr>"
  have ok2: "par_ok s2" unfolding s2_def by (rule close_slot_ok [OF ok1 f]) (use ss in \<open>auto simp: s1_def streams_ok_def\<close>)
  have "s2 = s\<lparr>childpid := Some (cp[fd := 0]), tab := (tab s)[fd := None]\<rparr>" by (simp add: s1_def s2_def)
  then have "s' = s2 \<or> (\<exists>r. wait_loop st waits (cp ! fd) s2 = (r, s'))" using assms(2) cp by (auto simp: pclose_def Let_def split: if_splits)
  moreover have "par_ok (s2\<lparr>unwaited := remove1 (cp ! fd) (unwaited s2)\<rparr>)"
    by (rule unwaited_ok [OF ok2]) (use ss cp in \<open>auto simp: s2_def s1_def streams_ok_def nth_list_update split: if_splits\<close>)
  ultimately show ?thesis using ok2 wait_loop_effect by (metis perr_ok)
qed


subsection \<open>Runs\<close>

datatype pcall = Popen bool bool bool string | Pclose bool "perrno list" nat

fun pstep :: "nat \<Rightarrow> (nat \<Rightarrow> int) \<Rightarrow> pcall \<Rightarrow> par \<Rightarrow> par" where
  "pstep limit st (Popen c f d type) s = snd (popen limit c f d type s)"
| "pstep limit st (Pclose c ws fd) s = snd (pclose st c ws fd s)"

lemma pstep_ok: "par_ok s \<Longrightarrow> par_ok (pstep limit st x s)"
  by (cases x) (simp_all, (metis popen_ok pclose_ok prod.collapse)+)

lemma prun_ok: "par_ok s \<Longrightarrow> par_ok (fold (pstep limit st) xs s)"
  by (induction xs arbitrary: s) (simp_all add: pstep_ok)

definition has_stream :: "par \<Rightarrow> nat \<Rightarrow> nat \<Rightarrow> obj \<Rightarrow> fds \<Rightarrow> bool" where
  "has_stream s fd pid e c \<longleftrightarrow> (\<exists>cp. childpid s = Some cp \<and> fd < maxfd s \<and> cp ! fd = pid) \<and> 0 < pid \<and> tab s ! fd = Some e \<and> started s pid = Some c"

lemma has_stream_stream: "par_ok s \<Longrightarrow> has_stream s fd pid e c \<Longrightarrow> stream s fd pid"
  by (auto simp: par_ok_def streams_ok_def has_stream_def)

lemma forked_keeps: "has_stream s fd pid e c \<Longrightarrow> pid < pids s \<Longrightarrow> has_stream (forked type r w cp s) fd pid e c"
  by (auto simp: has_stream_def forked_def)

lemma parent_keeps:
  assumes "has_stream s fd pid e c" and "childpid s = Some cp" and "fd \<noteq> r" and "fd \<noteq> w"
  shows "has_stream (snd (popen_parent type fdopen_ok r w q cp s)) fd pid e c"
  using assms by (auto simp: has_stream_def popen_parent_def Let_def)

lemma popen_keeps:
  assumes ok: "par_ok s" and h: "has_stream s fd pid e c"
  shows "has_stream (snd (popen limit ca fo fd_ok type s)) fd pid e c"
proof -
  obtain cp where cp: "childpid s = Some cp" using h by (auto simp: has_stream_def)
  have first: "first_call limit ca s = s" using cp by (simp add: first_call_def)
  have perr: "has_stream (s\<lparr>perr := x\<rparr>) fd pid e c" for x using h by (simp add: has_stream_def)
  show ?thesis
  proof (cases "pipe s")
    case None
    then show ?thesis using h perr cp by (simp add: popen_def first Let_def)
  next
    case (Some x)
    obtain r w s1 where x: "x = (r, w, s1)" by (cases x)
    note pk = pipe_ok [OF ok Some [unfolded x]]
    have ne: "fd \<noteq> r" "fd \<noteq> w" using h pk(6,7) by (auto simp: has_stream_def)
    have h1: "has_stream s1 fd pid e c" using h ne by (simp add: pk(8) has_stream_def)
    have "pid < pids s1" using has_stream_stream [OF ok h] pk(8) by (simp add: stream_def)
    then have "has_stream (snd (popen_parent type fd_ok r w (pids s1) cp (forked type r w cp s1))) fd pid e c"
      by (intro parent_keeps forked_keeps h1) (use cp ne pk(8) in \<open>auto simp: forked_def\<close>)
    moreover have "has_stream (s1\<lparr>tab := (tab s1)[r := None, w := None], perr := EMFILE\<rparr>) fd pid e c" "has_stream (s1\<lparr>perr := EAGAIN\<rparr>) fd pid e c"
      using h1 ne by (simp_all add: has_stream_def)
    ultimately show ?thesis using perr cp Some by (auto simp: popen_def first Let_def x forked_def)
  qed
qed

lemma pclose_keeps:
  assumes "par_ok s" and "has_stream s fd pid e c" and "fd' \<noteq> fd"
  shows "has_stream (snd (pclose st fc ws fd' s)) fd pid e c"
proof -
  obtain cp where cp: "childpid s = Some cp" using assms(2) by (auto simp: has_stream_def)
  have w: "has_stream (snd (wait_loop st ws q t)) fd pid e c" if "has_stream t fd pid e c" for q t
    using that wait_loop_effect [of st ws q t] by (cases "wait_loop st ws q t") (auto simp: has_stream_def)
  have "has_stream (s\<lparr>childpid := Some (cp[fd' := 0]), tab := (tab s)[fd' := None]\<rparr>) fd pid e c"
    using assms(2,3) cp by (simp add: has_stream_def)
  then show ?thesis using assms(2) w cp by (simp add: pclose_def Let_def) (simp add: has_stream_def)
qed

lemma prun_keeps:
  "par_ok s \<Longrightarrow> has_stream s fd pid e c \<Longrightarrow> \<forall>b ws. Pclose b ws fd \<notin> set xs \<Longrightarrow> has_stream (fold (pstep limit st) xs s) fd pid e c"
proof (induction xs arbitrary: s)
  case (Cons x xs)
  have "has_stream (pstep limit st x s) fd pid e c"
    using Cons.prems by (cases x) (auto intro!: popen_keeps pclose_keeps)
  then show ?case using Cons pstep_ok by simp
qed simp

lemma popen_stream:
  assumes "par_ok s" and "popen limit ca fo fd_ok type s = (Some fd, s1)"
  shows "type \<in> {''r'', ''w''} \<and> (\<exists>e c. has_stream s1 fd (pids s) e c \<and> pipe_no e \<noteq> None \<and> c ! std_fd e = Some (peer e))"
proof -
  have ok: "par_ok s1" using popen_ok [OF assms] by simp
  obtain cp where cp: "childpid s1 = Some cp" "fd < maxfd s1" "cp ! fd = pids s" "0 < pids s" using popen_ok [OF assms] by auto
  have "stream s1 fd (pids s)" using ok cp by (auto simp: par_ok_def streams_ok_def)
  then show ?thesis using cp assms(2) by (auto simp: stream_def has_stream_def popen_def split: if_splits)
qed

lemma popen_type:
  assumes "par_ok s" and "popen limit ca fo fd_ok type s = (Some fd, s1)" and "tab s1 ! fd = Some e"
  shows "if type = ''r'' then \<exists>k. e = PipeR k else \<exists>k. e = PipeW k"
proof -
  let ?s0 = "first_call limit ca s"
  have t: "type = ''r'' \<or> type = ''w''" using popen_stream [OF assms(1,2)] by blast
  have ok: "par_ok ?s0" using assms(1) by (auto simp: first_call_def init_ok streams_ok_def)
  obtain cp r w s' where p: "pipe ?s0 = Some (r, w, s')" "popen_parent type fd_ok r w (pids s') cp (forked type r w cp s') = (Some fd, s1)"
    using assms(2) unfolding popen_def Let_def forked_def by (auto split: option.splits if_splits prod.splits)
  show ?thesis using p(2) pipe_ok [OF ok p(1)] t assms(3)
    by (auto simp: popen_parent_def Let_def forked_def split: if_splits)
qed

lemma wait_eintr: "set ws \<subseteq> {EINTR} \<Longrightarrow> wait_loop st ws pid s = wait_loop st [] pid s"
  by (induction ws) auto

subsection \<open>Properties\<close>

text \<open>
  C38. In any run of \<open>popen\<close> and \<open>pclose\<close> calls of a process that has descriptors 0 and 1 open, with calls that fail
  in any way, a stream that \<open>popen\<close> returned is one end of a pipe whose other end is the standard input or output of its
  own child; until it is closed no child that was ever started has that end, so the child sees the end of its input;
  and \<open>pclose\<close> of the stream, after whatever other calls and interrupted waits, closes it and returns the status of that child.
\<close>

theorem popen_pclose:
  assumes "par_ok s0" and "s = fold (pstep limit st) before s0" and "popen limit ca fo fd_ok type s = (Some fd, s1)"
    and "s2 = fold (pstep limit st) after s1" and "\<forall>b ws. Pclose b ws fd \<notin> set after" and "set waits \<subseteq> {EINTR}"
  shows "\<exists>e c. tab s2 ! fd = Some e \<and> (if type = ''r'' then \<exists>k. e = PipeR k else \<exists>k. e = PipeW k) \<and>
    started s2 (pids s) = Some c \<and> c ! (if type = ''r'' then 1 else 0) = Some (peer e) \<and>
    (\<forall>q d. started s2 q = Some d \<longrightarrow> Some e \<notin> set d) \<and>
    (case pclose st True waits fd s2 of (r, s3) \<Rightarrow> r = st (pids s) \<and> tab s3 ! fd = None)"
proof -
  have ok: "par_ok s" unfolding assms(2) by (rule prun_ok [OF assms(1)])
  have ok1: "par_ok s1" using popen_ok [OF ok assms(3)] by simp
  obtain e c where h1: "has_stream s1 fd (pids s) e c" and c: "c ! std_fd e = Some (peer e)" using popen_stream [OF ok assms(3)] by blast
  have e: "if type = ''r'' then \<exists>k. e = PipeR k else \<exists>k. e = PipeW k"
    using popen_type [OF ok assms(3)] h1 by (simp add: has_stream_def)
  have h2: "has_stream s2 fd (pids s) e c" unfolding assms(4) by (rule prun_keeps [OF ok1 h1 assms(5)])
  have ok2: "par_ok s2" unfolding assms(4) by (rule prun_ok [OF ok1])
  have st: "stream s2 fd (pids s)" by (rule has_stream_stream [OF ok2 h2])
  have "std_fd e = (if type = ''r'' then 1 else 0)" using e by (auto split: if_splits)
  moreover have "\<forall>q d. started s2 q = Some d \<longrightarrow> Some e \<notin> set d" using st h2 by (simp add: stream_def has_stream_def)
  moreover have "case pclose st True waits fd s2 of (r, s3) \<Rightarrow> r = st (pids s) \<and> tab s3 ! fd = None"
    using h2 st wait_eintr [OF assms(6)] by (auto simp: has_stream_def stream_def pclose_def Let_def)
  ultimately show ?thesis using h2 c e by (auto simp: has_stream_def)
qed

definition shell :: "bool \<Rightarrow> par" where
  "shell stdin = \<lparr>tab = [if stdin then Some (File 0) else None, Some (File 1), Some (File 2), None, None, None, None, None], childpid = None, maxfd = 0,
     pipes = 0, pids = 1, started = \<lambda>_. None, unwaited = [], perr = EINVAL\<rparr>"

lemma shell_ok: "par_ok (shell True)"
proof -
  have "once (tab (shell True))" unfolding once_def
  proof (intro allI impI, elim conjE)
    fix i j e assume a: "i < length (tab (shell True))" "tab (shell True) ! i = Some e" "pipe_no e \<noteq> None"
    have "\<forall>x \<in> set (tab (shell True)). x = None \<or> (\<exists>n. x = Some (File n))" by (auto simp: shell_def)
    then show "i = j" using a by (metis nth_mem option.distinct(1) option.inject pipe_no.simps(1))
  qed
  moreover have "numbered 0 (tab (shell True))" by (auto simp: numbered_def shell_def)
  ultimately show ?thesis by (simp add: par_ok_def) (simp add: shell_def)
qed

theorem popen_pclose_witness:
  "\<exists>fd s1. popen 8 True True True ''r'' (shell True) = (Some fd, s1) \<and>
    (case pclose (\<lambda>pid. int pid + 255) True [EINTR] fd (fold (pstep 8 (\<lambda>pid. int pid + 255)) [Popen True True True ''w''] s1) of
       (r, s3) \<Rightarrow> r = 256 \<and> tab s3 ! fd = None)"
proof -
  obtain s1 where s: "popen 8 True True True ''r'' (shell True) = (Some 3, s1)"
    by (simp add: popen_def first_call_def shell_def pipe_def first_free_def popen_parent_def Let_def)
  let ?st = "\<lambda>pid. int pid + 255"
  have b: "shell True = fold (pstep 8 ?st) [] (shell True)" by simp
  have p: "case pclose ?st True [EINTR] 3 (fold (pstep 8 ?st) [Popen True True True ''w''] s1) of (r, s3) \<Rightarrow> r = ?st (pids (shell True)) \<and> tab s3 ! 3 = None"
    using popen_pclose [OF shell_ok b s refl, of "[Popen True True True ''w'']" "[EINTR]"] by (simp only: case_prod_beta) auto
  have "pids (shell True) = 1" by (simp add: shell_def)
  then show ?thesis using s p by auto
qed

text \<open>
  With descriptor 0 closed in the caller, the stream of the first \<open>popen\<close> gets it, and the child of a second one for
  writing closes its own standard input.
\<close>

lemma popen_closes_stdin:
  "let (fd, s) = popen 8 True True True ''r'' (shell False); (fd', s') = popen 8 True True True ''w'' s in
   fd = Some 0 \<and> fd' \<noteq> None \<and> (\<exists>c. started s' 2 = Some c \<and> c ! 0 = None)"
  by (simp add: popen_def first_call_def shell_def pipe_def first_free_def popen_parent_def Let_def child_tab_def close_streams_def upt_rec numeral_eq_Suc)

end
