(* ===== verification/FileWalk.thy ===== *)
theory FileWalk
  imports Main
begin

section \<open>Walking a file hierarchy (filedir/ftw8.c, lib/pathalloc.c)\<close>

text \<open>
  The file system is seen through the two calls that the walk makes, \<open>lstat\<close> and \<open>opendir\<close>, which
  take the string in the buffer \<open>fullpath\<close>; \<open>readdir\<close> delivers the names of the directory in order.
  The buffer has \<open>pathlen\<close> bytes and a write beyond them is an error value. The user's
  function threads a state of its own and may end the process. Recursion is bounded by fuel.
\<close>

datatype stat = SReg | SBlk | SChr | SFifo | SLnk | SSock | SDir | SNone
datatype ftw = FTW_F | FTW_D | FTW_DNR | FTW_NS
datatype wstop = ErrSys | ErrDump | Overrun | OutOfFuel

record fs =
  lstat_of :: "string \<Rightarrow> stat option"
  dir_of :: "string \<Rightarrow> string list option"

record 'u walk =
  fullpath :: string
  pathlen :: nat
  reallocs :: "bool list"
  user :: 'u

type_synonym 'u walk_func = "string \<Rightarrow> stat \<Rightarrow> ftw \<Rightarrow> 'u \<Rightarrow> (wstop + int) \<times> 'u"

definition NAME_MAX :: nat where "NAME_MAX = 255"

definition call_func :: "'u walk_func \<Rightarrow> stat \<Rightarrow> ftw \<Rightarrow> 'u walk \<Rightarrow> (wstop + int) \<times> 'u walk" where
  "call_func func st ty w = (case func (fullpath w) st ty (user w) of (r, u) \<Rightarrow> (r, w\<lparr>user := u\<rparr>))"

text \<open>\<open>realloc\<close> to the new \<open>pathlen\<close>; the list tells which calls fail.\<close>

definition resize :: "nat \<Rightarrow> 'u walk \<Rightarrow> 'u walk option" where
  "resize n w =
     (case reallocs w of
        False # bs \<Rightarrow> None
      | bs \<Rightarrow> Some (w\<lparr>pathlen := n, reallocs := tl bs\<rparr>))"

text \<open>\<open>strcpy (&fullpath[n], s)\<close>.\<close>

definition put :: "nat \<Rightarrow> string \<Rightarrow> 'u walk \<Rightarrow> 'u walk option" where
  "put n s w = (if pathlen w < n + length s + 1 then None else Some (w\<lparr>fullpath := take n (fullpath w) @ s\<rparr>))"

text \<open>The loop over the names of the directory; \<open>rec\<close> is the recursive call.\<close>

fun dir_loop :: "('u walk \<Rightarrow> (wstop + int) \<times> 'u walk) \<Rightarrow> nat \<Rightarrow> string list \<Rightarrow> int \<Rightarrow> 'u walk \<Rightarrow> (wstop + int) \<times> 'u walk" where
  "dir_loop rec n [] ret w = (Inr ret, w)"
| "dir_loop rec n (d # ds) ret w =
     (if d = ''.'' \<or> d = ''..'' then dir_loop rec n ds ret w
      else case put n d w of
        None \<Rightarrow> (Inl Overrun, w)
      | Some w \<Rightarrow>
          (case rec w of
             (Inl e, w) \<Rightarrow> (Inl e, w)
           | (Inr ret, w) \<Rightarrow> if ret \<noteq> 0 then (Inr ret, w) else dir_loop rec n ds ret w))"

definition expand :: "'u walk \<Rightarrow> 'u walk option" where
  "expand w = (if pathlen w < length (fullpath w) + NAME_MAX + 2 then resize (pathlen w * 2) w else Some w)"

primrec dopath :: "nat \<Rightarrow> fs \<Rightarrow> 'u walk_func \<Rightarrow> 'u walk \<Rightarrow> (wstop + int) \<times> 'u walk" where
  "dopath 0 fs func w = (Inl OutOfFuel, w)"
| "dopath (Suc k) fs func w =
     (case lstat_of fs (fullpath w) of
        None \<Rightarrow> call_func func SNone FTW_NS w
      | Some st \<Rightarrow>
          if st \<noteq> SDir then call_func func st FTW_F w
          else (case call_func func st FTW_D w of
              (Inl e, w) \<Rightarrow> (Inl e, w)
            | (Inr ret, w) \<Rightarrow>
                if ret \<noteq> 0 then (Inr ret, w)
                else (case expand w of
                    None \<Rightarrow> (Inl ErrSys, w)
                  | Some w \<Rightarrow>
                      let n = length (fullpath w) in
                      (case put n ''/'' w of
                         None \<Rightarrow> (Inl Overrun, w)
                       | Some w \<Rightarrow>
                           (case dir_of fs (fullpath w) of
                              None \<Rightarrow> call_func func st FTW_DNR w
                            | Some names \<Rightarrow>
                                (case dir_loop (dopath k fs func) (n + 1) names ret w of
                                   (Inl e, w) \<Rightarrow> (Inl e, w)
                                 | (Inr ret, w) \<Rightarrow> (Inr ret, w\<lparr>fullpath := take n (fullpath w)\<rparr>)))))))"

text \<open>
  The length that \<open>path_alloc\<close> chooses from its static variable, the versions of the standards and the answer
  of \<open>pathconf\<close> with whether it set \<open>errno\<close>; \<open>None\<close> is \<open>err_sys\<close>.
\<close>

definition path_alloc :: "int \<Rightarrow> int \<Rightarrow> int \<Rightarrow> int \<times> bool \<Rightarrow> int option" where
  "path_alloc pathmax posix_version xsi_version = (\<lambda>(conf, errno_set).
     case (if pathmax = 0 then (if conf < 0 then (if errno_set then None else Some 1024) else Some (conf + 1)) else Some pathmax) of
       None \<Rightarrow> None
     | Some pathmax \<Rightarrow> Some (if posix_version < 200112 \<and> xsi_version < 4 then pathmax + 1 else pathmax))"

text \<open>\<open>myftw\<close>, where \<open>path_alloc\<close> gave a buffer of \<open>bufsz\<close> bytes.\<close>

definition myftw :: "nat \<Rightarrow> fs \<Rightarrow> 'u walk_func \<Rightarrow> nat \<Rightarrow> bool list \<Rightarrow> string \<Rightarrow> 'u \<Rightarrow> (wstop + int) \<times> 'u walk" where
  "myftw fuel fs func bufsz bs pathname u =
     (let w = \<lparr>fullpath = [], pathlen = bufsz, reallocs = bs, user = u\<rparr> in
      case (if bufsz \<le> length pathname then resize (length pathname * 2) w else Some w) of
        None \<Rightarrow> (Inl ErrSys, w)
      | Some w \<Rightarrow> (case put 0 pathname w of None \<Rightarrow> (Inl Overrun, w) | Some w \<Rightarrow> dopath fuel fs func w))"

subsection \<open>The function that counts\<close>

record counts =
  nreg :: nat
  ndir :: nat
  nblk :: nat
  nchr :: nat
  nfifo :: nat
  nslink :: nat
  nsock :: nat
  warnings :: nat

definition myfunc :: "counts walk_func" where
  "myfunc pathname st ty c =
     (case ty of
        FTW_F \<Rightarrow>
          (case st of
             SReg \<Rightarrow> (Inr 0, c\<lparr>nreg := nreg c + 1\<rparr>)
           | SBlk \<Rightarrow> (Inr 0, c\<lparr>nblk := nblk c + 1\<rparr>)
           | SChr \<Rightarrow> (Inr 0, c\<lparr>nchr := nchr c + 1\<rparr>)
           | SFifo \<Rightarrow> (Inr 0, c\<lparr>nfifo := nfifo c + 1\<rparr>)
           | SLnk \<Rightarrow> (Inr 0, c\<lparr>nslink := nslink c + 1\<rparr>)
           | SSock \<Rightarrow> (Inr 0, c\<lparr>nsock := nsock c + 1\<rparr>)
           | SDir \<Rightarrow> (Inl ErrDump, c)
           | SNone \<Rightarrow> (Inr 0, c))
      | FTW_D \<Rightarrow> (Inr 0, c\<lparr>ndir := ndir c + 1\<rparr>)
      | FTW_DNR \<Rightarrow> (Inr 0, c\<lparr>warnings := warnings c + 1\<rparr>)
      | FTW_NS \<Rightarrow> (Inr 0, c\<lparr>warnings := warnings c + 1\<rparr>))"

subsection \<open>The hierarchy as a tree\<close>

datatype ftree = Unknown | Leaf stat | Unreadable | Dir "(string \<times> ftree) list"

definition dot :: "string \<Rightarrow> bool" where
  "dot d \<longleftrightarrow> d = ''.'' \<or> d = ''..''"

text \<open>The calls of the user's function, in the order of the walk. The path of a directory that cannot be read has a slash at its end.\<close>

fun visits :: "string \<Rightarrow> ftree \<Rightarrow> (string \<times> stat \<times> ftw) list" where
  "visits p Unknown = [(p, SNone, FTW_NS)]"
| "visits p (Leaf st) = [(p, st, FTW_F)]"
| "visits p Unreadable = [(p, SDir, FTW_D), (p @ ''/'', SDir, FTW_DNR)]"
| "visits p (Dir es) = (p, SDir, FTW_D) # concat (map (\<lambda>(n, t). if dot n then [] else visits (p @ ''/'' @ n) t) es)"

fun call_all :: "'u walk_func \<Rightarrow> (string \<times> stat \<times> ftw) list \<Rightarrow> 'u \<Rightarrow> (wstop + int) \<times> 'u" where
  "call_all func [] u = (Inr 0, u)"
| "call_all func ((p, st, ty) # vs) u =
     (case func p st ty u of
        (Inl e, u) \<Rightarrow> (Inl e, u)
      | (Inr r, u) \<Rightarrow> if r \<noteq> 0 then (Inr r, u) else call_all func vs u)"

text \<open>What the file system shows at a path is the tree.\<close>

fun shows_tree :: "fs \<Rightarrow> string \<Rightarrow> ftree \<Rightarrow> bool" where
  "shows_tree fs p Unknown \<longleftrightarrow> lstat_of fs p = None"
| "shows_tree fs p (Leaf st) \<longleftrightarrow> lstat_of fs p = Some st \<and> st \<noteq> SDir"
| "shows_tree fs p Unreadable \<longleftrightarrow> lstat_of fs p = Some SDir \<and> dir_of fs (p @ ''/'') = None"
| "shows_tree fs p (Dir es) \<longleftrightarrow> lstat_of fs p = Some SDir \<and> dir_of fs (p @ ''/'') = Some (map fst es) \<and>
     (\<forall>(n, t) \<in> set es. length n \<le> NAME_MAX \<and> (dot n \<or> shows_tree fs (p @ ''/'' @ n) t))"

fun depth :: "ftree \<Rightarrow> nat" where
  "depth (Dir es) = Suc (Max (insert 0 (set (map (depth \<circ> snd) es))))"
| "depth _ = 0"

subsection \<open>The walk makes the calls\<close>

lemma call_all_append:
  "call_all func (vs @ vs') u = (case call_all func vs u of (Inl e, u) \<Rightarrow> (Inl e, u) | (Inr r, u) \<Rightarrow> if r \<noteq> 0 then (Inr r, u) else call_all func vs' u)"
  by (induction func vs u rule: call_all.induct) (auto split: prod.splits sum.splits)

text \<open>The buffer: it holds \<open>p\<close>, and the next name fits.\<close>

definition room :: "string \<Rightarrow> 'u walk \<Rightarrow> bool" where
  "room p w \<longleftrightarrow> take (length p) (fullpath w) = p \<and> length p < pathlen w \<and> NAME_MAX + 2 \<le> pathlen w \<and> False \<notin> set (reallocs w)"

text \<open>What a part of the walk from \<open>w\<close> does when it is to make the calls \<open>vs\<close>.\<close>

definition makes_calls :: "'u walk_func \<Rightarrow> (string \<times> stat \<times> ftw) list \<Rightarrow> string \<Rightarrow> 'u walk \<Rightarrow> (wstop + int) \<times> 'u walk \<Rightarrow> bool" where
  "makes_calls func vs p w = (\<lambda>(r, w'). (r, user w') = call_all func vs (user w) \<and> ((\<exists>x. r = Inr x) \<longrightarrow> room p w' \<and> pathlen w \<le> pathlen w'))"

lemma makes_calls_one: "room p w \<Longrightarrow> fullpath w = q \<Longrightarrow> makes_calls func [(q, st, ty)] p w (call_func func st ty w)"
  by (auto simp: makes_calls_def call_func_def room_def split: prod.splits sum.splits)

lemma room_prefix: "room (p @ q) w \<Longrightarrow> room p w"
proof -
  assume r: "room (p @ q) w"
  have "take (length p) (take (length (p @ q)) (fullpath w)) = take (length p) (p @ q)" using r by (simp add: room_def)
  then show ?thesis using r by (simp add: room_def)
qed

lemma dir_loop_calls:
  assumes "\<And>n t w. (n, t) \<in> set es \<Longrightarrow> \<not> dot n \<Longrightarrow> room (p @ ''/'' @ n) w \<Longrightarrow> fullpath w = p @ ''/'' @ n \<Longrightarrow>
      makes_calls func (visits (p @ ''/'' @ n) t) (p @ ''/'' @ n) w (rec w)"
    and "room (p @ ''/'') w" and "length p + NAME_MAX + 2 \<le> pathlen w" and "\<forall>(n, t) \<in> set es. length n \<le> NAME_MAX"
  shows "makes_calls func (concat (map (\<lambda>(n, t). if dot n then [] else visits (p @ ''/'' @ n) t) es)) (p @ ''/'') w
     (dir_loop rec (length p + 1) (map fst es) 0 w)"
  using assms
proof (induction es arbitrary: w)
  case Nil
  then show ?case by (simp add: makes_calls_def)
next
  case (Cons e es)
  obtain n t where e: "e = (n, t)" by (cases e)
  show ?case
  proof (cases "dot n")
    case True
    have "makes_calls func (concat (map (\<lambda>(n, t). if dot n then [] else visits (p @ ''/'' @ n) t) es)) (p @ ''/'') w
        (dir_loop rec (length p + 1) (map fst es) 0 w)"
      by (rule Cons.IH) (use Cons.prems in auto)
    then show ?thesis using True by (auto simp: e dot_def)
  next
    case False
    let ?q = "p @ ''/'' @ n"
    let ?w = "w\<lparr>fullpath := ?q\<rparr>"
    have l: "length n \<le> NAME_MAX" using Cons.prems(4) e by simp
    have tk: "take (length p + 1) (fullpath w) = p @ ''/''" using Cons.prems(2) by (simp add: room_def)
    have put: "put (length p + 1) n w = Some ?w" using l Cons.prems(3) tk by (simp add: put_def)
    have room: "room ?q ?w" using l Cons.prems(2,3) by (simp add: room_def)
    obtain r w1 where r: "rec ?w = (r, w1)" by fastforce
    have c: "makes_calls func (visits ?q t) ?q ?w (r, w1)" using Cons.prems(1) [of n t ?w] e False room r by simp
    have ca: "call_all func (visits ?q t) (user w) = (r, user w1)" using c by (simp add: makes_calls_def)
    have d: "\<not> (n = ''.'' \<or> n = ''..'')" using \<open>\<not> dot n\<close> by (simp add: dot_def)
    show ?thesis
    proof (cases "r = Inr 0")
      case False
      have "dir_loop rec (length p + 1) (map fst (e # es)) 0 w = (r, w1)" using False put r d by (auto simp: e split: sum.splits)
      moreover have "call_all func (concat (map (\<lambda>(n, t). if dot n then [] else visits (p @ ''/'' @ n) t) (e # es))) (user w) = (r, user w1)"
        using False \<open>\<not> dot n\<close> ca by (auto simp: e call_all_append split: sum.splits)
      moreover have "\<exists>x. r = Inr x \<Longrightarrow> room (p @ ''/'') w1 \<and> pathlen w \<le> pathlen w1"
        using c room_prefix [of "p @ ''/''" n w1] by (auto simp: makes_calls_def)
      ultimately show ?thesis by (simp add: makes_calls_def)
    next
      case True
      then have r1: "room ?q w1" "pathlen w \<le> pathlen w1" using c by (auto simp: makes_calls_def)
      have "room (p @ ''/'') w1" using r1(1) room_prefix [of "p @ ''/''" n w1] by simp
      then have "makes_calls func (concat (map (\<lambda>(n, t). if dot n then [] else visits (p @ ''/'' @ n) t) es)) (p @ ''/'') w1
          (dir_loop rec (length p + 1) (map fst es) 0 w1)"
        by (intro Cons.IH) (use Cons.prems r1(2) in auto)
      moreover have "dir_loop rec (length p + 1) (map fst (e # es)) 0 w = dir_loop rec (length p + 1) (map fst es) 0 w1"
        using True put r d by (simp add: e)
      moreover have "call_all func (concat (map (\<lambda>(n, t). if dot n then [] else visits (p @ ''/'' @ n) t) (e # es))) (user w) =
          call_all func (concat (map (\<lambda>(n, t). if dot n then [] else visits (p @ ''/'' @ n) t) es)) (user w1)"
        using True \<open>\<not> dot n\<close> ca by (simp add: e call_all_append)
      ultimately show ?thesis using r1(2) by (auto simp: makes_calls_def)
    qed
  qed
qed

lemma expand_room:
  assumes "room p w" and "fullpath w = p"
  obtains w' where "expand w = Some w'" "user w' = user w" "fullpath w' = p" "room p w'" "pathlen w \<le> pathlen w'" "length p + NAME_MAX + 2 \<le> pathlen w'"
proof (cases "pathlen w < length p + NAME_MAX + 2")
  case True
  then show ?thesis using assms that by (cases "reallocs w") (auto simp: expand_def resize_def room_def split: bool.splits)
next
  case False
  then show ?thesis using assms that by (simp add: expand_def)
qed

lemma depth_entry: "(n, t) \<in> set es \<Longrightarrow> depth (Dir es) < Suc k \<Longrightarrow> depth t < k"
  by auto

lemma room_erase: "room (p @ q) w \<Longrightarrow> room p (w\<lparr>fullpath := take (length p) (fullpath w)\<rparr>)"
  using room_prefix [of p q w] by (simp add: room_def)

lemma dopath_calls:
  "shows_tree fs p T \<Longrightarrow> depth T < k \<Longrightarrow> room p w \<Longrightarrow> fullpath w = p \<Longrightarrow> makes_calls func (visits p T) p w (dopath k fs func w)"
proof (induction k arbitrary: p T w)
  case (Suc k)
  have one: "makes_calls func [(p, st, ty)] p w (call_func func st ty w)" for st ty by (rule makes_calls_one [OF Suc.prems(3,4)])
  show ?case
  proof (cases "T = Unknown \<or> (\<exists>st. T = Leaf st)")
    case True
    then show ?thesis using Suc.prems(1,4) one by auto
  next
    case False
    then have st: "lstat_of fs (fullpath w) = Some SDir" using Suc.prems(1,4) by (cases T) auto
    define rest where "rest = (case T of Dir es \<Rightarrow> concat (map (\<lambda>(n, t). if dot n then [] else visits (p @ ''/'' @ n) t) es) | _ \<Rightarrow> [(p @ ''/'', SDir, FTW_DNR)])"
    have v: "visits p T = (p, SDir, FTW_D) # rest" using False by (cases T) (auto simp: rest_def)
    obtain r w1 where r: "call_func func SDir FTW_D w = (r, w1)" by fastforce
    have w1: "func p SDir FTW_D (user w) = (r, user w1)" "room p w1" "fullpath w1 = p" "pathlen w1 = pathlen w"
      using r Suc.prems(3,4) by (auto simp: call_func_def room_def split: prod.splits)
    show ?thesis
    proof (cases "r = Inr 0")
      case False
      then show ?thesis using st r w1 by (auto simp: v makes_calls_def split: sum.splits)
    next
      case True
      obtain w2 where w2: "expand w1 = Some w2" "user w2 = user w1" "fullpath w2 = p" "room p w2" "pathlen w1 \<le> pathlen w2" "length p + NAME_MAX + 2 \<le> pathlen w2"
        by (rule expand_room [OF w1(2,3)])
      let ?w3 = "w2\<lparr>fullpath := p @ ''/''\<rparr>"
      have put: "put (length p) ''/'' w2 = Some ?w3" using w2(3,6) by (simp add: put_def NAME_MAX_def)
      have r3: "room (p @ ''/'') ?w3" using w2(4,6) by (simp add: room_def NAME_MAX_def)
      have "makes_calls func rest p ?w3
          (case dir_of fs (p @ ''/'') of None \<Rightarrow> call_func func SDir FTW_DNR ?w3
           | Some names \<Rightarrow> (case dir_loop (dopath k fs func) (length p + 1) names 0 ?w3 of
               (Inl e, w) \<Rightarrow> (Inl e, w) | (Inr ret, w) \<Rightarrow> (Inr ret, w\<lparr>fullpath := take (length p) (fullpath w)\<rparr>)))"
      proof (cases "\<exists>es. T = Dir es")
        case False
        then have "T = Unreadable" using \<open>\<not> (T = Unknown \<or> (\<exists>st. T = Leaf st))\<close> by (cases T) auto
        then show ?thesis using Suc.prems(1) makes_calls_one [OF room_prefix [OF r3], of "p @ ''/''" func SDir FTW_DNR] by (simp add: rest_def)
      next
        case True
        then obtain es where es: "T = Dir es" by blast
        have sh: "dir_of fs (p @ ''/'') = Some (map fst es)" "\<forall>(n, t) \<in> set es. length n \<le> NAME_MAX \<and> (dot n \<or> shows_tree fs (p @ ''/'' @ n) t)"
          using Suc.prems(1) by (simp_all add: es)
        have "makes_calls func rest (p @ ''/'') ?w3 (dir_loop (dopath k fs func) (length p + 1) (map fst es) 0 ?w3)"
          unfolding rest_def es ftree.case
        proof (rule dir_loop_calls [OF _ r3])
          fix n t and w :: "'a walk"
          assume a: "(n, t) \<in> set es" "\<not> dot n" "room (p @ ''/'' @ n) w" "fullpath w = p @ ''/'' @ n"
          show "makes_calls func (visits (p @ ''/'' @ n) t) (p @ ''/'' @ n) w (dopath k fs func w)"
            by (rule Suc.IH [OF _ _ a(3,4)]) (use sh(2) a(1,2) depth_entry [OF a(1)] Suc.prems(2) es in auto)
        qed (use w2(6) sh(2) in auto)
        then show ?thesis using sh(1) room_erase [of p "''/''"] by (auto simp: makes_calls_def split: prod.splits sum.splits)
      qed
      then show ?thesis using st r w1 w2 put True by (auto simp: v makes_calls_def Let_def split: prod.splits)
    qed
  qed
qed simp

subsection \<open>The counts\<close>

text \<open>The number of calls of one kind.\<close>

definition tally :: "stat \<Rightarrow> ftw \<Rightarrow> (string \<times> stat \<times> ftw) list \<Rightarrow> nat" where
  "tally st ty vs = length (filter (\<lambda>(p, s, t). s = st \<and> t = ty) vs)"

definition add_counts :: "counts \<Rightarrow> (string \<times> stat \<times> ftw) list \<Rightarrow> counts" where
  "add_counts c vs = \<lparr>nreg = nreg c + tally SReg FTW_F vs, ndir = ndir c + length (filter (\<lambda>(p, s, t). t = FTW_D) vs),
     nblk = nblk c + tally SBlk FTW_F vs, nchr = nchr c + tally SChr FTW_F vs, nfifo = nfifo c + tally SFifo FTW_F vs,
     nslink = nslink c + tally SLnk FTW_F vs, nsock = nsock c + tally SSock FTW_F vs,
     warnings = warnings c + length (filter (\<lambda>(p, s, t). t = FTW_DNR \<or> t = FTW_NS) vs)\<rparr>"

lemma myfunc_all: "\<forall>(p, st, ty) \<in> set vs. ty = FTW_F \<longrightarrow> st \<noteq> SDir \<Longrightarrow> call_all myfunc vs c = (Inr 0, add_counts c vs)"
proof (induction vs arbitrary: c)
  case Nil
  then show ?case by (simp add: add_counts_def tally_def)
next
  case (Cons v vs)
  obtain p st ty where v: "v = (p, st, ty)" by (cases v)
  have "myfunc p st ty c = (Inr 0, add_counts c [v])"
    using Cons.prems by (auto simp: v myfunc_def add_counts_def tally_def split: ftw.splits stat.splits)
  moreover have "add_counts (add_counts c [v]) vs = add_counts c (v # vs)" by (simp add: add_counts_def tally_def)
  ultimately show ?case using Cons by (simp add: v)
qed

lemma visits_kind: "shows_tree fs p T \<Longrightarrow> (q, st, FTW_F) \<in> set (visits p T) \<Longrightarrow> st \<noteq> SDir"
proof (induction p T rule: visits.induct)
  case (4 p es)
  then obtain n t where "(n, t) \<in> set es" "\<not> dot n" "(q, st, FTW_F) \<in> set (visits (p @ ''/'' @ n) t)" by (auto split: if_splits)
  then show ?case using 4 by fastforce
qed auto

subsection \<open>The property\<close>

lemma myftw_start:
  assumes "NAME_MAX + 2 \<le> bufsz" and "False \<notin> set bs"
  shows "\<exists>w. user w = x \<and> room p w \<and> fullpath w = p \<and> myftw fuel fs f bufsz bs p x = dopath fuel fs f w"
proof (cases "bufsz \<le> length p")
  case True
  define w where "w = \<lparr>fullpath = p, pathlen = length p * 2, reallocs = tl bs, user = x\<rparr>"
  have p: "0 < length p" "NAME_MAX + 2 \<le> length p * 2" using True assms(1) by (cases p; simp add: NAME_MAX_def)+
  have "myftw fuel fs f bufsz bs p x = dopath fuel fs f w"
    using True assms(2) p by (cases bs) (auto simp: myftw_def resize_def put_def w_def split: bool.splits)
  moreover have "room p w" using p assms(2) by (cases bs) (auto simp: room_def w_def)
  ultimately show ?thesis by (intro exI [of _ w]) (simp add: w_def)
next
  case False
  then show ?thesis using assms
    by (intro exI [of _ "\<lparr>fullpath = p, pathlen = bufsz, reallocs = bs, user = x\<rparr>"]) (simp add: myftw_def put_def room_def)
qed

text \<open>
  C39. The walk of a hierarchy of any shape: \<open>myftw\<close> makes exactly the calls of the preorder of the tree, each with the
  full path of its file, stops at the first call that does not return 0 and returns its value, never writes
  past the path buffer although it is doubled once per level at most, and with \<open>myfunc\<close> the counters
  are the numbers of files of each kind.
\<close>

theorem walk_visits_tree:
  assumes "shows_tree fs p T" and "depth T < fuel" and "NAME_MAX + 2 \<le> bufsz" and "False \<notin> set bs"
  shows "(\<exists>r w. myftw fuel fs func bufsz bs p u = (r, w) \<and> (r, user w) = call_all func (visits p T) u) \<and>
    (\<exists>w. myftw fuel fs myfunc bufsz bs p c = (Inr 0, w) \<and> user w = add_counts c (visits p T))"
proof -
  obtain w where w: "user w = u" "room p w" "fullpath w = p" "myftw fuel fs func bufsz bs p u = dopath fuel fs func w"
    using myftw_start [OF assms(3,4), where x = u and f = func and p = p and fs = fs and fuel = fuel] by (elim exE conjE)
  obtain v where v: "user v = c" "room p v" "fullpath v = p" "myftw fuel fs myfunc bufsz bs p c = dopath fuel fs myfunc v"
    using myftw_start [OF assms(3,4), where x = c and f = myfunc and p = p and fs = fs and fuel = fuel] by (elim exE conjE)
  have "\<forall>(q, st, ty) \<in> set (visits p T). ty = FTW_F \<longrightarrow> st \<noteq> SDir" using visits_kind [OF assms(1)] by blast
  then have "call_all myfunc (visits p T) c = (Inr 0, add_counts c (visits p T))" by (rule myfunc_all)
  then show ?thesis
    using dopath_calls [OF assms(1,2) w(2,3), of func] dopath_calls [OF assms(1,2) v(2,3), of myfunc] w v
    by (auto simp: makes_calls_def split: prod.splits)
qed

definition tiny :: fs where
  "tiny = \<lparr>lstat_of = map_of [(''d'', SDir), (''d/a'', SReg), (''d/s'', SDir), (''d/s/l'', SLnk)],
     dir_of = map_of [(''d/'', [''.'', ''a'', ''..'', ''s'', ''x'']), (''d/s/'', [''l''])]\<rparr>"

theorem walk_visits_tree_witness:
  "\<exists>w. myftw 3 tiny myfunc 257 [] ''d'' \<lparr>nreg = 0, ndir = 0, nblk = 0, nchr = 0, nfifo = 0, nslink = 0, nsock = 0, warnings = 0\<rparr> = (Inr 0, w) \<and>
     nreg (user w) = 1 \<and> ndir (user w) = 2 \<and> nslink (user w) = 1 \<and> warnings (user w) = 1"
proof -
  let ?T = "Dir [(''.'', Unknown), (''a'', Leaf SReg), (''..'', Unknown), (''s'', Dir [(''l'', Leaf SLnk)]), (''x'', Unknown)]"
  let ?c = "\<lparr>nreg = 0, ndir = 0, nblk = 0, nchr = 0, nfifo = 0, nslink = 0, nsock = 0, warnings = 0\<rparr>"
  have sh: "shows_tree tiny ''d'' ?T" by (simp add: tiny_def dot_def NAME_MAX_def)
  have d: "depth ?T < 3" by simp
  have "NAME_MAX + 2 \<le> 257" "False \<notin> set []" by (simp_all add: NAME_MAX_def)
  then obtain w where "myftw 3 tiny myfunc 257 [] ''d'' ?c = (Inr 0, w)" "user w = add_counts ?c (visits ''d'' ?T)"
    using walk_visits_tree [OF sh d, where func = myfunc and u = ?c and c = ?c] by blast
  moreover have "add_counts ?c (visits ''d'' ?T) = ?c\<lparr>nreg := 1, ndir := 2, nslink := 1, warnings := 1\<rparr>"
    by (simp add: add_counts_def tally_def dot_def)
  ultimately show ?thesis by simp
qed


end
