(* ===== verification/SparseCopy.thy ===== *)
theory SparseCopy
  imports CString
begin

section \<open>Copying a file with holes (Chapter04/exercise_6.c)\<close>

text \<open>
  The source is a descriptor whose reads may be short or fail; the destination is its bytes and
  the offset of its descriptor, with the outcomes of the coming calls. Writing past the end of a file
  fills the gap with null bytes; \<open>lseek\<close> alone does not change the file. \<open>open\<close> of the destination has
  \<open>O_CREAT\<close> but not \<open>O_TRUNC\<close>.
\<close>

record dest =
  bytes :: string
  offset :: nat
  writes :: "nat option list"   \<comment> \<open>failures, and the most a call writes\<close>
  seeks :: "bool list"

definition BUFFER_SIZE :: nat where "BUFFER_SIZE = 4096"

text \<open>\<open>write\<close> of \<open>bs\<close>: \<open>None\<close> is -1. The code looks at the sign of the result only.\<close>

definition cp_write :: "string \<Rightarrow> dest \<Rightarrow> nat option \<times> dest" where
  "cp_write bs d =
     (let store = (\<lambda>xs d. if xs = [] then d else
        d\<lparr>bytes := take (offset d) (bytes d) @ replicate (offset d - length (bytes d)) NUL @ xs @ drop (offset d + length xs) (bytes d),
          offset := offset d + length xs\<rparr>) in
      case writes d of
        [] \<Rightarrow> (Some (length bs), store bs d)
      | None # ws \<Rightarrow> (None, d\<lparr>writes := ws\<rparr>)
      | Some k # ws \<Rightarrow> (Some (min k (length bs)), store (take k bs) (d\<lparr>writes := ws\<rparr>)))"

definition cp_seek :: "nat \<Rightarrow> dest \<Rightarrow> bool \<times> dest" where
  "cp_seek n d =
     (case seeks d of
        False # ss \<Rightarrow> (False, d\<lparr>seeks := ss\<rparr>)
      | ss \<Rightarrow> (True, d\<lparr>offset := offset d + n, seeks := tl ss\<rparr>))"

text \<open>The loops that count the bytes that are not null, or null, from \<open>scanned\<close> on.\<close>

definition run_length :: "(char \<Rightarrow> bool) \<Rightarrow> string \<Rightarrow> nat \<Rightarrow> nat" where
  "run_length P buf scanned = length (takeWhile P (drop scanned buf))"

lemma run_advances: "pos < length buf \<Longrightarrow> 0 < run_length (\<lambda>c. c \<noteq> NUL) buf pos + run_length (\<lambda>c. c = NUL) buf (pos + run_length (\<lambda>c. c \<noteq> NUL) buf pos)"
  by (cases "drop pos buf") (auto simp: run_length_def)

text \<open>
  The loop over one buffer; \<open>bytes_scanned\<close> and \<open>bytes_written\<close> are equal at the head of the loop. False is the jump to the
  end after an error.
\<close>

function copy_buf :: "string \<Rightarrow> nat \<Rightarrow> dest \<Rightarrow> bool \<times> dest" where
  "copy_buf buf pos d =
     (if length buf \<le> pos then (True, d)
      else
        let nz = run_length (\<lambda>c. c \<noteq> NUL) buf pos;
            (r, d) = cp_write (take nz (drop pos buf)) d
        in if r = None then (False, d)
           else
             let z = run_length (\<lambda>c. c = NUL) buf (pos + nz);
                 (ok, d) = cp_seek z d
             in if \<not> ok then (False, d) else copy_buf buf (pos + nz + z) d)"
  by pat_completeness auto
termination
proof (relation "measure (\<lambda>(buf, pos, d). length buf - pos)", goal_cases)
  case (2 buf pos d nz r' r d' z ok' ok d'')
  then have "0 < nz + z" by (simp add: run_advances del: add_gr_0)
  then show ?case using 2(1) by auto
qed simp

record source =
  rest :: string
  reads :: "nat option list"

text \<open>\<open>read\<close> into the buffer: a failure, or at most so many bytes; no bytes at the end of the file only.\<close>

definition cp_read :: "source \<Rightarrow> string option \<times> source" where
  "cp_read f =
     (case reads f of
        [] \<Rightarrow> (Some (take BUFFER_SIZE (rest f)), f\<lparr>rest := drop BUFFER_SIZE (rest f)\<rparr>)
      | None # rs \<Rightarrow> (None, f\<lparr>reads := rs\<rparr>)
      | Some k # rs \<Rightarrow>
          (let n = max 1 (min k BUFFER_SIZE) in (Some (take n (rest f)), f\<lparr>rest := drop n (rest f), reads := rs\<rparr>)))"

function read_loop :: "source \<Rightarrow> dest \<Rightarrow> int \<times> dest" where
  "read_loop f d =
     (case cp_read f of
        (None, f) \<Rightarrow> (1, d)
      | (Some buffer, f) \<Rightarrow>
          if buffer = [] then (0, d)
          else (case copy_buf buffer 0 d of
              (False, d) \<Rightarrow> (1, d)
            | (True, d) \<Rightarrow> read_loop f d))"
  by pat_completeness auto
termination
proof (relation "measure (\<lambda>(f, d). length (rest f))", goal_cases)
  case (2 f d r f' buffer r' d')
  then show ?case by (auto simp: cp_read_def BUFFER_SIZE_def Let_def split: list.splits option.splits)
qed simp

text \<open>\<open>cp\<close>, with the results of the two calls of \<open>open\<close>.\<close>

definition cp :: "source option \<Rightarrow> dest option \<Rightarrow> int \<times> dest option" where
  "cp src dst =
     (case src of
        None \<Rightarrow> (1, dst)
      | Some f \<Rightarrow> (case dst of None \<Rightarrow> (1, None) | Some d \<Rightarrow> (case read_loop f d of (r, d) \<Rightarrow> (r, Some d))))"

subsection \<open>What is in the destination\<close>

text \<open>A prefix up to its last byte that is not null, and a source laid over old contents.\<close>

definition strip :: "string \<Rightarrow> string" where
  "strip s = rev (dropWhile (\<lambda>c. c = NUL) (rev s))"

definition overlay :: "string \<Rightarrow> string \<Rightarrow> string" where
  "overlay old s = map (\<lambda>i. if i < length s \<and> s ! i \<noteq> NUL then s ! i else if i < length old then old ! i else NUL)
     [0 ..< max (length old) (length (strip s))]"

lemma length_overlay [simp]: "length (overlay old s) = max (length old) (length (strip s))"
  by (simp add: overlay_def)

lemma overlay_nth: "i < length (overlay old s) \<Longrightarrow>
    overlay old s ! i = (if i < length s \<and> s ! i \<noteq> NUL then s ! i else if i < length old then old ! i else NUL)"
  by (simp add: overlay_def)

lemma strip_nulls [simp]: "strip (s @ replicate n NUL) = strip s"
  by (induction n) (simp_all add: strip_def replicate_append_same [symmetric] del: replicate_Suc, simp add: replicate_Suc)

lemma strip_full [simp]: "xs \<noteq> [] \<Longrightarrow> NUL \<notin> set xs \<Longrightarrow> strip (s @ xs) = s @ xs"
  by (cases xs rule: rev_cases) (auto simp: strip_def)

lemma strip_le: "length (strip s) \<le> length s"
  by (simp add: strip_def length_dropWhile_le [of _ "rev s", simplified])

lemma strip_nth: "length (strip s) \<le> i \<Longrightarrow> i < length s \<Longrightarrow> s ! i = NUL"
proof (induction s rule: rev_induct)
  case (snoc c s)
  then show ?case by (cases "c = NUL") (auto simp: strip_def nth_append less_Suc_eq)
qed simp

lemma strip_overlay: "overlay [] s = strip s"
proof (rule nth_equalityI)
  have "strip s ! i = s ! i" if "i < length (strip s)" for i
  proof -
    have "s = strip s @ rev (takeWhile (\<lambda>c. c = NUL) (rev s))"
      by (metis strip_def rev_append rev_rev_ident takeWhile_dropWhile_id)
    then show ?thesis using that by (metis nth_append)
  qed
  then show "overlay [] s ! i = strip s ! i" if "i < length (overlay [] s)" for i
    using that strip_le [of s] by (auto simp: overlay_def)
qed (simp add: overlay_def)

lemma strip_same: "strip s = s \<longleftrightarrow> s = [] \<or> last s \<noteq> NUL"
proof (cases s rule: rev_cases)
  case (snoc xs c)
  then show ?thesis using strip_le [of xs] strip_nulls [of xs 1] by (cases "c = NUL") (auto simp: strip_full)
qed (simp add: strip_def)

text \<open>The destination after the part \<open>s\<close> of the source.\<close>

definition holds :: "string \<Rightarrow> string \<Rightarrow> dest \<Rightarrow> bool" where
  "holds old s d \<longleftrightarrow> bytes d = overlay old s \<and> offset d = length s \<and> writes d = [] \<and> seeks d = []"

lemma holds_seek: "holds old s d \<Longrightarrow> cp_seek n d = (ok, d') \<Longrightarrow> ok \<and> holds old (s @ replicate n NUL) d'"
  by (auto simp: holds_def cp_seek_def overlay_def nth_append)

lemma holds_write:
  assumes h: "holds old s d" and w: "cp_write xs d = (r, d')" and n: "NUL \<notin> set xs"
  shows "r = Some (length xs) \<and> holds old (s @ xs) d'"
proof (cases "xs = []")
  case False
  let ?b = "overlay old s"
  note le = strip_le [of s]
  define A where "A = take (length s) ?b @ replicate (length s - length ?b) NUL"
  have A: "length A = length s" "i < length s \<Longrightarrow> A ! i = (if i < length ?b then ?b ! i else NUL)" for i
    by (auto simp: A_def nth_append)
  have "A @ xs @ drop (length s + length xs) ?b = overlay old (s @ xs)" (is "?l = ?r")
  proof (rule nth_equalityI)
    show len: "length ?l = length ?r" using False n le by (simp add: A)
    show "?l ! i = ?r ! i" if i: "i < length ?l" for i
    proof -
      have i': "i < length ?r" using i len by argo
      consider "i < length s" | "length s \<le> i" "i < length s + length xs" | "length s + length xs \<le> i" by linarith
      then show ?thesis
      proof cases
        case 1
        then show ?thesis using strip_nth [of s i] by (auto simp: overlay_nth [OF i'] overlay_nth [of i old s] nth_append A)
      next
        case 2
        then have "xs ! (i - length s) \<noteq> NUL" using n by (metis add_diff_inverse_nat nat_add_left_cancel_less not_less nth_mem)
        moreover have "i - length s < length xs" using 2 by linarith
        ultimately show ?thesis using 2 by (simp add: overlay_nth [OF i'] nth_append A)
      next
        case 3
        then have "i < length old" "\<not> i - length s < length xs" using i le by (auto simp: A)
        then show ?thesis using 3 by (simp add: overlay_nth [OF i'] overlay_nth [of i old s] nth_append A)
      qed
    qed
  qed
  then show ?thesis using False h w by (auto simp: holds_def cp_write_def A_def)
qed (use assms in \<open>auto simp: holds_def cp_write_def\<close>)

lemma run_split: "drop pos buf = take (run_length P buf pos) (drop pos buf) @ drop (pos + run_length P buf pos) buf"
  by (subst append_take_drop_id [of "run_length P buf pos" "drop pos buf", symmetric]) (simp add: add.commute)

lemma run_take: "take (run_length P buf pos) (drop pos buf) = takeWhile P (drop pos buf)"
  by (metis run_length_def takeWhile_eq_take)

lemma run_nulls: "takeWhile (\<lambda>c. c = NUL) xs = replicate (length (takeWhile (\<lambda>c. c = NUL) xs)) NUL"
  by (induction xs) auto

lemma copy_buf_holds:
  assumes "holds old s d"
  shows "\<exists>d'. copy_buf buf pos d = (True, d') \<and> holds old (s @ drop pos buf) d'"
  using assms
proof (induction buf pos d arbitrary: s rule: copy_buf.induct)
  case (1 buf pos d)
  show ?case
  proof (cases "length buf \<le> pos")
    case False
    let ?nz = "run_length (\<lambda>c. c \<noteq> NUL) buf pos"
    let ?z = "run_length (\<lambda>c. c = NUL) buf (pos + ?nz)"
    obtain r d1 where w: "cp_write (take ?nz (drop pos buf)) d = (r, d1)" by fastforce
    have r: "r \<noteq> None" "holds old (s @ take ?nz (drop pos buf)) d1"
      using holds_write [OF 1(2) w] set_takeWhileD [of NUL "\<lambda>c. c \<noteq> NUL"] by (auto simp: run_take)
    obtain ok d2 where k: "cp_seek ?z d1 = (ok, d2)" by fastforce
    have ok: "ok" "holds old (s @ take ?nz (drop pos buf) @ replicate ?z NUL) d2"
      using holds_seek [OF r(2) k] by simp_all
    have "drop pos buf = take ?nz (drop pos buf) @ replicate ?z NUL @ drop (pos + ?nz + ?z) buf"
      using run_split [of pos buf "\<lambda>c. c \<noteq> NUL"] run_split [of "pos + ?nz" buf "\<lambda>c. c = NUL"]
        run_nulls [of "drop (pos + ?nz) buf"] by (metis run_take run_length_def)
    moreover obtain d' where "copy_buf buf (pos + ?nz + ?z) d2 = (True, d')"
        "holds old ((s @ take ?nz (drop pos buf) @ replicate ?z NUL) @ drop (pos + ?nz + ?z) buf) d'"
      using 1(1) [OF False refl w [symmetric] refl r(1) refl k [symmetric] refl _ ok(2)] ok(1) by fastforce
    ultimately show ?thesis using False w r(1) k ok(1) by (simp add: Let_def)
  qed (use 1(2) in simp)
qed

lemma k_read_ok:
  "None \<notin> set (reads f) \<Longrightarrow>
    \<exists>b f'. cp_read f = (Some b, f') \<and> rest f = b @ rest f' \<and> None \<notin> set (reads f') \<and> (b = [] \<longrightarrow> rest f = [])"
  by (auto simp: cp_read_def Let_def BUFFER_SIZE_def split: list.splits option.splits)

lemma read_loop_holds:
  assumes "holds old s d" and "None \<notin> set (reads f)"
  shows "\<exists>d'. read_loop f d = (0, d') \<and> holds old (s @ rest f) d'"
  using assms
proof (induction f d arbitrary: s rule: read_loop.induct)
  case (1 f d)
  obtain b f' where k: "cp_read f = (Some b, f')" "rest f = b @ rest f'" "None \<notin> set (reads f')" "b = [] \<longrightarrow> rest f = []"
    using k_read_ok [OF 1(3)] by (elim exE conjE)
  show ?case
  proof (cases "b = []")
    case False
    obtain d1 where c: "copy_buf b 0 d = (True, d1)" "holds old (s @ b) d1" using copy_buf_holds [OF 1(2), of b 0] by auto
    obtain d' where "read_loop f' d1 = (0, d')" "holds old ((s @ b) @ rest f') d'"
      using 1(1) [OF k(1) [symmetric] refl False c(1) [symmetric] refl c(2) k(3)] by auto
    then show ?thesis using False k(1,2) c(1) by simp
  qed (use k 1(2) in simp)
qed

subsection \<open>The property\<close>

text \<open>
  C40. Copying a file when no call fails or is cut short: the result is 0, and what is then in the destination is the source
  with its trailing null bytes dropped, laid over what was there before. So a copy to a new file
  equals its source when the last byte of the source is not null, however the reads cut it up,
  and is shorter than it otherwise.
\<close>

theorem sparse_copy_contents:
  assumes "None \<notin> set (reads f)" and "offset d = 0" and "writes d = []" and "seeks d = []"
  shows "\<exists>d'. cp (Some f) (Some d) = (0, Some d') \<and> bytes d' = overlay (bytes d) (rest f) \<and>
    (bytes d = [] \<longrightarrow> bytes d' = strip (rest f) \<and> (bytes d' = rest f \<longleftrightarrow> rest f = [] \<or> last (rest f) \<noteq> NUL))"
proof -
  have "overlay (bytes d) [] = bytes d" by (rule nth_equalityI) (simp_all add: strip_def overlay_def)
  then have "holds (bytes d) [] d" using assms by (simp add: holds_def)
  then obtain d' where "read_loop f d = (0, d')" "holds (bytes d) (rest f) d'"
    using read_loop_holds [of "bytes d" "[]" d f] assms(1) by auto
  then show ?thesis by (simp add: cp_def holds_def strip_overlay strip_same)
qed

theorem sparse_copy_contents_witness:
  "\<exists>d. cp (Some \<lparr>rest = ''ab'' @ [NUL, NUL, NUL, CHR ''c'', NUL], reads = [Some 4]\<rparr>)
     (Some \<lparr>bytes = [], offset = 0, writes = [], seeks = []\<rparr>) = (0, Some d) \<and> bytes d = ''ab'' @ [NUL, NUL, NUL, CHR ''c'']"
  using sparse_copy_contents [of "\<lparr>rest = ''ab'' @ [NUL, NUL, NUL, CHR ''c'', NUL], reads = [Some 4]\<rparr>"
     "\<lparr>bytes = [], offset = 0, writes = [], seeks = []\<rparr>"]
  by (auto simp: strip_def)

end
