(* ===== verification/Progress.thy ===== *)
theory Progress
  imports Main
begin

section \<open>Systems whose runs end\<close>

text \<open>
  Runs of a system of threads, and the argument for the end of every run: an invariant, a cost that each of the system's
  own steps lowers and an outside event raises by a bounded amount, and some own step enabled
  as long as the system is not finished.
\<close>

fun exec :: "('e \<Rightarrow> 's \<Rightarrow> 's option) \<Rightarrow> 'e list \<Rightarrow> 's \<Rightarrow> 's option" where
  "exec act [] s = Some s"
| "exec act (e # es) s = (case act e s of None \<Rightarrow> None | Some s \<Rightarrow> exec act es s)"

lemma exec_append: "exec act (es @ es') s = (case exec act es s of None \<Rightarrow> None | Some s \<Rightarrow> exec act es' s)"
  by (induction act es s rule: exec.induct) (auto split: option.splits)

locale ending_system =
  fixes Inv :: "'s \<Rightarrow> bool"
    and act :: "'e \<Rightarrow> 's \<Rightarrow> 's option"
    and outside :: "'e \<Rightarrow> bool"
    and cost :: "'s \<Rightarrow> nat"
    and jump :: nat
    and finished :: "'s \<Rightarrow> bool"
  assumes keeps: "Inv s \<Longrightarrow> act e s = Some t \<Longrightarrow> Inv t"
    and lowers: "Inv s \<Longrightarrow> \<not> outside e \<Longrightarrow> act e s = Some t \<Longrightarrow> cost t < cost s"
    and raises: "Inv s \<Longrightarrow> outside e \<Longrightarrow> act e s = Some t \<Longrightarrow> cost t \<le> cost s + jump"
    and enabled: "Inv s \<Longrightarrow> \<not> finished s \<Longrightarrow> \<exists>e t. \<not> outside e \<and> act e s = Some t"
begin

lemma run_keeps: "Inv s \<Longrightarrow> exec act es s = Some t \<Longrightarrow> Inv t"
  by (induction es arbitrary: s) (auto split: option.splits dest: keeps)

text \<open>The own steps of a run are bounded by the cost of its start and its outside events.\<close>

lemma run_bounded:
  "Inv s \<Longrightarrow> exec act es s = Some t \<Longrightarrow>
    length (filter (\<lambda>e. \<not> outside e) es) + cost t \<le> cost s + jump * length (filter outside es)"
proof (induction es arbitrary: s)
  case (Cons e es)
  obtain u where u: "act e s = Some u" "exec act es u = Some t" using Cons.prems(2) by (auto split: option.splits)
  show ?case
    using Cons.IH [OF keeps [OF Cons.prems(1) u(1)] u(2)] lowers [OF Cons.prems(1) _ u(1)] raises [OF Cons.prems(1) _ u(1)]
    by (cases "outside e") fastforce+
qed simp

text \<open>From every state a finished one can be reached by own steps alone.\<close>

lemma run_finishes: "Inv s \<Longrightarrow> \<exists>es t. (\<forall>e \<in> set es. \<not> outside e) \<and> exec act es s = Some t \<and> finished t"
proof (induction "cost s" arbitrary: s rule: less_induct)
  case less
  show ?case
  proof (cases "finished s")
    case True
    then show ?thesis by (intro exI [of _ "[]"]) simp
  next
    case False
    then obtain e u where u: "\<not> outside e" "act e s = Some u" using enabled [OF less.prems] by blast
    obtain es t where "\<forall>e \<in> set es. \<not> outside e" "exec act es u = Some t" "finished t"
      using less.hyps [OF lowers [OF less.prems u] keeps [OF less.prems u(2)]] by blast
    then show ?thesis using u by (intro exI [of _ "e # es"]) auto
  qed
qed

end

end
