(* ===== verification/WorkerPool.thy ===== *)
theory WorkerPool
  imports JobQueue Progress "HOL-Library.Multiset"
begin

section \<open>Threads that wait for their jobs (Chapter11/exercise_3.c)\<close>

text \<open>
  \<open>main\<close> creates \<open>n\<close> threads and puts one job for each on a queue; each thread waits on a condition
  variable until its job is there, works, takes the job off the queue and frees it. The queue is that of
  \<open>threads/rwlock.c\<close> under a mutex. A state has the place in the code of each thread; a step is the code up
  to the next point where another thread can interfere. What the lock does not free, a broadcast
  does not wake or a pointer does not reach is as in the code.
\<close>

record pjob =
  j_id :: nat
  jvalue :: int

datatype tid = TMain | TWorker nat

text \<open>
  The places of a thread: in \<open>job_find\<close> before the lock, in the search, asleep, before the lock again and before the unlock;
  at its work; in \<open>job_remove\<close>; at \<open>free\<close>, at \<open>pthread_exit\<close>, ended.
\<close>

datatype wpc =
    F_lock | F_search | F_wait | F_relock | F_unlock nat
  | W_work nat
  | R_lock nat | R_body nat | R_unlock nat
  | W_free nat | W_exit | W_done

datatype mpc =
    M_create nat | M_job nat
  | M_lock nat nat | M_put nat nat | M_unlock nat | M_bcast nat
  | M_join nat | M_done | M_exit | M_crash

record pool =
  pq :: "pjob dq"
  lock :: "tid option"
  wpcs :: "wpc list"
  mpc :: mpc
  worked :: "(nat \<times> int) list"   \<comment> \<open>what the threads printed\<close>

text \<open>\<open>queue_init\<close> with the results of its two calls.\<close>

definition pool_init :: "int \<Rightarrow> int \<Rightarrow> pjob dq \<Rightarrow> int \<times> pjob dq" where
  "pool_init mutex_err cond_err q =
     (let q = q\<lparr>qhead := None, qtail := None\<rparr>
      in if mutex_err \<noteq> 0 then (mutex_err, q) else if cond_err \<noteq> 0 then (cond_err, q) else (0, q))"

definition crash :: "pool \<Rightarrow> pool" where
  "crash s = s\<lparr>mpc := M_crash\<rparr>"

definition goto :: "nat \<Rightarrow> wpc \<Rightarrow> pool \<Rightarrow> pool" where
  "goto i pc s = s\<lparr>wpcs := (wpcs s)[i := pc]\<rparr>"

definition take_lock :: "tid \<Rightarrow> pool \<Rightarrow> pool option" where
  "take_lock t s = (if lock s = None then Some (s\<lparr>lock := Some t\<rparr>) else None)"

text \<open>\<open>job_find\<close>; \<open>ok\<close> tells whether \<open>pthread_mutex_lock\<close> succeeds. \<open>pthread_cond_wait\<close> frees the lock and sleeps in one step.\<close>

definition pool_find :: "nat \<Rightarrow> bool \<Rightarrow> wpc \<Rightarrow> pool \<Rightarrow> pool option" where
  "pool_find i ok pc s =
     (case pc of
        F_lock \<Rightarrow> if ok then map_option (goto i F_search) (take_lock (TWorker i) s) else Some (goto i W_exit s)
      | F_relock \<Rightarrow> map_option (goto i F_search) (take_lock (TWorker i) s)
      | F_search \<Rightarrow>
          (case find_from j_id (dheap (pq s)) (qhead (pq s)) i of
             None \<Rightarrow> Some (crash s)
           | Some None \<Rightarrow> Some (goto i F_wait (s\<lparr>lock := None\<rparr>))
           | Some (Some jp) \<Rightarrow> Some (goto i (F_unlock jp) s))
      | F_unlock jp \<Rightarrow> Some (goto i (W_work jp) (s\<lparr>lock := None\<rparr>))
      | _ \<Rightarrow> None)"

definition pool_remove :: "nat \<Rightarrow> wpc \<Rightarrow> pool \<Rightarrow> pool option" where
  "pool_remove i pc s =
     (case pc of
        R_lock jp \<Rightarrow> map_option (goto i (R_body jp)) (take_lock (TWorker i) s)
      | R_body jp \<Rightarrow> (case job_remove jp (pq s) of None \<Rightarrow> Some (crash s) | Some q \<Rightarrow> Some (goto i (R_unlock jp) (s\<lparr>pq := q\<rparr>)))
      | R_unlock jp \<Rightarrow> Some (goto i (W_free jp) (s\<lparr>lock := None\<rparr>))
      | _ \<Rightarrow> None)"

definition worker_thread :: "nat \<Rightarrow> bool \<Rightarrow> pool \<Rightarrow> pool option" where
  "worker_thread i ok s =
     (case wpcs s ! i of
        W_work j \<Rightarrow>
          (case dheap (pq s) j of
             None \<Rightarrow> Some (crash s)
           | Some n \<Rightarrow> Some (goto i (R_lock j) (s\<lparr>worked := worked s @ [(i, jvalue (ddata n))]\<rparr>)))
      | W_free j \<Rightarrow>
          if dheap (pq s) j = None then Some (crash s)
          else Some (goto i W_exit (s\<lparr>pq := (pq s)\<lparr>dheap := (dheap (pq s))(j := None)\<rparr>\<rparr>))
      | W_exit \<Rightarrow> Some (goto i W_done s)
      | R_lock j \<Rightarrow> pool_remove i (R_lock j) s
      | R_body j \<Rightarrow> pool_remove i (R_body j) s
      | R_unlock j \<Rightarrow> pool_remove i (R_unlock j) s
      | pc \<Rightarrow> pool_find i ok pc s)"

text \<open>\<open>job_insert\<close> and \<open>job_append\<close>, which put the job at the head or at the tail between lock and unlock and then broadcast.\<close>

definition wake :: "wpc \<Rightarrow> wpc" where
  "wake pc = (if pc = F_wait then F_relock else pc)"

definition pool_put :: "(nat \<Rightarrow> pjob dq \<Rightarrow> pjob dq option) \<Rightarrow> pool \<Rightarrow> pool option" where
  "pool_put put s =
     (case mpc s of
        M_lock i jp \<Rightarrow> map_option (\<lambda>s. s\<lparr>mpc := M_put i jp\<rparr>) (take_lock TMain s)
      | M_put i jp \<Rightarrow> (case put jp (pq s) of None \<Rightarrow> Some (crash s) | Some q \<Rightarrow> Some (s\<lparr>pq := q, mpc := M_unlock i\<rparr>))
      | M_unlock i \<Rightarrow> Some (s\<lparr>lock := None, mpc := M_bcast i\<rparr>)
      | M_bcast i \<Rightarrow> Some (s\<lparr>wpcs := map wake (wpcs s), mpc := M_job (i + 1)\<rparr>)
      | _ \<Rightarrow> None)"

definition put_op :: "nat \<Rightarrow> nat \<Rightarrow> pjob dq \<Rightarrow> pjob dq option" where
  "put_op i = (if i mod 2 = 0 then job_insert else job_append)"

text \<open>
  \<open>main\<close> with \<open>n\<close> threads; \<open>a\<close> is the result of the call of \<open>pthread_create\<close> (\<open>None\<close> is a failure) or of \<open>malloc\<close>. The pointers
  of a new node are not set.
\<close>

definition pool_main :: "nat \<Rightarrow> nat option \<Rightarrow> pool \<Rightarrow> pool option" where
  "pool_main n a s =
     (case mpc s of
        M_create i \<Rightarrow>
          if i < n then
            (case a of
               None \<Rightarrow> Some (s\<lparr>mpc := M_exit\<rparr>)
             | Some _ \<Rightarrow> Some (s\<lparr>wpcs := wpcs s @ [F_lock], mpc := M_create (i + 1)\<rparr>))
          else Some (s\<lparr>mpc := M_job 0\<rparr>)
      | M_job i \<Rightarrow>
          if i < n then
            (case a of
               None \<Rightarrow> Some (crash s)
             | Some j \<Rightarrow>
                 if dheap (pq s) j \<noteq> None then None
                 else Some (s\<lparr>pq := (pq s)\<lparr>dheap := (dheap (pq s))(j \<mapsto> \<lparr>dnext = None, dprev = None, ddata = \<lparr>j_id = i, jvalue = int i\<rparr>\<rparr>)\<rparr>,
                     mpc := M_lock i j\<rparr>))
          else Some (s\<lparr>mpc := M_join 0\<rparr>)
      | M_lock i j \<Rightarrow> pool_put (put_op i) s
      | M_put i j \<Rightarrow> pool_put (put_op i) s
      | M_unlock i \<Rightarrow> pool_put (put_op i) s
      | M_bcast i \<Rightarrow> pool_put (put_op i) s
      | M_join i \<Rightarrow>
          if i < n then (if wpcs s ! i = W_done then Some (s\<lparr>mpc := M_join (i + 1)\<rparr>) else None)
          else Some (s\<lparr>mpc := M_done\<rparr>)
      | _ \<Rightarrow> None)"

text \<open>
  What can happen: a step of \<open>main\<close>, a step of a thread, a wakeup without a broadcast. The process is gone after
  \<open>exit\<close> and after a crash. \<open>calm\<close>: no call fails.
\<close>

datatype event = Main "nat option" | Worker nat bool | Spurious nat

definition pool_step :: "nat \<Rightarrow> event \<Rightarrow> pool \<Rightarrow> pool option" where
  "pool_step n e s =
     (if mpc s = M_exit \<or> mpc s = M_crash then None
      else case e of
          Main a \<Rightarrow> pool_main n a s
        | Worker i ok \<Rightarrow> if i < length (wpcs s) then worker_thread i ok s else None
        | Spurious i \<Rightarrow> if i < length (wpcs s) \<and> wpcs s ! i = F_wait then Some (goto i F_relock s) else None)"

fun calm :: "event \<Rightarrow> bool" where
  "calm (Main a) = (a \<noteq> None)"
| "calm (Worker i ok) = ok"
| "calm (Spurious i) = True"

fun spurious :: "event \<Rightarrow> bool" where
  "spurious (Spurious i) = True"
| "spurious e = False"

definition pool_start :: "pjob dq \<Rightarrow> pool" where
  "pool_start q = \<lparr>pq = snd (pool_init 0 0 q), lock = None, wpcs = [], mpc = M_create 0, worked = []\<rparr>"

subsection \<open>Who has which job\<close>

datatype role = Pending | Has nat | Took nat | Gone

fun role_of :: "wpc \<Rightarrow> role" where
  "role_of (F_unlock j) = Has j"
| "role_of (W_work j) = Has j"
| "role_of (R_lock j) = Has j"
| "role_of (R_body j) = Has j"
| "role_of (R_unlock j) = Took j"
| "role_of (W_free j) = Took j"
| "role_of W_exit = Gone"
| "role_of W_done = Gone"
| "role_of _ = Pending"

text \<open>How many jobs \<open>main\<close> has put on the queue, and the job it is about to put.\<close>

fun nput :: "nat \<Rightarrow> mpc \<Rightarrow> nat" where
  "nput n (M_create i) = 0"
| "nput n (M_job i) = i"
| "nput n (M_lock i j) = i"
| "nput n (M_put i j) = i"
| "nput n (M_unlock i) = i + 1"
| "nput n (M_bcast i) = i + 1"
| "nput n _ = n"

fun mjob :: "mpc \<Rightarrow> nat option" where
  "mjob (M_lock i j) = Some j"
| "mjob (M_put i j) = Some j"
| "mjob _ = None"

definition jid :: "pjob dq \<Rightarrow> nat \<Rightarrow> nat" where
  "jid q j = j_id (data_at q j)"

fun role_ok :: "nat \<Rightarrow> nat list \<Rightarrow> pjob dq \<Rightarrow> nat \<Rightarrow> role \<Rightarrow> bool" where
  "role_ok put xs q i Pending \<longleftrightarrow> (i < put \<longrightarrow> i \<in> jid q ` set xs)"
| "role_ok put xs q i (Has j) \<longleftrightarrow> j \<in> set xs \<and> jid q j = i"
| "role_ok put xs q i (Took j) \<longleftrightarrow> i < put \<and> j \<in> dom (dheap q) \<and> j \<notin> set xs \<and> jid q j = i"
| "role_ok put xs q i Gone \<longleftrightarrow> i < put"

definition jobs_ok :: "nat \<Rightarrow> nat option \<Rightarrow> nat list \<Rightarrow> pjob dq \<Rightarrow> role list \<Rightarrow> bool" where
  "jobs_ok put mj xs q rs \<longleftrightarrow> isq q xs \<and> distinct (map (jid q) xs) \<and>
     (\<forall>j \<in> dom (dheap q). jvalue (data_at q j) = int (jid q j)) \<and>
     (\<forall>j \<in> dom (dheap q). j \<in> set xs \<or> mj = Some j \<or> Took j \<in> set rs) \<and>
     (\<forall>j \<in> set xs. jid q j < put \<and> jid q j < length rs \<and> (rs ! jid q j = Pending \<or> rs ! jid q j = Has j)) \<and>
     (\<forall>i < length rs. role_ok put xs q i (rs ! i)) \<and>
     (\<forall>j. mj = Some j \<longrightarrow> j \<in> dom (dheap q) \<and> j \<notin> set xs \<and> jid q j = put)"

lemma stays_in_list: "x \<in> set rs \<Longrightarrow> rs ! i \<noteq> x \<Longrightarrow> x \<in> set (rs[i := y])"
  by (auto simp: in_set_conv_nth) (metis nth_list_update_neq)

lemma roles_update:
  "\<forall>k < length rs. role_ok put xs q k (rs ! k) \<Longrightarrow> (\<And>k r. r \<in> set rs \<Longrightarrow> k \<noteq> i \<Longrightarrow> role_ok put xs q k r \<Longrightarrow> role_ok put' xs' q' k r) \<Longrightarrow>
    role_ok put' xs' q' i r \<Longrightarrow> \<forall>k < length (rs[i := r]). role_ok put' xs' q' k (rs[i := r] ! k)"
  by (metis length_list_update nth_list_update_eq nth_list_update_neq nth_mem)

lemma role_ok_cong:
  assumes "role_ok put xs q i r" and "\<And>k. k \<in> set xs \<Longrightarrow> jid q' k = jid q k"
    and "\<And>k. r = Took k \<Longrightarrow> k \<in> dom (dheap q) \<Longrightarrow> k \<in> dom (dheap q') \<and> jid q' k = jid q k"
  shows "role_ok put xs q' i r"
proof -
  have "jid q' ` set xs = jid q ` set xs" using assms(2) by (auto intro!: image_cong)
  then show ?thesis using assms by (cases r) simp_all
qed

lemma jobs_okI:
  assumes "isq q xs" and "distinct (map (jid q) xs)"
    and "\<And>j. j \<in> dom (dheap q) \<Longrightarrow> jvalue (data_at q j) = int (jid q j)"
    and "\<And>j. j \<in> dom (dheap q) \<Longrightarrow> j \<notin> set xs \<Longrightarrow> mj \<noteq> Some j \<Longrightarrow> Took j \<in> set rs"
    and "\<And>j. j \<in> set xs \<Longrightarrow> jid q j < put \<and> jid q j < length rs \<and> (rs ! jid q j = Pending \<or> rs ! jid q j = Has j)"
    and "\<forall>i < length rs. role_ok put xs q i (rs ! i)"
    and "\<And>j. mj = Some j \<Longrightarrow> j \<in> dom (dheap q) \<and> j \<notin> set xs \<and> jid q j = put"
  shows "jobs_ok put mj xs q rs"
  unfolding jobs_ok_def using assms by blast

lemma jobs_okD:
  assumes "jobs_ok put mj xs q rs"
  shows "isq q xs" and "distinct (map (jid q) xs)"
    and "j \<in> dom (dheap q) \<Longrightarrow> jvalue (data_at q j) = int (jid q j)"
    and "j \<in> dom (dheap q) \<Longrightarrow> j \<notin> set xs \<Longrightarrow> mj \<noteq> Some j \<Longrightarrow> Took j \<in> set rs"
    and "j \<in> set xs \<Longrightarrow> jid q j < put \<and> jid q j < length rs \<and> (rs ! jid q j = Pending \<or> rs ! jid q j = Has j)"
    and "\<forall>i < length rs. role_ok put xs q i (rs ! i)"
    and "mj = Some j \<Longrightarrow> j \<in> dom (dheap q) \<and> j \<notin> set xs \<and> jid q j = put"
  using assms unfolding jobs_ok_def by blast+

lemma jobs_role: "jobs_ok put mj xs q rs \<Longrightarrow> i < length rs \<Longrightarrow> role_ok put xs q i (rs ! i)"
  by (simp add: jobs_ok_def)

lemma jobs_live: "jobs_ok put mj xs q rs \<Longrightarrow> j \<in> set xs \<Longrightarrow> j \<in> dom (dheap q)"
  using dls_dom by (fastforce simp: jobs_ok_def isq_def)

lemma jobs_found:
  assumes ok: "jobs_ok put mj xs q rs" and i: "i < length rs" "rs ! i = Pending" and j: "j \<in> set xs" "jid q j = i"
  shows "jobs_ok put mj xs q (rs[i := Has j])"
proof (rule jobs_okI)
  fix k
  show "Took k \<in> set (rs[i := Has j])" if "k \<in> dom (dheap q)" "k \<notin> set xs" "mj \<noteq> Some k"
    using stays_in_list [OF jobs_okD(4) [OF ok that]] i(2) by simp
  show "jid q k < put \<and> jid q k < length (rs[i := Has j]) \<and> (rs[i := Has j] ! jid q k = Pending \<or> rs[i := Has j] ! jid q k = Has k)"
    if k: "k \<in> set xs"
  proof (cases "jid q k = i")
    case True
    then have "k = j" using jobs_okD(2) [OF ok] k j by (auto simp: distinct_map dest: inj_onD)
    then show ?thesis using True jobs_okD(5) [OF ok k] i(1) by simp
  qed (use jobs_okD(5) [OF ok k] in simp)
  show "\<forall>k < length (rs[i := Has j]). role_ok put xs q k (rs[i := Has j] ! k)"
    by (rule roles_update [OF jobs_okD(6) [OF ok]]) (use j in auto)
qed (use jobs_okD [OF ok] in auto)

lemma jobs_new: "jobs_ok 0 mj xs q rs \<Longrightarrow> jobs_ok 0 mj xs q (rs @ [Pending])"
  by (auto simp: jobs_ok_def nth_append less_Suc_eq)

lemma jobs_removed:
  assumes ok: "jobs_ok put mj (ys @ j # zs) q rs" and i: "i < length rs" "rs ! i = Has j"
    and q': "isq q' (ys @ zs)" "\<forall>a. data_at q' a = data_at q a" "dom (dheap q') = dom (dheap q)"
  shows "jobs_ok put mj (ys @ zs) q' (rs[i := Took j])"
proof -
  have id: "jid q' = jid q" using q'(2) by (simp add: jid_def fun_eq_iff)
  have d: "distinct (map (jid q) (ys @ j # zs))" "jid q j = i" using ok jobs_role [OF ok i(1)] i(2) by (auto simp: jobs_ok_def)
  have lt: "i < put" using jobs_okD(5) [OF ok, of j] d(2) by simp
  have nj: "j \<notin> set (ys @ zs)" "j \<in> dom (dheap q)" using d(1) jobs_live [OF ok, of j] by auto
  have "jid q j \<notin> jid q ` set (ys @ zs)" using d(1) by auto
  then have ne: "jid q k \<noteq> i" if "k \<in> set (ys @ zs)" for k using d(2) that by (metis imageI)
  show ?thesis
  proof (rule jobs_okI)
    fix k
    show "Took k \<in> set (rs[i := Took j])" if "k \<in> dom (dheap q')" "k \<notin> set (ys @ zs)" "mj \<noteq> Some k"
    proof (cases "k = j")
      case False
      then show ?thesis using stays_in_list [OF jobs_okD(4) [OF ok], of k i] that i(2) q'(3) by auto
    qed (use set_update_memI [OF i(1)] in simp)
    show "jid q' k < put \<and> jid q' k < length (rs[i := Took j]) \<and>
        (rs[i := Took j] ! jid q' k = Pending \<or> rs[i := Took j] ! jid q' k = Has k)" if "k \<in> set (ys @ zs)"
      using jobs_okD(5) [OF ok, of k] ne [OF that] that by (auto simp: id)
    show "\<forall>k < length (rs[i := Took j]). role_ok put (ys @ zs) q' k (rs[i := Took j] ! k)"
    proof (rule roles_update [OF jobs_okD(6) [OF ok]])
      show "role_ok put (ys @ zs) q' k r" if "k \<noteq> i" "role_ok put (ys @ j # zs) q k r" for k r
        using that d(2) by (cases r) (auto simp: id q'(3))
    qed (use nj lt d(2) in \<open>simp add: id q'(3)\<close>)
  qed (use q' jobs_okD(3,7) [OF ok] d(1) in \<open>auto simp: id\<close>)
qed

lemma jobs_freed:
  assumes ok: "jobs_ok put mj xs q rs" and i: "i < length rs" "rs ! i = Took j"
  shows "jobs_ok put mj xs (q\<lparr>dheap := (dheap q)(j := None)\<rparr>) (rs[i := Gone])"
proof -
  let ?q = "q\<lparr>dheap := (dheap q)(j := None)\<rparr>"
  have j: "j \<notin> set xs" "jid q j = i" "i < put" using jobs_role [OF ok i(1)] i(2) by simp_all
  have id: "data_at ?q k = data_at q k" "jid ?q k = jid q k" if "k \<noteq> j" for k using that by (simp_all add: jid_def data_at_def)
  have idx: "jid ?q k = jid q k" if "k \<in> set xs" for k using that j(1) id(2) by metis
  then have ids: "map (jid ?q) xs = map (jid q) xs" by simp
  show ?thesis
  proof (rule jobs_okI)
    show "isq ?q xs" using ok j(1) by (simp add: jobs_ok_def isq_def dls_frame)
    show "distinct (map (jid ?q) xs)" unfolding ids by (rule jobs_okD(2) [OF ok])
    show "\<forall>k < length (rs[i := Gone]). role_ok put xs ?q k (rs[i := Gone] ! k)"
    proof (rule roles_update [OF jobs_okD(6) [OF ok]])
      show "role_ok put xs ?q k r" if "k \<noteq> i" "role_ok put xs q k r" for k r
      proof (rule role_ok_cong [OF that(2) idx])
        fix m
        assume m: "r = Took m" "m \<in> dom (dheap q)"
        then have "m \<noteq> j" using that j(2) by auto
        then show "m \<in> dom (dheap ?q) \<and> jid ?q m = jid q m" using m(2) id(2) by simp
      qed
    qed (use j in simp)
    fix k
    show "Took k \<in> set (rs[i := Gone])" if "k \<in> dom (dheap ?q)" "k \<notin> set xs" "mj \<noteq> Some k"
      using stays_in_list [OF jobs_okD(4) [OF ok], of k i] that i(2) by (auto split: if_splits)
    show "jvalue (data_at ?q k) = int (jid ?q k)" if "k \<in> dom (dheap ?q)"
      using jobs_okD(3) [OF ok, of k] id [of k] that by (auto split: if_splits)
    show "jid ?q k < put \<and> jid ?q k < length (rs[i := Gone]) \<and> (rs[i := Gone] ! jid ?q k = Pending \<or> rs[i := Gone] ! jid ?q k = Has k)"
      if "k \<in> set xs" using jobs_okD(5) [OF ok that] idx [OF that] i by (cases "jid q k = i") auto
    show "k \<in> dom (dheap ?q) \<and> k \<notin> set xs \<and> jid ?q k = put" if "mj = Some k"
      using jobs_okD(7) [OF ok that] id(2) [of k] j(2,3) by (cases "k = j") auto
  qed
qed

lemma jobs_alloc:
  assumes ok: "jobs_ok put None xs q rs" and j: "dheap q j = None"
  shows "jobs_ok put (Some j) xs (q\<lparr>dheap := (dheap q)(j \<mapsto> \<lparr>dnext = None, dprev = None, ddata = \<lparr>j_id = put, jvalue = int put\<rparr>\<rparr>)\<rparr>) rs"
    (is "jobs_ok _ _ _ ?q _")
proof -
  have nj: "j \<notin> set xs" using jobs_live [OF ok, of j] j by auto
  have id: "data_at ?q k = data_at q k" "jid ?q k = jid q k" if "k \<noteq> j" for k using that by (simp_all add: jid_def data_at_def)
  have idj: "jid ?q j = put" "jvalue (data_at ?q j) = int put" by (simp_all add: jid_def data_at_def)
  have idx: "jid ?q k = jid q k" if "k \<in> set xs" for k using that nj id(2) by metis
  then have ids: "map (jid ?q) xs = map (jid q) xs" by simp
  show ?thesis
  proof (rule jobs_okI)
    show "isq ?q xs" using ok nj by (simp add: jobs_ok_def isq_def dls_frame)
    show "distinct (map (jid ?q) xs)" unfolding ids by (rule jobs_okD(2) [OF ok])
    have "role_ok put xs ?q i r" if "role_ok put xs q i r" for i r
    proof (rule role_ok_cong [OF that idx])
      fix m
      assume m: "m \<in> dom (dheap q)"
      then have "m \<noteq> j" using j by auto
      then show "m \<in> dom (dheap ?q) \<and> jid ?q m = jid q m" using m id(2) by simp
    qed
    then show "\<forall>i < length rs. role_ok put xs ?q i (rs ! i)" using jobs_okD(6) [OF ok] by blast
    fix k
    show "Took k \<in> set rs" if "k \<in> dom (dheap ?q)" "k \<notin> set xs" "Some j \<noteq> Some k"
      using jobs_okD(4) [OF ok, of k] that by (auto split: if_splits)
    show "jvalue (data_at ?q k) = int (jid ?q k)" if "k \<in> dom (dheap ?q)"
      using jobs_okD(3) [OF ok, of k] id [of k] idj that by (cases "k = j") auto
    show "jid ?q k < put \<and> jid ?q k < length rs \<and> (rs ! jid ?q k = Pending \<or> rs ! jid ?q k = Has k)" if "k \<in> set xs"
      using jobs_okD(5) [OF ok that] idx [OF that] by simp
    show "k \<in> dom (dheap ?q) \<and> k \<notin> set xs \<and> jid ?q k = put" if "Some j = Some k"
      using that nj idj by auto
  qed
qed

lemma put_op_isq:
  assumes "isq q xs" and "j \<notin> set xs" and "j \<in> dom (dheap q)"
  shows "\<exists>q' xs'. put_op i j q = Some q' \<and> isq q' xs' \<and> set xs' = insert j (set xs) \<and> distinct xs' \<and> same_data q q' (j # xs) \<and> dom (dheap q') = dom (dheap q)"
proof -
  obtain n where n: "dheap q j = Some n" using assms(3) by auto
  have "isq q' xs' \<Longrightarrow> distinct xs'" for q' :: "pjob dq" and xs' by (simp add: isq_def)
  then show ?thesis
    using job_insert_isq [OF assms(1,2) n] job_append_isq [OF assms(1,2) n] unfolding put_op_def
    by (cases "i mod 2 = 0") (fastforce simp: insert_commute)+
qed

text \<open>Only the node of the new job and its neighbour are written.\<close>

lemma put_op_data: "put_op i j q = Some q' \<Longrightarrow> data_at q' a = data_at q a"
  by (auto simp: put_op_def job_insert_def job_append_def upd_node_def data_at_def split: if_splits option.splits bind_splits)

lemma jobs_put:
  assumes ok: "jobs_ok put (Some j) xs q rs" and i: "put < length rs" "rs ! put = Pending"
  shows "\<exists>q' xs'. put_op n j q = Some q' \<and> jobs_ok (put + 1) None xs' q' rs"
proof -
  have j: "j \<notin> set xs" "j \<in> dom (dheap q)" "jid q j = put" using jobs_okD(7) [OF ok refl] by blast+
  obtain q' xs' where q': "put_op n j q = Some q'" "isq q' xs'" "set xs' = insert j (set xs)" "distinct xs'" "dom (dheap q') = dom (dheap q)"
    using put_op_isq [OF jobs_okD(1) [OF ok] j(1,2)] by blast
  have id: "data_at q' = data_at q" "jid q' = jid q" using put_op_data [OF q'(1)] by (simp_all add: fun_eq_iff jid_def)
  have "jobs_ok (put + 1) None xs' q' rs"
  proof (rule jobs_okI)
    have "inj_on (jid q) (set xs)" using jobs_okD(2) [OF ok] by (simp add: distinct_map)
    moreover have "put \<notin> jid q ` set xs" using jobs_okD(5) [OF ok] by fastforce
    ultimately have "inj_on (jid q) (set xs')" using j(1,3) by (simp add: q'(3))
    then show "distinct (map (jid q') xs')" using q'(4) by (simp add: distinct_map id)
    have "role_ok (put + 1) xs' q' i r" if "role_ok put xs q i r" "r = Took j \<longrightarrow> i \<noteq> put" for i r
      using that j by (cases r) (auto simp: id q'(3,5) less_Suc_eq)
    then show "\<forall>i < length rs. role_ok (put + 1) xs' q' i (rs ! i)" using jobs_okD(6) [OF ok] i(2) by (metis role.distinct(3))
    fix k
    show "jid q' k < put + 1 \<and> jid q' k < length rs \<and> (rs ! jid q' k = Pending \<or> rs ! jid q' k = Has k)" if "k \<in> set xs'"
      using jobs_okD(5) [OF ok, of k] that q'(3) j(3) i by (cases "k = j") (auto simp: id)
  qed (use q' jobs_okD(3,4) [OF ok] j in \<open>auto simp: id\<close>)
  then show ?thesis using q'(1) by blast
qed


lemma jobs_finite: "jobs_ok put mj xs q rs \<Longrightarrow> finite (dom (dheap q))"
proof -
  assume ok: "jobs_ok put mj xs q rs"
  have "dom (dheap q) \<subseteq> set xs \<union> set_option mj \<union> (\<lambda>r. case r of Took j \<Rightarrow> j | _ \<Rightarrow> 0) ` set rs"
    using jobs_okD(4) [OF ok] by (force simp: image_iff)
  then show ?thesis by (rule finite_subset) simp
qed

lemma jobs_unput: "jobs_ok put mj xs q rs \<Longrightarrow> put < length rs \<Longrightarrow> rs ! put = Pending"
  using jobs_role [of put mj xs q rs put] jobs_okD(5) [of put mj xs q rs] by (cases "rs ! put") fastforce+

subsection \<open>The invariant\<close>

fun holds :: "wpc \<Rightarrow> bool" where
  "holds F_search = True"
| "holds (F_unlock j) = True"
| "holds (R_body j) = True"
| "holds (R_unlock j) = True"
| "holds _ = False"

fun main_holds :: "mpc \<Rightarrow> bool" where
  "main_holds (M_put i j) = True"
| "main_holds (M_unlock i) = True"
| "main_holds _ = False"

definition lock_ok :: "tid option \<Rightarrow> mpc \<Rightarrow> wpc list \<Rightarrow> bool" where
  "lock_ok l m pcs \<longleftrightarrow> (l = Some TMain \<longleftrightarrow> main_holds m) \<and> (\<forall>i. l = Some (TWorker i) \<longleftrightarrow> i < length pcs \<and> holds (pcs ! i))"

text \<open>The threads that have done their work.\<close>

fun did :: "wpc \<Rightarrow> bool" where
  "did (R_lock j) = True"
| "did (R_body j) = True"
| "did (R_unlock j) = True"
| "did (W_free j) = True"
| "did W_exit = True"
| "did W_done = True"
| "did _ = False"

definition log_ok :: "(nat \<times> int) list \<Rightarrow> wpc list \<Rightarrow> bool" where
  "log_ok w pcs \<longleftrightarrow> distinct w \<and> set w = {(i, int i) | i. i < length pcs \<and> did (pcs ! i)}"

fun main_ok :: "nat \<Rightarrow> mpc \<Rightarrow> wpc list \<Rightarrow> bool" where
  "main_ok n (M_create i) pcs \<longleftrightarrow> i \<le> n \<and> length pcs = i"
| "main_ok n (M_job i) pcs \<longleftrightarrow> i \<le> n \<and> length pcs = n"
| "main_ok n (M_lock i j) pcs \<longleftrightarrow> i < n \<and> length pcs = n"
| "main_ok n (M_put i j) pcs \<longleftrightarrow> i < n \<and> length pcs = n"
| "main_ok n (M_unlock i) pcs \<longleftrightarrow> i < n \<and> length pcs = n"
| "main_ok n (M_bcast i) pcs \<longleftrightarrow> i < n \<and> length pcs = n"
| "main_ok n (M_join i) pcs \<longleftrightarrow> i \<le> n \<and> length pcs = n \<and> (\<forall>k < i. pcs ! k = W_done)"
| "main_ok n M_done pcs \<longleftrightarrow> length pcs = n \<and> (\<forall>k < n. pcs ! k = W_done)"
| "main_ok n _ pcs \<longleftrightarrow> False"

text \<open>A thread whose job is on the queue sleeps only until \<open>main\<close>, which has just put the job there, broadcasts.\<close>

definition wait_ok :: "nat \<Rightarrow> mpc \<Rightarrow> wpc list \<Rightarrow> bool" where
  "wait_ok n m pcs \<longleftrightarrow> (\<forall>i < length pcs. pcs ! i = F_wait \<and> i < nput n m \<longrightarrow> m = M_unlock i \<or> m = M_bcast i)"

definition pool_inv :: "nat \<Rightarrow> pool \<Rightarrow> bool" where
  "pool_inv n s \<longleftrightarrow> (\<exists>xs. jobs_ok (nput n (mpc s)) (mjob (mpc s)) xs (pq s) (map role_of (wpcs s))) \<and>
     lock_ok (lock s) (mpc s) (wpcs s) \<and> log_ok (worked s) (wpcs s) \<and> main_ok n (mpc s) (wpcs s) \<and> wait_ok n (mpc s) (wpcs s)"

lemma pool_invI:
  "jobs_ok (nput n (mpc s)) (mjob (mpc s)) xs (pq s) (map role_of (wpcs s)) \<Longrightarrow> lock_ok (lock s) (mpc s) (wpcs s) \<Longrightarrow>
    log_ok (worked s) (wpcs s) \<Longrightarrow> main_ok n (mpc s) (wpcs s) \<Longrightarrow> wait_ok n (mpc s) (wpcs s) \<Longrightarrow> pool_inv n s"
  by (auto simp: pool_inv_def)

lemma lock_keep: "lock_ok l m pcs \<Longrightarrow> holds pc = holds (pcs ! i) \<Longrightarrow> lock_ok l m (pcs[i := pc])"
  by (auto simp: lock_ok_def nth_update_if)

lemma lock_take: "lock_ok None m pcs \<Longrightarrow> i < length pcs \<Longrightarrow> holds pc \<Longrightarrow> lock_ok (Some (TWorker i)) m (pcs[i := pc])"
  by (auto simp: lock_ok_def nth_update_if)

lemma lock_owner: "lock_ok l m pcs \<Longrightarrow> i < length pcs \<Longrightarrow> holds (pcs ! i) \<Longrightarrow> l = Some (TWorker i)"
  by (simp add: lock_ok_def)

lemma lock_free: "lock_ok l m pcs \<Longrightarrow> i < length pcs \<Longrightarrow> holds (pcs ! i) \<Longrightarrow> \<not> holds pc \<Longrightarrow> lock_ok None m (pcs[i := pc])"
proof -
  assume a: "lock_ok l m pcs" "i < length pcs" "holds (pcs ! i)" "\<not> holds pc"
  have l: "l = Some (TWorker i)" by (rule lock_owner [OF a(1-3)])
  have "k = i" if "k < length pcs" "holds (pcs ! k)" for k using lock_owner [OF a(1) that] l by simp
  moreover have "\<not> main_holds m" using a(1) l by (simp add: lock_ok_def)
  ultimately show ?thesis using a(2,4) by (auto simp: lock_ok_def nth_update_if)
qed

lemma log_keep: "log_ok w pcs \<Longrightarrow> did pc = did (pcs ! i) \<Longrightarrow> log_ok w (pcs[i := pc])"
  by (auto simp: log_ok_def nth_update_if)

lemma log_add: "log_ok w pcs \<Longrightarrow> i < length pcs \<Longrightarrow> \<not> did (pcs ! i) \<Longrightarrow> did pc \<Longrightarrow> log_ok (w @ [(i, int i)]) (pcs[i := pc])"
  by (auto simp: log_ok_def nth_update_if)

lemma main_goto: "main_ok n m pcs \<Longrightarrow> pcs ! i \<noteq> W_done \<Longrightarrow> main_ok n m (pcs[i := pc])"
  by (cases m) (auto simp: nth_update_if)

lemma wait_goto: "wait_ok n m pcs \<Longrightarrow> pc = F_wait \<longrightarrow> nput n m \<le> i \<Longrightarrow> wait_ok n m (pcs[i := pc])"
  by (auto simp: wait_ok_def nth_update_if)

lemma roles_goto: "i < length pcs \<Longrightarrow> map role_of (pcs[i := pc]) = (map role_of pcs)[i := role_of pc]"
  by (simp add: map_update)

lemma roles_keep: "i < length pcs \<Longrightarrow> role_of pc = role_of (pcs ! i) \<Longrightarrow> map role_of (pcs[i := pc]) = map role_of pcs"
  by (metis list_update_id map_update)

lemmas pool_goto = log_keep main_goto wait_goto

text \<open>What a thread finds in the queue is its own job.\<close>

lemma find_job:
  assumes "jobs_ok put mj xs q rs"
  shows "find_from j_id (dheap q) (qhead q) i = Some (find (\<lambda>j. jid q j = i) xs)"
  using find_from_dls [of "dheap q" "qhead q" None xs j_id i] assms by (simp add: jobs_ok_def isq_def jid_def data_at_def)

lemma worker_keeps:
  assumes inv: "pool_inv n s" and i: "i < length (wpcs s)" and t: "worker_thread i True s = Some t"
  shows "pool_inv n t"
proof -
  obtain xs where jobs: "jobs_ok (nput n (mpc s)) (mjob (mpc s)) xs (pq s) (map role_of (wpcs s))" (is "jobs_ok ?put ?mj _ _ ?rs")
    using inv by (auto simp: pool_inv_def)
  have ok: "lock_ok (lock s) (mpc s) (wpcs s)" "log_ok (worked s) (wpcs s)" "main_ok n (mpc s) (wpcs s)" "wait_ok n (mpc s) (wpcs s)"
    using inv by (auto simp: pool_inv_def)
  have ri: "i < length ?rs" "?rs ! i = role_of (wpcs s ! i)" using i by simp_all
  note role = jobs_role [OF jobs ri(1), unfolded ri(2)]
  note defs = worker_thread_def pool_find_def pool_remove_def take_lock_def goto_def
  show ?thesis
  proof (cases "wpcs s ! i")
    case F_lock
    then show ?thesis using t jobs ok i
      by (auto simp: defs roles_keep split: if_splits intro!: pool_invI [of _ _ xs] lock_take pool_goto)
  next
    case F_relock
    then show ?thesis using t jobs ok i
      by (auto simp: defs roles_keep split: if_splits intro!: pool_invI [of _ _ xs] lock_take pool_goto)
  next
    case F_wait
    then show ?thesis using t by (simp add: defs)
  next
    case F_search
    show ?thesis
    proof (cases "find (\<lambda>j. jid (pq s) j = i) xs")
      case None
      then have "t = goto i F_wait (s\<lparr>lock := None\<rparr>)" using t F_search find_job [OF jobs] by (simp add: defs)
      moreover have "nput n (mpc s) \<le> i" using None role F_search by (auto simp: find_None_iff)
      ultimately show ?thesis using jobs ok i F_search
        by (auto simp: goto_def roles_keep intro!: pool_invI [of _ _ xs] lock_free pool_goto)
    next
      case (Some j)
      then have t': "t = goto i (F_unlock j) s" using t F_search find_job [OF jobs] by (simp add: defs)
      have "j \<in> set xs" "jid (pq s) j = i" using Some by (auto simp: find_Some_iff)
      then have "jobs_ok ?put ?mj xs (pq s) (?rs[i := Has j])" using jobs_found [OF jobs ri(1)] F_search ri(2) by simp
      then show ?thesis using ok i F_search
        by (auto simp: t' goto_def roles_goto intro!: pool_invI [of _ _ xs] lock_keep pool_goto)
    qed
  next
    case (F_unlock j)
    then show ?thesis using t jobs ok i
      by (auto simp: defs roles_keep split: if_splits intro!: pool_invI [of _ _ xs] lock_free pool_goto)
  next
    case (W_work j)
    then have j: "j \<in> set xs" "jid (pq s) j = i" using role by auto
    obtain m where m: "dheap (pq s) j = Some m" using jobs_live [OF jobs j(1)] by auto
    have "jvalue (ddata m) = int i" using jobs_okD(3) [OF jobs jobs_live [OF jobs j(1)]] j(2) m by (simp add: data_at_def)
    then have "t = goto i (R_lock j) (s\<lparr>worked := worked s @ [(i, int i)]\<rparr>)" using t W_work m by (simp add: defs)
    then show ?thesis using jobs ok i W_work
      by (auto simp: goto_def roles_keep intro!: pool_invI [of _ _ xs] lock_keep log_add main_goto wait_goto)
  next
    case (R_lock j)
    then show ?thesis using t jobs ok i
      by (auto simp: defs roles_keep split: if_splits intro!: pool_invI [of _ _ xs] lock_take pool_goto)
  next
    case (R_body j)
    then have "j \<in> set xs" using role by simp
    then obtain ys zs where xs: "xs = ys @ j # zs" by (auto simp: in_set_conv_decomp)
    have q: "isq (pq s) (ys @ j # zs)" using jobs_okD(1) [OF jobs] xs by simp
    obtain q' where q': "job_remove j (pq s) = Some q'" "isq q' (ys @ zs)" "\<forall>a. data_at q' a = data_at (pq s) a" "dom (dheap q') = dom (dheap (pq s))"
      using job_remove_isq [OF q] by blast
    have "jobs_ok ?put ?mj (ys @ zs) q' (?rs[i := Took j])"
      using jobs_removed [OF jobs [unfolded xs] ri(1) _ q'(2-4)] ri(2) R_body by simp
    moreover have "t = goto i (R_unlock j) (s\<lparr>pq := q'\<rparr>)" using t R_body q'(1) by (simp add: defs)
    ultimately show ?thesis using ok i R_body
      by (auto simp: goto_def roles_goto intro!: pool_invI [of _ _ "ys @ zs"] lock_keep pool_goto)
  next
    case (R_unlock j)
    then show ?thesis using t jobs ok i
      by (auto simp: defs roles_keep split: if_splits intro!: pool_invI [of _ _ xs] lock_free pool_goto)
  next
    case (W_free j)
    then have "t = goto i W_exit (s\<lparr>pq := (pq s)\<lparr>dheap := (dheap (pq s))(j := None)\<rparr>\<rparr>)" using t role by (auto simp: defs split: if_splits)
    moreover have "jobs_ok ?put ?mj xs ((pq s)\<lparr>dheap := (dheap (pq s))(j := None)\<rparr>) (?rs[i := Gone])"
      using jobs_freed [OF jobs ri(1)] ri(2) W_free by simp
    ultimately show ?thesis using ok i W_free
      by (auto simp: goto_def roles_goto intro!: pool_invI [of _ _ xs] lock_keep pool_goto)
  next
    case W_exit
    then show ?thesis using t jobs ok i
      by (auto simp: defs roles_keep split: if_splits intro!: pool_invI [of _ _ xs] lock_keep pool_goto)
  next
    case W_done
    then show ?thesis using t by (simp add: defs)
  qed
qed


lemma spurious_keeps:
  assumes inv: "pool_inv n s" and i: "i < length (wpcs s)" "wpcs s ! i = F_wait"
  shows "pool_inv n (goto i F_relock s)"
proof -
  obtain xs where "jobs_ok (nput n (mpc s)) (mjob (mpc s)) xs (pq s) (map role_of (wpcs s))"
    using inv by (auto simp: pool_inv_def)
  then show ?thesis using inv i
    by (auto simp: pool_inv_def goto_def roles_keep intro!: lock_keep pool_goto)
qed

lemma role_of_wake [simp]: "role_of (wake pc) = role_of pc" and holds_wake [simp]: "holds (wake pc) = holds pc"
  and did_wake [simp]: "did (wake pc) = did pc" and wake_wait [simp]: "wake pc \<noteq> F_wait"
  by (simp_all add: wake_def)

lemma lock_main: "lock_ok l m pcs \<Longrightarrow> main_holds m' = main_holds m \<Longrightarrow> lock_ok l m' pcs"
  by (simp add: lock_ok_def)

lemma lock_wake: "lock_ok l m pcs \<Longrightarrow> lock_ok l m (map wake pcs)"
  by (simp add: lock_ok_def cong: conj_cong)

lemma lock_drop: "lock_ok l m pcs \<Longrightarrow> main_holds m \<Longrightarrow> \<not> main_holds m' \<Longrightarrow> lock_ok None m' pcs"
proof -
  assume a: "lock_ok l m pcs" "main_holds m" "\<not> main_holds m'"
  then have "l = Some TMain" by (simp add: lock_ok_def)
  then show ?thesis using a by (simp add: lock_ok_def)
qed

lemma main_keeps:
  assumes inv: "pool_inv n s" and t: "pool_main n (Some a) s = Some t"
  shows "pool_inv n t"
proof -
  obtain xs where jobs: "jobs_ok (nput n (mpc s)) (mjob (mpc s)) xs (pq s) (map role_of (wpcs s))"
    using inv by (auto simp: pool_inv_def)
  have ok: "lock_ok (lock s) (mpc s) (wpcs s)" "log_ok (worked s) (wpcs s)" "main_ok n (mpc s) (wpcs s)" "wait_ok n (mpc s) (wpcs s)"
    using inv by (auto simp: pool_inv_def)
  note defs = pool_main_def pool_put_def take_lock_def
  show ?thesis
  proof (cases "mpc s")
    case (M_create i)
    show ?thesis
    proof (cases "i < n")
      case True
      then have t': "t = s\<lparr>wpcs := wpcs s @ [F_lock], mpc := M_create (i + 1)\<rparr>" using t M_create by (simp add: defs)
      have "lock_ok (lock s) (M_create (i + 1)) (wpcs s @ [F_lock])" using ok(1) M_create
        by (auto simp: lock_ok_def nth_append less_Suc_eq)
      moreover have "log_ok (worked s) (wpcs s @ [F_lock])" using ok(2) by (auto simp: log_ok_def nth_append less_Suc_eq)
      ultimately show ?thesis using jobs_new [of "mjob (mpc s)" xs "pq s"] jobs ok(3) M_create True
        by (intro pool_invI [of _ _ xs]) (simp_all add: t' wait_ok_def)
    next
      case False
      then have "t = s\<lparr>mpc := M_job 0\<rparr>" using t M_create by (simp add: defs)
      then show ?thesis using jobs ok M_create False lock_main [OF ok(1), of "M_job 0"]
        by (intro pool_invI [of _ _ xs]) (auto simp: wait_ok_def)
    qed
  next
    case (M_job i)
    show ?thesis
    proof (cases "i < n")
      case True
      then have t': "dheap (pq s) a = None"
          "t = s\<lparr>pq := (pq s)\<lparr>dheap := (dheap (pq s))(a \<mapsto> \<lparr>dnext = None, dprev = None, ddata = \<lparr>j_id = i, jvalue = int i\<rparr>\<rparr>)\<rparr>, mpc := M_lock i a\<rparr>"
        using t M_job by (auto simp: defs split: if_splits)
      then show ?thesis using jobs_alloc [of i xs "pq s" "map role_of (wpcs s)" a] jobs ok M_job True lock_main [OF ok(1), of "M_lock i a"]
        by (intro pool_invI [of _ _ xs]) (auto simp: wait_ok_def)
    next
      case False
      then have t': "t = s\<lparr>mpc := M_join 0\<rparr>" using t M_job by (simp add: defs)
      have "i = n" using ok(3) M_job False by simp
      then show ?thesis using jobs ok M_job lock_main [OF ok(1), of "M_join 0"]
        by (intro pool_invI [of _ _ xs]) (auto simp: t' wait_ok_def)
    qed
  next
    case (M_lock i j)
    then have t': "lock s = None" "t = s\<lparr>lock := Some TMain, mpc := M_put i j\<rparr>" using t by (auto simp: defs split: if_splits)
    moreover have "lock_ok (Some TMain) (M_put i j) (wpcs s)" using ok(1) t'(1) by (auto simp: lock_ok_def)
    ultimately show ?thesis using jobs ok M_lock
      by (intro pool_invI [of _ _ xs]) (auto simp: wait_ok_def)
  next
    case (M_put i j)
    have i: "i < n" "length (wpcs s) = n" using ok(3) M_put by simp_all
    have jobs': "jobs_ok i (Some j) xs (pq s) (map role_of (wpcs s))" using jobs M_put by simp
    have pend: "map role_of (wpcs s) ! i = Pending" using jobs_unput [OF jobs'] i by simp
    obtain q' xs' where q': "put_op i j (pq s) = Some q'" "jobs_ok (i + 1) None xs' q' (map role_of (wpcs s))"
      using jobs_put [OF jobs' _ pend, of i] i by auto
    then have "t = s\<lparr>pq := q', mpc := M_unlock i\<rparr>" using t M_put by (simp add: defs)
    moreover have "wait_ok n (M_unlock i) (wpcs s)" using ok(4) M_put by (auto simp: wait_ok_def less_Suc_eq)
    ultimately show ?thesis using q'(2) ok M_put lock_main [OF ok(1), of "M_unlock i"]
      by (intro pool_invI [of _ _ xs']) simp_all
  next
    case (M_unlock i)
    then have "t = s\<lparr>lock := None, mpc := M_bcast i\<rparr>" using t by (simp add: defs)
    moreover have "lock_ok None (M_bcast i) (wpcs s)" using lock_drop [OF ok(1)] M_unlock by simp
    moreover have "wait_ok n (M_bcast i) (wpcs s)" using ok(4) M_unlock by (auto simp: wait_ok_def)
    ultimately show ?thesis using jobs ok M_unlock by (intro pool_invI [of _ _ xs]) simp_all
  next
    case (M_bcast i)
    then have t': "t = s\<lparr>wpcs := map wake (wpcs s), mpc := M_job (i + 1)\<rparr>" using t by (simp add: defs)
    have wake: "role_of \<circ> wake = role_of" by (simp add: fun_eq_iff)
    have "lock_ok (lock s) (M_job (i + 1)) (map wake (wpcs s))" using lock_wake [OF lock_main [OF ok(1), of "M_job (i + 1)"]] M_bcast by simp
    moreover have "log_ok (worked s) (map wake (wpcs s))" using ok(2) by (auto simp: log_ok_def)
    moreover have "wait_ok n (M_job (i + 1)) (map wake (wpcs s))" by (simp add: wait_ok_def)
    ultimately show ?thesis using jobs ok(3) M_bcast by (intro pool_invI [of _ _ xs]) (simp_all add: t' wake)
  next
    case (M_join i)
    show ?thesis
    proof (cases "i < n")
      case True
      then have "wpcs s ! i = W_done" "t = s\<lparr>mpc := M_join (i + 1)\<rparr>" using t M_join by (auto simp: defs split: if_splits)
      then show ?thesis using jobs ok M_join True lock_main [OF ok(1), of "M_join (i + 1)"]
        by (intro pool_invI [of _ _ xs]) (auto simp: wait_ok_def less_Suc_eq)
    next
      case False
      then have "t = s\<lparr>mpc := M_done\<rparr>" using t M_join by (simp add: defs)
      then show ?thesis using jobs ok M_join False lock_main [OF ok(1), of M_done]
        by (intro pool_invI [of _ _ xs]) (auto simp: wait_ok_def)
    qed
  qed (use t in \<open>simp_all add: defs\<close>)
qed

lemma step_keeps:
  assumes "pool_inv n s" and "calm e" and "pool_step n e s = Some t"
  shows "pool_inv n t"
proof (cases e)
  case (Main a)
  then show ?thesis using assms main_keeps by (auto simp: pool_step_def split: if_splits)
next
  case (Worker i ok)
  then show ?thesis using assms worker_keeps by (auto simp: pool_step_def split: if_splits)
next
  case (Spurious i)
  then show ?thesis using assms spurious_keeps by (auto simp: pool_step_def split: if_splits)
qed


subsection \<open>The cost\<close>

fun wcost :: "wpc \<Rightarrow> nat" where
  "wcost F_lock = 10"
| "wcost F_relock = 10"
| "wcost F_search = 9"
| "wcost F_wait = 8"
| "wcost (F_unlock j) = 7"
| "wcost (W_work j) = 6"
| "wcost (R_lock j) = 5"
| "wcost (R_body j) = 4"
| "wcost (R_unlock j) = 3"
| "wcost (W_free j) = 2"
| "wcost W_exit = 1"
| "wcost W_done = 0"

text \<open>A broadcast sends up to \<open>n\<close> threads back to the search, each at a cost of 2.\<close>

definition jobs_cost :: "nat \<Rightarrow> nat \<Rightarrow> nat" where
  "jobs_cost n left = left * (2 * n + 5) + n + 3"

fun mcost :: "nat \<Rightarrow> mpc \<Rightarrow> nat" where
  "mcost n (M_create i) = (n - i) * 11 + jobs_cost n n + 1"
| "mcost n (M_job i) = jobs_cost n (n - i)"
| "mcost n (M_lock i j) = jobs_cost n (n - i - 1) + 2 * n + 4"
| "mcost n (M_put i j) = jobs_cost n (n - i - 1) + 2 * n + 3"
| "mcost n (M_unlock i) = jobs_cost n (n - i - 1) + 2 * n + 2"
| "mcost n (M_bcast i) = jobs_cost n (n - i - 1) + 2 * n + 1"
| "mcost n (M_join i) = n + 2 - i"
| "mcost n _ = 0"

definition pool_cost :: "nat \<Rightarrow> pool \<Rightarrow> nat" where
  "pool_cost n s = mcost n (mpc s) + sum_list (map wcost (wpcs s))"

lemma cost_goto:
  "i < length pcs \<Longrightarrow> sum_list (map wcost (pcs[i := pc])) + wcost (pcs ! i) = sum_list (map wcost pcs) + wcost pc"
proof (induction pcs arbitrary: i)
  case (Cons p pcs)
  then show ?case by (cases i) (simp_all add: add.commute add.left_commute)
qed simp

lemma cost_down:
  "i < length pcs \<Longrightarrow> wcost pc < wcost (pcs ! i) \<Longrightarrow> sum_list (map wcost (pcs[i := pc])) < sum_list (map wcost pcs)"
  using cost_goto [of i pcs pc] by simp

lemma cost_wake: "sum_list (map (wcost \<circ> wake) pcs) \<le> sum_list (map wcost pcs) + 2 * length pcs"
  by (induction pcs) (auto simp: wake_def)

lemma jobs_cost_step: "i < n \<Longrightarrow> jobs_cost n (n - i) = jobs_cost n (n - i - 1) + (2 * n + 5)"
proof -
  assume "i < n"
  then have "n - i = Suc (n - i - 1)" by simp
  then show ?thesis unfolding jobs_cost_def by (metis add.assoc add.commute mult_Suc)
qed

text \<open>No thread crashes, so each step of a thread lowers the cost.\<close>

lemma worker_moves:
  assumes "worker_thread i True s = Some t" and "mpc t \<noteq> M_crash"
  shows "mpc t = mpc s \<and> (\<exists>pc. wpcs t = (wpcs s)[i := pc] \<and> wcost pc < wcost (wpcs s ! i))"
  using assms
  by (auto simp: worker_thread_def pool_find_def pool_remove_def take_lock_def goto_def crash_def
      split: wpc.splits if_splits option.splits intro!: exI)

lemma main_lowers:
  assumes "main_ok n (mpc s) (wpcs s)" and "pool_main n (Some a) s = Some t" and "mpc t \<noteq> M_crash"
  shows "pool_cost n t < pool_cost n s"
proof (cases "mpc s")
  case (M_create i)
  show ?thesis
  proof (cases "i < n")
    case True
    then have "n - i = Suc (n - (i + 1))" by simp
    then show ?thesis using assms M_create True by (auto simp: pool_main_def pool_cost_def)
  qed (use assms M_create in \<open>auto simp: pool_main_def pool_cost_def\<close>)
next
  case (M_job i)
  then show ?thesis using assms jobs_cost_step [of i n] by (auto simp: pool_main_def pool_cost_def jobs_cost_def split: if_splits)
next
  case (M_bcast i)
  then have "t = s\<lparr>wpcs := map wake (wpcs s), mpc := M_job (i + 1)\<rparr>" "length (wpcs s) = n"
    using assms by (simp_all add: pool_main_def pool_put_def)
  then show ?thesis using cost_wake [of "wpcs s"] M_bcast by (simp add: pool_cost_def)
next
  case (M_join i)
  then show ?thesis using assms by (auto simp: pool_main_def pool_cost_def split: if_splits)
qed (use assms in \<open>auto simp: pool_main_def pool_put_def take_lock_def pool_cost_def crash_def split: if_splits option.splits\<close>)

subsection \<open>Some step is enabled\<close>

lemma inv_alive: "pool_inv n s \<Longrightarrow> mpc s \<noteq> M_exit \<and> mpc s \<noteq> M_crash"
  by (cases "mpc s") (auto simp: pool_inv_def)

text \<open>A thread that holds the lock can go on, and so can one that is not asleep when nobody holds it.\<close>

lemma holder_enabled:
  assumes "pool_inv n s" and "i < length (wpcs s)" and "holds (wpcs s ! i)"
  shows "worker_thread i True s \<noteq> None"
  using assms(3) by (cases "wpcs s ! i") (auto simp: worker_thread_def pool_find_def pool_remove_def split: option.splits)

lemma awake_enabled:
  assumes "lock s = None" and "wpcs s ! i \<noteq> F_wait" and "wpcs s ! i \<noteq> W_done"
  shows "worker_thread i True s \<noteq> None"
  using assms by (cases "wpcs s ! i") (auto simp: worker_thread_def pool_find_def pool_remove_def take_lock_def split: option.splits)

lemma pool_enabled:
  assumes inv: "pool_inv n s" and m: "mpc s \<noteq> M_done"
  shows "\<exists>e t. \<not> spurious e \<and> calm e \<and> pool_step n e s = Some t"
proof -
  have alive: "mpc s \<noteq> M_exit \<and> mpc s \<noteq> M_crash" by (rule inv_alive [OF inv])
  have main: ?thesis if "pool_main n (Some a) s \<noteq> None" for a
    using that alive by (intro exI [of _ "Main (Some a)"]) (auto simp: pool_step_def)
  have worker: ?thesis if "i < length (wpcs s)" "worker_thread i True s \<noteq> None" for i
    using that alive by (intro exI [of _ "Worker i True"]) (auto simp: pool_step_def)
  have lock: "lock_ok (lock s) (mpc s) (wpcs s)" and mok: "main_ok n (mpc s) (wpcs s)" using inv by (auto simp: pool_inv_def)
  have free: "lock s = None \<or> (\<exists>i < length (wpcs s). holds (wpcs s ! i))" if "\<not> main_holds (mpc s)"
  proof (cases "lock s")
    case (Some l)
    then show ?thesis using lock that by (cases l) (auto simp: lock_ok_def)
  qed simp
  show ?thesis
  proof (cases "mpc s")
    case (M_job i)
    have "finite (dom (dheap (pq s)))"
      using inv by (auto simp: pool_inv_def dest: jobs_finite)
    then obtain a where "a \<notin> dom (dheap (pq s))" using ex_new_if_finite [OF infinite_UNIV_nat] by blast
    then show ?thesis using M_job by (intro main [of a]) (auto simp: pool_main_def)
  next
    case (M_lock i j)
    then show ?thesis
    proof (cases "lock s = None")
      case False
      then show ?thesis using free M_lock holder_enabled [OF inv] worker by auto
    qed (use main in \<open>auto simp: pool_main_def pool_put_def take_lock_def\<close>)
  next
    case (M_join i)
    show ?thesis
    proof (cases "i < n \<and> wpcs s ! i \<noteq> W_done")
      case True
      have "wpcs s ! i \<noteq> F_wait" using inv True M_join mok by (auto simp: pool_inv_def wait_ok_def)
      then show ?thesis using free M_join holder_enabled [OF inv] awake_enabled [of s i] worker True mok by auto
    qed (use M_join main in \<open>auto simp: pool_main_def\<close>)
  qed (use main alive m in \<open>auto simp: pool_main_def pool_put_def split: option.splits\<close>)
qed


subsection \<open>The property\<close>

text \<open>The runs in which no call fails.\<close>

definition pool_act :: "nat \<Rightarrow> event \<Rightarrow> pool \<Rightarrow> pool option" where
  "pool_act n e s = (if calm e then pool_step n e s else None)"

lemma act_lowers:
  assumes inv: "pool_inv n s" and e: "\<not> spurious e" "pool_act n e s = Some t"
  shows "pool_cost n t < pool_cost n s"
proof -
  have st: "calm e" "pool_step n e s = Some t" using e(2) by (auto simp: pool_act_def split: if_splits)
  have "mpc t \<noteq> M_crash" using inv_alive [OF step_keeps [OF inv st]] by simp
  then show ?thesis using st e(1) inv main_lowers [of n s] worker_moves [of _ s t] cost_down
    by (cases e) (fastforce simp: pool_step_def pool_inv_def pool_cost_def split: if_splits)+
qed

lemma act_raises:
  assumes "spurious e" and "pool_act n e s = Some t"
  shows "pool_cost n t \<le> pool_cost n s + 2"
proof (cases e)
  case (Spurious i)
  then have i: "i < length (wpcs s)" "wpcs s ! i = F_wait" "t = goto i F_relock s"
    using assms by (auto simp: pool_act_def pool_step_def split: if_splits)
  then show ?thesis using cost_goto [OF i(1), of F_relock] by (simp add: goto_def pool_cost_def)
qed (use assms in simp_all)

interpretation worker_pool: ending_system "pool_inv n" "pool_act n" spurious "pool_cost n" 2 "\<lambda>s. mpc s = M_done" for n
proof unfold_locales
  show "pool_inv n t" if "pool_inv n s" "pool_act n e s = Some t" for s e t
    using that step_keeps by (auto simp: pool_act_def split: if_splits)
  show "\<exists>e t. \<not> spurious e \<and> pool_act n e s = Some t" if "pool_inv n s" "mpc s \<noteq> M_done" for s
    using pool_enabled [OF that] by (auto simp: pool_act_def)
qed (rule act_lowers act_raises; assumption)+

lemma pool_start_inv: "dheap q = Map.empty \<Longrightarrow> pool_inv n (pool_start q)"
  by (rule pool_invI [of _ _ "[]"])
    (auto simp: pool_start_def pool_init_def jobs_ok_def isq_def lock_ok_def log_ok_def wait_ok_def)

lemma pool_start_cost: "pool_cost n (pool_start q) = 2 * n ^ 2 + 17 * n + 4"
  by (simp add: pool_cost_def pool_start_def jobs_cost_def power2_eq_square algebra_simps)

lemma done_state:
  assumes inv: "pool_inv n s" and m: "mpc s = M_done"
  shows "(\<forall>i < n. wpcs s ! i = W_done) \<and> qhead (pq s) = None \<and> dheap (pq s) = Map.empty \<and>
    mset (worked s) = mset (map (\<lambda>i. (i, int i)) [0..<n])"
proof -
  obtain xs where jobs: "jobs_ok n None xs (pq s) (map role_of (wpcs s))" using inv m by (auto simp: pool_inv_def)
  have pcs: "length (wpcs s) = n" "\<forall>i < n. wpcs s ! i = W_done" and log: "log_ok (worked s) (wpcs s)"
    using inv m by (auto simp: pool_inv_def)
  have rs: "map role_of (wpcs s) = replicate n Gone" using pcs by (auto intro!: nth_equalityI)
  have "xs = []"
  proof (cases xs)
    case (Cons x ys)
    then have "x \<in> set xs" by simp
    then show ?thesis using jobs_okD(5) [OF jobs, of x] unfolding rs by auto
  qed
  then have "qhead (pq s) = None" "dom (dheap (pq s)) = {}"
    using jobs_okD(1) [OF jobs] jobs_okD(4) [OF jobs] unfolding rs by (auto simp: isq_def split: if_splits)
  moreover have "mset (worked s) = mset (map (\<lambda>i. (i, int i)) [0..<n])"
  proof -
    have "set (worked s) = set (map (\<lambda>i. (i, int i)) [0..<n])" using log pcs by (auto simp: log_ok_def)
    moreover have "distinct (map (\<lambda>i. (i, int i)) [0..<n])" by (simp add: distinct_map inj_on_def)
    moreover have "distinct (worked s)" using log by (simp add: log_ok_def)
    ultimately show ?thesis using set_eq_iff_mset_eq_distinct by blast
  qed
  ultimately show ?thesis using pcs(2) by simp
qed

text \<open>
  C30. The program finishes: whatever the interleaving of \<open>main\<close> with its \<open>n\<close> threads and however often a thread wakes up without a
  broadcast, if no call fails there is no deadlock and no lost wakeup, the number of steps is bounded, a state in which
  every thread has ended can always be reached, and then each thread has done exactly its own job,
  the queue is empty and every job is freed.
\<close>

theorem worker_pool_finishes:
  assumes "dheap q = Map.empty" and "exec (pool_act n) es (pool_start q) = Some s"
  shows "(\<exists>es' t. exec (pool_act n) es' s = Some t \<and> mpc t = M_done) \<and>
    (mpc s = M_done \<or> (\<exists>e t. \<not> spurious e \<and> pool_act n e s = Some t)) \<and>
    length (filter (\<lambda>e. \<not> spurious e) es) \<le> 2 * n ^ 2 + 17 * n + 4 + 2 * length (filter spurious es) \<and>
    (mpc s = M_done \<longrightarrow> (\<forall>i < n. wpcs s ! i = W_done) \<and> qhead (pq s) = None \<and> dheap (pq s) = Map.empty \<and>
       mset (worked s) = mset (map (\<lambda>i. (i, int i)) [0..<n]))"
proof -
  have start: "pool_inv n (pool_start q)" by (rule pool_start_inv [OF assms(1)])
  have inv: "pool_inv n s" by (rule worker_pool.run_keeps [OF start assms(2)])
  have "mpc s = M_done \<or> (\<exists>e t. \<not> spurious e \<and> pool_act n e s = Some t)" using worker_pool.enabled [OF inv] by blast
  moreover have "\<exists>es' t. exec (pool_act n) es' s = Some t \<and> mpc t = M_done" using worker_pool.run_finishes [OF inv] by blast
  ultimately show ?thesis using worker_pool.run_bounded [OF start assms(2)] done_state [OF inv] by (simp add: pool_start_cost)
qed

theorem worker_pool_finishes_witness:
  "\<exists>s t es. exec (pool_act 1) [Main (Some 0), Worker 0 True, Worker 0 True, Main (Some 0), Main (Some 7)]
      (pool_start \<lparr>dheap = Map.empty, qhead = None, qtail = None\<rparr>) = Some s \<and> wpcs s = [F_wait] \<and> mpc s = M_lock 0 7 \<and>
     exec (pool_act 1) es s = Some t \<and> mpc t = M_done"
proof -
  let ?q = "\<lparr>dheap = Map.empty, qhead = None, qtail = None\<rparr> :: pjob dq"
  let ?es = "[Main (Some 0), Worker 0 True, Worker 0 True, Main (Some 0), Main (Some 7)]"
  obtain s where s: "exec (pool_act 1) ?es (pool_start ?q) = Some s" "wpcs s = [F_wait]" "mpc s = M_lock 0 7"
    by (simp add: pool_act_def pool_step_def pool_start_def pool_init_def pool_main_def worker_thread_def pool_find_def take_lock_def
        goto_def find_from.simps)
  then show ?thesis using worker_pool_finishes [of ?q 1 ?es s] by auto
qed

end
