(* ===== verification/TellWait.thy ===== *)
theory TellWait
  imports Progress
begin

section \<open>Parent and child that take turns (lib/tellwait.c, Chapter15/exercise_15.c)\<close>

text \<open>
  \<open>TELL_WAIT\<close> blocks two signals, each process waits for its own one in \<open>WAIT_PARENT\<close> or \<open>WAIT_CHILD\<close> and sends the other by
  \<open>TELL_CHILD\<close> or \<open>TELL_PARENT\<close>. In \<open>exercise_15.c\<close>, as in \<open>ipc1/devzero.c\<close>, the two increment a counter in shared memory in turn. A
  process has its place in the code, the flag that its handler sets, whether its signal is blocked and whether one is
  pending (signals do not queue). Delivery of a pending signal is an event of its own: it can come at any
  time while the signal is not blocked, and it ends \<open>sigsuspend\<close>, which unblocks all signals while it waits.
  \<open>old\<close> tells whether the signals were blocked before \<open>TELL_WAIT\<close>.
\<close>

datatype place = Load | Store | Tell | Check | Suspend | Asleep | Clear | Restore | After | Exit | Ended | Failed

record proc =
  place :: place
  sigflag :: bool
  masked :: bool
  pending :: bool
  turn :: nat        \<comment> \<open>the loop variable\<close>
  counter :: int

record duo =
  parent :: proc
  child :: proc
  area :: int

definition sig_usr :: "proc \<Rightarrow> proc" where
  "sig_usr p = p\<lparr>sigflag := True\<rparr>"

definition tell_wait :: "place \<Rightarrow> nat \<Rightarrow> proc" where
  "tell_wait pl i = \<lparr>place = pl, sigflag = False, masked = True, pending = False, turn = i, counter = 0\<rparr>"

text \<open>\<open>WAIT_PARENT\<close> and \<open>WAIT_CHILD\<close>, which are the same code: the test of the loop, \<open>sigsuspend\<close>, and the two statements after the loop.\<close>

definition wait_step :: "bool \<Rightarrow> proc \<Rightarrow> proc option" where
  "wait_step old p =
     (case place p of
        Check \<Rightarrow> Some (p\<lparr>place := if sigflag p then Clear else Suspend\<rparr>)
      | Suspend \<Rightarrow> Some (p\<lparr>place := Asleep\<rparr>)
      | Clear \<Rightarrow> Some (p\<lparr>sigflag := False, place := Restore\<rparr>)
      | Restore \<Rightarrow> Some (p\<lparr>masked := old, place := After\<rparr>)
      | _ \<Rightarrow> None)"

definition deliver :: "proc \<Rightarrow> proc option" where
  "deliver p =
     (if pending p \<and> (place p = Asleep \<or> \<not> masked p) then
        Some ((sig_usr p)\<lparr>pending := False, place := if place p = Asleep then Check else place p\<rparr>)
      else None)"

text \<open>\<open>kill\<close> from \<open>TELL_CHILD\<close> and \<open>TELL_PARENT\<close>.\<close>

definition tell :: "proc \<Rightarrow> proc" where
  "tell p = p\<lparr>pending := True\<rparr>"

text \<open>\<open>update\<close> is a load and a store; the caller compares what was loaded with its loop variable.\<close>

definition update_load :: "duo \<Rightarrow> proc \<Rightarrow> proc" where
  "update_load s p = p\<lparr>counter := area s, place := Store\<rparr>"

definition update_store :: "proc \<Rightarrow> int \<times> proc" where
  "update_store p = (counter p + 1, p\<lparr>place := if counter p = int (turn p) then Tell else Failed\<rparr>)"

text \<open>The loops of the parent and of the child, with \<open>n\<close> for \<open>NLOOPS\<close>.\<close>

definition parent_step :: "nat \<Rightarrow> bool \<Rightarrow> duo \<Rightarrow> duo option" where
  "parent_step n old s =
     (let p = parent s in
      case place p of
        Load \<Rightarrow> Some (s\<lparr>parent := update_load s p\<rparr>)
      | Store \<Rightarrow> (case update_store p of (v, p) \<Rightarrow> Some (s\<lparr>parent := p, area := v\<rparr>))
      | Tell \<Rightarrow> Some (s\<lparr>parent := p\<lparr>place := Check\<rparr>, child := tell (child s)\<rparr>)
      | After \<Rightarrow> Some (s\<lparr>parent := p\<lparr>turn := turn p + 2, place := if turn p + 2 < n then Load else Exit\<rparr>\<rparr>)
      | Exit \<Rightarrow> if place (child s) = Ended then Some (s\<lparr>parent := p\<lparr>place := Ended\<rparr>\<rparr>) else None
      | _ \<Rightarrow> map_option (\<lambda>p. s\<lparr>parent := p\<rparr>) (wait_step old p))"

definition child_step :: "nat \<Rightarrow> bool \<Rightarrow> duo \<Rightarrow> duo option" where
  "child_step n old s =
     (let p = child s in
      case place p of
        After \<Rightarrow> Some (s\<lparr>child := p\<lparr>place := Load\<rparr>\<rparr>)
      | Load \<Rightarrow> Some (s\<lparr>child := update_load s p\<rparr>)
      | Store \<Rightarrow> (case update_store p of (v, p) \<Rightarrow> Some (s\<lparr>child := p, area := v\<rparr>))
      | Tell \<Rightarrow> Some (s\<lparr>child := p\<lparr>turn := turn p + 2, place := if turn p + 2 < n + 1 then Check else Exit\<rparr>, parent := tell (parent s)\<rparr>)
      | Exit \<Rightarrow> Some (s\<lparr>child := p\<lparr>place := Ended\<rparr>\<rparr>)
      | _ \<Rightarrow> map_option (\<lambda>p. s\<lparr>child := p\<rparr>) (wait_step old p))"

datatype turn_event = Parent | Child | DeliverP | DeliverC

fun duo_step :: "nat \<Rightarrow> bool \<Rightarrow> turn_event \<Rightarrow> duo \<Rightarrow> duo option" where
  "duo_step n old Parent s = parent_step n old s"
| "duo_step n old Child s = child_step n old s"
| "duo_step n old DeliverP s = map_option (\<lambda>p. s\<lparr>parent := p\<rparr>) (deliver (parent s))"
| "duo_step n old DeliverC s = map_option (\<lambda>p. s\<lparr>child := p\<rparr>) (deliver (child s))"

text \<open>Both processes after \<open>fork\<close>, with a new shared counter.\<close>

definition duo_start :: "nat \<Rightarrow> duo" where
  "duo_start n = \<lparr>parent = tell_wait (if 0 < n then Load else Exit) 0, child = tell_wait (if 1 < n + 1 then Check else Exit) 1, area = 0\<rparr>"

subsection \<open>Whose turn it is\<close>

definition waits :: "proc \<Rightarrow> bool" where
  "waits p \<longleftrightarrow> place p \<in> {Check, Suspend, Asleep}"

text \<open>No signal is on its way to the process, or exactly one.\<close>

definition quiet :: "proc \<Rightarrow> bool" where
  "quiet p \<longleftrightarrow> \<not> pending p \<and> \<not> sigflag p"

definition called :: "proc \<Rightarrow> bool" where
  "called p \<longleftrightarrow> (pending p \<longleftrightarrow> \<not> sigflag p) \<and> (waits p \<or> place p = Clear \<and> sigflag p)"

definition updating :: "duo \<Rightarrow> proc \<Rightarrow> bool" where
  "updating s p \<longleftrightarrow> quiet p \<and> (place p = Load \<and> area s = int (turn p) \<or>
     place p = Store \<and> area s = int (turn p) \<and> counter p = int (turn p) \<or> place p = Tell \<and> area s = int (turn p) + 1)"

text \<open>\<open>i\<close> is the loop variable of the parent: the parent updates, the child is called, the child updates, the parent is called, the end.\<close>

definition parent_turn :: "nat \<Rightarrow> duo \<Rightarrow> bool" where
  "parent_turn n s \<longleftrightarrow> updating s (parent s) \<and> waits (child s) \<and> quiet (child s) \<and> turn (parent s) < n \<and> turn (child s) = turn (parent s) + 1"

definition child_called :: "nat \<Rightarrow> duo \<Rightarrow> bool" where
  "child_called n s \<longleftrightarrow> called (child s) \<and> waits (parent s) \<and> quiet (parent s) \<and> turn (parent s) < n \<and> turn (child s) = turn (parent s) + 1 \<and>
     area s = int (turn (child s))"

definition child_turn :: "nat \<Rightarrow> duo \<Rightarrow> bool" where
  "child_turn n s \<longleftrightarrow> (updating s (child s) \<or> quiet (child s) \<and> place (child s) \<in> {Restore, After} \<and> area s = int (turn (child s))) \<and>
     waits (parent s) \<and> quiet (parent s) \<and> turn (parent s) < n \<and> turn (child s) = turn (parent s) + 1"

definition parent_called :: "nat \<Rightarrow> duo \<Rightarrow> bool" where
  "parent_called n s \<longleftrightarrow> (called (parent s) \<or> quiet (parent s) \<and> place (parent s) \<in> {Restore, After}) \<and> turn (parent s) < n \<and>
     turn (child s) = turn (parent s) + 3 \<and> area s = int (turn (parent s)) + 2 \<and> quiet (child s) \<and>
     (if turn (parent s) + 2 < n then waits (child s) else place (child s) \<in> {Exit, Ended})"

definition all_over :: "nat \<Rightarrow> duo \<Rightarrow> bool" where
  "all_over n s \<longleftrightarrow> quiet (parent s) \<and> quiet (child s) \<and> place (parent s) \<in> {Exit, Ended} \<and> place (child s) \<in> {Exit, Ended} \<and>
     (place (parent s) = Ended \<longrightarrow> place (child s) = Ended) \<and> area s = int (2 * ((n + 1) div 2)) \<and> even (turn (parent s))"

definition duo_inv :: "nat \<Rightarrow> duo \<Rightarrow> bool" where
  "duo_inv n s \<longleftrightarrow> even (turn (parent s)) \<and> (parent_turn n s \<or> child_called n s \<or> child_turn n s \<or> parent_called n s \<or> all_over n s)"

lemmas turn_defs = parent_turn_def child_called_def child_turn_def parent_called_def all_over_def updating_def called_def quiet_def waits_def

lemmas act_defs = parent_step_def child_step_def wait_step_def deliver_def tell_def update_load_def update_store_def sig_usr_def Let_def

lemma duo_start_inv: "duo_inv n (duo_start n)"
  by (auto simp: duo_inv_def turn_defs duo_start_def tell_wait_def)

text \<open>A process that waits and is not called stays so; one that is called comes to the end of its wait.\<close>

lemma wait_quiet: "wait_step old p = Some q \<Longrightarrow> quiet p \<Longrightarrow> waits p \<Longrightarrow> quiet q \<and> waits q \<and> turn q = turn p"
  by (auto simp: wait_step_def quiet_def waits_def)

lemma wait_called: "wait_step old p = Some q \<Longrightarrow> called p \<Longrightarrow> (called q \<or> quiet q \<and> place q = Restore) \<and> turn q = turn p"
  by (auto simp: wait_step_def called_def quiet_def waits_def)

lemma deliver_quiet [simp]: "quiet p \<Longrightarrow> deliver p = None"
  by (simp add: deliver_def quiet_def)

lemma deliver_called: "deliver p = Some q \<Longrightarrow> called p \<Longrightarrow> called q \<and> turn q = turn p"
  by (auto simp: deliver_def called_def sig_usr_def waits_def split: if_splits)

lemma called_tell: "quiet p \<Longrightarrow> waits p \<Longrightarrow> called (tell p)"
  by (simp add: quiet_def called_def tell_def waits_def)

lemma tell_same [simp]: "place (tell p) = place p" "sigflag (tell p) = sigflag p" "masked (tell p) = masked p" "turn (tell p) = turn p"
  by (simp_all add: tell_def)

lemma called_place: "called p \<Longrightarrow> place p \<in> {Check, Suspend, Asleep, Clear}"
  by (auto simp: called_def waits_def)

lemma waits_place: "waits p \<Longrightarrow> place p \<in> {Check, Suspend, Asleep, Clear}"
  by (auto simp: waits_def)

lemma parent_waits:
  "parent_step n old s = Some t \<Longrightarrow> place (parent s) \<in> {Check, Suspend, Asleep, Clear} \<Longrightarrow>
    \<exists>p. wait_step old (parent s) = Some p \<and> t = s\<lparr>parent := p\<rparr>"
  by (auto simp: parent_step_def)

lemma child_waits:
  "child_step n old s = Some t \<Longrightarrow> place (child s) \<in> {Check, Suspend, Asleep, Clear} \<Longrightarrow>
    \<exists>p. wait_step old (child s) = Some p \<and> t = s\<lparr>child := p\<rparr>"
  by (auto simp: child_step_def)

lemma parent_acts:
  "place (parent s) = Load \<Longrightarrow> parent_step n old s = Some (s\<lparr>parent := (parent s)\<lparr>counter := area s, place := Store\<rparr>\<rparr>)"
  "place (parent s) = Store \<Longrightarrow> counter (parent s) = int (turn (parent s)) \<Longrightarrow>
    parent_step n old s = Some (s\<lparr>parent := (parent s)\<lparr>place := Tell\<rparr>, area := int (turn (parent s)) + 1\<rparr>)"
  "place (parent s) = Tell \<Longrightarrow> parent_step n old s = Some (s\<lparr>parent := (parent s)\<lparr>place := Check\<rparr>, child := tell (child s)\<rparr>)"
  "place (parent s) = Restore \<Longrightarrow> parent_step n old s = Some (s\<lparr>parent := (parent s)\<lparr>masked := old, place := After\<rparr>\<rparr>)"
  "place (parent s) = After \<Longrightarrow> parent_step n old s =
     Some (s\<lparr>parent := (parent s)\<lparr>turn := turn (parent s) + 2, place := if turn (parent s) + 2 < n then Load else Exit\<rparr>\<rparr>)"
  "place (parent s) = Exit \<Longrightarrow> parent_step n old s =
     (if place (child s) = Ended then Some (s\<lparr>parent := (parent s)\<lparr>place := Ended\<rparr>\<rparr>) else None)"
  "place (parent s) = Ended \<Longrightarrow> parent_step n old s = None"
  by (simp_all add: parent_step_def update_load_def update_store_def wait_step_def Let_def)

lemma child_acts:
  "place (child s) = Load \<Longrightarrow> child_step n old s = Some (s\<lparr>child := (child s)\<lparr>counter := area s, place := Store\<rparr>\<rparr>)"
  "place (child s) = Store \<Longrightarrow> counter (child s) = int (turn (child s)) \<Longrightarrow>
    child_step n old s = Some (s\<lparr>child := (child s)\<lparr>place := Tell\<rparr>, area := int (turn (child s)) + 1\<rparr>)"
  "place (child s) = Tell \<Longrightarrow> child_step n old s =
     Some (s\<lparr>child := (child s)\<lparr>turn := turn (child s) + 2, place := if turn (child s) + 2 < n + 1 then Check else Exit\<rparr>, parent := tell (parent s)\<rparr>)"
  "place (child s) = Restore \<Longrightarrow> child_step n old s = Some (s\<lparr>child := (child s)\<lparr>masked := old, place := After\<rparr>\<rparr>)"
  "place (child s) = After \<Longrightarrow> child_step n old s = Some (s\<lparr>child := (child s)\<lparr>place := Load\<rparr>\<rparr>)"
  "place (child s) = Exit \<Longrightarrow> child_step n old s = Some (s\<lparr>child := (child s)\<lparr>place := Ended\<rparr>\<rparr>)"
  "place (child s) = Ended \<Longrightarrow> child_step n old s = None"
  by (simp_all add: child_step_def update_load_def update_store_def wait_step_def Let_def)

lemma keeps_parent_turn:
  assumes inv: "parent_turn n s" and t: "duo_step n old e s = Some t"
  shows "(parent_turn n t \<or> child_called n t) \<and> turn (parent t) = turn (parent s)"
proof (cases e)
  case Parent
  have c: "called (tell (child s))" using inv by (auto simp: parent_turn_def intro: called_tell)
  have q: "quiet (parent s)" "waits (child s)" "quiet (child s)" using inv by (auto simp: parent_turn_def updating_def)
  consider (L) "place (parent s) = Load" | (S) "place (parent s) = Store" | (T) "place (parent s) = Tell"
    using inv by (auto simp: parent_turn_def updating_def)
  then show ?thesis
  proof cases
    case L
    then have "t = s\<lparr>parent := (parent s)\<lparr>counter := area s, place := Store\<rparr>\<rparr>" using t Parent by (simp add: parent_acts)
    then show ?thesis using inv L q by (simp add: parent_turn_def updating_def quiet_def)
  next
    case S
    then have "t = s\<lparr>parent := (parent s)\<lparr>place := Tell\<rparr>, area := int (turn (parent s)) + 1\<rparr>"
      using t inv Parent by (simp add: parent_turn_def updating_def parent_acts)
    then show ?thesis using inv S q by (simp add: parent_turn_def updating_def quiet_def)
  next
    case T
    then have "t = s\<lparr>parent := (parent s)\<lparr>place := Check\<rparr>, child := tell (child s)\<rparr>" using t Parent by (simp add: parent_acts)
    then show ?thesis using inv T q c by (simp add: parent_turn_def child_called_def updating_def quiet_def waits_def)
  qed
next
  case Child
  then obtain p where p: "wait_step old (child s) = Some p" "t = s\<lparr>child := p\<rparr>"
    using t child_waits [of n old s t] waits_place inv by (auto simp: parent_turn_def)
  then show ?thesis using inv wait_quiet [OF p(1)] by (auto simp: parent_turn_def updating_def)
qed (use inv t in \<open>auto simp: parent_turn_def updating_def\<close>)

lemma keeps_child_called:
  assumes inv: "child_called n s" and t: "duo_step n old e s = Some t"
  shows "(child_called n t \<or> child_turn n t) \<and> turn (parent t) = turn (parent s)"
proof (cases e)
  case Parent
  then obtain p where p: "wait_step old (parent s) = Some p" "t = s\<lparr>parent := p\<rparr>"
    using t parent_waits [of n old s t] waits_place inv by (auto simp: child_called_def)
  then show ?thesis using inv wait_quiet [OF p(1)] by (auto simp: child_called_def)
next
  case Child
  then obtain p where p: "wait_step old (child s) = Some p" "t = s\<lparr>child := p\<rparr>"
    using t child_waits [of n old s t] called_place inv by (auto simp: child_called_def)
  then show ?thesis using inv wait_called [OF p(1)] by (auto simp: child_called_def child_turn_def)
next
  case DeliverC
  then obtain p where p: "deliver (child s) = Some p" "t = s\<lparr>child := p\<rparr>" using t by auto
  then show ?thesis using inv deliver_called [OF p(1)] by (auto simp: child_called_def)
qed (use inv t in \<open>auto simp: child_called_def\<close>)

lemma keeps_child_turn:
  assumes inv: "child_turn n s" and t: "duo_step n old e s = Some t"
  shows "(child_turn n t \<or> parent_called n t) \<and> turn (parent t) = turn (parent s)"
proof (cases e)
  case Parent
  then obtain p where p: "wait_step old (parent s) = Some p" "t = s\<lparr>parent := p\<rparr>"
    using t parent_waits [of n old s t] waits_place inv by (auto simp: child_turn_def)
  moreover have "updating (s\<lparr>parent := p\<rparr>) = updating s" by (simp add: updating_def fun_eq_iff)
  ultimately show ?thesis using inv wait_quiet [OF p(1)] by (auto simp: child_turn_def)
next
  case Child
  have c: "called (tell (parent s))" using inv by (auto simp: child_turn_def intro: called_tell)
  have q: "quiet (child s)" "waits (parent s)" "quiet (parent s)" using inv by (auto simp: child_turn_def updating_def)
  consider (R) "place (child s) = Restore" | (A) "place (child s) = After" | (L) "place (child s) = Load"
    | (S) "place (child s) = Store" | (T) "place (child s) = Tell"
    using inv by (auto simp: child_turn_def updating_def)
  then show ?thesis
  proof cases
    case R
    then have "t = s\<lparr>child := (child s)\<lparr>masked := old, place := After\<rparr>\<rparr>" using t Child by (simp add: child_acts)
    then show ?thesis using inv R q by (simp add: child_turn_def updating_def quiet_def)
  next
    case A
    then have "t = s\<lparr>child := (child s)\<lparr>place := Load\<rparr>\<rparr>" using t Child by (simp add: child_acts)
    then show ?thesis using inv A q by (simp add: child_turn_def updating_def quiet_def)
  next
    case L
    then have "t = s\<lparr>child := (child s)\<lparr>counter := area s, place := Store\<rparr>\<rparr>" using t Child by (simp add: child_acts)
    then show ?thesis using inv L q by (simp add: child_turn_def updating_def quiet_def)
  next
    case S
    then have "t = s\<lparr>child := (child s)\<lparr>place := Tell\<rparr>, area := int (turn (child s)) + 1\<rparr>"
      using t inv Child by (simp add: child_turn_def updating_def child_acts)
    then show ?thesis using inv S q by (simp add: child_turn_def updating_def quiet_def)
  next
    case T
    then have "t = s\<lparr>child := (child s)\<lparr>turn := turn (child s) + 2, place := if turn (child s) + 2 < n + 1 then Check else Exit\<rparr>, parent := tell (parent s)\<rparr>"
      using t Child by (simp add: child_acts)
    then show ?thesis using inv T q c by (simp add: child_turn_def parent_called_def updating_def quiet_def waits_def)
  qed
next
  case DeliverC
  then show ?thesis using inv t by (auto simp: child_turn_def updating_def)
qed (use inv t in \<open>auto simp: child_turn_def\<close>)

lemma rounds: "even i \<Longrightarrow> i < n \<Longrightarrow> \<not> i + 2 < n \<Longrightarrow> int i + 2 = int (2 * ((n + 1) div 2))"
proof -
  assume a: "even i" "i < n" "\<not> i + 2 < n"
  then have "i + 2 = 2 * ((n + 1) div 2)" by (elim evenE) (simp, presburger)
  then show ?thesis by linarith
qed

lemma keeps_parent_called:
  assumes inv: "parent_called n s" "even (turn (parent s))" and t: "duo_step n old e s = Some t"
  shows "(parent_called n t \<or> parent_turn n t \<or> all_over n t) \<and> even (turn (parent t))"
proof (cases e)
  case Parent
  show ?thesis
  proof (cases "called (parent s)")
    case True
    then obtain p where p: "wait_step old (parent s) = Some p" "t = s\<lparr>parent := p\<rparr>"
      using t parent_waits [of n old s t] called_place Parent by auto
    then show ?thesis using inv wait_called [OF p(1) True] by (auto simp: parent_called_def)
  next
    case False
    then have q: "quiet (parent s)" "place (parent s) = Restore \<or> place (parent s) = After" using inv by (auto simp: parent_called_def)
    show ?thesis
    proof (cases "place (parent s) = Restore")
      case True
      then have "t = s\<lparr>parent := (parent s)\<lparr>masked := old, place := After\<rparr>\<rparr>" using t Parent by (simp add: parent_acts)
      then show ?thesis using inv q(1) by (cases "turn (parent s) + 2 < n") (auto simp: parent_called_def quiet_def)
    next
      case R: False
      then have "t = s\<lparr>parent := (parent s)\<lparr>turn := turn (parent s) + 2, place := if turn (parent s) + 2 < n then Load else Exit\<rparr>\<rparr>"
        using t Parent q(2) by (simp add: parent_acts)
      then show ?thesis using inv q(1) rounds [of "turn (parent s)" n]
        by (cases "turn (parent s) + 2 < n") (simp_all add: parent_called_def parent_turn_def all_over_def updating_def quiet_def)
    qed
  qed
next
  case Child
  show ?thesis
  proof (cases "turn (parent s) + 2 < n")
    case True
    then obtain p where p: "wait_step old (child s) = Some p" "t = s\<lparr>child := p\<rparr>"
      using t child_waits [of n old s t] waits_place inv Child by (auto simp: parent_called_def)
    then show ?thesis using inv True wait_quiet [OF p(1)] by (auto simp: parent_called_def)
  next
    case False
    then show ?thesis using inv t Child by (auto simp: parent_called_def child_acts quiet_def)
  qed
next
  case DeliverP
  then obtain p where p: "deliver (parent s) = Some p" "t = s\<lparr>parent := p\<rparr>" using t by auto
  then show ?thesis using inv deliver_called [OF p(1)] by (auto simp: parent_called_def)
qed (use inv t in \<open>auto simp: parent_called_def\<close>)

lemma keeps_all_over:
  assumes inv: "all_over n s" and t: "duo_step n old e s = Some t"
  shows "all_over n t"
  using assms by (cases e) (auto simp: all_over_def quiet_def parent_acts child_acts deliver_def split: if_splits)

lemma duo_keeps: "duo_inv n s \<Longrightarrow> duo_step n old e s = Some t \<Longrightarrow> duo_inv n t"
  using keeps_parent_turn [of n s old e t] keeps_child_called [of n s old e t] keeps_child_turn [of n s old e t]
    keeps_parent_called [of n s old e t] keeps_all_over [of n s old e t]
  by (auto simp: duo_inv_def all_over_def)

subsection \<open>When no signal is lost\<close>

text \<open>
  A signal is lost when it comes between the test of the flag and \<open>sigsuspend\<close>. It cannot while the signals are blocked
  from the start of the wait on. The update comes \<open>first\<close> in a round of the parent and last in one of the child.
\<close>

definition guarded :: "bool \<Rightarrow> bool \<Rightarrow> proc \<Rightarrow> bool" where
  "guarded first old p \<longleftrightarrow> (place p \<in> {Check, Suspend, Asleep, Clear, Restore} \<longrightarrow> masked p) \<and> (place p = After \<and> old \<longrightarrow> masked p) \<and>
     (place p \<in> {Load, Store, Tell} \<and> (first \<or> old) \<longrightarrow> masked p) \<and> (sigflag p \<longrightarrow> place p \<in> {Check, Clear})"

definition safe_inv :: "nat \<Rightarrow> bool \<Rightarrow> duo \<Rightarrow> bool" where
  "safe_inv n old s \<longleftrightarrow> (old \<or> n \<le> 2) \<and> duo_inv n s \<and> guarded True old (parent s) \<and> guarded False old (child s)"

lemma guarded_tell [simp]: "guarded first old (tell p) = guarded first old p"
  by (simp add: guarded_def tell_def)

lemma guarded_wait: "wait_step old p = Some q \<Longrightarrow> guarded first old p \<Longrightarrow> guarded first old q"
  by (cases "place p") (auto simp: wait_step_def guarded_def split: if_splits)

lemma guarded_asleep: "pending p \<Longrightarrow> called p \<Longrightarrow> guarded first old p \<Longrightarrow> masked p"
  by (auto simp: called_def guarded_def waits_def)

lemma guarded_deliver:
  assumes "deliver p = Some q" and "called p" and "guarded first old p"
  shows "guarded first old q \<and> place p = Asleep \<and> place q = Check \<and> sigflag q \<and> turn q = turn p"
proof -
  have "pending p" using assms(1) by (auto simp: deliver_def split: if_splits)
  then have "masked p" using guarded_asleep assms(2,3) by blast
  then show ?thesis using assms(1,3) by (auto simp: deliver_def guarded_def sig_usr_def split: if_splits)
qed

text \<open>Who can get a signal has been called.\<close>

lemma inv_pending: "duo_inv n s \<Longrightarrow> pending (parent s) \<Longrightarrow> called (parent s)" "duo_inv n s \<Longrightarrow> pending (child s) \<Longrightarrow> called (child s)"
  by (auto simp: duo_inv_def parent_turn_def child_called_def child_turn_def parent_called_def all_over_def updating_def quiet_def)

lemma inv_turns: "duo_inv n s \<Longrightarrow> place (child s) = Tell \<Longrightarrow> 1 \<le> turn (child s)"
  by (auto simp: duo_inv_def parent_turn_def child_called_def child_turn_def parent_called_def all_over_def waits_def called_def split: if_splits)

lemma inv_store:
  "duo_inv n s \<Longrightarrow> place (parent s) = Store \<Longrightarrow> counter (parent s) = int (turn (parent s))"
  "duo_inv n s \<Longrightarrow> place (child s) = Store \<Longrightarrow> counter (child s) = int (turn (child s))"
  by (auto simp: duo_inv_def parent_turn_def child_called_def child_turn_def parent_called_def all_over_def waits_def called_def updating_def split: if_splits)

lemma inv_not_failed: "duo_inv n s \<Longrightarrow> place (parent s) \<noteq> Failed \<and> place (child s) \<noteq> Failed"
  by (auto simp: duo_inv_def parent_turn_def child_called_def child_turn_def parent_called_def all_over_def waits_def called_def updating_def split: if_splits)

lemma safe_start: "old \<or> n \<le> 2 \<Longrightarrow> safe_inv n old (duo_start n)"
  using duo_start_inv [of n] by (simp add: safe_inv_def guarded_def duo_start_def tell_wait_def)

lemma guarded_parent:
  assumes inv: "safe_inv n old s" and t: "parent_step n old s = Some t"
  shows "guarded True old (parent t) \<and> guarded False old (child t)"
proof -
  have g: "guarded True old (parent s)" "guarded False old (child s)" "duo_inv n s" "old \<or> n \<le> 2" using inv by (simp_all add: safe_inv_def)
  show ?thesis
  proof (cases "place (parent s) \<in> {Check, Suspend, Asleep, Clear}")
    case True
    then obtain p where "wait_step old (parent s) = Some p" "t = s\<lparr>parent := p\<rparr>" using parent_waits [OF t] by blast
    then show ?thesis using guarded_wait g by auto
  next
    case False
    then show ?thesis using g t [symmetric] inv_store(1) [OF g(3)] inv_not_failed [OF g(3)]
      by (cases "place (parent s)") (auto simp: parent_acts guarded_def split: if_splits)
  qed
qed

lemma guarded_child:
  assumes inv: "safe_inv n old s" and t: "child_step n old s = Some t"
  shows "guarded True old (parent t) \<and> guarded False old (child t)"
proof -
  have g: "guarded True old (parent s)" "guarded False old (child s)" "duo_inv n s" "old \<or> n \<le> 2" using inv by (simp_all add: safe_inv_def)
  show ?thesis
  proof (cases "place (child s) \<in> {Check, Suspend, Asleep, Clear}")
    case True
    then obtain p where "wait_step old (child s) = Some p" "t = s\<lparr>child := p\<rparr>" using child_waits [OF t] by blast
    then show ?thesis using guarded_wait g by auto
  next
    case False
    then show ?thesis using g t [symmetric] inv_store(2) [OF g(3)] inv_not_failed [OF g(3)] inv_turns [OF g(3)]
      by (cases "place (child s)") (auto simp: child_acts guarded_def split: if_splits)
  qed
qed

lemma safe_keeps:
  assumes inv: "safe_inv n old s" and t: "duo_step n old e s = Some t"
  shows "safe_inv n old t"
proof -
  have d: "duo_inv n s" "duo_inv n t" using inv duo_keeps [OF _ t] by (simp_all add: safe_inv_def)
  have pend: "pending p" if "deliver p = Some q" for p q using that by (auto simp: deliver_def split: if_splits)
  have "guarded True old (parent t) \<and> guarded False old (child t)"
  proof (cases e)
    case DeliverP
    then obtain p where p: "deliver (parent s) = Some p" "t = s\<lparr>parent := p\<rparr>" using t by auto
    have "guarded True old p" using guarded_deliver [OF p(1) inv_pending(1) [OF d(1) pend [OF p(1)]]] inv by (simp add: safe_inv_def)
    then show ?thesis using inv p(2) by (simp add: safe_inv_def)
  next
    case DeliverC
    then obtain p where p: "deliver (child s) = Some p" "t = s\<lparr>child := p\<rparr>" using t by auto
    have "guarded False old p" using guarded_deliver [OF p(1) inv_pending(2) [OF d(1) pend [OF p(1)]]] inv by (simp add: safe_inv_def)
    then show ?thesis using inv p(2) by (simp add: safe_inv_def)
  next
    case Parent
    then show ?thesis using guarded_parent [OF inv, of t] t by simp
  next
    case Child
    then show ?thesis using guarded_child [OF inv, of t] t by simp
  qed
  then show ?thesis using inv d(2) by (simp add: safe_inv_def)
qed

subsection \<open>The cost of the rounds\<close>

fun pcost :: "place \<Rightarrow> bool \<Rightarrow> nat" where
  "pcost Load f = 9"
| "pcost Store f = 8"
| "pcost Tell f = 7"
| "pcost Check f = (if f then 3 else 6)"
| "pcost Suspend f = 5"
| "pcost Asleep f = 4"
| "pcost Clear f = 2"
| "pcost Restore f = 1"
| "pcost Exit f = 1"
| "pcost _ f = 0"

fun ccost :: "place \<Rightarrow> bool \<Rightarrow> nat" where
  "ccost Check f = (if f then 6 else 9)"
| "ccost Suspend f = 8"
| "ccost Asleep f = 7"
| "ccost Clear f = 5"
| "ccost Restore f = 4"
| "ccost After f = 3"
| "ccost Load f = 2"
| "ccost Store f = 1"
| "ccost Exit f = 1"
| "ccost _ f = 0"

definition duo_cost :: "nat \<Rightarrow> duo \<Rightarrow> nat" where
  "duo_cost n s = 10 * (n - turn (parent s)) + pcost (place (parent s)) (sigflag (parent s)) +
     10 * (n + 1 - turn (child s)) + ccost (place (child s)) (sigflag (child s))"

lemma wait_lowers:
  "wait_step old p = Some q \<Longrightarrow> pcost (place q) (sigflag q) < pcost (place p) (sigflag p) \<and> ccost (place q) (sigflag q) < ccost (place p) (sigflag p)
    \<and> turn q = turn p"
  by (cases "place p") (auto simp: wait_step_def)

lemma inv_rounds:
  "duo_inv n s \<Longrightarrow> place (parent s) = After \<Longrightarrow> turn (parent s) < n"
  "duo_inv n s \<Longrightarrow> place (child s) = Tell \<Longrightarrow> turn (child s) < n + 1"
  by (auto simp: duo_inv_def parent_turn_def child_called_def child_turn_def parent_called_def all_over_def waits_def called_def updating_def split: if_splits)

lemma duo_lowers:
  assumes inv: "safe_inv n old s" and t: "duo_step n old e s = Some t"
  shows "duo_cost n t < duo_cost n s"
proof -
  have d: "duo_inv n s" using inv by (simp add: safe_inv_def)
  have pend: "pending p" if "deliver p = Some q" for p q using that by (auto simp: deliver_def split: if_splits)
  show ?thesis
  proof (cases e)
    case Parent
    show ?thesis
    proof (cases "place (parent s) \<in> {Check, Suspend, Asleep, Clear}")
      case True
      then obtain p where "wait_step old (parent s) = Some p" "t = s\<lparr>parent := p\<rparr>" using parent_waits [of n old s t] t Parent by auto
      then show ?thesis using wait_lowers by (fastforce simp: duo_cost_def)
    next
      case False
      then show ?thesis using t [symmetric] Parent inv_store(1) [OF d] inv_not_failed [OF d] inv_rounds(1) [OF d]
        by (cases "place (parent s)") (auto simp: parent_acts duo_cost_def split: if_splits)
    qed
  next
    case Child
    show ?thesis
    proof (cases "place (child s) \<in> {Check, Suspend, Asleep, Clear}")
      case True
      then obtain p where "wait_step old (child s) = Some p" "t = s\<lparr>child := p\<rparr>" using child_waits [of n old s t] t Child by auto
      then show ?thesis using wait_lowers by (fastforce simp: duo_cost_def)
    next
      case False
      then show ?thesis using t [symmetric] Child inv_store(2) [OF d] inv_not_failed [OF d] inv_rounds(2) [OF d]
        by (cases "place (child s)") (auto simp: child_acts duo_cost_def split: if_splits)
    qed
  next
    case DeliverP
    then obtain p where p: "deliver (parent s) = Some p" "t = s\<lparr>parent := p\<rparr>" using t by auto
    show ?thesis using guarded_deliver [OF p(1) inv_pending(1) [OF d pend [OF p(1)]]] inv p(2) by (auto simp: safe_inv_def duo_cost_def)
  next
    case DeliverC
    then obtain p where p: "deliver (child s) = Some p" "t = s\<lparr>child := p\<rparr>" using t by auto
    show ?thesis using guarded_deliver [OF p(1) inv_pending(2) [OF d pend [OF p(1)]]] inv p(2) by (auto simp: safe_inv_def duo_cost_def)
  qed
qed


text \<open>As long as the parent has not ended, some process can go on or some signal can be delivered.\<close>

lemma called_enabled:
  assumes "called p" and "guarded first old p"
  shows "(\<exists>q. wait_step old p = Some q) \<or> (\<exists>q. deliver p = Some q)"
  using assms by (cases "place p") (auto simp: called_def waits_def guarded_def wait_step_def deliver_def)

lemma child_called_acts: "called (child s) \<Longrightarrow> wait_step old (child s) = Some q \<Longrightarrow> child_step n old s = Some (s\<lparr>child := q\<rparr>)"
  using called_place [of "child s"] by (auto simp: child_step_def)

lemma parent_called_acts: "called (parent s) \<Longrightarrow> wait_step old (parent s) = Some q \<Longrightarrow> parent_step n old s = Some (s\<lparr>parent := q\<rparr>)"
  using called_place [of "parent s"] by (auto simp: parent_step_def)

lemma updating_place: "updating s p \<Longrightarrow> place p = Load \<or> place p = Store \<and> counter p = int (turn p) \<or> place p = Tell"
  by (auto simp: updating_def)

lemma duo_enabled:
  assumes inv: "safe_inv n old s" and m: "place (parent s) \<noteq> Ended"
  shows "\<exists>e t. duo_step n old e s = Some t"
proof -
  have g: "guarded True old (parent s)" "guarded False old (child s)" using inv by (simp_all add: safe_inv_def)
  have P: ?thesis if "parent_step n old s = Some t" for t using that by (intro exI [of _ Parent]) auto
  have C: ?thesis if "child_step n old s = Some t" for t using that by (intro exI [of _ Child]) auto
  consider "parent_turn n s" | "child_called n s" | "child_turn n s" | "parent_called n s" | "all_over n s"
    using inv by (auto simp: safe_inv_def duo_inv_def)
  then show ?thesis
  proof cases
    case 1
    then show ?thesis using updating_place [of s "parent s"] parent_acts(1-3) [of s n old] P by (auto simp: parent_turn_def)
  next
    case 2
    then have c: "called (child s)" by (simp add: child_called_def)
    from called_enabled [OF c g(2)] show ?thesis
    proof
      assume "\<exists>q. deliver (child s) = Some q"
      then show ?thesis by (intro exI [of _ DeliverC]) auto
    qed (use child_called_acts [OF c] C in blast)
  next
    case 3
    then show ?thesis using updating_place [of s "child s"] child_acts(1-5) [of s n old] C by (auto simp: child_turn_def)
  next
    case 4
    show ?thesis
    proof (cases "called (parent s)")
      case True
      from called_enabled [OF True g(1)] show ?thesis
      proof
        assume "\<exists>q. deliver (parent s) = Some q"
        then show ?thesis by (intro exI [of _ DeliverP]) auto
      qed (use parent_called_acts [OF True] P in blast)
    next
      case False
      then show ?thesis using 4 parent_acts(4,5) [of s n old] P by (auto simp: parent_called_def)
    qed
  next
    case 5
    then show ?thesis using m parent_acts(6) [of s n old] child_acts(6) [of s n old] P C
      by (cases "place (child s) = Ended") (auto simp: all_over_def)
  qed
qed

interpretation turns: ending_system "safe_inv n old" "duo_step n old" "\<lambda>e. False" "duo_cost n" 0 "\<lambda>s. place (parent s) = Ended"
  for n old
  by unfold_locales (auto intro: safe_keeps duo_lowers dest: duo_enabled)

subsection \<open>The properties\<close>

text \<open>
  C31. Mutual exclusion and alternation, with the signals blocked or not and lost or not: in no interleaving of the two processes
  and the delivery of signals are both in \<open>update\<close>, and no check of the counter ever fails; when the
  parent has ended the counter has been incremented once per round by each.
\<close>

theorem turns_alternate:
  assumes "exec (duo_step n old) es (duo_start n) = Some s"
  shows "place (parent s) \<noteq> Failed \<and> place (child s) \<noteq> Failed \<and>
    \<not> (place (parent s) \<in> {Load, Store} \<and> place (child s) \<in> {Load, Store}) \<and>
    (place (parent s) = Ended \<longrightarrow> place (child s) = Ended \<and> area s = int (2 * ((n + 1) div 2)))"
proof -
  have "duo_inv n t" if "exec (duo_step n old) es r = Some t" "duo_inv n r" for es r t
    using that by (induction es arbitrary: r) (auto split: option.splits dest: duo_keeps)
  then have inv: "duo_inv n s" using assms duo_start_inv by blast
  then have "all_over n s" if "place (parent s) = Ended"
    using that by (auto simp: duo_inv_def parent_turn_def child_called_def child_turn_def parent_called_def updating_def waits_def called_def)
  moreover have "\<not> (place (parent s) \<in> {Load, Store} \<and> place (child s) \<in> {Load, Store})"
    using inv by (auto simp: duo_inv_def parent_turn_def child_called_def child_turn_def parent_called_def all_over_def waits_def called_def split: if_splits)
  ultimately show ?thesis using inv_not_failed [OF inv] by (simp add: all_over_def)
qed

definition one_round :: "turn_event list" where
  "one_round = [Parent, Child, Parent, Child, Parent, Parent, Parent, DeliverC, Child, Child, Child, Child, Child, Child, Child,
     DeliverP, Parent, Parent, Parent, Parent, Child, Parent]"

theorem turns_alternate_witness:
  "\<exists>s. exec (duo_step 1 False) one_round (duo_start 1) = Some s \<and> area s = 2 \<and> place (child s) = Ended"
proof -
  obtain s where s: "exec (duo_step 1 False) one_round (duo_start 1) = Some s" "place (parent s) = Ended"
    by (simp add: one_round_def duo_start_def tell_wait_def act_defs)
  then show ?thesis using turns_alternate [OF s(1)] by auto
qed

text \<open>A signal that comes after the test of the flag: the child sleeps with its flag set and nobody will wake it.\<close>

definition lost_signal :: "turn_event list" where
  "lost_signal = [Parent, Parent, Parent, Parent, Parent, Child, Child, DeliverC, Child, Child, Child, Child, Child, Child, Child,
     DeliverP, Parent, Parent, Parent, Parent, Parent, Parent, Child, Parent, DeliverC, Child, Parent, Parent]"

lemma signal_lost:
  assumes "2 < n"
  shows "\<exists>s. exec (duo_step n False) lost_signal (duo_start n) = Some s \<and> place (parent s) \<noteq> Ended \<and> (\<forall>e. duo_step n False e s = None)"
proof -
  obtain s where s: "exec (duo_step n False) lost_signal (duo_start n) = Some s"
      "place (parent s) = Asleep" "place (child s) = Asleep" "\<not> pending (parent s)" "\<not> pending (child s)"
    using assms by (simp add: lost_signal_def duo_start_def tell_wait_def act_defs)
  moreover have "duo_step n False e s = None" for e using s by (cases e) (simp_all add: act_defs)
  ultimately show ?thesis by auto
qed

text \<open>
  C32. When the two come to the end: from every state that can be reached the end can be reached if and only if the signals were already
  blocked before \<open>TELL_WAIT\<close> or there is one round only. With more rounds the first wait unblocks the signals,
  one that comes between the test of the flag and \<open>sigsuspend\<close> is lost, and both sleep forever.
\<close>

theorem turns_end_iff:
  "(\<forall>es s. exec (duo_step n old) es (duo_start n) = Some s \<longrightarrow>
      (\<exists>es' t. exec (duo_step n old) es' s = Some t \<and> place (parent t) = Ended)) \<longleftrightarrow> old \<or> n \<le> 2"
proof
  assume "old \<or> n \<le> 2"
  then have start: "safe_inv n old (duo_start n)" by (rule safe_start)
  show "\<forall>es s. exec (duo_step n old) es (duo_start n) = Some s \<longrightarrow> (\<exists>es' t. exec (duo_step n old) es' s = Some t \<and> place (parent t) = Ended)"
    using turns.run_finishes [OF turns.run_keeps [OF start]] by blast
next
  assume all: "\<forall>es s. exec (duo_step n old) es (duo_start n) = Some s \<longrightarrow> (\<exists>es' t. exec (duo_step n old) es' s = Some t \<and> place (parent t) = Ended)"
  show "old \<or> n \<le> 2"
  proof (rule ccontr)
    assume c: "\<not> (old \<or> n \<le> 2)"
    then obtain s where s: "exec (duo_step n old) lost_signal (duo_start n) = Some s" "place (parent s) \<noteq> Ended" "\<forall>e. duo_step n old e s = None"
      using signal_lost [of n] by auto
    then obtain es t where t: "exec (duo_step n old) es s = Some t" "place (parent t) = Ended" using all by blast
    then show False using s(2,3) by (cases es) auto
  qed
qed

theorem turns_end_iff_witness:
  "(\<exists>es s. exec (duo_step 1000 False) es (duo_start 1000) = Some s \<and>
      \<not> (\<exists>es' t. exec (duo_step 1000 False) es' s = Some t \<and> place (parent t) = Ended)) \<and>
    (\<exists>es t. exec (duo_step 1000 True) es (duo_start 1000) = Some t \<and> place (parent t) = Ended)"
proof
  show "\<exists>es s. exec (duo_step 1000 False) es (duo_start 1000) = Some s \<and>
      \<not> (\<exists>es' t. exec (duo_step 1000 False) es' s = Some t \<and> place (parent t) = Ended)"
    using turns_end_iff [of 1000 False] by auto
  have "exec (duo_step 1000 True) [] (duo_start 1000) = Some (duo_start 1000)" by simp
  then show "\<exists>es t. exec (duo_step 1000 True) es (duo_start 1000) = Some t \<and> place (parent t) = Ended"
    using turns_end_iff [of 1000 True] by blast
qed

end
