(* ===== verification/ErrLib.thy ===== *)
theory ErrLib
  imports CString
begin

section \<open>The error functions (lib/error.c, lib/errorlog.c)\<close>

text \<open>
  The format of a message with its arguments is the text that \<open>printf\<close> makes of them, of any length. The buffer is a list
  of bytes whose first contents are arbitrary; writing outside of it, or looking for the end of a string that has none,
  is \<open>None\<close>. What is printed on \<open>stdout\<close> stays in its buffer until it is flushed; \<open>stderr\<close> is not buffered, and both may be
  the same terminal.
\<close>


record report =
  errno :: int
  strerror :: "int \<Rightarrow> string"
  out_buffer :: string          \<comment> \<open>of stdout\<close>
  terminal :: string
  log_to_stderr :: bool
  openlogs :: "(string \<times> int \<times> int) list"
  syslog :: "(int \<times> string) list"

datatype outcome = Returns | Exits int | Aborts

definition LOG_ERR :: int where "LOG_ERR = 3"

text \<open>\<open>snprintf\<close> with size \<open>n\<close> to the buffer from \<open>off\<close> on; at most \<open>n - 1\<close> bytes and a null byte.\<close>

definition snprintf_at :: "nat \<Rightarrow> nat \<Rightarrow> string \<Rightarrow> string \<Rightarrow> string option" where
  "snprintf_at off n s buf =
     (if n = 0 then Some buf
      else let t = take (n - 1) s @ [NUL] in
        if length buf < off + length t then None else Some (take off buf @ t @ drop (off + length t) buf))"

definition strlen :: "string \<Rightarrow> nat option" where
  "strlen buf = (if NUL \<in> set buf then Some (length (cstr buf)) else None)"

definition strcat :: "string \<Rightarrow> string \<Rightarrow> string option" where
  "strcat buf s =
     (case strlen buf of
        None \<Rightarrow> None
      | Some off \<Rightarrow>
          if length buf < off + length s + 1 then None
          else Some (take off buf @ s @ [NUL] @ drop (off + length s + 1) buf))"

text \<open>The first part, the same in \<open>err_doit\<close> and \<open>log_doit\<close>: the message, the error and the newline.\<close>

definition format_msg :: "bool \<Rightarrow> string \<Rightarrow> string \<Rightarrow> string \<Rightarrow> string option" where
  "format_msg errnoflag errtext msg buf =
     Option.bind (snprintf_at 0 (MAXLINE - 1) msg buf) (\<lambda>buf.
     Option.bind
       (if errnoflag then Option.bind (strlen buf) (\<lambda>k. snprintf_at k (MAXLINE - k - 1) ('': '' @ errtext) buf) else Some buf)
       (\<lambda>buf. strcat buf [NEWLINE]))"

definition fflush :: "report \<Rightarrow> report" where
  "fflush s = s\<lparr>terminal := terminal s @ out_buffer s, out_buffer := []\<rparr>"

definition fputs_err :: "string \<Rightarrow> report \<Rightarrow> report" where
  "fputs_err buf s = s\<lparr>terminal := terminal s @ cstr buf\<rparr>"

definition err_doit :: "bool \<Rightarrow> int \<Rightarrow> string \<Rightarrow> string \<Rightarrow> report \<Rightarrow> report option" where
  "err_doit errnoflag error msg buf s =
     Option.bind (format_msg errnoflag (strerror s error) msg buf) (\<lambda>buf. Some (fflush (fputs_err buf (fflush s))))"

definition log_doit :: "bool \<Rightarrow> int \<Rightarrow> int \<Rightarrow> string \<Rightarrow> string \<Rightarrow> report \<Rightarrow> report option" where
  "log_doit errnoflag error priority msg buf s =
     Option.bind (format_msg errnoflag (strerror s error) msg buf) (\<lambda>buf.
     Some (if log_to_stderr s then fputs_err buf (fflush s) else s\<lparr>syslog := syslog s @ [(priority, cstr buf)]\<rparr>))"

text \<open>The functions; \<open>buf\<close> is what is in the stack buffer at the call.\<close>

type_synonym reporter = "string \<Rightarrow> string \<Rightarrow> report \<Rightarrow> (outcome \<times> report) option"

definition ends :: "outcome \<Rightarrow> report option \<Rightarrow> (outcome \<times> report) option" where
  "ends r = map_option (Pair r)"

definition err_ret :: reporter where "err_ret msg buf s = ends Returns (err_doit True (errno s) msg buf s)"
definition err_sys :: reporter where "err_sys msg buf s = ends (Exits 1) (err_doit True (errno s) msg buf s)"
definition err_cont :: "int \<Rightarrow> reporter" where "err_cont error msg buf s = ends Returns (err_doit True error msg buf s)"
definition err_exit :: "int \<Rightarrow> reporter" where "err_exit error msg buf s = ends (Exits 1) (err_doit True error msg buf s)"
definition err_dump :: reporter where "err_dump msg buf s = ends Aborts (err_doit True (errno s) msg buf s)"
definition err_msg :: reporter where "err_msg msg buf s = ends Returns (err_doit False 0 msg buf s)"
definition err_quit :: reporter where "err_quit msg buf s = ends (Exits 1) (err_doit False 0 msg buf s)"

definition log_open :: "string \<Rightarrow> int \<Rightarrow> int \<Rightarrow> report \<Rightarrow> report" where
  "log_open ident opt facility s = (if \<not> log_to_stderr s then s\<lparr>openlogs := openlogs s @ [(ident, opt, facility)]\<rparr> else s)"

definition log_ret :: reporter where "log_ret msg buf s = ends Returns (log_doit True (errno s) LOG_ERR msg buf s)"
definition log_sys :: reporter where "log_sys msg buf s = ends (Exits 2) (log_doit True (errno s) LOG_ERR msg buf s)"
definition log_msg :: reporter where "log_msg msg buf s = ends Returns (log_doit False 0 LOG_ERR msg buf s)"
definition log_quit :: reporter where "log_quit msg buf s = ends (Exits 2) (log_doit False 0 LOG_ERR msg buf s)"
definition log_exit :: "int \<Rightarrow> reporter" where "log_exit error msg buf s = ends (Exits 2) (log_doit True error LOG_ERR msg buf s)"

subsection \<open>The line that is printed\<close>

text \<open>The message, with the text of the error if there is one, cut to what leaves room for the newline.\<close>

definition error_line :: "string option \<Rightarrow> string \<Rightarrow> string" where
  "error_line err msg = take (MAXLINE - 2) (msg @ (case err of None \<Rightarrow> [] | Some e \<Rightarrow> '': '' @ e)) @ [NEWLINE]"

definition to_terminal :: "string \<Rightarrow> report \<Rightarrow> report" where
  "to_terminal l s = s\<lparr>terminal := terminal s @ out_buffer s @ l, out_buffer := []\<rparr>"

definition to_log :: "string \<Rightarrow> report \<Rightarrow> report" where
  "to_log l s = (if log_to_stderr s then to_terminal l s else s\<lparr>syslog := syslog s @ [(LOG_ERR, l)]\<rparr>)"

text \<open>A buffer of \<open>MAXLINE\<close> bytes that holds the string \<open>s\<close>.\<close>

definition buffer_of :: "string \<Rightarrow> string \<Rightarrow> bool" where
  "buffer_of s buf \<longleftrightarrow> length buf = MAXLINE \<and> nonul s \<and> (\<exists>r. buf = s @ NUL # r)"

lemma buffer_of_cstr: "buffer_of s buf \<Longrightarrow> cstr buf = s \<and> strlen buf = Some (length s) \<and> length s < MAXLINE"
  by (auto simp: buffer_of_def strlen_def)

lemma nonul_take: "nonul s \<Longrightarrow> nonul (take n s)"
  by (auto simp: nonul_def dest: in_set_takeD)

text \<open>Appending to the string in the buffer.\<close>

lemma snprintf_appends:
  assumes "buffer_of s buf" and "nonul t" and "0 < n" and "length s + n \<le> MAXLINE"
  shows "\<exists>b. snprintf_at (length s) n t buf = Some b \<and> buffer_of (s @ take (n - 1) t) b"
proof -
  have l: "length s + length (take (n - 1) t @ [NUL]) \<le> length buf" using assms by (auto simp: buffer_of_def)
  moreover obtain r where "buf = s @ NUL # r" "length buf = MAXLINE" using assms(1) by (auto simp: buffer_of_def)
  ultimately show ?thesis using assms
    by (auto simp: snprintf_at_def Let_def buffer_of_def nonul_take nonul_def dest: in_set_takeD)
qed

lemma snprintf_first:
  assumes "length buf = MAXLINE" and "nonul t"
  shows "\<exists>b. snprintf_at 0 (MAXLINE - 1) t buf = Some b \<and> buffer_of (take (MAXLINE - 2) t) b"
proof -
  have "length (take (MAXLINE - 2) t) \<le> MAXLINE - 2" by simp
  then show ?thesis using assms
    by (auto simp: snprintf_at_def Let_def buffer_of_def nonul_take MAXLINE_def)
qed

lemma strcat_newline:
  assumes "buffer_of s buf" and "length s \<le> MAXLINE - 2"
  shows "\<exists>b. strcat buf [NEWLINE] = Some b \<and> cstr b = s @ [NEWLINE]"
proof -
  obtain r where "buf = s @ NUL # r" "length buf = MAXLINE" "nonul s" using assms(1) by (auto simp: buffer_of_def)
  then show ?thesis using assms buffer_of_cstr [OF assms(1)]
    by (auto simp: strcat_def MAXLINE_def cstr_append)
qed

lemma format_msg_line:
  assumes "length buf = MAXLINE" and "nonul msg" and "nonul errtext"
  shows "\<exists>b. format_msg flag errtext msg buf = Some b \<and> cstr b = error_line (if flag then Some errtext else None) msg"
proof -
  let ?m = "take (MAXLINE - 2) msg"
  obtain b where b: "snprintf_at 0 (MAXLINE - 1) msg buf = Some b" "buffer_of ?m b"
    using snprintf_first [OF assms(1,2)] by blast
  have m: "length ?m \<le> MAXLINE - 2" by simp
  have sl: "strlen b = Some (length ?m)" using buffer_of_cstr [OF b(2)] by simp
  show ?thesis
  proof (cases flag)
    case True
    let ?n = "MAXLINE - length ?m - 1"
    have n: "0 < ?n" "length ?m + ?n \<le> MAXLINE" "?n - 1 = MAXLINE - 2 - length msg"
      using m by (auto simp: MAXLINE_def min_def)
    have "nonul ('': '' @ errtext)" using assms(3) by (simp add: nonul_def)
    then obtain c where c: "snprintf_at (length ?m) ?n ('': '' @ errtext) b = Some c" "buffer_of (?m @ take (?n - 1) ('': '' @ errtext)) c"
      using snprintf_appends [OF b(2) _ n(1,2)] by blast
    have line: "?m @ take (?n - 1) ('': '' @ errtext) = take (MAXLINE - 2) (msg @ '': '' @ errtext)"
      by (simp only: n(3) take_append)
    then have "buffer_of (take (MAXLINE - 2) (msg @ '': '' @ errtext)) c" using c(2) by simp
    then show ?thesis
      using strcat_newline [of "take (MAXLINE - 2) (msg @ '': '' @ errtext)" c] b(1) c(1) sl True
      by (simp add: format_msg_def error_line_def)
  qed (use strcat_newline [OF b(2) m] b in \<open>simp add: format_msg_def error_line_def\<close>)
qed

lemma err_doit_line:
  assumes "length buf = MAXLINE" and "nonul msg" and "\<And>e. nonul (strerror s e)"
  shows "err_doit flag e msg buf s = Some (to_terminal (error_line (if flag then Some (strerror s e) else None) msg) s)"
  using format_msg_line [OF assms(1,2,3), of flag e]
  by (auto simp: err_doit_def fflush_def fputs_err_def to_terminal_def)

lemma log_doit_line:
  assumes "length buf = MAXLINE" and "nonul msg" and "\<And>e. nonul (strerror s e)"
  shows "log_doit flag e LOG_ERR msg buf s = Some (to_log (error_line (if flag then Some (strerror s e) else None) msg) s)"
  using format_msg_line [OF assms(1,2,3), of flag e]
  by (auto simp: log_doit_def fflush_def fputs_err_def to_log_def to_terminal_def)

text \<open>
  C7. Every error function, for a message of any length, an error of any text and a stack buffer with any contents, stays
  within its buffer, prints one line of at most \<open>MAXLINE - 1\<close> bytes that is the message, the text of the error where it is one of a
  system call, and a newline, cut at the same place however long the parts are; on a terminal the line comes after
  what was printed on \<open>stdout\<close> before, and a daemon's goes to the system log. The functions
  then return, exit with their status or dump core.
\<close>

theorem error_reported:
  assumes "length buf = MAXLINE" and "nonul msg" and "\<And>e. nonul (strerror s e)"
  shows "length (error_line err msg) \<le> MAXLINE - 1 \<and>
    err_ret msg buf s = Some (Returns, to_terminal (error_line (Some (strerror s (errno s))) msg) s) \<and>
    err_sys msg buf s = Some (Exits 1, to_terminal (error_line (Some (strerror s (errno s))) msg) s) \<and>
    err_cont error msg buf s = Some (Returns, to_terminal (error_line (Some (strerror s error)) msg) s) \<and>
    err_exit error msg buf s = Some (Exits 1, to_terminal (error_line (Some (strerror s error)) msg) s) \<and>
    err_dump msg buf s = Some (Aborts, to_terminal (error_line (Some (strerror s (errno s))) msg) s) \<and>
    err_msg msg buf s = Some (Returns, to_terminal (error_line None msg) s) \<and>
    err_quit msg buf s = Some (Exits 1, to_terminal (error_line None msg) s) \<and>
    log_ret msg buf s = Some (Returns, to_log (error_line (Some (strerror s (errno s))) msg) s) \<and>
    log_sys msg buf s = Some (Exits 2, to_log (error_line (Some (strerror s (errno s))) msg) s) \<and>
    log_msg msg buf s = Some (Returns, to_log (error_line None msg) s) \<and>
    log_quit msg buf s = Some (Exits 2, to_log (error_line None msg) s) \<and>
    log_exit error msg buf s = Some (Exits 2, to_log (error_line (Some (strerror s error)) msg) s)"
proof -
  have "length (error_line err msg) \<le> MAXLINE - 1" by (simp add: error_line_def MAXLINE_def split: option.split)
  then show ?thesis
    by (simp add: err_ret_def err_sys_def err_cont_def err_exit_def err_dump_def err_msg_def err_quit_def
        log_ret_def log_sys_def log_msg_def log_quit_def log_exit_def ends_def err_doit_line [OF assms] log_doit_line [OF assms])
qed

theorem error_reported_witness:
  "\<exists>s. err_sys (replicate 5000 (CHR ''x'')) (replicate 4096 (CHR ''?''))
      \<lparr>errno = 2, strerror = \<lambda>e. ''no such file'', out_buffer = ''out'', terminal = ''$'', log_to_stderr = False, openlogs = [], syslog = []\<rparr> =
     Some (Exits 1, s) \<and> terminal s = ''$out'' @ replicate 4094 (CHR ''x'') @ [NEWLINE]"
proof -
  let ?s = "\<lparr>errno = 2, strerror = \<lambda>e. ''no such file'', out_buffer = ''out'', terminal = ''$'', log_to_stderr = False, openlogs = [], syslog = []\<rparr> :: report"
  have a: "length (replicate 4096 (CHR ''?'')) = MAXLINE" "nonul (replicate 5000 (CHR ''x''))" "\<And>e. nonul (strerror ?s e)"
    by (simp_all add: MAXLINE_def nonul_def)
  have "err_sys (replicate 5000 (CHR ''x'')) (replicate 4096 (CHR ''?'')) ?s =
      Some (Exits 1, to_terminal (error_line (Some ''no such file'') (replicate 5000 (CHR ''x''))) ?s)"
    using error_reported [OF a, of None 0] by simp
  then show ?thesis by (simp add: to_terminal_def error_line_def MAXLINE_def)
qed

end
