(* ===== verification/MyBarrier.thy ===== *)
theory MyBarrier
  imports Progress Prelude
begin

section \<open>A barrier from a mutex and a condition variable (Chapter11/exercise_5.c)\<close>

text \<open>
  \<open>n\<close> threads call \<open>my_barrier_wait\<close> once. Each has its place in that function; a step is the code up to the next point where
  another thread can interfere. A thread can also wake up although nobody has broadcast, which POSIX allows.
\<close>

datatype bpc =
    B_start | B_body | B_wait | B_relock
  | B_unlock bool | B_bcast bool | B_done bool   \<comment> \<open>whether \<open>rc\<close> is \<open>PTHREAD_BARRIER_SERIAL_THREAD\<close>\<close>

record my_barrier =
  bcount :: int
  bmutex :: "nat option"
  bpcs :: "bpc list"

definition my_barrier_init :: "nat \<Rightarrow> int \<Rightarrow> my_barrier" where
  "my_barrier_init n count = \<lparr>bcount = count, bmutex = None, bpcs = replicate n B_start\<rparr>"

definition goto :: "nat \<Rightarrow> bpc \<Rightarrow> my_barrier \<Rightarrow> my_barrier" where
  "goto i pc b = b\<lparr>bpcs := (bpcs b)[i := pc]\<rparr>"

definition acquire :: "nat \<Rightarrow> my_barrier \<Rightarrow> my_barrier option" where
  "acquire i b = (if bmutex b = None then Some (b\<lparr>bmutex := Some i\<rparr>) else None)"

definition wake_all :: "bpc \<Rightarrow> bpc" where
  "wake_all pc = (if pc = B_wait then B_relock else pc)"

definition my_barrier_wait :: "nat \<Rightarrow> my_barrier \<Rightarrow> my_barrier option" where
  "my_barrier_wait i b =
     (case bpcs b ! i of
        B_start \<Rightarrow> map_option (goto i B_body) (acquire i b)
      | B_body \<Rightarrow>
          (let b = b\<lparr>bcount := bcount b - 1\<rparr>
           in if 0 < bcount b then Some (goto i B_wait (b\<lparr>bmutex := None\<rparr>)) else Some (goto i (B_unlock True) b))
      | B_wait \<Rightarrow> None
      | B_relock \<Rightarrow> map_option (goto i (B_unlock False)) (acquire i b)
      | B_unlock rc \<Rightarrow> Some (goto i (B_bcast rc) (b\<lparr>bmutex := None\<rparr>))
      | B_bcast rc \<Rightarrow> Some (goto i (B_done rc) (b\<lparr>bpcs := map wake_all (bpcs b)\<rparr>))
      | B_done rc \<Rightarrow> None)"

datatype bevent = Run nat | Spurious nat

fun bar_step :: "bevent \<Rightarrow> my_barrier \<Rightarrow> my_barrier option" where
  "bar_step (Run i) b = (if i < length (bpcs b) then my_barrier_wait i b else None)"
| "bar_step (Spurious i) b = (if i < length (bpcs b) \<and> bpcs b ! i = B_wait then Some (goto i B_relock b) else None)"

fun is_spurious :: "bevent \<Rightarrow> bool" where
  "is_spurious (Run i) = False"
| "is_spurious (Spurious i) = True"

subsection \<open>The invariant\<close>

fun arrived :: "bpc \<Rightarrow> bool" where
  "arrived B_start = False"
| "arrived B_body = False"
| "arrived _ = True"

fun has_mutex :: "bpc \<Rightarrow> bool" where
  "has_mutex B_body = True"
| "has_mutex (B_unlock rc) = True"
| "has_mutex _ = False"

fun serial :: "bpc \<Rightarrow> bool" where
  "serial (B_unlock rc) = rc"
| "serial (B_bcast rc) = rc"
| "serial (B_done rc) = rc"
| "serial _ = False"

definition tally :: "(bpc \<Rightarrow> bool) \<Rightarrow> bpc list \<Rightarrow> nat" where
  "tally P pcs = length (filter P pcs)"

definition mutex_ok :: "nat option \<Rightarrow> bpc list \<Rightarrow> bool" where
  "mutex_ok m pcs \<longleftrightarrow> (\<forall>i. m = Some i \<longleftrightarrow> i < length pcs \<and> has_mutex (pcs ! i))"

text \<open>Until all have arrived, those that have are asleep; then there is one serial thread, and who is asleep is woken by it.\<close>

definition phase_ok :: "bpc list \<Rightarrow> bool" where
  "phase_ok pcs \<longleftrightarrow>
     (if tally arrived pcs < length pcs then \<forall>pc \<in> set pcs. arrived pc \<longrightarrow> pc = B_wait
      else tally serial pcs = 1 \<and> (B_wait \<in> set pcs \<longrightarrow> B_unlock True \<in> set pcs \<or> B_bcast True \<in> set pcs))"

definition bar_inv :: "nat \<Rightarrow> my_barrier \<Rightarrow> bool" where
  "bar_inv n b \<longleftrightarrow> 0 < n \<and> length (bpcs b) = n \<and> bcount b = int n - int (tally arrived (bpcs b)) \<and>
     mutex_ok (bmutex b) (bpcs b) \<and> phase_ok (bpcs b)"

lemma tally_update:
  "i < length pcs \<Longrightarrow> tally P (pcs[i := pc]) + (if P (pcs ! i) then 1 else 0) = tally P pcs + (if P pc then 1 else 0)"
proof (induction pcs arbitrary: i)
  case (Cons p pcs)
  then show ?case by (cases i) (auto simp: tally_def)
qed simp

lemma tally_keep: "i < length pcs \<Longrightarrow> P pc = P (pcs ! i) \<Longrightarrow> tally P (pcs[i := pc]) = tally P pcs"
  using tally_update [of i pcs P pc] by (auto split: if_splits)

lemma tally_more: "i < length pcs \<Longrightarrow> P pc \<Longrightarrow> \<not> P (pcs ! i) \<Longrightarrow> tally P (pcs[i := pc]) = tally P pcs + 1"
  using tally_update [of i pcs P pc] by simp

lemma tally_le: "tally P pcs \<le> length pcs"
  by (simp add: tally_def)

lemma tally_less: "pc \<in> set pcs \<Longrightarrow> \<not> P pc \<Longrightarrow> tally P pcs < length pcs"
  unfolding tally_def by (rule length_filter_less)

lemma tally_all: "\<not> tally P pcs < length pcs \<Longrightarrow> pc \<in> set pcs \<Longrightarrow> P pc"
  using tally_less by blast

lemma tally_none: "\<forall>pc \<in> set pcs. \<not> P pc \<Longrightarrow> tally P pcs = 0"
  by (simp add: tally_def filter_empty_conv)

lemma tally_wake: "(\<And>pc. P (wake_all pc) = P pc) \<Longrightarrow> tally P (map wake_all pcs) = tally P pcs"
  by (simp add: tally_def filter_map comp_def)

lemma bar_arrived_wake [simp]: "arrived (wake_all pc) = arrived pc" and bar_serial_wake [simp]: "serial (wake_all pc) = serial pc"
  and mutex_wake [simp]: "has_mutex (wake_all pc) = has_mutex pc" and bar_wake_wait [simp]: "wake_all pc \<noteq> B_wait"
  by (simp_all add: wake_all_def)

lemma mutex_keep: "mutex_ok m pcs \<Longrightarrow> has_mutex pc = has_mutex (pcs ! i) \<Longrightarrow> mutex_ok m (pcs[i := pc])"
  by (auto simp: mutex_ok_def nth_update_if)

lemma mutex_take: "mutex_ok None pcs \<Longrightarrow> i < length pcs \<Longrightarrow> has_mutex pc \<Longrightarrow> mutex_ok (Some i) (pcs[i := pc])"
  by (auto simp: mutex_ok_def nth_update_if)

lemma mutex_free: "mutex_ok m pcs \<Longrightarrow> i < length pcs \<Longrightarrow> has_mutex (pcs ! i) \<Longrightarrow> \<not> has_mutex pc \<Longrightarrow> mutex_ok None (pcs[i := pc])"
proof -
  assume a: "mutex_ok m pcs" "i < length pcs" "has_mutex (pcs ! i)" "\<not> has_mutex pc"
  have "k = i" if "k < length pcs" "has_mutex (pcs ! k)" for k
    using a(1-3) that unfolding mutex_ok_def by (metis option.inject)
  then show ?thesis using a(2,4) by (auto simp: mutex_ok_def nth_update_if)
qed

lemma mutex_all_wake: "mutex_ok m pcs \<Longrightarrow> mutex_ok m (map wake_all pcs)"
  by (simp add: mutex_ok_def cong: conj_cong)

text \<open>A thread that moves between places of the same kind and not to sleep keeps the phase.\<close>

lemma phase_before:
  assumes "phase_ok pcs" and "i < length pcs" and "\<not> arrived (pcs ! i)" and "\<not> arrived pc"
  shows "phase_ok (pcs[i := pc])"
proof -
  have "tally arrived pcs < length pcs" using assms(2,3) tally_less nth_mem by blast
  moreover have "tally arrived (pcs[i := pc]) = tally arrived pcs" using assms by (intro tally_keep) auto
  ultimately show ?thesis using assms(1,4) set_update_subset_insert [of pcs i pc] by (auto simp: phase_ok_def)
qed

lemma phase_after:
  assumes ph: "phase_ok pcs" and i: "i < length pcs" and a: "arrived (pcs ! i)" "arrived pc" and w: "pcs ! i \<noteq> B_wait" "pc \<noteq> B_wait"
    and s: "serial pc = serial (pcs ! i)" and b: "pcs ! i \<notin> {B_unlock True, B_bcast True} \<or> pc \<in> {B_unlock True, B_bcast True}"
  shows "phase_ok (pcs[i := pc])"
proof -
  have t: "tally arrived (pcs[i := pc]) = tally arrived pcs" "tally serial (pcs[i := pc]) = tally serial pcs"
    using i a s by (auto intro!: tally_keep)
  have full: "\<not> tally arrived pcs < length pcs" using ph i a(1) w(1) nth_mem [OF i] by (auto simp: phase_ok_def)
  have wait: "B_wait \<in> set pcs" if "B_wait \<in> set (pcs[i := pc])" using that set_update_subset_insert [of pcs i pc] w(2) by auto
  have other: "x \<in> set (pcs[i := pc])" if "x \<in> set pcs" "x \<noteq> pcs ! i" for x
    using that by (auto simp: in_set_conv_nth) (metis nth_list_update_neq)
  have "B_unlock True \<in> set (pcs[i := pc]) \<or> B_bcast True \<in> set (pcs[i := pc])"
    if "B_unlock True \<in> set pcs \<or> B_bcast True \<in> set pcs"
    using that b other set_update_memI [OF i, of pc] by auto
  then show ?thesis using ph full wait by (auto simp: phase_ok_def t)
qed

lemma bar_wait_keeps:
  assumes inv: "bar_inv n b" and i: "i < length (bpcs b)" and t: "my_barrier_wait i b = Some c"
  shows "bar_inv n c"
proof -
  have ok: "0 < n" "length (bpcs b) = n" "bcount b = int n - int (tally arrived (bpcs b))" "mutex_ok (bmutex b) (bpcs b)" "phase_ok (bpcs b)"
    using inv by (simp_all add: bar_inv_def)
  note defs = my_barrier_wait_def acquire_def goto_def Let_def
  show ?thesis
  proof (cases "bpcs b ! i")
    case B_start
    then have "bmutex b = None" "c = goto i B_body (b\<lparr>bmutex := Some i\<rparr>)" using t by (auto simp: defs split: if_splits)
    then show ?thesis using ok i B_start mutex_take [of "bpcs b" i B_body] phase_before [OF ok(5) i, of B_body]
      by (simp add: bar_inv_def goto_def tally_keep)
  next
    case B_body
    have few: "tally arrived (bpcs b) < n" using ok(2) i B_body tally_less [of "B_body" "bpcs b" arrived] nth_mem [OF i] by auto
    have sleep: "\<forall>pc \<in> set (bpcs b). arrived pc \<longrightarrow> pc = B_wait" using ok(2,5) few by (simp add: phase_ok_def)
    have more: "tally arrived ((bpcs b)[i := pc]) = tally arrived (bpcs b) + 1" if "arrived pc" for pc
      using i B_body that by (intro tally_more) auto
    show ?thesis
    proof (cases "0 < bcount b - 1")
      case True
      then have "c = goto i B_wait (b\<lparr>bcount := bcount b - 1, bmutex := None\<rparr>)" using t B_body by (simp add: defs)
      moreover have "phase_ok ((bpcs b)[i := B_wait])"
        using True ok(2,3) more [of B_wait] sleep set_update_subset_insert [of "bpcs b" i B_wait] by (auto simp: phase_ok_def)
      ultimately show ?thesis using ok i B_body mutex_free [OF ok(4) i, of B_wait] more [of B_wait] by (simp add: bar_inv_def goto_def)
    next
      case False
      then have c: "c = goto i (B_unlock True) (b\<lparr>bcount := bcount b - 1\<rparr>)" using t B_body by (simp add: defs)
      have "tally arrived (bpcs b) + 1 = n" using False ok(3) few by linarith
      moreover have "tally serial (bpcs b) = 0" by (rule tally_none) (use sleep in \<open>metis arrived.simps serial.elims(2) bpc.distinct\<close>)
      then have "tally serial ((bpcs b)[i := B_unlock True]) = 1" using tally_more [OF i, of serial "B_unlock True"] B_body by simp
      ultimately have "phase_ok ((bpcs b)[i := B_unlock True])"
        using ok(2) more [of "B_unlock True"] set_update_memI [OF i, of "B_unlock True"] by (simp add: phase_ok_def)
      then show ?thesis using ok i B_body c mutex_keep [OF ok(4), of "B_unlock True" i] more [of "B_unlock True"]
        by (simp add: bar_inv_def goto_def)
    qed
  next
    case B_wait
    then show ?thesis using t by (simp add: defs)
  next
    case B_relock
    then have "bmutex b = None" "c = goto i (B_unlock False) (b\<lparr>bmutex := Some i\<rparr>)" using t by (auto simp: defs split: if_splits)
    then show ?thesis using ok i B_relock mutex_take [of "bpcs b" i "B_unlock False"] phase_after [OF ok(5) i, of "B_unlock False"]
      by (simp add: bar_inv_def goto_def tally_keep)
  next
    case (B_unlock rc)
    then have "c = goto i (B_bcast rc) (b\<lparr>bmutex := None\<rparr>)" using t by (simp add: defs)
    then show ?thesis using ok i B_unlock mutex_free [OF ok(4) i, of "B_bcast rc"] phase_after [OF ok(5) i, of "B_bcast rc"]
      by (cases rc) (simp_all add: bar_inv_def goto_def tally_keep)
  next
    case (B_bcast rc)
    let ?pcs = "(map wake_all (bpcs b))[i := B_done rc]"
    have c: "c = b\<lparr>bpcs := ?pcs\<rparr>" using t B_bcast by (simp add: defs)
    have wi: "i < length (map wake_all (bpcs b))" "map wake_all (bpcs b) ! i = B_bcast rc" using i B_bcast by (simp_all add: wake_all_def)
    have full: "\<not> tally arrived (bpcs b) < length (bpcs b)" using ok(5) B_bcast nth_mem [OF i] by (fastforce simp: phase_ok_def)
    have ta: "tally arrived ?pcs = tally arrived (bpcs b)" using tally_keep [OF wi(1), of arrived "B_done rc"] wi(2) by (simp add: tally_wake)
    have ts: "tally serial ?pcs = tally serial (bpcs b)" using tally_keep [OF wi(1), of serial "B_done rc"] wi(2) by (simp add: tally_wake)
    have "B_wait \<notin> insert (B_done rc) (set (map wake_all (bpcs b)))" by (simp add: image_iff) (metis bar_wake_wait)
    then have "B_wait \<notin> set ?pcs" using set_update_subset_insert [of "map wake_all (bpcs b)" i "B_done rc"] by blast
    then have "phase_ok ?pcs" using ok(5) full by (simp add: phase_ok_def ta ts)
    then show ?thesis using ok c mutex_keep [OF mutex_all_wake [OF ok(4)], of "B_done rc" i] wi(2) ta by (simp add: bar_inv_def)
  next
    case (B_done rc)
    then show ?thesis using t by (simp add: defs)
  qed
qed

lemma bar_init_inv: "0 < n \<Longrightarrow> bar_inv n (my_barrier_init n (int n))"
  by (simp add: bar_inv_def my_barrier_init_def tally_def mutex_ok_def phase_ok_def)

subsection \<open>The end\<close>

fun bcost :: "bpc \<Rightarrow> nat" where
  "bcost B_start = 6"
| "bcost B_body = 5"
| "bcost B_wait = 4"
| "bcost B_relock = 3"
| "bcost (B_unlock rc) = 2"
| "bcost (B_bcast rc) = 1"
| "bcost (B_done rc) = 0"

definition bar_cost :: "my_barrier \<Rightarrow> nat" where
  "bar_cost b = sum_list (map bcost (bpcs b))"

definition all_done :: "my_barrier \<Rightarrow> bool" where
  "all_done b \<longleftrightarrow> (\<forall>pc \<in> set (bpcs b). \<exists>rc. pc = B_done rc)"

lemma cost_less: "i < length pcs \<Longrightarrow> bcost pc < bcost (pcs ! i) \<Longrightarrow> sum_list (map bcost (pcs[i := pc])) < sum_list (map bcost pcs)"
proof (induction pcs arbitrary: i)
  case (Cons p pcs)
  then show ?case by (cases i) auto
qed simp

lemma bar_cost_wake: "sum_list (map bcost (map wake_all pcs)) \<le> sum_list (map bcost pcs)"
  by (induction pcs) (auto simp: wake_all_def)

lemma bar_wait_lowers:
  assumes "i < length (bpcs b)" and "my_barrier_wait i b = Some c"
  shows "bar_cost c < bar_cost b"
proof (cases "bpcs b ! i")
  case (B_bcast rc)
  then have "c = b\<lparr>bpcs := (map wake_all (bpcs b))[i := B_done rc]\<rparr>" using assms by (simp add: my_barrier_wait_def goto_def)
  moreover have "sum_list (map bcost ((map wake_all (bpcs b))[i := B_done rc])) < sum_list (map bcost (map wake_all (bpcs b)))"
    using assms(1) B_bcast by (intro cost_less) (simp_all add: wake_all_def)
  ultimately show ?thesis using bar_cost_wake [of "bpcs b"] by (simp add: bar_cost_def)
qed (use assms in \<open>auto simp: my_barrier_wait_def acquire_def goto_def bar_cost_def Let_def split: if_splits intro!: cost_less\<close>)

lemma bar_enabled:
  assumes inv: "bar_inv n b" and u: "\<not> all_done b"
  shows "\<exists>i < length (bpcs b). my_barrier_wait i b \<noteq> None"
proof (cases "bmutex b")
  case (Some i)
  then have "i < length (bpcs b)" "has_mutex (bpcs b ! i)" using inv by (auto simp: bar_inv_def mutex_ok_def)
  then show ?thesis by (intro exI [of _ i], cases "bpcs b ! i") (auto simp: my_barrier_wait_def Let_def)
next
  case None
  have run: ?thesis if "pc \<in> set (bpcs b)" "pc \<noteq> B_wait" "\<And>rc. pc \<noteq> B_done rc" for pc
  proof -
    note pc = that
    obtain i where "i < length (bpcs b)" "bpcs b ! i = pc" using pc(1) by (auto simp: in_set_conv_nth)
    then show ?thesis using pc(2,3) None
      by (intro exI [of _ i], cases pc) (auto simp: my_barrier_wait_def acquire_def Let_def)
  qed
  obtain pc where pc: "pc \<in> set (bpcs b)" "\<And>rc. pc \<noteq> B_done rc" using u by (auto simp: all_done_def)
  show ?thesis
  proof (cases "pc = B_wait")
    case True
    show ?thesis
    proof (cases "tally arrived (bpcs b) < length (bpcs b)")
      case True
      then obtain p where "p \<in> set (bpcs b)" "\<not> arrived p"
        unfolding tally_def by (metis filter_True less_irrefl)
      moreover from this(2) have "p \<noteq> B_wait" "\<And>rc. p \<noteq> B_done rc" by auto
      ultimately show ?thesis using run by blast
    next
      case False
      then show ?thesis using inv pc(1) True run by (auto simp: bar_inv_def phase_ok_def)
    qed
  qed (use run pc in blast)
qed

text \<open>The runs in which no thread wakes up by itself.\<close>

definition bar_act :: "bevent \<Rightarrow> my_barrier \<Rightarrow> my_barrier option" where
  "bar_act e b = (if is_spurious e then None else bar_step e b)"

interpretation barrier: ending_system "bar_inv n" bar_act "\<lambda>e. False" bar_cost 0 all_done for n
proof unfold_locales
  fix b c e
  show "bar_inv n c" if "bar_inv n b" "bar_act e b = Some c"
    using that bar_wait_keeps by (cases e) (auto simp: bar_act_def split: if_splits)
  show "bar_cost c < bar_cost b" if "bar_inv n b" "\<not> False" "bar_act e b = Some c"
    using that bar_wait_lowers by (cases e) (auto simp: bar_act_def split: if_splits)
next
  fix b
  assume "bar_inv n b" "\<not> all_done b"
  then obtain i where "i < length (bpcs b)" "my_barrier_wait i b \<noteq> None" using bar_enabled by blast
  then show "\<exists>e c. \<not> False \<and> bar_act e b = Some c" by (intro exI [of _ "Run i"]) (auto simp: bar_act_def)
qed simp_all

lemma act_exec: "\<forall>e \<in> set es. \<not> is_spurious e \<Longrightarrow> exec bar_step es b = exec bar_act es b"
  by (induction es arbitrary: b) (auto simp: bar_act_def split: option.splits)

text \<open>A thread that has returned shows that all have arrived.\<close>

lemma returned_all_arrived: "bar_inv n b \<Longrightarrow> B_done rc \<in> set (bpcs b) \<Longrightarrow> pc \<in> set (bpcs b) \<Longrightarrow> arrived pc"
proof -
  assume a: "bar_inv n b" "B_done rc \<in> set (bpcs b)" "pc \<in> set (bpcs b)"
  have "\<not> tally arrived (bpcs b) < length (bpcs b)" using a(1,2) by (fastforce simp: bar_inv_def phase_ok_def)
  then show ?thesis using tally_all a(3) by blast
qed

lemma released_early:
  assumes "2 \<le> n"
  shows "\<exists>b. exec bar_step [Run 0, Run 0, Spurious 0, Run 0, Run 0, Run 0] (my_barrier_init n (int n)) = Some b \<and>
    bpcs b ! 0 = B_done False \<and> bpcs b ! 1 = B_start"
  using assms
  by (simp add: my_barrier_init_def my_barrier_wait_def acquire_def goto_def Let_def wake_all_def nth_list_update map_update)

subsection \<open>The property\<close>

text \<open>
  C34. The barrier for any number of threads in any interleaving: as long as no thread wakes up by itself, none returns before all
  have arrived, all can always come to the end, and then exactly one has been told that it is the serial thread. But one
  wakeup without a broadcast is enough to let a thread through before another has started, since
  \<open>my_barrier_wait\<close> does not test the count again.
\<close>

theorem my_barrier_holds:
  assumes "0 < n"
  shows "(\<forall>es b. exec bar_step es (my_barrier_init n (int n)) = Some b \<and> (\<forall>e \<in> set es. \<not> is_spurious e) \<longrightarrow>
      (\<forall>rc pc. B_done rc \<in> set (bpcs b) \<and> pc \<in> set (bpcs b) \<longrightarrow> pc \<noteq> B_start \<and> pc \<noteq> B_body) \<and>
      (\<exists>es' c. exec bar_step es' b = Some c \<and> all_done c) \<and>
      (all_done b \<longrightarrow> length (filter (\<lambda>pc. pc = B_done True) (bpcs b)) = 1)) \<and>
    (2 \<le> n \<longrightarrow> (\<exists>es b i j. exec bar_step es (my_barrier_init n (int n)) = Some b \<and> length (filter is_spurious es) = 1 \<and>
      i < n \<and> j < n \<and> bpcs b ! i = B_done False \<and> bpcs b ! j = B_start))"
proof (intro conjI allI impI)
  fix es b
  assume run: "exec bar_step es (my_barrier_init n (int n)) = Some b \<and> (\<forall>e \<in> set es. \<not> is_spurious e)"
  then have inv: "bar_inv n b" using barrier.run_keeps [OF bar_init_inv [OF assms]] act_exec by metis
  show "pc \<noteq> B_start" "pc \<noteq> B_body" if "B_done rc \<in> set (bpcs b) \<and> pc \<in> set (bpcs b)" for rc pc
    using returned_all_arrived [OF inv, of rc pc] that by auto
  obtain es' c where "exec bar_act es' b = Some c" "all_done c" using barrier.run_finishes [OF inv] by blast
  moreover have "exec bar_step es b = Some c" if "exec bar_act es b = Some c" for es b c
    using that by (induction es arbitrary: b) (auto simp: bar_act_def split: option.splits if_splits)
  ultimately show "\<exists>es' c. exec bar_step es' b = Some c \<and> all_done c" by blast
  show "length (filter (\<lambda>pc. pc = B_done True) (bpcs b)) = 1" if "all_done b"
  proof -
    have "\<not> tally arrived (bpcs b) < length (bpcs b)" using that tally_all [of arrived "bpcs b"] unfolding tally_def all_done_def
      by (metis arrived.simps(7) filter_True less_irrefl)
    then have "tally serial (bpcs b) = 1" using inv by (simp add: bar_inv_def phase_ok_def)
    moreover have "filter serial (bpcs b) = filter (\<lambda>pc. pc = B_done True) (bpcs b)"
      using that by (auto simp: all_done_def intro!: filter_cong)
    ultimately show ?thesis by (simp add: tally_def)
  qed
next
  assume n: "2 \<le> n"
  obtain b where "exec bar_step [Run 0, Run 0, Spurious 0, Run 0, Run 0, Run 0] (my_barrier_init n (int n)) = Some b"
      "bpcs b ! 0 = B_done False" "bpcs b ! 1 = B_start"
    using released_early [OF n] by blast
  then show "\<exists>es b i j. exec bar_step es (my_barrier_init n (int n)) = Some b \<and> length (filter is_spurious es) = 1 \<and>
      i < n \<and> j < n \<and> bpcs b ! i = B_done False \<and> bpcs b ! j = B_start"
    using n by (intro exI [of _ "[Run 0, Run 0, Spurious 0, Run 0, Run 0, Run 0]"] exI [of _ b] exI [of _ 0] exI [of _ 1]) simp
qed

theorem my_barrier_holds_witness:
  "(\<exists>b c es. exec bar_step [Run 0, Run 0, Run 2, Run 2] (my_barrier_init 5 5) = Some b \<and> exec bar_step es b = Some c \<and> all_done c) \<and>
    (\<exists>es b i j. exec bar_step es (my_barrier_init 5 5) = Some b \<and> length (filter is_spurious es) = 1 \<and> i < 5 \<and> j < 5 \<and>
      bpcs b ! i = B_done False \<and> bpcs b ! j = B_start)"
proof
  have "(0::nat) < 5" "(2::nat) \<le> 5" by simp_all
  note p = my_barrier_holds [OF this(1)]
  obtain b where b: "exec bar_step [Run 0, Run 0, Run 2, Run 2] (my_barrier_init 5 (int 5)) = Some b"
    by (simp add: my_barrier_init_def my_barrier_wait_def acquire_def goto_def Let_def numeral_nat)
  moreover have "\<forall>e \<in> set [Run 0, Run 0, Run 2, Run 2]. \<not> is_spurious e" by simp
  ultimately show "\<exists>b c es. exec bar_step [Run 0, Run 0, Run 2, Run 2] (my_barrier_init 5 5) = Some b \<and> exec bar_step es b = Some c \<and> all_done c"
    using p by (metis of_nat_numeral)
  show "\<exists>es b i j. exec bar_step es (my_barrier_init 5 5) = Some b \<and> length (filter is_spurious es) = 1 \<and> i < 5 \<and> j < 5 \<and>
      bpcs b ! i = B_done False \<and> bpcs b ! j = B_start"
    using conjunct2 [OF p] by simp
qed

end
