(* ===== verification/ServerSock.thy ===== *)
theory ServerSock
  imports Prelude
begin

section \<open>Sockets of servers (sockets/initsrv1.c, sockets/initsrv2.c)\<close>

text \<open>
  The two versions of \<open>initserver\<close>: over the numbers of the descriptors that are open they give the new socket and the
  numbers that are open then. Which of the calls succeed is a \<open>sock_plan\<close>; \<open>stream\<close> is true for the types
  \<open>SOCK_STREAM\<close> and \<open>SOCK_SEQPACKET\<close>. A new descriptor has the lowest free number.
\<close>

record sock_plan =
  socket_ok :: bool
  setsockopt_ok :: bool
  bind_ok :: bool
  listen_ok :: bool

definition initserver_plain :: "bool \<Rightarrow> sock_plan \<Rightarrow> nat list \<Rightarrow> nat option \<times> nat list" where
  "initserver_plain stream p open =
     (if \<not> socket_ok p then (None, open)
      else let fd = lowest open; open = fd # open; errout = (None, remove1 fd open) in
        if \<not> bind_ok p then errout
        else if stream \<and> \<not> listen_ok p then errout
        else (Some fd, open))"

definition initserver :: "bool \<Rightarrow> sock_plan \<Rightarrow> nat list \<Rightarrow> nat option \<times> nat list" where
  "initserver stream p open =
     (if \<not> socket_ok p then (None, open)
      else let fd = lowest open; open = fd # open; errout = (None, remove1 fd open) in
        if \<not> setsockopt_ok p then errout
        else if \<not> bind_ok p then errout
        else if stream \<and> \<not> listen_ok p then errout
        else (Some fd, open))"

definition serves :: "sock_plan \<Rightarrow> bool" where
  "serves p \<longleftrightarrow> socket_ok p \<and> setsockopt_ok p \<and> bind_ok p \<and> listen_ok p"

lemma initserver_cases:
  "initserver True p open = (if serves p then (Some (lowest open), lowest open # open) else (None, open))"
  using lowest_free [of "open"] by (auto simp: initserver_def serves_def Let_def)

lemma initserver_plain_eq: "initserver_plain stream p open = initserver stream (p\<lparr>setsockopt_ok := True\<rparr>) open"
  by (simp add: initserver_plain_def initserver_def Let_def)

lemma initserver_plain_cases:
  "initserver_plain True p open =
    (if socket_ok p \<and> bind_ok p \<and> listen_ok p then (Some (lowest open), lowest open # open) else (None, open))"
  by (simp add: initserver_plain_eq initserver_cases serves_def)

end
