(* ===== verification/Daemon.thy ===== *)
theory Daemon
  imports Prelude
begin

section \<open>Becoming a daemon (lib/daemonize.c)\<close>

text \<open>
  The state is what \<open>daemonize\<close> changes of a process: its table of descriptors, each with what it refers to (\<open>DevNull\<close>, or
  something of the caller's), its file mode creation mask, its directory, whether it ignores \<open>SIGHUP\<close>, whether it leads its session and
  whether it has a controlling terminal. What the calls return is a \<open>daemon_env\<close>; \<open>fork\<close> returns in the parent, in the child, or fails.
  The model follows one process: it ends with \<open>ParentExits\<close> where the source exits with status 0 in a parent, with
  \<open>Quit\<close> where it is ended by \<open>err_quit\<close>, and with \<open>BadDescriptors\<close> after the last check.
\<close>

datatype 'a obj = DevNull | Obj 'a

record 'a dproc =
  dtable :: "(nat \<times> 'a obj) list"
  dmask :: nat
  cwd :: string
  hup_ignored :: bool
  leader :: bool
  ctty :: bool

datatype forked = Failed | Parent | Child
datatype dstop = Quit | ParentExits | BadDescriptors

record daemon_env =
  limit_ok :: bool
  rlim_max :: "nat option"          \<comment> \<open>None: no limit\<close>
  fork1 :: forked
  hup_ok :: bool
  fork2 :: forked
  chdir_ok :: bool
  null_ok :: bool
  dup1_ok :: bool
  dup2_ok :: bool

type_synonym ('a, 'b) dp = "('a dproc, dstop, 'b) prog"

definition fork_child :: "forked \<Rightarrow> ('a, unit) dp" where
  "fork_child r = (case r of Failed \<Rightarrow> fail Quit | Parent \<Rightarrow> fail ParentExits | Child \<Rightarrow> modify (\<lambda>p. p\<lparr>leader := False\<rparr>))"

definition setsid :: "('a, unit) dp" where
  "setsid = modify (\<lambda>p. p\<lparr>leader := True, ctty := False\<rparr>)"

definition close_fd :: "nat \<Rightarrow> (nat \<times> 'a) list \<Rightarrow> (nat \<times> 'a) list" where
  "close_fd i t = filter (\<lambda>x. fst x \<noteq> i) t"

definition new_fd :: "bool \<Rightarrow> 'a obj \<Rightarrow> ('a, int) dp" where
  "new_fd ok x = (if ok then bnd (gets (\<lambda>p. lowest (List.map fst (dtable p)))) (\<lambda>fd.
     bnd (modify (\<lambda>p. p\<lparr>dtable := (fd, x) # dtable p\<rparr>)) (\<lambda>_. ret (int fd))) else ret (-1))"

definition dup_fd :: "bool \<Rightarrow> nat \<Rightarrow> ('a, int) dp" where
  "dup_fd ok fd = bnd (gets (\<lambda>p. map_of (dtable p) fd)) (\<lambda>x. case x of None \<Rightarrow> ret (-1) | Some x \<Rightarrow> new_fd ok x)"

definition close_limit :: "daemon_env \<Rightarrow> nat" where
  "close_limit env = (case rlim_max env of None \<Rightarrow> 1024 | Some n \<Rightarrow> n)"

definition daemonize :: "daemon_env \<Rightarrow> ('a, unit) dp" where
  "daemonize env =
     bnd (modify (\<lambda>p. p\<lparr>dmask := 0\<rparr>)) (\<lambda>_.
     bnd (check (limit_ok env) Quit) (\<lambda>_.
     bnd (fork_child (fork1 env)) (\<lambda>_.
     bnd setsid (\<lambda>_.
     bnd (check (hup_ok env) Quit) (\<lambda>_.
     bnd (modify (\<lambda>p. p\<lparr>hup_ignored := True\<rparr>)) (\<lambda>_.
     bnd (fork_child (fork2 env)) (\<lambda>_.
     bnd (check (chdir_ok env) Quit) (\<lambda>_.
     bnd (modify (\<lambda>p. p\<lparr>cwd := ''/''\<rparr>)) (\<lambda>_.
     bnd (modify (\<lambda>p. p\<lparr>dtable := fold close_fd [0 ..< close_limit env] (dtable p)\<rparr>)) (\<lambda>_.
     bnd (new_fd (null_ok env) DevNull) (\<lambda>fd0.
     bnd (dup_fd (dup1_ok env) 0) (\<lambda>fd1.
     bnd (dup_fd (dup2_ok env) 0) (\<lambda>fd2.
     check (fd0 = 0 \<and> fd1 = 1 \<and> fd2 = 2) BadDescriptors)))))))))))))"

subsection \<open>The table of descriptors\<close>

lemma fold_close: "fold close_fd [0 ..< n] t = filter (\<lambda>x. n \<le> fst x) t"
  by (induction n) (auto simp: close_fd_def intro: filter_cong)

definition left_open :: "daemon_env \<Rightarrow> (nat \<times> 'a) list \<Rightarrow> (nat \<times> 'a) list" where
  "left_open env t = filter (\<lambda>x. close_limit env \<le> fst x) t"

definition env_ok :: "daemon_env \<Rightarrow> bool" where
  "env_ok env \<longleftrightarrow> limit_ok env \<and> fork1 env = Child \<and> hup_ok env \<and> fork2 env = Child \<and> chdir_ok env \<and> null_ok env \<and> dup1_ok env \<and> dup2_ok env"

text \<open>The lowest free numbers are 0, 1 and 2 exactly when none of the three is taken.\<close>

definition detached :: "daemon_env \<Rightarrow> 'a dproc \<Rightarrow> 'a dproc" where
  "detached env p = \<lparr>dtable = (2, DevNull) # (1, DevNull) # (0, DevNull) # left_open env (dtable p), dmask = 0, cwd = ''/'',
     hup_ignored = True, leader = False, ctty = False\<rparr>"

lemma new_fd_run: "runs (new_fd ok x) p (int k) q \<longleftrightarrow> ok \<and> lowest (List.map fst (dtable p)) = k \<and> q = p\<lparr>dtable := (k, x) # dtable p\<rparr>"
  by (auto simp: new_fd_def runs_bnd_iff)

lemma dup_zero_run: "map_of (dtable p) 0 = Some x \<Longrightarrow> runs (dup_fd ok 0) p (int k) q \<longleftrightarrow>
    ok \<and> lowest (List.map fst (dtable p)) = k \<and> q = p\<lparr>dtable := (k, x) # dtable p\<rparr>"
  using new_fd_run [of ok x p k q] by (simp add: dup_fd_def)

lemma fork_child_run: "runs (fork_child r) p x q \<longleftrightarrow> r = Child \<and> q = p\<lparr>leader := False\<rparr>"
  by (cases r) (auto simp: fork_child_def runs_def fail_run modify_run)

definition std_fds :: "bool \<Rightarrow> bool \<Rightarrow> bool \<Rightarrow> ('a, unit) dp" where
  "std_fds a b c = bnd (new_fd a DevNull) (\<lambda>fd0. bnd (dup_fd b 0) (\<lambda>fd1. bnd (dup_fd c 0) (\<lambda>fd2. check (fd0 = 0 \<and> fd1 = 1 \<and> fd2 = 2) BadDescriptors)))"

lemma std_fds_run:
  "runs (std_fds a b c) p () q \<longleftrightarrow> a \<and> b \<and> c \<and> {0, 1, 2} \<inter> fst ` set (dtable p) = {} \<and> q = p\<lparr>dtable := (2, DevNull) # (1, DevNull) # (0, DevNull) # dtable p\<rparr>"
proof -
  let ?d = "\<lambda>t. p\<lparr>dtable := t @ dtable p\<rparr>"
  have "runs (std_fds a b c) p () q \<longleftrightarrow> (\<exists>p1 p2. runs (new_fd a DevNull) p (int 0) p1 \<and> runs (dup_fd b 0) p1 (int 1) p2 \<and> runs (dup_fd c 0) p2 (int 2) q)"
    by (auto simp: std_fds_def runs_bnd_iff)
  also have "\<dots> \<longleftrightarrow> a \<and> lowest (List.map fst (dtable p)) = 0 \<and> (\<exists>p2. runs (dup_fd b 0) (?d [(0, DevNull)]) (int 1) p2 \<and> runs (dup_fd c 0) p2 (int 2) q)"
    unfolding new_fd_run by auto
  also have "\<dots> \<longleftrightarrow> a \<and> lowest (List.map fst (dtable p)) = 0 \<and> b \<and> lowest (0 # List.map fst (dtable p)) = 1 \<and>
      runs (dup_fd c 0) (?d [(1, DevNull), (0, DevNull)]) (int 2) q"
    using dup_zero_run [of "?d [(0, DevNull)]" DevNull b 1] by auto
  also have "\<dots> \<longleftrightarrow> a \<and> lowest (List.map fst (dtable p)) = 0 \<and> b \<and> lowest (0 # List.map fst (dtable p)) = 1 \<and> c \<and>
      lowest (1 # 0 # List.map fst (dtable p)) = 2 \<and> q = ?d [(2, DevNull), (1, DevNull), (0, DevNull)]"
    using dup_zero_run [of "?d [(1, DevNull), (0, DevNull)]" DevNull c 2] by auto
  finally show ?thesis unfolding lowest_012 by auto
qed

lemma daemonize_run:
  "runs (daemonize env) p () q \<longleftrightarrow> env_ok env \<and> {0, 1, 2} \<inter> fst ` set (left_open env (dtable p)) = {} \<and> q = detached env p"
proof -
  let ?p = "(p\<lparr>dmask := 0, ctty := False, hup_ignored := True, leader := False, cwd := ''/'', dtable := left_open env (dtable p)\<rparr>)"
  have "runs (daemonize env) p () q \<longleftrightarrow> limit_ok env \<and> fork1 env = Child \<and> hup_ok env \<and> fork2 env = Child \<and> chdir_ok env \<and>
      runs (std_fds (null_ok env) (dup1_ok env) (dup2_ok env)) ?p () q"
    unfolding daemonize_def std_fds_def [symmetric] fold_close left_open_def setsid_def
    by (auto simp: runs_bnd_iff [of "check b e" for b e] runs_bnd_iff [of "fork_child r" for r] fork_child_run)
  also have "\<dots> \<longleftrightarrow> env_ok env \<and> {0, 1, 2} \<inter> fst ` set (left_open env (dtable p)) = {} \<and> q = detached env p"
    by (auto simp: std_fds_run env_ok_def detached_def)
  finally show ?thesis .
qed

text \<open>
  C15. \<open>daemonize\<close> returns exactly when every call succeeds and none of the descriptors it does not close (those from the limit on, or from 1024 on
  when there is no limit) is 0, 1 or 2; then the process is in the root directory, without a file mode creation mask, ignores
  \<open>SIGHUP\<close>, has no controlling terminal and, since it does not lead its session, cannot get one, and has descriptors 0, 1 and 2 on the null
  device; every descriptor from the limit on is still open. It exits with status 0 exactly in the two parents.
\<close>

theorem daemonize_detaches:
  "(daemonize env p = (Inr (), q) \<longleftrightarrow> env_ok env \<and> {0, 1, 2} \<inter> fst ` set (left_open env (dtable p)) = {} \<and> q = detached env p) \<and>
   (fst (daemonize env p) = Inl ParentExits \<longleftrightarrow>
     limit_ok env \<and> (fork1 env = Parent \<or> fork1 env = Child \<and> hup_ok env \<and> fork2 env = Parent))"
proof
  show "daemonize env p = (Inr (), q) \<longleftrightarrow> env_ok env \<and> {0, 1, 2} \<inter> fst ` set (left_open env (dtable p)) = {} \<and> q = detached env p"
    using daemonize_run [of env p q] by (simp add: runs_def)
  have e: "fst (std_fds a b c r) \<noteq> Inl ParentExits" for a b c and r :: "'a dproc"
    by (auto simp: std_fds_def new_fd_def dup_fd_def bnd_def run_simps split: option.splits)
  show "fst (daemonize env p) = Inl ParentExits \<longleftrightarrow>
     limit_ok env \<and> (fork1 env = Parent \<or> fork1 env = Child \<and> hup_ok env \<and> fork2 env = Parent)"
    unfolding daemonize_def std_fds_def [symmetric]
    using e by (cases "fork1 env"; cases "fork2 env") (auto simp: fork_child_def setsid_def bnd_def run_simps)
qed

end
