(* ===== verification/PrintMain.thy ===== *)
theory PrintMain
  imports Printer ServerSock Daemon
begin

section \<open>The print daemon: start and main loop (printer/printd.c, sockets/initsrv2.c)\<close>

text \<open>
  \<open>main\<close> over the state of the daemon and what the process has of its own: its open descriptors, its user and group, the set of
  the sockets it listens on and the threads it has started. The results of the calls that it makes once are fields of
  \<open>startup\<close>. A new descriptor has the lowest free number; those that are closed again in the same call, and the one
  of the C library for the system log, are left out. The control files that \<open>build_qonstart\<close> never closes keep theirs. Changing the user or the group needs the user 0,
  unless nothing changes. The two threads of the daemon are started before the queue is built; they are taken to run when the main
  thread waits in \<open>select\<close>.
\<close>

datatype thread = PrinterThread | SignalThread | ClientThread int

record pmain =
  pd :: printd
  fds :: "nat list"
  uid :: nat
  gid :: nat
  rendezvous :: "nat list"
  maxfd :: int
  started :: "thread list"

record startup =
  argc :: nat
  daemon :: daemon_env
  process :: "nat dproc"                  \<comment> \<open>before it becomes a daemon\<close>
  sigaction_ok :: bool
  sigmask_ok :: bool
  malloc_ok :: bool
  gethostname_ok :: bool
  addresses :: "sock_plan list option"
  pwnam :: "(nat \<times> nat) option"       \<comment> \<open>user and group of LPNAME\<close>
  job_locked :: bool                      \<comment> \<open>no lock on the job file, or no job file\<close>
  getaddrinfo :: "string \<Rightarrow> string \<Rightarrow> string option option"
  config :: "string option"
  printer_thread_ok :: bool
  signal_thread_ok :: bool
  reqdir :: "string list option"

type_synonym 'a pm = "(pmain, pd_stop, 'a) prog"

definition lift_pd :: "'a pd \<Rightarrow> 'a pm" where
  "lift_pd p = (\<lambda>s. case p (pd s) of (r, d) \<Rightarrow> (r, s\<lparr>pd := d\<rparr>))"

text \<open>A socket above the size of an \<open>fd_set\<close> is set behind its end.\<close>

definition FD_SETSIZE :: nat where "FD_SETSIZE = 1024"

fun add_servers :: "sock_plan list \<Rightarrow> unit pm" where
  "add_servers [] = ret ()"
| "add_servers (p # ps) =
     bnd (gets fds) (\<lambda>open. case initserver True p open of (r, open) \<Rightarrow>
     bnd (modify (\<lambda>s. s\<lparr>fds := open\<rparr>)) (\<lambda>_.
     bnd (case r of
            None \<Rightarrow> ret ()
          | Some fd \<Rightarrow> bnd (check (fd < FD_SETSIZE) BadAccess) (\<lambda>_.
              modify (\<lambda>s. s\<lparr>rendezvous := fd # rendezvous s, maxfd := max (maxfd s) (int fd)\<rparr>))) (\<lambda>_.
     add_servers ps)))"

definition set_ids :: "nat \<Rightarrow> nat \<Rightarrow> unit pm" where
  "set_ids g u =
     bnd (gets uid) (\<lambda>me. bnd (gets gid) (\<lambda>mine.
     bnd (check (me = 0 \<or> g = mine) LogQuit) (\<lambda>_.
     bnd (modify (\<lambda>s. s\<lparr>gid := g\<rparr>)) (\<lambda>_.
     bnd (check (me = 0 \<or> u = me) LogQuit) (\<lambda>_.
     modify (\<lambda>s. s\<lparr>uid := u\<rparr>))))))"

definition start_thread :: "bool \<Rightarrow> thread \<Rightarrow> unit pm" where
  "start_thread ok t = (if ok then modify (\<lambda>s. s\<lparr>started := started s @ [t]\<rparr>) else ret ())"

definition main_sockets :: "startup \<Rightarrow> unit pm" where
  "main_sockets env =
     bnd (check (argc env = 1) LogQuit) (\<lambda>_.
     bnd (check (fst (daemonize (daemon env) (process env)) = Inr ()) LogQuit) (\<lambda>_.
     bnd (modify (\<lambda>s. s\<lparr>fds := List.map fst (dtable (snd (daemonize (daemon env) (process env))))\<rparr>)) (\<lambda>_.
     bnd (check (sigaction_ok env) LogQuit) (\<lambda>_.
     bnd (check (sigmask_ok env) LogQuit) (\<lambda>_.
     bnd (check (malloc_ok env) LogQuit) (\<lambda>_.
     bnd (check (gethostname_ok env) LogQuit) (\<lambda>_.
     bnd (check (addresses env \<noteq> None) LogQuit) (\<lambda>_.
     bnd (modify (\<lambda>s. s\<lparr>rendezvous := [], maxfd := -1\<rparr>)) (\<lambda>_.
     bnd (add_servers (the (addresses env))) (\<lambda>_.
     bnd (gets maxfd) (\<lambda>m.
     check (m \<noteq> -1) LogQuit)))))))))))"

text \<open>\<open>build_qonstart\<close> with its descriptors: the directory is open while the control files are opened, and closed at the end.\<close>

primrec open_times :: "nat \<Rightarrow> nat list \<Rightarrow> nat list" where
  "open_times 0 open = open"
| "open_times (Suc n) open = open_times n (lowest open # open)"

definition start_queue :: "startup \<Rightarrow> unit pm" where
  "start_queue env = (\<lambda>s. case build_qonstart (reqdir env) (pd s) of (r, d) \<Rightarrow>
     let dirfd = lowest (fds s); kept = length (unclosed d) - length (unclosed (pd s))
     in (r, s\<lparr>pd := d, fds := (if reqdir env = None then fds s else remove1 dirfd (open_times kept (dirfd # fds s)))\<rparr>))"

definition main_init :: "startup \<Rightarrow> unit pm" where
  "main_init env =
     bnd (check (pwnam env \<noteq> None) LogQuit) (\<lambda>_.
     case the (pwnam env) of (u, g) \<Rightarrow>
     bnd (check (u \<noteq> 0) LogQuit) (\<lambda>_.
     bnd (set_ids g u) (\<lambda>_.
     bnd (modify (\<lambda>s. s\<lparr>fds := lowest (fds s) # fds s\<rparr>)) (\<lambda>_.
     bnd (lift_pd (init_request (job_locked env))) (\<lambda>_.
     bnd (lift_pd (init_printer (getaddrinfo env) (config env))) (\<lambda>_.
     bnd (start_thread (printer_thread_ok env) PrinterThread) (\<lambda>_.
     bnd (start_thread (printer_thread_ok env \<and> signal_thread_ok env) SignalThread) (\<lambda>_.
     bnd (check (printer_thread_ok env \<and> signal_thread_ok env) LogQuit) (\<lambda>_.
     start_queue env)))))))))"

text \<open>
  One round of the loop: \<open>ready\<close> is what \<open>select\<close> found, \<open>accept_ok\<close> and \<open>create_ok\<close> the results of \<open>accept\<close> and
  \<open>pthread_create\<close> for the client of a socket. The source only logs that \<open>accept\<close> failed and goes on with -1, and ignores
  the result of \<open>pthread_create\<close>.
\<close>

definition accept_client :: "bool \<Rightarrow> int pm" where
  "accept_client ok =
     (if ok then bnd (gets (\<lambda>s. lowest (fds s))) (\<lambda>fd. bnd (modify (\<lambda>s. s\<lparr>fds := fd # fds s\<rparr>)) (\<lambda>_. ret (int fd)))
      else ret (-1))"

fun accept_loop :: "(nat \<Rightarrow> bool) \<Rightarrow> (nat \<Rightarrow> bool) \<Rightarrow> nat list \<Rightarrow> nat list \<Rightarrow> unit pm" where
  "accept_loop accept_ok create_ok ready [] = ret ()"
| "accept_loop accept_ok create_ok ready (i # is) =
     (if i \<in> set ready then
        bnd (accept_client (accept_ok i)) (\<lambda>sockfd.
        bnd (start_thread (create_ok i) (ClientThread sockfd)) (\<lambda>_.
        accept_loop accept_ok create_ok ready is))
      else accept_loop accept_ok create_ok ready is)"

definition main_round :: "nat list option \<Rightarrow> (nat \<Rightarrow> bool) \<Rightarrow> (nat \<Rightarrow> bool) \<Rightarrow> unit pm" where
  "main_round ready accept_ok create_ok =
     bnd (check (ready \<noteq> None) LogQuit) (\<lambda>_.
     bnd (gets maxfd) (\<lambda>m.
     accept_loop accept_ok create_ok (the ready) [0 ..< nat (m + 1)]))"

definition printd_main :: "startup \<Rightarrow> unit pm" where
  "printd_main env = bnd (main_sockets env) (\<lambda>_. main_init env)"

subsection \<open>Descriptors\<close>

text \<open>What the loop over the addresses has opened.\<close>

definition listening :: "nat list \<Rightarrow> pmain \<Rightarrow> bool" where
  "listening base s \<longleftrightarrow> fds s = rendezvous s @ base \<and> distinct (fds s) \<and>
     (\<forall>fd \<in> set (rendezvous s). int fd \<le> maxfd s) \<and> (if rendezvous s = [] then maxfd s = -1 else maxfd s \<in> int ` set (rendezvous s))"

lemma add_servers_run:
  "listening base s \<Longrightarrow> runs (add_servers ps) s () t \<Longrightarrow> listening base t \<and> length (rendezvous t) = length (rendezvous s) + length (filter serves ps) \<and>
     t = s\<lparr>fds := fds t, rendezvous := rendezvous t, maxfd := maxfd t\<rparr>"
proof (induction ps arbitrary: s)
  case (Cons p ps)
  let ?fd = "lowest (fds s)"
  let ?s = "if serves p then s\<lparr>fds := ?fd # fds s, rendezvous := ?fd # rendezvous s, maxfd := max (maxfd s) (int ?fd)\<rparr> else s"
  have "listening base ?s" using Cons.prems(1) lowest_free [of "fds s"]
    by (auto simp: listening_def max_def split: if_splits)
  moreover have "runs (add_servers ps) ?s () t"
    using Cons.prems(2) by (auto simp: initserver_cases runs_bnd_iff split: if_splits)
  ultimately have t: "listening base t" "length (rendezvous t) = length (rendezvous ?s) + length (filter serves ps)"
      "t = ?s\<lparr>fds := fds t, rendezvous := rendezvous t, maxfd := maxfd t\<rparr>" using Cons.IH by blast+
  show ?case
  proof (intro conjI t(1))
    show "length (rendezvous t) = length (rendezvous s) + length (filter serves (p # ps))" using t(2) by simp
    show "t = s\<lparr>fds := fds t, rendezvous := rendezvous t, maxfd := maxfd t\<rparr>" by (subst t(3)) simp
  qed
qed auto

definition base_fds :: "startup \<Rightarrow> nat list" where
  "base_fds env = 2 # 1 # 0 # List.map fst (left_open (daemon env) (dtable (process env)))"

lemma base_fds_daemon:
  assumes "fst (daemonize (daemon env) (process env)) = Inr ()" and "distinct (List.map fst (dtable (process env)))"
  shows "List.map fst (dtable (snd (daemonize (daemon env) (process env)))) = base_fds env \<and> distinct (base_fds env)"
proof -
  obtain q where q: "daemonize (daemon env) (process env) = (Inr (), q)" using assms(1) by (cases "daemonize (daemon env) (process env)") auto
  then have d: "q = detached (daemon env) (process env)" "{0, 1, 2} \<inter> fst ` set (left_open (daemon env) (dtable (process env))) = {}"
    using daemonize_run [of "daemon env" "process env" q] by (simp_all add: runs_def)
  have "distinct (List.map fst (left_open (daemon env) (dtable (process env))))"
    using assms(2) by (simp add: left_open_def distinct_map_filter)
  then show ?thesis using q d by (simp add: base_fds_def detached_def)
qed

lemma main_sockets_run:
  assumes "runs (main_sockets env) s x t" and "distinct (List.map fst (dtable (process env)))"
  shows "\<exists>ps. addresses env = Some ps \<and> listening (base_fds env) t \<and> length (rendezvous t) = length (filter serves ps) \<and> rendezvous t \<noteq> [] \<and>
    t = s\<lparr>fds := fds t, rendezvous := rendezvous t, maxfd := maxfd t\<rparr>"
proof -
  let ?s = "s\<lparr>fds := base_fds env, rendezvous := [], maxfd := -1\<rparr>"
  have "fst (daemonize (daemon env) (process env)) = Inr ()" using assms(1) by (auto simp: main_sockets_def runs_bnd_iff)
  note b = base_fds_daemon [OF this assms(2)]
  then obtain ps where ps: "addresses env = Some ps" "runs (add_servers ps) ?s () t" "maxfd t \<noteq> -1"
    using assms(1) by (auto simp: main_sockets_def runs_bnd_iff)
  have "listening (base_fds env) ?s" using b by (simp add: listening_def)
  from add_servers_run [OF this ps(2)] have u: "listening (base_fds env) t"
      "length (rendezvous t) = length (filter serves ps)" "t = ?s\<lparr>fds := fds t, rendezvous := rendezvous t, maxfd := maxfd t\<rparr>" by auto
  show ?thesis using u ps(1,3) by (auto simp: listening_def split: if_splits)
qed

lemma lift_pd_runs: "runs (lift_pd p) s x t \<longleftrightarrow> (\<exists>d. runs p (pd s) x d \<and> t = s\<lparr>pd := d\<rparr>)"
  by (auto simp: runs_def lift_pd_def split: prod.splits)

text \<open>What the daemon does with its spool directory at the start.\<close>

definition takes_over :: "startup \<Rightarrow> unit pd" where
  "takes_over env =
     bnd (init_request False) (\<lambda>_. bnd (init_printer (getaddrinfo env) (config env)) (\<lambda>_. build_qonstart (reqdir env)))"

lemma init_request_locked: "\<not> runs (init_request True) d x d'"
  by (simp add: init_request_def runs_bnd_iff)

lemma open_times_new: "distinct fs \<Longrightarrow> \<exists>new. open_times n fs = new @ fs \<and> length new = n \<and> distinct (new @ fs)"
proof (induction n arbitrary: fs)
  case (Suc n)
  have "distinct (lowest fs # fs)" using Suc.prems lowest_free [of fs] by simp
  from Suc.IH [OF this] obtain new where "open_times n (lowest fs # fs) = (new @ [lowest fs]) @ fs" "length new = n"
      "distinct ((new @ [lowest fs]) @ fs)" by auto
  then show ?case by (intro exI [of _ "new @ [lowest fs]"]) simp
qed simp

lemma start_queue_run:
  assumes "runs (start_queue env) s x t" and "distinct (fds s)"
  shows "runs (build_qonstart (reqdir env)) (pd s) x (pd t) \<and> t = s\<lparr>pd := pd t, fds := fds t\<rparr> \<and>
    (\<exists>kept. fds t = kept @ fds s \<and> distinct (fds t) \<and> (reqdir env \<noteq> None \<longrightarrow> length kept = length (unclosed (pd t)) - length (unclosed (pd s))))"
proof -
  let ?d = "lowest (fds s)"
  let ?n = "length (unclosed (pd t)) - length (unclosed (pd s))"
  have d: "distinct (?d # fds s)" using assms(2) lowest_free [of "fds s"] by simp
  obtain new where new: "open_times ?n (?d # fds s) = new @ ?d # fds s" "length new = ?n" "distinct (new @ ?d # fds s)"
    using open_times_new [OF d, of ?n] by blast
  have "remove1 ?d (new @ ?d # fds s) = new @ fds s" using new(3) by (simp add: remove1_append)
  then have f: "fds t = (if reqdir env = None then [] else new) @ fds s" "pd t = snd (build_qonstart (reqdir env) (pd s))"
    using assms(1) new(1) by (auto simp: runs_def start_queue_def Let_def split: prod.splits)
  moreover have "distinct (fds t)" using new(3) assms(2) f(1) by auto
  moreover have "runs (build_qonstart (reqdir env)) (pd s) x (pd t)" "t = s\<lparr>pd := pd t, fds := fds t\<rparr>"
    using assms(1) by (auto simp: runs_def start_queue_def Let_def split: prod.splits)
  ultimately show ?thesis using new(2) by (intro conjI exI [of _ "if reqdir env = None then [] else new"]) simp_all
qed

lemma main_init_run:
  assumes "runs (main_init env) s x t" and "distinct (fds s)"
  shows "pwnam env = Some (uid t, gid t) \<and> uid t \<noteq> 0 \<and> \<not> job_locked env \<and> started t = started s @ [PrinterThread, SignalThread] \<and>
    runs (takes_over env) (pd s) () (pd t) \<and> rendezvous t = rendezvous s \<and> maxfd t = maxfd s \<and>
    (\<exists>kept. fds t = kept @ lowest (fds s) # fds s \<and> distinct (fds t) \<and>
      (reqdir env \<noteq> None \<longrightarrow> length kept = length (unclosed (pd t)) - length (unclosed (pd s))))"
proof -
  obtain u g where ug: "pwnam env = Some (u, g)" using assms by (auto simp: main_init_def runs_bnd_iff)
  have nl: "\<not> job_locked env"
    using assms ug init_request_locked by (cases "job_locked env") (auto simp: main_init_def runs_bnd_iff lift_pd_runs)
  obtain d1 d2 where d: "runs (init_request False) (pd s) () d1" "runs (init_printer (getaddrinfo env) (config env)) d1 () d2"
    and sq: "runs (start_queue env) (s\<lparr>gid := g, uid := u, fds := lowest (fds s) # fds s, pd := d2, started := started s @ [PrinterThread, SignalThread]\<rparr>) x t"
    and u: "u \<noteq> 0"
    using assms ug nl by (auto simp: main_init_def set_ids_def start_thread_def runs_bnd_iff lift_pd_runs split: if_splits)
  have un: "unclosed d2 = unclosed (pd s)" using d
    by (auto simp: init_request_def init_printer_def next_fs_def runs_bnd_iff runs_def bnd_def run_simps split: list.splits fsres.splits option.splits if_splits)
  define s' where "s' = s\<lparr>gid := g, uid := u, fds := lowest (fds s) # fds s, pd := d2, started := started s @ [PrinterThread, SignalThread]\<rparr>"
  have s': "pd s' = d2" "fds s' = lowest (fds s) # fds s" "distinct (fds s')" using assms(2) lowest_free [of "fds s"] by (simp_all add: s'_def)
  note r = start_queue_run [OF sq [folded s'_def] s'(3), unfolded s'(1,2) un]
  then obtain kept where k: "runs (build_qonstart (reqdir env)) d2 x (pd t)" "t = s'\<lparr>pd := pd t, fds := fds t\<rparr>"
      "fds t = kept @ lowest (fds s) # fds s" "distinct (fds t)"
      "reqdir env \<noteq> None \<longrightarrow> length kept = length (unclosed (pd t)) - length (unclosed (pd s))" by blast
  have f: "uid t = u" "gid t = g" "started t = started s @ [PrinterThread, SignalThread]" "rendezvous t = rendezvous s" "maxfd t = maxfd s"
    by (subst k(2), simp add: s'_def)+
  have "runs (takes_over env) (pd s) () (pd t)" using d k(1) by (auto simp: takes_over_def runs_bnd_iff)
  then show ?thesis using f ug u nl k(3-5) by blast
qed

text \<open>The queue is what the directory of the control files has.\<close>

lemma takes_over_restores:
  assumes run: "takes_over env d = (Inr (), d')" and es: "reqdir env = Some es"
    and d: "fsplan d = []" "\<not> oom d" "isq (jobs d) []" and st: "\<forall>(j, r)\<in>set js. stored d j r"
    and f: "filter (\<lambda>e. e \<noteq> ''.'' \<and> e \<noteq> ''..'') es = map (\<lambda>(j, r). sdec j) js"
  shows "(\<exists>as. isq (jobs d') as \<and> map (data_at (jobs d')) as = map (\<lambda>(j, r). \<lparr>jobid = j, req = r\<rparr>) js) \<and> spool d' = spool d \<and>
    length (unclosed d') = length js + length (unclosed d) \<and>
    nextjob d' = (if jobfile d = [] then 1 else word_of_int (atol (take FILENMSZ (jobfile d) @ drop (length (take FILENMSZ (jobfile d))) job_path)))"
proof -
  let ?n = "if jobfile d = [] then 1 else word_of_int (atol (take FILENMSZ (jobfile d) @ drop (length (take FILENMSZ (jobfile d))) job_path))"
  have ir: "runs (init_request False) d () (d\<lparr>nextjob := ?n\<rparr>)"
    using d(1) by (simp add: runs_def init_request_def next_fs_def bnd_def run_simps FILENMSZ_def)
  have "runs (bnd (init_printer (getaddrinfo env) (config env)) (\<lambda>_. build_qonstart (reqdir env))) (d\<lparr>nextjob := ?n\<rparr>) () d'"
    using run unfolding takes_over_def runs_def [symmetric] runs_step [OF ir] .
  then obtain p where q: "runs (build_qonstart (Some es)) (d\<lparr>nextjob := ?n, printer := p\<rparr>) () d'"
    using es by (auto simp: init_printer_def runs_bnd_iff split: option.splits) (auto simp: runs_def run_simps)
  let ?s = "d\<lparr>nextjob := ?n, printer := p\<rparr>"
  have P: "fsplan ?s = []" "\<not> oom ?s" "isq (jobs ?s) []" "\<forall>x\<in>set []. x < next_addr ?s" "\<forall>(j, r)\<in>set js. stored ?s j r"
    using d st by (auto simp: stored_def)
  from qonstart_loop_restores [OF P f] obtain w as where w: "qonstart_loop es ?s = (Inr (), w)" "isq (jobs w) ([] @ as)"
      "map (data_at (jobs w)) ([] @ as) = map (data_at (jobs ?s)) [] @ map (\<lambda>(j, r). \<lparr>jobid = j, req = r\<rparr>) js" "spool w = spool ?s"
      "nextjob w = nextjob ?s" "length (unclosed w) = length js + length (unclosed ?s)" by blast
  have "w = d'" using q w(1) by (simp add: runs_def build_qonstart_def)
  then show ?thesis using w(2-) by auto
qed

text \<open>One descriptor, or -1, per socket that was ready.\<close>

lemma accept_loop_run:
  "distinct (fds s) \<Longrightarrow> \<exists>socks u. runs (accept_loop accept_ok create_ok ready is) s () u \<and>
    list_all2 (\<lambda>i k. if accept_ok i then 0 \<le> k else k = -1) (filter (\<lambda>i. i \<in> set ready) is) socks \<and> distinct (fds u) \<and>
    u = s\<lparr>fds := rev (map nat (filter (\<lambda>k. k \<noteq> -1) socks)) @ fds s,
      started := started s @ map (ClientThread \<circ> snd) (filter (create_ok \<circ> fst) (zip (filter (\<lambda>i. i \<in> set ready) is) socks))\<rparr>"
proof (induction "is" arbitrary: s)
  case (Cons i "is")
  show ?case
  proof (cases "i \<in> set ready")
    case True
    define k where "k = (if accept_ok i then int (lowest (fds s)) else -1)"
    define v where "v = s\<lparr>fds := (if accept_ok i then [lowest (fds s)] else []) @ fds s, started := started s @ (if create_ok i then [ClientThread k] else [])\<rparr>"
    have "distinct (fds v)" using Cons.prems lowest_free [of "fds s"] by (simp add: v_def)
    from Cons.IH [OF this] obtain socks u where u: "runs (accept_loop accept_ok create_ok ready is) v () u"
        "list_all2 (\<lambda>i k. if accept_ok i then 0 \<le> k else k = -1) (filter (\<lambda>i. i \<in> set ready) is) socks" "distinct (fds u)"
        "u = v\<lparr>fds := rev (map nat (filter (\<lambda>k. k \<noteq> -1) socks)) @ fds v,
          started := started v @ map (ClientThread \<circ> snd) (filter (create_ok \<circ> fst) (zip (filter (\<lambda>i. i \<in> set ready) is) socks))\<rparr>"
      by (elim exE conjE)
    have r: "runs (accept_loop accept_ok create_ok ready (i # is)) s () u"
      using u(1) True by (simp add: accept_client_def start_thread_def v_def k_def split: if_splits)
    show ?thesis
    proof (intro exI [of _ "k # socks"] exI [of _ u] conjI r u(3))
      show "list_all2 (\<lambda>i k. if accept_ok i then 0 \<le> k else k = -1) (filter (\<lambda>i. i \<in> set ready) (i # is)) (k # socks)"
        using u(2) True by (simp add: k_def)
      show "u = s\<lparr>fds := rev (map nat (filter (\<lambda>k. k \<noteq> -1) (k # socks))) @ fds s,
          started := started s @ map (ClientThread \<circ> snd) (filter (create_ok \<circ> fst) (zip (filter (\<lambda>i. i \<in> set ready) (i # is)) (k # socks)))\<rparr>"
        by (subst u(4)) (use True in \<open>simp add: v_def k_def\<close>)
    qed
  qed (use Cons in simp)
qed (auto intro!: exI)

subsection \<open>The property\<close>

text \<open>
  C14. When the daemon has started, it runs as the unprivileged user and group of LPNAME, it alone holds the job file, it listens on
  one socket for each address that could be set up, and both its threads have been started. Open are these sockets, the job file, what \<open>daemonize\<close> leaves
  open (descriptors 0, 1 and 2 and those from the limit on) and one descriptor for each job that was found on disk, whose
  control file is never closed. The queue has the jobs of the control files in the order of the directory, when no call fails and the files are
  complete, and the next job number is that of the job file, or 1. In a round of its loop it then accepts a client on each ready socket in ascending order and starts
  a thread for each one for which a thread can be made: also with descriptor -1 when \<open>accept\<close> failed; and the
  descriptor of a client without a thread stays open.
\<close>

theorem printd_main_serves:
  assumes "printd_main env s = (Inr (), t)" and "distinct (List.map fst (dtable (process env)))" and "set ready \<subseteq> set (rendezvous t)"
    and "reqdir env = Some es" and "fsplan (pd s) = []" and "\<not> oom (pd s)" and "isq (jobs (pd s)) []" and "\<forall>(j, r)\<in>set js. stored (pd s) j r"
    and "filter (\<lambda>e. e \<noteq> ''.'' \<and> e \<noteq> ''..'') es = map (\<lambda>(j, r). sdec j) js"
  shows "pwnam env = Some (uid t, gid t) \<and> uid t \<noteq> 0 \<and> \<not> job_locked env \<and>
    (\<exists>as. isq (jobs (pd t)) as \<and> map (data_at (jobs (pd t))) as = map (\<lambda>(j, r). \<lparr>jobid = j, req = r\<rparr>) js) \<and> spool (pd t) = spool (pd s) \<and>
    nextjob (pd t) = (if jobfile (pd s) = [] then 1
      else word_of_int (atol (take FILENMSZ (jobfile (pd s)) @ drop (length (take FILENMSZ (jobfile (pd s)))) job_path))) \<and>
    (\<exists>kept jobfd. fds t = kept @ jobfd # rendezvous t @ base_fds env \<and> length kept = length js) \<and> distinct (fds t) \<and> rendezvous t \<noteq> [] \<and>
    length (rendezvous t) = length (filter serves (the (addresses env))) \<and> started t = started s @ [PrinterThread, SignalThread] \<and>
    (\<exists>socks u. main_round (Some ready) accept_ok create_ok t = (Inr (), u) \<and>
      list_all2 (\<lambda>i k. if accept_ok i then 0 \<le> k else k = -1) (sorted_list_of_set (set ready)) socks \<and> distinct (fds u) \<and>
      u = t\<lparr>fds := rev (map nat (filter (\<lambda>k. k \<noteq> -1) socks)) @ fds t,
        started := started t @ map (ClientThread \<circ> snd) (filter (create_ok \<circ> fst) (zip (sorted_list_of_set (set ready)) socks))\<rparr>)"
proof -
  obtain v where v: "runs (main_sockets env) s () v" "runs (main_init env) v () t"
    using assms(1) by (auto simp: printd_main_def runs_bnd_iff simp flip: runs_def)
  obtain ps where ps: "addresses env = Some ps" "listening (base_fds env) v" "length (rendezvous v) = length (filter serves ps)" "rendezvous v \<noteq> []"
      "v = s\<lparr>fds := fds v, rendezvous := rendezvous v, maxfd := maxfd v\<rparr>" using main_sockets_run [OF v(1) assms(2)] by (elim exE conjE)
  have vs: "pd v = pd s" "started v = started s" by (subst ps(5), simp)+
  have l: "fds v = rendezvous v @ base_fds env" "distinct (fds v)" "\<forall>fd \<in> set (rendezvous v). int fd \<le> maxfd v"
    using ps(2) unfolding listening_def by blast+
  note t = main_init_run [OF v(2) l(2)]
  obtain kept where k: "fds t = kept @ lowest (fds v) # fds v" "distinct (fds t)" "length kept = length (unclosed (pd t)) - length (unclosed (pd s))"
    using t assms(4) vs(1) by auto
  have tk: "takes_over env (pd s) = (Inr (), pd t)" using t vs(1) by (simp add: runs_def)
  note q = takes_over_restores [OF tk assms(4-9)]
  let ?is = "[0 ..< nat (maxfd t + 1)]"
  have "i < nat (maxfd t + 1)" if "i \<in> set ready" for i using l(3) t that assms(3) by force
  then have "set (filter (\<lambda>i. i \<in> set ready) ?is) = set ready" by auto
  then have rs: "filter (\<lambda>i. i \<in> set ready) ?is = sorted_list_of_set (set ready)"
    by (metis distinct_filter distinct_upt sorted_list_of_set.idem_if_sorted_distinct sorted_upt sorted_wrt_filter)
  from accept_loop_run [OF k(2), of accept_ok create_ok ready ?is, unfolded rs]
  have R: "\<exists>socks u. main_round (Some ready) accept_ok create_ok t = (Inr (), u) \<and>
      list_all2 (\<lambda>i k. if accept_ok i then 0 \<le> k else k = -1) (sorted_list_of_set (set ready)) socks \<and> distinct (fds u) \<and>
      u = t\<lparr>fds := rev (map nat (filter (\<lambda>k. k \<noteq> -1) socks)) @ fds t,
        started := started t @ map (ClientThread \<circ> snd) (filter (create_ok \<circ> fst) (zip (sorted_list_of_set (set ready)) socks))\<rparr>"
    by (simp add: main_round_def runs_def run_simps)
  have "\<exists>kept jobfd. fds t = kept @ jobfd # rendezvous t @ base_fds env \<and> length kept = length js"
    using k q t l(1) by (intro exI [of _ kept] exI [of _ "lowest (fds v)"]) simp
  moreover have "rendezvous t \<noteq> [] \<and> length (rendezvous t) = length (filter serves (the (addresses env))) \<and> started t = started s @ [PrinterThread, SignalThread]"
    using t ps(1,3,4) vs(2) by simp
  ultimately show ?thesis using t k(2) R q by (intro conjI) blast+
qed

definition sample_start :: startup where
  "sample_start = \<lparr>argc = 1, daemon = \<lparr>limit_ok = True, rlim_max = Some 100, fork1 = Child, hup_ok = True, fork2 = Child, chdir_ok = True, null_ok = True, dup1_ok = True, dup2_ok = True\<rparr>,
     process = \<lparr>dtable = [(2, DevNull), (1, Obj 7), (0, Obj 7)], dmask = 18, cwd = ''/home'', hup_ignored = False, leader = False, ctty = True\<rparr>, sigaction_ok = True, sigmask_ok = True, malloc_ok = True, gethostname_ok = True,
     addresses = Some [\<lparr>socket_ok = True, setsockopt_ok = True, bind_ok = True, listen_ok = True\<rparr>,
       \<lparr>socket_ok = True, setsockopt_ok = True, bind_ok = False, listen_ok = True\<rparr>,
       \<lparr>socket_ok = True, setsockopt_ok = True, bind_ok = True, listen_ok = True\<rparr>],
     pwnam = Some (7, 7), job_locked = False, getaddrinfo = (\<lambda>_ _. Some (Some ''lp'')), config = Some (print_conf [(''printer'', ''lp1'')]),
     printer_thread_ok = True, signal_thread_ok = True, reqdir = Some [''.'', ''1'']\<rparr>"

definition sample_main :: pmain where
  "sample_main = \<lparr>pd = (idle [])\<lparr>jobfile := [], spool := [req_name ''1'' \<mapsto> req_raw sample_req]\<rparr>, fds = [], uid = 0, gid = 0, rendezvous = [], maxfd = 0, started = []\<rparr>"

lemma sample_start_sel:
  "argc sample_start = 1" "sigaction_ok sample_start" "sigmask_ok sample_start" "malloc_ok sample_start" "gethostname_ok sample_start"
  "addresses sample_start = Some [\<lparr>socket_ok = True, setsockopt_ok = True, bind_ok = True, listen_ok = True\<rparr>,
     \<lparr>socket_ok = True, setsockopt_ok = True, bind_ok = False, listen_ok = True\<rparr>, \<lparr>socket_ok = True, setsockopt_ok = True, bind_ok = True, listen_ok = True\<rparr>]"
  "pwnam sample_start = Some (7, 7)" "\<not> job_locked sample_start" "getaddrinfo sample_start = (\<lambda>_ _. Some (Some ''lp''))"
  "config sample_start = Some (print_conf [(''printer'', ''lp1'')])" "printer_thread_ok sample_start" "signal_thread_ok sample_start" "reqdir sample_start = Some [''.'', ''1'']"
  "distinct (List.map fst (dtable (process sample_start)))" "base_fds sample_start = [2, 1, 0]"
  "fst (daemonize (daemon sample_start) (process sample_start)) = Inr ()"
  "List.map fst (dtable (snd (daemonize (daemon sample_start) (process sample_start)))) = [2, 1, 0]"
proof -
  have "daemonize (daemon sample_start) (process sample_start) = (Inr (), detached (daemon sample_start) (process sample_start))"
    unfolding runs_def [symmetric] daemonize_run by (simp add: sample_start_def env_ok_def left_open_def close_limit_def)
  then show "fst (daemonize (daemon sample_start) (process sample_start)) = Inr ()"
    "List.map fst (dtable (snd (daemonize (daemon sample_start) (process sample_start)))) = [2, 1, 0]"
    by (simp_all add: sample_start_def detached_def left_open_def close_limit_def)
qed (simp_all add: sample_start_def base_fds_def left_open_def close_limit_def)

theorem printd_main_serves_witness:
  "\<exists>t u. printd_main sample_start sample_main = (Inr (), t) \<and> uid t = 7 \<and> gid t = 7 \<and> rendezvous t = [4, 3] \<and> length (fds t) = 7 \<and>
     (\<exists>a. isq (jobs (pd t)) [a] \<and> data_at (jobs (pd t)) a = \<lparr>jobid = 1, req = sample_req\<rparr>) \<and>
     main_round (Some [4]) (\<lambda>_. False) (\<lambda>_. True) t = (Inr (), u) \<and> started u = [PrinterThread, SignalThread, ClientThread (-1)]"
proof -
  have e: "entry_ok (''printer'', ''lp1'')" by code_simp
  have c: "get_printaddr (\<lambda>_ _. Some (Some ''lp'')) (Some (print_conf [(''printer'', ''lp1'')])) = Some (Some (Some ''lp''))"
    using scan_configfile_lookup [of "[(''printer'', ''lp1'')]" "''printer''"] e by (simp add: get_printaddr_def getaddrlist_def)
  have low: "lowest [2, 1, 0] = 3" "lowest [3, 2, 1, 0] = 4" "lowest [4, 3, 2, 1, 0] = 5" by code_simp+
  let ?d = "pd sample_main"
  have P: "fsplan ?d = []" "\<not> oom ?d" "isq (jobs ?d) []" "\<forall>x\<in>set []. x < next_addr ?d" "\<forall>(j, r)\<in>set [(1, sample_req)]. stored ?d j r"
    "filter (\<lambda>e. e \<noteq> ''.'' \<and> e \<noteq> ''..'') [''.'', ''1''] = map (\<lambda>(j, r). sdec j) [(1, sample_req)]"
    using idle_facts by (simp_all add: sample_main_def stored_def sdec_1 idle_def isq_def)
  obtain d where d: "build_qonstart (Some [''.'', ''1'']) ?d = (Inr (), d)"
    using qonstart_loop_restores [OF P] by (auto simp: build_qonstart_def)
  let ?w = "sample_main\<lparr>fds := [5, 4, 3, 2, 1, 0], rendezvous := [4, 3], maxfd := 4, uid := 7, gid := 7, started := [PrinterThread, SignalThread]\<rparr>"
  have "printd_main sample_start sample_main = start_queue sample_start ?w"
    using c low sample_start_sel
    by (simp add: printd_main_def main_sockets_def main_init_def set_ids_def start_thread_def initserver_def lift_pd_def init_request_def FD_SETSIZE_def
      init_printer_def next_fs_def sample_main_def idle_def bnd_def run_simps)
  then have run: "printd_main sample_start sample_main = (Inr (), snd (start_queue sample_start ?w))"
    using d sample_start_sel by (simp add: start_queue_def Let_def)
  define t where "t = snd (start_queue sample_start ?w)"
  have f: "rendezvous t = [4, 3]" "uid t = 7" "gid t = 7" "started t = [PrinterThread, SignalThread]"
    using d sample_start_sel by (simp_all add: t_def start_queue_def Let_def)
  have "set [4] \<subseteq> set (rendezvous t)" using f(1) by simp
  note m = printd_main_serves [OF run [folded t_def] sample_start_sel(14) this sample_start_sel(13) P(1-3,5,6), of "\<lambda>_. False" "\<lambda>_. True", unfolded f]
  obtain kept jobfd where k: "fds t = kept @ jobfd # [4, 3] @ base_fds sample_start" "length kept = 1" using m by auto
  have "\<exists>as. isq (jobs (pd t)) as \<and> map (data_at (jobs (pd t))) as = map (\<lambda>(j, r). \<lparr>jobid = j, req = r\<rparr>) [(1, sample_req)]"
    using m by (elim conjE)
  then obtain as where a: "isq (jobs (pd t)) as" "map (data_at (jobs (pd t))) as = [\<lparr>jobid = 1, req = sample_req\<rparr>]" by auto
  then obtain a where "as = [a]" "data_at (jobs (pd t)) a = \<lparr>jobid = 1, req = sample_req\<rparr>" by auto
  moreover obtain socks u where "main_round (Some [4]) (\<lambda>_. False) (\<lambda>_. True) t = (Inr (), u)" "list_all2 (\<lambda>i k. k = -1) [4 :: nat] socks"
    "u = t\<lparr>fds := rev (map nat (filter (\<lambda>k. k \<noteq> -1) socks)) @ fds t,
        started := [PrinterThread, SignalThread] @ map (ClientThread \<circ> snd) (filter ((\<lambda>_. True) \<circ> fst) (zip [4 :: nat] socks))\<rparr>"
    using m by auto
  moreover have "length (fds t) = 7" using k sample_start_sel by simp
  ultimately show ?thesis using run [folded t_def] f a(1) by (intro exI [of _ t] exI [of _ u]) (auto simp: list_all2_Cons1)
qed

end
