(* ===== verification/LocalSock.thy ===== *)
theory LocalSock
  imports CString "HOL-Library.Word"
begin

unbundle bit_operations_syntax

section \<open>Connections that identify the client (lib/servlisten.c, lib/servaccept.c, lib/cliconn.c)\<close>

text \<open>
  The state is what the client and the server share, the names in the file system, the connections that wait at a server's
  name and the clock, and what the running process has of its own: its user, its file mode creation mask, its descriptors
  with the names bound to them, its standard output, and which of its coming calls fail whatever the state (\<open>calls\<close>; none when it
  is empty). A connection is the name that the client bound, empty if it bound none.
  \<open>serv_accept\<close> takes as a parameter the size of a pointer, which is all that it allocates for the name, since
  \<open>sun_path + 1\<close> in its \<open>sizeof\<close> is a pointer; a longer name stops it with \<open>Overflow\<close>. The length that \<open>accept\<close> reports is taken without the
  null byte at the end of the name, as \<open>serv_accept\<close> adds one of its own; on a system that counts it the name needs one more byte, so
  that \<open>Overflow\<close> comes one byte earlier. It stops with \<open>Waits\<close> where
  \<open>accept\<close> would wait for a client.
\<close>

record inode =
  owner :: nat
  mode :: "32 word"
  is_sock :: bool
  st_times :: "int list"        \<comment> \<open>last access, change of status, modification\<close>

record lsys =
  files :: "string \<rightharpoonup> inode"
  backlog :: "string \<rightharpoonup> string list"
  clock :: int
  user :: nat
  cmask :: "32 word"
  fds :: "(nat \<times> string) list"
  stdout :: string
  calls :: "bool list"

datatype sock_stop = Overflow | Waits

type_synonym 'a lp = "(lsys, sock_stop, 'a) prog"

definition SUN_PATH_MAX :: nat where "SUN_PATH_MAX = 108"
definition CLI_PATH :: string where "CLI_PATH = ''/var/tmp/''"
definition STALE :: int where "STALE = 30"
definition S_IRWXU :: "32 word" where "S_IRWXU = 0x1C0"
definition S_IRWXG :: "32 word" where "S_IRWXG = 0x38"
definition S_IRWXO :: "32 word" where "S_IRWXO = 0x07"

definition call :: "bool lp" where
  "call = (\<lambda>s. (Inr (calls s = [] \<or> hd (calls s)), s\<lparr>calls := tl (calls s)\<rparr>))"

definition new_sock :: "string \<Rightarrow> nat lp" where
  "new_sock name = bnd (gets (\<lambda>s. lowest (List.map fst (fds s)))) (\<lambda>fd. bnd (modify (\<lambda>s. s\<lparr>fds := (fd, name) # fds s\<rparr>)) (\<lambda>_. ret fd))"

definition k_unlink :: "string \<Rightarrow> unit lp" where
  "k_unlink name = bnd call (\<lambda>b. if b then modify (\<lambda>s. s\<lparr>files := (files s)(name := None)\<rparr>) else ret ())"

definition k_bind :: "nat \<Rightarrow> string \<Rightarrow> bool lp" where
  "k_bind fd name =
     bnd call (\<lambda>b. bnd (gets (\<lambda>s. files s name = None)) (\<lambda>free.
     if b \<and> free then
       bnd (modify (\<lambda>s. s\<lparr>files := (files s)(name \<mapsto> \<lparr>owner = user s, mode = 0x1FF AND NOT (cmask s), is_sock = True,
           st_times = [clock s, clock s, clock s]\<rparr>), backlog := (backlog s)(name := None),
         fds := List.map (\<lambda>(n, p). (n, if n = fd then name else p)) (fds s)\<rparr>)) (\<lambda>_. ret True)
     else ret False))"

definition k_chmod :: "string \<Rightarrow> 32 word \<Rightarrow> bool lp" where
  "k_chmod name m =
     bnd call (\<lambda>b. bnd (gets (\<lambda>s. files s name)) (\<lambda>ino.
     case ino of
       Some i \<Rightarrow> if b then bnd (modify (\<lambda>s. s\<lparr>files := (files s)(name \<mapsto> i\<lparr>mode := m, st_times := (st_times i)[1 := clock s]\<rparr>)\<rparr>)) (\<lambda>_. ret True) else ret False
     | None \<Rightarrow> ret False))"

definition k_listen :: "nat \<Rightarrow> string \<Rightarrow> bool lp" where
  "k_listen fd name = bnd call (\<lambda>b. if b then bnd (modify (\<lambda>s. s\<lparr>backlog := (backlog s)(name \<mapsto> [])\<rparr>)) (\<lambda>_. ret True) else ret False)"

definition k_connect :: "string \<Rightarrow> string \<Rightarrow> bool lp" where
  "k_connect own name =
     bnd call (\<lambda>b. bnd (gets (\<lambda>s. files s name \<noteq> None)) (\<lambda>there. bnd (gets (\<lambda>s. backlog s name)) (\<lambda>q.
     case q of
       Some q \<Rightarrow> if b \<and> there then bnd (modify (\<lambda>s. s\<lparr>backlog := (backlog s)(name \<mapsto> q @ [own])\<rparr>)) (\<lambda>_. ret True) else ret False
     | None \<Rightarrow> ret False)))"

definition k_close :: "nat \<Rightarrow> unit lp" where
  "k_close fd = modify (\<lambda>s. s\<lparr>fds := filter (\<lambda>x. fst x \<noteq> fd) (fds s)\<rparr>)"

definition serv_listen :: "string \<Rightarrow> int lp" where
  "serv_listen name =
     (if length name \<ge> SUN_PATH_MAX then ret (-1)
      else bnd call (\<lambda>b. if \<not> b then ret (-2)
      else bnd (new_sock []) (\<lambda>fd.
      bnd (k_unlink name) (\<lambda>_.
      bnd (k_bind fd name) (\<lambda>b. if \<not> b then bnd (k_close fd) (\<lambda>_. ret (-3))
      else bnd (k_listen fd name) (\<lambda>b. if \<not> b then bnd (k_close fd) (\<lambda>_. ret (-4))
      else ret (int fd)))))))"

definition cli_name :: "nat \<Rightarrow> string" where
  "cli_name pid = CLI_PATH @ replicate (5 - length (dec pid)) (CHR ''0'') @ dec pid"

definition cli_errout :: "nat \<Rightarrow> string option \<Rightarrow> int \<Rightarrow> int lp" where
  "cli_errout fd do_unlink rval = bnd (k_close fd) (\<lambda>_. bnd (case do_unlink of None \<Rightarrow> ret () | Some p \<Rightarrow> k_unlink p) (\<lambda>_. ret rval))"

definition cli_conn :: "string \<Rightarrow> nat \<Rightarrow> int lp" where
  "cli_conn name pid =
     (if length name \<ge> SUN_PATH_MAX then ret (-1)
      else bnd call (\<lambda>b. if \<not> b then ret (-1)
      else bnd (new_sock []) (\<lambda>fd. let un = cli_name pid in
      bnd (modify (\<lambda>s. s\<lparr>stdout := stdout s @ ''file is '' @ un @ [CHR 0x0A]\<rparr>)) (\<lambda>_.
      bnd (k_unlink un) (\<lambda>_.
      bnd (k_bind fd un) (\<lambda>b. if \<not> b then cli_errout fd None (-2)
      else bnd (k_chmod un S_IRWXU) (\<lambda>b. if \<not> b then cli_errout fd (Some un) (-3)
      else bnd (k_connect un name) (\<lambda>b. if \<not> b then cli_errout fd (Some un) (-4)
      else ret (int fd)))))))))"

definition k_accept :: "nat \<Rightarrow> (nat \<times> string) option lp" where
  "k_accept listenfd =
     bnd call (\<lambda>b. bnd (gets (\<lambda>s. Option.bind (map_of (fds s) listenfd) (\<lambda>name. map_option (Pair name) (backlog s name)))) (\<lambda>l.
     case l of
       Some (name, q) \<Rightarrow>
         if \<not> b then ret None
         else bnd (check (q \<noteq> []) Waits) (\<lambda>_.
           bnd (new_sock []) (\<lambda>fd. bnd (modify (\<lambda>s. s\<lparr>backlog := (backlog s)(name \<mapsto> tl q)\<rparr>)) (\<lambda>_. ret (Some (fd, hd q)))))
     | None \<Rightarrow> ret None))"

text \<open>What the name of the client is checked for: the value to return, or the user.\<close>

definition check_name :: "inode option \<Rightarrow> int \<Rightarrow> int + nat" where
  "check_name st now =
     (case st of
        None \<Rightarrow> Inl (-3)
      | Some st \<Rightarrow>
          if \<not> is_sock st then Inl (-4)
          else if mode st AND (S_IRWXG OR S_IRWXO) \<noteq> 0 \<or> mode st AND S_IRWXU \<noteq> S_IRWXU then Inl (-5)
          else if \<exists>t \<in> set (st_times st). t < now - STALE then Inl (-6)
          else Inr (owner st))"

definition vet_client :: "nat \<Rightarrow> string \<Rightarrow> bool \<Rightarrow> (int \<times> nat option) lp" where
  "vet_client clifd un uidptr =
     bnd call (\<lambda>b.
     bnd (gets (\<lambda>s. check_name (if b then files s un else None) (clock s))) (\<lambda>r. case r of
       Inl rval \<Rightarrow> bnd (k_close clifd) (\<lambda>_. ret (rval, None))
     | Inr uid \<Rightarrow> bnd (k_unlink un) (\<lambda>_. ret (int clifd, if uidptr then Some uid else None))))"

definition serv_accept :: "nat \<Rightarrow> nat \<Rightarrow> bool \<Rightarrow> (int \<times> nat option) lp" where
  "serv_accept ptrsize listenfd uidptr =
     bnd call (\<lambda>b. if \<not> b then ret (-1, None)
     else bnd (k_accept listenfd) (\<lambda>a. case a of None \<Rightarrow> ret (-2, None) | Some (clifd, un) \<Rightarrow>
     bnd (check (length un + 1 \<le> ptrsize) Overflow) (\<lambda>_.
     vet_client clifd un uidptr)))"

subsection \<open>Names of clients\<close>

lemma cli_name_long: "14 \<le> length (cli_name pid)"
  by (simp add: cli_name_def CLI_PATH_def)

lemma call_run: "runs call s b t \<longleftrightarrow> b = (calls s = [] \<or> hd (calls s)) \<and> t = s\<lparr>calls := tl (calls s)\<rparr>"
  by (auto simp: runs_def call_def)

lemma new_sock_run: "runs (new_sock p) s fd t \<longleftrightarrow> fd = lowest (List.map fst (fds s)) \<and> t = s\<lparr>fds := (lowest (List.map fst (fds s)), p) # fds s\<rparr>"
  by (auto simp: new_sock_def runs_bnd_iff)

lemma k_unlink_run: "runs (k_unlink p) s x t \<longleftrightarrow>
    t = s\<lparr>calls := tl (calls s), files := (if calls s = [] \<or> hd (calls s) then (files s)(p := None) else files s)\<rparr>"
  by (auto simp: k_unlink_def runs_bnd_iff call_run)

lemmas sock_runs = runs_bnd_iff call_run new_sock_run k_unlink_run

text \<open>A client that has connected: its name is a fresh socket of its user, and waits behind the others.\<close>

lemma cli_conn_run:
  assumes "runs (cli_conn name pid) s r t" and "0 \<le> r"
  shows "\<exists>ino q. files t (cli_name pid) = Some ino \<and> owner ino = user s \<and> is_sock ino \<and> mode ino = S_IRWXU \<and> st_times ino = [clock s, clock s, clock s] \<and>
    backlog s name = Some q \<and> backlog t name = Some (q @ [cli_name pid]) \<and> clock t = clock s \<and> user t = user s"
  using assms
  by (auto simp: cli_conn_def cli_errout_def sock_runs k_bind_def k_chmod_def k_connect_def Let_def split: if_splits option.splits)

lemma serv_listen_run:
  assumes "runs (serv_listen name) s r t" and "0 \<le> r"
  shows "backlog t name = Some [] \<and> map_of (fds t) (nat r) = Some name"
proof -
  have m: "map_of (List.map (\<lambda>(n, p). (n, if n = k then name else p)) xs) k = map_option (\<lambda>_. name) (map_of xs k)" for k xs
    by (induction xs) auto
  show ?thesis using assms
    by (auto simp: serv_listen_def sock_runs k_bind_def k_listen_def m split: if_splits)
qed

subsection \<open>What the server does with a client\<close>

definition taken :: "string \<Rightarrow> string list \<Rightarrow> lsys \<Rightarrow> lsys" where
  "taken name q s = s\<lparr>backlog := (backlog s)(name \<mapsto> q)\<rparr>"

definition with_sock :: "lsys \<Rightarrow> lsys" where
  "with_sock s = s\<lparr>fds := (lowest (List.map fst (fds s)), []) # fds s\<rparr>"

lemma close_new: "filter (\<lambda>x. fst x \<noteq> lowest (List.map fst xs)) xs = xs"
  using lowest_free [of "List.map fst xs"] by (force simp: filter_id_conv)

lemma serv_accept_table:
  assumes "calls s = []" and "map_of (fds s) lfd = Some name" and "backlog s name = Some (un # q)"
  shows "serv_accept ptrsize lfd up s =
    (if ptrsize \<le> length un then (Inl Overflow, taken name q (with_sock s))
     else case check_name (files s un) (clock s) of
       Inl rval \<Rightarrow> (Inr (rval, None), taken name q s)
     | Inr uid \<Rightarrow> (Inr (int (lowest (List.map fst (fds s))), if up then Some uid else None), (taken name q (with_sock s))\<lparr>files := (files s)(un := None)\<rparr>))"
  using assms close_new [of "fds s"]
  by (simp add: serv_accept_def vet_client_def k_accept_def new_sock_def k_close_def k_unlink_def call_def taken_def with_sock_def bnd_def run_simps split: sum.split)

text \<open>A user is only ever reported for a name that only its owner can use, and that was made within the last 30 seconds.\<close>

definition vouches :: "inode \<Rightarrow> int \<Rightarrow> bool" where
  "vouches ino now \<longleftrightarrow> is_sock ino \<and> mode ino AND (S_IRWXG OR S_IRWXO) = 0 \<and> mode ino AND S_IRWXU = S_IRWXU \<and> (\<forall>t \<in> set (st_times ino). now - STALE \<le> t)"

lemma check_name_vouches: "check_name st now = Inr u \<longleftrightarrow> (\<exists>ino. st = Some ino \<and> vouches ino now \<and> owner ino = u)"
  by (fastforce simp: check_name_def vouches_def split: option.splits if_splits)

lemma k_accept_run:
  assumes "runs (k_accept lfd) s (Some (fd, un)) t"
  shows "\<exists>name q. map_of (fds s) lfd = Some name \<and> backlog s name = Some (un # q) \<and> files t = files s \<and> clock t = clock s"
  using assms unfolding k_accept_def
  by (auto simp: sock_runs bind_eq_Some_conv neq_Nil_conv split: if_splits option.splits)

lemma vet_client_run:
  assumes "runs (vet_client fd un True) s (n, Some u) t"
  shows "\<exists>ino. files s un = Some ino \<and> vouches ino (clock s) \<and> owner ino = u"
proof -
  let ?r = "check_name (if calls s = [] \<or> hd (calls s) then files (s\<lparr>calls := tl (calls s)\<rparr>) un else None) (clock s)"
  have r: "?r = Inr u"
  proof (cases ?r)
    case (Inl a)
    then show ?thesis using assms by (simp add: vet_client_def sock_runs)
  next
    case (Inr a)
    then show ?thesis using assms by (simp add: vet_client_def sock_runs)
  qed
  then show ?thesis by (auto simp: check_name_vouches split: if_splits)
qed

lemma serv_accept_user:
  assumes "runs (serv_accept ptrsize lfd True) s (n, Some u) t"
  shows "\<exists>name un q ino. map_of (fds s) lfd = Some name \<and> backlog s name = Some (un # q) \<and> files s un = Some ino \<and>
    vouches ino (clock s) \<and> owner ino = u \<and> length un < ptrsize"
proof -
  let ?s = "s\<lparr>calls := tl (calls s)\<rparr>"
  obtain a v where v: "runs (k_accept lfd) ?s a v"
      "runs (case a of None \<Rightarrow> ret (-2, None) | Some (clifd, un) \<Rightarrow> bnd (check (Suc (length un) \<le> ptrsize) Overflow) (\<lambda>_. vet_client clifd un True)) v (n, Some u) t"
    using assms unfolding serv_accept_def
    by (auto simp: runs_bnd_iff [of call] runs_bnd_iff [of "k_accept lfd"] call_run split: if_splits)
  then obtain fd un where a: "a = Some (fd, un)" by (cases a) auto
  with v(2) have "length un < ptrsize" "runs (vet_client fd un True) v (n, Some u) t" by (auto simp: runs_bnd_iff)
  with k_accept_run [OF v(1) [unfolded a]] vet_client_run [of fd un v n u t] show ?thesis by auto
qed

subsection \<open>The property\<close>

text \<open>
  C24. Server, client and server again: a client that has connected with \<open>cli_conn\<close> to a name that \<open>serv_listen\<close> made is identified by
  \<open>serv_accept\<close> as its user, unless more than 30 seconds have passed, and its name is removed; but for that the buffer must
  hold the name. What is allocated is the size of a pointer, and every name that \<open>cli_conn\<close> makes has at least 14 bytes,
  so that with pointers of 8 bytes \<open>serv_accept\<close> always writes past the end. In any state, a user that it reports is the owner of the
  name in a socket file that only the owner can use and that is not stale.
\<close>

theorem client_identified:
  assumes "runs (serv_listen name) s0 lfd s1" and "0 \<le> lfd"
    and "runs (cli_conn name pid) (s1\<lparr>user := u, cmask := m, fds := cfds, calls := plan\<rparr>) r c" and "0 \<le> r"
    and "s = c\<lparr>user := user s1, fds := fds s1, calls := [], clock := now\<rparr>"
  shows "serv_accept ptrsize (nat lfd) True s =
      (if ptrsize \<le> length (cli_name pid) then (Inl Overflow, taken name [] (with_sock s))
       else if now \<le> clock s1 + STALE
         then (Inr (int (lowest (List.map fst (fds s))), Some u), (taken name [] (with_sock s))\<lparr>files := (files s)(cli_name pid := None)\<rparr>)
       else (Inr (-6, None), taken name [] s)) \<and>
    (ptrsize \<le> 14 \<longrightarrow> fst (serv_accept ptrsize (nat lfd) True s) = Inl Overflow) \<and>
    (\<forall>s n v t. serv_accept ptrsize (nat lfd) True s = (Inr (n, Some v), t) \<longrightarrow>
       (\<exists>name un q ino. map_of (fds s) (nat lfd) = Some name \<and> backlog s name = Some (un # q) \<and> files s un = Some ino \<and> vouches ino (clock s) \<and> owner ino = v))"
proof -
  note l = serv_listen_run [OF assms(1,2)]
  from cli_conn_run [OF assms(3,4)] obtain ino where i: "files c (cli_name pid) = Some ino" "owner ino = u" "is_sock ino" "mode ino = S_IRWXU"
      "st_times ino = [clock s1, clock s1, clock s1]" "backlog c name = Some [cli_name pid]" using l by auto
  have "check_name (files s (cli_name pid)) now = (if now \<le> clock s1 + STALE then Inr u else Inl (-6))"
    using i assms(5) by (simp add: check_name_def S_IRWXU_def S_IRWXG_def S_IRWXO_def)
  then have t: "serv_accept ptrsize (nat lfd) True s =
      (if ptrsize \<le> length (cli_name pid) then (Inl Overflow, taken name [] (with_sock s))
       else if now \<le> clock s1 + STALE
         then (Inr (int (lowest (List.map fst (fds s))), Some u), (taken name [] (with_sock s))\<lparr>files := (files s)(cli_name pid := None)\<rparr>)
       else (Inr (-6, None), taken name [] s))"
    using serv_accept_table [of s "nat lfd" name "cli_name pid" "[]" ptrsize True] l i(6) assms(5) by simp
  moreover have "fst (serv_accept ptrsize (nat lfd) True s) = Inl Overflow" if "ptrsize \<le> 14"
    using that cli_name_long [of pid] t by simp
  ultimately show ?thesis using serv_accept_user unfolding runs_def by blast
qed

definition sample_sys :: lsys where
  "sample_sys = \<lparr>files = Map.empty, backlog = Map.empty, clock = 100, user = 0, cmask = 0x12, fds = [(2, []), (1, []), (0, [])], stdout = [], calls = []\<rparr>"

theorem client_identified_witness:
  "\<exists>s. fst (serv_accept 8 3 True s) = Inl Overflow \<and> (\<exists>t. serv_accept 109 3 True s = (Inr (4, Some 7), t) \<and> files t (cli_name 321) = None) \<and>
     files s (cli_name 321) = Some \<lparr>owner = 7, mode = S_IRWXU, is_sock = True, st_times = [100, 100, 100]\<rparr>"
proof -
  define s1 where "s1 = snd (serv_listen ''/tmp/s'' sample_sys)"
  define c where "c = snd (cli_conn ''/tmp/s'' 321 (s1\<lparr>user := 7, cmask := 0, fds := [], calls := []\<rparr>))"
  define s where "s = c\<lparr>user := user s1, fds := fds s1, calls := [], clock := 130\<rparr>"
  have low: "lowest [2, 1, 0] = 3" "lowest [] = 0" "lowest [3, 2, 1, 0] = 4" by code_simp+
  have n: "cli_name 321 = ''/var/tmp/00321''" by code_simp
  note d = new_sock_def k_unlink_def k_bind_def k_listen_def k_chmod_def k_connect_def call_def bnd_def run_simps Let_def SUN_PATH_MAX_def sample_sys_def
  have l: "runs (serv_listen ''/tmp/s'') sample_sys 3 s1" "clock s1 = 100" "user s1 = 0" "fds s1 = [(3, ''/tmp/s''), (2, []), (1, []), (0, [])]"
    using low by (simp_all add: s1_def serv_listen_def runs_def d)
  have c: "runs (cli_conn ''/tmp/s'' 321) (s1\<lparr>user := 7, cmask := 0, fds := [], calls := []\<rparr>) 0 c"
      "files c (cli_name 321) = Some \<lparr>owner = 7, mode = S_IRWXU, is_sock = True, st_times = [100, 100, 100]\<rparr>"
    using low by (simp_all add: c_def s1_def cli_conn_def serv_listen_def runs_def n d)
  note P = client_identified [OF l(1) _ c(1) _ s_def]
  have "fst (serv_accept 8 3 True s) = Inl Overflow" using P [of 8] by (simp add: n)
  moreover have "\<exists>t. serv_accept 109 3 True s = (Inr (4, Some 7), t) \<and> files t (cli_name 321) = None"
    using P [of 109] l(2,4) low(3) by (simp add: n STALE_def s_def)
  moreover have "files s (cli_name 321) = files c (cli_name 321)" by (simp add: s_def)
  ultimately show ?thesis using c(2) by auto
qed

end
