(* ===== verification/MemCookie.thy ===== *)
theory MemCookie
  imports Prelude "HOL-Library.Word"
begin

section \<open>A memory stream from callbacks (Chapter05/exercise_7.c)\<close>

text \<open>
  The cookie that the callbacks of \<open>funopen\<close> share: the buffer of the caller, its size, a \<open>size_t\<close>, and the position, an \<open>fpos_t\<close>, both of
  64 bits, the second signed. Where the source compares the two it compares them unsigned. The result is \<open>None\<close> where the code would touch memory
  outside the buffer or where a signed addition overflows; \<open>mem_seek\<close> returns 0, or -1 with \<open>errno\<close> set.
\<close>

record mem_cookie =
  buffer :: string
  size :: "64 word"
  position :: "64 word"

datatype whence = SEEK_SET | SEEK_CUR | SEEK_END | SEEK_OTHER

definition my_fmemopen :: "string \<Rightarrow> 64 word \<Rightarrow> bool \<Rightarrow> mem_cookie option" where
  "my_fmemopen buf sz malloc_ok = (if malloc_ok then Some \<lparr>buffer = buf, size = sz, position = 0\<rparr> else None)"

text \<open>The index \<open>buffer[position]\<close>.\<close>

definition at_pos :: "mem_cookie \<Rightarrow> nat option" where
  "at_pos c = (if 0 \<le> sint (position c) \<and> sint (position c) < int (length (buffer c)) then Some (nat (sint (position c))) else None)"

definition advance :: "mem_cookie \<Rightarrow> mem_cookie option" where
  "advance c = (if sint (position c) = 2 ^ 63 - 1 then None else Some (c\<lparr>position := position c + 1\<rparr>))"

fun get_loop :: "nat \<Rightarrow> mem_cookie \<Rightarrow> (string \<times> mem_cookie) option" where
  "get_loop 0 c = Some ([], c)"
| "get_loop (Suc n) c =
     (if position c < size c then
        Option.bind (at_pos c) (\<lambda>i.
        Option.bind (advance c) (\<lambda>d.
        map_option (\<lambda>(bs, e). (buffer c ! i # bs, e)) (get_loop n d)))
      else Some ([], c))"

definition mem_read :: "32 word \<Rightarrow> mem_cookie \<Rightarrow> (string \<times> mem_cookie) option" where
  "mem_read sz c = get_loop (nat (sint sz)) c"

fun put_loop :: "string \<Rightarrow> mem_cookie \<Rightarrow> (nat \<times> mem_cookie) option" where
  "put_loop [] c = Some (0, c)"
| "put_loop (b # bs) c =
     (if position c < size c then
        Option.bind (at_pos c) (\<lambda>i.
        Option.bind (advance (c\<lparr>buffer := (buffer c)[i := b]\<rparr>)) (\<lambda>d.
        map_option (\<lambda>(k, e). (Suc k, e)) (put_loop bs d)))
      else Some (0, c))"

text \<open>\<open>buf\<close> has at least as many bytes as \<open>sz\<close> says.\<close>

definition mem_write :: "string \<Rightarrow> 32 word \<Rightarrow> mem_cookie \<Rightarrow> (nat \<times> mem_cookie) option" where
  "mem_write buf sz c = put_loop (take (nat (sint sz)) buf) c"

definition mem_seek :: "64 word \<Rightarrow> whence \<Rightarrow> mem_cookie \<Rightarrow> (bool \<times> mem_cookie) option" where
  "mem_seek offset wh c =
     (case wh of
        SEEK_SET \<Rightarrow> Some (if 0 \<le> sint offset \<and> offset < size c then (True, c\<lparr>position := offset\<rparr>) else (False, c))
      | SEEK_CUR \<Rightarrow>
          if sint (position c) + sint offset \<notin> {- (2 ^ 63) ..< 2 ^ 63} then None
          else Some (if position c + offset < size c \<and> 0 \<le> sint (position c + offset) then (True, c\<lparr>position := position c + offset\<rparr>) else (False, c))
      | SEEK_END \<Rightarrow> Some (if size c + offset < size c then (True, c\<lparr>position := size c + offset\<rparr>) else (False, c))
      | SEEK_OTHER \<Rightarrow> Some (False, c))"

text \<open>A program that uses the stream is a list of calls.\<close>

datatype call = Read "32 word" | Write string "32 word" | Seek "64 word" whence
datatype outcome = Bytes string | Count nat | Sought bool

definition mem_call :: "call \<Rightarrow> mem_cookie \<Rightarrow> (outcome \<times> mem_cookie) option" where
  "mem_call x c =
     (case x of
        Read sz \<Rightarrow> map_option (map_prod Bytes id) (mem_read sz c)
      | Write buf sz \<Rightarrow> map_option (map_prod Count id) (mem_write buf sz c)
      | Seek offset wh \<Rightarrow> map_option (map_prod Sought id) (mem_seek offset wh c))"

fun mem_calls :: "call list \<Rightarrow> mem_cookie \<Rightarrow> (outcome list \<times> mem_cookie) option" where
  "mem_calls [] c = Some ([], c)"
| "mem_calls (x # xs) c =
     Option.bind (mem_call x c) (\<lambda>(a, d). map_option (map_prod (Cons a) id) (mem_calls xs d))"

subsection \<open>The type of a cookie\<close>

text \<open>The buffer has the size given, less than a quarter of the address space, and the position is in it or at its end.\<close>

definition cookie_ok :: "mem_cookie \<Rightarrow> bool" where
  "cookie_ok c \<longleftrightarrow> length (buffer c) = unat (size c) \<and> unat (size c) < 2 ^ 62 \<and> unat (position c) \<le> unat (size c)"

definition call_ok :: "call \<Rightarrow> bool" where
  "call_ok x = (case x of
      Read sz \<Rightarrow> True
    | Write buf sz \<Rightarrow> nat (sint sz) \<le> length buf
    | Seek offset wh \<Rightarrow> wh = SEEK_CUR \<longrightarrow> sint offset < 2 ^ 62)"

text \<open>The reference: an array and an index into it.\<close>

definition ref_call :: "call \<Rightarrow> string \<times> nat \<Rightarrow> outcome \<times> string \<times> nat" where
  "ref_call x = (\<lambda>(bs, p).
     case x of
       Read sz \<Rightarrow> let r = take (nat (sint sz)) (drop p bs) in (Bytes r, bs, p + length r)
     | Write buf sz \<Rightarrow> let w = take (min (nat (sint sz)) (length bs - p)) buf in (Count (length w), take p bs @ w @ drop (p + length w) bs, p + length w)
     | Seek offset wh \<Rightarrow>
         let to = (case wh of SEEK_SET \<Rightarrow> sint offset | SEEK_CUR \<Rightarrow> int p + sint offset | SEEK_END \<Rightarrow> int (length bs) + sint offset | SEEK_OTHER \<Rightarrow> -1) in
         if 0 \<le> to \<and> to < int (length bs) then (Sought True, bs, nat to) else (Sought False, bs, p))"

fun ref_calls :: "call list \<Rightarrow> string \<times> nat \<Rightarrow> outcome list \<times> string \<times> nat" where
  "ref_calls [] s = ([], s)"
| "ref_calls (x # xs) s = (case ref_call x s of (a, t) \<Rightarrow> map_prod (Cons a) id (ref_calls xs t))"

definition abs_cookie :: "mem_cookie \<Rightarrow> string \<times> nat" where
  "abs_cookie c = (buffer c, unat (position c))"

subsection \<open>The loops\<close>

lemma uint_less: "unat (x :: 64 word) < n \<Longrightarrow> uint x < int n"
  by (simp add: unat_eq_nat_uint nat_less_iff del: nat_uint_eq)

lemma sint_small:
  assumes "unat (x :: 64 word) < 2 ^ 63"
  shows "sint x = int (unat x)"
proof -
  have "uint x < 2 ^ 63" using uint_less [OF assms] by simp
  moreover have "- (2 ^ 63) \<le> uint x" by (rule order_trans [OF _ uint_ge_0]) simp
  ultimately have "signed_take_bit 63 (uint x) = uint x" by (intro signed_take_bit_int_eq_self)
  then show ?thesis by (simp add: sint_uint)
qed

lemma cookie_pos:
  assumes "cookie_ok c"
  shows "sint (position c) = int (unat (position c))" "int (unat (position c)) < 2 ^ 62"
proof -
  have "unat (position c) < 2 ^ 62" using assms unfolding cookie_ok_def by linarith
  then show "sint (position c) = int (unat (position c))" "int (unat (position c)) < 2 ^ 62" by (auto intro!: sint_small simp del: of_nat_unat)
qed

lemma advance_ok:
  assumes "cookie_ok c" "position c < size c"
  shows "at_pos c = Some (unat (position c))" "advance c = Some (c\<lparr>position := position c + 1\<rparr>)" "unat (position c + 1) = Suc (unat (position c))"
    "cookie_ok (c\<lparr>position := position c + 1\<rparr>)"
proof -
  have l: "unat (position c) < unat (size c)" "unat (size c) < 2 ^ 62" "length (buffer c) = unat (size c)"
    using assms by (auto simp: word_less_nat_alt cookie_ok_def)
  then show u: "unat (position c + 1) = Suc (unat (position c))" by (simp add: unat_word_ariths)
  show "at_pos c = Some (unat (position c))" using l cookie_pos [OF assms(1)] by (simp add: at_pos_def del: of_nat_unat)
  show "advance c = Some (c\<lparr>position := position c + 1\<rparr>)" using cookie_pos [OF assms(1)] by (simp add: advance_def del: of_nat_unat)
  show "cookie_ok (c\<lparr>position := position c + 1\<rparr>)" using l u by (simp add: cookie_ok_def)
qed

lemma drop_pos: "cookie_ok c \<Longrightarrow> position c < size c \<Longrightarrow> drop (unat (position c)) (buffer c) = buffer c ! unat (position c) # drop (Suc (unat (position c))) (buffer c)"
  by (simp add: Cons_nth_drop_Suc cookie_ok_def word_less_nat_alt)

lemma get_loop_run:
  "cookie_ok c \<Longrightarrow> \<exists>d. get_loop n c = Some (take n (drop (unat (position c)) (buffer c)), d) \<and> cookie_ok d \<and> buffer d = buffer c \<and> size d = size c \<and>
    unat (position d) = unat (position c) + length (take n (drop (unat (position c)) (buffer c)))"
proof (induction n arbitrary: c)
  case (Suc n)
  show ?case
  proof (cases "position c < size c")
    case True
    note a = advance_ok [OF Suc.prems True]
    from Suc.IH [OF a(4)] show ?thesis using True a drop_pos [OF Suc.prems True] by auto
  next
    case False
    then have "drop (unat (position c)) (buffer c) = []" using Suc.prems by (simp add: cookie_ok_def word_less_nat_alt)
    then show ?thesis using False Suc.prems by simp
  qed
qed simp

lemma put_loop_run:
  "cookie_ok c \<Longrightarrow> let w = take (length (buffer c) - unat (position c)) bs in \<exists>d. put_loop bs c = Some (length w, d) \<and> cookie_ok d \<and>
    buffer d = take (unat (position c)) (buffer c) @ w @ drop (unat (position c) + length w) (buffer c) \<and> size d = size c \<and>
    unat (position d) = unat (position c) + length w"
proof (induction bs arbitrary: c)
  case (Cons b bs)
  show ?case
  proof (cases "position c < size c")
    case True
    let ?p = "unat (position c)"
    let ?c = "c\<lparr>buffer := (buffer c)[?p := b]\<rparr>"
    have ok: "cookie_ok ?c" "position ?c < size ?c" using Cons.prems True by (simp_all add: cookie_ok_def)
    note a = advance_ok [OF ok]
    have p: "?p < length (buffer c)" using Cons.prems True by (simp add: cookie_ok_def word_less_nat_alt)
    have m: "length (buffer c) - ?p = Suc (length (buffer c) - Suc ?p)" using p by simp
    have t: "take (Suc ?p) ((buffer c)[?p := b]) = take ?p (buffer c) @ [b]" using p by (simp add: take_Suc_conv_app_nth)
    from Cons.IH [OF a(4)] a(1-3) t p m advance_ok(1) [OF Cons.prems True] True show ?thesis
      by (auto simp: Let_def)
  next
    case False
    then show ?thesis using Cons.prems by (simp add: cookie_ok_def word_less_nat_alt)
  qed
qed (simp add: Let_def)

subsection \<open>The property\<close>

text \<open>The unsigned comparison also excludes the targets before the buffer.\<close>

lemma target_in_buffer:
  assumes "unat (sz :: 64 word) < 2 ^ 62" and "- (2 ^ 63) \<le> t" and "t < 2 ^ 64"
  shows "(word_of_int t :: 64 word) < sz \<longleftrightarrow> 0 \<le> t \<and> t < int (unat sz)"
    and "0 \<le> t \<Longrightarrow> t < int (unat sz) \<Longrightarrow> unat (word_of_int t :: 64 word) = nat t \<and> 0 \<le> sint (word_of_int t :: 64 word)"
proof -
  have "t mod 2 ^ 64 = t + 2 ^ 64" if "t < 0"
  proof -
    have "(t + 2 ^ 64) mod 2 ^ 64 = t + 2 ^ 64" using that assms(2) by (intro mod_pos_pos_trivial) auto
    then show ?thesis using mod_add_self2 [of t "2 ^ 64"] by argo
  qed
  moreover have "t mod 2 ^ 64 = t" if "0 \<le> t" using that assms(3) by (rule mod_pos_pos_trivial)
  moreover have "uint (word_of_int t :: 64 word) = t mod 2 ^ 64" by (simp add: uint_word_of_int)
  ultimately have u: "uint (word_of_int t :: 64 word) = (if 0 \<le> t then t else t + 2 ^ 64)" by simp
  have "uint sz < 2 ^ 62" using uint_less [OF assms(1)] by simp
  then show "(word_of_int t :: 64 word) < sz \<longleftrightarrow> 0 \<le> t \<and> t < int (unat sz)"
    using assms(2) u by (auto simp: word_less_def split: if_splits)
  assume "0 \<le> t" "t < int (unat sz)"
  then have "nat t < unat sz" by linarith
  then have "nat t < 2 ^ 63" by (rule order.strict_trans) (rule order.strict_trans [OF assms(1)], simp)
  moreover have "unat (word_of_int t :: 64 word) = nat t" using u \<open>0 \<le> t\<close> by (simp add: unat_eq_nat_uint del: nat_uint_eq)
  ultimately show "unat (word_of_int t :: 64 word) = nat t \<and> 0 \<le> sint (word_of_int t :: 64 word)"
    using sint_small [of "word_of_int t"] by simp
qed

lemma mem_seek_run:
  assumes "cookie_ok c" and "wh = SEEK_CUR \<longrightarrow> sint offset < 2 ^ 62"
  shows "\<exists>a d. mem_seek offset wh c = Some (a, d) \<and> cookie_ok d \<and> size d = size c \<and> ref_call (Seek offset wh) (abs_cookie c) = (Sought a, abs_cookie d)"
proof -
  define to where "to = (case wh of SEEK_SET \<Rightarrow> sint offset | SEEK_CUR \<Rightarrow> int (unat (position c)) + sint offset
    | SEEK_END \<Rightarrow> int (unat (size c)) + sint offset | SEEK_OTHER \<Rightarrow> -1)"
  have l: "length (buffer c) = unat (size c)" "unat (size c) < 2 ^ 62" using assms(1) by (auto simp: cookie_ok_def)
  note p = cookie_pos [OF assms(1)]
  have o: "- (2 ^ 63) \<le> sint offset" "sint offset < 2 ^ 63" using sint_ge [of offset] sint_lt [of offset] by simp_all
  have w: "word_of_int (sint offset) = offset" "word_of_int (int (unat (position c)) + sint offset) = position c + offset"
    "word_of_int (int (unat (size c)) + sint offset) = size c + offset" by (simp_all flip: wi_hom_add)
  have r: "- (2 ^ 63) \<le> to" "to < 2 ^ 64" using o p(2) l(2) by (auto simp: to_def simp del: of_nat_unat split: whence.split)
  have "mem_seek offset wh c = Some (if 0 \<le> to \<and> to < int (unat (size c)) then (True, c\<lparr>position := word_of_int to\<rparr>) else (False, c))"
  proof (cases wh)
    case SEEK_CUR
    then have "sint (position c) + sint offset \<in> {- (2 ^ 63) ..< 2 ^ 63}" using p o assms(2) by (simp del: of_nat_unat)
    then show ?thesis using target_in_buffer [OF l(2) r] SEEK_CUR w(2) by (auto simp: mem_seek_def to_def simp del: of_nat_unat)
  qed (use target_in_buffer [OF l(2) r] w in \<open>auto simp: mem_seek_def to_def simp del: of_nat_unat\<close>)
  moreover have "ref_call (Seek offset wh) (abs_cookie c) =
      (if 0 \<le> to \<and> to < int (unat (size c)) then (Sought True, buffer c, nat to) else (Sought False, abs_cookie c))"
    using l(1) by (cases wh) (auto simp: ref_call_def abs_cookie_def to_def Let_def simp del: of_nat_unat)
  moreover have "cookie_ok (c\<lparr>position := word_of_int to\<rparr>) \<and> unat (word_of_int to :: 64 word) = nat to" if "0 \<le> to" "to < int (unat (size c))"
    using target_in_buffer(2) [OF l(2) r that] that assms(1) by (simp add: cookie_ok_def nat_le_iff del: of_nat_unat)
  ultimately show ?thesis using assms(1) by (auto simp: abs_cookie_def simp del: of_nat_unat)
qed

lemma mem_call_run:
  assumes "cookie_ok c" "call_ok x"
  shows "\<exists>a d. mem_call x c = Some (a, d) \<and> cookie_ok d \<and> size d = size c \<and> ref_call x (abs_cookie c) = (a, abs_cookie d)"
proof (cases x)
  case (Read sz)
  then show ?thesis using get_loop_run [OF assms(1), of "nat (sint sz)"] by (auto simp: mem_call_def mem_read_def abs_cookie_def ref_call_def Let_def)
next
  case (Write buf sz)
  have t: "take (length (buffer c) - unat (position c)) (take (nat (sint sz)) buf) = take (min (nat (sint sz)) (length (buffer c) - unat (position c))) buf"
    by (simp add: min.commute)
  show ?thesis using put_loop_run [OF assms(1), of "take (nat (sint sz)) buf"] Write
    unfolding t by (auto simp: mem_call_def mem_write_def abs_cookie_def ref_call_def Let_def)
next
  case (Seek offset wh)
  then show ?thesis using mem_seek_run [OF assms(1), of wh offset] assms(2) by (auto simp: mem_call_def call_ok_def)
qed

text \<open>
  C28. Whatever calls a program makes on a stream that \<open>my_fmemopen\<close> has made, they give what the same reads, writes and
  seeks give on an array with an index, no access leaves the buffer, and the cookie keeps its type: the position is in the buffer
  or at its end, and the buffer has its size. A seek fails and moves nothing unless its target is a byte of the buffer, so that
  the end itself cannot be reached by a seek.
\<close>

theorem mem_stream_typed:
  assumes "my_fmemopen buf sz True = Some c" and "length buf = unat sz" and "unat sz < 2 ^ 62" and "\<forall>x\<in>set xs. call_ok x"
  shows "\<exists>as d. mem_calls xs c = Some (as, d) \<and> cookie_ok d \<and> size d = sz \<and> ref_calls xs (buf, 0) = (as, abs_cookie d)"
proof -
  have r: "\<exists>as d. mem_calls xs c = Some (as, d) \<and> cookie_ok d \<and> size d = size c \<and> ref_calls xs (abs_cookie c) = (as, abs_cookie d)" if "cookie_ok c" for c
    using that assms(4)
  proof (induction xs arbitrary: c)
    case (Cons x xs)
    obtain a e where e: "mem_call x c = Some (a, e)" "cookie_ok e" "size e = size c" "ref_call x (abs_cookie c) = (a, abs_cookie e)"
      using mem_call_run [of c x] Cons.prems by auto
    from Cons.IH [OF e(2)] Cons.prems(2) e show ?case by auto
  qed simp
  have "cookie_ok c" "abs_cookie c = (buf, 0)" "size c = sz" using assms(1-3) by (auto simp: my_fmemopen_def cookie_ok_def abs_cookie_def)
  with r [of c] show ?thesis by auto
qed

theorem mem_stream_typed_witness:
  "\<exists>as d. mem_calls [Write ''hello, world'' 12, Seek 0 SEEK_SET, Read 5, Seek 0 SEEK_END, Seek 0 SEEK_SET, Write ''12345'' 5]
       \<lparr>buffer = replicate 16 (CHR ''-''), size = 16, position = 0\<rparr> = Some (as, d) \<and>
     as = [Count 12, Sought True, Bytes ''hello'', Sought False, Sought True, Count 5] \<and> buffer d = ''12345, world----''"
proof -
  let ?xs = "[Write ''hello, world'' 12, Seek 0 SEEK_SET, Read 5, Seek 0 SEEK_END, Seek 0 SEEK_SET, Write ''12345'' 5]"
  have r: "ref_calls ?xs (replicate 16 (CHR ''-''), 0) =
      ([Count 12, Sought True, Bytes ''hello'', Sought False, Sought True, Count 5], ''12345, world----'', 5)" by code_simp
  have o: "\<forall>x\<in>set ?xs. call_ok x" by (simp add: call_ok_def)
  show ?thesis
    using mem_stream_typed [of "replicate 16 (CHR ''-'')" 16 "\<lparr>buffer = replicate 16 (CHR ''-''), size = 16, position = 0\<rparr>", OF _ _ _ o] r
    by (auto simp: my_fmemopen_def abs_cookie_def)
qed

end
