(* ===== verification/Ruptime.thy ===== *)
theory Ruptime
  imports Daemon ServerSock
begin

section \<open>The uptime servers (sockets/ruptimed-fd.c, Chapter16/exercise_5.c)\<close>

text \<open>
  Two servers that give each client the output of \<open>uptime\<close>, by making the connection the standard output of the command. The state is
  the parent's: its descriptors, the ones that are closed on exec, the number of clients so far, and \<open>done_child_wait\<close>. The
  first server (\<open>fd_\<close>) waits for each child; the second (\<open>conc_\<close>, from the exercise) does not, and delays its first client.
  A round of the loop gives what becomes of the child: \<open>Uptime\<close> with the descriptors of the command and whether
  it was delayed, \<open>ChildExits\<close>, or \<open>TakesOver\<close> when the child falls back into the loop of the server: then its parent waits for it, and
  the child accepts the clients that follow until it exits, which lets the parent go on. The loop of the first server has the processes that wait
  in this way as a list, the one that waits for the acting process first. A descriptor that the
  process had when it started is not closed on exec, or it would not be there. The number of clients is common to all processes.
\<close>

datatype rsock = Listener | Client nat

type_synonym table = "(nat \<times> rsock obj) list"

record server =
  stable :: table
  coe :: "nat list"
  clients :: nat
  done_child_wait :: bool

record round =
  accept_ok :: bool
  fork_ok :: bool
  dups_ok :: bool
  exec_ok :: bool

datatype child_end = Uptime table bool | ChildExits | TakesOver server

type_synonym 'a rp = "(server, unit, 'a) prog"

definition set_cloexec :: "bool \<Rightarrow> nat \<Rightarrow> server \<Rightarrow> server" where
  "set_cloexec ok fd s = (if ok \<and> map_of (stable s) fd \<noteq> None then s\<lparr>coe := fd # coe s\<rparr> else s)"

definition dup2 :: "nat \<Rightarrow> nat \<Rightarrow> server \<Rightarrow> server option" where
  "dup2 fd to s =
     (case map_of (stable s) fd of
        None \<Rightarrow> None
      | Some x \<Rightarrow> if fd = to then Some s else Some (s\<lparr>stable := (to, x) # close_fd to (stable s), coe := filter (\<lambda>i. i \<noteq> to) (coe s)\<rparr>))"

definition close_sock :: "nat \<Rightarrow> server \<Rightarrow> server" where
  "close_sock fd s = s\<lparr>stable := close_fd fd (stable s), coe := filter (\<lambda>i. i \<noteq> fd) (coe s)\<rparr>"

definition std_dups :: "bool \<Rightarrow> nat \<Rightarrow> server \<Rightarrow> server option" where
  "std_dups ok clfd s = (if ok then Option.bind (dup2 clfd 1 s) (dup2 clfd 2) else None)"

definition exec_table :: "server \<Rightarrow> table" where
  "exec_table s = filter (\<lambda>x. fst x \<notin> set (coe s)) (stable s)"

definition accept_conn :: "round \<Rightarrow> nat rp" where
  "accept_conn r =
     bnd (check (accept_ok r) ()) (\<lambda>_.
     bnd (gets (\<lambda>s. lowest (List.map fst (stable s)))) (\<lambda>fd.
     bnd (modify (\<lambda>s. s\<lparr>stable := (fd, Obj (Client (clients s))) # stable s, clients := Suc (clients s)\<rparr>)) (\<lambda>_. ret fd)))"

subsection \<open>ruptimed-fd.c\<close>

definition fd_child :: "round \<Rightarrow> nat \<Rightarrow> server \<Rightarrow> child_end" where
  "fd_child r clfd s =
     (case std_dups (dups_ok r) clfd s of
        None \<Rightarrow> ChildExits
      | Some s \<Rightarrow> let s = close_sock clfd s in
          if exec_ok r then Uptime (exec_table s) False else TakesOver s)"

definition fd_round :: "round \<Rightarrow> child_end rp" where
  "fd_round r =
     bnd (accept_conn r) (\<lambda>clfd.
     bnd (check (fork_ok r) ()) (\<lambda>_.
     bnd (gets (fd_child r clfd)) (\<lambda>c.
     bnd (modify (close_sock clfd)) (\<lambda>_. ret c))))"

text \<open>
  After a round the parent is in \<open>waitpid\<close> until the child has ended: at once for a command or a child that exits, else the child is
  the acting process. A process whose round fails exits: the one that waits for it goes on, and when there is none the service has ended.
\<close>

fun fd_loop :: "round list \<Rightarrow> server list \<Rightarrow> server \<Rightarrow> child_end list \<times> (server \<times> server list) option" where
  "fd_loop [] waiting s = ([], Some (s, waiting))"
| "fd_loop (r # rs) waiting s =
     (case fd_round r s of
        (Inl _, s) \<Rightarrow> (case waiting of [] \<Rightarrow> ([], None) | w # ws \<Rightarrow> fd_loop rs ws (w\<lparr>clients := clients s\<rparr>))
      | (Inr (TakesOver c), s) \<Rightarrow> (case fd_loop rs (s # waiting) c of (cs, e) \<Rightarrow> (TakesOver c # cs, e))
      | (Inr c, s) \<Rightarrow> (case fd_loop rs waiting s of (cs, e) \<Rightarrow> (c # cs, e)))"

definition fd_serve :: "bool \<Rightarrow> nat \<Rightarrow> round list \<Rightarrow> server \<Rightarrow> child_end list \<times> (server \<times> server list) option" where
  "fd_serve coe_ok sockfd rs s = fd_loop rs [] (set_cloexec coe_ok sockfd s)"

subsection \<open>Chapter16/exercise_5.c\<close>

definition conc_child :: "round \<Rightarrow> nat \<Rightarrow> server \<Rightarrow> child_end" where
  "conc_child r clfd s =
     (case std_dups (dups_ok r) clfd s of
        None \<Rightarrow> ChildExits
      | Some s \<Rightarrow> let s = close_sock clfd s; slept = (\<not> done_child_wait s) in
          if exec_ok r then Uptime (exec_table s) slept else ChildExits)"

definition conc_round :: "round \<Rightarrow> child_end rp" where
  "conc_round r =
     bnd (accept_conn r) (\<lambda>clfd.
     bnd (check (fork_ok r) ()) (\<lambda>_.
     bnd (gets (conc_child r clfd)) (\<lambda>c.
     bnd (modify (\<lambda>s. close_sock clfd (s\<lparr>done_child_wait := True\<rparr>))) (\<lambda>_. ret c))))"

fun conc_loop :: "round list \<Rightarrow> child_end list rp" where
  "conc_loop [] = ret []"
| "conc_loop (r # rs) = bnd (conc_round r) (\<lambda>c. bnd (conc_loop rs) (\<lambda>cs. ret (c # cs)))"

definition conc_serve :: "bool \<Rightarrow> nat \<Rightarrow> round list \<Rightarrow> child_end list rp" where
  "conc_serve coe_ok sockfd rs = bnd (modify (set_cloexec coe_ok sockfd)) (\<lambda>_. conc_loop rs)"

subsection \<open>main\<close>

text \<open>The first address for which a socket can be made is served; the result is \<open>None\<close> where the program exits instead.\<close>

record renv =
  rargc :: nat
  rmalloc_ok :: bool
  rhost_ok :: bool
  rdaemon :: daemon_env
  raddrs :: "sock_plan list option"
  rcoe_ok :: bool

fun first_server :: "sock_plan list \<Rightarrow> nat list \<Rightarrow> nat option" where
  "first_server [] open = None"
| "first_server (p # ps) open =
     (case initserver_plain True p open of (Some fd, _) \<Rightarrow> Some fd | (None, open) \<Rightarrow> first_server ps open)"

definition start_server :: "renv \<Rightarrow> rsock dproc \<Rightarrow> (nat \<times> server) option" where
  "start_server env p =
     (case daemonize (rdaemon env) p of
        (Inl _, _) \<Rightarrow> None
      | (Inr _, q) \<Rightarrow>
          Option.bind (raddrs env) (\<lambda>ps.
          map_option (\<lambda>fd. (fd, \<lparr>stable = (fd, Obj Listener) # dtable q, coe = [], clients = 0, done_child_wait = False\<rparr>))
            (first_server ps (List.map fst (dtable q)))))"

definition fd_main :: "renv \<Rightarrow> round list \<Rightarrow> rsock dproc \<Rightarrow> (child_end list \<times> (server \<times> server list) option) option" where
  "fd_main env rs p =
     (if rargc env \<noteq> 1 \<or> \<not> rmalloc_ok env \<or> \<not> rhost_ok env then None
      else map_option (\<lambda>(fd, s). fd_serve (rcoe_ok env) fd rs s) (start_server env p))"

text \<open>In the exercise \<open>err_sys\<close> only prints.\<close>

definition conc_main :: "renv \<Rightarrow> round list \<Rightarrow> rsock dproc \<Rightarrow> ((unit + child_end list) \<times> server) option" where
  "conc_main env rs p =
     (if rargc env \<noteq> 1 then None
      else map_option (\<lambda>(fd, s). conc_serve (rcoe_ok env) fd rs s) (start_server env p))"

subsection \<open>A round leaves the parent as it was\<close>

definition serving :: "nat \<Rightarrow> table \<Rightarrow> nat \<Rightarrow> bool \<Rightarrow> server" where
  "serving fd t n w = \<lparr>stable = (fd, Obj Listener) # (2, DevNull) # (1, DevNull) # (0, DevNull) # t, coe = [fd], clients = n, done_child_wait = w\<rparr>"

definition std_ok :: "nat \<Rightarrow> table \<Rightarrow> bool" where
  "std_ok fd t \<longleftrightarrow> fd \<notin> {0, 1, 2} \<and> {0, 1, 2} \<inter> fst ` set t = {} \<and> fd \<notin> fst ` set t"

lemma close_none: "i \<notin> fst ` set t \<Longrightarrow> close_fd i t = t"
  by (force simp: close_fd_def filter_id_conv)

lemma close_Cons: "close_fd i (x # t) = (if fst x = i then close_fd i t else x # close_fd i t)"
  by (simp add: close_fd_def)

definition child_server :: "nat \<Rightarrow> table \<Rightarrow> nat \<Rightarrow> bool \<Rightarrow> server" where
  "child_server fd t n w =
     \<lparr>stable = (2, Obj (Client n)) # (1, Obj (Client n)) # (fd, Obj Listener) # (0, DevNull) # t, coe = [fd], clients = Suc n, done_child_wait = w\<rparr>"

text \<open>The server as it starts, or a child that has taken its place, with the connection of the client it failed to serve.\<close>

definition acts :: "nat \<Rightarrow> table \<Rightarrow> server \<Rightarrow> bool" where
  "acts fd t s \<longleftrightarrow> coe s = [fd] \<and> (stable s = stable (serving fd t 0 False) \<or> (\<exists>m. stable s = stable (child_server fd t m False)))"

lemma acts_open: "acts fd t s \<Longrightarrow> fst ` set (stable s) = {fd, 0, 1, 2} \<union> fst ` set t"
  by (auto simp: acts_def serving_def child_server_def)

lemma accepted:
  assumes "accept_ok r" "acts fd t s"
  obtains k where "k \<notin> {fd, 0, 1, 2} \<union> fst ` set t"
    "runs (accept_conn r) s k (s\<lparr>stable := (k, Obj (Client (clients s))) # stable s, clients := Suc (clients s)\<rparr>)"
proof -
  let ?k = "lowest (List.map fst (stable s))"
  have "?k \<notin> {fd, 0, 1, 2} \<union> fst ` set t" using lowest_free [of "List.map fst (stable s)"] acts_open [OF assms(2)] by simp
  moreover have "runs (accept_conn r) s ?k (s\<lparr>stable := (?k, Obj (Client (clients s))) # stable s, clients := Suc (clients s)\<rparr>)"
    using assms(1) by (simp add: accept_conn_def)
  ultimately show thesis by (rule that)
qed

lemma serving_acts: "acts fd t (serving fd t n w)" "acts fd t (child_server fd t n w)" "acts fd t s \<Longrightarrow> acts fd t (s\<lparr>clients := n\<rparr>)"
  by (auto simp: acts_def serving_def child_server_def)

lemma child_dups:
  assumes "std_ok fd t" "k \<notin> {fd, 0, 1, 2} \<union> fst ` set t" "acts fd t s"
    and "u = s\<lparr>stable := (k, Obj (Client (clients s))) # stable s, clients := Suc (clients s)\<rparr>"
  shows "map_option (close_sock k) (std_dups True k u) = Some (child_server fd t (clients s) (done_child_wait s))"
    and "close_sock k u = s\<lparr>clients := Suc (clients s)\<rparr>"
proof -
  have n: "k \<noteq> 1" "k \<noteq> 2" "1 \<notin> fst ` set t" "2 \<notin> fst ` set t" "k \<notin> fst ` set t" "fd \<noteq> 1" "fd \<noteq> 2" "fd \<noteq> 0" "k \<noteq> fd" "k \<noteq> 0"
    using assms(1,2) by (auto simp: std_ok_def)
  then have c: "close_fd 1 t = t" "close_fd 2 t = t" "close_fd k t = t" using close_none by blast+
  have a: "coe s = [fd]" "stable s = stable (serving fd t 0 False) \<or> (\<exists>m. stable s = stable (child_server fd t m False))"
    using assms(3) by (simp_all add: acts_def)
  from a(2) show "map_option (close_sock k) (std_dups True k u) = Some (child_server fd t (clients s) (done_child_wait s))"
    using n c assms(4) a(1) by (elim disjE exE) (simp_all add: std_dups_def dup2_def close_sock_def close_Cons serving_def child_server_def)
  from a(2) have "close_fd k (stable s) = stable s" using n c by (elim disjE exE) (simp_all add: close_Cons serving_def child_server_def)
  then show "close_sock k u = s\<lparr>clients := Suc (clients s)\<rparr>"
    using n(9) assms(4) a(1) by (simp add: close_sock_def close_Cons)
qed

definition std_client :: "nat \<Rightarrow> table \<Rightarrow> table" where
  "std_client n t = (2, Obj (Client n)) # (1, Obj (Client n)) # (0, DevNull) # t"

lemma exec_child: "std_ok fd t \<Longrightarrow> exec_table (child_server fd t n w) = std_client n t"
  by (force simp: exec_table_def child_server_def std_ok_def std_client_def filter_id_conv)

lemma fd_round_run:
  assumes "std_ok fd t" "acts fd t s" "accept_ok r" "fork_ok r" "dups_ok r"
  shows "fd_round r s = (Inr (if exec_ok r then Uptime (std_client (clients s) t) False else TakesOver (child_server fd t (clients s) (done_child_wait s))),
    s\<lparr>clients := Suc (clients s)\<rparr>)"
proof -
  from accepted [OF assms(3,2)] obtain k where k: "k \<notin> {fd, 0, 1, 2} \<union> fst ` set t"
    "runs (accept_conn r) s k (s\<lparr>stable := (k, Obj (Client (clients s))) # stable s, clients := Suc (clients s)\<rparr>)" .
  note d = child_dups [OF assms(1) k(1) assms(2) refl]
  show ?thesis unfolding fd_round_def runs_def [symmetric] runs_step [OF k(2)]
    using d exec_child [OF assms(1)] assms(4,5) by (auto simp: fd_child_def Let_def)
qed

lemma conc_round_run:
  assumes "std_ok fd t" "accept_ok r" "fork_ok r" "dups_ok r"
  shows "runs (conc_round r) (serving fd t n w) (if exec_ok r then Uptime (std_client n t) (\<not> w) else ChildExits) (serving fd t (Suc n) True)"
proof -
  let ?s = "serving fd t n w"
  have cs: "clients ?s = n" "done_child_wait ?s = w" by (simp_all add: serving_def)
  from accepted [OF assms(2) serving_acts(1)] obtain k where k: "k \<notin> {fd, 0, 1, 2} \<union> fst ` set t"
    "runs (accept_conn r) ?s k (?s\<lparr>stable := (k, Obj (Client (clients ?s))) # stable ?s, clients := Suc (clients ?s)\<rparr>)" by blast
  note d = child_dups [OF assms(1) k(1) serving_acts(1) [of fd t n w] refl]
  have "done_child_wait (child_server fd t n w) = w" by (simp add: child_server_def)
  then show ?thesis unfolding conc_round_def runs_step [OF k(2)]
    using d exec_child [OF assms(1), of n w] assms(3,4) unfolding cs by (auto simp: conc_child_def close_sock_def serving_def Let_def)
qed

subsection \<open>The loops\<close>

definition all_calls_ok :: "round list \<Rightarrow> bool" where
  "all_calls_ok rs \<longleftrightarrow> (\<forall>r\<in>set rs. accept_ok r \<and> fork_ok r \<and> dups_ok r)"

text \<open>The numbers of the clients whose command could not be executed.\<close>

definition failed :: "nat \<Rightarrow> round list \<Rightarrow> nat list" where
  "failed n rs = List.map fst (filter (\<lambda>(i, r). \<not> exec_ok r) (enumerate n rs))"

lemma failed_simps: "failed n [] = []" "failed n (r # rs) = (if exec_ok r then failed (Suc n) rs else n # failed (Suc n) rs)"
  by (simp_all add: failed_def)

text \<open>The processes that hold the listening socket: whichever took over last acts, the others wait.\<close>

lemma fd_loop_run:
  assumes "std_ok fd t" "acts fd t s" "all_calls_ok rs"
  shows "\<exists>s' ws'. fd_loop rs ws s = (List.map (\<lambda>(i, r). if exec_ok r then Uptime (std_client i t) False else TakesOver (child_server fd t i (done_child_wait s))) (enumerate (clients s) rs),
      Some (s', ws')) \<and> clients s' = clients s + length rs \<and> done_child_wait s' = done_child_wait s \<and> acts fd t s' \<and>
    stable s' = (if failed (clients s) rs = [] then stable s else stable (child_server fd t (last (failed (clients s) rs)) False)) \<and>
    List.map stable (s' # ws') = rev (List.map (\<lambda>i. stable (child_server fd t i False)) (failed (clients s) rs)) @ stable s # List.map stable ws"
  using assms(2,3)
proof (induction rs arbitrary: s ws)
  case (Cons r rs)
  then have a: "accept_ok r" "fork_ok r" "dups_ok r" "all_calls_ok rs" by (simp_all add: all_calls_ok_def)
  note f = fd_round_run [OF assms(1) Cons.prems(1) a(1-3)]
  let ?u = "s\<lparr>clients := Suc (clients s)\<rparr>" and ?c = "child_server fd t (clients s) (done_child_wait s)"
  have c: "clients ?c = Suc (clients s)" "done_child_wait ?c = done_child_wait s" "stable ?c = stable (child_server fd t (clients s) False)"
    by (simp_all add: child_server_def)
  show ?case
  proof (cases "exec_ok r")
    case True
    then show ?thesis using Cons.IH [OF serving_acts(3) [OF Cons.prems(1), of "Suc (clients s)"] a(4), where ws = ws] f by (auto simp: failed_simps)
  next
    case False
    then show ?thesis using Cons.IH [OF serving_acts(2) [of fd t "clients s" "done_child_wait s"] a(4), where ws = "?u # ws"] f c
      by (auto simp: failed_simps)
  qed
qed (simp add: failed_simps)

lemma conc_loop_run:
  "std_ok fd t \<Longrightarrow> all_calls_ok rs \<Longrightarrow> runs (conc_loop rs) (serving fd t n w)
    (List.map (\<lambda>(i, r). if exec_ok r then Uptime (std_client i t) (\<not> w \<and> i = n) else ChildExits) (enumerate n rs)) (serving fd t (n + length rs) (w \<or> rs \<noteq> []))"
proof (induction rs arbitrary: n w)
  case (Cons r rs)
  then have a: "accept_ok r" "fork_ok r" "dups_ok r" "all_calls_ok rs" by (simp_all add: all_calls_ok_def)
  have e: "List.map (\<lambda>(i, r). if exec_ok r then Uptime (std_client i t) (\<not> w \<and> i = n) else ChildExits) (enumerate (Suc n) rs) =
      List.map (\<lambda>(i, r). if exec_ok r then Uptime (std_client i t) (\<not> True \<and> i = Suc n) else ChildExits) (enumerate (Suc n) rs)"
    by (auto simp: in_set_enumerate_eq)
  have "runs (bnd (conc_loop rs) (\<lambda>cs. ret (c # cs))) (serving fd t (Suc n) True)
      (c # List.map (\<lambda>(i, r). if exec_ok r then Uptime (std_client i t) (\<not> w \<and> i = n) else ChildExits) (enumerate (Suc n) rs)) (serving fd t (n + Suc (length rs)) True)" for c
    unfolding runs_step [OF Cons.IH [OF Cons.prems(1) a(4), of "Suc n" True]] e by simp
  then show ?case unfolding conc_loop.simps runs_step [OF conc_round_run [OF Cons.prems(1) a(1-3), of n w]] by simp
qed simp

subsection \<open>The property\<close>

definition can_serve :: "sock_plan \<Rightarrow> bool" where
  "can_serve p \<longleftrightarrow> socket_ok p \<and> bind_ok p \<and> listen_ok p"

lemma first_server_lowest: "first_server ps open = (if \<exists>p\<in>set ps. can_serve p then Some (lowest open) else None)"
  by (induction ps) (auto simp: initserver_plain_cases can_serve_def)

lemma start_server_ok:
  assumes "env_ok (rdaemon env)" and "{0, 1, 2} \<inter> fst ` set (left_open (rdaemon env) (dtable p)) = {}"
    and "raddrs env = Some ps" and "\<exists>p\<in>set ps. can_serve p"
  shows "\<exists>fd. std_ok fd (left_open (rdaemon env) (dtable p)) \<and>
    start_server env p = Some (fd, (serving fd (left_open (rdaemon env) (dtable p)) 0 False)\<lparr>coe := []\<rparr>)"
proof -
  let ?t = "left_open (rdaemon env) (dtable p)"
  have d: "daemonize (rdaemon env) p = (Inr (), detached (rdaemon env) p)" using assms(1,2) daemonize_run [of "rdaemon env" p] by (simp add: runs_def)
  have "std_ok (lowest (2 # 1 # 0 # List.map fst ?t)) ?t"
    using lowest_free [of "2 # 1 # 0 # List.map fst ?t"] assms(2) by (simp add: std_ok_def)
  then show ?thesis using assms(3,4) d first_server_lowest [of ps]
    by (intro exI [of _ "lowest (2 # 1 # 0 # List.map fst ?t)"]) (simp add: start_server_def detached_def serving_def)
qed

lemma set_cloexec_serving: "set_cloexec True fd ((serving fd t n w)\<lparr>coe := []\<rparr>) = serving fd t n w"
  by (simp add: set_cloexec_def serving_def)

text \<open>
  C16. From the start of the process to any number of clients, as long as \<open>accept\<close>, \<open>fork\<close> and \<open>dup2\<close> do not fail: every client gets a command
  whose standard output and error are its own connection, whose standard input is the null device and which has neither the listening socket nor the
  connection of another client open; the server's own table never grows; and in the exercise exactly the first client is delayed. But where the command
  cannot be executed the child of \<open>ruptimed-fd\<close> goes back to the loop and accepts the next clients, while its parent is blocked until that child
  exits: there is one more process for each such client, the last one acts, and each holds the connection of its client open as its standard output, so that the client sees
  no end. When the acting process fails to accept, its parent goes on in its place. The child of the exercise exits.
\<close>

theorem ruptimed_serves:
  assumes "rargc env = 1" "rmalloc_ok env" "rhost_ok env" "env_ok (rdaemon env)" "{0, 1, 2} \<inter> fst ` set (left_open (rdaemon env) (dtable p)) = {}"
    and "raddrs env = Some ps" "\<exists>p\<in>set ps. can_serve p" "rcoe_ok env" "all_calls_ok rs"
  shows "\<exists>fd. let t = left_open (rdaemon env) (dtable p) in fd \<notin> {0, 1, 2} \<and> fd \<notin> fst ` set t \<and>
    (\<exists>s ws. fd_main env rs p = Some (List.map (\<lambda>(i, r). if exec_ok r then Uptime (std_client i t) False else TakesOver (child_server fd t i False)) (enumerate 0 rs),
        Some (s, ws)) \<and> clients s = length rs \<and>
      List.map stable (s # ws) = rev (List.map (\<lambda>i. (2, Obj (Client i)) # (1, Obj (Client i)) # (fd, Obj Listener) # (0, DevNull) # t) (failed 0 rs)) @
        [(fd, Obj Listener) # (2, DevNull) # (1, DevNull) # (0, DevNull) # t] \<and>
      (\<forall>r. \<not> accept_ok r \<longrightarrow> fd_loop [r] ws s = ([], case ws of [] \<Rightarrow> None | w # ws' \<Rightarrow> Some (w\<lparr>clients := length rs\<rparr>, ws')))) \<and>
    conc_main env rs p = Some (Inr (List.map (\<lambda>(i, r). if exec_ok r then Uptime (std_client i t) (i = 0) else ChildExits) (enumerate 0 rs)),
      serving fd t (length rs) (rs \<noteq> []))"
proof -
  let ?t = "left_open (rdaemon env) (dtable p)"
  from start_server_ok [OF assms(4-7)] obtain fd where fd: "std_ok fd ?t" "start_server env p = Some (fd, (serving fd ?t 0 False)\<lparr>coe := []\<rparr>)" by blast
  note l = conc_loop_run [OF fd(1) assms(9), of 0 False, unfolded runs_def not_False_eq_True simp_thms]
  have sv: "clients (serving fd ?t 0 False) = 0" "done_child_wait (serving fd ?t 0 False) = False" by (simp_all add: serving_def)
  have "fd_main env rs p = Some (fd_loop rs [] (serving fd ?t 0 False))" "conc_main env rs p = Some (conc_loop rs (serving fd ?t 0 False))"
    using assms(1-3,8) fd(2) by (simp_all add: fd_main_def conc_main_def fd_serve_def conc_serve_def run_simps set_cloexec_serving)
  moreover obtain s ws where s: "fd_loop rs [] (serving fd ?t 0 False) =
      (List.map (\<lambda>(i, r). if exec_ok r then Uptime (std_client i ?t) False else TakesOver (child_server fd ?t i False)) (enumerate 0 rs), Some (s, ws))"
      "clients s = length rs" "List.map stable (s # ws) = rev (List.map (\<lambda>i. stable (child_server fd ?t i False)) (failed 0 rs)) @ stable (serving fd ?t 0 False) # List.map stable []"
    using fd_loop_run [OF fd(1) serving_acts(1) [of fd ?t 0 False] assms(9), where ws = "[]"] unfolding sv by auto
  moreover have "\<forall>r. \<not> accept_ok r \<longrightarrow> fd_loop [r] ws s = ([], case ws of [] \<Rightarrow> None | w # ws' \<Rightarrow> Some (w\<lparr>clients := length rs\<rparr>, ws'))"
    using s(2) by (simp add: fd_round_def accept_conn_def bnd_def run_simps split: list.split)
  ultimately show ?thesis using l fd(1)
    by (intro exI [of _ fd]) (simp add: Let_def std_ok_def, simp add: child_server_def serving_def)
qed

definition sample_renv :: renv where
  "sample_renv = \<lparr>rargc = 1, rmalloc_ok = True, rhost_ok = True,
     rdaemon = \<lparr>limit_ok = True, rlim_max = None, fork1 = Child, hup_ok = True, fork2 = Child, chdir_ok = True, null_ok = True, dup1_ok = True, dup2_ok = True\<rparr>,
     raddrs = Some [\<lparr>socket_ok = True, setsockopt_ok = True, bind_ok = False, listen_ok = True\<rparr>, \<lparr>socket_ok = True, setsockopt_ok = True, bind_ok = True, listen_ok = True\<rparr>],
     rcoe_ok = True\<rparr>"

definition sample_proc :: "rsock dproc" where
  "sample_proc = \<lparr>dtable = [(2000, Obj (Client 9)), (5, Obj (Client 8)), (0, DevNull)], dmask = 18, cwd = ''/home'', hup_ignored = False, leader = False, ctty = True\<rparr>"

theorem ruptimed_serves_witness:
  "\<exists>fd t s w. fst ` set t = {2000} \<and>
    fd_main sample_renv [\<lparr>accept_ok = True, fork_ok = True, dups_ok = True, exec_ok = True\<rparr>, \<lparr>accept_ok = True, fork_ok = True, dups_ok = True, exec_ok = False\<rparr>] sample_proc =
      Some ([Uptime (std_client 0 t) False, TakesOver (child_server fd t 1 False)], Some (s, [w])) \<and>
    stable s = (2, Obj (Client 1)) # (1, Obj (Client 1)) # (fd, Obj Listener) # (0, DevNull) # t"
proof -
  let ?r = "\<lparr>accept_ok = True, fork_ok = True, dups_ok = True, exec_ok = True\<rparr>"
  let ?t = "left_open (rdaemon sample_renv) (dtable sample_proc)"
  have t: "fst ` set ?t = {2000}" by (simp add: left_open_def sample_proc_def sample_renv_def close_limit_def)
  have a: "rargc sample_renv = 1" "rmalloc_ok sample_renv" "rhost_ok sample_renv" "env_ok (rdaemon sample_renv)" "rcoe_ok sample_renv"
    by (simp_all add: sample_renv_def env_ok_def)
  have c: "\<exists>p\<in>set (the (raddrs sample_renv)). can_serve p" "raddrs sample_renv = Some (the (raddrs sample_renv))" by (simp_all add: sample_renv_def can_serve_def)
  have n: "{0, 1, 2} \<inter> fst ` set ?t = {}" unfolding t by simp
  have r: "all_calls_ok [?r, ?r\<lparr>exec_ok := False\<rparr>]" by (simp add: all_calls_ok_def)
  let ?rs = "[?r, ?r\<lparr>exec_ok := False\<rparr>]"
  from ruptimed_serves [OF a(1-4) n c(2,1) a(5) r] obtain fd s ws where
    f: "fd_main sample_renv ?rs sample_proc = Some (List.map (\<lambda>(i, r). if exec_ok r then Uptime (std_client i ?t) False else TakesOver (child_server fd ?t i False)) (enumerate 0 ?rs),
        Some (s, ws))" and
    w: "List.map stable (s # ws) = rev (List.map (\<lambda>i. (2, Obj (Client i)) # (1, Obj (Client i)) # (fd, Obj Listener) # (0, DevNull) # ?t) (failed 0 ?rs)) @
        [(fd, Obj Listener) # (2, DevNull) # (1, DevNull) # (0, DevNull) # ?t]"
    unfolding Let_def by blast
  obtain v where v: "ws = [v]" "stable s = (2, Obj (Client 1)) # (1, Obj (Client 1)) # (fd, Obj Listener) # (0, DevNull) # ?t"
    using w by (auto simp: failed_simps)
  show ?thesis
    using f t v by (intro exI [of _ fd] exI [of _ ?t] exI [of _ s] exI [of _ v]) simp
qed

end
