(* ===== verification/AsyncInput.thy ===== *)
theory AsyncInput
  imports CString
begin

section \<open>Input by signals (Chapter16/exercise_6.c)\<close>

text \<open>
  The server prints what its client sends: \<open>enable_async_io\<close> makes the connection nonblocking and asks for \<open>SIGIO\<close>, the handler
  reads until nothing is left, and \<open>main\<close> sleeps until \<open>stop\<close> is set. The state is what the kernel keeps of the connection (its
  flags, its owner, the bytes that wait, whether the client has closed it), the disposition of the signal and whether one is pending,
  and the variables of the program. \<open>calls\<close> tells which of the coming system calls fail.
\<close>

definition BUFLEN :: nat where "BUFLEN = 128"

datatype disposition = Default | Handler

record conn =
  nonblock :: bool
  async :: bool
  owned :: bool
  disp :: disposition
  waiting :: string
  eof :: bool
  signalled :: bool
  stop :: bool
  printed :: string
  calls :: "bool list"

type_synonym 'a cn = "(conn, unit, 'a) prog"

definition try_call :: "(conn \<Rightarrow> conn) \<Rightarrow> bool cn" where
  "try_call f = (\<lambda>s. case calls s of
      [] \<Rightarrow> (Inr True, f s)
    | True # bs \<Rightarrow> (Inr True, f (s\<lparr>calls := bs\<rparr>))
    | False # bs \<Rightarrow> (Inr False, s\<lparr>calls := bs\<rparr>))"

text \<open>The result of \<open>signal\<close> is a pointer, which the source compares with 0: its failure is not noticed.\<close>

definition enable_async_io :: "bool cn" where
  "enable_async_io =
     bnd (try_call id) (\<lambda>b. if \<not> b then ret False
     else bnd (try_call (\<lambda>s. s\<lparr>nonblock := True\<rparr>)) (\<lambda>b. if \<not> b then ret False
     else bnd (try_call (\<lambda>s. s\<lparr>disp := Handler\<rparr>)) (\<lambda>_.
     bnd (try_call (\<lambda>s. s\<lparr>owned := True\<rparr>)) (\<lambda>b. if \<not> b then ret False
     else try_call (\<lambda>s. s\<lparr>async := True\<rparr>)))))"

definition disable_async_io :: "bool cn" where
  "disable_async_io =
     bnd (try_call (\<lambda>s. s\<lparr>async := False\<rparr>)) (\<lambda>b. if \<not> b then ret False
     else bnd (try_call (\<lambda>s. s\<lparr>owned := False\<rparr>)) (\<lambda>b. if \<not> b then ret False
     else bnd (try_call (\<lambda>s. s\<lparr>disp := Default\<rparr>)) (\<lambda>_.
     bnd (try_call id) (\<lambda>b. if \<not> b then ret False
     else try_call (\<lambda>s. s\<lparr>nonblock := False\<rparr>)))))"

text \<open>
  The loop of the handler over the pieces that \<open>read\<close> returns. The buffer is cleared once, before the loop; what is printed is the string in it.
\<close>

fun handler_loop :: "string list \<Rightarrow> string \<Rightarrow> string \<times> bool \<Rightarrow> string \<times> bool" where
  "handler_loop [] buf r = r"
| "handler_loop (c # cs) buf (out, st) =
     (let buf = c @ drop (length c) buf in handler_loop cs buf (out @ cstr buf, st \<or> take 4 buf = ''stop''))"

function pieces :: "string \<Rightarrow> string list" where
  "pieces bs = (if bs = [] then [] else take (BUFLEN - 1) bs # pieces (drop (BUFLEN - 1) bs))"
  by auto
termination by (relation "measure length") (auto simp: BUFLEN_def)

declare pieces.simps [simp del]

text \<open>One run of the handler: it reads what waits; then \<open>read\<close> returns 0 at the end of the input and fails with \<open>EAGAIN\<close> before it.\<close>

definition sigio_handler :: "conn \<Rightarrow> conn" where
  "sigio_handler s =
     (case handler_loop (pieces (waiting s)) (replicate BUFLEN NUL) (printed s, stop s) of
        (out, st) \<Rightarrow> s\<lparr>waiting := [], signalled := False, printed := out, stop := st \<or> eof s\<rparr>)"

text \<open>
  What happens on the connection and to the process, in any order: bytes arrive, the client closes, \<open>main\<close> enables asynchronous input
  (with all calls succeeding), a signal is delivered. The kernel sends the signal only for what arrives while it is enabled.
\<close>

datatype event = Arrive string | Close | Enable | Deliver

definition notify :: "conn \<Rightarrow> conn" where
  "notify s = (if async s \<and> owned s then s\<lparr>signalled := True\<rparr> else s)"

definition conn_step :: "event \<Rightarrow> conn \<Rightarrow> conn" where
  "conn_step e s =
     (case e of
        Arrive bs \<Rightarrow> if eof s \<or> bs = [] then s else notify (s\<lparr>waiting := waiting s @ bs\<rparr>)
      | Close \<Rightarrow> if eof s then s else notify (s\<lparr>eof := True\<rparr>)
      | Enable \<Rightarrow> if async s then s else snd (enable_async_io s)
      | Deliver \<Rightarrow> if signalled s \<and> disp s = Handler then sigio_handler s else s)"

definition conn_run :: "event list \<Rightarrow> conn \<Rightarrow> conn" where
  "conn_run es s = fold conn_step es s"

definition accepted :: "conn" where
  "accepted = \<lparr>nonblock = False, async = False, owned = False, disp = Default, waiting = [], eof = False, signalled = False, stop = False, printed = [], calls = []\<rparr>"

text \<open>Both functions report success only when the flags and the owner are as they should be; the disposition of the signal may be anything.\<close>

lemma try_call_cases:
  obtains (yes) bs where "try_call f s = (Inr True, f (s\<lparr>calls := bs\<rparr>))" | (no) bs where "try_call f s = (Inr False, s\<lparr>calls := bs\<rparr>)"
proof (cases "calls s")
  case Nil
  then have "s\<lparr>calls := []\<rparr> = s" by (cases s) simp
  moreover have "try_call f s = (Inr True, f s)" using Nil by (simp add: try_call_def)
  ultimately show ?thesis using yes [of "[]"] by metis
next
  case (Cons b bs)
  then show ?thesis using yes [of bs] no [of bs] by (cases b) (simp_all add: try_call_def)
qed

lemma try_call_true: "try_call f s = (Inr True, t) \<Longrightarrow> \<exists>bs. t = f (s\<lparr>calls := bs\<rparr>)"
  by (rule try_call_cases [of f s]) auto

lemma try_call_result: "fst (try_call f s) = Inr True \<or> fst (try_call f s) = Inr False"
  by (rule try_call_cases [of f s]) auto

lemma guarded_call_true:
  assumes "bnd (try_call f) (\<lambda>b. if \<not> b then ret False else k) s = (Inr True, t)"
  obtains bs where "k (f (s\<lparr>calls := bs\<rparr>)) = (Inr True, t)"
  using assms by (cases rule: try_call_cases [of f s]) (auto simp: bnd_def run_simps)

lemma unchecked_call_true:
  assumes "bnd (try_call f) (\<lambda>_. k) s = (Inr True, t)"
  obtains bs where "k (f (s\<lparr>calls := bs\<rparr>)) = (Inr True, t)" | bs where "k (s\<lparr>calls := bs\<rparr>) = (Inr True, t)"
  using assms by (cases rule: try_call_cases [of f s]) (auto simp: bnd_def)

lemma enable_sets:
  "enable_async_io s = (Inr True, t) \<Longrightarrow> nonblock t \<and> owned t \<and> async t"
  unfolding enable_async_io_def
  by (erule guarded_call_true, erule guarded_call_true, erule unchecked_call_true; erule guarded_call_true; drule try_call_true; auto)

lemma disable_resets:
  "disable_async_io s = (Inr True, t) \<Longrightarrow> \<not> nonblock t \<and> \<not> owned t \<and> \<not> async t"
  unfolding disable_async_io_def
  by (erule guarded_call_true, erule guarded_call_true, erule unchecked_call_true; erule guarded_call_true; drule try_call_true; auto)

subsection \<open>What is printed\<close>

text \<open>The bytes of the piece before the last one that the last one has not overwritten.\<close>

definition stale :: "string \<Rightarrow> string" where
  "stale bs = (let k = length bs mod (BUFLEN - 1) in
     if length bs < BUFLEN \<or> k = 0 then [] else take (BUFLEN - 1 - k) (drop (length bs - (BUFLEN - 1)) bs))"

lemma pieces_Cons: "bs \<noteq> [] \<Longrightarrow> pieces bs = take 127 bs # pieces (drop 127 bs)" "pieces [] = []"
  by (simp_all add: pieces.simps [of bs] pieces.simps [of "[]"] BUFLEN_def)

lemma cstr_line: "nonul a \<Longrightarrow> cstr (a @ NUL # b) = a"
  by simp

lemma handler_loop_full:
  "nonul bs \<Longrightarrow> nonul prev \<Longrightarrow> length prev = 127 \<Longrightarrow>
    fst (handler_loop (pieces bs) (prev @ [NUL]) (out, st)) =
      out @ bs @ (let k = length bs mod 127 in if k = 0 then [] else take (127 - k) (drop (length bs) (prev @ bs)))"
proof (induction "length bs" arbitrary: bs prev out st rule: less_induct)
  case less
  show ?case
  proof (cases "bs = []")
    case True
    then show ?thesis by (simp add: pieces_Cons(2))
  next
    case ne: False
    show ?thesis
    proof (cases "length bs < 127")
      case True
      then have "pieces bs = [bs]" using ne by (simp add: pieces_Cons)
      moreover have "nonul (bs @ drop (length bs) prev)" using less.prems by (auto simp: nonul_def dest: in_set_dropD)
      then have "cstr (bs @ drop (length bs) prev @ [NUL]) = bs @ drop (length bs) prev" using cstr_line [of "bs @ drop (length bs) prev" "[]"] by simp
      ultimately show ?thesis using True ne less.prems by (simp add: Let_def)
    next
      case False
      let ?c = "take 127 bs" and ?r = "drop 127 bs"
      have lc: "length ?c = 127" using False by simp
      have n: "nonul ?c" "nonul ?r" using less.prems(1) by (auto simp: nonul_def dest: in_set_takeD in_set_dropD)
      have b: "?c @ drop (length ?c) (prev @ [NUL]) = ?c @ [NUL]" using lc less.prems(3) by simp
      have m: "length ?r mod 127 = length bs mod 127" using False by (simp add: le_mod_geq)
      have e: "drop (length ?r) (?c @ ?r) = drop (length bs) (prev @ bs)" if "length ?r < 127 \<or> True"
        using False less.prems(3) by (simp only: append_take_drop_id) simp
      have "fst (handler_loop (pieces bs) (prev @ [NUL]) (out, st)) = fst (handler_loop (pieces ?r) (?c @ [NUL]) (out @ ?c, st \<or> take 4 (?c @ [NUL]) = ''stop''))"
        using n(1) b unfolding pieces_Cons(1) [OF ne] handler_loop.simps Let_def b by simp
      also have "\<dots> = (out @ ?c) @ ?r @ (let k = length ?r mod 127 in if k = 0 then [] else take (127 - k) (drop (length ?r) (?c @ ?r)))"
        by (rule less.hyps) (use ne False n lc in simp_all)
      finally show ?thesis unfolding m e [OF disjI2 [OF TrueI]] by simp
    qed
  qed
qed

lemma handler_prints:
  assumes "nonul (waiting s)"
  shows "printed (sigio_handler s) = printed s @ waiting s @ stale (waiting s)"
proof -
  let ?bs = "waiting s"
  have p: "printed (sigio_handler s) = fst (handler_loop (pieces ?bs) (replicate 128 NUL) (printed s, stop s))"
    by (simp add: sigio_handler_def BUFLEN_def split: prod.split)
  show ?thesis
  proof (cases "length ?bs < 127")
    case True
    show ?thesis
    proof (cases "?bs = []")
      case False
      have "128 - length ?bs = Suc (127 - length ?bs)" using True by simp
      then have "replicate (128 - length ?bs) NUL = NUL # replicate (127 - length ?bs) NUL" by simp
      then have "cstr (?bs @ drop (length ?bs) (replicate 128 NUL)) = ?bs" using assms by simp
      moreover have "pieces ?bs = [?bs]" using True False by (simp add: pieces_Cons)
      ultimately show ?thesis unfolding p using True by (simp add: Let_def stale_def BUFLEN_def)
    qed (unfold p, simp add: pieces_Cons(2) stale_def BUFLEN_def)
  next
    case False
    let ?c = "take 127 ?bs" and ?r = "drop 127 ?bs"
    have n: "nonul ?c" "nonul ?r" "length ?c = 127" "?bs \<noteq> []" using assms False by (auto simp: nonul_def dest: in_set_takeD in_set_dropD)
    have "?c @ drop (length ?c) (replicate 128 NUL) = ?c @ [NUL]" using n(3) by simp
    then have "printed (sigio_handler s) = fst (handler_loop (pieces ?r) (?c @ [NUL]) (printed s @ ?c, stop s \<or> take 4 (?c @ [NUL]) = ''stop''))"
      using n(1) unfolding p pieces_Cons(1) [OF n(4)] handler_loop.simps Let_def by simp
    also have "\<dots> = (printed s @ ?c) @ ?r @ (let k = length ?r mod 127 in if k = 0 then [] else take (127 - k) (drop (length ?r) (?c @ ?r)))"
      by (rule handler_loop_full [OF n(2,1,3)])
    finally show ?thesis using False by (simp add: stale_def BUFLEN_def Let_def le_mod_geq)
  qed
qed

subsection \<open>Who is heard\<close>

definition sends :: "event \<Rightarrow> bool" where
  "sends e \<longleftrightarrow> e = Close \<or> (\<exists>b bs. e = Arrive (b # bs))"

text \<open>What the client has sent before it closed, and whether it has closed.\<close>

definition sent :: "event list \<Rightarrow> string" where
  "sent es = concat (List.map (\<lambda>e. case e of Arrive bs \<Rightarrow> bs | _ \<Rightarrow> []) (takeWhile (\<lambda>e. e \<noteq> Close) es))"

definition quiet_start :: "conn \<Rightarrow> bool" where
  "quiet_start s \<longleftrightarrow> \<not> nonblock s \<and> \<not> async s \<and> \<not> owned s \<and> disp s = Default \<and> \<not> signalled s \<and> \<not> stop s \<and> printed s = [] \<and> calls s = []"

lemma step_before: "quiet_start s \<Longrightarrow> e \<noteq> Enable \<Longrightarrow> quiet_start (conn_step e s)"
  by (cases e) (auto simp: quiet_start_def conn_step_def notify_def)

lemma run_before:
  "quiet_start s \<Longrightarrow> Enable \<notin> set es \<Longrightarrow> quiet_start (conn_run es s) \<and>
    waiting (conn_run es s) = (if eof s then waiting s else waiting s @ sent es) \<and> (eof (conn_run es s) \<longleftrightarrow> eof s \<or> Close \<in> set es)"
proof (induction es arbitrary: s)
  case (Cons e es)
  have ih: "quiet_start (conn_run es (conn_step e s)) \<and> waiting (conn_run es (conn_step e s)) =
      (if eof (conn_step e s) then waiting (conn_step e s) else waiting (conn_step e s) @ sent es) \<and>
      (eof (conn_run es (conn_step e s)) \<longleftrightarrow> eof (conn_step e s) \<or> Close \<in> set es)"
    using Cons by (intro Cons.IH step_before) auto
  have c: "conn_run (e # es) s = conn_run es (conn_step e s)" by (simp add: conn_run_def)
  show ?case unfolding c using ih Cons.prems
    by (cases e) (auto simp: conn_step_def notify_def sent_def quiet_start_def)
qed (simp add: conn_run_def sent_def)

text \<open>Once it is enabled, what waits unread either has a signal pending or came before.\<close>

definition enabled :: "conn \<Rightarrow> bool" where
  "enabled s \<longleftrightarrow> async s \<and> owned s \<and> disp s = Handler"

lemma enable_accepted: "quiet_start s \<Longrightarrow> conn_step Enable s = s\<lparr>nonblock := True, disp := Handler, owned := True, async := True\<rparr>"
  by (simp add: quiet_start_def conn_step_def enable_async_io_def try_call_def bnd_def run_simps)

definition settled :: "conn \<Rightarrow> bool" where
  "settled s \<longleftrightarrow> waiting s = [] \<and> (eof s \<longrightarrow> stop s)"

lemma handler_settles: "settled (sigio_handler s)" "enabled (sigio_handler s) = enabled s" "\<not> signalled (sigio_handler s)"
  by (auto simp: settled_def enabled_def sigio_handler_def split: prod.split)

lemma run_after:
  "enabled s \<Longrightarrow> enabled (conn_run es s) \<and> (signalled s \<or> settled s \<longrightarrow> signalled (conn_run es s) \<or> settled (conn_run es s))"
proof (induction es arbitrary: s)
  case (Cons e es)
  have "enabled (conn_step e s) \<and> (signalled s \<or> settled s \<longrightarrow> signalled (conn_step e s) \<or> settled (conn_step e s))"
    using Cons.prems handler_settles [of s] by (cases e) (auto simp: conn_step_def notify_def enabled_def settled_def)
  moreover have "conn_run (e # es) s = conn_run es (conn_step e s)" by (simp add: conn_run_def)
  ultimately show ?case using Cons.IH [of "conn_step e s"] by auto
qed (simp add: conn_run_def)

lemma run_append: "conn_run (es @ fs) s = conn_run fs (conn_run es s)"
  by (simp add: conn_run_def)

lemma heard_after:
  "enabled s \<Longrightarrow> \<not> eof s \<Longrightarrow> \<exists>e\<in>set es. sends e \<Longrightarrow> signalled (conn_run es s) \<or> settled (conn_run es s)"
proof (induction es arbitrary: s)
  case (Cons e es)
  have c: "conn_run (e # es) s = conn_run es (conn_step e s)" by (simp add: conn_run_def)
  show ?case
  proof (cases "sends e")
    case True
    then have "enabled (conn_step e s)" "signalled (conn_step e s)"
      using Cons.prems(1,2) by (auto simp: sends_def conn_step_def notify_def enabled_def)
    then show ?thesis unfolding c using run_after by blast
  next
    case False
    then have "enabled (conn_step e s)" "\<not> eof (conn_step e s)"
      using Cons.prems(1,2) handler_settles(2) [of s]
      by (cases e; auto simp: sends_def conn_step_def notify_def enabled_def sigio_handler_def neq_Nil_conv split: prod.split)+
    then show ?thesis unfolding c using Cons False by auto
  qed
qed simp

lemma unheard_after:
  "enabled s \<Longrightarrow> \<not> signalled s \<Longrightarrow> eof s \<or> (\<forall>e\<in>set es. \<not> sends e) \<Longrightarrow> conn_run es s = s"
proof (induction es arbitrary: s)
  case (Cons e es)
  then have "conn_step e s = s"
    by (cases e) (auto simp: sends_def conn_step_def enabled_def neq_Nil_conv)
  then show ?case using Cons by (auto simp: conn_run_def)
qed (simp add: conn_run_def)

text \<open>
  C17. What the server does with what its client sends, when the calls that enable asynchronous input succeed. A run of the handler on bytes
  without a NUL prints all of them, and after them again the end of the last full piece of 127 bytes that the last, shorter piece has not
  overwritten. Suppose that the events \<open>es1\<close> happen before the input is enabled and \<open>es2\<close> after it, with a signal delivered at the end. If
  the client has not closed in \<open>es1\<close> and sends or closes in \<open>es2\<close>, then nothing waits at the end and the server stops if the client
  has closed. Otherwise whatever the client sent in \<open>es1\<close> stays unread, nothing is printed and the server never stops, also when the client has
  closed: what comes before \<open>ioctl\<close> raises no signal.
\<close>

theorem async_server:
  fixes es1 es2 :: "event list"
  assumes "nonul (waiting s)" and "Enable \<notin> set es1"
  defines "t \<equiv> conn_run (es1 @ Enable # es2 @ [Deliver]) accepted"
  shows "printed (sigio_handler s) = printed s @ waiting s @ stale (waiting s) \<and>
    (if Close \<notin> set es1 \<and> (\<exists>e\<in>set es2. sends e) then waiting t = [] \<and> (eof t \<longrightarrow> stop t)
     else waiting t = sent es1 \<and> printed t = [] \<and> \<not> stop t)"
proof -
  let ?a = "conn_run es1 accepted"
  let ?b = "conn_step Enable ?a"
  have a: "quiet_start ?a" "waiting ?a = sent es1" "eof ?a \<longleftrightarrow> Close \<in> set es1"
    using run_before [of accepted es1] assms(2) by (auto simp: quiet_start_def accepted_def)
  have b: "enabled ?b" "\<not> signalled ?b" "waiting ?b = sent es1" "printed ?b = []" "\<not> stop ?b" "eof ?b \<longleftrightarrow> Close \<in> set es1"
    using a unfolding enable_accepted [OF a(1)] by (auto simp: enabled_def quiet_start_def)
  have t: "t = conn_step Deliver (conn_run es2 ?b)" by (simp add: t_def conn_run_def)
  have heard: "settled t" if "Close \<notin> set es1" "\<exists>e\<in>set es2. sends e"
  proof -
    have "signalled (conn_run es2 ?b) \<or> settled (conn_run es2 ?b)" "enabled (conn_run es2 ?b)"
      using heard_after [OF b(1) _ that(2)] run_after [OF b(1)] b(6) that(1) by auto
    then show ?thesis using handler_settles(1) unfolding t by (auto simp: conn_step_def enabled_def)
  qed
  have unheard: "t = ?b" if "Close \<in> set es1 \<or> (\<forall>e\<in>set es2. \<not> sends e)"
    using unheard_after [OF b(1,2), of es2] b(2,6) that unfolding t by (auto simp: conn_step_def)
  show ?thesis using handler_prints [OF assms(1)] heard unheard b by (auto simp: settled_def)
qed

text \<open>
  The witness: 130 bytes print their last piece of three with 124 bytes of the first piece behind it; a client that sends before the server is ready
  and then closes is not heard of, and one that closes afterwards is.
\<close>

lemma async_server_witness:
  defines "s \<equiv> accepted\<lparr>waiting := replicate 127 (CHR ''a'') @ ''bcd''\<rparr>"
  shows "printed (sigio_handler s) = replicate 127 (CHR ''a'') @ ''bcd'' @ replicate 124 (CHR ''a'') \<and>
    \<not> stop (conn_run [Arrive ''stop'', Close, Enable, Deliver] accepted) \<and>
    waiting (conn_run [Arrive ''x'', Enable, Close, Deliver] accepted) = []"
proof -
  have n: "nonul (waiting s)" by (auto simp: s_def nonul_def)
  have st: "stale (waiting s) = replicate 124 (CHR ''a'')" by (simp add: s_def stale_def BUFLEN_def Let_def)
  have "printed (sigio_handler s) = replicate 127 (CHR ''a'') @ ''bcd'' @ replicate 124 (CHR ''a'')"
    using async_server [OF n, of "[]" "[]"] unfolding st by (simp add: s_def accepted_def)
  moreover have "\<not> stop (conn_run [Arrive ''stop'', Close, Enable, Deliver] accepted)"
    using async_server [OF n, of "[Arrive ''stop'', Close]" "[]"] by simp
  moreover have "waiting (conn_run [Arrive ''x'', Enable, Close, Deliver] accepted) = []"
    using async_server [OF n, of "[Arrive ''x'']" "[Close]"] by (simp add: sends_def)
  ultimately show ?thesis by simp
qed

end
