(* ===== verification/Spec2Isabelle.thy ===== *)
theory Spec2Isabelle
  imports DbProps PrintConf PrinterStatus PrintClient OpendLoop Opend FMemOpen MyDup2 RefCount Barrier Semaph TtyModes Popen FileWalk SparseCopy WorkerPool TellWait ErrLib MyBarrier PrintMain LocalSock MemCookie Ruptime AsyncInput
begin

section \<open>The programs of \<open>apue.3e\<close> and of the exercises, modelled and verified\<close>

text \<open>
  The repository holds the source code of "Advanced Programming in the UNIX Environment" (\<open>apue.3e/\<close>) and
  solutions of its exercises (\<open>ChapterNN/\<close>). This development models the parts that have logic of their own and proves what
  they promise, or what they do instead. Every definition is executable; what the kernel and the C library do is either written
  out over an explicit state or a parameter (an answer of a call, a plan of calls that fail, an order of
  events), so that the theorems hold for every such behaviour.

  \<^bold>\<open>The parts and how they interact.\<close>
  (1) The key-value database \<open>db/db.c\<close>. (2) The print spooler: the command \<open>printer/print.c\<close>, the daemon \<open>printer/printd.c\<close> with its
  threads, and the configuration and robust reads in \<open>printer/util.c\<close>. (3) The open server, \<open>ipc2/open\<close> and \<open>ipc2/opend\<close>, over
  descriptor passing (\<open>lib/sendfd.c\<close>, \<open>lib/recvfd.c\<close>, \<open>lib/senderr.c\<close>), the connections of \<open>lib/cliconn.c\<close>, \<open>lib/servlisten.c\<close> and
  \<open>lib/servaccept.c\<close>, and argument parsing (\<open>lib/bufargs.c\<close>). (4) The uptime servers and the functions that all servers
  use: \<open>lib/daemonize.c\<close> and the two \<open>initserver\<close>. (5) Library functions on their own: errors, pipes to commands, terminal modes, turn
  taking by signals, semaphores, memory streams, \<open>dup2\<close>, the walk of a file hierarchy, a copy with holes. (6) Programs whose point is concurrency:
  reference counts, a parallel sort, the queue with a reader-writer lock, threads that wait for jobs, a barrier.

  \<^bold>\<open>Shared theories.\<close>
  \<open>Prelude\<close> has the shape of a C function that may stop: a function from a state to a result or an error, and the state it
  leaves (\<open>prog\<close>, with \<open>ret\<close>, \<open>bnd\<close>, \<open>check\<close>, \<open>gets\<close>, \<open>modify\<close>; \<open>runs m s x t\<close> says that \<open>m\<close> returns \<open>x\<close> and \<open>keeps R m\<close> that it always
  keeps the relation \<open>R\<close>), and the rule of the lowest free descriptor (\<open>lowest\<close>). \<open>CString\<close> has strings that end in a null
  byte and decimal numbers, printed and read back. \<open>RobustIO\<close> has descriptors whose reads and writes are short or
  fail (\<open>readn\<close>, \<open>writen\<close>, \<open>tread\<close>, \<open>treadn\<close>); \<open>WireFormat\<close> has integers as bytes. \<open>Dll\<close> has doubly linked lists of nodes on a heap
  and the locale \<open>deque\<close>; \<open>KvStore\<close> the locale \<open>kv_store\<close>; \<open>Progress\<close> the locale \<open>ending_system\<close> for threads whose steps use up a measure.
  Each locale is interpreted on the model of the code: \<open>deque\<close> on the two job queues (\<open>JobQueue\<close>), \<open>kv_store\<close> on the database
  (\<open>DbApi\<close>), \<open>ending_system\<close> on the worker pool, the barrier and the processes that take turns; and \<open>file_frame\<close> with \<open>write_frame\<close> in \<open>DbSafety\<close>
  on three relations between states.

  \<^bold>\<open>The database\<close> (\<open>DbOps\<close> to \<open>DbProps\<close>). \<open>DbOps\<close> translates \<open>db.c\<close> function by function over the record \<open>db\<close>: the bytes of the
  two files, their positions, the record locks byte by byte, the fields of the C structure, and a plan of faults. \<open>DbIndex\<close> gives
  the index file as data and its printed form, \<open>DbBytes\<close> what each function does to the bytes, \<open>DbLayout\<close> the invariant of hash chains and free list as a heap,
  \<open>DbCorrect\<close> and \<open>DbStore\<close> that fetch, delete and store keep it and change the represented map as they should, \<open>DbApi\<close> open and
  close, \<open>DbScan\<close> the sequential scan, \<open>DbSafety\<close> what holds whatever fails. The loops over a chain have as fuel the length of the index
  file plus 2: every record of a chain has bytes of its own there, and the theorems about reading and writing show results, so fuel never
  runs out on a well-formed file; on a cyclic one it ends with an error. The scan is given a number of calls of \<open>db_nextrec\<close>; one more than there are
  records is enough for it to end with the null pointer.

  \<^bold>\<open>The print spooler.\<close> \<open>JobQueue\<close> has the job list of the daemon, the list of worker threads (with its bug) and the
  queue of \<open>threads/rwlock.c\<close>. \<open>Printd\<close> has the state of the daemon and its job numbers, spool directory, client thread, signal thread and
  restart; \<open>Printer\<close> the printer thread with the IPP and HTTP headers, the connection and \<open>printer_status\<close>; \<open>PrinterStatus\<close> what the headers
  decode to and which responses are understood; \<open>PrintConf\<close> the configuration file; \<open>PrintClient\<close> the command \<open>print\<close>, composed with the client thread;
  \<open>PrintMain\<close> the start of the daemon, from \<open>daemonize\<close> on, and its \<open>select\<close> loop. The parser of the response has a fuel for its rounds: it is enough
  when it is more than the number of bytes before the length field plus 2, and \<open>printer_status_cut\<close> shows a case where no fuel is enough,
  which is an endless loop of the source. The printer thread runs from one wait for a job to the next and the client thread from its start to its end, each as one
  step, across the times at which it waits for the other side of its connection; meanwhile the other threads run, which share with it only what the locks around the queue, the job
  counter, the list of workers and the configuration protect, and use files of other job numbers. So \<open>Printd\<close> and \<open>Printer\<close> say what one thread does and leaves, and not how the
  timed reads of several are interleaved. The memory of a turn, its descriptors and its sleeps are left out, but for the descriptors that the start of the daemon
  leaves open.

  \<^bold>\<open>The open server and its connections.\<close> \<open>FdPass\<close> has stream sockets as lists of segments that carry bytes and at most one
  open file, and the three functions that send and receive; \<open>BufArgs\<close> has the argument parser on the bytes of its buffer; \<open>Opend\<close> the
  request handler and the client composed; \<open>OpendLoop\<close> the table of clients and one round of the \<open>select\<close> and of the \<open>poll\<close> loop as functions of
  what the kernel reports, with reachability as an inductive predicate; \<open>LocalSock\<close> the names through which the server learns the user of a client.

  \<^bold>\<open>Servers.\<close> \<open>Daemon\<close> models \<open>daemonize\<close> over the table of descriptors and the attributes of a process, \<open>ServerSock\<close> the two \<open>initserver\<close>,
  \<open>Ruptime\<close> the servers of \<open>sockets/ruptimed-fd.c\<close> and \<open>Chapter16/exercise_5.c\<close> from \<open>main\<close> to the tables of the commands they start,
  \<open>AsyncInput\<close> the server of \<open>Chapter16/exercise_6.c\<close> that reads in a signal handler, as events on its connection in any order.

  \<^bold>\<open>Library functions.\<close> \<open>ErrLib\<close>: \<open>lib/error.c\<close>, \<open>lib/errorlog.c\<close>. \<open>Popen\<close>: \<open>lib/popen.c\<close>, \<open>lib/openmax.c\<close>. \<open>TtyModes\<close>: \<open>lib/ttymodes.c\<close>.
  \<open>TellWait\<close>: \<open>lib/tellwait.c\<close> with \<open>Chapter15/exercise_15.c\<close>. \<open>Semaph\<close>: \<open>lib/semaph.c\<close>. \<open>FMemOpen\<close>: \<open>exercises/fmemopen.c\<close>. \<open>MemCookie\<close>: \<open>Chapter05/exercise_7.c\<close>.
  \<open>MyDup2\<close>: \<open>Chapter03/my_dup2.c\<close>. \<open>FileWalk\<close>: \<open>filedir/ftw8.c\<close>, \<open>lib/pathalloc.c\<close>; its fuel is the depth of the recursion, and more than the depth of
  the tree is enough. \<open>SparseCopy\<close>: \<open>Chapter04/exercise_6.c\<close>.

  \<^bold>\<open>Concurrency.\<close> \<open>RefCount\<close> (\<open>threads/mutex1.c\<close> to \<open>mutex3.c\<close>), \<open>Barrier\<close> (\<open>threads/barrier.c\<close>), \<open>WorkerPool\<close> (\<open>Chapter11/exercise_3.c\<close>),
  \<open>MyBarrier\<close> (\<open>Chapter11/exercise_5.c\<close>), \<open>TellWait\<close> and \<open>Semaph\<close> are step relations: a thread has a place in its function, a step is the code up to the next
  point where another can interfere (taking a lock, waiting, a signal), and any interleaving is allowed, with wakeups without
  a broadcast and signals at any time. Invariants are proved for all reachable states; the measure of \<open>Progress\<close> gives
  the bound on the number of steps and that the end can always be reached.

  \<^bold>\<open>What the groups of lemmas show.\<close> Per component: a representation or well-formedness invariant that every operation keeps; what each operation
  does on every branch, its errors included; and, at the end of the theory, the properties, each with a concrete instance where it has hypotheses. Words are used where
  wrap-around or bits matter (job numbers, hash values, terminal flags, file modes, the positions of \<open>MemCookie\<close>), integers and naturals elsewhere.
  A result \<open>None\<close> or an error such as \<open>BadAccess\<close>, \<open>Overflow\<close> or \<open>Overrun\<close> stands for undefined behaviour: a dangling pointer, a write
  past a buffer, a signed overflow. Where the source has such a bug the theorem says when it happens.

  \<^bold>\<open>Not modelled.\<close> The example programs that show one system call each and have no logic beyond it (\<open>apue.3e/\<close>: \<open>advio\<close>, \<open>daemons\<close>, \<open>datafiles\<close>,
  \<open>environ\<close>, \<open>fileio\<close>, \<open>intro\<close>, \<open>ipc1\<close>, \<open>proc\<close>, \<open>pty\<close>, \<open>relation\<close>, \<open>signals\<close>, \<open>standards\<close>, \<open>stdio\<close>, \<open>termios\<close>, \<open>threadctl\<close>, the rest of \<open>exercises\<close>, \<open>filedir\<close>, \<open>ipc2\<close>,
  \<open>sockets\<close>, \<open>threads\<close>), the library functions that only wrap a call, and the exercises of the same kind: what they do is what the kernel does,
  so a model would restate the manual page. The functions \<open>main\<close> that only check arguments and print. In the modelled parts, the texts of
  log messages, except where a bug lies in them, and the contents of \<open>errno\<close> where nobody reads it.
\<close>

end
